(* ===== verification/Prelude.thy ===== *)
theory Prelude
  imports Main "HOL-Library.Word" "HOL-Library.Code_Target_Nat"
begin

text \<open>
  Types and lemmas shared by every component: C integers as words, a C pointer-and-length
  pair as a datatype that keeps the null pointer, the library's result codes, and the
  facts about big-endian byte strings that the two integer encodings rest on.
\<close>

unbundle bit_operations_syntax

section \<open>Lemma collections\<close>

named_theorems codec_simps \<open>evaluation of the integer encodings\<close>
named_theorems rd_simps \<open>unfolding of reader operations\<close>
named_theorems wr_simps \<open>unfolding of writer operations\<close>

section \<open>C types\<close>

type_synonym u8 = "8 word"
type_synonym u16 = "16 word"
type_synonym u32 = "32 word"
type_synonym u64 = "64 word"

abbreviation UINT64_MAX :: u64 where
  "UINT64_MAX \<equiv> 0xFFFFFFFFFFFFFFFF"

text \<open>
  A pointer to an array together with its element count. \<open>Null n\<close> is the null pointer with
  the count \<open>n\<close> the caller claims for it; \<open>Arr xs\<close> points to \<open>length xs\<close> elements.
  \<open>size_t\<close> is \<open>nat\<close>.
\<close>

datatype 'a cptr = Null nat | Arr "'a list"

primrec plen :: "'a cptr \<Rightarrow> nat" where
  "plen (Null n) = n"
| "plen (Arr xs) = length xs"

primrec is_null :: "'a cptr \<Rightarrow> bool" where
  "is_null (Null n) = True"
| "is_null (Arr xs) = False"

primrec elems :: "'a cptr \<Rightarrow> 'a list" where
  "elems (Null n) = []"
| "elems (Arr xs) = xs"

text \<open>Pointer arithmetic \<open>p + n\<close>, the count reduced accordingly.\<close>

primrec padvance :: "nat \<Rightarrow> 'a cptr \<Rightarrow> 'a cptr" where
  "padvance n (Null m) = Null (m - n)"
| "padvance n (Arr xs) = Arr (drop n xs)"

text \<open>The view \<open>{p, n}\<close> of the first \<open>n\<close> elements.\<close>

primrec ptake :: "nat \<Rightarrow> 'a cptr \<Rightarrow> 'a cptr" where
  "ptake n (Null m) = Null n"
| "ptake n (Arr xs) = Arr (take n xs)"

type_synonym moq_bytes = "u8 cptr"
type_synonym moq_namespace = "moq_bytes cptr"

lemma plen_elems [simp]: "\<not> is_null p \<Longrightarrow> length (elems p) = plen p"
  by (cases p) auto

lemma not_null_Arr: "\<not> is_null p \<Longrightarrow> p = Arr (elems p)"
  by (cases p) auto

lemma plen_padvance [simp]: "plen (padvance n p) = plen p - n"
  by (cases p) auto

lemma is_null_padvance [simp]: "is_null (padvance n p) = is_null p"
  by (cases p) auto

lemma elems_padvance [simp]: "elems (padvance n p) = drop n (elems p)"
  by (cases p) auto

lemma elems_ptake [simp]: "elems (ptake n p) = take n (elems p)"
  by (cases p) auto

section \<open>Result codes\<close>

text \<open>
  The codes of \<open>moq/types.h\<close>, the private codes of the draft-22 codec
  (\<open>MOQ_D22_ERR_KVP_FORMAT\<close>, \<open>MOQ_D22_ERR_INVALID_FILTER\<close>) and those of the request
  lifetime machine.
\<close>

datatype moq_result =
    MOQ_OK | MOQ_DONE
  | MOQ_ERR_NOMEM | MOQ_ERR_INVAL | MOQ_ERR_PROTO | MOQ_ERR_CLOSED | MOQ_ERR_WRONG_STATE
  | MOQ_ERR_STALE_HANDLE | MOQ_ERR_WRONG_SESSION | MOQ_ERR_WOULD_BLOCK | MOQ_ERR_BUFFER
  | MOQ_ERR_REQUEST_BLOCKED | MOQ_ERR_ABI_MISMATCH | MOQ_ERR_GOAWAY | MOQ_ERR_INTERRUPTED
  | MOQ_ERR_UNSUPPORTED | MOQ_ERR_INPUT_NOT_CONSUMED | MOQ_ERR_LIMIT | MOQ_ERR_CAPACITY
  | MOQ_ERR_INTERNAL
  | MOQ_D22_ERR_KVP_FORMAT | MOQ_D22_ERR_INVALID_FILTER
  | MOQ_REQUEST_LIFETIME_FAILED | MOQ_REQUEST_LIFETIME_UPDATE_LIMIT
  | MOQ_REQUEST_LIFETIME_TERMINAL_CROSSING

fun moq_code :: "moq_result \<Rightarrow> int" where
  "moq_code MOQ_OK = 0"
| "moq_code MOQ_DONE = 1"
| "moq_code MOQ_ERR_NOMEM = -1"
| "moq_code MOQ_ERR_INVAL = -2"
| "moq_code MOQ_ERR_PROTO = -3"
| "moq_code MOQ_ERR_CLOSED = -4"
| "moq_code MOQ_ERR_WRONG_STATE = -5"
| "moq_code MOQ_ERR_STALE_HANDLE = -6"
| "moq_code MOQ_ERR_WRONG_SESSION = -7"
| "moq_code MOQ_ERR_WOULD_BLOCK = -8"
| "moq_code MOQ_ERR_BUFFER = -9"
| "moq_code MOQ_ERR_REQUEST_BLOCKED = -10"
| "moq_code MOQ_ERR_ABI_MISMATCH = -11"
| "moq_code MOQ_ERR_GOAWAY = -12"
| "moq_code MOQ_ERR_INTERRUPTED = -13"
| "moq_code MOQ_ERR_UNSUPPORTED = -14"
| "moq_code MOQ_ERR_INPUT_NOT_CONSUMED = -15"
| "moq_code MOQ_ERR_LIMIT = -16"
| "moq_code MOQ_ERR_CAPACITY = -17"
| "moq_code MOQ_ERR_INTERNAL = -99"
| "moq_code MOQ_D22_ERR_KVP_FORMAT = -200"
| "moq_code MOQ_D22_ERR_INVALID_FILTER = -201"
| "moq_code MOQ_REQUEST_LIFETIME_FAILED = -210"
| "moq_code MOQ_REQUEST_LIFETIME_UPDATE_LIMIT = -211"
| "moq_code MOQ_REQUEST_LIFETIME_TERMINAL_CROSSING = -212"

section \<open>Big-endian byte strings\<close>

text \<open>
  \<open>be_bytes n v\<close> is the low \<open>n\<close> bytes of \<open>v\<close>, most significant first; \<open>be_fold\<close> is the
  loop that shifts bytes into an accumulator.
\<close>

fun be_bytes :: "nat \<Rightarrow> u64 \<Rightarrow> u8 list" where
  "be_bytes 0 v = []"
| "be_bytes (Suc n) v = ucast (drop_bit (8 * n) v) # be_bytes n v"

fun be_fold :: "u64 \<Rightarrow> u8 list \<Rightarrow> u64" where
  "be_fold v [] = v"
| "be_fold v (b # bs) = be_fold (push_bit 8 v OR ucast b) bs"

lemma length_be_bytes [simp]: "length (be_bytes n v) = n"
  by (induction n) auto

lemma be_bytes_numeral [simp]:
  "be_bytes (numeral k) v = ucast (drop_bit (8 * pred_numeral k) v) # be_bytes (pred_numeral k) v"
  by (simp add: numeral_eq_Suc)

lemma be_fold_append: "be_fold v (xs @ ys) = be_fold (be_fold v xs) ys"
  by (induction xs arbitrary: v) auto

lemma shift_in_byte: "push_bit 8 (drop_bit 8 w) OR ucast (ucast w :: u8) = (w :: u64)"
  by (rule bit_word_eqI) (auto simp: bit_simps)

lemma be_fold_bytes: "be_fold (drop_bit (8 * n) v) (be_bytes n v) = v"
proof (induction n)
  case 0
  then show ?case by simp
next
  case (Suc n)
  have "drop_bit (8 * Suc n) v = drop_bit 8 (drop_bit (8 * n) v)"
    by (simp add: drop_bit_drop_bit add.commute)
  then have "push_bit 8 (drop_bit (8 * Suc n) v) OR ucast (ucast (drop_bit (8 * n) v) :: u8)
      = drop_bit (8 * n) v"
    by (simp only: shift_in_byte)
  with Suc show ?case by simp
qed

lemma take_bit_self_iff: "take_bit k w = w \<longleftrightarrow> unat w < 2 ^ k" for w :: "'a::len word"
proof -
  have "take_bit k w = w \<longleftrightarrow> unat (take_bit k w) = unat w"
    by (simp only: word_unat_eq_iff)
  then show ?thesis
    by (simp add: unsigned_take_bit_eq take_bit_nat_eq_self_iff)
qed

lemma unat_less_bit: "unat w < 2 ^ k \<Longrightarrow> bit w n \<Longrightarrow> n < k" for w :: "'a::len word"
proof -
  assume "unat w < 2 ^ k" and b: "bit w n"
  then have "take_bit k w = w"
    by (simp only: take_bit_self_iff)
  then have "bit (take_bit k w) n"
    using b by (simp only:)
  then show "n < k"
    by (simp only: bit_take_bit_iff)
qed

lemma unat_less_bitI: "(\<And>n. bit w n \<Longrightarrow> n < k) \<Longrightarrow> unat w < 2 ^ k" for w :: "'a::len word"
  unfolding take_bit_self_iff [symmetric]
  by (rule bit_word_eqI) (auto simp: bit_take_bit_iff)

lemma unat_shift_in_byte:
  fixes v :: u64 and b :: u8
  assumes "unat v < 2 ^ k"
  shows "unat (push_bit 8 v OR ucast b) < 2 ^ (k + 8)"
proof (rule unat_less_bitI)
  fix n assume "bit (push_bit 8 v OR (ucast b :: u64)) n"
  then consider "8 \<le> n" "bit v (n - 8)" | "bit b n"
    by (auto simp: bit_simps)
  then show "n < k + 8"
  proof cases
    case 1
    with unat_less_bit [OF assms] have "n - 8 < k" by blast
    with 1 show ?thesis by simp
  next
    case 2
    then have "n < 8" using bit_imp_le_length by fastforce
    then show ?thesis by simp
  qed
qed

lemma unat_be_fold: "unat v < 2 ^ k \<Longrightarrow> unat (be_fold v bs) < 2 ^ (k + 8 * length bs)"
proof (induction bs arbitrary: v k)
  case Nil
  then show ?case by simp
next
  case (Cons b bs)
  from Cons.IH [OF unat_shift_in_byte [OF Cons.prems]]
  show ?case by (simp add: algebra_simps)
qed

section \<open>64-bit arithmetic\<close>

lemma unat64_le: "unat (x :: u64) \<le> 18446744073709551615"
proof -
  have "unat x < 2 ^ LENGTH(64)" by (rule unsigned_less)
  then show ?thesis by simp
qed

lemma u64_le_max: "x \<le> UINT64_MAX"
  using unat64_le [of x] by (simp add: word_le_nat_alt)

lemma unat_max_minus: "unat (UINT64_MAX - x) = 18446744073709551615 - unat x"
  by (simp add: unat_sub [OF u64_le_max])

text \<open>A delta between ascending types passes the overflow check and leads to the next type.\<close>

lemma delta_fits: "prev \<le> t \<Longrightarrow> \<not> UINT64_MAX - prev < t - prev"
  using unat64_le [of t] by (simp add: word_less_nat_alt unat_max_minus unat_sub)

lemma delta_sum:
  fixes d :: u64
  assumes "\<not> UINT64_MAX - prev < d"
  shows unat_delta_sum: "unat (prev + d) = unat prev + unat d"
    and delta_sum_ge: "prev \<le> prev + d"
proof -
  have "unat prev + unat d < 2 ^ 64"
    using assms unat64_le [of prev] by (simp add: word_less_nat_alt unat_max_minus not_less)
  then show *: "unat (prev + d) = unat prev + unat d"
    by (simp add: unat_plus_if')
  show "prev \<le> prev + d"
    unfolding word_le_nat_alt * by simp
qed

text \<open>Counting the elements that satisfy a predicate across an update.\<close>

lemma count_update:
  "i < length xs \<Longrightarrow>
   length (filter P (xs[i := x])) + (if P (xs ! i) then 1 else 0)
   = length (filter P xs) + (if P x then 1 else 0)"
proof (induction xs arbitrary: i)
  case (Cons y ys)
  show ?case
  proof (cases i)
    case (Suc j)
    then show ?thesis using Cons.IH [of j] Cons.prems by simp
  qed simp
qed simp

text \<open>Updating one slot: what holds of every element, and injectivity of a key over the slots that
  satisfy a predicate.\<close>

lemma update_set_all:
  "\<forall>x \<in> set xs. P x \<Longrightarrow> P y \<Longrightarrow> \<forall>x \<in> set (xs[i := y]). P x"
  using set_update_subset_insert [of xs i y] by blast

lemma inj_on_fresh:
  assumes "inj_on (\<lambda>j. f (xs ! j)) {j. j < length xs \<and> P (xs ! j)}" and "i < length xs"
    and "\<forall>x \<in> set xs. P x \<longrightarrow> f x \<noteq> f y"
  shows "inj_on (\<lambda>j. f (xs[i := y] ! j)) {j. j < length (xs[i := y]) \<and> P (xs[i := y] ! j)}"
proof (rule inj_onI)
  fix a b assume *: "a \<in> {j. j < length (xs[i := y]) \<and> P (xs[i := y] ! j)}"
    "b \<in> {j. j < length (xs[i := y]) \<and> P (xs[i := y] ! j)}" "f (xs[i := y] ! a) = f (xs[i := y] ! b)"
  have "f (xs ! c) \<noteq> f y" if "c < length xs" "P (xs ! c)" for c using assms(3) that by simp
  then show "a = b"
    using * assms(1,2) inj_onD [OF assms(1), of a b] by (cases "a = i"; cases "b = i") auto
qed

lemma inj_on_removed:
  assumes "inj_on (\<lambda>j. f (xs ! j)) {j. j < length xs \<and> P (xs ! j)}" and "i < length xs" and "\<not> P y"
  shows "inj_on (\<lambda>j. f (xs[i := y] ! j)) {j. j < length (xs[i := y]) \<and> P (xs[i := y] ! j)}"
proof (rule inj_onI)
  fix a b assume *: "a \<in> {j. j < length (xs[i := y]) \<and> P (xs[i := y] ! j)}"
    "b \<in> {j. j < length (xs[i := y]) \<and> P (xs[i := y] ! j)}" "f (xs[i := y] ! a) = f (xs[i := y] ! b)"
  then show "a = b"
    using assms(2,3) inj_onD [OF assms(1), of a b] by (cases "a = i"; cases "b = i") auto
qed

text \<open>\<open>SIZE_MAX\<close> of a 64-bit target, and addition of \<open>size_t\<close> values, which wraps.\<close>

abbreviation SIZE_MAX :: nat where
  "SIZE_MAX \<equiv> 18446744073709551615"

definition size_add :: "nat \<Rightarrow> nat \<Rightarrow> nat" where
  "size_add a b = (a + b) mod 18446744073709551616"

lemma size_add_small: "a + b \<le> SIZE_MAX \<Longrightarrow> size_add a b = a + b"
  by (simp add: size_add_def)

lemma size_add_wraps: "a \<le> SIZE_MAX \<Longrightarrow> b \<le> SIZE_MAX \<Longrightarrow> size_add a b < a \<longleftrightarrow> SIZE_MAX < a + b"
  by (cases "a + b \<le> SIZE_MAX") (auto simp: size_add_def mod_if)

text \<open>The first index whose element satisfies a predicate: a C search loop that breaks on a match.\<close>

fun first_index :: "('a \<Rightarrow> bool) \<Rightarrow> 'a list \<Rightarrow> nat option" where
  "first_index P [] = None"
| "first_index P (x # xs) = (if P x then Some 0 else map_option Suc (first_index P xs))"

lemma first_index_Some_iff:
  "first_index P xs = Some i \<longleftrightarrow> i < length xs \<and> P (xs ! i) \<and> (\<forall>j < i. \<not> P (xs ! j))"
proof (induction xs arbitrary: i)
  case (Cons x xs)
  show ?case by (cases i) (auto simp: Cons.IH All_less_Suc2)
qed simp

lemma first_index_None_iff: "first_index P xs = None \<longleftrightarrow> (\<forall>x \<in> set xs. \<not> P x)"
  by (induction xs) auto

lemma first_index_cong: "xs = ys \<Longrightarrow> (\<And>x. x \<in> set ys \<Longrightarrow> P x = Q x) \<Longrightarrow> first_index P xs = first_index Q ys"
  by (induction xs arbitrary: ys) auto

text \<open>A table of slots read as a map: the elements in use, by a key that is injective on them.\<close>

definition keyed :: "('a \<Rightarrow> bool) \<Rightarrow> ('a \<Rightarrow> 'k) \<Rightarrow> 'a list \<Rightarrow> 'k \<Rightarrow> 'a option" where
  "keyed P key xs k = find (\<lambda>x. P x \<and> key x = k) xs"

definition key_unique :: "('a \<Rightarrow> bool) \<Rightarrow> ('a \<Rightarrow> 'k) \<Rightarrow> 'a list \<Rightarrow> bool" where
  "key_unique P key xs \<longleftrightarrow> inj_on (\<lambda>i. key (xs ! i)) {i. i < length xs \<and> P (xs ! i)}"

lemma option_ext: "(\<And>x. a = Some x \<longleftrightarrow> b = Some x) \<Longrightarrow> a = b"
  by (cases a; cases b) auto

lemma key_uniqueD:
  "key_unique P key xs \<Longrightarrow> i < length xs \<Longrightarrow> j < length xs \<Longrightarrow> P (xs ! i) \<Longrightarrow> P (xs ! j) \<Longrightarrow>
   key (xs ! i) = key (xs ! j) \<Longrightarrow> i = j"
  unfolding key_unique_def inj_on_def by blast

lemma keyed_SomeD: "keyed P key xs k = Some x \<Longrightarrow> x \<in> set xs \<and> P x \<and> key x = k"
  by (auto simp: keyed_def find_Some_iff)

lemma keyed_None_iff: "keyed P key xs k = None \<longleftrightarrow> (\<forall>x \<in> set xs. P x \<longrightarrow> key x \<noteq> k)"
  by (auto simp: keyed_def find_None_iff)

lemma keyed_Some_iff:
  assumes "key_unique P key xs"
  shows "keyed P key xs k = Some x \<longleftrightarrow> (\<exists>i < length xs. xs ! i = x \<and> P x \<and> key x = k)"
proof
  assume "keyed P key xs k = Some x"
  then show "\<exists>i < length xs. xs ! i = x \<and> P x \<and> key x = k"
    by (auto simp: keyed_def find_Some_iff)
next
  assume "\<exists>i < length xs. xs ! i = x \<and> P x \<and> key x = k"
  then obtain i where i: "i < length xs" "xs ! i = x" "P x" "key x = k" by blast
  have "\<not> (P (xs ! j) \<and> key (xs ! j) = k)" if "j < i" for j
    using key_uniqueD [OF assms, of i j] i that by auto
  then show "keyed P key xs k = Some x"
    using i by (auto simp: keyed_def find_Some_iff)
qed

lemma key_unique_fresh:
  "key_unique P key xs \<Longrightarrow> i < length xs \<Longrightarrow> keyed P key xs (key x) = None \<Longrightarrow> key_unique P key (xs[i := x])"
  unfolding key_unique_def keyed_None_iff by (intro inj_on_fresh) auto

lemma key_unique_same:
  assumes "key_unique P key xs" and "i < length xs" and "P (xs ! i)" and "key x = key (xs ! i)"
  shows "key_unique P key (xs[i := x])"
proof -
  have keep: "P (xs[i := x] ! j) \<Longrightarrow> P (xs ! j)" "key (xs[i := x] ! j) = key (xs ! j)" if "j < length xs" for j
    using that assms(2-4) by (cases "j = i"; simp)+
  show ?thesis
    unfolding key_unique_def
  proof (rule inj_onI)
    fix a b
    assume *: "a \<in> {j. j < length (xs[i := x]) \<and> P (xs[i := x] ! j)}"
      "b \<in> {j. j < length (xs[i := x]) \<and> P (xs[i := x] ! j)}" "key (xs[i := x] ! a) = key (xs[i := x] ! b)"
    then have "a < length xs" "b < length xs" by simp_all
    with * keep [of a] keep [of b] show "a = b" by (intro key_uniqueD [OF assms(1)]) simp_all
  qed
qed

lemma key_unique_removed:
  "key_unique P key xs \<Longrightarrow> i < length xs \<Longrightarrow> \<not> P x \<Longrightarrow> key_unique P key (xs[i := x])"
  unfolding key_unique_def by (intro inj_on_removed) auto

lemma keyed_update:
  assumes "key_unique P key xs" and "key_unique P key (xs[i := x])" and "i < length xs" and "P x"
    and "P (xs ! i) \<Longrightarrow> key (xs ! i) = key x"
  shows "keyed P key (xs[i := x]) = (keyed P key xs)(key x \<mapsto> x)"
proof (rule ext, rule option_ext)
  fix k y
  have new: "keyed P key (xs[i := x]) (key x) = Some x"
    using assms unfolding keyed_Some_iff [OF assms(2)] by (auto intro!: exI [of _ i])
  show "keyed P key (xs[i := x]) k = Some y \<longleftrightarrow> ((keyed P key xs)(key x \<mapsto> x)) k = Some y"
  proof (cases "k = key x")
    case True
    then show ?thesis using new by simp
  next
    case False
    then show ?thesis
      using assms(3-5) unfolding fun_upd_other [OF False] keyed_Some_iff [OF assms(1)] keyed_Some_iff [OF assms(2)]
      by (auto simp: nth_list_update split: if_splits; metis)
  qed
qed

lemma keyed_remove:
  assumes "key_unique P key xs" and "i < length xs" and "\<not> P x" and "P (xs ! i)"
  shows "keyed P key (xs[i := x]) = (keyed P key xs)(key (xs ! i) := None)"
proof (rule ext, rule option_ext)
  fix k y
  have uniq: "j = i" if "j < length xs" "P (xs ! j)" "key (xs ! j) = key (xs ! i)" for j
    using key_uniqueD [OF assms(1), of j i] assms that by auto
  show "keyed P key (xs[i := x]) k = Some y \<longleftrightarrow> ((keyed P key xs)(key (xs ! i) := None)) k = Some y"
    using assms(2-4) uniq unfolding fun_upd_apply
    by (auto simp: keyed_Some_iff [OF assms(1)] keyed_Some_iff [OF key_unique_removed [OF assms(1-3)]]
        nth_list_update split: if_splits; metis)
qed

text \<open>Summing a measure of the elements in use across an update.\<close>

lemma sum_update:
  fixes g :: "'a \<Rightarrow> 'b :: comm_monoid_add"
  shows "i < length xs \<Longrightarrow>
   sum_list (map g (filter P (xs[i := x]))) + (if P (xs ! i) then g (xs ! i) else 0)
   = sum_list (map g (filter P xs)) + (if P x then g x else 0)"
proof (induction xs arbitrary: i)
  case (Cons y ys)
  show ?case
  proof (cases i)
    case (Suc j)
    let ?y = "if P y then g y else 0"
    have split: "sum_list (map g (filter P (y # zs))) = ?y + sum_list (map g (filter P zs))" for zs by simp
    show ?thesis
      using Cons.IH [of j] Cons.prems unfolding Suc list_update_code nth_Cons_Suc split
      by (simp only: add.assoc) simp
  qed (simp add: ac_simps)
qed simp

end
