(* ===== verification/Varint.thy ===== *)
theory Varint
  imports Prelude
begin

text \<open>
  The two variable-length integer encodings: the QUIC varint of draft-16
  (\<open>core/src/wire/quic_varint.c\<close>, \<open>core/include/moq/wire.h\<close>) and the MoQT vi64 of draft-18
  and draft-22 (\<open>core/src/wire/vi64.c\<close>, \<open>core/include/moq/vi64.h\<close>). Both satisfy the locale
  \<open>int_codec\<close>, the interface the buffer and key-value layers rely on.

  An encoder returns the bytes it stores at the output pointer; the empty list is the C
  return value 0 (nothing written). A decoder returns the value and the number of bytes
  consumed, \<open>None\<close> for the C return value 0; the output pointer of a decoder is the address of a
  variable at every call in the core, so a null output pointer is not part of the model.
\<close>

unbundle bit_operations_syntax

section \<open>vi64\<close>

definition moq_vi64_len :: "u64 \<Rightarrow> nat" where
  "moq_vi64_len value =
     (if value \<le> 0x7F then 1
      else if value \<le> 0x3FFF then 2
      else if value \<le> 0x1FFFFF then 3
      else if value \<le> 0xFFFFFFF then 4
      else if value \<le> 0x7FFFFFFFF then 5
      else if value \<le> 0x3FFFFFFFFFF then 6
      else if value \<le> 0x1FFFFFFFFFFFF then 7
      else if value \<le> 0xFFFFFFFFFFFFFF then 8
      else 9)"

text \<open>
  \<open>moq_vi64_encode value buf buf_len\<close>: \<open>null\<close> tells whether \<open>buf\<close> is the null pointer. The loop
  that stores \<open>value >> 8 * (len - 1 - i)\<close> for \<open>i = 1 .. len - 1\<close> is \<open>be_bytes (len - 1)\<close>.
\<close>

definition moq_vi64_encode :: "u64 \<Rightarrow> bool \<Rightarrow> nat \<Rightarrow> u8 list" where
  "moq_vi64_encode value null buf_len =
     (if null then []
      else let len = moq_vi64_len value in
        if buf_len < len then []
        else if len = 9 then 0xFF # be_bytes 8 value
        else let prefix = (if len = 1 then 0
                  else ucast (push_bit (9 - len) (push_bit (len - 1) 1 - 1 :: u32)) :: u8)
             in (prefix OR ucast (drop_bit (8 * (len - 1)) value)) # be_bytes (len - 1) value)"

text \<open>The loop \<open>while (n < 8 && (b & 0x80))\<close> that counts the leading ones of the first byte.\<close>

function vi64_ones :: "nat \<Rightarrow> u8 \<Rightarrow> nat" where
  "vi64_ones n b = (if n < 8 \<and> b AND 0x80 \<noteq> 0 then vi64_ones (n + 1) (push_bit 1 b) else n)"
  by pat_completeness auto
termination
  by (relation "measure (\<lambda>(n, b). 8 - n)") auto

declare vi64_ones.simps [simp del]

definition moq_vi64_encoded_len :: "u8 \<Rightarrow> nat" where
  "moq_vi64_encoded_len first_byte = vi64_ones 0 first_byte + 1"

definition moq_vi64_decode :: "moq_bytes \<Rightarrow> (u64 \<times> nat) option" where
  "moq_vi64_decode buf =
     (if is_null buf \<or> plen buf = 0 then None
      else let bs = elems buf; len = moq_vi64_encoded_len (bs ! 0) in
        if plen buf < len then None
        else if len = 9 then Some (be_fold 0 (take 8 (drop 1 bs)), len)
        else let mask = drop_bit len 0xFF :: u8
             in Some (be_fold (ucast (bs ! 0 AND mask)) (take (len - 1) (drop 1 bs)), len))"

section \<open>QUIC varint\<close>

definition MOQ_QUIC_VARINT_MAX :: u64 where
  "MOQ_QUIC_VARINT_MAX = 0x3FFFFFFFFFFFFFFF"

definition moq_quic_varint_len :: "u64 \<Rightarrow> nat" where
  "moq_quic_varint_len value =
     (if value \<le> 0x3F then 1
      else if value \<le> 0x3FFF then 2
      else if value \<le> 0x3FFFFFFF then 4
      else if value \<le> MOQ_QUIC_VARINT_MAX then 8
      else 0)"

definition moq_quic_varint_encode :: "u64 \<Rightarrow> bool \<Rightarrow> nat \<Rightarrow> u8 list" where
  "moq_quic_varint_encode value null buf_len =
     (if null then []
      else let len = moq_quic_varint_len value in
        if len = 0 \<or> buf_len < len then []
        else if len = 1 then [ucast value]
        else if len = 2 then [ucast (0x40 OR drop_bit 8 value), ucast value]
        else if len = 4 then
          [ucast (0x80 OR drop_bit 24 value), ucast (drop_bit 16 value),
           ucast (drop_bit 8 value), ucast value]
        else
          [ucast (0xC0 OR drop_bit 56 value), ucast (drop_bit 48 value),
           ucast (drop_bit 40 value), ucast (drop_bit 32 value), ucast (drop_bit 24 value),
           ucast (drop_bit 16 value), ucast (drop_bit 8 value), ucast value])"

definition moq_quic_varint_encoded_len :: "u8 \<Rightarrow> nat" where
  "moq_quic_varint_encoded_len first_byte = 2 ^ unat (drop_bit 6 first_byte)"

definition moq_quic_varint_decode :: "moq_bytes \<Rightarrow> (u64 \<times> nat) option" where
  "moq_quic_varint_decode buf =
     (if is_null buf \<or> plen buf = 0 then None
      else let bs = elems buf; len = moq_quic_varint_encoded_len (bs ! 0) in
        if plen buf < len then None
        else if len = 1 then Some (ucast (bs ! 0 AND 0x3F), len)
        else if len = 2 then
          Some (push_bit 8 (ucast (bs ! 0 AND 0x3F)) OR ucast (bs ! 1), len)
        else if len = 4 then
          Some (push_bit 24 (ucast (bs ! 0 AND 0x3F)) OR push_bit 16 (ucast (bs ! 1))
                OR push_bit 8 (ucast (bs ! 2)) OR ucast (bs ! 3), len)
        else if len = 8 then
          Some (push_bit 56 (ucast (bs ! 0 AND 0x3F)) OR push_bit 48 (ucast (bs ! 1))
                OR push_bit 40 (ucast (bs ! 2)) OR push_bit 32 (ucast (bs ! 3))
                OR push_bit 24 (ucast (bs ! 4)) OR push_bit 16 (ucast (bs ! 5))
                OR push_bit 8 (ucast (bs ! 6)) OR ucast (bs ! 7), len)
        else None)"

section \<open>The interface of an integer encoding\<close>

text \<open>
  \<open>enc\<close> is the minimal encoding of a representable value (\<open>ok\<close>), \<open>dec\<close> reads one integer from
  the front of a byte string. The laws: decoding an encoding gives the value back and stops
  where it ends; a decoder consumes at least one byte and no more than there are; what it
  returns depends only on the bytes it consumed; an encoding is never longer than any other
  byte string that decodes to the same value.
\<close>

locale int_codec =
  fixes ok :: "u64 \<Rightarrow> bool"
    and enc :: "u64 \<Rightarrow> u8 list"
    and dec :: "u8 list \<Rightarrow> (u64 \<times> nat) option"
  assumes dec_enc: "ok v \<Longrightarrow> dec (enc v @ rest) = Some (v, length (enc v))"
    and dec_bounds: "dec bs = Some (v, n) \<Longrightarrow> 0 < n \<and> n \<le> length bs"
    and dec_local: "dec bs = Some (v, n) \<Longrightarrow> dec (take n bs @ rest) = Some (v, n)"
    and dec_minimal: "dec bs = Some (v, n) \<Longrightarrow> ok v \<and> length (enc v) \<le> n"
    and enc_bounds: "length (enc v) \<le> 9"
begin

lemma enc_nonempty: "ok v \<Longrightarrow> enc v \<noteq> []"
  using dec_enc [of v "[]"] dec_bounds [of "enc v" v "length (enc v)"] by auto

lemma enc_inj: "ok v \<Longrightarrow> ok w \<Longrightarrow> enc v = enc w \<Longrightarrow> v = w"
  using dec_enc [of v "[]"] dec_enc [of w "[]"] by simp

text \<open>Encodings are prefix free, so a sequence of encoded integers splits in one way only.\<close>

lemma enc_prefix_free:
  assumes "ok v" and "ok w" and "enc v @ xs = enc w @ ys"
  shows "v = w \<and> xs = ys"
proof -
  have "Some (v, length (enc v)) = Some (w, length (enc w))"
    using dec_enc [OF assms(1), of xs] dec_enc [OF assms(2), of ys] assms(3) by simp
  then have "v = w" by simp
  with assms(3) show ?thesis by simp
qed

lemma dec_Nil: "dec [] = None"
  using dec_bounds [of "[]"] by (cases "dec []") auto

lemma dec_append: "dec bs = Some (v, n) \<Longrightarrow> dec (bs @ rest) = Some (v, n)"
  using dec_local [of bs v n "drop n bs @ rest"] by (metis append.assoc append_take_drop_id)

end

section \<open>vi64 satisfies the interface\<close>

lemma and_0x80: "b AND 0x80 \<noteq> 0 \<longleftrightarrow> bit b 7" for b :: u8
  using and_exp_eq_0_iff_not_bit [of b 7] by simp

lemma bit_0xFF: "bit (0xFF :: u8) n \<longleftrightarrow> n < 8"
proof -
  have eq: "(0xFF :: u8) = mask 8" by (simp add: mask_eq_exp_minus_1)
  show ?thesis by (subst eq) (simp add: bit_mask_iff del: mask_numeral)
qed

lemma bit_decode_mask: "len \<le> 8 \<Longrightarrow> bit (drop_bit len (0xFF :: u8)) n \<longleftrightarrow> n + len < 8"
  by (simp only: bit_drop_bit_eq o_apply bit_0xFF add.commute)

lemma bit_encode_prefix:
  "2 \<le> len \<Longrightarrow> len \<le> 8 \<Longrightarrow> n < 8 \<Longrightarrow>
   bit (ucast (push_bit (9 - len) (push_bit (len - 1) 1 - 1 :: u32)) :: u8) n \<longleftrightarrow> 9 - len \<le> n"
  by (simp add: bit_simps flip: mask_eq_exp_minus_1) auto

lemma vi64_ones_step:
  "n < 8 \<Longrightarrow> vi64_ones n b = (if bit b 7 then vi64_ones (Suc n) (push_bit 1 b) else n)"
  by (subst vi64_ones.simps) (simp add: and_0x80)

lemma vi64_ones_8: "vi64_ones 8 b = 8"
  by (subst vi64_ones.simps) simp

lemma vi64_ones_le: "n \<le> 8 \<Longrightarrow> vi64_ones n b \<le> 8"
proof (induction n b rule: vi64_ones.induct)
  case (1 n b)
  then show ?case by (subst vi64_ones.simps) auto
qed

text \<open>After \<open>k\<close> leading ones the loop has counted \<open>k\<close> and shifted \<open>k\<close> times.\<close>

lemma vi64_ones_shift:
  "n + k \<le> 8 \<Longrightarrow> (\<And>i. i < k \<Longrightarrow> bit b (7 - i)) \<Longrightarrow> k \<le> 7 \<Longrightarrow>
   vi64_ones n b = vi64_ones (n + k) (push_bit k b)"
proof (induction k)
  case 0
  then show ?case by simp
next
  case (Suc k)
  have "vi64_ones n b = vi64_ones (n + k) (push_bit k b)"
    using Suc by simp
  moreover have "bit (push_bit k b) 7"
    using Suc.prems by (simp add: bit_push_bit_iff)
  ultimately show ?case
    using Suc.prems vi64_ones_step [of "n + k" "push_bit k b"] by simp
qed

lemma encoded_len_leading_ones:
  assumes "1 \<le> len" "len \<le> 8" "\<And>i. i < len - 1 \<Longrightarrow> bit b (7 - i)" "\<not> bit b (8 - len)"
  shows "moq_vi64_encoded_len b = len"
proof -
  have "vi64_ones 0 b = vi64_ones (len - 1) (push_bit (len - 1) b)"
    using vi64_ones_shift [of 0 "len - 1" b] assms by simp
  also have "\<dots> = len - 1"
    using assms vi64_ones_step [of "len - 1" "push_bit (len - 1) b"]
    by (simp add: bit_push_bit_iff Suc_diff_le)
  finally show ?thesis
    using assms by (simp add: moq_vi64_encoded_len_def)
qed

lemma encoded_len_0xFF: "moq_vi64_encoded_len 0xFF = 9"
proof -
  have "vi64_ones 0 0xFF = vi64_ones 7 (push_bit 7 0xFF)"
    by (rule vi64_ones_shift [of 0 7 "0xFF", simplified add_0]) (simp_all only: bit_0xFF)
  also have "\<dots> = 8"
    using vi64_ones_step [of 7 "push_bit 7 0xFF"] vi64_ones_8 by simp
  finally show ?thesis by (simp add: moq_vi64_encoded_len_def)
qed

lemma moq_vi64_encoded_len_bounds:
  "1 \<le> moq_vi64_encoded_len b \<and> moq_vi64_encoded_len b \<le> 9"
  using vi64_ones_le [of 0 b] by (simp add: moq_vi64_encoded_len_def)

text \<open>A value of encoded length \<open>len\<close> has at most \<open>7 * len\<close> bits.\<close>

lemma moq_vi64_len_bounds: "1 \<le> moq_vi64_len v \<and> moq_vi64_len v \<le> 9"
  by (simp add: moq_vi64_len_def)

lemma moq_vi64_len_fits: "moq_vi64_len v \<le> 8 \<Longrightarrow> unat v < 2 ^ (7 * moq_vi64_len v)"
  by (simp add: moq_vi64_len_def word_le_nat_alt split: if_splits)

lemma moq_vi64_len_least: "unat v < 2 ^ (7 * n) \<Longrightarrow> 1 \<le> n \<Longrightarrow> n \<le> 8 \<Longrightarrow> moq_vi64_len v \<le> n"
proof -
  assume "unat v < 2 ^ (7 * n)" and "1 \<le> n" and "n \<le> 8"
  then consider "n = 1" | "n = 2" | "n = 3" | "n = 4" | "n = 5" | "n = 6" | "n = 7" | "n = 8"
    by linarith
  then show ?thesis
    using \<open>unat v < 2 ^ (7 * n)\<close> by cases (simp_all add: moq_vi64_len_def word_le_nat_alt)
qed

definition vi64_enc :: "u64 \<Rightarrow> u8 list" where
  "vi64_enc v = moq_vi64_encode v False 9"

definition vi64_dec :: "u8 list \<Rightarrow> (u64 \<times> nat) option" where
  "vi64_dec bs = moq_vi64_decode (Arr bs)"

lemma moq_vi64_encode_eq:
  "moq_vi64_encode v False n = (if n < moq_vi64_len v then [] else vi64_enc v)"
  using moq_vi64_len_bounds [of v] by (auto simp: moq_vi64_encode_def vi64_enc_def Let_def)

lemma length_vi64_enc [simp]: "length (vi64_enc v) = moq_vi64_len v"
  using moq_vi64_len_bounds [of v] by (auto simp: moq_vi64_encode_def vi64_enc_def Let_def)

lemma vi64_enc_9: "moq_vi64_len v = 9 \<Longrightarrow> vi64_enc v = 0xFF # be_bytes 8 v"
  by (simp add: moq_vi64_encode_def vi64_enc_def)

text \<open>The first byte of a short encoding and what the decoder makes of it.\<close>

lemma vi64_enc_short:
  assumes "moq_vi64_len v \<le> 8"
  obtains b where "vi64_enc v = b # be_bytes (moq_vi64_len v - 1) v"
    and "moq_vi64_encoded_len b = moq_vi64_len v"
    and "ucast (b AND drop_bit (moq_vi64_len v) 0xFF) = drop_bit (8 * (moq_vi64_len v - 1)) v"
proof -
  define len where "len = moq_vi64_len v"
  define pre :: u8 where
    "pre = (if len = 1 then 0 else ucast (push_bit (9 - len) (push_bit (len - 1) 1 - 1 :: u32)))"
  define b where "b = pre OR ucast (drop_bit (8 * (len - 1)) v)"
  have len: "1 \<le> len" "len \<le> 8" and v: "unat v < 2 ^ (7 * len)"
    using assms moq_vi64_len_bounds moq_vi64_len_fits by (auto simp: len_def)
  have pre: "bit pre n \<longleftrightarrow> 9 - len \<le> n" if "n < 8" for n
    using that len bit_encode_prefix [of len n] by (auto simp: pre_def)
  have high: "bit v (n + 8 * (len - 1)) \<Longrightarrow> n < 8 - len" for n
    using unat_less_bit [OF v, of "n + 8 * (len - 1)"] len by linarith
  have b: "bit b n \<longleftrightarrow> 9 - len \<le> n \<or> bit v (n + 8 * (len - 1))" if "n < 8" for n
    using that pre [OF that] by (simp add: b_def bit_or_iff bit_ucast_iff bit_drop_bit_eq add.commute)
  have "vi64_enc v = b # be_bytes (len - 1) v"
    using len by (simp add: vi64_enc_def moq_vi64_encode_def Let_def b_def pre_def flip: len_def)
  moreover have "moq_vi64_encoded_len b = len"
  proof (rule encoded_len_leading_ones [OF len])
    show "\<not> bit b (8 - len)"
      using b [of "8 - len"] high [of "8 - len"] len by auto
  qed (use b len in auto)
  moreover have "ucast (b AND drop_bit len 0xFF) = drop_bit (8 * (len - 1)) v"
  proof (rule bit_word_eqI)
    fix n
    define m :: u8 where "m = drop_bit len 0xFF"
    have m: "bit m n \<longleftrightarrow> n + len < 8"
      unfolding m_def by (rule bit_decode_mask [OF len(2)])
    show "bit (ucast (b AND drop_bit len 0xFF) :: u64) n = bit (drop_bit (8 * (len - 1)) v) n"
      using b [of n] high [of n] len bit_imp_le_length [of v "n + 8 * (len - 1)"]
      by (fold m_def) (auto simp: bit_and_iff bit_ucast_iff m bit_drop_bit_eq add.commute)
  qed
  ultimately show ?thesis
    using that by (simp only: len_def)
qed

lemma vi64_dec_Cons:
  "vi64_dec (b # bs) =
     (if Suc (length bs) < moq_vi64_encoded_len b then None
      else if moq_vi64_encoded_len b = 9 then Some (be_fold 0 (take 8 bs), 9)
      else Some (be_fold (ucast (b AND drop_bit (moq_vi64_encoded_len b) 0xFF))
                   (take (moq_vi64_encoded_len b - 1) bs), moq_vi64_encoded_len b))"
  by (simp add: vi64_dec_def moq_vi64_decode_def Let_def)

lemma vi64_dec_enc: "vi64_dec (vi64_enc v @ rest) = Some (v, moq_vi64_len v)"
proof (cases "moq_vi64_len v = 9")
  case True
  have "be_fold 0 (be_bytes 8 v) = v"
  proof -
    have "drop_bit (8 * 8) v = 0"
      by (rule bit_word_eqI) (auto simp: bit_drop_bit_eq dest: bit_imp_le_length)
    with be_fold_bytes [of 8 v] show ?thesis by (simp only:)
  qed
  with True show ?thesis
    by (simp add: vi64_enc_9 vi64_dec_Cons encoded_len_0xFF)
next
  case False
  then have le: "moq_vi64_len v \<le> 8" using moq_vi64_len_bounds [of v] by linarith
  obtain b where b: "vi64_enc v = b # be_bytes (moq_vi64_len v - 1) v"
    "moq_vi64_encoded_len b = moq_vi64_len v"
    "ucast (b AND drop_bit (moq_vi64_len v) 0xFF) = drop_bit (8 * (moq_vi64_len v - 1)) v"
    using vi64_enc_short [OF le] by blast
  show ?thesis
    using False moq_vi64_len_bounds [of v] b be_fold_bytes [of "moq_vi64_len v - 1" v]
    by (simp add: vi64_dec_Cons)
qed

lemma vi64_dec_SomeE:
  assumes "vi64_dec bs = Some (v, n)"
  obtains b tl where "bs = b # tl" "n = moq_vi64_encoded_len b" "n \<le> length bs"
proof (cases bs)
  case Nil
  with assms show ?thesis by (simp add: vi64_dec_def moq_vi64_decode_def)
next
  case (Cons b tl)
  with assms show ?thesis
    by (intro that [of b tl]) (auto simp: vi64_dec_Cons split: if_splits)
qed

lemma vi64_dec_bound:
  assumes "vi64_dec bs = Some (v, n)" and "n \<le> 8"
  shows "unat v < 2 ^ (7 * n)"
proof -
  obtain b tl where bs: "bs = b # tl" "n = moq_vi64_encoded_len b" "n \<le> length bs"
    using vi64_dec_SomeE [OF assms(1)] .
  have n1: "1 \<le> n" using bs(2) moq_vi64_encoded_len_bounds by simp
  have v: "v = be_fold (ucast (b AND drop_bit n 0xFF)) (take (n - 1) tl)"
    using assms bs by (auto simp: vi64_dec_Cons split: if_splits)
  define m :: u8 where "m = drop_bit n 0xFF"
  have m: "bit m k \<longleftrightarrow> k + n < 8" for k
    unfolding m_def by (rule bit_decode_mask [OF assms(2)])
  have "unat (ucast (b AND drop_bit n 0xFF) :: u64) < 2 ^ (8 - n)"
    by (fold m_def, rule unat_less_bitI) (auto simp: bit_ucast_iff bit_and_iff m)
  from unat_be_fold [OF this, of "take (n - 1) tl"]
  have "unat v < 2 ^ (8 - n + 8 * length (take (n - 1) tl))" by (simp add: v)
  moreover have "8 - n + 8 * length (take (n - 1) tl) = 7 * n"
    using bs assms(2) n1 by simp
  ultimately show ?thesis by simp
qed

interpretation vi64: int_codec "\<lambda>_. True" vi64_enc vi64_dec
proof (unfold_locales, goal_cases)
  case (1 v rest)
  then show ?case by (simp add: vi64_dec_enc)
next
  case (2 bs v n)
  then obtain b tl where "bs = b # tl" "n = moq_vi64_encoded_len b" "n \<le> length bs"
    by (rule vi64_dec_SomeE)
  then show ?case using moq_vi64_encoded_len_bounds [of b] by simp
next
  case (3 bs v n rest)
  then obtain b tl where bs: "bs = b # tl" "n = moq_vi64_encoded_len b" "n \<le> length bs"
    by (rule vi64_dec_SomeE)
  obtain m where m: "moq_vi64_encoded_len b = Suc m"
    using moq_vi64_encoded_len_bounds [of b] by (cases "moq_vi64_encoded_len b") auto
  show ?case
    using 3 bs m by (simp add: vi64_dec_Cons split: if_splits)
next
  case (4 bs v n)
  then obtain b tl where "n = moq_vi64_encoded_len b"
    by (rule vi64_dec_SomeE)
  then have "n \<le> 9" and "1 \<le> n"
    using moq_vi64_encoded_len_bounds [of b] by simp_all
  then show ?case
    using moq_vi64_len_bounds [of v] vi64_dec_bound [OF 4] moq_vi64_len_least [of v n]
    by (cases "n = 9") auto
next
  case (5 v)
  then show ?case using moq_vi64_len_bounds [of v] by simp
qed

section \<open>The QUIC varint satisfies the interface\<close>

definition quic_enc :: "u64 \<Rightarrow> u8 list" where
  "quic_enc v = moq_quic_varint_encode v False 8"

definition quic_dec :: "u8 list \<Rightarrow> (u64 \<times> nat) option" where
  "quic_dec bs = moq_quic_varint_decode (Arr bs)"

definition quic_ok :: "u64 \<Rightarrow> bool" where
  "quic_ok v \<longleftrightarrow> v \<le> MOQ_QUIC_VARINT_MAX"

lemma bit_0x3F: "bit (0x3F :: u8) n \<longleftrightarrow> n < 6"
proof -
  have eq: "(0x3F :: u8) = mask 6" by (simp add: mask_eq_exp_minus_1)
  show ?thesis by (subst eq) (auto simp add: bit_mask_iff simp del: mask_numeral)
qed

text \<open>The two length bits above a value of six bits.\<close>

lemma quic_first_byte_code:
  assumes h: "unat (h :: u64) < 2 ^ 6" and k: "unat (k :: u64) < 2 ^ 2"
  shows "drop_bit 6 (ucast (push_bit 6 k OR h) :: u8) = ucast k"
proof (rule bit_word_eqI)
  fix n assume n: "n < LENGTH(8)"
  have "\<not> bit h (n + 6)" using unat_less_bit [OF h, of "n + 6"] by auto
  moreover have "bit k n \<Longrightarrow> n < 2" using unat_less_bit [OF k, of n] by auto
  ultimately show "bit (drop_bit 6 (ucast (push_bit 6 k OR h) :: u8)) n = bit (ucast k :: u8) n"
    using n by (auto simp: bit_drop_bit_eq bit_ucast_iff bit_or_iff bit_push_bit_iff add.commute)
qed

lemma quic_first_byte_value:
  assumes h: "unat (h :: u64) < 2 ^ 6"
  shows "ucast ((ucast (push_bit 6 k OR h) :: u8) AND 0x3F) = h"
proof (rule bit_word_eqI)
  define m :: u8 where "m = 0x3F"
  have m: "bit m n \<longleftrightarrow> n < 6" for n unfolding m_def by (rule bit_0x3F)
  fix n
  have "bit h n \<Longrightarrow> n < 6" using unat_less_bit [OF h, of n] by auto
  then show "bit (ucast ((ucast (push_bit 6 k OR h) :: u8) AND 0x3F) :: u64) n = bit h n"
    by (fold m_def) (auto simp: m bit_and_iff bit_ucast_iff bit_or_iff bit_push_bit_iff)
qed

lemma quic_ok_iff: "quic_ok v \<longleftrightarrow> unat v < 2 ^ 62"
  by (simp add: quic_ok_def MOQ_QUIC_VARINT_MAX_def word_le_nat_alt) linarith

lemma moq_quic_varint_len_nat:
  "moq_quic_varint_len v =
     (if unat v < 2 ^ 6 then 1 else if unat v < 2 ^ 14 then 2
      else if unat v < 2 ^ 30 then 4 else if quic_ok v then 8 else 0)"
proof -
  have "v \<le> 0x3F \<longleftrightarrow> unat v < 2 ^ 6" "v \<le> 0x3FFF \<longleftrightarrow> unat v < 2 ^ 14"
    "v \<le> 0x3FFFFFFF \<longleftrightarrow> unat v < 2 ^ 30"
    by (simp_all add: word_le_nat_alt) linarith+
  then show ?thesis
    by (simp only: moq_quic_varint_len_def quic_ok_def)
qed

lemma quic_len_cases:
  obtains "moq_quic_varint_len v = 1" "unat v < 2 ^ 6"
  | "moq_quic_varint_len v = 2" "unat v < 2 ^ 14"
  | "moq_quic_varint_len v = 4" "unat v < 2 ^ 30"
  | "moq_quic_varint_len v = 8" "unat v < 2 ^ 62"
  | "moq_quic_varint_len v = 0" "\<not> quic_ok v"
  unfolding moq_quic_varint_len_nat
  by (cases "unat v < 2 ^ 6"; cases "unat v < 2 ^ 14"; cases "unat v < 2 ^ 30";
      cases "quic_ok v") (simp_all add: quic_ok_iff)

lemma quic_len_least:
  "unat v < 2 ^ 6 \<Longrightarrow> moq_quic_varint_len v \<le> 1"
  "unat v < 2 ^ 14 \<Longrightarrow> moq_quic_varint_len v \<le> 2"
  "unat v < 2 ^ 30 \<Longrightarrow> moq_quic_varint_len v \<le> 4"
  "moq_quic_varint_len v \<le> 8"
  by (simp_all add: moq_quic_varint_len_nat)

lemma quic_len_0_iff: "moq_quic_varint_len v = 0 \<longleftrightarrow> \<not> quic_ok v"
  by (auto simp add: moq_quic_varint_len_nat quic_ok_iff)

lemma length_quic_enc [simp]: "length (quic_enc v) = moq_quic_varint_len v"
  by (rule quic_len_cases [of v]) (simp_all add: quic_enc_def moq_quic_varint_encode_def)

lemma moq_quic_varint_encode_eq:
  "moq_quic_varint_encode v False n = (if n < moq_quic_varint_len v then [] else quic_enc v)"
  by (rule quic_len_cases [of v]) (simp_all add: quic_enc_def moq_quic_varint_encode_def)

lemma unat_drop_bit_less: "unat v < 2 ^ (n + k) \<Longrightarrow> unat (drop_bit n v) < 2 ^ k" for v :: u64
  by (rule unat_less_bitI) (auto simp: bit_drop_bit_eq dest: unat_less_bit)

text \<open>Every encoding is a first byte with the length code \<open>k\<close> and the low bytes big-endian.\<close>

lemma quic_enc_shape:
  assumes "quic_ok v"
  obtains k m where "moq_quic_varint_len v = 2 ^ unat (k :: u64)" "unat k < 2 ^ 2"
    "moq_quic_varint_len v = Suc m" "unat (drop_bit (8 * m) v) < 2 ^ 6"
    "quic_enc v = ucast (push_bit 6 k OR drop_bit (8 * m) v) # be_bytes m v"
proof (rule quic_len_cases [of v])
  assume "moq_quic_varint_len v = 1" "unat v < 2 ^ 6"
  then show ?thesis
    by (intro that [of 0 0]) (simp_all add: quic_enc_def moq_quic_varint_encode_def)
next
  assume *: "moq_quic_varint_len v = 2" "unat v < 2 ^ 14"
  then have "unat (drop_bit 8 v) < 2 ^ 6" by (intro unat_drop_bit_less) simp
  with * show ?thesis
    by (intro that [of 1 1]) (simp_all add: quic_enc_def moq_quic_varint_encode_def)
next
  assume *: "moq_quic_varint_len v = 4" "unat v < 2 ^ 30"
  then have "unat (drop_bit 24 v) < 2 ^ 6" by (intro unat_drop_bit_less) simp
  with * show ?thesis
    by (intro that [of 2 3])
      (simp_all add: quic_enc_def moq_quic_varint_encode_def)
next
  assume *: "moq_quic_varint_len v = 8" "unat v < 2 ^ 62"
  then have "unat (drop_bit 56 v) < 2 ^ 6" by (intro unat_drop_bit_less) simp
  with * show ?thesis
    by (intro that [of 3 7])
      (simp_all add: quic_enc_def moq_quic_varint_encode_def)
next
  assume "\<not> quic_ok v"
  with assms show ?thesis by simp
qed

lemma quic_encoded_len_cases:
  obtains "moq_quic_varint_encoded_len b = 1" | "moq_quic_varint_encoded_len b = 2"
  | "moq_quic_varint_encoded_len b = 4" | "moq_quic_varint_encoded_len b = 8"
proof -
  have "unat (drop_bit 6 b) < 2 ^ 2"
    by (rule unat_less_bitI) (auto simp: bit_drop_bit_eq dest: bit_imp_le_length)
  then consider "unat (drop_bit 6 b) = 0" | "unat (drop_bit 6 b) = 1"
    | "unat (drop_bit 6 b) = 2" | "unat (drop_bit 6 b) = 3"
    by fastforce
  then show ?thesis
    using that by cases (simp_all only: moq_quic_varint_encoded_len_def, simp_all)
qed

lemma le_length_Cons: "Suc n \<le> length xs \<longleftrightarrow> (\<exists>y ys. xs = y # ys \<and> n \<le> length ys)"
  by (cases xs) auto

lemma quic_dec_Cons:
  "quic_dec (b # bt) =
     (if Suc (length bt) < moq_quic_varint_encoded_len b then None
      else Some (be_fold (ucast (b AND 0x3F)) (take (moq_quic_varint_encoded_len b - 1) bt),
                 moq_quic_varint_encoded_len b))"
proof (cases "Suc (length bt) < moq_quic_varint_encoded_len b")
  case True
  then show ?thesis by (simp add: quic_dec_def moq_quic_varint_decode_def)
next
  case False
  show ?thesis
  proof (rule quic_encoded_len_cases [of b])
    assume "moq_quic_varint_encoded_len b = 1"
    then show ?thesis by (simp add: quic_dec_def moq_quic_varint_decode_def)
  next
    assume l: "moq_quic_varint_encoded_len b = 2"
    with False obtain x xs where "bt = x # xs" by (cases bt) auto
    with l show ?thesis by (simp add: quic_dec_def moq_quic_varint_decode_def)
  next
    assume l: "moq_quic_varint_encoded_len b = 4"
    with False have "Suc (Suc (Suc 0)) \<le> length bt" by simp
    then obtain x y z xs where "bt = x # y # z # xs" by (auto simp: le_length_Cons)
    with l show ?thesis
      by (simp add: quic_dec_def moq_quic_varint_decode_def push_bit_or or.assoc)
  next
    assume l: "moq_quic_varint_encoded_len b = 8"
    with False have "Suc (Suc (Suc (Suc (Suc (Suc (Suc 0)))))) \<le> length bt" by simp
    then obtain x1 x2 x3 x4 x5 x6 x7 xs where "bt = x1 # x2 # x3 # x4 # x5 # x6 # x7 # xs"
      by (auto simp: le_length_Cons)
    with l show ?thesis
      by (simp add: quic_dec_def moq_quic_varint_decode_def push_bit_or or.assoc)
  qed
qed

lemma quic_dec_SomeE:
  assumes "quic_dec bs = Some (v, n)"
  obtains b bt where "bs = b # bt" "n = moq_quic_varint_encoded_len b" "n \<le> length bs"
    "v = be_fold (ucast (b AND 0x3F)) (take (n - 1) bt)"
proof (cases bs)
  case Nil
  with assms show ?thesis by (simp add: quic_dec_def moq_quic_varint_decode_def)
next
  case (Cons b bt)
  with assms show ?thesis
    by (intro that [of b bt]) (auto simp: quic_dec_Cons split: if_splits)
qed

lemma quic_dec_bound:
  assumes "quic_dec bs = Some (v, n)"
  shows "unat v < 2 ^ (8 * n - 2)"
proof -
  obtain b bt where bs: "bs = b # bt" "n = moq_quic_varint_encoded_len b" "n \<le> length bs"
    "v = be_fold (ucast (b AND 0x3F)) (take (n - 1) bt)"
    using quic_dec_SomeE [OF assms] .
  have n: "1 \<le> n" using quic_encoded_len_cases [of b] bs(2) by fastforce
  define m :: u8 where "m = 0x3F"
  have m: "bit m k \<longleftrightarrow> k < 6" for k unfolding m_def by (rule bit_0x3F)
  have "unat (ucast (b AND 0x3F) :: u64) < 2 ^ 6"
    by (fold m_def, rule unat_less_bitI) (auto simp: bit_ucast_iff bit_and_iff m)
  from unat_be_fold [OF this, of "take (n - 1) bt"]
  have "unat v < 2 ^ (6 + 8 * length (take (n - 1) bt))" by (simp add: bs(4))
  moreover have "6 + 8 * length (take (n - 1) bt) = 8 * n - 2"
    using bs n by simp
  ultimately show ?thesis by (simp only:)
qed

lemma quic_dec_enc:
  assumes "quic_ok v"
  shows "quic_dec (quic_enc v @ rest) = Some (v, length (quic_enc v))"
proof -
  obtain k m where e: "moq_quic_varint_len v = 2 ^ unat (k :: u64)" "unat k < 2 ^ 2"
    "moq_quic_varint_len v = Suc m" "unat (drop_bit (8 * m) v) < 2 ^ 6"
    "quic_enc v = ucast (push_bit 6 k OR drop_bit (8 * m) v) # be_bytes m v"
    using quic_enc_shape [OF assms] .
  define b :: u8 where "b = ucast (push_bit 6 k OR drop_bit (8 * m) v)"
  have b: "ucast (b AND 0x3F) = drop_bit (8 * m) v" "drop_bit 6 b = ucast k"
    unfolding b_def by (rule quic_first_byte_value [OF e(4)], rule quic_first_byte_code [OF e(4,2)])
  have "unat (ucast k :: u8) = unat k"
    using e(2) by (simp add: unsigned_ucast_eq take_bit_nat_eq_self)
  with b e(1,3) have len: "moq_quic_varint_encoded_len b = Suc m"
    by (simp add: moq_quic_varint_encoded_len_def)
  show ?thesis
    using e(3) by (simp add: e(5) quic_dec_Cons len b be_fold_bytes flip: b_def)
qed

interpretation quic: int_codec quic_ok quic_enc quic_dec
proof (unfold_locales, goal_cases)
  case (1 v rest)
  then show ?case by (rule quic_dec_enc)
next
  case (2 bs v n)
  then obtain b bt where "n = moq_quic_varint_encoded_len b" "n \<le> length bs"
    by (rule quic_dec_SomeE)
  then show ?case by (auto intro: quic_encoded_len_cases [of b])
next
  case (3 bs v n rest)
  then obtain b bt where bs: "bs = b # bt" "n = moq_quic_varint_encoded_len b" "n \<le> length bs"
    "v = be_fold (ucast (b AND 0x3F)) (take (n - 1) bt)"
    by (rule quic_dec_SomeE)
  obtain m where m: "n = Suc m"
    using quic_encoded_len_cases [of b] bs(2) by fastforce
  show ?case
    using bs(3) by (simp add: bs(1,4) m bs(2)[symmetric, unfolded m] quic_dec_Cons)
next
  case (4 bs v n)
  then obtain b bt where "n = moq_quic_varint_encoded_len b"
    by (rule quic_dec_SomeE)
  then have "n \<in> {1, 2, 4, 8}" by (auto intro: quic_encoded_len_cases [of b])
  then show ?case
    using quic_dec_bound [OF 4] quic_len_least [of v]
    by (auto simp: quic_ok_iff)
next
  case (5 v)
  then show ?case using quic_len_least(4) [of v] by simp
qed

section \<open>Properties\<close>

text \<open>C8: every 64-bit value survives the vi64 encoding. With at least \<open>moq_vi64_len v\<close> bytes of
  room the encoder writes exactly that many, and the decoder gives back the value and the same
  length, whatever follows in the buffer.\<close>

theorem vi64_round_trip:
  assumes "moq_vi64_len v \<le> n"
  shows "length (moq_vi64_encode v False n) = moq_vi64_len v
    \<and> moq_vi64_decode (Arr (moq_vi64_encode v False n @ rest)) = Some (v, moq_vi64_len v)"
  using assms vi64_dec_enc [of v rest] by (simp add: moq_vi64_encode_eq vi64_dec_def)

theorem vi64_round_trip_witness:
  "moq_vi64_decode (Arr (moq_vi64_encode 0x12345 False 3 @ [7])) = Some (0x12345, 3)"
proof -
  have "moq_vi64_len 0x12345 = 3" by code_simp
  with vi64_round_trip [of "0x12345" 3 "[7]"] show ?thesis by simp
qed

text \<open>Every value a QUIC varint can carry (at most \<open>2^62 - 1\<close>) survives its encoding in the same
  way; a larger value has length 0 and is not written at all.\<close>

theorem quic_varint_round_trip:
  "(moq_quic_varint_len v = 0 \<longleftrightarrow> MOQ_QUIC_VARINT_MAX < v)
   \<and> (moq_quic_varint_len v = 0 \<longrightarrow> moq_quic_varint_encode v False n = [])
   \<and> (0 < moq_quic_varint_len v \<and> moq_quic_varint_len v \<le> n \<longrightarrow>
        moq_quic_varint_decode (Arr (moq_quic_varint_encode v False n @ rest))
          = Some (v, moq_quic_varint_len v))"
proof (cases "quic_ok v")
  case True
  then show ?thesis
    using quic.dec_enc [OF True, of rest] quic_len_0_iff [of v]
    by (auto simp: moq_quic_varint_encode_eq quic_dec_def quic_ok_def not_less)
next
  case False
  then show ?thesis
    using quic_len_0_iff [of v] by (auto simp: quic_ok_def moq_quic_varint_encode_def)
qed

theorem quic_varint_round_trip_witness:
  "moq_quic_varint_decode (Arr (moq_quic_varint_encode 15293 False 4 @ [9])) = Some (15293, 2)"
proof -
  have "moq_quic_varint_len 15293 = 2" by code_simp
  with quic_varint_round_trip [of 15293 4 "[9]"] show ?thesis by simp
qed

text \<open>C9: both encoders are minimal and both decoders stay inside the buffer. If some byte string,
  canonical or not, is read as \<open>v\<close> from \<open>n\<close> bytes, then \<open>n\<close> is at least one and at most the length
  of the string, and into any room of at least \<open>n\<close> bytes the encoder writes at most \<open>n\<close> bytes, which
  are read back as \<open>v\<close>. So no other encoding of a value is shorter than the one that is written.\<close>

theorem varint_minimal:
  "(moq_vi64_decode (Arr bs) = Some (v, n) \<longrightarrow> 1 \<le> n \<and> n \<le> length bs
      \<and> (\<forall>room \<ge> n. let out = moq_vi64_encode v False room in
           length out \<le> n \<and> moq_vi64_decode (Arr out) = Some (v, length out)))
   \<and> (moq_quic_varint_decode (Arr bs) = Some (v, n) \<longrightarrow> 1 \<le> n \<and> n \<le> length bs \<and> v \<le> MOQ_QUIC_VARINT_MAX
      \<and> (\<forall>room \<ge> n. let out = moq_quic_varint_encode v False room in
           length out \<le> n \<and> moq_quic_varint_decode (Arr out) = Some (v, length out)))"
proof -
  have "length (vi64_enc v) \<le> n \<and> vi64_dec (vi64_enc v) = Some (v, length (vi64_enc v))"
    if "vi64_dec bs = Some (v, n)"
    using vi64.dec_minimal [OF that] vi64.dec_enc [of v "[]"] by simp
  moreover have "length (quic_enc v) \<le> n \<and> quic_dec (quic_enc v) = Some (v, length (quic_enc v)) \<and> quic_ok v"
    if "quic_dec bs = Some (v, n)"
    using quic.dec_minimal [OF that] quic.dec_enc [of v "[]"] by auto
  ultimately show ?thesis
    using vi64.dec_bounds [of bs v n] quic.dec_bounds [of bs v n]
    by (auto simp: moq_vi64_encode_eq moq_quic_varint_encode_eq vi64_dec_def quic_dec_def quic_ok_def Let_def)
qed

theorem varint_minimal_witness:
  "length (moq_quic_varint_encode 37 False 8) \<le> 2 \<and> length (moq_vi64_encode 37 False 9) \<le> 2"
proof -
  have "moq_quic_varint_decode (Arr [0x40, 37]) = Some (37, 2)" "moq_vi64_decode (Arr [0x80, 37]) = Some (37, 2)"
    by code_simp+
  with varint_minimal [of "[0x40, 37]" 37 2] varint_minimal [of "[0x80, 37]" 37 2] show ?thesis
    by (simp add: Let_def)
qed

end
