(* ===== verification/Buf.thy ===== *)
theory Buf
  imports Varint
begin

text \<open>
  The buffer cursors of \<open>core/include/moq/buf.h\<close> and \<open>core/src/wire/buf.c\<close>: a reader over a
  borrowed byte span, a writer over a borrowed buffer, and the draft-16 namespace tuples read
  and written through them. \<open>reads\<close>, \<open>emits\<close> and the atomicity predicates are the contracts the
  message codecs compose.
\<close>

unbundle bit_operations_syntax

section \<open>Reader\<close>

text \<open>\<open>rd_data\<close> is the pair \<open>data, len\<close> of the C structure.\<close>

record moq_buf_reader =
  rd_data :: moq_bytes
  rd_pos :: nat

text \<open>A read operation: the result code or the value, and the cursor afterwards.\<close>

type_synonym 'a rd = "moq_buf_reader \<Rightarrow> (moq_result + 'a) \<times> moq_buf_reader"

definition moq_buf_reader_init :: "moq_bytes \<Rightarrow> moq_buf_reader" where
  "moq_buf_reader_init d = \<lparr>rd_data = d, rd_pos = 0\<rparr>"

definition moq_buf_reader_remaining :: "moq_buf_reader \<Rightarrow> nat" where
  "moq_buf_reader_remaining r =
     (if plen (rd_data r) < rd_pos r then 0 else plen (rd_data r) - rd_pos r)"

definition moq_buf_reader_ptr :: "moq_buf_reader \<Rightarrow> moq_bytes" where
  "moq_buf_reader_ptr r =
     (if is_null (rd_data r) \<or> plen (rd_data r) < rd_pos r then Null 0
      else padvance (rd_pos r) (rd_data r))"

definition reader_valid :: "moq_buf_reader \<Rightarrow> bool" where
  "reader_valid r \<longleftrightarrow>
     \<not> plen (rd_data r) < rd_pos r \<and> \<not> (0 < plen (rd_data r) \<and> is_null (rd_data r))"

definition moq_buf_read_varint :: "u64 rd" where
  "moq_buf_read_varint r =
     (if \<not> reader_valid r then (Inl MOQ_ERR_INVAL, r)
      else let remaining = plen (rd_data r) - rd_pos r in
        if remaining = 0 then (Inl MOQ_ERR_BUFFER, r)
        else case moq_quic_varint_decode (padvance (rd_pos r) (rd_data r)) of
          None \<Rightarrow> (Inl MOQ_ERR_BUFFER, r)
        | Some (v, n) \<Rightarrow> (Inr v, r\<lparr>rd_pos := rd_pos r + n\<rparr>))"

definition moq_buf_read_vi64 :: "u64 rd" where
  "moq_buf_read_vi64 r =
     (if \<not> reader_valid r then (Inl MOQ_ERR_INVAL, r)
      else let remaining = plen (rd_data r) - rd_pos r in
        if remaining = 0 then (Inl MOQ_ERR_BUFFER, r)
        else case moq_vi64_decode (padvance (rd_pos r) (rd_data r)) of
          None \<Rightarrow> (Inl MOQ_ERR_BUFFER, r)
        | Some (v, n) \<Rightarrow> (Inr v, r\<lparr>rd_pos := rd_pos r + n\<rparr>))"

definition moq_buf_read_uint16 :: "u16 rd" where
  "moq_buf_read_uint16 r =
     (if \<not> reader_valid r then (Inl MOQ_ERR_INVAL, r)
      else if plen (rd_data r) - rd_pos r < 2 then (Inl MOQ_ERR_BUFFER, r)
      else (Inr (push_bit 8 (ucast (elems (rd_data r) ! rd_pos r))
                  OR ucast (elems (rd_data r) ! (rd_pos r + 1))),
            r\<lparr>rd_pos := rd_pos r + 2\<rparr>))"

definition moq_buf_read_span :: "moq_bytes rd" where
  "moq_buf_read_span r =
     (if \<not> reader_valid r then (Inl MOQ_ERR_INVAL, r)
      else let saved = rd_pos r in
        case moq_buf_read_varint r of
          (Inl e, r1) \<Rightarrow> (Inl e, r1)
        | (Inr len, r1) \<Rightarrow>
            if plen (rd_data r1) - rd_pos r1 < unat len
            then (Inl MOQ_ERR_BUFFER, r1\<lparr>rd_pos := saved\<rparr>)
            else (Inr (ptake (unat len) (if len = 0 then moq_buf_reader_ptr r1
                                         else padvance (rd_pos r1) (rd_data r1))),
                  r1\<lparr>rd_pos := rd_pos r1 + unat len\<rparr>))"

definition moq_buf_read_raw :: "nat \<Rightarrow> moq_bytes rd" where
  "moq_buf_read_raw len r =
     (if \<not> reader_valid r then (Inl MOQ_ERR_INVAL, r)
      else if plen (rd_data r) - rd_pos r < len then (Inl MOQ_ERR_BUFFER, r)
      else (Inr (ptake len (if len = 0 then moq_buf_reader_ptr r
                            else padvance (rd_pos r) (rd_data r))),
            r\<lparr>rd_pos := rd_pos r + len\<rparr>))"

definition moq_buf_skip :: "nat \<Rightarrow> unit rd" where
  "moq_buf_skip len r =
     (if \<not> reader_valid r then (Inl MOQ_ERR_INVAL, r)
      else if plen (rd_data r) - rd_pos r < len then (Inl MOQ_ERR_BUFFER, r)
      else (Inr (), r\<lparr>rd_pos := rd_pos r + len\<rparr>))"

text \<open>
  Sequencing of reads with an early return, and a composite read on a copy of the cursor that is
  stored back only on success.
\<close>

definition rd_then :: "'a rd \<Rightarrow> ('a \<Rightarrow> 'b rd) \<Rightarrow> 'b rd" where
  "rd_then m f r = (case m r of (Inl e, r1) \<Rightarrow> (Inl e, r1) | (Inr a, r1) \<Rightarrow> f a r1)"

definition rd_return :: "'a \<Rightarrow> 'a rd" where
  "rd_return a r = (Inr a, r)"

definition rd_fail :: "moq_result \<Rightarrow> 'a rd" where
  "rd_fail e r = (Inl e, r)"

definition rd_local :: "'a rd \<Rightarrow> 'a rd" where
  "rd_local m r = (case m r of (Inl e, r1) \<Rightarrow> (Inl e, r) | (Inr a, r1) \<Rightarrow> (Inr a, r1))"

section \<open>Writer\<close>

text \<open>\<open>w_data\<close> is the pair \<open>data, cap\<close> of the C structure.\<close>

record moq_buf_writer =
  w_data :: moq_bytes
  w_pos :: nat

type_synonym wr = "moq_buf_writer \<Rightarrow> moq_result \<times> moq_buf_writer"

definition moq_buf_writer_init :: "moq_bytes \<Rightarrow> moq_buf_writer" where
  "moq_buf_writer_init d = \<lparr>w_data = d, w_pos = 0\<rparr>"

definition writer_valid :: "moq_buf_writer \<Rightarrow> bool" where
  "writer_valid w \<longleftrightarrow>
     \<not> plen (w_data w) < w_pos w \<and> \<not> (0 < plen (w_data w) \<and> is_null (w_data w))"

text \<open>\<open>memcpy (data + off, bs, length bs)\<close>; a copy of no bytes touches nothing.\<close>

primrec store_bytes :: "nat \<Rightarrow> u8 list \<Rightarrow> moq_bytes \<Rightarrow> moq_bytes" where
  "store_bytes off bs (Null n) = Null n"
| "store_bytes off bs (Arr xs) = Arr (take off xs @ bs @ drop (off + length bs) xs)"

text \<open>The bytes stored at the cursor and the cursor moved past them.\<close>

definition w_append :: "u8 list \<Rightarrow> moq_buf_writer \<Rightarrow> moq_buf_writer" where
  "w_append bs w =
     w\<lparr>w_data := store_bytes (w_pos w) bs (w_data w), w_pos := w_pos w + length bs\<rparr>"

definition moq_buf_write_varint :: "u64 \<Rightarrow> wr" where
  "moq_buf_write_varint value w =
     (if \<not> writer_valid w then (MOQ_ERR_INVAL, w)
      else if moq_quic_varint_len value = 0 then (MOQ_ERR_INVAL, w)
      else let remaining = plen (w_data w) - w_pos w in
        if remaining = 0 then (MOQ_ERR_BUFFER, w)
        else let bs = moq_quic_varint_encode value (is_null (w_data w)) remaining in
          if bs = [] then (MOQ_ERR_BUFFER, w) else (MOQ_OK, w_append bs w))"

definition moq_buf_write_vi64 :: "u64 \<Rightarrow> wr" where
  "moq_buf_write_vi64 value w =
     (if \<not> writer_valid w then (MOQ_ERR_INVAL, w)
      else let remaining = plen (w_data w) - w_pos w in
        if remaining = 0 then (MOQ_ERR_BUFFER, w)
        else let bs = moq_vi64_encode value (is_null (w_data w)) remaining in
          if bs = [] then (MOQ_ERR_BUFFER, w) else (MOQ_OK, w_append bs w))"

definition uint16_bytes :: "u16 \<Rightarrow> u8 list" where
  "uint16_bytes value = [ucast (drop_bit 8 value), ucast value]"

definition moq_buf_write_uint16 :: "u16 \<Rightarrow> wr" where
  "moq_buf_write_uint16 value w =
     (if \<not> writer_valid w then (MOQ_ERR_INVAL, w)
      else if plen (w_data w) - w_pos w < 2 then (MOQ_ERR_BUFFER, w)
      else (MOQ_OK, w_append (uint16_bytes value) w))"

definition moq_buf_write_span :: "moq_bytes \<Rightarrow> wr" where
  "moq_buf_write_span span w =
     (if \<not> writer_valid w then (MOQ_ERR_INVAL, w)
      else if 0 < plen span \<and> is_null span then (MOQ_ERR_INVAL, w)
      else let saved = w_pos w in
        case moq_buf_write_varint (of_nat (plen span)) w of (rc, w1) \<Rightarrow>
          if rc \<noteq> MOQ_OK then (rc, w1)
          else if 0 < plen span then
            if plen (w_data w1) - w_pos w1 < plen span
            then (MOQ_ERR_BUFFER, w1\<lparr>w_pos := saved\<rparr>)
            else (MOQ_OK, w_append (elems span) w1)
          else (MOQ_OK, w1))"

definition moq_buf_write_raw :: "moq_bytes \<Rightarrow> wr" where
  "moq_buf_write_raw d w =
     (if \<not> writer_valid w then (MOQ_ERR_INVAL, w)
      else if 0 < plen d \<and> is_null d then (MOQ_ERR_INVAL, w)
      else if plen (w_data w) - w_pos w < plen d then (MOQ_ERR_BUFFER, w)
      else if 0 < plen d then (MOQ_OK, w_append (elems d) w)
      else (MOQ_OK, w))"

definition moq_buf_reserve_uint16 :: "moq_buf_writer \<Rightarrow> (moq_result + nat) \<times> moq_buf_writer" where
  "moq_buf_reserve_uint16 w =
     (if \<not> writer_valid w then (Inl MOQ_ERR_INVAL, w)
      else if plen (w_data w) - w_pos w < 2 then (Inl MOQ_ERR_BUFFER, w)
      else (Inr (w_pos w), w_append [0, 0] w))"

definition moq_buf_patch_uint16 :: "nat \<Rightarrow> u16 \<Rightarrow> wr" where
  "moq_buf_patch_uint16 offset value w =
     (if \<not> writer_valid w then (MOQ_ERR_INVAL, w)
      else if w_pos w < offset \<or> w_pos w - offset < 2 then (MOQ_ERR_INVAL, w)
      else (MOQ_OK, w\<lparr>w_data := store_bytes offset (uint16_bytes value) (w_data w)\<rparr>))"

text \<open>Sequencing with an early return: \<open>rc = m(w); if (rc != MOQ_OK) return rc; return k(w);\<close>.\<close>

definition wr_then :: "wr \<Rightarrow> wr \<Rightarrow> wr" where
  "wr_then m k w = (case m w of (rc, w1) \<Rightarrow> if rc = MOQ_OK then k w1 else (rc, w1))"

text \<open>
  A composite write on a copy of the cursor: the copy shares the buffer, so the bytes it stored stay
  there, but the position is taken over only on success.
\<close>

definition wr_local :: "wr \<Rightarrow> wr" where
  "wr_local m w =
     (case m w of (rc, w1) \<Rightarrow> if rc = MOQ_OK then (MOQ_OK, w1) else (rc, w\<lparr>w_data := w_data w1\<rparr>))"

section \<open>Namespace tuples\<close>

text \<open>
  The loop of \<open>ns_read_fields\<close>: \<open>n\<close> fields are left, \<open>tot\<close> bytes have been seen. A failure puts
  the cursor back to \<open>saved\<close>.
\<close>

fun ns_read_fields :: "nat \<Rightarrow> nat \<Rightarrow> nat \<Rightarrow> moq_bytes list rd" where
  "ns_read_fields saved 0 tot r = (Inr [], r)"
| "ns_read_fields saved (Suc n) tot r =
     (case moq_buf_read_span r of
        (Inl e, r1) \<Rightarrow> (Inl e, r1\<lparr>rd_pos := saved\<rparr>)
      | (Inr p, r1) \<Rightarrow>
          if plen p = 0 then (Inl MOQ_ERR_PROTO, r1\<lparr>rd_pos := saved\<rparr>)
          else if 4096 - tot < plen p then (Inl MOQ_ERR_PROTO, r1\<lparr>rd_pos := saved\<rparr>)
          else case ns_read_fields saved n (tot + plen p) r1 of
            (Inl e, r2) \<Rightarrow> (Inl e, r2)
          | (Inr ps, r2) \<Rightarrow> (Inr (p # ps), r2))"

fun ns_validate_loop :: "nat \<Rightarrow> moq_bytes list \<Rightarrow> moq_result" where
  "ns_validate_loop tot [] = MOQ_OK"
| "ns_validate_loop tot (p # ps) =
     (if plen p = 0 then MOQ_ERR_INVAL
      else if 4096 - tot < plen p then MOQ_ERR_INVAL
      else ns_validate_loop (tot + plen p) ps)"

definition ns_validate_fields :: "moq_namespace \<Rightarrow> moq_result" where
  "ns_validate_fields ns =
     (if 0 < plen ns \<and> is_null ns then MOQ_ERR_INVAL else ns_validate_loop 0 (elems ns))"

fun ns_write_loop :: "nat \<Rightarrow> moq_bytes list \<Rightarrow> wr" where
  "ns_write_loop saved [] w = (MOQ_OK, w)"
| "ns_write_loop saved (p # ps) w =
     (case moq_buf_write_span p w of (rc, w1) \<Rightarrow>
        if rc \<noteq> MOQ_OK then (rc, w1\<lparr>w_pos := saved\<rparr>) else ns_write_loop saved ps w1)"

definition ns_write_fields :: "moq_namespace \<Rightarrow> nat \<Rightarrow> wr" where
  "ns_write_fields ns saved w =
     (case moq_buf_write_varint (of_nat (plen ns)) w of (rc, w1) \<Rightarrow>
        if rc \<noteq> MOQ_OK then (rc, w1) else ns_write_loop saved (elems ns) w1)"

text \<open>
  \<open>moq_buf_read_namespace r parts max_parts out\<close>: \<open>parts_null\<close> tells whether the caller's array
  is null. The result is the namespace stored through \<open>out\<close>.
\<close>

definition moq_buf_read_namespace :: "bool \<Rightarrow> nat \<Rightarrow> moq_namespace rd" where
  "moq_buf_read_namespace parts_null max_parts r =
     (if parts_null then (Inl MOQ_ERR_INVAL, r)
      else let saved = rd_pos r in
        case moq_buf_read_varint r of
          (Inl e, r1) \<Rightarrow> (Inl e, r1)
        | (Inr count, r1) \<Rightarrow>
            if count = 0 \<or> 32 < count then (Inl MOQ_ERR_PROTO, r1\<lparr>rd_pos := saved\<rparr>)
            else if max_parts < unat count then (Inl MOQ_ERR_BUFFER, r1\<lparr>rd_pos := saved\<rparr>)
            else case ns_read_fields saved (unat count) 0 r1 of
              (Inl e, r2) \<Rightarrow> (Inl e, r2)
            | (Inr ps, r2) \<Rightarrow> (Inr (Arr ps), r2))"

definition moq_buf_write_namespace :: "moq_namespace \<Rightarrow> wr" where
  "moq_buf_write_namespace ns w =
     (if plen ns = 0 \<or> 32 < plen ns then (MOQ_ERR_INVAL, w)
      else let rc = ns_validate_fields ns in
        if rc \<noteq> MOQ_OK then (rc, w) else ns_write_fields ns (w_pos w) w)"

definition moq_buf_read_namespace_prefix :: "bool \<Rightarrow> nat \<Rightarrow> moq_namespace rd" where
  "moq_buf_read_namespace_prefix parts_null max_parts r =
     (let saved = rd_pos r in
        case moq_buf_read_varint r of
          (Inl e, r1) \<Rightarrow> (Inl e, r1)
        | (Inr count, r1) \<Rightarrow>
            if 32 < count then (Inl MOQ_ERR_PROTO, r1\<lparr>rd_pos := saved\<rparr>)
            else if max_parts < unat count then (Inl MOQ_ERR_BUFFER, r1\<lparr>rd_pos := saved\<rparr>)
            else if 0 < count \<and> parts_null then (Inl MOQ_ERR_INVAL, r1\<lparr>rd_pos := saved\<rparr>)
            else if 0 < count then
              case ns_read_fields saved (unat count) 0 r1 of
                (Inl e, r2) \<Rightarrow> (Inl e, r2)
              | (Inr ps, r2) \<Rightarrow> (Inr (Arr ps), r2)
            else (Inr (if parts_null then Null 0 else Arr []), r1))"

definition moq_buf_write_namespace_prefix :: "moq_namespace \<Rightarrow> wr" where
  "moq_buf_write_namespace_prefix ns w =
     (if 32 < plen ns then (MOQ_ERR_INVAL, w)
      else let rc = (if 0 < plen ns then ns_validate_fields ns else MOQ_OK) in
        if rc \<noteq> MOQ_OK then (rc, w) else ns_write_fields ns (w_pos w) w)"

section \<open>Contracts of read operations\<close>

definition rd_rest :: "moq_buf_reader \<Rightarrow> u8 list" where
  "rd_rest r = drop (rd_pos r) (elems (rd_data r))"

definition rd_live :: "moq_buf_reader \<Rightarrow> bool" where
  "rd_live r \<longleftrightarrow> \<not> is_null (rd_data r) \<and> rd_pos r \<le> plen (rd_data r)"

text \<open>\<open>reads m bs a\<close>: on any input that continues with \<open>bs\<close>, \<open>m\<close> consumes \<open>bs\<close> and returns \<open>a\<close>.\<close>

definition reads :: "'a rd \<Rightarrow> u8 list \<Rightarrow> 'a \<Rightarrow> bool" where
  "reads m bs a \<longleftrightarrow>
     (\<forall>r rest. rd_live r \<longrightarrow> rd_rest r = bs @ rest \<longrightarrow>
        m r = (Inr a, r\<lparr>rd_pos := rd_pos r + length bs\<rparr>))"

text \<open>A failing operation leaves the cursor where it was.\<close>

definition rd_atomic :: "'a rd \<Rightarrow> bool" where
  "rd_atomic m \<longleftrightarrow> (\<forall>r e r'. m r = (Inl e, r') \<longrightarrow> r' = r)"

text \<open>A successful operation moves the cursor forward, within the span, and changes nothing else.\<close>

definition rd_steps :: "'a rd \<Rightarrow> bool" where
  "rd_steps m \<longleftrightarrow>
     (\<forall>r a r'. m r = (Inr a, r') \<longrightarrow>
        reader_valid r \<and> reader_valid r' \<and> rd_data r' = rd_data r \<and> rd_pos r \<le> rd_pos r')"

lemma rd_live_valid [simp]: "rd_live r \<Longrightarrow> reader_valid r"
  by (simp add: rd_live_def reader_valid_def)

lemma rd_live_advance:
  "rd_live r \<Longrightarrow> rd_rest r = bs @ rest \<Longrightarrow>
   rd_live (r\<lparr>rd_pos := rd_pos r + length bs\<rparr>)
   \<and> rd_rest (r\<lparr>rd_pos := rd_pos r + length bs\<rparr>) = rest"
proof -
  assume live: "rd_live r" and rest: "rd_rest r = bs @ rest"
  then have "drop (length bs) (rd_rest r) = rest" by simp
  moreover have "length (rd_rest r) = plen (rd_data r) - rd_pos r"
    using live by (simp add: rd_rest_def rd_live_def)
  then have "rd_pos r + length bs \<le> plen (rd_data r)"
    using live rest by (auto simp: rd_live_def)
  ultimately show ?thesis
    using live by (auto simp: rd_live_def rd_rest_def drop_drop add.commute)
qed

lemma reads_return: "reads (\<lambda>r. (Inr a, r)) [] a"
  by (simp add: reads_def)

lemma readsD:
  "reads m bs a \<Longrightarrow> rd_live r \<Longrightarrow> rd_rest r = bs @ rest \<Longrightarrow>
   m r = (Inr a, r\<lparr>rd_pos := rd_pos r + length bs\<rparr>)"
  unfolding reads_def by blast

text \<open>Sequencing: the bytes of two reads in a row are the concatenation.\<close>

lemma readsI_seq:
  assumes "reads m bs a"
    and "\<And>r r1. m r = (Inr a, r1) \<Longrightarrow> k r = f a r1"
    and "reads (f a) bs' b"
  shows "reads k (bs @ bs') b"
  unfolding reads_def
proof (intro allI impI)
  fix r rest assume live: "rd_live r" and rest: "rd_rest r = (bs @ bs') @ rest"
  let ?r1 = "r\<lparr>rd_pos := rd_pos r + length bs\<rparr>"
  from rest have rest': "rd_rest r = bs @ (bs' @ rest)" by simp
  then have m: "m r = (Inr a, ?r1)"
    using assms(1) live by (simp add: reads_def)
  from rd_live_advance [OF live rest'] have "rd_live ?r1" and "rd_rest ?r1 = bs' @ rest" by auto
  then have "f a ?r1 = (Inr b, ?r1\<lparr>rd_pos := rd_pos ?r1 + length bs'\<rparr>)"
    using assms(3) unfolding reads_def by blast
  with assms(2) [OF m] show "k r = (Inr b, r\<lparr>rd_pos := rd_pos r + length (bs @ bs')\<rparr>)"
    by (simp add: add.assoc)
qed

lemma reads_then: "reads m bs a \<Longrightarrow> reads (f a) cs b \<Longrightarrow> reads (rd_then m f) (bs @ cs) b"
  by (rule readsI_seq [where m = m and f = f and a = a]) (simp_all add: rd_then_def)

lemma reads_rd_return: "reads (rd_return a) [] a"
  by (simp add: reads_def rd_return_def)

lemma reads_then_return: "reads m bs a \<Longrightarrow> reads (rd_then m (\<lambda>x. rd_return (f x))) bs (f a)"
  by (simp add: reads_def rd_then_def rd_return_def)

lemma reads_then_check:
  "reads m bs a \<Longrightarrow> \<not> c a \<Longrightarrow> reads (rd_then m (\<lambda>x. if c x then rd_fail e else rd_return (f x))) bs (f a)"
  by (simp add: reads_def rd_then_def rd_return_def)

lemma reads_local: "reads m bs a \<Longrightarrow> reads (rd_local m) bs a"
  by (simp add: reads_def rd_local_def)

lemma rd_atomic_local: "rd_atomic (rd_local m)"
  by (auto simp: rd_atomic_def rd_local_def split: prod.splits sum.splits)

text \<open>Reading the whole of a span.\<close>

lemma reads_all:
  "reads m bs a \<Longrightarrow>
   m \<lparr>rd_data = Arr bs, rd_pos = 0\<rparr> = (Inr a, \<lparr>rd_data = Arr bs, rd_pos = length bs\<rparr>)"
  using readsD [of m bs a "\<lparr>rd_data = Arr bs, rd_pos = 0\<rparr>" "[]"]
  by (simp add: rd_live_def rd_rest_def)

section \<open>Contracts of write operations\<close>

definition w_room :: "moq_buf_writer \<Rightarrow> nat" where
  "w_room w = plen (w_data w) - w_pos w"

definition w_out :: "moq_buf_writer \<Rightarrow> u8 list" where
  "w_out w = take (w_pos w) (elems (w_data w))"

text \<open>\<open>emits m bs\<close>: \<open>m\<close> appends \<open>bs\<close> when they fit and reports the full buffer otherwise.\<close>

definition emits :: "wr \<Rightarrow> u8 list \<Rightarrow> bool" where
  "emits m bs \<longleftrightarrow>
     (\<forall>w. writer_valid w \<longrightarrow>
        (if length bs \<le> w_room w then m w = (MOQ_OK, w_append bs w)
         else fst (m w) = MOQ_ERR_BUFFER))"

text \<open>What a failed write keeps: the cursor, the capacity and every byte before the cursor.\<close>

definition w_keeps :: "moq_buf_writer \<Rightarrow> moq_buf_writer \<Rightarrow> bool" where
  "w_keeps w w' \<longleftrightarrow>
     w_pos w' = w_pos w \<and> plen (w_data w') = plen (w_data w)
     \<and> is_null (w_data w') = is_null (w_data w) \<and> w_out w' = w_out w"

definition wr_atomic :: "wr \<Rightarrow> bool" where
  "wr_atomic m \<longleftrightarrow> (\<forall>w. fst (m w) \<noteq> MOQ_OK \<longrightarrow> w_keeps w (snd (m w)))"

lemma writer_validE:
  assumes "writer_valid w"
  obtains "w_data w = Null 0" "w_pos w = 0" | xs where "w_data w = Arr xs" "w_pos w \<le> length xs"
  using assms by (cases "w_data w") (auto simp: writer_valid_def)

lemma w_append_Nil [simp]: "writer_valid w \<Longrightarrow> w_append [] w = w"
  by (cases "w_data w") (auto simp: w_append_def)

lemma w_append_valid:
  "writer_valid w \<Longrightarrow> length bs \<le> w_room w \<Longrightarrow> writer_valid (w_append bs w)"
  by (erule writer_validE) (auto simp: w_append_def writer_valid_def w_room_def)

lemma w_room_append:
  "writer_valid w \<Longrightarrow> length bs \<le> w_room w \<Longrightarrow> w_room (w_append bs w) = w_room w - length bs"
  by (erule writer_validE) (auto simp: w_append_def w_room_def)

lemma w_append_append:
  "writer_valid w \<Longrightarrow> length bs + length cs \<le> w_room w \<Longrightarrow>
   w_append cs (w_append bs w) = w_append (bs @ cs) w"
  by (erule writer_validE) (auto simp: w_append_def w_room_def add.assoc add.commute add.left_commute)

lemma w_out_append:
  "writer_valid w \<Longrightarrow> length bs \<le> w_room w \<Longrightarrow> w_out (w_append bs w) = w_out w @ bs"
  by (erule writer_validE) (auto simp: w_append_def w_out_def w_room_def)

lemma w_pos_append [simp]: "w_pos (w_append bs w) = w_pos w + length bs"
  by (simp add: w_append_def)

lemma w_keeps_refl [simp]: "w_keeps w w"
  by (simp add: w_keeps_def)

lemma w_keeps_rewind:
  "writer_valid w \<Longrightarrow> length bs \<le> w_room w \<Longrightarrow> w_keeps w (w_append bs w\<lparr>w_pos := w_pos w\<rparr>)"
  by (erule writer_validE) (auto simp: w_keeps_def w_append_def w_out_def w_room_def)

lemma emitsD:
  "emits m bs \<Longrightarrow> writer_valid w \<Longrightarrow> length bs \<le> w_room w \<Longrightarrow> m w = (MOQ_OK, w_append bs w)"
  by (simp add: emits_def)

lemma emits_full:
  "emits m bs \<Longrightarrow> writer_valid w \<Longrightarrow> w_room w < length bs \<Longrightarrow> fst (m w) = MOQ_ERR_BUFFER"
  by (simp add: emits_def not_le [symmetric])

lemma emits_return: "emits (\<lambda>w. (MOQ_OK, w)) []"
  by (simp add: emits_def)

text \<open>Sequencing with an early return on failure.\<close>

lemma emits_seq:
  assumes m: "emits m bs"
    and ok: "\<And>w. writer_valid w \<Longrightarrow> m w = (MOQ_OK, w_append bs w) \<Longrightarrow>
               writer_valid (w_append bs w) \<Longrightarrow>
               fst (k w) = fst (f (w_append bs w))
               \<and> (fst (k w) = MOQ_OK \<longrightarrow> snd (k w) = snd (f (w_append bs w)))"
    and fail: "\<And>w. writer_valid w \<Longrightarrow> fst (m w) = MOQ_ERR_BUFFER \<Longrightarrow> fst (k w) = MOQ_ERR_BUFFER"
    and f: "emits f cs"
  shows "emits k (bs @ cs)"
  unfolding emits_def
proof (intro allI impI)
  fix w assume w: "writer_valid w"
  show "if length (bs @ cs) \<le> w_room w then k w = (MOQ_OK, w_append (bs @ cs) w)
        else fst (k w) = MOQ_ERR_BUFFER"
  proof (cases "length bs \<le> w_room w")
    case True
    then have "fst (k w) = fst (f (w_append bs w))
        \<and> (fst (k w) = MOQ_OK \<longrightarrow> snd (k w) = snd (f (w_append bs w)))"
      by (intro ok emitsD [OF m w] w_append_valid w)
    with True show ?thesis
      using emitsD [OF f w_append_valid [OF w True]] emits_full [OF f w_append_valid [OF w True]]
        w_append_append [OF w, of bs cs]
      by (cases "k w") (auto simp: w_room_append [OF w True])
  next
    case False
    then show ?thesis
      using fail [OF w] emits_full [OF m w] by simp
  qed
qed

lemma emits_then: "emits m bs \<Longrightarrow> emits k cs \<Longrightarrow> emits (wr_then m k) (bs @ cs)"
  by (rule emits_seq [where m = m and f = k]) (auto simp: wr_then_def split: prod.splits)

text \<open>\<open>writes m c bs\<close>: \<open>m\<close> succeeds exactly when \<open>c\<close> holds and \<open>bs\<close> fit, and then appends them.\<close>

definition writes :: "wr \<Rightarrow> bool \<Rightarrow> u8 list \<Rightarrow> bool" where
  "writes m c bs \<longleftrightarrow>
     (\<forall>w w'. writer_valid w \<longrightarrow>
        (m w = (MOQ_OK, w') \<longleftrightarrow> c \<and> length bs \<le> w_room w \<and> w' = w_append bs w))"

lemma writesD:
  "writes m c bs \<Longrightarrow> writer_valid w \<Longrightarrow>
   m w = (MOQ_OK, w') \<longleftrightarrow> c \<and> length bs \<le> w_room w \<and> w' = w_append bs w"
  by (simp add: writes_def)

lemma emits_writes: "emits m bs \<Longrightarrow> writes m True bs"
  by (fastforce simp: writes_def emits_def not_le split: if_splits)

lemma writes_then:
  assumes m: "writes m c bs" and k: "writes k c' cs"
  shows "writes (wr_then m k) (c \<and> c') (bs @ cs)"
  unfolding writes_def
proof (intro allI impI)
  fix w w' assume w: "writer_valid w"
  have "wr_then m k w = (MOQ_OK, w') \<longleftrightarrow> (\<exists>w1. m w = (MOQ_OK, w1) \<and> k w1 = (MOQ_OK, w'))"
    by (auto simp: wr_then_def split: prod.splits)
  also have "\<dots> \<longleftrightarrow> c \<and> length bs \<le> w_room w \<and> k (w_append bs w) = (MOQ_OK, w')"
    by (auto simp: writesD [OF m w])
  also have "\<dots> \<longleftrightarrow> c \<and> length bs \<le> w_room w \<and> c' \<and> length cs \<le> w_room w - length bs
      \<and> w' = w_append cs (w_append bs w)"
    using writesD [OF k w_append_valid [OF w]] by (auto simp: w_room_append [OF w])
  also have "\<dots> \<longleftrightarrow> (c \<and> c') \<and> length (bs @ cs) \<le> w_room w \<and> w' = w_append (bs @ cs) w"
    using w_append_append [OF w, of bs cs] by auto
  finally show "wr_then m k w = (MOQ_OK, w') \<longleftrightarrow>
    (c \<and> c') \<and> length (bs @ cs) \<le> w_room w \<and> w' = w_append (bs @ cs) w" .
qed

lemma writes_local: "writes m c bs \<Longrightarrow> writes (wr_local m) c bs"
  by (fastforce simp: writes_def wr_local_def split: prod.splits if_splits)

lemma emits_local: "emits m bs \<Longrightarrow> emits (wr_local m) bs"
  by (auto simp: emits_def wr_local_def split: prod.splits)

lemma writes_return: "writes (\<lambda>w. (MOQ_OK, w)) True []"
  by (auto simp: writes_def)

section \<open>Integers through a cursor\<close>

text \<open>
  A read and a write operation that move one encoded integer between a cursor and a value:
  what \<open>moq_buf_read_varint\<close>/\<open>moq_buf_write_varint\<close> and \<open>moq_buf_read_vi64\<close>/\<open>moq_buf_write_vi64\<close>
  have in common.
\<close>

locale int_io = int_codec ok enc dec
  for ok :: "u64 \<Rightarrow> bool" and enc :: "u64 \<Rightarrow> u8 list" and dec :: "u8 list \<Rightarrow> (u64 \<times> nat) option" +
  fixes rd :: "u64 rd"
    and wr :: "u64 \<Rightarrow> wr"
  assumes rd_law: "rd r =
      (if \<not> reader_valid r then (Inl MOQ_ERR_INVAL, r)
       else case dec (rd_rest r) of
         None \<Rightarrow> (Inl MOQ_ERR_BUFFER, r)
       | Some (v, n) \<Rightarrow> (Inr v, r\<lparr>rd_pos := rd_pos r + n\<rparr>))"
    and wr_law: "wr v w =
      (if \<not> writer_valid w \<or> \<not> ok v then (MOQ_ERR_INVAL, w)
       else if w_room w < length (enc v) then (MOQ_ERR_BUFFER, w)
       else (MOQ_OK, w_append (enc v) w))"
begin

lemma rd_reads: "ok v \<Longrightarrow> reads rd (enc v) v"
  by (simp add: reads_def rd_law dec_enc)

lemma wr_emits: "ok v \<Longrightarrow> emits (wr v) (enc v)"
  by (simp add: emits_def wr_law)

lemma wr_writes: "writes (wr v) (ok v) (enc v)"
  by (auto simp: writes_def wr_law)

lemma rd_atomic_int: "rd_atomic rd"
  by (auto simp: rd_atomic_def rd_law split: if_splits option.splits)

lemma rd_steps_int: "rd_steps rd"
proof -
  have "length (rd_rest r) \<le> plen (rd_data r) - rd_pos r" for r
    by (cases "rd_data r") (auto simp: rd_rest_def)
  then have "n \<le> plen (rd_data r) - rd_pos r" if "dec (rd_rest r) = Some (v, n)" for r v n
    using dec_bounds [OF that] le_trans by blast
  then show ?thesis
    by (fastforce simp: rd_steps_def rd_law reader_valid_def split: if_splits option.splits)
qed

lemma wr_atomic_int: "wr_atomic (wr v)"
  by (simp add: wr_atomic_def wr_law)

text \<open>Every successful integer read consumes at least one byte: loops over integers end.\<close>

lemma rd_progress: "rd r = (Inr v, r') \<Longrightarrow> rd_pos r < rd_pos r'"
  using dec_bounds by (fastforce simp: rd_law split: if_splits option.splits)

lemma rd_step:
  assumes "rd r = (Inr v, r')"
  shows "reader_valid r \<and> reader_valid r' \<and> rd_data r' = rd_data r \<and> rd_pos r < rd_pos r'
    \<and> rd_pos r' \<le> plen (rd_data r)"
proof -
  from assms rd_steps_int have "reader_valid r" "reader_valid r'" "rd_data r' = rd_data r"
    unfolding rd_steps_def by blast+
  moreover from this(2,3) have "rd_pos r' \<le> plen (rd_data r)"
    by (simp add: reader_valid_def)
  ultimately show ?thesis
    using rd_progress [OF assms] by blast
qed

end

lemma is_null_rest: "reader_valid r \<Longrightarrow> is_null (rd_data r) \<Longrightarrow> rd_rest r = []"
  by (cases "rd_data r") (auto simp: reader_valid_def rd_rest_def)

lemma length_rd_rest: "reader_valid r \<Longrightarrow> length (rd_rest r) = plen (rd_data r) - rd_pos r"
  by (cases "rd_data r") (auto simp: reader_valid_def rd_rest_def)

lemma vi64_decode_rest:
  "reader_valid r \<Longrightarrow> rd_rest r \<noteq> [] \<Longrightarrow>
   moq_vi64_decode (padvance (rd_pos r) (rd_data r)) = vi64_dec (rd_rest r)"
  by (cases "rd_data r") (auto simp: reader_valid_def rd_rest_def vi64_dec_def)

lemma quic_decode_rest:
  "reader_valid r \<Longrightarrow> rd_rest r \<noteq> [] \<Longrightarrow>
   moq_quic_varint_decode (padvance (rd_pos r) (rd_data r)) = quic_dec (rd_rest r)"
  by (cases "rd_data r") (auto simp: reader_valid_def rd_rest_def quic_dec_def)

lemma rest_Nil_iff: "reader_valid r \<Longrightarrow> rd_rest r = [] \<longleftrightarrow> plen (rd_data r) \<le> rd_pos r"
  using length_rd_rest [of r] by (metis length_0_conv diff_is_0_eq)

lemma writer_room_null: "writer_valid w \<Longrightarrow> w_room w \<noteq> 0 \<Longrightarrow> \<not> is_null (w_data w)"
  by (auto simp: writer_valid_def w_room_def)

interpretation io_vi64: int_io "\<lambda>_. True" vi64_enc vi64_dec moq_buf_read_vi64 moq_buf_write_vi64
proof unfold_locales
  fix r
  show "moq_buf_read_vi64 r =
      (if \<not> reader_valid r then (Inl MOQ_ERR_INVAL, r)
       else case vi64_dec (rd_rest r) of
         None \<Rightarrow> (Inl MOQ_ERR_BUFFER, r)
       | Some (v, n) \<Rightarrow> (Inr v, r\<lparr>rd_pos := rd_pos r + n\<rparr>))"
    using rest_Nil_iff [of r] vi64_decode_rest [of r]
    by (cases "rd_rest r = []") (simp_all add: moq_buf_read_vi64_def Let_def vi64.dec_Nil)
next
  fix v w
  show "moq_buf_write_vi64 v w =
      (if \<not> writer_valid w \<or> \<not> True then (MOQ_ERR_INVAL, w)
       else if w_room w < length (vi64_enc v) then (MOQ_ERR_BUFFER, w)
       else (MOQ_OK, w_append (vi64_enc v) w))"
    using moq_vi64_len_bounds [of v] vi64.enc_nonempty [of v]
    by (cases "w_room w = 0")
      (auto simp: moq_buf_write_vi64_def Let_def w_room_def [symmetric] moq_vi64_encode_eq
        dest: writer_room_null)
qed

interpretation io_quic: int_io quic_ok quic_enc quic_dec moq_buf_read_varint moq_buf_write_varint
proof unfold_locales
  fix r
  show "moq_buf_read_varint r =
      (if \<not> reader_valid r then (Inl MOQ_ERR_INVAL, r)
       else case quic_dec (rd_rest r) of
         None \<Rightarrow> (Inl MOQ_ERR_BUFFER, r)
       | Some (v, n) \<Rightarrow> (Inr v, r\<lparr>rd_pos := rd_pos r + n\<rparr>))"
    using rest_Nil_iff [of r] quic_decode_rest [of r]
    by (cases "rd_rest r = []") (simp_all add: moq_buf_read_varint_def Let_def quic.dec_Nil)
next
  fix v w
  show "moq_buf_write_varint v w =
      (if \<not> writer_valid w \<or> \<not> quic_ok v then (MOQ_ERR_INVAL, w)
       else if w_room w < length (quic_enc v) then (MOQ_ERR_BUFFER, w)
       else (MOQ_OK, w_append (quic_enc v) w))"
    using quic.enc_nonempty [of v]
    by (cases "w_room w = 0")
      (auto simp: moq_buf_write_varint_def Let_def w_room_def [symmetric]
        moq_quic_varint_encode_eq quic_len_0_iff dest: writer_room_null)
qed

section \<open>Spans, raw bytes and 16-bit integers\<close>

lemma of_nat_quic_ok: "n < 2 ^ 62 \<Longrightarrow> quic_ok (of_nat n) \<and> unat (of_nat n :: u64) = n"
proof -
  assume n: "n < 2 ^ 62"
  then have "n < 2 ^ 64" by simp
  then have "unat (of_nat n :: u64) = n"
    by (simp add: unat_of_nat take_bit_nat_eq_self_iff)
  with n show ?thesis by (simp add: quic_ok_iff)
qed

definition span_enc :: "u8 list \<Rightarrow> u8 list" where
  "span_enc bs = quic_enc (of_nat (length bs)) @ bs"

lemma rest_take:
  assumes "rd_live r" and "rd_rest r = bs @ rest"
  shows "ptake (length bs) (padvance (rd_pos r) (rd_data r)) = Arr bs"
    and "length bs \<le> plen (rd_data r) - rd_pos r"
proof -
  from assms(1) obtain xs where xs: "rd_data r = Arr xs"
    by (cases "rd_data r") (auto simp: rd_live_def)
  with assms(2) have "drop (rd_pos r) xs = bs @ rest" by (simp add: rd_rest_def)
  then have "take (length bs) (drop (rd_pos r) xs) = bs" and "length bs \<le> length (drop (rd_pos r) xs)"
    by simp_all
  then show "ptake (length bs) (padvance (rd_pos r) (rd_data r)) = Arr bs"
    and "length bs \<le> plen (rd_data r) - rd_pos r"
    using xs by simp_all
qed

text \<open>For a live cursor the two ways the code takes the address of a span agree.\<close>

lemma span_ptr:
  "rd_live r \<Longrightarrow> rd_pos r = p \<Longrightarrow> rd_data r = d \<Longrightarrow>
   (if c then moq_buf_reader_ptr r else padvance p d) = padvance p d"
  by (auto simp: moq_buf_reader_ptr_def rd_live_def)

lemma reads_raw: "reads (moq_buf_read_raw (length bs)) bs (Arr bs)"
  unfolding reads_def
proof (intro allI impI)
  fix r rest assume live: "rd_live r" and rest: "rd_rest r = bs @ rest"
  with rest_take [OF live rest] show
    "moq_buf_read_raw (length bs) r = (Inr (Arr bs), r\<lparr>rd_pos := rd_pos r + length bs\<rparr>)"
    by (simp add: moq_buf_read_raw_def span_ptr)
qed

lemma reads_skip: "reads (moq_buf_skip (length bs)) bs ()"
  unfolding reads_def
  using rest_take(2) by (fastforce simp: moq_buf_skip_def)

lemma shift_in_uint16: "push_bit 8 (ucast (ucast (drop_bit 8 v) :: u8)) OR ucast (ucast v :: u8) = v"
  for v :: u16
  by (rule bit_word_eqI) (auto simp: bit_simps)

lemma reads_uint16: "reads moq_buf_read_uint16 (uint16_bytes v) v"
  unfolding reads_def
proof (intro allI impI)
  fix r rest assume live: "rd_live r" and rest: "rd_rest r = uint16_bytes v @ rest"
  obtain xs where xs: "rd_data r = Arr xs"
    using live by (cases "rd_data r") (auto simp: rd_live_def)
  then have d: "drop (rd_pos r) xs = ucast (drop_bit 8 v) # ucast v # rest"
    using rest by (simp add: rd_rest_def uint16_bytes_def)
  then have "length (drop (rd_pos r) xs) = Suc (Suc (length rest))" by (simp del: length_drop)
  then have len: "rd_pos r + 2 \<le> length xs" by simp
  have "xs ! rd_pos r = drop (rd_pos r) xs ! 0" "xs ! (rd_pos r + 1) = drop (rd_pos r) xs ! 1"
    using len by simp_all
  with d have "xs ! rd_pos r = ucast (drop_bit 8 v)" "xs ! (rd_pos r + 1) = ucast v" by simp_all
  then show "moq_buf_read_uint16 r = (Inr v, r\<lparr>rd_pos := rd_pos r + length (uint16_bytes v)\<rparr>)"
    using live len xs by (simp add: moq_buf_read_uint16_def shift_in_uint16 uint16_bytes_def)
qed

lemma reads_span:
  assumes "length bs < 2 ^ 62"
  shows "reads moq_buf_read_span (span_enc bs) (Arr bs)"
proof -
  have ok: "quic_ok (of_nat (length bs))" "unat (of_nat (length bs) :: u64) = length bs"
    using of_nat_quic_ok [OF assms] by auto
  show ?thesis
    unfolding reads_def span_enc_def
  proof (intro allI impI)
    fix r rest assume live: "rd_live r"
      and rest: "rd_rest r = (quic_enc (of_nat (length bs)) @ bs) @ rest"
    let ?r1 = "r\<lparr>rd_pos := rd_pos r + length (quic_enc (of_nat (length bs)))\<rparr>"
    from rest have rest': "rd_rest r = quic_enc (of_nat (length bs)) @ (bs @ rest)" by simp
    have v: "moq_buf_read_varint r = (Inr (of_nat (length bs)), ?r1)"
      by (rule readsD [OF io_quic.rd_reads [OF ok(1)] live rest'])
    from rd_live_advance [OF live rest'] have l1: "rd_live ?r1" and r1: "rd_rest ?r1 = bs @ rest"
      by auto
    show "moq_buf_read_span r = (Inr (Arr bs),
        r\<lparr>rd_pos := rd_pos r + length (quic_enc (of_nat (length bs)) @ bs)\<rparr>)"
      using rest_take [OF l1 r1] l1
      by (simp add: moq_buf_read_span_def Let_def v live ok(2) span_ptr add.assoc)
  qed
qed

lemma emits_raw: "\<not> (0 < plen d \<and> is_null d) \<Longrightarrow> emits (moq_buf_write_raw d) (elems d)"
  by (cases d) (auto simp: emits_def moq_buf_write_raw_def w_room_def)

lemma emits_uint16: "emits (moq_buf_write_uint16 v) (uint16_bytes v)"
  by (auto simp: emits_def moq_buf_write_uint16_def w_room_def uint16_bytes_def)

lemma emits_span:
  assumes "\<not> (0 < plen d \<and> is_null d)" and "plen d < 2 ^ 62"
  shows "emits (moq_buf_write_span d) (span_enc (elems d))"
proof -
  have len: "plen d = length (elems d)"
    using assms(1) by (cases d) auto
  show ?thesis
    unfolding span_enc_def len [symmetric]
  proof (rule emits_seq [where f = "moq_buf_write_raw d"])
    show "emits (moq_buf_write_varint (of_nat (plen d))) (quic_enc (of_nat (plen d)))"
      by (rule io_quic.wr_emits) (use of_nat_quic_ok [OF assms(2)] in simp)
  qed (cases "plen d = 0"; use assms in \<open>auto simp: emits_raw moq_buf_write_span_def
        moq_buf_write_raw_def split: prod.splits if_splits\<close>)+
qed

section \<open>Failure keeps the cursor\<close>

lemma reader_eqI: "rd_data r = rd_data r' \<Longrightarrow> rd_pos r = rd_pos r' \<Longrightarrow> r = (r' :: moq_buf_reader)"
  by simp

lemma rd_atomic_span: "rd_atomic moq_buf_read_span"
  using io_quic.rd_atomic_int io_quic.rd_steps_int
  by (fastforce simp: rd_atomic_def rd_steps_def moq_buf_read_span_def Let_def
      split: if_splits prod.splits sum.splits)

lemma rd_steps_span: "rd_steps moq_buf_read_span"
  using io_quic.rd_steps_int
  by (fastforce simp: rd_steps_def moq_buf_read_span_def Let_def reader_valid_def
      split: if_splits prod.splits sum.splits)

lemma rd_atomic_raw: "rd_atomic (moq_buf_read_raw n)"
  by (auto simp: rd_atomic_def moq_buf_read_raw_def split: if_splits)

lemma rd_steps_raw: "rd_steps (moq_buf_read_raw n)"
  by (auto simp: rd_steps_def moq_buf_read_raw_def reader_valid_def split: if_splits)

lemma rd_atomic_skip: "rd_atomic (moq_buf_skip n)"
  by (auto simp: rd_atomic_def moq_buf_skip_def split: if_splits)

lemma rd_steps_skip: "rd_steps (moq_buf_skip n)"
  by (auto simp: rd_steps_def moq_buf_skip_def reader_valid_def split: if_splits)

lemma rd_atomic_uint16: "rd_atomic moq_buf_read_uint16"
  by (auto simp: rd_atomic_def moq_buf_read_uint16_def split: if_splits)

lemma rd_steps_uint16: "rd_steps moq_buf_read_uint16"
  by (auto simp: rd_steps_def moq_buf_read_uint16_def reader_valid_def split: if_splits)

lemma span_stepE:
  assumes "moq_buf_read_span r = (Inr p, r1)"
  obtains "reader_valid r" "reader_valid r1" "rd_data r1 = rd_data r" "rd_pos r \<le> rd_pos r1"
  using assms rd_steps_span unfolding rd_steps_def by blast

lemma span_failD: "moq_buf_read_span r = (Inl e, r1) \<Longrightarrow> r1 = r"
  using rd_atomic_span unfolding rd_atomic_def by blast

lemma ns_read_fields_fail:
  "ns_read_fields saved n tot r = (Inl e, r') \<Longrightarrow> r' = r\<lparr>rd_pos := saved\<rparr>"
  by (induction saved n tot r arbitrary: e r' rule: ns_read_fields.induct)
    (fastforce split: prod.splits sum.splits if_splits dest!: span_failD elim!: span_stepE)+

lemma ns_read_fields_ok:
  "ns_read_fields saved n tot r = (Inr ps, r') \<Longrightarrow> reader_valid r \<Longrightarrow> tot \<le> 4096 \<Longrightarrow>
   length ps = n \<and> (\<forall>p \<in> set ps. 0 < plen p) \<and> tot + sum_list (map plen ps) \<le> 4096
   \<and> reader_valid r' \<and> rd_data r' = rd_data r \<and> rd_pos r \<le> rd_pos r'"
proof (induction saved n tot r arbitrary: ps r' rule: ns_read_fields.induct)
  case (1 saved tot r)
  then show ?case by simp
next
  case (2 saved n tot r)
  from 2(2) obtain p r1 qs where span: "moq_buf_read_span r = (Inr p, r1)"
    and p: "plen p \<noteq> 0" "\<not> 4096 - tot < plen p" and ps: "ps = p # qs"
    and rest: "ns_read_fields saved n (tot + plen p) r1 = (Inr qs, r')"
    by (auto split: prod.splits sum.splits if_splits)
  from span obtain v1: "reader_valid r1" "rd_data r1 = rd_data r" "rd_pos r \<le> rd_pos r1"
    by (elim span_stepE) auto
  have "tot + plen p \<le> 4096"
    using p(2) 2(4) by simp
  from 2(1) [OF span [symmetric] refl p rest v1(1) this] p show ?case
    using v1 by (auto simp: ps)
qed

lemma rd_atomic_namespace: "rd_atomic (moq_buf_read_namespace pn m)"
  using io_quic.rd_atomic_int io_quic.rd_steps_int
  by (fastforce simp: rd_atomic_def rd_steps_def moq_buf_read_namespace_def Let_def
      split: if_splits prod.splits sum.splits dest!: ns_read_fields_fail)

lemma rd_atomic_namespace_prefix: "rd_atomic (moq_buf_read_namespace_prefix pn m)"
  using io_quic.rd_atomic_int io_quic.rd_steps_int
  by (fastforce simp: rd_atomic_def rd_steps_def moq_buf_read_namespace_prefix_def Let_def
      split: if_splits prod.splits sum.splits dest!: ns_read_fields_fail)

section \<open>Reads that depend only on what they consume\<close>

text \<open>
  \<open>rd_moves\<close>: success moves the cursor forward within the span. \<open>rd_exact\<close>: a successful read gives the
  same result wherever the bytes it consumed stand, so a span can be cut out and read again.
\<close>

definition rd_moves :: "'a rd \<Rightarrow> bool" where
  "rd_moves m \<longleftrightarrow>
     (\<forall>r a r'. reader_valid r \<longrightarrow> m r = (Inr a, r') \<longrightarrow>
        reader_valid r' \<and> rd_data r' = rd_data r \<and> rd_pos r \<le> rd_pos r')"

definition rd_exact :: "'a rd \<Rightarrow> bool" where
  "rd_exact m \<longleftrightarrow>
     (\<forall>r a r'. rd_live r \<longrightarrow> m r = (Inr a, r') \<longrightarrow>
        (\<exists>bs rest. rd_rest r = bs @ rest \<and> r' = r\<lparr>rd_pos := rd_pos r + length bs\<rparr> \<and> reads m bs a))"

named_theorems rd_rule

lemma rd_movesD:
  "rd_moves m \<Longrightarrow> reader_valid r \<Longrightarrow> m r = (Inr a, r') \<Longrightarrow>
   reader_valid r' \<and> rd_data r' = rd_data r \<and> rd_pos r \<le> rd_pos r'"
  unfolding rd_moves_def by blast

lemma rd_exactE:
  assumes "rd_exact m" and "rd_live r" and "m r = (Inr a, r')"
  obtains bs rest where "rd_rest r = bs @ rest" "r' = r\<lparr>rd_pos := rd_pos r + length bs\<rparr>" "reads m bs a"
  using assms unfolding rd_exact_def by blast

lemma rd_moves_return [rd_rule]: "rd_moves (rd_return a)"
  by (simp add: rd_moves_def rd_return_def)

lemma rd_moves_fail [rd_rule]: "rd_moves (rd_fail e)"
  by (simp add: rd_moves_def rd_fail_def)

lemma rd_moves_then [rd_rule]: "rd_moves m \<Longrightarrow> (\<And>a. rd_moves (f a)) \<Longrightarrow> rd_moves (rd_then m f)"
proof -
  assume m: "rd_moves m" and f: "\<And>a. rd_moves (f a)"
  have "reader_valid r' \<and> rd_data r' = rd_data r \<and> rd_pos r \<le> rd_pos r'"
    if "reader_valid r" and "rd_then m f r = (Inr b, r')" for r b r'
  proof -
    from that(2) obtain a r1 where "m r = (Inr a, r1)" and "f a r1 = (Inr b, r')"
      by (auto simp: rd_then_def split: prod.splits sum.splits)
    with rd_movesD [OF m that(1)] rd_movesD [OF f] show ?thesis by (metis le_trans)
  qed
  then show ?thesis unfolding rd_moves_def by blast
qed

lemma rd_local_okD: "rd_local m r = (Inr a, r') \<Longrightarrow> m r = (Inr a, r')"
  by (auto simp: rd_local_def split: prod.splits sum.splits)

lemma rd_moves_local [rd_rule]: "rd_moves m \<Longrightarrow> rd_moves (rd_local m)"
  by (auto simp: rd_moves_def dest!: rd_local_okD)

lemma rd_moves_if [rd_rule]: "rd_moves m \<Longrightarrow> rd_moves k \<Longrightarrow> rd_moves (if c then m else k)"
  by simp

lemma rd_moves_steps: "rd_steps m \<Longrightarrow> rd_moves m"
  unfolding rd_moves_def rd_steps_def by blast

lemmas rd_moves_basic [rd_rule] =
  io_vi64.rd_steps_int [THEN rd_moves_steps] io_quic.rd_steps_int [THEN rd_moves_steps]
  rd_steps_raw [THEN rd_moves_steps]

lemma rd_exact_return [rd_rule]: "rd_exact (rd_return a)"
proof -
  have "\<exists>bs rest. rd_rest r = bs @ rest \<and> r = r\<lparr>rd_pos := rd_pos r + length bs\<rparr> \<and> reads (rd_return a) bs a" for r
    by (intro exI [of _ "[]"] exI [of _ "rd_rest r"]) (simp add: reads_rd_return)
  then show ?thesis by (auto simp: rd_exact_def rd_return_def)
qed

lemma rd_exact_fail [rd_rule]: "rd_exact (rd_fail e)"
  by (simp add: rd_exact_def rd_fail_def)

lemma rd_exact_if [rd_rule]: "rd_exact m \<Longrightarrow> rd_exact k \<Longrightarrow> rd_exact (if c then m else k)"
  by simp

lemma rd_exact_then [rd_rule]:
  assumes m: "rd_exact m" and f: "\<And>a. rd_exact (f a)"
  shows "rd_exact (rd_then m f)"
  unfolding rd_exact_def
proof (intro allI impI)
  fix r b r' assume live: "rd_live r" and run: "rd_then m f r = (Inr b, r')"
  from run obtain a r1 where a: "m r = (Inr a, r1)" and b: "f a r1 = (Inr b, r')"
    by (auto simp: rd_then_def split: prod.splits sum.splits)
  from m live a obtain bs rest where bs: "rd_rest r = bs @ rest" "r1 = r\<lparr>rd_pos := rd_pos r + length bs\<rparr>" "reads m bs a"
    by (rule rd_exactE)
  from rd_live_advance [OF live bs(1)] have r1: "rd_live r1" "rd_rest r1 = rest" using bs(2) by auto
  from f r1(1) b obtain cs rest' where cs: "rd_rest r1 = cs @ rest'" "r' = r1\<lparr>rd_pos := rd_pos r1 + length cs\<rparr>" "reads (f a) cs b"
    by (rule rd_exactE)
  have "rd_rest r = (bs @ cs) @ rest'" "r' = r\<lparr>rd_pos := rd_pos r + length (bs @ cs)\<rparr>"
    using bs cs(1,2) r1(2) by simp_all
  then show "\<exists>bs rest. rd_rest r = bs @ rest \<and> r' = r\<lparr>rd_pos := rd_pos r + length bs\<rparr> \<and> reads (rd_then m f) bs b"
    using reads_then [where f = f, OF bs(3) cs(3)] by blast
qed

lemma rd_exact_local [rd_rule]: "rd_exact m \<Longrightarrow> rd_exact (rd_local m)"
  by (auto simp: rd_exact_def dest!: rd_local_okD) (meson reads_local)

lemma rd_exact_vi64 [rd_rule]: "rd_exact moq_buf_read_vi64"
  unfolding rd_exact_def
proof (intro allI impI)
  fix r v r' assume "rd_live r" and run: "moq_buf_read_vi64 r = (Inr v, r')"
  from run obtain n where dec: "vi64_dec (rd_rest r) = Some (v, n)" and r': "r' = r\<lparr>rd_pos := rd_pos r + n\<rparr>"
    by (auto simp: io_vi64.rd_law split: if_splits option.splits)
  let ?bs = "take n (rd_rest r)"
  have n: "length ?bs = n" using vi64.dec_bounds [OF dec] by simp
  have "reads moq_buf_read_vi64 ?bs v"
    using vi64.dec_local [OF dec] n by (simp add: reads_def io_vi64.rd_law)
  then show "\<exists>bs rest. rd_rest r = bs @ rest \<and> r' = r\<lparr>rd_pos := rd_pos r + length bs\<rparr> \<and> reads moq_buf_read_vi64 bs v"
    using r' n by (intro exI [of _ ?bs] exI [of _ "drop n (rd_rest r)"]) simp
qed

lemma rd_exact_raw [rd_rule]: "rd_exact (moq_buf_read_raw n)"
  unfolding rd_exact_def
proof (intro allI impI)
  fix r b r' assume live: "rd_live r" and run: "moq_buf_read_raw n r = (Inr b, r')"
  let ?bs = "take n (rd_rest r)"
  from run live have "n \<le> plen (rd_data r) - rd_pos r" by (auto simp: moq_buf_read_raw_def split: if_splits)
  then have n: "length ?bs = n" using live by (simp add: rd_rest_def rd_live_def)
  have rest: "rd_rest r = ?bs @ drop n (rd_rest r)" by simp
  from readsD [OF reads_raw live rest] have "moq_buf_read_raw n r = (Inr (Arr ?bs), r\<lparr>rd_pos := rd_pos r + length ?bs\<rparr>)"
    unfolding n .
  then have "b = Arr ?bs" "r' = r\<lparr>rd_pos := rd_pos r + length ?bs\<rparr>" using run by auto
  moreover have "reads (moq_buf_read_raw n) ?bs (Arr ?bs)" using reads_raw [of ?bs] unfolding n .
  ultimately show "\<exists>bs rest. rd_rest r = bs @ rest \<and> r' = r\<lparr>rd_pos := rd_pos r + length bs\<rparr> \<and> reads (moq_buf_read_raw n) bs b"
    using rest by blast
qed

section \<open>Namespaces: what is written is what is read\<close>

definition ns_enc :: "u8 list list \<Rightarrow> u8 list" where
  "ns_enc ps = quic_enc (of_nat (length ps)) @ concat (map span_enc ps)"

text \<open>The constraints both directions enforce on the fields.\<close>

definition ns_fields_ok :: "u8 list list \<Rightarrow> bool" where
  "ns_fields_ok ps \<longleftrightarrow>
     (\<forall>p \<in> set ps. p \<noteq> []) \<and> sum_list (map length ps) \<le> 4096"

lemma reads_ns_fields:
  "(\<forall>p \<in> set ps. p \<noteq> []) \<Longrightarrow> tot + sum_list (map length ps) \<le> 4096 \<Longrightarrow>
   reads (ns_read_fields saved (length ps) tot) (concat (map span_enc ps)) (map Arr ps)"
proof (induction ps arbitrary: tot)
  case Nil
  then show ?case by (simp add: reads_def)
next
  case (Cons p ps)
  then have p: "length p < 2 ^ 62" and le: "\<not> 4096 - tot < length p" by auto
  let ?f = "\<lambda>r1. case ns_read_fields saved (length ps) (tot + length p) r1 of
            (Inl e, r2) \<Rightarrow> (Inl e, r2) | (Inr qs, r2) \<Rightarrow> (Inr (Arr p # qs), r2)"
  have "reads ?f (concat (map span_enc ps)) (map Arr (p # ps))"
    using Cons.IH [of "tot + length p"] Cons.prems by (auto simp: reads_def add.assoc)
  moreover have "ns_read_fields saved (length (p # ps)) tot r = ?f r1"
    if "moq_buf_read_span r = (Inr (Arr p), r1)" for r r1
    using that Cons.prems le by simp
  ultimately show ?case
    using readsI_seq [OF reads_span [OF p], where f = "\<lambda>_. ?f"] by simp
qed

lemma ns_count_word:
  assumes "n \<le> 32"
  shows "quic_ok (of_nat n)" "unat (of_nat n :: u64) = n" "\<not> 32 < (of_nat n :: u64)"
    "(of_nat n :: u64) = 0 \<longleftrightarrow> n = 0"
proof -
  have n: "n < 2 ^ 62" using assms by simp
  show "quic_ok (of_nat n)" and u: "unat (of_nat n :: u64) = n"
    using of_nat_quic_ok [OF n] by auto
  show "\<not> 32 < (of_nat n :: u64)"
    using assms u by (simp add: word_less_nat_alt)
  show "(of_nat n :: u64) = 0 \<longleftrightarrow> n = 0"
    unfolding word_unat_eq_iff u by simp
qed

lemma reads_namespace:
  assumes "ns_fields_ok ps" and "1 \<le> length ps" "length ps \<le> 32" and "length ps \<le> max_parts"
  shows "reads (moq_buf_read_namespace False max_parts) (ns_enc ps) (Arr (map Arr ps))"
  unfolding reads_def ns_enc_def
proof (intro allI impI)
  fix r rest
  assume live: "rd_live r"
    and rest: "rd_rest r = (quic_enc (of_nat (length ps)) @ concat (map span_enc ps)) @ rest"
  let ?r1 = "r\<lparr>rd_pos := rd_pos r + length (quic_enc (of_nat (length ps)))\<rparr>"
  note n = ns_count_word [OF assms(3)]
  from rest have rest': "rd_rest r = quic_enc (of_nat (length ps)) @ (concat (map span_enc ps) @ rest)"
    by simp
  have v: "moq_buf_read_varint r = (Inr (of_nat (length ps)), ?r1)"
    by (rule readsD [OF io_quic.rd_reads [OF n(1)] live rest'])
  have "ns_read_fields (rd_pos r) (length ps) 0 ?r1
      = (Inr (map Arr ps), ?r1\<lparr>rd_pos := rd_pos ?r1 + length (concat (map span_enc ps))\<rparr>)"
    using rd_live_advance [OF live rest'] assms(1)
    by (intro readsD [OF reads_ns_fields]) (auto simp: ns_fields_ok_def)
  then show "moq_buf_read_namespace False max_parts r = (Inr (Arr (map Arr ps)),
      r\<lparr>rd_pos := rd_pos r + length (quic_enc (of_nat (length ps)) @ concat (map span_enc ps))\<rparr>)"
    using assms n by (auto simp: moq_buf_read_namespace_def Let_def v add.assoc)
qed

text \<open>The write side: a validated tuple of non-null fields is emitted as \<open>ns_enc\<close>.\<close>

lemma ns_validate_loop_iff:
  "tot \<le> 4096 \<Longrightarrow> ns_validate_loop tot ps = MOQ_OK \<longleftrightarrow>
   (\<forall>p \<in> set ps. 0 < plen p) \<and> tot + sum_list (map plen ps) \<le> 4096"
  by (induction tot ps rule: ns_validate_loop.induct) auto

lemma ns_validate_loop_code:
  "ns_validate_loop tot ps = MOQ_OK \<or> ns_validate_loop tot ps = MOQ_ERR_INVAL"
  by (induction tot ps rule: ns_validate_loop.induct) auto

lemma write_span_okD:
  assumes "writer_valid w" and "0 < plen p" "plen p < 2 ^ 62"
    and "moq_buf_write_span p w = (MOQ_OK, w')"
  shows "p = Arr (elems p) \<and> length (span_enc (elems p)) \<le> w_room w
    \<and> w' = w_append (span_enc (elems p)) w"
proof -
  have nn: "\<not> is_null p"
    using assms by (auto simp: moq_buf_write_span_def)
  then have e: "emits (moq_buf_write_span p) (span_enc (elems p))"
    using assms by (intro emits_span) auto
  have "length (span_enc (elems p)) \<le> w_room w"
    using emits_full [OF e assms(1)] assms(4) by (auto simp: not_less [symmetric])
  with emitsD [OF e assms(1)] assms(4) not_null_Arr [OF nn] show ?thesis by auto
qed

lemma ns_write_loop_okD:
  assumes "writer_valid w" and "ns_write_loop saved ps w = (MOQ_OK, w')"
    and "\<forall>p \<in> set ps. 0 < plen p \<and> plen p < 2 ^ 62"
  shows "ps = map Arr (map elems ps) \<and> length (concat (map span_enc (map elems ps))) \<le> w_room w
    \<and> w' = w_append (concat (map span_enc (map elems ps))) w"
  using assms
proof (induction saved ps w arbitrary: w' rule: ns_write_loop.induct)
  case (1 saved w)
  then show ?case by simp
next
  case (2 saved p ps w)
  then obtain w1 where w1: "moq_buf_write_span p w = (MOQ_OK, w1)"
    and rest: "ns_write_loop saved ps w1 = (MOQ_OK, w')"
    by (auto split: prod.splits if_splits)
  let ?s = "span_enc (elems p)"
  have p: "p = Arr (elems p)" "length ?s \<le> w_room w" "w1 = w_append ?s w"
    using write_span_okD [OF 2(2) _ _ w1] 2(4) by auto
  have v1: "writer_valid w1"
    unfolding p(3) by (rule w_append_valid [OF 2(2) p(2)])
  have "ps = map Arr (map elems ps) \<and> length (concat (map span_enc (map elems ps))) \<le> w_room w1
    \<and> w' = w_append (concat (map span_enc (map elems ps))) w1"
    using 2(4) by (intro 2(1) [OF w1 [symmetric] _ v1 rest]) auto
  with p w_append_append [OF 2(2), of ?s] show ?case
    by (auto simp: w_room_append [OF 2(2) p(2)])
qed

lemma write_namespace_okD:
  assumes "writer_valid w" and "moq_buf_write_namespace ns w = (MOQ_OK, w')"
  obtains ps where "ns = Arr (map Arr ps)" "ns_fields_ok ps" "1 \<le> length ps" "length ps \<le> 32"
    "length (ns_enc ps) \<le> w_room w" "w' = w_append (ns_enc ps) w"
proof -
  from assms(2) have n: "plen ns \<noteq> 0" "plen ns \<le> 32" and val: "ns_validate_fields ns = MOQ_OK"
    and wr: "ns_write_fields ns (w_pos w) w = (MOQ_OK, w')"
    by (auto simp: moq_buf_write_namespace_def Let_def split: if_splits)
  from n val obtain qs where qs: "ns = Arr qs" and ok: "ns_validate_loop 0 qs = MOQ_OK"
    by (cases ns) (auto simp: ns_validate_fields_def)
  from ok have fields: "\<forall>p \<in> set qs. 0 < plen p" "sum_list (map plen qs) \<le> 4096"
    using ns_validate_loop_iff [of 0 qs] by auto
  then have small: "\<forall>p \<in> set qs. 0 < plen p \<and> plen p < 2 ^ 62"
    using member_le_sum_list [of _ "map plen qs"] by fastforce
  define ps where "ps = map elems qs"
  note c = ns_count_word [OF n(2)]
  let ?c = "quic_enc (of_nat (plen ns))"
  from wr obtain w1 where w1: "moq_buf_write_varint (of_nat (plen ns)) w = (MOQ_OK, w1)"
    and loop: "ns_write_loop (w_pos w) qs w1 = (MOQ_OK, w')"
    by (auto simp: ns_write_fields_def qs split: prod.splits if_splits)
  have e: "emits (moq_buf_write_varint (of_nat (plen ns))) ?c"
    by (rule io_quic.wr_emits [OF c(1)])
  have fit: "length ?c \<le> w_room w"
    using emits_full [OF e assms(1)] w1 by (auto simp: not_less [symmetric])
  with emitsD [OF e assms(1)] w1 have w1': "w1 = w_append ?c w" by simp
  have v1: "writer_valid w1"
    unfolding w1' by (rule w_append_valid [OF assms(1) fit])
  have arr: "qs = map Arr ps" and fit1: "length (concat (map span_enc ps)) \<le> w_room w1"
    and w': "w' = w_append (concat (map span_enc ps)) w1"
    using ns_write_loop_okD [OF v1 loop small] unfolding ps_def by blast+
  have "w_room w1 = w_room w - length ?c"
    unfolding w1' by (rule w_room_append [OF assms(1) fit])
  with fit fit1 have le: "length ?c + length (concat (map span_enc ps)) \<le> w_room w" by linarith
  have enc: "ns_enc ps = ?c @ concat (map span_enc ps)"
    by (simp add: ns_enc_def qs arr)
  have "length (ns_enc ps) \<le> w_room w"
    using le by (simp only: enc length_append)
  moreover have "w' = w_append (ns_enc ps) w"
    unfolding enc w' w1' by (rule w_append_append [OF assms(1) le])
  moreover have "ns_fields_ok ps"
    using fields by (auto simp: ns_fields_ok_def arr o_def)
  ultimately show ?thesis
    using that [of ps] n by (auto simp: qs arr Suc_le_eq)
qed

lemma reads_written:
  assumes "reads m bs a" and "writer_valid w" and "length bs \<le> w_room w" and "bs \<noteq> []"
  shows "m \<lparr>rd_data = w_data (w_append bs w), rd_pos = w_pos w\<rparr>
    = (Inr a, \<lparr>rd_data = w_data (w_append bs w), rd_pos = w_pos w + length bs\<rparr>)"
proof -
  let ?r = "\<lparr>rd_data = w_data (w_append bs w), rd_pos = w_pos w\<rparr>"
  from assms(2-4) obtain xs where xs: "w_data w = Arr xs" "w_pos w \<le> length xs"
    by (elim writer_validE) (auto simp: w_room_def)
  have "rd_live ?r" and "rd_rest ?r = bs @ drop (w_pos w + length bs) xs"
    using xs assms(3) by (auto simp: rd_live_def rd_rest_def w_append_def w_room_def)
  from readsD [OF assms(1) this] show ?thesis by simp
qed

lemma writes_read_back:
  assumes "writes m c bs" and "c \<Longrightarrow> reads k bs a" and "bs \<noteq> []" and "writer_valid w"
    and "m w = (MOQ_OK, w')"
  shows "k \<lparr>rd_data = w_data w', rd_pos = w_pos w\<rparr> = (Inr a, \<lparr>rd_data = w_data w', rd_pos = w_pos w'\<rparr>)"
proof -
  have "c" "length bs \<le> w_room w" "w' = w_append bs w"
    using writesD [OF assms(1,4)] assms(5) by auto
  with reads_written [OF assms(2) assms(4) _ assms(3)] show ?thesis by simp
qed

lemma reads_cong: "(\<And>r. rd_live r \<Longrightarrow> k r = m r) \<Longrightarrow> reads m bs a \<Longrightarrow> reads k bs a"
  by (simp add: reads_def)

lemma writes_guard:
  "writes m True bs \<Longrightarrow> (\<And>w. writer_valid w \<Longrightarrow> k w = (if d then m w else (e, f w))) \<Longrightarrow>
   e \<noteq> MOQ_OK \<Longrightarrow> writes k d bs"
  by (auto simp: writes_def)

section \<open>Failed writes keep what was written\<close>

text \<open>A successful write appends some bytes that fitted.\<close>

definition wr_appends :: "wr \<Rightarrow> bool" where
  "wr_appends m \<longleftrightarrow>
     (\<forall>w w'. m w = (MOQ_OK, w') \<longrightarrow>
        writer_valid w \<and> (\<exists>bs. length bs \<le> w_room w \<and> w' = w_append bs w))"

lemma wr_appendsE:
  assumes "wr_appends m" and "m w = (MOQ_OK, w')"
  obtains bs where "writer_valid w" "length bs \<le> w_room w" "w' = w_append bs w"
  using assms unfolding wr_appends_def by blast

lemma wr_appends_varint: "wr_appends (moq_buf_write_varint v)"
  by (auto simp: wr_appends_def io_quic.wr_law split: if_splits intro!: exI [of _ "quic_enc v"])

lemma wr_appends_raw: "wr_appends (moq_buf_write_raw d)"
proof -
  have "\<exists>bs. length bs \<le> w_room w \<and> w = w_append bs w" if "writer_valid w" for w
    using that by (intro exI [of _ "[]"]) simp
  moreover have "\<exists>bs. length bs \<le> w_room w \<and> w_append (elems d) w = w_append bs w"
    if "\<not> plen (w_data w) - w_pos w < plen d" "0 < plen d" "\<not> is_null d" for w
    using that by (intro exI [of _ "elems d"]) (simp add: w_room_def)
  ultimately show ?thesis
    by (auto simp: wr_appends_def moq_buf_write_raw_def split: if_splits)
qed

text \<open>A span is its length followed by its bytes, with the cursor rewound when they do not fit.\<close>

lemma write_span_eq:
  assumes "moq_buf_write_varint (of_nat (plen p)) w = (MOQ_OK, w1)"
    and "\<not> (0 < plen p \<and> is_null p)"
  shows "moq_buf_write_span p w = (case moq_buf_write_raw p w1 of (rc, w2) \<Rightarrow>
    if rc = MOQ_OK then (rc, w2) else (rc, w1\<lparr>w_pos := w_pos w\<rparr>))"
  using assms wr_appendsE [OF wr_appends_varint assms(1)] w_append_valid
  by (cases "plen p = 0") (auto simp: moq_buf_write_span_def moq_buf_write_raw_def Let_def)

lemma wr_appends_span: "wr_appends (moq_buf_write_span p)"
  unfolding wr_appends_def
proof (intro allI impI)
  fix w w' assume ok: "moq_buf_write_span p w = (MOQ_OK, w')"
  then obtain w1 where w1: "moq_buf_write_varint (of_nat (plen p)) w = (MOQ_OK, w1)"
    and nn: "\<not> (0 < plen p \<and> is_null p)"
    by (auto simp: moq_buf_write_span_def Let_def split: if_splits prod.splits)
  from w1 obtain bs where bs: "writer_valid w" "length bs \<le> w_room w" "w1 = w_append bs w"
    by (rule wr_appendsE [OF wr_appends_varint])
  from ok have "moq_buf_write_raw p w1 = (MOQ_OK, w')"
    unfolding write_span_eq [OF w1 nn] by (auto split: prod.splits if_splits)
  then obtain cs where cs: "length cs \<le> w_room w1" "w' = w_append cs w1"
    by (rule wr_appendsE [OF wr_appends_raw])
  have le: "length bs + length cs \<le> w_room w"
    using cs(1) bs w_room_append [OF bs(1,2)] by simp
  with w_append_append [OF bs(1) le] cs(2) bs(1,3)
  show "writer_valid w \<and> (\<exists>bs. length bs \<le> w_room w \<and> w' = w_append bs w)"
    by (intro conjI exI [of _ "bs @ cs"]) simp_all
qed

lemma wr_atomic_span: "wr_atomic (moq_buf_write_span p)"
  unfolding wr_atomic_def
proof (intro allI impI)
  fix w assume fail: "fst (moq_buf_write_span p w) \<noteq> MOQ_OK"
  show "w_keeps w (snd (moq_buf_write_span p w))"
  proof (cases "writer_valid w \<and> \<not> (0 < plen p \<and> is_null p)
      \<and> fst (moq_buf_write_varint (of_nat (plen p)) w) = MOQ_OK")
    case True
    then obtain w1 where w1: "moq_buf_write_varint (of_nat (plen p)) w = (MOQ_OK, w1)"
      and nn: "\<not> (0 < plen p \<and> is_null p)" by (metis prod.collapse)
    from w1 obtain bs where bs: "writer_valid w" "length bs \<le> w_room w" "w1 = w_append bs w"
      by (rule wr_appendsE [OF wr_appends_varint])
    from fail have "snd (moq_buf_write_span p w) = w1\<lparr>w_pos := w_pos w\<rparr>"
      unfolding write_span_eq [OF w1 nn] by (auto split: prod.splits if_splits)
    then show ?thesis
      using w_keeps_rewind [OF bs(1,2)] by (simp add: bs(3))
  next
    case False
    then show ?thesis
      using io_quic.wr_atomic_int [of "of_nat (plen p)"]
      by (auto simp: moq_buf_write_span_def wr_atomic_def split: prod.splits)
  qed
qed

lemma w_keeps_trans_rewind:
  assumes "writer_valid w" and "length bs \<le> w_room w" and "w_keeps (w_append bs w) w1"
  shows "w_keeps w (w1\<lparr>w_pos := w_pos w\<rparr>)"
proof -
  have "take (w_pos w) (elems (w_data w1)) = take (w_pos w) (w_out w1)"
    using assms(3) by (simp add: w_out_def w_keeps_def)
  also have "\<dots> = take (w_pos w) (w_out w @ bs)"
    using assms w_out_append [OF assms(1,2)] by (simp add: w_keeps_def)
  also have "\<dots> = w_out w"
    using assms(1) by (elim writer_validE) (simp_all add: w_out_def)
  finally show ?thesis
    using assms(3) w_keeps_rewind [OF assms(1,2)] by (auto simp: w_keeps_def w_out_def)
qed

lemma ns_write_loop_fail:
  assumes "writer_valid w" and "length bs \<le> w_room w"
    and "fst (ns_write_loop (w_pos w) ps (w_append bs w)) \<noteq> MOQ_OK"
  shows "w_keeps w (snd (ns_write_loop (w_pos w) ps (w_append bs w)))"
  using assms(2,3)
proof (induction ps arbitrary: bs)
  case Nil
  then show ?case by simp
next
  case (Cons p ps)
  let ?w = "w_append bs w"
  obtain rc w1 where w1: "moq_buf_write_span p ?w = (rc, w1)" by fastforce
  show ?case
  proof (cases "rc = MOQ_OK")
    case True
    with w1 obtain cs where cs: "length cs \<le> w_room ?w" "w1 = w_append cs ?w"
      using wr_appendsE [OF wr_appends_span] by metis
    have le: "length bs + length cs \<le> w_room w"
      using cs(1) Cons.prems(1) w_room_append [OF assms(1) Cons.prems(1)] by simp
    with Cons.IH [of "bs @ cs"] Cons.prems w_append_append [OF assms(1) le] True show ?thesis
      by (simp add: w1 cs(2))
  next
    case False
    with w1 have "w_keeps ?w w1"
      using wr_atomic_span [of p] unfolding wr_atomic_def by (metis fst_conv snd_conv)
    with False w_keeps_trans_rewind [OF assms(1) Cons.prems(1)] show ?thesis
      by (simp add: w1)
  qed
qed

lemma ns_write_fields_fail:
  assumes "fst (ns_write_fields ns (w_pos w) w) \<noteq> MOQ_OK"
  shows "w_keeps w (snd (ns_write_fields ns (w_pos w) w))"
proof (cases "fst (moq_buf_write_varint (of_nat (plen ns)) w) = MOQ_OK")
  case True
  then obtain w1 where w1: "moq_buf_write_varint (of_nat (plen ns)) w = (MOQ_OK, w1)"
    by (metis prod.collapse)
  then obtain bs where bs: "writer_valid w" "length bs \<le> w_room w" "w1 = w_append bs w"
    by (rule wr_appendsE [OF wr_appends_varint])
  with assms ns_write_loop_fail [OF bs(1,2), of "elems ns"] show ?thesis
    by (simp add: ns_write_fields_def w1)
next
  case False
  then show ?thesis
    using io_quic.wr_atomic_int [of "of_nat (plen ns)"]
    by (auto simp: ns_write_fields_def wr_atomic_def split: prod.splits)
qed

lemma wr_atomic_namespace: "wr_atomic (moq_buf_write_namespace ns)"
  using ns_write_fields_fail by (auto simp: wr_atomic_def moq_buf_write_namespace_def Let_def)

lemma wr_atomic_namespace_prefix: "wr_atomic (moq_buf_write_namespace_prefix ns)"
  using ns_write_fields_fail by (auto simp: wr_atomic_def moq_buf_write_namespace_prefix_def Let_def)

lemma wr_atomic_raw: "wr_atomic (moq_buf_write_raw d)"
  by (auto simp: wr_atomic_def moq_buf_write_raw_def)

lemma wr_atomic_uint16: "wr_atomic (moq_buf_write_uint16 v)"
  by (auto simp: wr_atomic_def moq_buf_write_uint16_def)

section \<open>Properties\<close>

text \<open>C11: a namespace that \<open>moq_buf_write_namespace\<close> accepts is read back by
  \<open>moq_buf_read_namespace\<close> exactly as it was, from where the writer started to where the writer
  stopped, whenever the caller's array has room for its fields.\<close>

theorem namespace_round_trip:
  assumes "writer_valid w" and "moq_buf_write_namespace ns w = (MOQ_OK, w')"
    and "plen ns \<le> max_parts"
  shows "moq_buf_read_namespace False max_parts \<lparr>rd_data = w_data w', rd_pos = w_pos w\<rparr>
    = (Inr ns, \<lparr>rd_data = w_data w', rd_pos = w_pos w'\<rparr>)"
proof -
  from assms(1,2) obtain ps where ps: "ns = Arr (map Arr ps)" "ns_fields_ok ps"
      "1 \<le> length ps" "length ps \<le> 32" "length (ns_enc ps) \<le> w_room w" "w' = w_append (ns_enc ps) w"
    by (rule write_namespace_okD)
  have "ns_enc ps \<noteq> []"
    using quic.enc_nonempty [OF ns_count_word(1) [OF ps(4)]] by (simp add: ns_enc_def)
  moreover have "reads (moq_buf_read_namespace False max_parts) (ns_enc ps) ns"
    using ps assms(3) by (auto intro: reads_namespace)
  ultimately show ?thesis
    using reads_written [OF _ assms(1) ps(5)] by (simp add: ps(6))
qed

theorem namespace_round_trip_witness:
  "moq_buf_read_namespace False 4
     \<lparr>rd_data = Arr [2, 1, 97, 2, 98, 99, 0, 0], rd_pos = 0\<rparr>
   = (Inr (Arr [Arr [97], Arr [98, 99]]),
      \<lparr>rd_data = Arr [2, 1, 97, 2, 98, 99, 0, 0], rd_pos = 6\<rparr>)"
proof -
  let ?w = "\<lparr>w_data = Arr (replicate 8 0), w_pos = 0\<rparr>"
  have "writer_valid ?w" by code_simp
  moreover have "moq_buf_write_namespace (Arr [Arr [97], Arr [98, 99]]) ?w
      = (MOQ_OK, \<lparr>w_data = Arr [2, 1, 97, 2, 98, 99, 0, 0], w_pos = 6\<rparr>)" by code_simp
  moreover have "plen (Arr [Arr [97 :: u8], Arr [98, 99]]) \<le> 4" by simp
  ultimately show ?thesis
    using namespace_round_trip [of ?w "Arr [Arr [97], Arr [98, 99]]" _ 4] by simp
qed

text \<open>Whatever \<open>moq_buf_read_namespace\<close> accepts satisfies the draft-16 limits: between one and
  thirty-two fields that fit the caller's array, no empty field, at most 4096 bytes in all;
  the cursor has moved forward and stays inside the span.\<close>

theorem read_namespace_sound:
  assumes "moq_buf_read_namespace parts_null max_parts r = (Inr ns, r')"
  shows "ns = Arr (elems ns) \<and> 1 \<le> plen ns \<and> plen ns \<le> 32 \<and> plen ns \<le> max_parts
    \<and> (\<forall>p \<in> set (elems ns). 0 < plen p) \<and> sum_list (map plen (elems ns)) \<le> 4096
    \<and> rd_data r' = rd_data r \<and> rd_pos r < rd_pos r' \<and> rd_pos r' \<le> plen (rd_data r)"
proof -
  from assms obtain count r1 ps where c: "moq_buf_read_varint r = (Inr count, r1)"
    and lim: "count \<noteq> 0" "\<not> 32 < count" "\<not> max_parts < unat count"
    and f: "ns_read_fields (rd_pos r) (unat count) 0 r1 = (Inr ps, r')" and ns: "ns = Arr ps"
    by (auto simp: moq_buf_read_namespace_def Let_def split: if_splits prod.splits sum.splits)
  have r1: "reader_valid r1" "rd_data r1 = rd_data r" "rd_pos r < rd_pos r1"
    using c io_quic.rd_steps_int io_quic.rd_progress unfolding rd_steps_def by blast+
  have "1 \<le> unat count" "unat count \<le> 32"
    using lim(1,2) unat_eq_zero [of count] by (auto simp: word_less_nat_alt)
  moreover from ns_read_fields_ok [OF f r1(1)] have "length ps = unat count"
    "\<forall>p \<in> set ps. 0 < plen p" "sum_list (map plen ps) \<le> 4096" "reader_valid r'"
    "rd_data r' = rd_data r1" "rd_pos r1 \<le> rd_pos r'" by auto
  ultimately show ?thesis
    using lim(3) r1 by (auto simp: ns reader_valid_def)
qed

theorem read_namespace_sound_witness:
  "let ns = Arr [Arr [97], Arr [98, 99 :: u8]] in
   1 \<le> plen ns \<and> plen ns \<le> 4 \<and> sum_list (map plen (elems ns)) \<le> 4096"
proof -
  have "moq_buf_read_namespace False 4 \<lparr>rd_data = Arr [2, 1, 97, 2, 98, 99, 7], rd_pos = 0\<rparr>
    = (Inr (Arr [Arr [97], Arr [98, 99]]),
       \<lparr>rd_data = Arr [2, 1, 97, 2, 98, 99, 7], rd_pos = 6\<rparr>)" by code_simp
  from read_namespace_sound [OF this] show ?thesis by simp
qed

text \<open>C10: a failing read leaves the cursor exactly where it was, whichever operation failed and at
  whatever point, and a failing write keeps the cursor, the capacity and every byte written
  before it, as \<open>moq/buf.h\<close> promises.\<close>

theorem cursor_failure_atomic:
  "rd_atomic moq_buf_read_varint \<and> rd_atomic moq_buf_read_vi64 \<and> rd_atomic moq_buf_read_uint16
   \<and> rd_atomic moq_buf_read_span \<and> rd_atomic (moq_buf_read_raw n) \<and> rd_atomic (moq_buf_skip n)
   \<and> rd_atomic (moq_buf_read_namespace parts_null n)
   \<and> rd_atomic (moq_buf_read_namespace_prefix parts_null n)
   \<and> wr_atomic (moq_buf_write_varint v) \<and> wr_atomic (moq_buf_write_vi64 v)
   \<and> wr_atomic (moq_buf_write_uint16 u) \<and> wr_atomic (moq_buf_write_span p)
   \<and> wr_atomic (moq_buf_write_raw p) \<and> wr_atomic (moq_buf_write_namespace ns)
   \<and> wr_atomic (moq_buf_write_namespace_prefix ns)"
  by (intro conjI io_quic.rd_atomic_int io_vi64.rd_atomic_int io_quic.wr_atomic_int
      io_vi64.wr_atomic_int rd_atomic_uint16 rd_atomic_span rd_atomic_raw rd_atomic_skip
      rd_atomic_namespace rd_atomic_namespace_prefix wr_atomic_uint16 wr_atomic_span wr_atomic_raw
      wr_atomic_namespace wr_atomic_namespace_prefix)

end
