(* ===== verification/Kvp.thy ===== *)
theory Kvp
  imports Buf
begin

text \<open>
  Delta-typed Key-Value-Pair lists (\<open>core/include/moq/kvp.h\<close>, \<open>core/src/wire/kvp.c\<close>): the
  incremental decoder and the entry encoders of draft-16, and the two list edits that insert an
  integer property at its place in type order. The list edits run on either integer encoding;
  \<open>kvp_io\<close> interprets the integer interface for the flag that chooses it.
\<close>

unbundle bit_operations_syntax

section \<open>Entries and the incremental decoder\<close>

text \<open>\<open>ke_value\<close> and \<open>ke_raw\<close> are the pairs \<open>value, value_len\<close> and \<open>raw, raw_len\<close>.\<close>

record moq_kvp_entry =
  ke_type :: u64
  ke_value :: moq_bytes
  ke_is_varint :: bool
  ke_raw :: moq_bytes

text \<open>\<open>kd_buf\<close> is the pair \<open>buf, remaining\<close>.\<close>

record moq_kvp_decoder =
  kd_buf :: moq_bytes
  kd_prev_type :: u64
  kd_first :: bool

definition moq_kvp_decoder_init :: "moq_bytes \<Rightarrow> moq_kvp_decoder" where
  "moq_kvp_decoder_init buf = \<lparr>kd_buf = buf, kd_prev_type = 0, kd_first = True\<rparr>"

text \<open>
  One call of the decoder. \<open>Inl MOQ_DONE\<close> is the end of the span; the decoder state is returned
  as the call left it on every path. \<open>kvp_next_value\<close> is the part after the absolute type is known.
\<close>

definition kvp_next_value ::
  "u64 \<Rightarrow> moq_bytes \<Rightarrow> moq_kvp_decoder \<Rightarrow> (moq_result + moq_kvp_entry) \<times> moq_kvp_decoder" where
  "kvp_next_value abs_type entry_start d2 =
     (let is_varint = (abs_type AND 1 = 0) in
      if is_varint then
        case moq_quic_varint_decode (kd_buf d2) of
          None \<Rightarrow> (Inl MOQ_ERR_PROTO, d2)
        | Some (val, k) \<Rightarrow>
          let d3 = d2\<lparr>kd_buf := padvance k (kd_buf d2)\<rparr> in
          (Inr \<lparr>ke_type = abs_type, ke_value = ptake k (kd_buf d2), ke_is_varint = True,
                ke_raw = ptake (plen entry_start - plen (kd_buf d3)) entry_start\<rparr>, d3)
      else
        case moq_quic_varint_decode (kd_buf d2) of
          None \<Rightarrow> (Inl MOQ_ERR_PROTO, d2)
        | Some (vlen, k) \<Rightarrow>
          let d3 = d2\<lparr>kd_buf := padvance k (kd_buf d2)\<rparr> in
          if 0xFFFF < vlen then (Inl MOQ_ERR_PROTO, d3)
          else if plen (kd_buf d3) < unat vlen then (Inl MOQ_ERR_PROTO, d3)
          else
            let d4 = d3\<lparr>kd_buf := padvance (unat vlen) (kd_buf d3)\<rparr> in
            (Inr \<lparr>ke_type = abs_type, ke_value = ptake (unat vlen) (kd_buf d3),
                  ke_is_varint = False,
                  ke_raw = ptake (plen entry_start - plen (kd_buf d4)) entry_start\<rparr>, d4))"

definition moq_kvp_decode_next ::
  "moq_kvp_decoder \<Rightarrow> (moq_result + moq_kvp_entry) \<times> moq_kvp_decoder" where
  "moq_kvp_decode_next d0 =
     (if plen (kd_buf d0) = 0 then (Inl MOQ_DONE, d0)
      else let entry_start = kd_buf d0 in
      case moq_quic_varint_decode (kd_buf d0) of
        None \<Rightarrow> (Inl MOQ_ERR_PROTO, d0)
      | Some (delta, n) \<Rightarrow>
        let d1 = d0\<lparr>kd_buf := padvance n (kd_buf d0)\<rparr> in
        if \<not> kd_first d1 \<and> UINT64_MAX - kd_prev_type d1 < delta then (Inl MOQ_ERR_PROTO, d1)
        else
          let abs_type = (if kd_first d1 then delta else kd_prev_type d1 + delta) in
          kvp_next_value abs_type entry_start
            (d1\<lparr>kd_first := False, kd_prev_type := abs_type\<rparr>))"

section \<open>Encoders\<close>

definition kvp_entry_valid_for_encode :: "moq_kvp_entry \<Rightarrow> bool" where
  "kvp_entry_valid_for_encode entry \<longleftrightarrow>
     (let should_be_varint = (ke_type entry AND 1 = 0) in
      if ke_is_varint entry \<noteq> should_be_varint then False
      else if ke_is_varint entry then
        if plen (ke_value entry) = 0 then False
        else if is_null (ke_value entry) then False
        else (case moq_quic_varint_decode (ke_value entry) of
                None \<Rightarrow> 0 | Some (v, n) \<Rightarrow> n) = plen (ke_value entry)
      else if 0xFFFF < plen (ke_value entry) then False
      else \<not> (0 < plen (ke_value entry) \<and> is_null (ke_value entry)))"

definition moq_kvp_entry_encoded_len :: "u64 \<Rightarrow> moq_kvp_entry \<Rightarrow> nat" where
  "moq_kvp_entry_encoded_len prev_type entry =
     (if ke_type entry < prev_type then 0
      else if \<not> kvp_entry_valid_for_encode entry then 0
      else let tot = moq_quic_varint_len (ke_type entry - prev_type) in
        if tot = 0 then 0
        else if ke_is_varint entry then tot + plen (ke_value entry)
        else let len_len = moq_quic_varint_len (of_nat (plen (ke_value entry))) in
          if len_len = 0 then 0 else tot + (len_len + plen (ke_value entry)))"

text \<open>The bytes stored through the output pointer; none when the code returns 0.\<close>

definition moq_kvp_encode_entry :: "u64 \<Rightarrow> moq_kvp_entry \<Rightarrow> bool \<Rightarrow> nat \<Rightarrow> u8 list" where
  "moq_kvp_encode_entry prev_type entry null buf_len =
     (if null then []
      else let needed = moq_kvp_entry_encoded_len prev_type entry in
        if needed = 0 \<or> buf_len < needed then []
        else
          let b1 = moq_quic_varint_encode (ke_type entry - prev_type) False buf_len in
          if ke_is_varint entry then b1 @ take (plen (ke_value entry)) (elems (ke_value entry))
          else
            let b2 = moq_quic_varint_encode (of_nat (plen (ke_value entry))) False
                       (buf_len - length b1) in
            if 0 < plen (ke_value entry)
            then b1 @ b2 @ take (plen (ke_value entry)) (elems (ke_value entry))
            else b1 @ b2)"

definition kvp_varint_args_valid :: "u64 \<Rightarrow> u64 \<Rightarrow> u64 \<Rightarrow> bool" where
  "kvp_varint_args_valid prev_type type v \<longleftrightarrow>
     (if type AND 1 \<noteq> 0 then False
      else if type < prev_type then False
      else if moq_quic_varint_len v = 0 then False
      else True)"

definition moq_kvp_varint_entry_encoded_len :: "u64 \<Rightarrow> u64 \<Rightarrow> u64 \<Rightarrow> nat" where
  "moq_kvp_varint_entry_encoded_len prev_type type v =
     (if \<not> kvp_varint_args_valid prev_type type v then 0
      else let delta_len = moq_quic_varint_len (type - prev_type) in
        if delta_len = 0 then 0 else delta_len + moq_quic_varint_len v)"

definition moq_kvp_encode_varint_entry :: "u64 \<Rightarrow> u64 \<Rightarrow> u64 \<Rightarrow> bool \<Rightarrow> nat \<Rightarrow> u8 list" where
  "moq_kvp_encode_varint_entry prev_type type v null buf_len =
     (if null then []
      else let needed = moq_kvp_varint_entry_encoded_len prev_type type v in
        if needed = 0 \<or> buf_len < needed then []
        else
          let b1 = moq_quic_varint_encode (type - prev_type) False buf_len in
          b1 @ moq_quic_varint_encode v False (buf_len - length b1))"

section \<open>List edits\<close>

definition kvp_read_int :: "bool \<Rightarrow> u64 rd" where
  "kvp_read_int vi64 r =
     (case (if vi64 then moq_buf_read_vi64 r else moq_buf_read_varint r) of
        (Inl e, r1) \<Rightarrow> (Inl MOQ_ERR_INVAL, r1)
      | (Inr v, r1) \<Rightarrow> (Inr v, r1))"

definition kvp_write_int :: "bool \<Rightarrow> u64 \<Rightarrow> wr" where
  "kvp_write_int vi64 v w =
     (case (if vi64 then moq_buf_write_vi64 v w else moq_buf_write_varint v w) of (rc, w1) \<Rightarrow>
        (if rc = MOQ_ERR_BUFFER then MOQ_ERR_BUFFER
         else if rc \<noteq> MOQ_OK then MOQ_ERR_INVAL else MOQ_OK, w1))"

lemma kvp_read_int_step:
  assumes "kvp_read_int vi64 r = (Inr v, r1)"
  shows "reader_valid r \<and> reader_valid r1 \<and> rd_data r1 = rd_data r \<and> rd_pos r < rd_pos r1
    \<and> rd_pos r1 \<le> plen (rd_data r)"
  using assms io_vi64.rd_step [of r v r1] io_quic.rd_step [of r v r1]
  by (cases vi64) (auto simp: kvp_read_int_def split: prod.splits sum.splits)

text \<open>
  The loop of \<open>kvp_count_int\<close>, with the recursive call on the body of a container pair: \<open>acc\<close> is
  the pair \<open>*count, *first\<close>.
\<close>

function kvp_count_loop ::
  "bool \<Rightarrow> u64 \<Rightarrow> u64 \<Rightarrow> bool \<Rightarrow> u64 \<Rightarrow> moq_buf_reader \<Rightarrow> nat \<times> u64 \<Rightarrow> moq_result + (nat \<times> u64)" where
  "kvp_count_loop vi64 type container toplevel prev r acc =
     (if moq_buf_reader_remaining r = 0 then Inr acc
      else case kvp_read_int vi64 r of
        (Inl e, r1) \<Rightarrow> Inl MOQ_ERR_INVAL
      | (Inr delta, r1) \<Rightarrow>
        if UINT64_MAX - prev < delta then Inl MOQ_ERR_INVAL
        else let at = prev + delta in
        if at AND 1 \<noteq> 0 then
          case kvp_read_int vi64 r1 of
            (Inl e, r2) \<Rightarrow> Inl MOQ_ERR_INVAL
          | (Inr n, r2) \<Rightarrow>
            if moq_buf_reader_remaining r2 < unat n then Inl MOQ_ERR_INVAL
            else
              case (if toplevel \<and> container \<noteq> 0 \<and> at = container
                    then kvp_count_loop vi64 type 0 False 0
                           (moq_buf_reader_init (ptake (unat n) (padvance (rd_pos r2) (rd_data r2)))) acc
                    else Inr acc) of
                Inl e \<Rightarrow> Inl e
              | Inr acc1 \<Rightarrow>
                  kvp_count_loop vi64 type container toplevel at (r2\<lparr>rd_pos := rd_pos r2 + unat n\<rparr>) acc1
        else
          case kvp_read_int vi64 r1 of
            (Inl e, r2) \<Rightarrow> Inl MOQ_ERR_INVAL
          | (Inr v, r2) \<Rightarrow>
            let acc1 = (if at = type
                        then (fst acc + 1, if fst acc = 0 then v else snd acc) else acc) in
            kvp_count_loop vi64 type container toplevel at r2 acc1)"
  by pat_completeness auto
termination
proof (relation "inv_image (less_than <*lex*> less_than)
    (\<lambda>(vi64, type, container, toplevel, prev, r, acc).
       (if toplevel then 1 else (0 :: nat), moq_buf_reader_remaining r))",
    goal_cases)
  case 1
  then show ?case by auto
next
  case (2 vi64 type container toplevel prev r acc)
  then show ?case by simp
next
  case (3 vi64 type container toplevel prev r acc)
  then show ?case
    by (auto dest!: sym [of "(_, _)" "kvp_read_int _ _"] kvp_read_int_step
        simp: moq_buf_reader_remaining_def)
next
  case (4 vi64 type container toplevel prev r acc)
  then show ?case
    by (auto dest!: sym [of "(_, _)" "kvp_read_int _ _"] kvp_read_int_step
        simp: moq_buf_reader_remaining_def)
qed

declare kvp_count_loop.simps [simp del]

definition kvp_count_int ::
  "moq_bytes \<Rightarrow> bool \<Rightarrow> u64 \<Rightarrow> u64 \<Rightarrow> bool \<Rightarrow> nat \<times> u64 \<Rightarrow> moq_result + (nat \<times> u64)" where
  "kvp_count_int inp vi64 type container toplevel acc =
     kvp_count_loop vi64 type container toplevel 0 (moq_buf_reader_init inp) acc"

text \<open>
  One pass of \<open>moq_kvp_list_add_int\<close> over the body of a pair: the cursor behind it and whether the
  property has been placed.
\<close>

definition kvp_add_body ::
  "bool \<Rightarrow> u64 \<Rightarrow> u64 \<Rightarrow> u64 \<Rightarrow> bool \<Rightarrow> moq_buf_reader \<Rightarrow> moq_result + (bool \<times> moq_buf_reader)" where
  "kvp_add_body vi64 type v at placed r =
     (if at AND 1 \<noteq> 0 then
        case kvp_read_int vi64 r of
          (Inl e, r2) \<Rightarrow> Inl MOQ_ERR_INVAL
        | (Inr n, r2) \<Rightarrow>
          if moq_buf_reader_remaining r2 < unat n then Inl MOQ_ERR_INVAL
          else Inr (placed, r2\<lparr>rd_pos := rd_pos r2 + unat n\<rparr>)
      else
        case kvp_read_int vi64 r of
          (Inl e, r2) \<Rightarrow> Inl MOQ_ERR_INVAL
        | (Inr u, r2) \<Rightarrow>
          if at = type then
            if u \<noteq> v then Inl MOQ_ERR_INVAL else Inr (True, r2)
          else Inr (placed, r2))"

text \<open>The new pair, when this is its place, and the delta of the copied one.\<close>

definition kvp_add_delta :: "bool \<Rightarrow> u64 \<Rightarrow> u64 \<Rightarrow> u64 \<Rightarrow> u64 \<Rightarrow> u64 \<Rightarrow> bool \<Rightarrow> wr" where
  "kvp_add_delta vi64 type v prev delta at placed =
     (if \<not> placed \<and> type < at
      then wr_then (kvp_write_int vi64 (type - prev))
             (wr_then (kvp_write_int vi64 v) (kvp_write_int vi64 (at - type)))
      else kvp_write_int vi64 delta)"

function kvp_add_loop ::
  "bool \<Rightarrow> u64 \<Rightarrow> u64 \<Rightarrow> u64 \<Rightarrow> bool \<Rightarrow> moq_buf_reader \<Rightarrow> moq_buf_writer
   \<Rightarrow> moq_result \<times> u64 \<times> bool \<times> moq_buf_writer" where
  "kvp_add_loop vi64 type v prev placed r w =
     (if moq_buf_reader_remaining r = 0 then (MOQ_OK, prev, placed, w)
      else case kvp_read_int vi64 r of
        (Inl e, r1) \<Rightarrow> (MOQ_ERR_INVAL, prev, placed, w)
      | (Inr delta, r1) \<Rightarrow>
        if UINT64_MAX - prev < delta then (MOQ_ERR_INVAL, prev, placed, w)
        else let at = prev + delta; body = rd_pos r1 in
          case kvp_add_body vi64 type v at placed r1 of
            Inl e \<Rightarrow> (e, prev, placed, w)
          | Inr (placed1, r2) \<Rightarrow>
            case wr_then (kvp_add_delta vi64 type v prev delta at placed1)
                   (moq_buf_write_raw (ptake (rd_pos r2 - body) (padvance body (rd_data r2)))) w of
              (rc, w1) \<Rightarrow>
                if rc \<noteq> MOQ_OK
                then (if rc = MOQ_ERR_BUFFER then MOQ_ERR_BUFFER else MOQ_ERR_INVAL, prev, placed, w1)
                else kvp_add_loop vi64 type v at (placed1 \<or> type < at) r2 w1)"
  by pat_completeness auto
termination
  by (relation "measure (\<lambda>(vi64, type, v, prev, placed, r, w). moq_buf_reader_remaining r)")
    (auto dest!: sym [of "(_, _)" "kvp_read_int _ _"] sym [of "Inr _" "kvp_add_body _ _ _ _ _ _"]
        kvp_read_int_step
      simp: moq_buf_reader_remaining_def kvp_add_body_def split: if_splits prod.splits sum.splits)

declare kvp_add_loop.simps [simp del]

text \<open>The result is \<open>*out_len\<close> and the output buffer.\<close>

definition moq_kvp_list_add_int ::
  "moq_bytes \<Rightarrow> bool \<Rightarrow> u64 \<Rightarrow> u64 \<Rightarrow> moq_bytes \<Rightarrow> (moq_result + nat) \<times> moq_bytes" where
  "moq_kvp_list_add_int inp vi64 type v out =
     (if (0 < plen inp \<and> is_null inp) \<or> (0 < plen out \<and> is_null out) \<or> type AND 1 \<noteq> 0
      then (Inl MOQ_ERR_INVAL, out)
      else case kvp_add_loop vi64 type v 0 False (moq_buf_reader_init inp) (moq_buf_writer_init out) of
        (rc, prev, placed, w) \<Rightarrow>
          if rc \<noteq> MOQ_OK then (Inl rc, w_data w)
          else if \<not> placed then
            case wr_then (kvp_write_int vi64 (type - prev)) (kvp_write_int vi64 v) w of
              (rc1, w1) \<Rightarrow>
                if rc1 \<noteq> MOQ_OK then (Inl rc1, w_data w1) else (Inr (w_pos w1), w_data w1)
          else (Inr (w_pos w), w_data w))"

definition moq_kvp_list_merge_int ::
  "moq_bytes \<Rightarrow> bool \<Rightarrow> u64 \<Rightarrow> u64 \<Rightarrow> u64 \<Rightarrow> moq_bytes \<Rightarrow> (moq_result + nat) \<times> moq_bytes" where
  "moq_kvp_list_merge_int inp vi64 type v container out =
     (if (0 < plen inp \<and> is_null inp) \<or> (0 < plen out \<and> is_null out) \<or> type AND 1 \<noteq> 0
         \<or> (container \<noteq> 0 \<and> container AND 1 = 0)
      then (Inl MOQ_ERR_INVAL, out)
      else case kvp_count_int inp vi64 type container True (0, 0) of
        Inl e \<Rightarrow> (Inl e, out)
      | Inr (count, first) \<Rightarrow>
          if count = 0 then moq_kvp_list_add_int inp vi64 type v out
          else if 1 < count \<or> first \<noteq> v then (Inl MOQ_ERR_INVAL, out)
          else if plen out < plen inp then (Inl MOQ_ERR_BUFFER, out)
          else (Inr (plen inp), store_bytes 0 (elems inp) out))"

section \<open>The incremental decoder inverts the entry encoder\<close>

lemma quic_decode_Arr: "moq_quic_varint_decode (Arr bs) = quic_dec bs"
  by (simp add: quic_dec_def)

lemma quic_len_quic_ok: "moq_quic_varint_len v \<noteq> 0 \<longleftrightarrow> quic_ok v"
  by (simp add: quic_len_0_iff)

text \<open>What an encodable entry looks like on the wire.\<close>

lemma kvp_encode_entryE:
  assumes "moq_kvp_encode_entry prev e False n = bs" and "bs \<noteq> []"
  obtains (varint) vb v where "prev \<le> ke_type e" "quic_ok (ke_type e - prev)"
      "ke_type e AND 1 = 0" "ke_is_varint e" "ke_value e = Arr vb" "quic_dec vb = Some (v, length vb)"
      "bs = quic_enc (ke_type e - prev) @ vb" "moq_kvp_entry_encoded_len prev e = length bs"
  | (bytes) vb where "prev \<le> ke_type e" "quic_ok (ke_type e - prev)"
      "ke_type e AND 1 \<noteq> 0" "\<not> ke_is_varint e" "elems (ke_value e) = vb" "length vb \<le> 0xFFFF"
      "bs = quic_enc (ke_type e - prev) @ quic_enc (of_nat (length vb)) @ vb"
      "moq_kvp_entry_encoded_len prev e = length bs"
proof -
  let ?d = "ke_type e - prev"
  from assms have len: "moq_kvp_entry_encoded_len prev e \<noteq> 0"
      "moq_kvp_entry_encoded_len prev e \<le> n"
    by (auto simp: moq_kvp_encode_entry_def Let_def not_less split: if_splits)
  then have common: "prev \<le> ke_type e" "kvp_entry_valid_for_encode e" "quic_ok ?d"
    by (auto simp: moq_kvp_entry_encoded_len_def Let_def not_less quic_len_0_iff split: if_splits)
  show ?thesis
  proof (cases "ke_is_varint e")
    case True
    with common(2) obtain vb v where vb: "ke_value e = Arr vb" "quic_dec vb = Some (v, length vb)"
        "ke_type e AND 1 = 0"
      by (cases "ke_value e")
        (auto simp: kvp_entry_valid_for_encode_def Let_def quic_decode_Arr split: option.splits if_splits)
    have l: "moq_kvp_entry_encoded_len prev e = moq_quic_varint_len ?d + length vb"
      using common True vb quic_len_quic_ok [of ?d]
      by (auto simp: moq_kvp_entry_encoded_len_def Let_def)
    have "bs = quic_enc ?d @ vb"
      using assms len True vb l
      by (auto simp: moq_kvp_encode_entry_def Let_def moq_quic_varint_encode_eq split: if_splits)
    then show ?thesis
      using varint [OF common(1,3) vb(3) True vb(1,2)] l by simp
  next
    case False
    define vb where "vb = elems (ke_value e)"
    from False common(2) have vb: "ke_type e AND 1 \<noteq> 0" "plen (ke_value e) = length vb" "length vb \<le> 0xFFFF"
      by (cases "ke_value e"; auto simp: kvp_entry_valid_for_encode_def Let_def vb_def split: if_splits)+
    have ok: "quic_ok (of_nat (length vb))"
      using of_nat_quic_ok [of "length vb"] vb(3) by simp
    have l: "moq_kvp_entry_encoded_len prev e
        = moq_quic_varint_len ?d + (moq_quic_varint_len (of_nat (length vb)) + length vb)"
      using common False vb quic_len_quic_ok [of ?d] quic_len_quic_ok [of "of_nat (length vb)"] ok
      by (auto simp: moq_kvp_entry_encoded_len_def Let_def)
    have "bs = quic_enc ?d @ quic_enc (of_nat (length vb)) @ vb"
      using assms len False vb l
      by (auto simp: moq_kvp_encode_entry_def Let_def moq_quic_varint_encode_eq vb_def [symmetric]
          split: if_splits)
    then show ?thesis
      using bytes [OF common(1,3) vb(1) False vb_def [symmetric] vb(3)] l by simp
  qed
qed

text \<open>The decoder is positioned after an entry of type \<open>prev\<close>, or at the start with \<open>prev = 0\<close>.\<close>

definition kd_at :: "u64 \<Rightarrow> u8 list \<Rightarrow> moq_kvp_decoder \<Rightarrow> bool" where
  "kd_at prev bs d \<longleftrightarrow> kd_buf d = Arr bs \<and> (if kd_first d then prev = 0 else prev = kd_prev_type d)"

lemma kvp_next_delta:
  assumes "kd_at prev (quic_enc (t - prev) @ rest) d" and "prev \<le> t" and "quic_ok (t - prev)"
  shows "moq_kvp_decode_next d = kvp_next_value t (Arr (quic_enc (t - prev) @ rest))
    \<lparr>kd_buf = Arr rest, kd_prev_type = t, kd_first = False\<rparr>"
proof (cases d)
  case (fields buf p f)
  let ?bs = "quic_enc (t - prev) @ rest"
  from assms(1) have "buf = Arr ?bs" and p: "if f then prev = 0 else prev = p"
    unfolding fields kd_at_def moq_kvp_decoder.select_convs by blast+
  then have d: "d = \<lparr>kd_buf = Arr ?bs, kd_prev_type = p, kd_first = f\<rparr>"
    using fields by simp
  have "moq_quic_varint_decode (Arr ?bs) = Some (t - prev, length (quic_enc (t - prev)))"
    unfolding quic_decode_Arr by (rule quic.dec_enc [OF assms(3)])
  moreover have "plen (Arr ?bs) \<noteq> 0"
    using quic.enc_nonempty [OF assms(3)] by (simp del: length_quic_enc)
  moreover have "\<not> (\<not> f \<and> UINT64_MAX - p < t - prev)" "(if f then t - prev else p + (t - prev)) = t"
    using delta_fits [OF assms(2)] p by (auto split: if_splits)
  moreover have "padvance (length (quic_enc (t - prev))) (Arr ?bs) = Arr rest"
    by (simp del: length_quic_enc)
  ultimately show ?thesis
    unfolding d moq_kvp_decode_next_def Let_def
    by (simp only: moq_kvp_decoder.select_convs moq_kvp_decoder.update_convs if_False option.case
        prod.case)
qed

lemma kvp_decode_encode_entry:
  assumes "moq_kvp_encode_entry prev e False n = bs" and "bs \<noteq> []" and "kd_at prev (bs @ rest) d"
  shows "moq_kvp_decode_next d =
    (Inr (e\<lparr>ke_value := Arr (elems (ke_value e)), ke_raw := Arr bs\<rparr>),
     \<lparr>kd_buf = Arr rest, kd_prev_type = ke_type e, kd_first = False\<rparr>)"
  using assms(1,2)
proof (cases rule: kvp_encode_entryE)
  case (varint vb v)
  then have at: "kd_at prev (quic_enc (ke_type e - prev) @ vb @ rest) d"
    using assms(3) by simp
  have "quic_dec (vb @ rest) = Some (v, length vb)"
    by (rule quic.dec_append [OF varint(6)])
  then show ?thesis
    using varint(3-5,7) unfolding kvp_next_delta [OF at varint(1,2)]
    by (cases e) (simp add: kvp_next_value_def quic_decode_Arr)
next
  case (bytes vb)
  then have at: "kd_at prev (quic_enc (ke_type e - prev) @ quic_enc (of_nat (length vb)) @ vb @ rest) d"
    using assms(3) by simp
  have n: "quic_ok (of_nat (length vb))" "unat (of_nat (length vb) :: u64) = length vb"
    using of_nat_quic_ok [of "length vb"] bytes(6) by auto
  have "\<not> 0xFFFF < (of_nat (length vb) :: u64)"
    using bytes(6) n(2) by (simp add: word_less_nat_alt)
  then show ?thesis
    using bytes(3-5,7) quic.dec_enc [OF n(1), of "vb @ rest"]
    unfolding kvp_next_delta [OF at bytes(1,2)]
    by (cases e) (simp add: kvp_next_value_def quic_decode_Arr n(2))
qed

section \<open>Decoding a whole list\<close>

lemma kvp_next_value_okE:
  assumes "kvp_next_value t start d2 = (Inr e, d')" and "kd_buf d2 = Arr bs"
  obtains k where "0 < k" "k \<le> length bs" "kd_buf d' = Arr (drop k bs)"
    "kd_prev_type d' = kd_prev_type d2" "kd_first d' = kd_first d2" "ke_type e = t"
    "ke_raw e = ptake (plen start - (length bs - k)) start" "kvp_entry_valid_for_encode e"
proof (cases "t AND 1 = 0")
  case True
  with assms obtain v k where v: "quic_dec bs = Some (v, k)"
    and e: "e = \<lparr>ke_type = t, ke_value = Arr (take k bs), ke_is_varint = True,
                ke_raw = ptake (plen start - (length bs - k)) start\<rparr>"
    and d': "d' = d2\<lparr>kd_buf := Arr (drop k bs)\<rparr>"
    by (auto simp: kvp_next_value_def Let_def quic_decode_Arr split: option.splits)
  have k: "0 < k" "k \<le> length bs"
    using quic.dec_bounds [OF v] by auto
  have "quic_dec (take k bs) = Some (v, k)"
    using quic.dec_local [OF v, of "[]"] by simp
  with k True have "kvp_entry_valid_for_encode e"
    by (auto simp: kvp_entry_valid_for_encode_def e quic_decode_Arr)
  then show ?thesis
    using that [OF k] by (simp add: e d')
next
  case False
  with assms obtain v k where v: "quic_dec bs = Some (v, k)" "\<not> 0xFFFF < v" "unat v \<le> length bs - k"
    and e: "e = \<lparr>ke_type = t, ke_value = Arr (take (unat v) (drop k bs)), ke_is_varint = False,
                ke_raw = ptake (plen start - (length bs - (k + unat v))) start\<rparr>"
    and d': "d' = d2\<lparr>kd_buf := Arr (drop (k + unat v) bs)\<rparr>"
    by (auto simp: kvp_next_value_def Let_def quic_decode_Arr not_less add.commute
        split: option.splits if_splits)
  have k: "0 < k + unat v" "k + unat v \<le> length bs"
    using quic.dec_bounds [OF v(1)] v(3) by auto
  have "unat v \<le> 0xFFFF"
    using v(2) by (simp add: word_less_nat_alt)
  with False have "kvp_entry_valid_for_encode e"
    by (auto simp: kvp_entry_valid_for_encode_def e)
  then show ?thesis
    using that [OF k] by (simp add: e d')
qed

text \<open>A successful step on a readable span, seen from outside.\<close>

lemma kvp_decode_next_okE:
  assumes "moq_kvp_decode_next d = (Inr e, d')"
  obtains bs k where "kd_buf d = Arr bs" "0 < k" "k \<le> length bs" "kd_buf d' = Arr (drop k bs)"
    "ke_raw e = Arr (take k bs)" "kvp_entry_valid_for_encode e" "\<not> kd_first d'"
    "kd_prev_type d' = ke_type e" "kd_first d \<or> kd_prev_type d \<le> ke_type e"
proof (cases "kd_buf d")
  case (Null n)
  with assms show ?thesis
    by (auto simp: moq_kvp_decode_next_def moq_quic_varint_decode_def split: if_splits)
next
  case (Arr bs)
  from assms obtain delta n where v: "quic_dec bs = Some (delta, n)"
    and fits: "kd_first d \<or> \<not> UINT64_MAX - kd_prev_type d < delta"
    and nv: "kvp_next_value (if kd_first d then delta else kd_prev_type d + delta) (Arr bs)
      (d\<lparr>kd_buf := Arr (drop n bs), kd_first := False,
         kd_prev_type := if kd_first d then delta else kd_prev_type d + delta\<rparr>) = (Inr e, d')"
    unfolding moq_kvp_decode_next_def Let_def
    by (auto simp: Arr quic_decode_Arr split: if_splits option.splits)
  let ?t = "if kd_first d then delta else kd_prev_type d + delta"
  have n: "0 < n" "n \<le> length bs"
    using quic.dec_bounds [OF v] by auto
  obtain k where k: "0 < k" "k \<le> length (drop n bs)" "kd_buf d' = Arr (drop k (drop n bs))"
    "kd_prev_type d' = ?t" "kd_first d' = False" "ke_type e = ?t"
    "ke_raw e = Arr (take (n + k) bs)" "kvp_entry_valid_for_encode e"
    by (rule kvp_next_value_okE [OF nv, where bs = "drop n bs"]) (simp, rule that, simp_all)
  moreover have "kd_first d \<or> kd_prev_type d \<le> ke_type e"
    using fits delta_sum_ge [of "kd_prev_type d" delta] k(6) by auto
  ultimately show ?thesis
    using that [of bs "n + k"] Arr n k by (auto simp: add.commute)
qed

text \<open>Calling the decoder until it stops.\<close>

function kvp_decode_all :: "moq_kvp_decoder \<Rightarrow> moq_result \<times> moq_kvp_entry list" where
  "kvp_decode_all d =
     (case moq_kvp_decode_next d of
        (Inl rc, d') \<Rightarrow> (rc, [])
      | (Inr e, d') \<Rightarrow> (case kvp_decode_all d' of (rc, es) \<Rightarrow> (rc, e # es)))"
  by pat_completeness auto
termination
  by (relation "measure (\<lambda>d. plen (kd_buf d))")
    (auto dest!: sym [of "(_, _)" "moq_kvp_decode_next _"] elim!: kvp_decode_next_okE)

declare kvp_decode_all.simps [simp del]

lemma kvp_decode_next_stop:
  "moq_kvp_decode_next d = (Inl rc, d') \<Longrightarrow>
   (rc = MOQ_DONE \<and> plen (kd_buf d) = 0) \<or> rc = MOQ_ERR_PROTO"
  by (auto simp: moq_kvp_decode_next_def kvp_next_value_def Let_def split: if_splits option.splits)

section \<open>Either integer encoding\<close>

definition kvp_ok :: "bool \<Rightarrow> u64 \<Rightarrow> bool" where
  "kvp_ok vi64 v \<longleftrightarrow> vi64 \<or> quic_ok v"

definition kvp_enc :: "bool \<Rightarrow> u64 \<Rightarrow> u8 list" where
  "kvp_enc vi64 v = (if vi64 then vi64_enc v else quic_enc v)"

definition kvp_dec :: "bool \<Rightarrow> u8 list \<Rightarrow> (u64 \<times> nat) option" where
  "kvp_dec vi64 bs = (if vi64 then vi64_dec bs else quic_dec bs)"

definition kvp_rd :: "bool \<Rightarrow> u64 rd" where
  "kvp_rd vi64 r = (if vi64 then moq_buf_read_vi64 r else moq_buf_read_varint r)"

interpretation kvp_io: int_io "kvp_ok b" "kvp_enc b" "kvp_dec b" "kvp_rd b" "kvp_write_int b" for b
proof (cases b)
  case True
  have "kvp_ok b = (\<lambda>_. True)" "kvp_enc b = vi64_enc" "kvp_dec b = vi64_dec"
      "kvp_rd b = moq_buf_read_vi64" "kvp_write_int b = moq_buf_write_vi64"
    by (auto simp: fun_eq_iff True kvp_ok_def kvp_enc_def kvp_dec_def kvp_rd_def kvp_write_int_def
        io_vi64.wr_law)
  then show "int_io (kvp_ok b) (kvp_enc b) (kvp_dec b) (kvp_rd b) (kvp_write_int b)"
    using io_vi64.int_io_axioms by simp
next
  case False
  have "kvp_ok b = quic_ok" "kvp_enc b = quic_enc" "kvp_dec b = quic_dec"
      "kvp_rd b = moq_buf_read_varint" "kvp_write_int b = moq_buf_write_varint"
    by (auto simp: fun_eq_iff False kvp_ok_def kvp_enc_def kvp_dec_def kvp_rd_def kvp_write_int_def
        io_quic.wr_law)
  then show "int_io (kvp_ok b) (kvp_enc b) (kvp_dec b) (kvp_rd b) (kvp_write_int b)"
    using io_quic.int_io_axioms by simp
qed

lemma kvp_read_int_eq:
  "kvp_read_int b r =
     (if \<not> reader_valid r then (Inl MOQ_ERR_INVAL, r)
      else case kvp_dec b (rd_rest r) of
        None \<Rightarrow> (Inl MOQ_ERR_INVAL, r)
      | Some (v, n) \<Rightarrow> (Inr v, r\<lparr>rd_pos := rd_pos r + n\<rparr>))"
proof -
  have "kvp_read_int b r = (case kvp_rd b r of
      (Inl e, r1) \<Rightarrow> (Inl MOQ_ERR_INVAL, r1) | (Inr v, r1) \<Rightarrow> (Inr v, r1))"
    by (simp add: kvp_read_int_def kvp_rd_def)
  then show ?thesis
    by (simp add: kvp_io.rd_law split: option.splits)
qed

section \<open>Pairs as a list\<close>

text \<open>
  The abstract view of a list: its absolute types with the bytes that follow each type. \<open>kvp_step\<close>
  splits off the first pair of \<open>bs\<close>, \<open>kvp_parse\<close> splits all, \<open>kvp_unparse\<close> puts a list together
  with minimal deltas, and \<open>kvp_wf\<close> is what a parsed list satisfies.
\<close>

definition kvp_body_len :: "bool \<Rightarrow> u64 \<Rightarrow> u8 list \<Rightarrow> nat option" where
  "kvp_body_len b t bs =
     (case kvp_dec b bs of
        None \<Rightarrow> None
      | Some (v, k) \<Rightarrow>
          if t AND 1 \<noteq> 0 then if length bs - k < unat v then None else Some (k + unat v)
          else Some k)"

definition kvp_step :: "bool \<Rightarrow> u64 \<Rightarrow> u8 list \<Rightarrow> (u64 \<times> nat \<times> nat) option" where
  "kvp_step b prev bs =
     (case kvp_dec b bs of
        None \<Rightarrow> None
      | Some (delta, n) \<Rightarrow>
          if UINT64_MAX - prev < delta then None
          else case kvp_body_len b (prev + delta) (drop n bs) of
            None \<Rightarrow> None
          | Some k \<Rightarrow> Some (prev + delta, n, k))"

lemma kvp_body_len_bounds: "kvp_body_len b t bs = Some k \<Longrightarrow> 0 < k \<and> k \<le> length bs"
  using kvp_io.dec_bounds
  by (fastforce simp: kvp_body_len_def split: option.splits if_splits)

lemma kvp_stepE:
  assumes "kvp_step b prev bs = Some (t, n, k)"
  obtains "0 < n" "n + k \<le> length bs" "prev \<le> t" "kvp_ok b (t - prev)"
    "kvp_dec b bs = Some (t - prev, n)" "\<not> UINT64_MAX - prev < t - prev"
    "kvp_body_len b t (drop n bs) = Some k"
proof -
  from assms obtain delta where d: "kvp_dec b bs = Some (delta, n)" "\<not> UINT64_MAX - prev < delta"
      "t = prev + delta" "kvp_body_len b t (drop n bs) = Some k"
    by (auto simp: kvp_step_def split: option.splits if_splits)
  have "0 < n" "n + k \<le> length bs"
    using kvp_io.dec_bounds [OF d(1)] kvp_body_len_bounds [OF d(4)] by auto
  moreover have "prev \<le> t" "t - prev = delta"
    using delta_sum_ge [OF d(2)] by (simp_all add: d(3))
  ultimately show ?thesis
    using that d kvp_io.dec_minimal [OF d(1)] by simp
qed

function kvp_parse :: "bool \<Rightarrow> u64 \<Rightarrow> u8 list \<Rightarrow> (u64 \<times> u8 list) list option" where
  "kvp_parse b prev bs =
     (if bs = [] then Some []
      else case kvp_step b prev bs of
        None \<Rightarrow> None
      | Some (t, n, k) \<Rightarrow>
          map_option ((#) (t, take k (drop n bs))) (kvp_parse b t (drop (n + k) bs)))"
  by pat_completeness auto
termination
  by (relation "measure (\<lambda>(b, prev, bs). length bs)") (auto elim!: kvp_stepE)

declare kvp_parse.simps [simp del]

fun kvp_unparse :: "bool \<Rightarrow> u64 \<Rightarrow> (u64 \<times> u8 list) list \<Rightarrow> u8 list" where
  "kvp_unparse b prev [] = []"
| "kvp_unparse b prev ((t, body) # es) = kvp_enc b (t - prev) @ body @ kvp_unparse b t es"

fun kvp_wf :: "bool \<Rightarrow> u64 \<Rightarrow> (u64 \<times> u8 list) list \<Rightarrow> bool" where
  "kvp_wf b prev [] \<longleftrightarrow> True"
| "kvp_wf b prev ((t, body) # es) \<longleftrightarrow>
     prev \<le> t \<and> kvp_ok b (t - prev) \<and> kvp_body_len b t body = Some (length body) \<and> kvp_wf b t es"

lemma kvp_body_len_local:
  "kvp_body_len b t bs = Some k \<Longrightarrow> kvp_body_len b t (take k bs @ rest) = Some k"
proof -
  assume k: "kvp_body_len b t bs = Some k"
  then obtain v n where v: "kvp_dec b bs = Some (v, n)" "n \<le> k"
    by (auto simp: kvp_body_len_def split: option.splits if_splits)
  have "take k bs = take n bs @ drop n (take k bs)"
    using append_take_drop_id [of n "take k bs"] v(2) by (simp add: min.absorb1)
  then have "kvp_dec b (take k bs @ rest) = Some (v, n)"
    using kvp_io.dec_local [OF v(1), of "drop n (take k bs) @ rest"] by (metis append.assoc)
  then show ?thesis
    using k v kvp_body_len_bounds [OF k]
    by (auto simp: kvp_body_len_def split: if_splits)
qed

lemma kvp_parse_Nil [simp]: "kvp_parse b prev [] = Some []"
  by (simp add: kvp_parse.simps)

lemma kvp_parse_unparse: "kvp_wf b prev es \<Longrightarrow> kvp_parse b prev (kvp_unparse b prev es) = Some es"
proof (induction b prev es rule: kvp_wf.induct)
  case (1 b prev)
  then show ?case by simp
next
  case (2 b prev t body es)
  let ?rest = "kvp_unparse b t es" and ?d = "kvp_enc b (t - prev)"
  from 2(2) have wf: "prev \<le> t" "kvp_ok b (t - prev)" "kvp_body_len b t body = Some (length body)"
    and rest: "kvp_wf b t es" by simp_all
  have d: "kvp_dec b (?d @ body @ ?rest) = Some (t - prev, length ?d)"
    by (rule kvp_io.dec_enc [OF wf(2)])
  have "kvp_body_len b t (body @ ?rest) = Some (length body)"
    using kvp_body_len_local [OF wf(3), of ?rest] by simp
  then have "kvp_step b prev (?d @ body @ ?rest) = Some (t, length ?d, length body)"
    using d delta_fits [OF wf(1)] by (simp add: kvp_step_def)
  moreover have "?d \<noteq> []"
    by (rule kvp_io.enc_nonempty [OF wf(2)])
  ultimately show ?case
    using 2(1) [OF rest] by (simp add: kvp_parse.simps [of b prev])
qed

lemma kvp_parse_wf: "kvp_parse b prev bs = Some es \<Longrightarrow> kvp_wf b prev es"
proof (induction b prev bs arbitrary: es rule: kvp_parse.induct)
  case (1 b prev bs)
  show ?case
  proof (cases "bs = []")
    case True
    with 1(2) show ?thesis by (simp add: kvp_parse.simps)
  next
    case False
    with 1(2) obtain t n k es' where st: "kvp_step b prev bs = Some (t, n, k)"
      and rest: "kvp_parse b t (drop (n + k) bs) = Some es'"
      and es: "es = (t, take k (drop n bs)) # es'"
      by (auto simp: kvp_parse.simps [of b prev] split: option.splits)
    have "kvp_wf b t es'"
      by (rule 1(1) [OF False st refl refl rest])
    with st show ?thesis
      using kvp_body_len_local [of b t "drop n bs" k "[]"]
      by (auto simp: es min.absorb2 elim!: kvp_stepE)
  qed
qed

lemma kvp_wf_sorted: "kvp_wf b prev es \<Longrightarrow> sorted (map fst es) \<and> (\<forall>e \<in> set es. prev \<le> fst e)"
  by (induction b prev es rule: kvp_wf.induct) force+

section \<open>The loops in terms of pairs\<close>

lemma reader_remaining_eq: "reader_valid r \<Longrightarrow> moq_buf_reader_remaining r = length (rd_rest r)"
  by (simp add: length_rd_rest moq_buf_reader_remaining_def reader_valid_def)

lemma rd_rest_advance: "rd_rest (r\<lparr>rd_pos := rd_pos r + n\<rparr>) = drop n (rd_rest r)"
  by (simp add: rd_rest_def add.commute)

lemma reader_valid_advance:
  "reader_valid r \<Longrightarrow> n \<le> length (rd_rest r) \<Longrightarrow> reader_valid (r\<lparr>rd_pos := rd_pos r + n\<rparr>)"
  by (auto simp: length_rd_rest reader_valid_def)

text \<open>Reading the value of a pair, odd or even.\<close>

definition kvp_body_val :: "bool \<Rightarrow> u8 list \<Rightarrow> u64" where
  "kvp_body_val b bs = (case kvp_dec b bs of None \<Rightarrow> 0 | Some (v, k) \<Rightarrow> v)"

lemma kvp_add_body_eq:
  assumes "reader_valid r" and "type AND 1 = 0"
  shows "kvp_add_body b type v t placed r =
    (case kvp_body_len b t (rd_rest r) of
       None \<Rightarrow> Inl MOQ_ERR_INVAL
     | Some k \<Rightarrow>
         if t = type \<and> kvp_body_val b (take k (rd_rest r)) \<noteq> v then Inl MOQ_ERR_INVAL
         else Inr (placed \<or> t = type, r\<lparr>rd_pos := rd_pos r + k\<rparr>))"
proof (cases "kvp_dec b (rd_rest r)")
  case None
  with assms show ?thesis
    by (simp add: kvp_add_body_def kvp_body_len_def kvp_read_int_eq)
next
  case (Some p)
  then obtain u n where u: "kvp_dec b (rd_rest r) = Some (u, n)" by (cases p) auto
  have n: "n \<le> length (rd_rest r)"
    using kvp_io.dec_bounds [OF u] by simp
  have rem: "moq_buf_reader_remaining (r\<lparr>rd_pos := rd_pos r + n\<rparr>) = length (rd_rest r) - n"
    using reader_remaining_eq [OF reader_valid_advance [OF assms(1) n]] by (simp add: rd_rest_advance)
  have "kvp_body_val b (take n (rd_rest r)) = u"
    using kvp_io.dec_local [OF u, of "[]"] by (simp add: kvp_body_val_def)
  then show ?thesis
    using assms rem
    by (auto simp: kvp_add_body_def kvp_body_len_def kvp_read_int_eq u add.assoc)
qed

lemma chunk_eq:
  assumes "reader_valid r" and "rd_rest r \<noteq> []"
  shows "ptake k (padvance (rd_pos r + n) (rd_data r)) = Arr (take k (drop n (rd_rest r)))"
  using assms by (cases "rd_data r") (auto simp: reader_valid_def rd_rest_def add.commute)

lemma kvp_add_loop_eq:
  assumes r: "reader_valid r" and ty: "type AND 1 = 0"
  shows "kvp_add_loop b type v prev placed r w =
    (if rd_rest r = [] then (MOQ_OK, prev, placed, w)
     else case kvp_step b prev (rd_rest r) of
       None \<Rightarrow> (MOQ_ERR_INVAL, prev, placed, w)
     | Some (t, n, k) \<Rightarrow>
       let body = take k (drop n (rd_rest r)) in
       if t = type \<and> kvp_body_val b body \<noteq> v then (MOQ_ERR_INVAL, prev, placed, w)
       else case wr_then (kvp_add_delta b type v prev (t - prev) t (placed \<or> t = type))
                   (moq_buf_write_raw (Arr body)) w of
         (rc, w1) \<Rightarrow>
           if rc \<noteq> MOQ_OK
           then (if rc = MOQ_ERR_BUFFER then MOQ_ERR_BUFFER else MOQ_ERR_INVAL, prev, placed, w1)
           else kvp_add_loop b type v t ((placed \<or> t = type) \<or> type < t)
                  (r\<lparr>rd_pos := rd_pos r + (n + k)\<rparr>) w1)"
proof (cases "rd_rest r = []")
  case True
  then show ?thesis
    by (simp add: kvp_add_loop.simps reader_remaining_eq [OF r])
next
  case False
  show ?thesis
  proof (cases "kvp_dec b (rd_rest r)")
    case None
    with False show ?thesis
      by (simp add: kvp_add_loop.simps [of b type v prev placed r] reader_remaining_eq [OF r]
          kvp_step_def kvp_read_int_eq r)
  next
    case (Some p)
    then obtain delta n where d: "kvp_dec b (rd_rest r) = Some (delta, n)" by (cases p) auto
    have n: "n \<le> length (rd_rest r)"
      using kvp_io.dec_bounds [OF d] by simp
    let ?r1 = "r\<lparr>rd_pos := rd_pos r + n\<rparr>"
    have r1: "reader_valid ?r1" "rd_rest ?r1 = drop n (rd_rest r)"
      using reader_valid_advance [OF r n] by (simp_all add: rd_rest_advance)
    note eqs = kvp_add_loop.simps [of b type v prev placed r w] reader_remaining_eq [OF r]
      kvp_step_def kvp_read_int_eq d kvp_add_body_eq [OF r1(1) ty] r1(2)
    show ?thesis
    proof (cases "UINT64_MAX - prev < delta")
      case True
      with False r show ?thesis by (simp add: eqs)
    next
      case nov: False
      show ?thesis
      proof (cases "kvp_body_len b (prev + delta) (drop n (rd_rest r))")
        case None
        with nov False r show ?thesis by (simp add: eqs)
      next
        case (Some k)
        with nov False r chunk_eq [OF r False] show ?thesis
          by (simp add: eqs add.assoc Let_def)
      qed
    qed
  qed
qed

text \<open>The pair goes before the first greater type, unless a pair of that type came first.\<close>

fun kvp_insert :: "u64 \<Rightarrow> u8 list \<Rightarrow> bool \<Rightarrow> (u64 \<times> u8 list) list \<Rightarrow> (u64 \<times> u8 list) list" where
  "kvp_insert type nb placed [] = []"
| "kvp_insert type nb placed ((t, body) # es) =
     (if \<not> placed \<and> type < t then (type, nb) # (t, body) # es
      else (t, body) # kvp_insert type nb (placed \<or> t = type) es)"

definition kvp_agree :: "bool \<Rightarrow> u64 \<Rightarrow> u64 \<Rightarrow> (u64 \<times> u8 list) list \<Rightarrow> bool" where
  "kvp_agree b type v es \<longleftrightarrow> (\<forall>(t, body) \<in> set es. t = type \<longrightarrow> kvp_body_val b body = v)"

lemma kvp_insert_placed [simp]: "kvp_insert type nb True es = es"
  by (induction es) auto

lemma kvp_body_len_even:
  "type AND 1 = 0 \<Longrightarrow> kvp_body_len b type (kvp_enc b v) = Some (length (kvp_enc b v)) \<longleftrightarrow> kvp_ok b v"
proof (cases "kvp_ok b v")
  case True
  assume "type AND 1 = 0"
  with kvp_io.dec_enc [OF True, of "[]"] True show ?thesis by (simp add: kvp_body_len_def)
next
  case False
  then have "kvp_enc b v = []"
    using quic_len_0_iff [of v] length_0_conv [of "quic_enc v"] by (simp add: kvp_ok_def kvp_enc_def)
  with False show ?thesis
    using kvp_io.dec_Nil by (simp add: kvp_body_len_def)
qed

lemma writes_delta:
  "writes (wr_then (kvp_add_delta b type v prev d t placed) (moq_buf_write_raw (Arr body)))
     (if \<not> placed \<and> type < t
      then kvp_ok b (type - prev) \<and> kvp_ok b v \<and> kvp_ok b (t - type) else kvp_ok b d)
     ((if \<not> placed \<and> type < t
       then kvp_enc b (type - prev) @ kvp_enc b v @ kvp_enc b (t - type) else kvp_enc b d) @ body)"
proof -
  have raw: "writes (moq_buf_write_raw (Arr body)) True body"
    using emits_writes [OF emits_raw [of "Arr body"]] by simp
  show ?thesis
    using writes_then [OF writes_then [OF kvp_io.wr_writes writes_then [OF kvp_io.wr_writes
              kvp_io.wr_writes]] raw] writes_then [OF kvp_io.wr_writes raw]
    by (auto simp: kvp_add_delta_def)
qed

definition kvp_last :: "u64 \<Rightarrow> (u64 \<times> u8 list) list \<Rightarrow> u64" where
  "kvp_last prev es = (if es = [] then prev else fst (last es))"

text \<open>
  The copying loop succeeds exactly when the list parses, agrees with the new value, and the
  edited list is representable and fits; it then has written that list.
\<close>

definition kvp_add_post ::
  "bool \<Rightarrow> u64 \<Rightarrow> u64 \<Rightarrow> u64 \<Rightarrow> bool \<Rightarrow> moq_buf_writer \<Rightarrow> (u64 \<times> u8 list) list
   \<Rightarrow> u64 \<Rightarrow> bool \<Rightarrow> moq_buf_writer \<Rightarrow> bool" where
  "kvp_add_post b type v prev placed w es prev' placed' w' \<longleftrightarrow>
     (let out = kvp_insert type (kvp_enc b v) placed es; bs = kvp_unparse b prev out in
      kvp_agree b type v es \<and> kvp_wf b prev out \<and> length bs \<le> w_room w \<and> w' = w_append bs w
      \<and> prev' = kvp_last prev es \<and> placed' = (placed \<or> (\<exists>e \<in> set es. type \<le> fst e)))"

lemma kvp_add_post_Nil:
  "writer_valid w \<Longrightarrow> kvp_add_post b type v prev placed w [] prev' placed' w' \<longleftrightarrow>
   prev' = prev \<and> placed' = placed \<and> w' = w"
  by (auto simp: kvp_add_post_def kvp_agree_def kvp_last_def)

text \<open>One more pair: what the loop body writes, then the rest.\<close>

lemma kvp_add_post_Cons:
  assumes w: "writer_valid w" and ty: "type AND 1 = 0" and pl: "\<not> placed \<longrightarrow> prev \<le> type"
    and t: "prev \<le> t" "kvp_ok b (t - prev)" "kvp_body_len b t body = Some (length body)"
    and es: "kvp_wf b t es"
  shows "kvp_add_post b type v prev placed w ((t, body) # es) prev' placed' w' \<longleftrightarrow>
    \<not> (t = type \<and> kvp_body_val b body \<noteq> v)
    \<and> (\<exists>w1. wr_then (kvp_add_delta b type v prev (t - prev) t (placed \<or> t = type))
               (moq_buf_write_raw (Arr body)) w = (MOQ_OK, w1)
          \<and> kvp_add_post b type v t ((placed \<or> t = type) \<or> type < t) w1 es prev' placed' w')"
proof -
  define p where "p = ((placed \<or> t = type) \<or> type < t)"
  define mid where "mid = (\<not> (placed \<or> t = type) \<and> type < t)"
  define c where "c = (if mid then kvp_ok b (type - prev) \<and> kvp_ok b v \<and> kvp_ok b (t - type)
            else kvp_ok b (t - prev))"
  define bs where "bs = (if mid then kvp_enc b (type - prev) @ kvp_enc b v @ kvp_enc b (t - type)
              else kvp_enc b (t - prev)) @ body"
  define out where "out = kvp_insert type (kvp_enc b v) placed ((t, body) # es)"
  define out1 where "out1 = kvp_insert type (kvp_enc b v) p es"
  define cs where "cs = kvp_unparse b t out1"
  have bytes: "kvp_unparse b prev out = bs @ cs"
    by (cases mid) (auto simp: mid_def bs_def out_def out1_def cs_def p_def)
  have wf: "kvp_wf b prev out \<longleftrightarrow> c \<and> kvp_wf b t out1"
    using t es pl kvp_body_len_even [OF ty, of b v]
    by (auto simp: less_le c_def mid_def out_def out1_def p_def)
  have wr: "wr_then (kvp_add_delta b type v prev (t - prev) t (placed \<or> t = type))
               (moq_buf_write_raw (Arr body)) w = (MOQ_OK, w1)
      \<longleftrightarrow> c \<and> length bs \<le> w_room w \<and> w1 = w_append bs w" for w1
    unfolding c_def bs_def mid_def by (rule writesD [OF writes_delta w])
  have room: "length bs + length cs \<le> w_room w \<longleftrightarrow>
      length bs \<le> w_room w \<and> length cs \<le> w_room (w_append bs w)"
    using w_room_append [OF w, of bs] by (cases "length bs \<le> w_room w") auto
  have app: "length bs + length cs \<le> w_room w \<Longrightarrow>
      w_append (bs @ cs) w = w_append cs (w_append bs w)"
    using w_append_append [OF w, of bs cs] by simp
  have last: "kvp_last prev ((t, body) # es) = kvp_last t es"
    by (simp add: kvp_last_def)
  have pl': "(placed \<or> (\<exists>e \<in> set ((t, body) # es). type \<le> fst e))
      \<longleftrightarrow> (p \<or> (\<exists>e \<in> set es. type \<le> fst e))"
    by (auto simp: p_def)
  have agree: "kvp_agree b type v ((t, body) # es) \<longleftrightarrow>
      \<not> (t = type \<and> kvp_body_val b body \<noteq> v) \<and> kvp_agree b type v es"
    by (auto simp: kvp_agree_def)
  show ?thesis
    unfolding kvp_add_post_def Let_def out_def [symmetric] p_def [symmetric] out1_def [symmetric]
      bytes wf last pl' agree wr cs_def [symmetric]
    using app room by auto
qed

lemma kvp_add_loop_iff:
  assumes "reader_valid r" and "writer_valid w" and ty: "type AND 1 = 0"
    and "\<not> placed \<longrightarrow> prev \<le> type"
  shows "kvp_add_loop b type v prev placed r w = (MOQ_OK, prev', placed', w') \<longleftrightarrow>
    (\<exists>es. kvp_parse b prev (rd_rest r) = Some es
       \<and> kvp_add_post b type v prev placed w es prev' placed' w')"
  using assms(1,2,4)
proof (induction "length (rd_rest r)" arbitrary: r w prev placed rule: less_induct)
  case less
  note eq = kvp_add_loop_eq [OF less(2) ty, of b v prev placed w]
  show ?case
  proof (cases "rd_rest r = []")
    case True
    then show ?thesis
      using kvp_add_post_Nil [OF less(3)] by (auto simp: eq)
  next
    case ne: False
    show ?thesis
    proof (cases "kvp_step b prev (rd_rest r)")
      case None
      with ne show ?thesis by (simp add: eq kvp_parse.simps [of b prev])
    next
      case (Some p)
      then obtain t n k where st: "kvp_step b prev (rd_rest r) = Some (t, n, k)" by (cases p) auto
      let ?body = "take k (drop n (rd_rest r))" and ?r2 = "r\<lparr>rd_pos := rd_pos r + (n + k)\<rparr>"
      let ?p = "(placed \<or> t = type) \<or> type < t"
      from st obtain s: "0 < n" "n + k \<le> length (rd_rest r)" "prev \<le> t" "kvp_ok b (t - prev)"
        "kvp_dec b (rd_rest r) = Some (t - prev, n)" "\<not> UINT64_MAX - prev < t - prev"
        "kvp_body_len b t (drop n (rd_rest r)) = Some k"
        by (rule kvp_stepE)
      have body: "kvp_body_len b t ?body = Some (length ?body)"
        using kvp_body_len_local [OF s(7), of "[]"] s(2) by (simp add: min.absorb2)
      have r2: "reader_valid ?r2" "rd_rest ?r2 = drop (n + k) (rd_rest r)"
        using reader_valid_advance [OF less(2) s(2)] rd_rest_advance by auto
      have pl: "\<not> ?p \<longrightarrow> t \<le> type" by auto
      have IH: "kvp_add_loop b type v t ?p ?r2 w1 = (MOQ_OK, prev', placed', w') \<longleftrightarrow>
          (\<exists>es. kvp_parse b t (rd_rest ?r2) = Some es \<and> kvp_add_post b type v t ?p w1 es prev' placed' w')"
        if "writer_valid w1" for w1
        using s(1) ne by (intro less(1) r2 that pl) (simp add: r2)
      let ?m = "wr_then (kvp_add_delta b type v prev (t - prev) t (placed \<or> t = type))
                  (moq_buf_write_raw (Arr ?body)) w"
      have valid: "?m = (MOQ_OK, w1) \<Longrightarrow> writer_valid w1" for w1
        using writesD [OF writes_delta less(3)] w_append_valid [OF less(3)] by metis
      have "kvp_add_loop b type v prev placed r w = (MOQ_OK, prev', placed', w') \<longleftrightarrow>
          \<not> (t = type \<and> kvp_body_val b ?body \<noteq> v)
          \<and> (\<exists>w1. ?m = (MOQ_OK, w1) \<and> kvp_add_loop b type v t ?p ?r2 w1 = (MOQ_OK, prev', placed', w'))"
        using ne by (auto simp: eq st Let_def split: prod.splits if_splits)
      also have "\<dots> \<longleftrightarrow> (\<exists>es. kvp_parse b t (rd_rest ?r2) = Some es
          \<and> kvp_add_post b type v prev placed w ((t, ?body) # es) prev' placed' w')"
      proof -
        have "kvp_add_post b type v prev placed w ((t, ?body) # es) prev' placed' w' \<longleftrightarrow>
            \<not> (t = type \<and> kvp_body_val b ?body \<noteq> v)
            \<and> (\<exists>w1. ?m = (MOQ_OK, w1) \<and> kvp_add_post b type v t ?p w1 es prev' placed' w')"
          if "kvp_parse b t (rd_rest ?r2) = Some es" for es
          by (rule kvp_add_post_Cons [OF less(3) ty less(4) s(3,4) body kvp_parse_wf [OF that]])
        then show ?thesis
          using IH [OF valid] by blast
      qed
      also have "\<dots> \<longleftrightarrow> (\<exists>es. kvp_parse b prev (rd_rest r) = Some es
          \<and> kvp_add_post b type v prev placed w es prev' placed' w')"
        using ne by (auto simp: kvp_parse.simps [of b prev] st r2)
      finally show ?thesis .
    qed
  qed
qed

section \<open>The edited list\<close>

text \<open>Where the new pair belongs in an ascending list that does not have the type yet.\<close>

definition kvp_added :: "bool \<Rightarrow> u64 \<Rightarrow> u64 \<Rightarrow> (u64 \<times> u8 list) list \<Rightarrow> (u64 \<times> u8 list) list" where
  "kvp_added b type v es =
     (if type \<in> fst ` set es then es
      else takeWhile (\<lambda>e. fst e < type) es @ (type, kvp_enc b v) # dropWhile (\<lambda>e. fst e < type) es)"

lemma kvp_insert_added:
  "sorted (map fst es) \<Longrightarrow> \<exists>e \<in> set es. type \<le> fst e \<Longrightarrow>
   kvp_insert type (kvp_enc b v) False es = kvp_added b type v es"
proof (induction es)
  case Nil
  then show ?case by simp
next
  case (Cons e es)
  obtain t body where e: "e = (t, body)" by (cases e)
  consider "type < t" | "t = type" | "t < type" using less_linear by blast
  then show ?case
  proof cases
    case 1
    with Cons.prems(1) have "type \<notin> fst ` set (e # es)" by (auto simp: e)
    with 1 show ?thesis by (simp add: kvp_added_def e)
  next
    case 2
    then show ?thesis by (simp add: kvp_added_def e)
  next
    case 3
    with Cons.prems have "kvp_insert type (kvp_enc b v) False es = kvp_added b type v es"
      by (intro Cons.IH) (auto simp: e)
    moreover have "t \<noteq> type" "\<not> type < t" using 3 by auto
    ultimately show ?thesis
      using 3 by (auto simp: kvp_added_def e split: if_splits)
  qed
qed

lemma kvp_insert_none:
  "\<not> (\<exists>e \<in> set es. type \<le> fst e) \<Longrightarrow>
   kvp_insert type nb False es = es \<and> kvp_added b type v es = es @ [(type, kvp_enc b v)]"
  by (induction es) (force simp: kvp_added_def not_le)+

lemma kvp_unparse_snoc:
  "kvp_unparse b prev (es @ [(t, body)])
   = kvp_unparse b prev es @ kvp_enc b (t - kvp_last prev es) @ body"
  by (induction b prev es rule: kvp_unparse.induct) (auto simp: kvp_last_def)

lemma kvp_wf_snoc:
  "kvp_wf b prev (es @ [(t, body)]) \<longleftrightarrow>
   kvp_wf b prev es \<and> kvp_last prev es \<le> t \<and> kvp_ok b (t - kvp_last prev es)
   \<and> kvp_body_len b t body = Some (length body)"
  by (induction b prev es rule: kvp_wf.induct) (auto simp: kvp_last_def)

lemma kvp_last_le:
  "\<not> (\<exists>e \<in> set es. type \<le> fst e) \<Longrightarrow> kvp_last 0 es \<le> type"
  by (cases es rule: rev_cases) (auto simp: kvp_last_def not_le less_imp_le)

definition kvp_args_ok :: "moq_bytes \<Rightarrow> u64 \<Rightarrow> moq_bytes \<Rightarrow> bool" where
  "kvp_args_ok inp type out \<longleftrightarrow>
     \<not> (0 < plen inp \<and> is_null inp) \<and> \<not> (0 < plen out \<and> is_null out) \<and> type AND 1 = 0"

lemma kvp_list_add_int_iff:
  "moq_kvp_list_add_int inp b type v out = (Inr n, out') \<longleftrightarrow>
   kvp_args_ok inp type out
   \<and> (\<exists>es. kvp_parse b 0 (elems inp) = Some es \<and> kvp_agree b type v es
        \<and> kvp_wf b 0 (kvp_added b type v es)
        \<and> n = length (kvp_unparse b 0 (kvp_added b type v es)) \<and> n \<le> plen out
        \<and> out' = store_bytes 0 (kvp_unparse b 0 (kvp_added b type v es)) out)"
proof (cases "kvp_args_ok inp type out")
  case False
  then show ?thesis by (auto simp: moq_kvp_list_add_int_def kvp_args_ok_def)
next
  case True
  let ?r = "moq_buf_reader_init inp" and ?w = "moq_buf_writer_init out"
  have ty: "type AND 1 = 0" and r: "reader_valid ?r" and w: "writer_valid ?w"
    and rest: "rd_rest ?r = elems inp" and room: "w_room ?w = plen out"
    using True by (auto simp: kvp_args_ok_def reader_valid_def writer_valid_def rd_rest_def w_room_def
        moq_buf_reader_init_def moq_buf_writer_init_def)
  have app: "w_data (w_append bs ?w) = store_bytes 0 bs out \<and> w_pos (w_append bs ?w) = length bs" for bs
    by (simp add: w_append_def moq_buf_writer_init_def)
  have loop: "kvp_add_loop b type v 0 False ?r ?w = (MOQ_OK, prev, placed, w1) \<longleftrightarrow>
      (\<exists>es. kvp_parse b 0 (elems inp) = Some es \<and> kvp_add_post b type v 0 False ?w es prev placed w1)"
    for prev placed w1
    unfolding rest [symmetric] by (rule kvp_add_loop_iff [OF r w ty]) simp
  let ?tail = "\<lambda>prev. wr_then (kvp_write_int b (type - prev)) (kvp_write_int b v)"
  have tail: "writes (?tail prev) (kvp_ok b (type - prev) \<and> kvp_ok b v)
      (kvp_enc b (type - prev) @ kvp_enc b v)" for prev
    by (rule writes_then [OF kvp_io.wr_writes kvp_io.wr_writes])
  have "moq_kvp_list_add_int inp b type v out = (Inr n, out') \<longleftrightarrow>
      (\<exists>prev placed w1 w2. kvp_add_loop b type v 0 False ?r ?w = (MOQ_OK, prev, placed, w1)
         \<and> (if placed then w2 = w1 else ?tail prev w1 = (MOQ_OK, w2))
         \<and> n = w_pos w2 \<and> out' = w_data w2)"
    using True by (auto simp: moq_kvp_list_add_int_def kvp_args_ok_def split: prod.splits if_splits)
  also have "\<dots> \<longleftrightarrow> (\<exists>es. kvp_parse b 0 (elems inp) = Some es \<and> kvp_agree b type v es
        \<and> kvp_wf b 0 (kvp_added b type v es)
        \<and> n = length (kvp_unparse b 0 (kvp_added b type v es)) \<and> n \<le> plen out
        \<and> out' = store_bytes 0 (kvp_unparse b 0 (kvp_added b type v es)) out)"
    (is "?L \<longleftrightarrow> (\<exists>es. _ = Some es \<and> ?R es)")
  proof -
    have "(\<exists>prev placed w1 w2. kvp_add_post b type v 0 False ?w es prev placed w1
         \<and> (if placed then w2 = w1 else ?tail prev w1 = (MOQ_OK, w2))
         \<and> n = w_pos w2 \<and> out' = w_data w2) \<longleftrightarrow> ?R es" if "kvp_parse b 0 (elems inp) = Some es" for es
    proof (cases "\<exists>e \<in> set es. type \<le> fst e")
      case True
      then show ?thesis
        using kvp_insert_added [OF _ True, of b v] kvp_wf_sorted [OF kvp_parse_wf [OF that]] app
        by (auto simp: kvp_add_post_def Let_def room)
    next
      case False
      define l where "l = kvp_last 0 es"
      define bs where "bs = kvp_unparse b 0 es"
      define cs where "cs = kvp_enc b (type - l) @ kvp_enc b v"
      have e: "length bs \<le> plen out \<and> ?tail l (w_append bs ?w) = (MOQ_OK, w2) \<longleftrightarrow>
          (kvp_ok b (type - l) \<and> kvp_ok b v) \<and> length (bs @ cs) \<le> plen out
          \<and> w2 = w_append (bs @ cs) ?w" for w2
        using writesD [OF tail [of l] w_append_valid [OF w, of bs], of w2] w_room_append [OF w, of bs]
          w_append_append [OF w, of bs cs]
        by (auto simp: room cs_def)
      have wf: "kvp_wf b 0 (kvp_added b type v es) \<longleftrightarrow> kvp_ok b (type - l) \<and> kvp_ok b v"
        using kvp_insert_none [OF False, of "kvp_enc b v" b v] kvp_last_le [OF False]
          kvp_parse_wf [OF that]
        by (simp add: kvp_wf_snoc l_def kvp_body_len_even [OF ty])
      have un: "kvp_unparse b 0 (kvp_added b type v es) = bs @ cs"
        using kvp_insert_none [OF False, of "kvp_enc b v" b v]
        by (simp add: kvp_unparse_snoc bs_def cs_def l_def)
      have post: "kvp_add_post b type v 0 False ?w es prev placed w1 \<longleftrightarrow>
          kvp_agree b type v es \<and> length bs \<le> plen out \<and> w1 = w_append bs ?w
          \<and> prev = l \<and> \<not> placed" for prev placed w1
        using kvp_insert_none [OF False, of "kvp_enc b v" b v] kvp_parse_wf [OF that] False
        by (auto simp: kvp_add_post_def Let_def room bs_def l_def)
      have "(\<exists>prev placed w1 w2. kvp_add_post b type v 0 False ?w es prev placed w1
           \<and> (if placed then w2 = w1 else ?tail prev w1 = (MOQ_OK, w2))
           \<and> n = w_pos w2 \<and> out' = w_data w2)
        \<longleftrightarrow> kvp_agree b type v es \<and> (\<exists>w2. (length bs \<le> plen out
              \<and> ?tail l (w_append bs ?w) = (MOQ_OK, w2)) \<and> n = w_pos w2 \<and> out' = w_data w2)"
        unfolding post by auto
      also have "\<dots> \<longleftrightarrow> ?R es"
        unfolding e wf un using app [of "bs @ cs"] by auto
      finally show ?thesis .
    qed
    then show ?thesis
      unfolding loop by blast
  qed
  finally show ?thesis using True by simp
qed

section \<open>Counting instances\<close>

text \<open>
  The values of the pairs of type \<open>type\<close>, in order, among the pairs themselves and one level down
  in the bodies of the \<open>container\<close> pairs; \<open>None\<close> when a container's body does not parse.
\<close>

definition kvp_payload :: "bool \<Rightarrow> u8 list \<Rightarrow> u8 list" where
  "kvp_payload b body = (case kvp_dec b body of None \<Rightarrow> [] | Some (v, k) \<Rightarrow> drop k body)"

definition kvp_values :: "bool \<Rightarrow> u64 \<Rightarrow> (u64 \<times> u8 list) list \<Rightarrow> u64 list" where
  "kvp_values b type es = map (kvp_body_val b \<circ> snd) (filter (\<lambda>e. fst e = type) es)"

fun kvp_instances :: "bool \<Rightarrow> u64 \<Rightarrow> u64 \<Rightarrow> (u64 \<times> u8 list) list \<Rightarrow> u64 list option" where
  "kvp_instances b type container [] = Some []"
| "kvp_instances b type container ((t, body) # es) =
     (case (if t = type then Some [kvp_body_val b body]
            else if container \<noteq> 0 \<and> t = container
            then map_option (kvp_values b type) (kvp_parse b 0 (kvp_payload b body))
            else Some []) of
        None \<Rightarrow> None
      | Some xs \<Rightarrow> map_option ((@) xs) (kvp_instances b type container es))"

definition count_more :: "u64 list \<Rightarrow> nat \<times> u64 \<Rightarrow> nat \<times> u64" where
  "count_more xs acc = (fst acc + length xs, if fst acc = 0 \<and> xs \<noteq> [] then hd xs else snd acc)"

lemma count_more_append: "count_more ys (count_more xs acc) = count_more (xs @ ys) acc"
  by (cases acc) (auto simp: count_more_def)

lemma count_more_Nil [simp]: "count_more [] acc = acc"
  by (simp add: count_more_def)

lemma kvp_values_Cons:
  "kvp_values b type ((t, body) # es)
   = (if t = type then [kvp_body_val b body] else []) @ kvp_values b type es"
  by (simp add: kvp_values_def)

lemma kvp_body_lenE:
  assumes "kvp_body_len b t bs = Some k"
  obtains v n where "kvp_dec b bs = Some (v, n)" "n \<le> k"
    "k = (if t AND 1 \<noteq> 0 then n + unat v else n)" "t AND 1 \<noteq> 0 \<Longrightarrow> unat v \<le> length bs - n"
    "kvp_body_val b (take k bs) = v" "kvp_payload b (take k bs) = drop n (take k bs)"
proof -
  from assms obtain v n where v: "kvp_dec b bs = Some (v, n)"
      "k = (if t AND 1 \<noteq> 0 then n + unat v else n)" "t AND 1 \<noteq> 0 \<Longrightarrow> unat v \<le> length bs - n"
    by (auto simp: kvp_body_len_def not_less split: option.splits if_splits)
  have "kvp_dec b (take k bs) = Some (v, n)"
    using kvp_io.dec_local [OF v(1), of "drop n (take k bs)"] v(2) append_take_drop_id [of n "take k bs"]
    by (auto simp: min.absorb1)
  with v that show ?thesis
    by (auto simp: kvp_body_val_def kvp_payload_def)
qed

lemma kvp_count_loop_eq:
  assumes r: "reader_valid r" and ty: "type AND 1 = 0"
  shows "kvp_count_loop b type container toplevel prev r acc =
    (if rd_rest r = [] then Inr acc
     else case kvp_step b prev (rd_rest r) of
       None \<Rightarrow> Inl MOQ_ERR_INVAL
     | Some (t, n, k) \<Rightarrow>
       let body = take k (drop n (rd_rest r)) in
       case (if t AND 1 \<noteq> 0 then
               if toplevel \<and> container \<noteq> 0 \<and> t = container
               then kvp_count_loop b type 0 False 0 (moq_buf_reader_init (Arr (kvp_payload b body))) acc
               else Inr acc
             else Inr (count_more (if t = type then [kvp_body_val b body] else []) acc)) of
         Inl e \<Rightarrow> Inl e
       | Inr acc1 \<Rightarrow> kvp_count_loop b type container toplevel t (r\<lparr>rd_pos := rd_pos r + (n + k)\<rparr>) acc1)"
proof (cases "rd_rest r = [] \<or> kvp_dec b (rd_rest r) = None")
  case True
  then show ?thesis
    by (auto simp: kvp_count_loop.simps [of b type container toplevel prev r] reader_remaining_eq [OF r]
        kvp_step_def kvp_read_int_eq r)
next
  case False
  then obtain delta n where ne: "rd_rest r \<noteq> []" and d: "kvp_dec b (rd_rest r) = Some (delta, n)"
    by auto
  have n: "n \<le> length (rd_rest r)"
    using kvp_io.dec_bounds [OF d] by simp
  let ?t = "prev + delta" and ?r1 = "r\<lparr>rd_pos := rd_pos r + n\<rparr>"
  have r1: "reader_valid ?r1" "rd_rest ?r1 = drop n (rd_rest r)"
    using reader_valid_advance [OF r n] by (simp_all add: rd_rest_advance)
  note eqs = kvp_count_loop.simps [of b type container toplevel prev r acc] reader_remaining_eq [OF r]
    kvp_step_def kvp_read_int_eq d r1
  show ?thesis
  proof (cases "UINT64_MAX - prev < delta \<or> kvp_dec b (drop n (rd_rest r)) = None")
    case True
    with ne r show ?thesis by (auto simp: eqs kvp_body_len_def Let_def)
  next
    case F: False
    then obtain v m where v: "kvp_dec b (drop n (rd_rest r)) = Some (v, m)" and
        nov: "\<not> UINT64_MAX - prev < delta" by auto
    let ?r2 = "r\<lparr>rd_pos := rd_pos r + (n + m)\<rparr>"
    have m: "n + m \<le> length (rd_rest r)"
      using kvp_io.dec_bounds [OF v] n by auto
    have rem: "moq_buf_reader_remaining ?r2 = length (rd_rest r) - (n + m)"
      using reader_remaining_eq [OF reader_valid_advance [OF r m]] by (simp add: rd_rest_advance)
    show ?thesis
    proof (cases "kvp_body_len b ?t (drop n (rd_rest r))")
      case None
      with v have "?t AND 1 \<noteq> 0" "length (rd_rest r) - (n + m) < unat v"
        by (auto simp: kvp_body_len_def split: if_splits)
      with ne r nov v rem None show ?thesis by (simp add: eqs Let_def add.assoc)
    next
      case (Some k)
      from kvp_body_lenE [OF Some] v have k: "m \<le> k" "k = (if ?t AND 1 \<noteq> 0 then m + unat v else m)"
          "?t AND 1 \<noteq> 0 \<Longrightarrow> unat v \<le> length (rd_rest r) - (n + m)"
          "kvp_body_val b (take k (drop n (rd_rest r))) = v"
          "kvp_payload b (take k (drop n (rd_rest r))) = drop m (take k (drop n (rd_rest r)))"
        by (metis length_drop diff_diff_left option.inject prod.inject)+
      have pay: "ptake (k - m) (padvance (rd_pos r + (n + m)) (rd_data r))
          = Arr (drop m (take k (drop n (rd_rest r))))"
        using chunk_eq [OF r ne, of "k - m" "n + m"] k(1) by (simp add: drop_take add.commute)
      show ?thesis
        using ne r nov v rem k pay
        by (cases "?t AND 1 = 0") (auto simp: eqs Some Let_def add.assoc count_more_def
            split: sum.splits)
    qed
  qed
qed

lemma kvp_instances_no_container:
  "kvp_instances b type 0 es = Some (kvp_values b type es)"
  by (induction es) (auto simp: kvp_values_def)

text \<open>The counting loop accumulates exactly the instances.\<close>

definition count_result :: "bool \<Rightarrow> u64 \<Rightarrow> u64 \<Rightarrow> (u64 \<times> u8 list) list option \<Rightarrow> nat \<times> u64
   \<Rightarrow> moq_result + (nat \<times> u64)" where
  "count_result b type container es acc =
     (case Option.bind es (kvp_instances b type container) of
        None \<Rightarrow> Inl MOQ_ERR_INVAL | Some xs \<Rightarrow> Inr (count_more xs acc))"

lemma count_result_Some [simp]:
  "count_result b type container (Some es) acc =
     (case kvp_instances b type container es of
        None \<Rightarrow> Inl MOQ_ERR_INVAL | Some xs \<Rightarrow> Inr (count_more xs acc))"
  by (simp add: count_result_def)

lemma kvp_count_loop_result:
  assumes "reader_valid r" and ty: "type AND 1 = 0" and co: "container = 0 \<or> container AND 1 \<noteq> 0"
  shows "kvp_count_loop b type container toplevel prev r acc =
    count_result b type (if toplevel then container else 0) (kvp_parse b prev (rd_rest r)) acc"
  using assms(1) co
proof (induction "(if toplevel then 1 else 0 :: nat, length (rd_rest r))"
    arbitrary: r prev acc toplevel container
    rule: wf_induct_rule [OF wf_lex_prod [OF wf_less_than wf_less_than]])
  case 1
  note eq = kvp_count_loop_eq [OF 1(2) ty, of b container toplevel prev acc]
  let ?c = "if toplevel then container else 0"
  show ?case
  proof (cases "rd_rest r = [] \<or> kvp_step b prev (rd_rest r) = None")
    case True
    then show ?thesis
      by (cases "rd_rest r = []") (auto simp: eq kvp_parse.simps [of b prev] count_result_def)
  next
    case False
    then obtain t n k where ne: "rd_rest r \<noteq> []" and st: "kvp_step b prev (rd_rest r) = Some (t, n, k)"
      by (cases "kvp_step b prev (rd_rest r)") auto
    define body where "body = take k (drop n (rd_rest r))"
    define r2 where "r2 = r\<lparr>rd_pos := rd_pos r + (n + k)\<rparr>"
    from st have nk: "0 < n" "n + k \<le> length (rd_rest r)"
      by (auto elim: kvp_stepE)
    have r2: "reader_valid r2" "rd_rest r2 = drop (n + k) (rd_rest r)"
      using reader_valid_advance [OF 1(2) nk(2)] rd_rest_advance by (auto simp: r2_def)
    have next_acc: "kvp_count_loop b type container toplevel t r2 acc1
        = count_result b type ?c (kvp_parse b t (rd_rest r2)) acc1" for acc1
      using nk ne by (intro 1(1) 1(3) r2(1)) (auto simp: r2(2))
    have nested: "kvp_count_loop b type 0 False 0 (moq_buf_reader_init (Arr (kvp_payload b body))) acc
        = count_result b type 0 (kvp_parse b 0 (kvp_payload b body)) acc" if toplevel
      using 1(1) [of False "moq_buf_reader_init (Arr (kvp_payload b body))" 0 0 acc] that
      by (simp add: reader_valid_def rd_rest_def moq_buf_reader_init_def)
    have par: "kvp_parse b prev (rd_rest r) = map_option ((#) (t, body)) (kvp_parse b t (rd_rest r2))"
      using ne by (simp add: kvp_parse.simps [of b prev] st body_def r2)
    have odd: "t AND 1 = 0 \<Longrightarrow> \<not> (container \<noteq> 0 \<and> t = container)" "t AND 1 \<noteq> 0 \<Longrightarrow> t \<noteq> type"
      using 1(3) ty by auto
    have "kvp_count_loop b type container toplevel prev r acc =
      (case (if t AND 1 \<noteq> 0 then
               if toplevel \<and> container \<noteq> 0 \<and> t = container
               then count_result b type 0 (kvp_parse b 0 (kvp_payload b body)) acc
               else Inr acc
             else Inr (count_more (if t = type then [kvp_body_val b body] else []) acc)) of
         Inl e \<Rightarrow> Inl e
       | Inr acc1 \<Rightarrow> count_result b type ?c (kvp_parse b t (rd_rest r2)) acc1)"
      using ne nested
      by (simp add: eq st Let_def body_def [symmetric] r2_def [symmetric] next_acc
          cong: if_cong sum.case_cong)
    also have "\<dots> = count_result b type ?c (map_option ((#) (t, body)) (kvp_parse b t (rd_rest r2))) acc"
      using odd
      by (cases "kvp_parse b t (rd_rest r2)"; cases "kvp_parse b 0 (kvp_payload b body)")
        (auto simp: count_result_def kvp_instances_no_container count_more_append
          split: option.splits)
    finally show ?thesis unfolding par .
  qed
qed

section \<open>Properties\<close>

text \<open>An entry that \<open>moq_kvp_encode_entry\<close> accepts is decoded to the same type, kind and value
  when the decoder stands after a pair of type \<open>prev\<close> (or at the start, \<open>prev = 0\<close>); the raw span is
  exactly the bytes written, as many as \<open>moq_kvp_entry_encoded_len\<close> announced, and the decoder
  stands at what follows.\<close>

theorem kvp_entry_round_trip:
  assumes "moq_kvp_encode_entry prev e False n = bs" and "bs \<noteq> []" and "kd_at prev (bs @ rest) d"
  shows "moq_kvp_entry_encoded_len prev e = length bs
    \<and> moq_kvp_decode_next d =
      (Inr (e\<lparr>ke_value := Arr (elems (ke_value e)), ke_raw := Arr bs\<rparr>),
       \<lparr>kd_buf = Arr rest, kd_prev_type = ke_type e, kd_first = False\<rparr>)"
proof
  show "moq_kvp_entry_encoded_len prev e = length bs"
    using assms(1,2) by (cases rule: kvp_encode_entryE) auto
qed (rule kvp_decode_encode_entry [OF assms])

theorem kvp_entry_round_trip_witness:
  "moq_kvp_decode_next \<lparr>kd_buf = Arr [3, 2, 104, 105, 7], kd_prev_type = 4, kd_first = False\<rparr> =
   (Inr \<lparr>ke_type = 7, ke_value = Arr [104, 105], ke_is_varint = False, ke_raw = Arr [3, 2, 104, 105]\<rparr>,
    \<lparr>kd_buf = Arr [7], kd_prev_type = 7, kd_first = False\<rparr>)"
proof -
  let ?e = "\<lparr>ke_type = 7, ke_value = Arr [104, 105], ke_is_varint = False, ke_raw = Null 0\<rparr>"
  let ?d = "\<lparr>kd_buf = Arr [3, 2, 104, 105, 7], kd_prev_type = 4, kd_first = False\<rparr>"
  have "moq_kvp_encode_entry 4 ?e False 16 = [3, 2, 104, 105]"
    by (simp add: moq_kvp_encode_entry_def moq_kvp_entry_encoded_len_def
        kvp_entry_valid_for_encode_def moq_quic_varint_encode_def moq_quic_varint_len_def
        MOQ_QUIC_VARINT_MAX_def)
  moreover have "kd_at 4 ([3, 2, 104, 105] @ [7]) ?d" by (simp add: kd_at_def)
  ultimately show ?thesis
    using kvp_entry_round_trip [of 4 ?e 16 "[3, 2, 104, 105]" "[7]" ?d] by simp
qed

text \<open>
  The wire form of an entry after type \<open>prev\<close>: a delta and a value, each integer in any of its
  encodings. The value of an even type is one integer, that of an odd type a length of at most
  \<open>2^16 - 1\<close> and exactly so many bytes.
\<close>

definition kvp_entry_wire :: "u64 \<Rightarrow> moq_kvp_entry \<Rightarrow> u8 list \<Rightarrow> bool" where
  "kvp_entry_wire prev e raw \<longleftrightarrow> ke_raw e = Arr raw \<and> prev \<le> ke_type e
     \<and> (\<exists>db. quic_dec db = Some (ke_type e - prev, length db)
          \<and> (if ke_type e AND 1 = 0
             then ke_is_varint e \<and> (\<exists>vb v. raw = db @ vb \<and> ke_value e = Arr vb \<and> quic_dec vb = Some (v, length vb))
             else \<not> ke_is_varint e \<and> (\<exists>lb vb v. raw = db @ lb @ vb \<and> ke_value e = Arr vb
                    \<and> quic_dec lb = Some (v, length lb) \<and> unat v = length vb \<and> length vb \<le> 0xFFFF)))"

fun kvp_wire :: "u64 \<Rightarrow> moq_kvp_entry list \<Rightarrow> u8 list \<Rightarrow> bool" where
  "kvp_wire prev [] bs \<longleftrightarrow> bs = []"
| "kvp_wire prev (e # es) bs \<longleftrightarrow>
     (\<exists>raw rest. bs = raw @ rest \<and> kvp_entry_wire prev e raw \<and> kvp_wire (ke_type e) es rest)"

lemma quic_dec_exact: "quic_dec bs = Some (v, n) \<Longrightarrow> quic_dec (take n bs) = Some (v, length (take n bs))"
  using quic.dec_local [of bs v n "[]"] quic.dec_bounds [of bs v n] by (simp add: min.absorb2)

lemma kvp_next_value_wire:
  assumes "kvp_next_value t (Arr (db @ bs)) d = (Inr e, d')" and "kd_buf d = Arr bs"
    and "quic_dec db = Some (t - prev, length db)" and "prev \<le> t"
  shows "\<exists>raw rest. db @ bs = raw @ rest \<and> kvp_entry_wire prev e raw \<and> ke_type e = t \<and> d' = d\<lparr>kd_buf := Arr rest\<rparr>"
proof (cases "t AND 1 = 0")
  case True
  with assms(1,2) obtain v k where v: "quic_dec bs = Some (v, k)"
    and e: "e = \<lparr>ke_type = t, ke_value = Arr (take k bs), ke_is_varint = True,
                ke_raw = ptake (length (db @ bs) - (length bs - k)) (Arr (db @ bs))\<rparr>"
    and d': "d' = d\<lparr>kd_buf := Arr (drop k bs)\<rparr>"
    by (auto simp: kvp_next_value_def Let_def quic_decode_Arr split: option.splits)
  have "k \<le> length bs" using quic.dec_bounds [OF v] by simp
  then have "ke_raw e = Arr (db @ take k bs)" by (simp add: e)
  then have "kvp_entry_wire prev e (db @ take k bs)"
    using True assms(3,4) quic_dec_exact [OF v] unfolding kvp_entry_wire_def by (auto simp: e)
  moreover have "db @ bs = (db @ take k bs) @ drop k bs" "ke_type e = t" by (simp_all add: e)
  ultimately show ?thesis using d' by blast
next
  case False
  with assms(1,2) obtain v k where v: "quic_dec bs = Some (v, k)" "\<not> 0xFFFF < v" "unat v \<le> length bs - k"
    and e: "e = \<lparr>ke_type = t, ke_value = Arr (take (unat v) (drop k bs)), ke_is_varint = False,
                ke_raw = ptake (length (db @ bs) - (length bs - (k + unat v))) (Arr (db @ bs))\<rparr>"
    and d': "d' = d\<lparr>kd_buf := Arr (drop (k + unat v) bs)\<rparr>"
    by (auto simp: kvp_next_value_def Let_def quic_decode_Arr not_less add.commute
        split: option.splits if_splits)
  let ?vb = "take (unat v) (drop k bs)"
  have "k \<le> length bs" "unat v \<le> 0xFFFF" using quic.dec_bounds [OF v(1)] v(2) by (simp_all add: word_less_nat_alt)
  then have "ke_raw e = Arr (db @ take k bs @ ?vb)" "length ?vb = unat v" using v(3) by (simp_all add: e take_add)
  then have "kvp_entry_wire prev e (db @ take k bs @ ?vb)"
    using False assms(3,4) quic_dec_exact [OF v(1)] \<open>unat v \<le> 0xFFFF\<close> unfolding kvp_entry_wire_def by (auto simp: e)
  moreover have "db @ bs = (db @ take k bs @ ?vb) @ drop (k + unat v) bs"
    using append_take_drop_id [of k bs] append_take_drop_id [of "unat v" "drop k bs"]
    by (simp add: add.commute del: append_take_drop_id)
  moreover have "ke_type e = t" by (simp add: e)
  ultimately show ?thesis using d' by blast
qed

abbreviation kd_prev :: "moq_kvp_decoder \<Rightarrow> u64" where
  "kd_prev d \<equiv> if kd_first d then 0 else kd_prev_type d"

abbreviation kd_after :: "moq_kvp_entry \<Rightarrow> u8 list \<Rightarrow> moq_kvp_decoder" where
  "kd_after e rest \<equiv> \<lparr>kd_buf = Arr rest, kd_prev_type = ke_type e, kd_first = False\<rparr>"

lemma kvp_next_wire:
  assumes "moq_kvp_decode_next d = (Inr e, d')" and "kd_buf d = Arr bs"
  shows "\<exists>raw rest. bs = raw @ rest \<and> kvp_entry_wire (kd_prev d) e raw \<and> d' = kd_after e rest"
proof -
  from assms obtain delta n where v: "quic_dec bs = Some (delta, n)"
    and fits: "kd_first d \<or> \<not> UINT64_MAX - kd_prev_type d < delta"
    and nv: "kvp_next_value (kd_prev d + delta) (Arr bs)
      (d\<lparr>kd_buf := Arr (drop n bs), kd_first := False, kd_prev_type := kd_prev d + delta\<rparr>) = (Inr e, d')"
    unfolding moq_kvp_decode_next_def Let_def
    by (auto simp: quic_decode_Arr split: if_splits option.splits)
  have t: "kd_prev d \<le> kd_prev d + delta" using fits delta_sum_ge [of "kd_prev_type d" delta] by auto
  have db: "quic_dec (take n bs) = Some ((kd_prev d + delta) - kd_prev d, length (take n bs))"
    using quic_dec_exact [OF v] by simp
  have "\<exists>raw rest. take n bs @ drop n bs = raw @ rest \<and> kvp_entry_wire (kd_prev d) e raw \<and> ke_type e = kd_prev d + delta
      \<and> d' = (d\<lparr>kd_buf := Arr (drop n bs), kd_first := False, kd_prev_type := kd_prev d + delta\<rparr>)\<lparr>kd_buf := Arr rest\<rparr>"
    by (rule kvp_next_value_wire [OF _ _ db t]) (use nv in simp_all)
  then obtain raw rest where "bs = raw @ rest" "kvp_entry_wire (kd_prev d) e raw" "ke_type e = kd_prev d + delta"
      "d' = (d\<lparr>kd_buf := Arr (drop n bs), kd_first := False, kd_prev_type := kd_prev d + delta\<rparr>)\<lparr>kd_buf := Arr rest\<rparr>"
    unfolding append_take_drop_id by blast
  moreover from this(3,4) have "d' = kd_after e rest" by simp
  ultimately show ?thesis by blast
qed

lemma kvp_wire_next:
  assumes "kvp_entry_wire (kd_prev d) e raw" and "kd_buf d = Arr (raw @ rest)"
  shows "moq_kvp_decode_next d = (Inr e, kd_after e rest)"
proof -
  let ?p = "kd_prev d" and ?t = "ke_type e"
  from assms(1) obtain db body where db: "quic_dec db = Some (?t - ?p, length db)" "?p \<le> ?t" "raw = db @ body"
      "ke_raw e = Arr raw"
    and even: "?t AND 1 = 0 \<Longrightarrow> ke_is_varint e \<and> (\<exists>v. ke_value e = Arr body \<and> quic_dec body = Some (v, length body))"
    and odd: "?t AND 1 \<noteq> 0 \<Longrightarrow> \<not> ke_is_varint e \<and> (\<exists>lb vb v. body = lb @ vb \<and> ke_value e = Arr vb
        \<and> quic_dec lb = Some (v, length lb) \<and> unat v = length vb \<and> length vb \<le> 0xFFFF)"
    unfolding kvp_entry_wire_def by (auto split: if_splits)
  have dec: "quic_dec (db @ body @ rest) = Some (?t - ?p, length db)" by (rule quic.dec_append [OF db(1)])
  have ne: "db \<noteq> []" using quic.dec_bounds [OF db(1)] by auto
  have "\<not> (\<not> kd_first d \<and> UINT64_MAX - kd_prev_type d < ?t - ?p)" "(if kd_first d then ?t - ?p else kd_prev_type d + (?t - ?p)) = ?t"
    using delta_fits [OF db(2)] by (auto split: if_splits)
  then have "moq_kvp_decode_next d = kvp_next_value ?t (Arr (raw @ rest)) (kd_after e (body @ rest))"
    using dec ne assms(2) db(3) unfolding moq_kvp_decode_next_def Let_def
    by (cases d; cases "kd_first d") (simp_all add: quic_decode_Arr)
  also have "\<dots> = (Inr e, kd_after e rest)"
  proof (cases "?t AND 1 = 0")
    case True
    then obtain v where v: "ke_is_varint e" "ke_value e = Arr body" "quic_dec body = Some (v, length body)" using even by blast
    then have "quic_dec (body @ rest) = Some (v, length body)" by (intro quic.dec_append)
    then show ?thesis using True v db(3,4) by (cases e) (simp add: kvp_next_value_def quic_decode_Arr)
  next
    case False
    then obtain lb vb v where v: "\<not> ke_is_varint e" "body = lb @ vb" "ke_value e = Arr vb"
        "quic_dec lb = Some (v, length lb)" "unat v = length vb" "length vb \<le> 0xFFFF" using odd by blast
    have "quic_dec (lb @ vb @ rest) = Some (v, length lb)" by (rule quic.dec_append [OF v(4)])
    moreover have "\<not> 0xFFFF < v" using v(5,6) by (simp add: word_less_nat_alt)
    ultimately show ?thesis using False v db(3,4) by (cases e) (simp add: kvp_next_value_def quic_decode_Arr)
  qed
  finally show ?thesis .
qed

lemma kvp_next_stops:
  assumes "moq_kvp_decode_next d = (Inl rc, d')" and "kd_buf d = Arr bs"
  shows "rc = (if bs = [] then MOQ_DONE else MOQ_ERR_PROTO)"
    "bs = raw @ rest \<Longrightarrow> \<not> kvp_entry_wire (kd_prev d) e raw"
proof -
  show "rc = (if bs = [] then MOQ_DONE else MOQ_ERR_PROTO)"
    using assms kvp_decode_next_stop [OF assms(1)] by (auto simp: moq_kvp_decode_next_def)
  show "bs = raw @ rest \<Longrightarrow> \<not> kvp_entry_wire (kd_prev d) e raw"
    using kvp_wire_next [of d e raw rest] assms by auto
qed

text \<open>What a decoder at type \<open>prev\<close> returns for \<open>bs\<close> when it is called until it stops.\<close>

definition kvp_outcome :: "u64 \<Rightarrow> u8 list \<Rightarrow> moq_result \<times> moq_kvp_entry list \<Rightarrow> bool" where
  "kvp_outcome prev bs out \<longleftrightarrow> (case out of (rc, es) \<Rightarrow> \<exists>good bad. bs = good @ bad \<and> kvp_wire prev es good
     \<and> (if bad = [] then rc = MOQ_DONE
        else rc = MOQ_ERR_PROTO \<and> (\<nexists>e raw rest. bad = raw @ rest \<and> kvp_entry_wire (last (prev # map ke_type es)) e raw)))"

lemma kvp_outcome_stop:
  assumes "moq_kvp_decode_next d = (Inl r, d')" and "kd_buf d = Arr bs"
  shows "kvp_outcome (kd_prev d) bs (rc, es) \<longleftrightarrow> (rc, es) = (r, [])"
proof (cases es)
  case Nil
  then show ?thesis using kvp_next_stops [OF assms] by (auto simp: kvp_outcome_def)
next
  case (Cons e es')
  then show ?thesis using kvp_next_stops(2) [OF assms] by (auto simp: kvp_outcome_def)
qed

lemma kvp_entry_wire_ne: "kvp_entry_wire prev e raw \<Longrightarrow> raw \<noteq> []"
  using quic.dec_Nil by (auto simp: kvp_entry_wire_def split: if_splits)

lemma kvp_outcome_Cons:
  "kvp_outcome p bs (rc, x # es) \<longleftrightarrow>
     (\<exists>r s. bs = r @ s \<and> kvp_entry_wire p x r \<and> kvp_outcome (ke_type x) s (rc, es))"
  (is "_ \<longleftrightarrow> ?R")
proof -
  define stop where "stop bad \<longleftrightarrow> (if bad = [] then rc = MOQ_DONE
      else rc = MOQ_ERR_PROTO \<and> (\<nexists>e raw rest. bad = raw @ rest \<and> kvp_entry_wire (last (ke_type x # map ke_type es)) e raw))" for bad
  have "kvp_outcome p bs (rc, x # es) \<longleftrightarrow> (\<exists>good bad. bs = good @ bad \<and> kvp_wire p (x # es) good \<and> stop bad)"
    by (simp add: kvp_outcome_def stop_def)
  also have "\<dots> \<longleftrightarrow> (\<exists>r s. bs = r @ s \<and> kvp_entry_wire p x r
      \<and> (\<exists>good bad. s = good @ bad \<and> kvp_wire (ke_type x) es good \<and> stop bad))" (is "?L \<longleftrightarrow> ?M")
  proof
    assume ?L
    then obtain raw rest bad where "bs = (raw @ rest) @ bad" "kvp_entry_wire p x raw" "kvp_wire (ke_type x) es rest" "stop bad"
      by auto
    moreover from this(1) have "bs = raw @ (rest @ bad)" by simp
    ultimately show ?M by blast
  next
    assume ?M
    then obtain r good bad where "bs = (r @ good) @ bad" "kvp_entry_wire p x r" "kvp_wire (ke_type x) es good" "stop bad"
      by auto
    moreover from this(2,3) have "kvp_wire p (x # es) (r @ good)" by auto
    ultimately show ?L by blast
  qed
  also have "\<dots> \<longleftrightarrow> ?R" by (simp add: kvp_outcome_def stop_def)
  finally show ?thesis .
qed

lemma kvp_outcome_step:
  assumes p: "p = kd_prev d" and d: "kd_buf d = Arr (raw @ rest)" and e: "kvp_entry_wire p e raw"
  shows "kvp_outcome p (raw @ rest) (rc, es) \<longleftrightarrow> (\<exists>es'. es = e # es' \<and> kvp_outcome (ke_type e) rest (rc, es'))"
proof (cases es)
  case Nil
  have "\<not> kvp_outcome p (raw @ rest) (rc, [])"
    using kvp_entry_wire_ne [OF e] e unfolding kvp_outcome_def by fastforce
  then show ?thesis by (simp add: Nil)
next
  case (Cons x es')
  have "x = e \<and> s = rest" if "raw @ rest = r @ s" "kvp_entry_wire p x r" for r s
    using kvp_wire_next [OF e [unfolded p] d] kvp_wire_next [OF that(2) [unfolded p], of s] d that(1) by simp
  then show ?thesis using e unfolding Cons kvp_outcome_Cons by blast
qed

lemma kvp_decode_all_outcome:
  "kd_buf d = Arr bs \<Longrightarrow> kvp_decode_all d = (rc, es) \<longleftrightarrow> kvp_outcome (kd_prev d) bs (rc, es)"
proof (induction d arbitrary: bs es rule: kvp_decode_all.induct)
  case (1 d)
  obtain x d' where nx: "moq_kvp_decode_next d = (x, d')" by fastforce
  show ?case
  proof (cases x)
    case (Inl r)
    then have "moq_kvp_decode_next d = (Inl r, d')" using nx by simp
    then show ?thesis using kvp_outcome_stop [OF _ 1(2)] by (auto simp: kvp_decode_all.simps [of d])
  next
    case (Inr e)
    then have ok: "moq_kvp_decode_next d = (Inr e, d')" using nx by simp
    obtain raw rest where bs: "bs = raw @ rest" "kvp_entry_wire (kd_prev d) e raw" "d' = kd_after e rest"
      using kvp_next_wire [OF ok 1(2)] by blast
    have rest: "kvp_decode_all d' = (rc, es') \<longleftrightarrow> kvp_outcome (ke_type e) rest (rc, es')" for es'
      using 1(1) [OF ok [symmetric] refl, of rest es'] by (simp add: bs(3))
    have "kvp_decode_all d = (rc, es) \<longleftrightarrow> (\<exists>es'. es = e # es' \<and> kvp_decode_all d' = (rc, es'))"
      using ok by (auto simp: kvp_decode_all.simps [of d] split: prod.splits)
    then show ?thesis unfolding bs(1) kvp_outcome_step [OF refl 1(2) [unfolded bs(1)] bs(2)] rest .
  qed
qed

text \<open>C12: called until it stops, the decoder returns exactly the entries that stand in the span. The
  result is \<open>(rc, es)\<close> if and only if the span splits into the wire forms of \<open>es\<close>, one after the other, and a
  remainder: an empty one with \<open>MOQ_DONE\<close>, or one that does not begin with the wire form of any entry with
  \<open>MOQ_ERR_PROTO\<close>. In a wire form the value and the raw span are whole, so no length reaches past the buffer.\<close>

theorem kvp_decode_all_exact:
  "kvp_decode_all (moq_kvp_decoder_init (Arr bs)) = (rc, es) \<longleftrightarrow>
   (\<exists>good bad. bs = good @ bad \<and> kvp_wire 0 es good
      \<and> (if bad = [] then rc = MOQ_DONE
         else rc = MOQ_ERR_PROTO
           \<and> (\<nexists>e raw rest. bad = raw @ rest \<and> kvp_entry_wire (last (0 # map ke_type es)) e raw)))"
  using kvp_decode_all_outcome [of "moq_kvp_decoder_init (Arr bs)" bs rc es]
  by (simp add: moq_kvp_decoder_init_def kvp_outcome_def)

theorem kvp_decode_all_exact_witness:
  "\<exists>es. kvp_wire 0 es [2, 9, 3, 1, 42] \<and> map ke_type es = [2, 5]"
proof -
  let ?bs = "[2, 9, 3, 1, 42] :: u8 list"
  let ?es = "[\<lparr>ke_type = 2, ke_value = Arr [9], ke_is_varint = True, ke_raw = Arr [2, 9]\<rparr>,
    \<lparr>ke_type = 5, ke_value = Arr [42], ke_is_varint = False, ke_raw = Arr [3, 1, 42]\<rparr>]"
  have "kvp_decode_all (moq_kvp_decoder_init (Arr ?bs)) = (MOQ_DONE, ?es)" by code_simp
  then have "kvp_wire 0 ?es ?bs"
    using kvp_decode_all_exact [of ?bs MOQ_DONE ?es, THEN iffD1] by (auto split: if_splits)
  then show ?thesis by (intro exI [of _ ?es]) simp
qed

lemma take_store_bytes:
  "length bs \<le> plen out \<Longrightarrow> \<not> (0 < plen out \<and> is_null out) \<Longrightarrow>
   take (length bs) (elems (store_bytes 0 bs out)) = bs"
  by (cases out) auto

text \<open>The deltas of a list are in their shortest form.\<close>

function kvp_deltas_minimal :: "bool \<Rightarrow> u64 \<Rightarrow> u8 list \<Rightarrow> bool" where
  "kvp_deltas_minimal b prev bs \<longleftrightarrow>
     (bs = [] \<or> (case kvp_step b prev bs of None \<Rightarrow> True
        | Some (t, n, k) \<Rightarrow> take n bs = kvp_enc b (t - prev) \<and> kvp_deltas_minimal b t (drop (n + k) bs)))"
  by pat_completeness auto
termination
  by (relation "measure (\<lambda>(b, prev, bs). length bs)") (auto elim!: kvp_stepE)

declare kvp_deltas_minimal.simps [simp del]

lemma kvp_pair_again:
  assumes "kvp_dec b (d @ body @ rest) = Some (v, length d)" and "kvp_ok b v"
  shows "kvp_enc b v @ body @ out = d @ body @ rest \<longleftrightarrow> d = kvp_enc b v \<and> out = rest"
proof
  assume eq: "kvp_enc b v @ body @ out = d @ body @ rest"
  then have "length (kvp_enc b v) = length d"
    using kvp_io.dec_enc [OF assms(2), of "body @ out"] assms(1) by simp
  then show "d = kvp_enc b v \<and> out = rest" using eq by simp
qed simp

lemma kvp_unparse_parse:
  "kvp_parse b prev bs = Some es \<Longrightarrow>
     length (kvp_unparse b prev es) \<le> length bs \<and> (kvp_unparse b prev es = bs \<longleftrightarrow> kvp_deltas_minimal b prev bs)"
proof (induction b prev bs arbitrary: es rule: kvp_parse.induct)
  case (1 b prev bs)
  show ?case
  proof (cases "bs = []")
    case True
    with 1(2) show ?thesis by (simp add: kvp_parse.simps kvp_deltas_minimal.simps)
  next
    case False
    with 1(2) obtain t n k es' where st: "kvp_step b prev bs = Some (t, n, k)"
      and rest: "kvp_parse b t (drop (n + k) bs) = Some es'" and es: "es = (t, take k (drop n bs)) # es'"
      by (auto simp: kvp_parse.simps [of b prev] split: option.splits)
    define e d body tl where "e = kvp_enc b (t - prev)" and "d = take n bs" and "body = take k (drop n bs)"
      and "tl = drop (n + k) bs"
    note IH = 1(1) [OF False st refl refl rest, folded tl_def]
    from st have k: "n + k \<le> length bs" "kvp_ok b (t - prev)" "kvp_dec b bs = Some (t - prev, n)"
      by (auto elim: kvp_stepE)
    have bs: "bs = d @ body @ tl"
      using append_take_drop_id [of n bs] append_take_drop_id [of k "drop n bs"]
      by (simp add: d_def body_def tl_def add.commute del: append_take_drop_id)
    have n: "n = length d" using k(1) by (simp add: d_def)
    have un: "kvp_unparse b prev es = e @ body @ kvp_unparse b t es'" by (simp add: es e_def body_def)
    have "kvp_dec b (d @ body @ tl) = Some (t - prev, length d)" using k(3) n bs by simp
    then have "kvp_unparse b prev es = bs \<longleftrightarrow> d = e \<and> kvp_unparse b t es' = tl"
      unfolding un bs e_def by (rule kvp_pair_again) (rule k(2))
    also have "\<dots> \<longleftrightarrow> kvp_deltas_minimal b prev bs"
      using IH False st by (simp add: kvp_deltas_minimal.simps [of b prev bs] d_def e_def tl_def)
    finally have "kvp_unparse b prev es = bs \<longleftrightarrow> kvp_deltas_minimal b prev bs" .
    moreover have "length e \<le> length d" using kvp_io.dec_minimal [OF k(3)] n by (simp add: e_def)
    then have "length (kvp_unparse b prev es) \<le> length (d @ body @ tl)" using IH by (simp add: un)
    ultimately show ?thesis using bs by simp
  qed
qed

text \<open>C13: \<open>moq_kvp_list_add_int\<close> is sorted insertion. It succeeds exactly when its arguments are
  acceptable, the input parses, every pair of the type already present has the given value, and the
  edited list is representable and fits; the output then parses as the input's pairs with the new one
  at its place in type order. A list that already holds the type has the same pairs afterwards and is
  no longer than before. It is the same bytes exactly when the deltas of the input are in their shortest
  form: the pairs are written anew, so a longer delta is not copied unchanged, which is what the comment
  in \<open>kvp_internal.h\<close> says of such a list.\<close>

theorem kvp_list_add_int_correct:
  "(moq_kvp_list_add_int inp vi64 type v out = (Inr n, out') \<longleftrightarrow>
    kvp_args_ok inp type out
    \<and> (\<exists>es. kvp_parse vi64 0 (elems inp) = Some es \<and> kvp_agree vi64 type v es
         \<and> kvp_wf vi64 0 (kvp_added vi64 type v es)
         \<and> n = length (kvp_unparse vi64 0 (kvp_added vi64 type v es)) \<and> n \<le> plen out
         \<and> out' = store_bytes 0 (kvp_unparse vi64 0 (kvp_added vi64 type v es)) out
         \<and> kvp_parse vi64 0 (take n (elems out')) = Some (kvp_added vi64 type v es)))
   \<and> (moq_kvp_list_add_int inp vi64 type v out = (Inr n, out') \<and> kvp_parse vi64 0 (elems inp) = Some es
      \<and> type \<in> fst ` set es \<longrightarrow>
        kvp_parse vi64 0 (take n (elems out')) = Some es \<and> n \<le> length (elems inp)
        \<and> (take n (elems out') = elems inp \<longleftrightarrow> kvp_deltas_minimal vi64 0 (elems inp)))"
proof
  show iff: "moq_kvp_list_add_int inp vi64 type v out = (Inr n, out') \<longleftrightarrow>
    kvp_args_ok inp type out
    \<and> (\<exists>es. kvp_parse vi64 0 (elems inp) = Some es \<and> kvp_agree vi64 type v es
         \<and> kvp_wf vi64 0 (kvp_added vi64 type v es)
         \<and> n = length (kvp_unparse vi64 0 (kvp_added vi64 type v es)) \<and> n \<le> plen out
         \<and> out' = store_bytes 0 (kvp_unparse vi64 0 (kvp_added vi64 type v es)) out
         \<and> kvp_parse vi64 0 (take n (elems out')) = Some (kvp_added vi64 type v es))"
    unfolding kvp_list_add_int_iff
    using take_store_bytes kvp_parse_unparse by (fastforce simp: kvp_args_ok_def)
  show "moq_kvp_list_add_int inp vi64 type v out = (Inr n, out') \<and> kvp_parse vi64 0 (elems inp) = Some es
      \<and> type \<in> fst ` set es \<longrightarrow>
        kvp_parse vi64 0 (take n (elems out')) = Some es \<and> n \<le> length (elems inp)
        \<and> (take n (elems out') = elems inp \<longleftrightarrow> kvp_deltas_minimal vi64 0 (elems inp))"
  proof (intro impI, elim conjE)
    assume run: "moq_kvp_list_add_int inp vi64 type v out = (Inr n, out')" and es: "kvp_parse vi64 0 (elems inp) = Some es"
      and type: "type \<in> fst ` set es"
    from type have "kvp_added vi64 type v es = es" by (simp add: kvp_added_def)
    then have "n = length (kvp_unparse vi64 0 es)" "n \<le> plen out" "out' = store_bytes 0 (kvp_unparse vi64 0 es) out"
        "\<not> (0 < plen out \<and> is_null out)" "kvp_parse vi64 0 (take n (elems out')) = Some es"
      using run es unfolding iff by (auto simp: kvp_args_ok_def)
    then show "kvp_parse vi64 0 (take n (elems out')) = Some es \<and> n \<le> length (elems inp)
        \<and> (take n (elems out') = elems inp \<longleftrightarrow> kvp_deltas_minimal vi64 0 (elems inp))"
      using kvp_unparse_parse [OF es] take_store_bytes [of "kvp_unparse vi64 0 es" out] by simp
  qed
qed

theorem kvp_list_add_int_correct_witness:
  "\<not> kvp_deltas_minimal False 0 [0x40, 2, 5] \<and> kvp_parse False 0 [2, 5] = kvp_parse False 0 [0x40, 2, 5]"
proof -
  have "moq_kvp_list_add_int (Arr [0x40, 2, 5]) False 2 5 (Arr [0, 0, 0]) = (Inr 2, Arr [2, 5, 0])" by code_simp
  moreover have "kvp_parse False 0 [0x40, 2, 5] = Some [(2, [5])]" by code_simp
  ultimately show ?thesis
    using kvp_list_add_int_correct [of "Arr [0x40, 2, 5]" False 2 5 "Arr [0, 0, 0]" 2 "Arr [2, 5, 0]" "[(2, [5])]",
        THEN conjunct2] by simp
qed

definition container_ok :: "u64 \<Rightarrow> bool" where
  "container_ok container \<longleftrightarrow> \<not> (container \<noteq> 0 \<and> container AND 1 = 0)"

text \<open>The merge over the abstract instance list.\<close>

lemma kvp_list_merge_int_eq:
  assumes "kvp_args_ok inp type out" and "container_ok container"
  shows "moq_kvp_list_merge_int inp vi64 type v container out =
      (case count_result vi64 type container (kvp_parse vi64 0 (elems inp)) (0, 0) of
        Inl e \<Rightarrow> (Inl e, out)
      | Inr (count, first) \<Rightarrow>
          if count = 0 then moq_kvp_list_add_int inp vi64 type v out
          else if 1 < count \<or> first \<noteq> v then (Inl MOQ_ERR_INVAL, out)
          else if plen out < plen inp then (Inl MOQ_ERR_BUFFER, out)
          else (Inr (plen inp), store_bytes 0 (elems inp) out))"
proof -
  have cnt: "kvp_count_int inp vi64 type container True (0, 0)
      = count_result vi64 type container (kvp_parse vi64 0 (elems inp)) (0, 0)"
    using assms kvp_count_loop_result [of "moq_buf_reader_init inp" type container vi64 True 0 "(0, 0)"]
    by (auto simp: kvp_count_int_def kvp_args_ok_def container_ok_def moq_buf_reader_init_def
        reader_valid_def rd_rest_def)
  have guard: "((0 < plen inp \<and> is_null inp) \<or> (0 < plen out \<and> is_null out) \<or> type AND 1 \<noteq> 0
      \<or> (container \<noteq> 0 \<and> container AND 1 = 0)) = False"
    using assms by (auto simp: kvp_args_ok_def container_ok_def)
  show ?thesis unfolding moq_kvp_list_merge_int_def guard cnt by simp
qed

lemma single_instance: "(length xs \<noteq> 0 \<and> \<not> 1 < length xs \<and> hd xs = v) \<longleftrightarrow> xs = [v]"
  by (cases xs) auto

lemma kvp_list_merge_int_counted:
  assumes "kvp_args_ok inp type out" and "container_ok container"
    and "kvp_parse vi64 0 (elems inp) = Some es" and "kvp_instances vi64 type container es = Some xs"
  shows "moq_kvp_list_merge_int inp vi64 type v container out = (Inr n, out') \<longleftrightarrow>
    (if xs = [] then moq_kvp_list_add_int inp vi64 type v out = (Inr n, out')
     else xs = [v] \<and> n = plen inp \<and> n \<le> plen out \<and> out' = store_bytes 0 (elems inp) out)"
  using assms(3,4) single_instance [of xs v]
  by (cases "xs = []")
     (auto simp: kvp_list_merge_int_eq [OF assms(1,2)] count_more_def not_less)

text \<open>C14: \<open>moq_kvp_list_merge_int\<close> counts the instances of the type among the pairs and inside the
  bodies of the container pairs: with none it behaves as \<open>moq_kvp_list_add_int\<close>, with exactly one of
  the same value it copies the list byte for byte, and in every other case it fails.\<close>

theorem kvp_list_merge_int_correct:
  "moq_kvp_list_merge_int inp vi64 type v container out = (Inr n, out') \<longleftrightarrow>
   kvp_args_ok inp type out \<and> container_ok container
   \<and> (\<exists>es xs. kvp_parse vi64 0 (elems inp) = Some es
        \<and> kvp_instances vi64 type container es = Some xs
        \<and> (if xs = [] then moq_kvp_list_add_int inp vi64 type v out = (Inr n, out')
           else xs = [v] \<and> n = plen inp \<and> n \<le> plen out \<and> out' = store_bytes 0 (elems inp) out))"
proof (cases "kvp_args_ok inp type out \<and> container_ok container")
  case False
  then show ?thesis by (auto simp: moq_kvp_list_merge_int_def kvp_args_ok_def container_ok_def)
next
  case True
  show ?thesis
  proof (cases "Option.bind (kvp_parse vi64 0 (elems inp)) (kvp_instances vi64 type container)")
    case None
    with True show ?thesis
      by (auto simp: kvp_list_merge_int_eq count_result_def)
  next
    case (Some xs)
    then obtain es where "kvp_parse vi64 0 (elems inp) = Some es"
        "kvp_instances vi64 type container es = Some xs"
      by (auto simp: Option.bind_eq_Some_conv)
    with True show ?thesis by (simp add: kvp_list_merge_int_counted)
  qed
qed

end
