(* ===== verification/ControlD22.thy ===== *)
theory ControlD22
  imports Buf
begin

text \<open>
  The draft-22 wire building blocks of \<open>core/src/wire/control_d22.c\<close>: the message envelope, the
  location filter value, Setup Option pairs, and the SETUP and GOAWAY bodies.
\<close>

unbundle bit_operations_syntax

section \<open>Data\<close>

definition MOQ_D22_GOAWAY :: u64 where "MOQ_D22_GOAWAY = 0x10"
definition MOQ_D22_MAX_URI :: nat where "MOQ_D22_MAX_URI = 8192"
definition MOQ_D22_MAX_KVP :: nat where "MOQ_D22_MAX_KVP = 65535"

text \<open>The enumeration \<open>moq_d22_filter_type_t\<close>, by its integer values.\<close>

abbreviation MOQ_D22_FILTER_NONE :: u64 where "MOQ_D22_FILTER_NONE \<equiv> 0"
abbreviation MOQ_D22_FILTER_RELATIVE :: u64 where "MOQ_D22_FILTER_RELATIVE \<equiv> 1"
abbreviation MOQ_D22_FILTER_ABSOLUTE :: u64 where "MOQ_D22_FILTER_ABSOLUTE \<equiv> 2"
abbreviation MOQ_D22_FILTER_GROUP_END :: u64 where "MOQ_D22_FILTER_GROUP_END \<equiv> 3"
abbreviation MOQ_D22_FILTER_RANGE :: u64 where "MOQ_D22_FILTER_RANGE \<equiv> 4"
abbreviation MOQ_D22_FILTER_NEXT_OBJECT :: u64 where "MOQ_D22_FILTER_NEXT_OBJECT \<equiv> 5"

text \<open>\<open>ce_payload\<close> is the pair \<open>payload, payload_len\<close>.\<close>

record moq_control_envelope =
  ce_msg_type :: u64
  ce_payload_len :: u16
  ce_payload :: moq_bytes

record moq_d22_location_filter =
  lf_type :: u64
  lf_start_group :: u64
  lf_start_object :: u64
  lf_end_group_delta :: u64
  lf_end_object :: u64

record moq_d22_kvp =
  k_type :: u64
  k_integer :: u64
  k_bytes :: moq_bytes

record moq_d22_setup_options =
  so_has_hop_id :: bool
  so_has_relay_cost :: bool
  so_hop_id :: u64
  so_relay_cost :: u64
  so_has_path :: bool
  so_has_authority :: bool
  so_has_implementation :: bool
  so_has_max_auth_token_cache_size :: bool
  so_has_max_filter_ranges :: bool
  so_has_max_request_updates :: bool
  so_path :: moq_bytes
  so_authority :: moq_bytes
  so_implementation :: moq_bytes
  so_max_auth_token_cache_size :: u64
  so_max_filter_ranges :: u64
  so_max_request_updates :: u64
  so_auth_token_count :: nat
  so_encoded :: moq_bytes

definition setup_options_zero :: moq_d22_setup_options where
  "setup_options_zero = \<lparr>
     so_has_hop_id = False, so_has_relay_cost = False, so_hop_id = 0, so_relay_cost = 0,
     so_has_path = False, so_has_authority = False, so_has_implementation = False,
     so_has_max_auth_token_cache_size = False, so_has_max_filter_ranges = False,
     so_has_max_request_updates = False, so_path = Null 0, so_authority = Null 0,
     so_implementation = Null 0, so_max_auth_token_cache_size = 0, so_max_filter_ranges = 0,
     so_max_request_updates = 0, so_auth_token_count = 0, so_encoded = Null 0\<rparr>"

record moq_d22_goaway =
  ga_uri :: moq_bytes
  ga_timeout_ms :: u64

section \<open>Envelope and location filter\<close>

definition moq_d22_decode_envelope :: "moq_control_envelope rd" where
  "moq_d22_decode_envelope r =
     (if \<not> reader_valid r then (Inl MOQ_ERR_INVAL, r)
      else rd_local
        (rd_then moq_buf_read_vi64 (\<lambda>msg_type. rd_then moq_buf_read_uint16 (\<lambda>payload_len cursor.
           if moq_buf_reader_remaining cursor < unat payload_len then (Inl MOQ_ERR_BUFFER, cursor)
           else (Inr \<lparr>ce_msg_type = msg_type, ce_payload_len = payload_len,
                      ce_payload = ptake (unat payload_len) (moq_buf_reader_ptr cursor)\<rparr>,
                 cursor\<lparr>rd_pos := rd_pos cursor + unat payload_len\<rparr>)))) r)"

definition moq_d22_decode_location_filter :: "moq_d22_location_filter rd" where
  "moq_d22_decode_location_filter r =
     (if \<not> reader_valid r then (Inl MOQ_ERR_INVAL, r)
      else rd_local
        (rd_then moq_buf_read_vi64 (\<lambda>type.
           if MOQ_D22_FILTER_NEXT_OBJECT < type then rd_fail MOQ_ERR_PROTO
           else if MOQ_D22_FILTER_RELATIVE \<le> type \<and> type \<le> MOQ_D22_FILTER_RANGE then
             rd_then moq_buf_read_vi64 (\<lambda>start_group.
             rd_then (if MOQ_D22_FILTER_ABSOLUTE \<le> type then moq_buf_read_vi64 else rd_return 0)
               (\<lambda>start_object.
             rd_then (if MOQ_D22_FILTER_GROUP_END \<le> type
                      then rd_then moq_buf_read_vi64 (\<lambda>delta.
                             if UINT64_MAX - start_group < delta then rd_fail MOQ_ERR_PROTO
                             else rd_return delta)
                      else rd_return 0) (\<lambda>end_group_delta.
             rd_then (if type = MOQ_D22_FILTER_RANGE then moq_buf_read_vi64 else rd_return 0)
               (\<lambda>end_object.
             rd_return \<lparr>lf_type = type, lf_start_group = start_group,
               lf_start_object = start_object, lf_end_group_delta = end_group_delta,
               lf_end_object = end_object\<rparr>))))
           else rd_return \<lparr>lf_type = type, lf_start_group = 0, lf_start_object = 0,
                  lf_end_group_delta = 0, lf_end_object = 0\<rparr>)) r)"

text \<open>A conditional write; the other branch writes nothing.\<close>

definition wr_when :: "bool \<Rightarrow> wr \<Rightarrow> wr" where
  "wr_when c m = (if c then m else (\<lambda>w. (MOQ_OK, w)))"

definition moq_d22_encode_location_filter :: "moq_d22_location_filter \<Rightarrow> wr" where
  "moq_d22_encode_location_filter f w =
     (if \<not> writer_valid w then (MOQ_ERR_INVAL, w)
      else if MOQ_D22_FILTER_NEXT_OBJECT < lf_type f then (MOQ_ERR_INVAL, w)
      else if (lf_type f = MOQ_D22_FILTER_GROUP_END \<or> lf_type f = MOQ_D22_FILTER_RANGE)
              \<and> UINT64_MAX - lf_start_group f < lf_end_group_delta f then (MOQ_ERR_INVAL, w)
      else wr_local
        (wr_then (moq_buf_write_vi64 (lf_type f))
          (wr_when (MOQ_D22_FILTER_RELATIVE \<le> lf_type f \<and> lf_type f \<le> MOQ_D22_FILTER_RANGE)
            (wr_then (moq_buf_write_vi64 (lf_start_group f))
            (wr_then (wr_when (MOQ_D22_FILTER_ABSOLUTE \<le> lf_type f)
                       (moq_buf_write_vi64 (lf_start_object f)))
            (wr_then (wr_when (MOQ_D22_FILTER_GROUP_END \<le> lf_type f)
                       (moq_buf_write_vi64 (lf_end_group_delta f)))
              (wr_when (lf_type f = MOQ_D22_FILTER_RANGE)
                (moq_buf_write_vi64 (lf_end_object f)))))))) w)"

definition moq_d22_relative_start_group :: "u64 \<Rightarrow> u64 \<Rightarrow> u64" where
  "moq_d22_relative_start_group grp offset =
     (if offset = 0 then (if grp = UINT64_MAX then UINT64_MAX else grp + 1)
      else if grp < offset - 1 then 0 else grp - (offset - 1))"

section \<open>Setup options\<close>

definition moq_d22_decode_kvp :: "u64 \<Rightarrow> moq_d22_kvp rd" where
  "moq_d22_decode_kvp previous_type r =
     (if \<not> reader_valid r then (Inl MOQ_ERR_INVAL, r)
      else rd_local
        (rd_then moq_buf_read_vi64 (\<lambda>delta.
           if UINT64_MAX - previous_type < delta then rd_fail MOQ_ERR_PROTO
           else let type = previous_type + delta in
             if type AND 1 \<noteq> 0 then
               rd_then moq_buf_read_vi64 (\<lambda>len cursor.
                 if MOQ_D22_MAX_KVP < unat len then (Inl MOQ_ERR_PROTO, cursor)
                 else if moq_buf_reader_remaining cursor < unat len then (Inl MOQ_ERR_BUFFER, cursor)
                 else rd_then (moq_buf_read_raw (unat len))
                   (\<lambda>b. rd_return \<lparr>k_type = type, k_integer = 0, k_bytes = b\<rparr>) cursor)
             else rd_then moq_buf_read_vi64
                    (\<lambda>v. rd_return \<lparr>k_type = type, k_integer = v, k_bytes = Null 0\<rparr>))) r)"

text \<open>\<open>validate_token\<close> reads from a cursor of its own; only the result code matters.\<close>

definition validate_token :: "moq_bytes \<Rightarrow> moq_result" where
  "validate_token bytes =
     (case moq_buf_read_vi64 (moq_buf_reader_init bytes) of
        (Inl e, r1) \<Rightarrow> MOQ_D22_ERR_KVP_FORMAT
      | (Inr type, r1) \<Rightarrow>
        if 3 < type then MOQ_D22_ERR_KVP_FORMAT
        else case (if type \<noteq> 3 then moq_buf_read_vi64 r1 else (Inr 0, r1)) of
          (Inl e, r2) \<Rightarrow> MOQ_D22_ERR_KVP_FORMAT
        | (Inr unused, r2) \<Rightarrow>
          if type = 1 \<or> type = 3 then
            case moq_buf_read_vi64 r2 of
              (Inl e, r3) \<Rightarrow> MOQ_D22_ERR_KVP_FORMAT
            | (Inr unused2, r3) \<Rightarrow> MOQ_OK
          else if moq_buf_reader_remaining r2 \<noteq> 0 then MOQ_D22_ERR_KVP_FORMAT
          else MOQ_OK)"

text \<open>
  The value of an understood option is stored before the presence flag is looked at, as in the
  code; on a duplicate the caller discards the structure.
\<close>

definition accept_setup_option ::
  "moq_d22_setup_options \<Rightarrow> moq_d22_kvp \<Rightarrow> moq_result \<times> moq_d22_setup_options" where
  "accept_setup_option s kvp =
     (let t = k_type kvp in
      if t = 1 then
        (if so_has_path s then MOQ_ERR_PROTO else MOQ_OK,
         s\<lparr>so_path := k_bytes kvp, so_has_path := True\<rparr>)
      else if t = 3 then
        (let rc = validate_token (k_bytes kvp) in
         if rc \<noteq> MOQ_OK then (rc, s)
         else (MOQ_OK, s\<lparr>so_auth_token_count := so_auth_token_count s + 1\<rparr>))
      else if t = 4 then
        (if so_has_max_auth_token_cache_size s then MOQ_ERR_PROTO else MOQ_OK,
         s\<lparr>so_max_auth_token_cache_size := k_integer kvp, so_has_max_auth_token_cache_size := True\<rparr>)
      else if t = 5 then
        (if so_has_authority s then MOQ_ERR_PROTO else MOQ_OK,
         s\<lparr>so_authority := k_bytes kvp, so_has_authority := True\<rparr>)
      else if t = 6 then
        (if so_has_max_filter_ranges s then MOQ_ERR_PROTO else MOQ_OK,
         s\<lparr>so_max_filter_ranges := k_integer kvp, so_has_max_filter_ranges := True\<rparr>)
      else if t = 7 then
        (if so_has_implementation s then MOQ_ERR_PROTO else MOQ_OK,
         s\<lparr>so_implementation := k_bytes kvp, so_has_implementation := True\<rparr>)
      else if t = 0x40B54 then
        (if so_has_hop_id s then MOQ_ERR_PROTO else MOQ_OK,
         s\<lparr>so_hop_id := k_integer kvp, so_has_hop_id := True\<rparr>)
      else if t = 0x40B56 then
        (if so_has_relay_cost s then MOQ_ERR_PROTO else MOQ_OK,
         s\<lparr>so_relay_cost := k_integer kvp, so_has_relay_cost := True\<rparr>)
      else if t = 8 then
        (if so_has_max_request_updates s then MOQ_ERR_PROTO else MOQ_OK,
         s\<lparr>so_max_request_updates := k_integer kvp, so_has_max_request_updates := True\<rparr>)
      else (MOQ_OK, s))"

lemma decode_kvp_step:
  assumes "moq_d22_decode_kvp prev r = (Inr kvp, r')"
  shows "reader_valid r \<and> reader_valid r' \<and> rd_data r' = rd_data r \<and> rd_pos r < rd_pos r'
    \<and> rd_pos r' \<le> plen (rd_data r)"
proof -
  from assms have "\<exists>delta r1 v r2. moq_buf_read_vi64 r = (Inr delta, r1)
      \<and> moq_buf_read_vi64 r1 = (Inr v, r2) \<and> (r' = r2 \<or> (\<exists>b. moq_buf_read_raw (unat v) r2 = (Inr b, r')))"
    by (auto simp: moq_d22_decode_kvp_def rd_local_def rd_then_def rd_fail_def rd_return_def Let_def
        split: if_splits prod.splits sum.splits)
  then obtain delta r1 v r2 where "moq_buf_read_vi64 r = (Inr delta, r1)"
      "moq_buf_read_vi64 r1 = (Inr v, r2)" "r' = r2 \<or> (\<exists>b. moq_buf_read_raw (unat v) r2 = (Inr b, r'))"
    by blast
  with io_vi64.rd_step [of r delta r1] io_vi64.rd_step [of r1 v r2] show ?thesis
    by (auto simp: moq_buf_read_raw_def reader_valid_def split: if_splits)
qed

text \<open>The loop of \<open>moq_d22_decode_setup_options\<close>.\<close>

function setup_loop :: "u64 \<Rightarrow> moq_d22_setup_options \<Rightarrow> moq_buf_reader
    \<Rightarrow> moq_result + moq_d22_setup_options" where
  "setup_loop previous s r =
     (if moq_buf_reader_remaining r = 0 then Inr s
      else case moq_d22_decode_kvp previous r of
        (Inl e, r1) \<Rightarrow> Inl (if e = MOQ_ERR_BUFFER then MOQ_ERR_PROTO else e)
      | (Inr kvp, r1) \<Rightarrow>
          case accept_setup_option s kvp of (rc, s1) \<Rightarrow>
            if rc \<noteq> MOQ_OK then Inl rc else setup_loop (k_type kvp) s1 r1)"
  by pat_completeness auto
termination
  by (relation "measure (\<lambda>(previous, s, r). moq_buf_reader_remaining r)")
    (auto dest!: sym [of "(_, _)" "moq_d22_decode_kvp _ _"] decode_kvp_step
      simp: moq_buf_reader_remaining_def)

declare setup_loop.simps [simp del]

definition moq_d22_decode_setup_options :: "moq_bytes \<Rightarrow> moq_result + moq_d22_setup_options" where
  "moq_d22_decode_setup_options body =
     (if is_null body \<and> plen body \<noteq> 0 then Inl MOQ_ERR_INVAL
      else if 65535 < plen body then Inl MOQ_ERR_PROTO
      else case setup_loop 0 setup_options_zero (moq_buf_reader_init body) of
        Inl e \<Rightarrow> Inl e
      | Inr s \<Rightarrow> Inr (s\<lparr>so_encoded := body\<rparr>))"





definition moq_buf_writer_remaining :: "moq_buf_writer \<Rightarrow> nat" where
  "moq_buf_writer_remaining w =
     (if plen (w_data w) < w_pos w then 0 else plen (w_data w) - w_pos w)"


section \<open>GOAWAY\<close>

definition moq_d22_decode_goaway :: "moq_bytes \<Rightarrow> moq_result + moq_d22_goaway" where
  "moq_d22_decode_goaway body =
     (if is_null body \<and> plen body \<noteq> 0 then Inl MOQ_ERR_INVAL
      else case moq_buf_read_vi64 (moq_buf_reader_init body) of
        (Inl e, r1) \<Rightarrow> Inl MOQ_ERR_PROTO
      | (Inr uri_len, r1) \<Rightarrow>
        if MOQ_D22_MAX_URI < unat uri_len \<or> moq_buf_reader_remaining r1 < unat uri_len
        then Inl MOQ_ERR_PROTO
        else case moq_buf_read_raw (unat uri_len) r1 of
          (Inl e, r2) \<Rightarrow> Inl e
        | (Inr uri, r2) \<Rightarrow>
          case moq_buf_read_vi64 r2 of
            (Inl e, r3) \<Rightarrow> Inl MOQ_ERR_PROTO
          | (Inr timeout_ms, r3) \<Rightarrow>
              if moq_buf_reader_remaining r3 \<noteq> 0 then Inl MOQ_ERR_PROTO
              else Inr \<lparr>ga_uri = uri, ga_timeout_ms = timeout_ms\<rparr>)"

definition moq_d22_encode_goaway :: "moq_d22_goaway \<Rightarrow> wr" where
  "moq_d22_encode_goaway g w =
     (if \<not> writer_valid w \<or> MOQ_D22_MAX_URI < plen (ga_uri g) \<or> (is_null (ga_uri g) \<and> plen (ga_uri g) \<noteq> 0)
      then (MOQ_ERR_INVAL, w)
      else let size' = moq_vi64_len (of_nat (plen (ga_uri g))) + plen (ga_uri g)
                       + moq_vi64_len (ga_timeout_ms g) in
        if moq_buf_writer_remaining w < moq_vi64_len MOQ_D22_GOAWAY + 2 + size'
        then (MOQ_ERR_BUFFER, w)
        else wr_local
          (wr_then (moq_buf_write_vi64 MOQ_D22_GOAWAY)
          (wr_then (moq_buf_write_uint16 (of_nat size'))
          (wr_then (moq_buf_write_vi64 (of_nat (plen (ga_uri g))))
          (wr_then (moq_buf_write_raw (ga_uri g))
            (moq_buf_write_vi64 (ga_timeout_ms g)))))) w)"

section \<open>The location filter on the wire\<close>

lemma writes_when:
  "writes m c bs \<Longrightarrow> writes (wr_when d m) (d \<longrightarrow> c) (if d then bs else [])"
  using writes_return by (simp add: wr_when_def)

lemma vi64_writes: "writes (moq_buf_write_vi64 v) True (vi64_enc v)"
  using io_vi64.wr_writes by simp

lemma vi64_reads: "reads moq_buf_read_vi64 (vi64_enc v) v"
  using io_vi64.rd_reads by simp

definition lf_bytes :: "moq_d22_location_filter \<Rightarrow> u8 list" where
  "lf_bytes f = vi64_enc (lf_type f)
     @ (if MOQ_D22_FILTER_RELATIVE \<le> lf_type f \<and> lf_type f \<le> MOQ_D22_FILTER_RANGE
        then vi64_enc (lf_start_group f)
          @ (if MOQ_D22_FILTER_ABSOLUTE \<le> lf_type f then vi64_enc (lf_start_object f) else [])
          @ (if MOQ_D22_FILTER_GROUP_END \<le> lf_type f then vi64_enc (lf_end_group_delta f) else [])
          @ (if lf_type f = MOQ_D22_FILTER_RANGE then vi64_enc (lf_end_object f) else [])
        else [])"

text \<open>The fields the discriminator selects; the others are zero.\<close>

definition lf_canon :: "moq_d22_location_filter \<Rightarrow> moq_d22_location_filter" where
  "lf_canon f =
     (let ranged = MOQ_D22_FILTER_RELATIVE \<le> lf_type f \<and> lf_type f \<le> MOQ_D22_FILTER_RANGE in
      \<lparr>lf_type = lf_type f,
       lf_start_group = if ranged then lf_start_group f else 0,
       lf_start_object = if ranged \<and> MOQ_D22_FILTER_ABSOLUTE \<le> lf_type f then lf_start_object f else 0,
       lf_end_group_delta =
         if ranged \<and> MOQ_D22_FILTER_GROUP_END \<le> lf_type f then lf_end_group_delta f else 0,
       lf_end_object = if lf_type f = MOQ_D22_FILTER_RANGE then lf_end_object f else 0\<rparr>)"

definition lf_ok :: "moq_d22_location_filter \<Rightarrow> bool" where
  "lf_ok f \<longleftrightarrow> lf_type f \<le> MOQ_D22_FILTER_NEXT_OBJECT
     \<and> (lf_type f = MOQ_D22_FILTER_GROUP_END \<or> lf_type f = MOQ_D22_FILTER_RANGE \<longrightarrow>
          \<not> UINT64_MAX - lf_start_group f < lf_end_group_delta f)"

lemma writes_location_filter: "writes (moq_d22_encode_location_filter f) (lf_ok f) (lf_bytes f)"
proof -
  let ?m = "wr_local
        (wr_then (moq_buf_write_vi64 (lf_type f))
          (wr_when (MOQ_D22_FILTER_RELATIVE \<le> lf_type f \<and> lf_type f \<le> MOQ_D22_FILTER_RANGE)
            (wr_then (moq_buf_write_vi64 (lf_start_group f))
            (wr_then (wr_when (MOQ_D22_FILTER_ABSOLUTE \<le> lf_type f)
                       (moq_buf_write_vi64 (lf_start_object f)))
            (wr_then (wr_when (MOQ_D22_FILTER_GROUP_END \<le> lf_type f)
                       (moq_buf_write_vi64 (lf_end_group_delta f)))
              (wr_when (lf_type f = MOQ_D22_FILTER_RANGE)
                (moq_buf_write_vi64 (lf_end_object f))))))))"
  have "writes ?m True (lf_bytes f)"
    unfolding lf_bytes_def
    using writes_local [OF writes_then [OF vi64_writes writes_when [OF writes_then [OF vi64_writes
      writes_then [OF writes_when [OF vi64_writes] writes_then [OF writes_when [OF vi64_writes]
        writes_when [OF vi64_writes]]]]]]] by simp
  then show ?thesis
  proof (rule writes_guard [where f = "\<lambda>w. w"])
    show "moq_d22_encode_location_filter f w = (if lf_ok f then ?m w else (MOQ_ERR_INVAL, w))"
      if "writer_valid w" for w
      using that by (auto simp: moq_d22_encode_location_filter_def lf_ok_def not_le)
  qed simp
qed

lemma reads_if:
  "(c \<Longrightarrow> reads m bs a) \<Longrightarrow> reads (if c then m else rd_return z) (if c then bs else []) (if c then a else z)"
  by (simp add: reads_rd_return)

lemma lf_type_ge_3:
  "MOQ_D22_FILTER_GROUP_END \<le> t \<Longrightarrow> t \<le> MOQ_D22_FILTER_RANGE \<Longrightarrow>
   t = MOQ_D22_FILTER_GROUP_END \<or> t = MOQ_D22_FILTER_RANGE"
proof -
  assume "MOQ_D22_FILTER_GROUP_END \<le> t" "t \<le> MOQ_D22_FILTER_RANGE"
  then have "unat t = 3 \<or> unat t = 4" by (auto simp: word_le_nat_alt)
  then show ?thesis by (auto simp: word_unat_eq_iff)
qed

lemma reads_location_filter:
  assumes "lf_ok f"
  shows "reads moq_d22_decode_location_filter (lf_bytes f) (lf_canon f)"
proof (rule reads_cong)
  let ?t = "lf_type f"
  let ?ranged = "MOQ_D22_FILTER_RELATIVE \<le> ?t \<and> ?t \<le> MOQ_D22_FILTER_RANGE"
  have type: "\<not> MOQ_D22_FILTER_NEXT_OBJECT < ?t"
    using assms by (simp add: lf_ok_def not_less)
  have fits: "?ranged \<Longrightarrow> MOQ_D22_FILTER_GROUP_END \<le> ?t \<Longrightarrow>
      \<not> UINT64_MAX - lf_start_group f < lf_end_group_delta f"
    using assms lf_type_ge_3 [of ?t] by (auto simp: lf_ok_def)
  show "reads (rd_local
        (rd_then moq_buf_read_vi64 (\<lambda>type.
           if MOQ_D22_FILTER_NEXT_OBJECT < type then rd_fail MOQ_ERR_PROTO
           else if MOQ_D22_FILTER_RELATIVE \<le> type \<and> type \<le> MOQ_D22_FILTER_RANGE then
             rd_then moq_buf_read_vi64 (\<lambda>start_group.
             rd_then (if MOQ_D22_FILTER_ABSOLUTE \<le> type then moq_buf_read_vi64 else rd_return 0)
               (\<lambda>start_object.
             rd_then (if MOQ_D22_FILTER_GROUP_END \<le> type
                      then rd_then moq_buf_read_vi64 (\<lambda>delta.
                             if UINT64_MAX - start_group < delta then rd_fail MOQ_ERR_PROTO
                             else rd_return delta)
                      else rd_return 0) (\<lambda>end_group_delta.
             rd_then (if type = MOQ_D22_FILTER_RANGE then moq_buf_read_vi64 else rd_return 0)
               (\<lambda>end_object.
             rd_return \<lparr>lf_type = type, lf_start_group = start_group,
               lf_start_object = start_object, lf_end_group_delta = end_group_delta,
               lf_end_object = end_object\<rparr>))))
           else rd_return \<lparr>lf_type = type, lf_start_group = 0, lf_start_object = 0,
                  lf_end_group_delta = 0, lf_end_object = 0\<rparr>))) (lf_bytes f) (lf_canon f)"
  proof (cases ?ranged)
    case True
    have delta: "reads (rd_then moq_buf_read_vi64 (\<lambda>delta.
        if UINT64_MAX - lf_start_group f < delta then rd_fail MOQ_ERR_PROTO else rd_return delta))
        (vi64_enc (lf_end_group_delta f)) (lf_end_group_delta f)" if "MOQ_D22_FILTER_GROUP_END \<le> ?t"
      by (rule reads_then_check [where f = "\<lambda>d. d" and c = "\<lambda>d. UINT64_MAX - lf_start_group f < d",
            OF vi64_reads fits [OF True that]])
    have canon: "lf_canon f = \<lparr>lf_type = ?t, lf_start_group = lf_start_group f,
        lf_start_object = if MOQ_D22_FILTER_ABSOLUTE \<le> ?t then lf_start_object f else 0,
        lf_end_group_delta = if MOQ_D22_FILTER_GROUP_END \<le> ?t then lf_end_group_delta f else 0,
        lf_end_object = if ?t = MOQ_D22_FILTER_RANGE then lf_end_object f else 0\<rparr>"
      using True by (simp add: lf_canon_def)
    show ?thesis
      unfolding lf_bytes_def canon if_P [OF True]
      apply (rule reads_local, rule reads_then [OF vi64_reads])
      apply (subst if_not_P [OF type], subst if_P [OF True])
      apply (rule reads_then [OF vi64_reads], rule reads_then [OF reads_if [OF vi64_reads]])
      apply (rule reads_then [OF reads_if [OF delta]], assumption)
      apply (rule reads_then_return [OF reads_if [OF vi64_reads]])
      done
  next
    case False
    then have "\<not> ?t = MOQ_D22_FILTER_RANGE" by auto
    with False type show ?thesis
      unfolding lf_bytes_def lf_canon_def Let_def
      by (intro reads_local reads_then [OF vi64_reads]) (auto simp: reads_rd_return)
  qed
qed (simp add: moq_d22_decode_location_filter_def)

section \<open>Setup options on the wire\<close>

definition kvp_bytes :: "u64 \<Rightarrow> moq_d22_kvp \<Rightarrow> u8 list" where
  "kvp_bytes previous kvp = vi64_enc (k_type kvp - previous)
     @ (if k_type kvp AND 1 \<noteq> 0
        then vi64_enc (of_nat (plen (k_bytes kvp))) @ elems (k_bytes kvp)
        else vi64_enc (k_integer kvp))"

definition kvp_encodable :: "u64 \<Rightarrow> moq_d22_kvp \<Rightarrow> bool" where
  "kvp_encodable previous kvp \<longleftrightarrow> previous \<le> k_type kvp
     \<and> (k_type kvp AND 1 \<noteq> 0 \<longrightarrow>
          plen (k_bytes kvp) \<le> MOQ_D22_MAX_KVP \<and> plen (k_bytes kvp) = length (elems (k_bytes kvp)))"

definition kvp_canon :: "moq_d22_kvp \<Rightarrow> moq_d22_kvp" where
  "kvp_canon kvp =
     (if k_type kvp AND 1 \<noteq> 0
      then \<lparr>k_type = k_type kvp, k_integer = 0, k_bytes = Arr (elems (k_bytes kvp))\<rparr>
      else \<lparr>k_type = k_type kvp, k_integer = k_integer kvp, k_bytes = Null 0\<rparr>)"


lemma unat_of_nat_small: "n \<le> 65535 \<Longrightarrow> unat (of_nat n :: u64) = n"
  using of_nat_quic_ok [of n] by simp

lemma reads_kvp:
  assumes "kvp_encodable previous kvp"
  shows "reads (moq_d22_decode_kvp previous) (kvp_bytes previous kvp) (kvp_canon kvp)"
proof (rule reads_cong)
  let ?t = "k_type kvp" and ?bs = "elems (k_bytes kvp)"
  let ?val = "\<lambda>type. if type AND 1 \<noteq> 0 then
               rd_then moq_buf_read_vi64 (\<lambda>len cursor.
                 if MOQ_D22_MAX_KVP < unat len then (Inl MOQ_ERR_PROTO, cursor)
                 else if moq_buf_reader_remaining cursor < unat len then (Inl MOQ_ERR_BUFFER, cursor)
                 else rd_then (moq_buf_read_raw (unat len))
                   (\<lambda>b. rd_return \<lparr>k_type = type, k_integer = 0, k_bytes = b\<rparr>) cursor)
             else rd_then moq_buf_read_vi64
                    (\<lambda>v. rd_return \<lparr>k_type = type, k_integer = v, k_bytes = Null 0\<rparr>)"
  have le: "previous \<le> ?t"
    using assms by (simp add: kvp_encodable_def)
  have value_ok: "reads (?val ?t) (if ?t AND 1 \<noteq> 0 then vi64_enc (of_nat (plen (k_bytes kvp))) @ ?bs
      else vi64_enc (k_integer kvp)) (kvp_canon kvp)"
  proof (cases "?t AND 1 = 0")
    case True
    then show ?thesis
      using reads_then_return [OF vi64_reads, where f = "\<lambda>v. \<lparr>k_type = ?t, k_integer = v, k_bytes = Null 0\<rparr>"]
      by (simp add: kvp_canon_def)
  next
    case False
    then have len: "plen (k_bytes kvp) = length ?bs" "length ?bs \<le> 65535"
      using assms by (auto simp: kvp_encodable_def MOQ_D22_MAX_KVP_def)
    have body: "reads (\<lambda>cursor.
        if MOQ_D22_MAX_KVP < length ?bs then (Inl MOQ_ERR_PROTO, cursor)
        else if moq_buf_reader_remaining cursor < length ?bs then (Inl MOQ_ERR_BUFFER, cursor)
        else rd_then (moq_buf_read_raw (length ?bs))
               (\<lambda>b. rd_return \<lparr>k_type = ?t, k_integer = 0, k_bytes = b\<rparr>) cursor) ?bs (kvp_canon kvp)"
      using False len reads_then_return [OF reads_raw,
          where f = "\<lambda>b. \<lparr>k_type = ?t, k_integer = 0, k_bytes = b\<rparr>"] rest_take(2) [of _ ?bs]
      by (fastforce simp: reads_def kvp_canon_def MOQ_D22_MAX_KVP_def moq_buf_reader_remaining_def
          rd_live_def)
    show ?thesis
      unfolding if_P [OF False] len(1)
      by (rule reads_then [OF vi64_reads], unfold unat_of_nat_small [OF len(2)]) (rule body)
  qed
  have sum: "previous + (?t - previous) = ?t" by simp
  show "reads (rd_local (rd_then moq_buf_read_vi64 (\<lambda>delta.
       if UINT64_MAX - previous < delta then rd_fail MOQ_ERR_PROTO
       else let type = previous + delta in ?val type))) (kvp_bytes previous kvp) (kvp_canon kvp)"
    unfolding kvp_bytes_def
    by (rule reads_local, rule reads_then [OF vi64_reads],
        unfold if_not_P [OF delta_fits [OF le]] Let_def sum) (rule value_ok)
qed (simp add: moq_d22_decode_kvp_def)


text \<open>A sorted sequence of options.\<close>

fun kvps_bytes :: "u64 \<Rightarrow> moq_d22_kvp list \<Rightarrow> u8 list" where
  "kvps_bytes previous [] = []"
| "kvps_bytes previous (kvp # opts) = kvp_bytes previous kvp @ kvps_bytes (k_type kvp) opts"

fun kvps_encodable :: "u64 \<Rightarrow> moq_d22_kvp list \<Rightarrow> bool" where
  "kvps_encodable previous [] \<longleftrightarrow> True"
| "kvps_encodable previous (kvp # opts) \<longleftrightarrow>
     kvp_encodable previous kvp \<and> kvps_encodable (k_type kvp) opts"


text \<open>The options understood, and whether a structure has seen one.\<close>

definition understood :: "u64 \<Rightarrow> bool" where
  "understood t \<longleftrightarrow> t \<in> {1, 4, 5, 6, 7, 8, 0x40B54, 0x40B56}"

definition so_has :: "moq_d22_setup_options \<Rightarrow> u64 \<Rightarrow> bool" where
  "so_has s t =
     (if t = 1 then so_has_path s
      else if t = 4 then so_has_max_auth_token_cache_size s
      else if t = 5 then so_has_authority s
      else if t = 6 then so_has_max_filter_ranges s
      else if t = 7 then so_has_implementation s
      else if t = 8 then so_has_max_request_updates s
      else if t = 0x40B54 then so_has_hop_id s
      else so_has_relay_cost s)"

lemma accept_code:
  "fst (accept_setup_option s kvp) =
     (if k_type kvp = 3 then validate_token (k_bytes kvp)
      else if understood (k_type kvp) \<and> so_has s (k_type kvp) then MOQ_ERR_PROTO else MOQ_OK)"
  by (simp add: accept_setup_option_def understood_def so_has_def Let_def)

lemma accept_has:
  "understood t \<Longrightarrow> fst (accept_setup_option s kvp) = MOQ_OK \<Longrightarrow>
   so_has (snd (accept_setup_option s kvp)) t \<longleftrightarrow> so_has s t \<or> t = k_type kvp"
  by (auto simp: accept_setup_option_def understood_def so_has_def Let_def split: if_splits)

text \<open>
  Feeding the options one after the other; the result is the structure, or \<open>None\<close> when one of
  them is refused.
\<close>

fun accept_all :: "moq_d22_setup_options \<Rightarrow> moq_d22_kvp list \<Rightarrow> moq_d22_setup_options option" where
  "accept_all s [] = Some s"
| "accept_all s (kvp # opts) =
     (case accept_setup_option s kvp of (rc, s1) \<Rightarrow>
        if rc \<noteq> MOQ_OK then None else accept_all s1 opts)"

lemma setup_loop_bytes:
  assumes "kvps_encodable previous opts" and "rd_live r" and "rd_rest r = kvps_bytes previous opts"
  shows "(case setup_loop previous s r of Inl e \<Rightarrow> None | Inr s' \<Rightarrow> Some s') = accept_all s (map kvp_canon opts)"
  using assms
proof (induction opts arbitrary: previous s r)
  case Nil
  then have "moq_buf_reader_remaining r = 0"
    using rest_Nil_iff [of r] by (simp add: moq_buf_reader_remaining_def)
  then show ?case by (simp add: setup_loop.simps)
next
  case (Cons kvp opts)
  let ?r1 = "r\<lparr>rd_pos := rd_pos r + length (kvp_bytes previous kvp)\<rparr>"
  have rest: "rd_rest r = kvp_bytes previous kvp @ kvps_bytes (k_type kvp) opts"
    using Cons.prems(3) by simp
  have rd: "moq_d22_decode_kvp previous r = (Inr (kvp_canon kvp), ?r1)"
    using Cons.prems by (intro readsD [OF reads_kvp _ rest]) auto
  have "vi64_enc (k_type kvp - previous) \<noteq> []"
    using vi64.enc_nonempty by simp
  then have "rd_rest r \<noteq> []"
    by (simp add: rest kvp_bytes_def)
  then have ne: "moq_buf_reader_remaining r \<noteq> 0"
    using rest_Nil_iff [of r] Cons.prems(2) by (simp add: moq_buf_reader_remaining_def)
  have ty: "k_type (kvp_canon kvp) = k_type kvp"
    by (simp add: kvp_canon_def)
  show ?case
    using Cons.IH [of "k_type kvp" ?r1] rd_live_advance [OF Cons.prems(2) rest] Cons.prems(1)
    by (auto simp: setup_loop.simps [of previous s r] rd ne ty split: prod.splits)
qed

lemma accept_all_iff:
  "accept_all s opts \<noteq> None \<longleftrightarrow>
   distinct (filter understood (map k_type opts))
   \<and> (\<forall>kvp \<in> set opts. (understood (k_type kvp) \<longrightarrow> \<not> so_has s (k_type kvp))
        \<and> (k_type kvp = 3 \<longrightarrow> validate_token (k_bytes kvp) = MOQ_OK))"
proof (induction opts arbitrary: s)
  case Nil
  then show ?case by simp
next
  case (Cons kvp opts)
  have n3: "\<not> understood 3" by (simp add: understood_def)
  obtain rc s1 where a: "accept_setup_option s kvp = (rc, s1)" by fastforce
  have rc: "rc = (if k_type kvp = 3 then validate_token (k_bytes kvp)
      else if understood (k_type kvp) \<and> so_has s (k_type kvp) then MOQ_ERR_PROTO else MOQ_OK)"
    using accept_code [of s kvp] by (simp add: a)
  have has: "rc = MOQ_OK \<Longrightarrow> understood t \<Longrightarrow> so_has s1 t \<longleftrightarrow> so_has s t \<or> t = k_type kvp" for t
    using accept_has [of t s kvp] by (simp add: a)
  show ?case
  proof (cases "rc = MOQ_OK")
    case True
    then show ?thesis
      using Cons.IH [of s1] has rc n3 by (auto simp: a image_iff split: if_splits)
  next
    case False
    then show ?thesis
      using rc by (auto simp: a split: if_splits)
  qed
qed

lemma canon_same:
  "map k_type (map kvp_canon opts) = map k_type opts"
  by (simp add: kvp_canon_def)

lemma validate_token_canon:
  "plen b = length (elems b) \<Longrightarrow> validate_token (Arr (elems b)) = validate_token b"
  by (cases b) (auto simp: validate_token_def moq_buf_read_vi64_def moq_buf_reader_init_def reader_valid_def)

lemma kvps_encodable_mem: "kvps_encodable p opts \<Longrightarrow> kvp \<in> set opts \<Longrightarrow> \<exists>q. kvp_encodable q kvp"
  by (induction opts arbitrary: p) auto

lemma accept_all_canon:
  assumes "kvps_encodable p opts"
  shows "accept_all s (map kvp_canon opts) \<noteq> None \<longleftrightarrow> accept_all s opts \<noteq> None"
proof -
  have "k_type kvp = 3 \<Longrightarrow> validate_token (k_bytes (kvp_canon kvp)) = validate_token (k_bytes kvp)"
    if "kvp \<in> set opts" for kvp
    using kvps_encodable_mem [OF assms that] validate_token_canon
    by (auto simp: kvp_canon_def kvp_encodable_def)
  moreover have "k_type (kvp_canon kvp) = k_type kvp" for kvp
    by (simp add: kvp_canon_def)
  ultimately show ?thesis
    unfolding accept_all_iff canon_same by auto
qed


section \<open>Messages in their envelope\<close>

definition envelope_bytes :: "u64 \<Rightarrow> u8 list \<Rightarrow> u8 list" where
  "envelope_bytes type payload = vi64_enc type @ uint16_bytes (of_nat (length payload)) @ payload"

lemma unat_of_nat_u16: "n \<le> 65535 \<Longrightarrow> unat (of_nat n :: u16) = n"
  by (simp add: unat_of_nat take_bit_nat_eq_self_iff)

lemma envelope_bytes_ne: "envelope_bytes type payload \<noteq> []"
  using vi64.enc_nonempty [of type] by (simp add: envelope_bytes_def)

lemma reads_envelope:
  assumes "length payload \<le> 65535"
  shows "reads moq_d22_decode_envelope (envelope_bytes type payload)
    \<lparr>ce_msg_type = type, ce_payload_len = of_nat (length payload), ce_payload = Arr payload\<rparr>"
proof (rule reads_cong)
  let ?k = "\<lambda>msg_type payload_len cursor.
           if moq_buf_reader_remaining cursor < unat payload_len then (Inl MOQ_ERR_BUFFER, cursor)
           else (Inr \<lparr>ce_msg_type = msg_type, ce_payload_len = payload_len,
                      ce_payload = ptake (unat payload_len) (moq_buf_reader_ptr cursor)\<rparr>,
                 cursor\<lparr>rd_pos := rd_pos cursor + unat (payload_len :: u16)\<rparr>)"
  have "reads (?k type (of_nat (length payload))) payload
      \<lparr>ce_msg_type = type, ce_payload_len = of_nat (length payload), ce_payload = Arr payload\<rparr>"
    unfolding reads_def
  proof (intro allI impI)
    fix r rest assume live: "rd_live r" and rest: "rd_rest r = payload @ rest"
    have "moq_buf_reader_ptr r = padvance (rd_pos r) (rd_data r)"
      using live by (simp add: moq_buf_reader_ptr_def rd_live_def)
    then show "?k type (of_nat (length payload)) r = (Inr \<lparr>ce_msg_type = type,
        ce_payload_len = of_nat (length payload), ce_payload = Arr payload\<rparr>,
        r\<lparr>rd_pos := rd_pos r + length payload\<rparr>)"
      using rest_take [OF live rest] live
      by (simp add: unat_of_nat_u16 [OF assms] moq_buf_reader_remaining_def rd_live_def)
  qed
  then show "reads (rd_local (rd_then moq_buf_read_vi64 (\<lambda>msg_type. rd_then moq_buf_read_uint16
      (?k msg_type)))) (envelope_bytes type payload)
      \<lparr>ce_msg_type = type, ce_payload_len = of_nat (length payload), ce_payload = Arr payload\<rparr>"
    unfolding envelope_bytes_def
    by (intro reads_local reads_then [OF vi64_reads] reads_then [OF reads_uint16])
qed (simp add: moq_d22_decode_envelope_def)

lemma writes_envelope:
  assumes "writes m True payload" and "length payload = n"
  shows "writes (wr_local (wr_then (moq_buf_write_vi64 type)
    (wr_then (moq_buf_write_uint16 (of_nat n)) m))) True (envelope_bytes type payload)"
  using writes_local [OF writes_then [OF vi64_writes writes_then [OF emits_writes [OF emits_uint16] assms(1)]]]
  by (simp add: envelope_bytes_def assms(2))


definition goaway_bytes :: "moq_d22_goaway \<Rightarrow> u8 list" where
  "goaway_bytes g = vi64_enc (of_nat (plen (ga_uri g))) @ elems (ga_uri g) @ vi64_enc (ga_timeout_ms g)"

lemma encode_goaway_okD:
  assumes "writer_valid w" and "moq_d22_encode_goaway g w = (MOQ_OK, w')"
  shows "plen (ga_uri g) = length (elems (ga_uri g)) \<and> plen (ga_uri g) \<le> 8192
    \<and> length (envelope_bytes MOQ_D22_GOAWAY (goaway_bytes g)) \<le> w_room w
    \<and> w' = w_append (envelope_bytes MOQ_D22_GOAWAY (goaway_bytes g)) w"
proof -
  let ?u = "ga_uri g"
  let ?n = "moq_vi64_len (of_nat (plen ?u)) + plen ?u + moq_vi64_len (ga_timeout_ms g)"
  from assms have wr: "wr_local (wr_then (moq_buf_write_vi64 MOQ_D22_GOAWAY)
      (wr_then (moq_buf_write_uint16 (of_nat ?n)) (wr_then (moq_buf_write_vi64 (of_nat (plen ?u)))
      (wr_then (moq_buf_write_raw ?u) (moq_buf_write_vi64 (ga_timeout_ms g)))))) w = (MOQ_OK, w')"
    and u: "plen ?u \<le> 8192" "\<not> (is_null ?u \<and> plen ?u \<noteq> 0)"
    by (auto simp: moq_d22_encode_goaway_def MOQ_D22_MAX_URI_def Let_def split: if_splits)
  have len: "plen ?u = length (elems ?u)"
    using u(2) by (cases ?u) auto
  have "writes (moq_buf_write_raw ?u) True (elems ?u)"
    using u(2) by (intro emits_writes emits_raw) auto
  then have "writes (wr_then (moq_buf_write_vi64 (of_nat (plen ?u)))
      (wr_then (moq_buf_write_raw ?u) (moq_buf_write_vi64 (ga_timeout_ms g)))) True (goaway_bytes g)"
    using writes_then [OF vi64_writes writes_then [OF _ vi64_writes]] by (simp add: goaway_bytes_def)
  moreover have "length (goaway_bytes g) = ?n"
    by (simp add: goaway_bytes_def len)
  ultimately show ?thesis
    using writesD [OF writes_envelope assms(1)] wr len u(1) by blast
qed

lemma decode_goaway_bytes:
  assumes "plen (ga_uri g) = length (elems (ga_uri g))" and "plen (ga_uri g) \<le> 8192"
  shows "moq_d22_decode_goaway (Arr (goaway_bytes g)) = Inr (g\<lparr>ga_uri := Arr (elems (ga_uri g))\<rparr>)"
proof -
  define u where "u = elems (ga_uri g)"
  define n :: u64 where "n = of_nat (length u)"
  define v where "v = ga_timeout_ms g"
  have n: "unat n = length u" "length u \<le> 8192"
    using assms unat_of_nat_small [of "length u"] by (auto simp: n_def u_def)
  let ?bs = "vi64_enc n @ u @ vi64_enc v"
  let ?r = "\<lambda>k. \<lparr>rd_data = Arr ?bs, rd_pos = k\<rparr>"
  let ?a = "length (vi64_enc n)"
  have bs: "goaway_bytes g = ?bs"
    using assms by (simp add: goaway_bytes_def n_def u_def v_def)
  have live: "rd_live (?r k)" if "k \<le> length ?bs" for k
    using that by (simp add: rd_live_def)
  have r1: "moq_buf_read_vi64 (?r 0) = (Inr n, ?r ?a)"
    using readsD [OF vi64_reads live, of 0 n "u @ vi64_enc v"] by (simp add: rd_rest_def)
  have r2: "moq_buf_read_raw (length u) (?r ?a) = (Inr (Arr u), ?r (?a + length u))"
    using readsD [OF reads_raw live, of ?a u "vi64_enc v"] by (simp add: rd_rest_def del: length_vi64_enc)
  have r3: "moq_buf_read_vi64 (?r (?a + length u)) = (Inr v, ?r (length ?bs))"
    using readsD [OF vi64_reads live, of "?a + length u" v "[]"]
    by (simp add: rd_rest_def add.assoc del: length_vi64_enc)
  have "moq_d22_decode_goaway (Arr ?bs) = Inr \<lparr>ga_uri = Arr u, ga_timeout_ms = v\<rparr>"
    unfolding moq_d22_decode_goaway_def moq_buf_reader_init_def r1 n(1)
    using n(2) by (simp add: r1 r2 r3 n(1) MOQ_D22_MAX_URI_def moq_buf_reader_remaining_def
        del: length_vi64_enc)
  then have "moq_d22_decode_goaway (Arr (goaway_bytes g))
      = Inr \<lparr>ga_uri = Arr (elems (ga_uri g)), ga_timeout_ms = ga_timeout_ms g\<rparr>"
    unfolding bs by (simp only: u_def v_def)
  then show ?thesis by (cases g) simp
qed

section \<open>Properties\<close>

text \<open>A location filter that the encoder accepts decodes to the same filter with the fields its
  discriminator does not select set to zero, and the decoder stops where the encoder stopped.\<close>

theorem location_filter_round_trip:
  assumes "writer_valid w" and "moq_d22_encode_location_filter f w = (MOQ_OK, w')"
  shows "moq_d22_decode_location_filter \<lparr>rd_data = w_data w', rd_pos = w_pos w\<rparr>
    = (Inr (lf_canon f), \<lparr>rd_data = w_data w', rd_pos = w_pos w'\<rparr>)"
proof (rule writes_read_back [OF writes_location_filter reads_location_filter _ assms])
  show "lf_bytes f \<noteq> []"
    using vi64.enc_nonempty [of "lf_type f"] by (simp add: lf_bytes_def)
qed

theorem location_filter_round_trip_witness:
  "moq_d22_decode_location_filter \<lparr>rd_data = Arr [3, 7, 2, 5, 0], rd_pos = 0\<rparr>
   = (Inr \<lparr>lf_type = 3, lf_start_group = 7, lf_start_object = 2, lf_end_group_delta = 5,
          lf_end_object = 0\<rparr>, \<lparr>rd_data = Arr [3, 7, 2, 5, 0], rd_pos = 4\<rparr>)"
proof -
  let ?f = "\<lparr>lf_type = 3, lf_start_group = 7, lf_start_object = 2, lf_end_group_delta = 5,
     lf_end_object = 9\<rparr>"
  let ?w = "\<lparr>w_data = Arr [0, 0, 0, 0, 0], w_pos = 0\<rparr>"
  have "writer_valid ?w" by code_simp
  moreover have "moq_d22_encode_location_filter ?f ?w
      = (MOQ_OK, \<lparr>w_data = Arr [3, 7, 2, 5, 0], w_pos = 4\<rparr>)" by code_simp
  ultimately show ?thesis
    using location_filter_round_trip [of ?w ?f] by (simp add: lf_canon_def)
qed

text \<open>The start group of a relative filter is \<open>group + 1 - offset\<close> over the integers, clamped to
  the range of a 64-bit group number.\<close>

theorem relative_start_group_clamp:
  "int (unat (moq_d22_relative_start_group grp offset))
   = max 0 (min (2 ^ 64 - 1) (int (unat grp) + 1 - int (unat offset)))"
proof (cases "offset = 0")
  case True
  show ?thesis
  proof (cases "grp = UINT64_MAX")
    case True
    with \<open>offset = 0\<close> show ?thesis by (simp add: moq_d22_relative_start_group_def)
  next
    case False
    then have "unat grp \<noteq> unat UINT64_MAX" unfolding word_unat_eq_iff .
    then have "unat grp < 18446744073709551615" using unat64_le [of grp] by simp
    then have "unat (grp + 1) = unat grp + 1" by (simp add: unat_plus_if')
    moreover have "int (unat grp) + 1 \<le> 18446744073709551615"
      using \<open>unat grp < _\<close> by linarith
    ultimately show ?thesis
      using \<open>offset = 0\<close> False by (simp add: moq_d22_relative_start_group_def)
  qed
next
  case False
  then have pos: "unat offset \<noteq> 0" by (simp add: unat_eq_zero)
  have minus: "unat (offset - 1) = unat offset - 1"
    by (rule unat_minus_one [OF False])
  show ?thesis
  proof (cases "grp < offset - 1")
    case True
    then have "unat grp < unat offset - 1" by (simp add: word_less_nat_alt minus)
    then have "int (unat grp) + 1 - int (unat offset) \<le> 0" by linarith
    with True False show ?thesis by (simp add: moq_d22_relative_start_group_def)
  next
    case nl: False
    then have "offset - 1 \<le> grp" by simp
    then have "unat (grp - (offset - 1)) = unat grp - (unat offset - 1)"
      and "unat offset - 1 \<le> unat grp"
      by (simp_all add: unat_sub minus word_le_nat_alt)
    then have "int (unat (grp - (offset - 1))) = int (unat grp) + 1 - int (unat offset)"
      and "0 \<le> int (unat grp) + 1 - int (unat offset)"
      and "int (unat grp) + 1 - int (unat offset) \<le> 18446744073709551615"
      using pos unat64_le [of grp] by linarith+
    with nl False show ?thesis
      by (simp add: moq_d22_relative_start_group_def)
  qed
qed



text \<open>C16: a well-formed option list decodes exactly when no understood option is repeated and every
  authorization token is well formed; unknown options are ignored and tokens may repeat.\<close>

theorem setup_options_accepted_iff:
  assumes "kvps_encodable 0 opts" and "length (kvps_bytes 0 opts) \<le> 65535"
  shows "(\<exists>s. moq_d22_decode_setup_options (Arr (kvps_bytes 0 opts)) = Inr s) \<longleftrightarrow>
    distinct (filter understood (map k_type opts))
    \<and> (\<forall>kvp \<in> set opts. k_type kvp = 3 \<longrightarrow> validate_token (k_bytes kvp) = MOQ_OK)"
proof -
  let ?p = "kvps_bytes 0 opts"
  have "(\<exists>s. moq_d22_decode_setup_options (Arr ?p) = Inr s) \<longleftrightarrow>
      accept_all setup_options_zero (map kvp_canon opts) \<noteq> None"
    using assms setup_loop_bytes [of 0 opts "moq_buf_reader_init (Arr ?p)" setup_options_zero, symmetric]
    by (auto simp: moq_d22_decode_setup_options_def moq_buf_reader_init_def rd_live_def rd_rest_def
        split: sum.splits)
  also have "\<dots> \<longleftrightarrow> accept_all setup_options_zero opts \<noteq> None"
    by (rule accept_all_canon [OF assms(1)])
  also have "\<dots> \<longleftrightarrow> distinct (filter understood (map k_type opts))
      \<and> (\<forall>kvp \<in> set opts. k_type kvp = 3 \<longrightarrow> validate_token (k_bytes kvp) = MOQ_OK)"
    unfolding accept_all_iff by (auto simp: so_has_def setup_options_zero_def)
  finally show ?thesis .
qed

theorem setup_options_accepted_iff_witness:
  "\<not> (\<exists>s. moq_d22_decode_setup_options (Arr (kvps_bytes 0
     [\<lparr>k_type = 4, k_integer = 1, k_bytes = Null 0\<rparr>, \<lparr>k_type = 4, k_integer = 1, k_bytes = Null 0\<rparr>])) = Inr s)"
proof -
  let ?o = "[\<lparr>k_type = 4, k_integer = 1, k_bytes = Null 0\<rparr>, \<lparr>k_type = 4, k_integer = 1, k_bytes = Null 0\<rparr>]"
  have "kvps_encodable 0 ?o" by (simp add: kvp_encodable_def)
  moreover have "length (kvps_bytes 0 ?o) \<le> 65535"
    by (simp add: kvp_bytes_def moq_vi64_len_def)
  ultimately show ?thesis
    using setup_options_accepted_iff [of ?o] by (simp add: understood_def)
qed

text \<open>What \<open>moq_d22_encode_goaway\<close> writes is one GOAWAY message whose payload decodes to the same
  URI and timeout.\<close>

theorem goaway_round_trip:
  assumes "writer_valid w" and "moq_d22_encode_goaway g w = (MOQ_OK, w')"
  shows "\<exists>payload.
    moq_d22_decode_envelope \<lparr>rd_data = w_data w', rd_pos = w_pos w\<rparr>
      = (Inr \<lparr>ce_msg_type = MOQ_D22_GOAWAY, ce_payload_len = of_nat (length payload),
              ce_payload = Arr payload\<rparr>, \<lparr>rd_data = w_data w', rd_pos = w_pos w'\<rparr>)
    \<and> moq_d22_decode_goaway (Arr payload) = Inr (g\<lparr>ga_uri := Arr (elems (ga_uri g))\<rparr>)"
proof (intro exI conjI)
  note ok = encode_goaway_okD [OF assms]
  have "moq_vi64_len (of_nat (plen (ga_uri g))) \<le> 9" "moq_vi64_len (ga_timeout_ms g) \<le> 9"
    using moq_vi64_len_bounds by blast+
  with ok have "length (goaway_bytes g) \<le> 65535"
    by (simp add: goaway_bytes_def)
  with ok show "moq_d22_decode_envelope \<lparr>rd_data = w_data w', rd_pos = w_pos w\<rparr>
      = (Inr \<lparr>ce_msg_type = MOQ_D22_GOAWAY, ce_payload_len = of_nat (length (goaway_bytes g)),
              ce_payload = Arr (goaway_bytes g)\<rparr>, \<lparr>rd_data = w_data w', rd_pos = w_pos w'\<rparr>)"
    using reads_written [OF reads_envelope assms(1) _ envelope_bytes_ne] by simp
  show "moq_d22_decode_goaway (Arr (goaway_bytes g)) = Inr (g\<lparr>ga_uri := Arr (elems (ga_uri g))\<rparr>)"
    using ok by (intro decode_goaway_bytes) auto
qed

theorem goaway_round_trip_witness:
  "\<exists>payload. moq_d22_decode_goaway (Arr payload) = Inr \<lparr>ga_uri = Arr [104, 116], ga_timeout_ms = 30\<rparr>"
proof -
  let ?g = "\<lparr>ga_uri = Arr [104, 116], ga_timeout_ms = 30\<rparr>"
  let ?w = "\<lparr>w_data = Arr (replicate 8 0), w_pos = 0\<rparr>"
  have "writer_valid ?w" by code_simp
  moreover have "moq_d22_encode_goaway ?g ?w
      = (MOQ_OK, \<lparr>w_data = Arr [0x10, 0, 4, 2, 104, 116, 30, 0], w_pos = 7\<rparr>)"
    by code_simp
  ultimately show ?thesis
    using goaway_round_trip [of ?w ?g] by auto
qed

end
