(* ===== verification/RequestLifetime.thy ===== *)
theory RequestLifetime
  imports Prelude
begin

text \<open>
  The request-stream lifetime machine of \<open>core/src/session/request_lifetime.c\<close>: one value per
  request, a pure check for every transition and a commit that repeats the check. The runs of the
  machine are the reachable states of the relation \<open>rl_reach\<close>.
\<close>

section \<open>State\<close>

text \<open>The enumeration of \<open>moq/session.h\<close>; \<open>NO_FAMILY\<close> is any value outside it, such as a zeroed field.\<close>

datatype moq_request_family =
    NO_FAMILY
  | MOQ_REQUEST_FAMILY_SUBSCRIBE | MOQ_REQUEST_FAMILY_FETCH | MOQ_REQUEST_FAMILY_TRACK_STATUS
  | MOQ_REQUEST_FAMILY_ANNOUNCEMENT | MOQ_REQUEST_FAMILY_NS_SUB | MOQ_REQUEST_FAMILY_PUBLISH
  | MOQ_REQUEST_FAMILY_SUBSCRIBE_TRACKS

datatype moq_request_initial_response =
    MOQ_REQUEST_RESPONSE_PENDING | MOQ_REQUEST_RESPONSE_ACCEPTED | MOQ_REQUEST_RESPONSE_REJECTED

record moq_request_lifetime =
  rl_family :: moq_request_family
  rl_local_requester :: bool
  rl_response :: moq_request_initial_response
  rl_local_fin :: bool
  rl_peer_fin :: bool
  rl_local_reset :: bool
  rl_peer_reset :: bool
  rl_local_stop :: bool
  rl_peer_stop :: bool
  rl_cancelled :: bool
  rl_peer_fin_failed :: bool
  rl_publisher_done :: bool
  rl_incoming_update :: bool
  rl_outgoing_update :: bool
  rl_update_failed :: bool

definition family_valid :: "moq_request_family \<Rightarrow> bool" where
  "family_valid family \<longleftrightarrow> family \<noteq> NO_FAMILY"

definition rl_valid :: "moq_request_lifetime \<Rightarrow> bool" where
  "rl_valid s \<longleftrightarrow> family_valid (rl_family s)"

definition subscription :: "moq_request_lifetime \<Rightarrow> bool" where
  "subscription s \<longleftrightarrow>
     rl_family s = MOQ_REQUEST_FAMILY_SUBSCRIBE \<or> rl_family s = MOQ_REQUEST_FAMILY_PUBLISH"

definition local_publisher :: "moq_request_lifetime \<Rightarrow> bool" where
  "local_publisher s \<longleftrightarrow>
     (rl_family s = MOQ_REQUEST_FAMILY_SUBSCRIBE \<and> \<not> rl_local_requester s)
     \<or> (rl_family s = MOQ_REQUEST_FAMILY_PUBLISH \<and> rl_local_requester s)"

definition unexpected :: "bool \<Rightarrow> moq_result" where
  "unexpected outgoing = (if outgoing then MOQ_ERR_WRONG_STATE else MOQ_ERR_PROTO)"

definition direction_closed :: "moq_request_lifetime \<Rightarrow> bool \<Rightarrow> bool" where
  "direction_closed s outgoing =
     (if outgoing then rl_local_fin s \<or> rl_local_reset s else rl_peer_fin s \<or> rl_peer_reset s)"

definition failed :: "moq_request_lifetime \<Rightarrow> bool" where
  "failed s \<longleftrightarrow> rl_cancelled s \<or> rl_peer_fin_failed s"

definition rl_zero :: moq_request_lifetime where
  "rl_zero = \<lparr>rl_family = NO_FAMILY, rl_local_requester = False,
     rl_response = MOQ_REQUEST_RESPONSE_PENDING, rl_local_fin = False, rl_peer_fin = False,
     rl_local_reset = False, rl_peer_reset = False, rl_local_stop = False, rl_peer_stop = False,
     rl_cancelled = False, rl_peer_fin_failed = False, rl_publisher_done = False,
     rl_incoming_update = False, rl_outgoing_update = False, rl_update_failed = False\<rparr>"

definition moq_request_lifetime_init ::
  "moq_request_family \<Rightarrow> bool \<Rightarrow> moq_request_lifetime \<Rightarrow> moq_result \<times> moq_request_lifetime" where
  "moq_request_lifetime_init family local_requester s =
     (if \<not> family_valid family then (MOQ_ERR_INVAL, s)
      else (MOQ_OK, rl_zero\<lparr>rl_family := family, rl_local_requester := local_requester\<rparr>))"

section \<open>Checks and commits\<close>

definition moq_request_lifetime_check_initial_response :: "moq_request_lifetime \<Rightarrow> bool \<Rightarrow> moq_result" where
  "moq_request_lifetime_check_initial_response s outgoing =
     (if \<not> rl_valid s then MOQ_ERR_INVAL
      else if outgoing = rl_local_requester s \<or> failed s
              \<or> rl_response s \<noteq> MOQ_REQUEST_RESPONSE_PENDING \<or> direction_closed s outgoing
      then unexpected outgoing
      else MOQ_OK)"

definition moq_request_lifetime_initial_response_committed ::
  "bool \<Rightarrow> bool \<Rightarrow> moq_request_lifetime \<Rightarrow> moq_result \<times> moq_request_lifetime" where
  "moq_request_lifetime_initial_response_committed outgoing accepted s =
     (let rc = moq_request_lifetime_check_initial_response s outgoing in
      if rc \<noteq> MOQ_OK then (rc, s)
      else (MOQ_OK, s\<lparr>rl_response :=
        if accepted then MOQ_REQUEST_RESPONSE_ACCEPTED else MOQ_REQUEST_RESPONSE_REJECTED\<rparr>))"

definition moq_request_lifetime_check_fin :: "moq_request_lifetime \<Rightarrow> moq_result" where
  "moq_request_lifetime_check_fin s =
     (if \<not> rl_valid s then MOQ_ERR_INVAL
      else if rl_local_fin s then MOQ_OK
      else if rl_local_reset s \<or> failed s \<or> rl_incoming_update s then MOQ_ERR_WRONG_STATE
      else if rl_response s = MOQ_REQUEST_RESPONSE_PENDING
              \<and> (\<not> rl_local_requester s
                 \<or> (rl_family s = MOQ_REQUEST_FAMILY_PUBLISH \<and> \<not> rl_publisher_done s))
      then MOQ_ERR_WRONG_STATE
      else if rl_response s = MOQ_REQUEST_RESPONSE_ACCEPTED \<and> local_publisher s
              \<and> \<not> rl_publisher_done s
      then MOQ_ERR_WRONG_STATE
      else MOQ_OK)"

definition moq_request_lifetime_fin_committed ::
  "moq_request_lifetime \<Rightarrow> moq_result \<times> moq_request_lifetime" where
  "moq_request_lifetime_fin_committed s =
     (let rc = moq_request_lifetime_check_fin s in
      if rc \<noteq> MOQ_OK then (rc, s) else (MOQ_OK, s\<lparr>rl_local_fin := True\<rparr>))"

definition peer_fin_missing :: "moq_request_lifetime \<Rightarrow> bool" where
  "peer_fin_missing s \<longleftrightarrow> \<not> rl_cancelled s \<and>
     ((rl_local_requester s \<and> rl_response s = MOQ_REQUEST_RESPONSE_PENDING)
      \<or> rl_outgoing_update s
      \<or> (subscription s \<and> \<not> local_publisher s \<and> \<not> rl_publisher_done s
         \<and> (rl_response s = MOQ_REQUEST_RESPONSE_ACCEPTED
            \<or> (rl_family s = MOQ_REQUEST_FAMILY_PUBLISH
               \<and> rl_response s = MOQ_REQUEST_RESPONSE_PENDING))))"

definition moq_request_lifetime_peer_fin ::
  "moq_request_lifetime \<Rightarrow> moq_result \<times> moq_request_lifetime" where
  "moq_request_lifetime_peer_fin s =
     (if \<not> rl_valid s then (MOQ_ERR_INVAL, s)
      else if rl_peer_fin s
      then (if rl_peer_fin_failed s then MOQ_REQUEST_LIFETIME_FAILED else MOQ_OK, s)
      else let missing = peer_fin_missing s in
        (if missing then MOQ_REQUEST_LIFETIME_FAILED else MOQ_OK,
         s\<lparr>rl_peer_fin := True, rl_peer_fin_failed := missing\<rparr>))"

text \<open>The bits \<open>MOQ_REQUEST_CANCEL_RESET_LOCAL\<close> (1) and \<open>MOQ_REQUEST_CANCEL_STOP_PEER\<close> (2).\<close>

definition moq_request_lifetime_cancel_actions :: "moq_request_lifetime \<Rightarrow> nat" where
  "moq_request_lifetime_cancel_actions s =
     (if \<not> rl_valid s then 0
      else (if \<not> rl_local_fin s \<and> \<not> rl_local_reset s then 1 else 0)
         + (if \<not> rl_peer_fin s \<and> \<not> rl_peer_reset s \<and> \<not> rl_local_stop s then 2 else 0))"

definition moq_request_lifetime_reset_committed ::
  "moq_request_lifetime \<Rightarrow> moq_result \<times> moq_request_lifetime" where
  "moq_request_lifetime_reset_committed s =
     (if \<not> rl_valid s then (MOQ_ERR_INVAL, s)
      else if rl_local_reset s then (MOQ_OK, s)
      else if rl_local_fin s then (MOQ_ERR_WRONG_STATE, s)
      else (MOQ_OK, s\<lparr>rl_local_reset := True, rl_cancelled := True\<rparr>))"

definition moq_request_lifetime_stop_committed ::
  "moq_request_lifetime \<Rightarrow> moq_result \<times> moq_request_lifetime" where
  "moq_request_lifetime_stop_committed s =
     (if \<not> rl_valid s then (MOQ_ERR_INVAL, s)
      else if rl_local_stop s then (MOQ_OK, s)
      else if rl_peer_fin s \<or> rl_peer_reset s then (MOQ_ERR_WRONG_STATE, s)
      else (MOQ_OK, s\<lparr>rl_local_stop := True, rl_cancelled := True\<rparr>))"

definition moq_request_lifetime_peer_reset ::
  "moq_request_lifetime \<Rightarrow> moq_result \<times> moq_request_lifetime" where
  "moq_request_lifetime_peer_reset s =
     (if \<not> rl_valid s then (MOQ_ERR_INVAL, s)
      else (MOQ_OK, s\<lparr>rl_peer_reset := True, rl_cancelled := True\<rparr>))"

definition moq_request_lifetime_peer_stop ::
  "moq_request_lifetime \<Rightarrow> moq_result \<times> moq_request_lifetime" where
  "moq_request_lifetime_peer_stop s =
     (if \<not> rl_valid s then (MOQ_ERR_INVAL, s)
      else (MOQ_OK, s\<lparr>rl_peer_stop := True, rl_cancelled := True\<rparr>))"

definition moq_request_lifetime_check_update :: "moq_request_lifetime \<Rightarrow> bool \<Rightarrow> moq_result" where
  "moq_request_lifetime_check_update s outgoing =
     (if \<not> rl_valid s then MOQ_ERR_INVAL
      else let sender_requester = (if outgoing then rl_local_requester s else \<not> rl_local_requester s) in
        if rl_family s = MOQ_REQUEST_FAMILY_TRACK_STATUS
           \<or> (\<not> sender_requester \<and> rl_family s \<noteq> MOQ_REQUEST_FAMILY_PUBLISH)
           \<or> rl_response s = MOQ_REQUEST_RESPONSE_REJECTED \<or> failed s \<or> rl_update_failed s
           \<or> rl_local_reset s \<or> direction_closed s False
           \<or> (rl_publisher_done s \<and> \<not> local_publisher s)
        then unexpected outgoing
        else if \<not> outgoing \<and> rl_incoming_update s then MOQ_REQUEST_LIFETIME_UPDATE_LIMIT
        else if rl_local_fin s \<or> (rl_publisher_done s \<and> local_publisher s)
        then (if outgoing then MOQ_ERR_WRONG_STATE else MOQ_REQUEST_LIFETIME_TERMINAL_CROSSING)
        else if rl_response s = MOQ_REQUEST_RESPONSE_PENDING
        then (if outgoing then MOQ_ERR_WRONG_STATE else MOQ_ERR_WOULD_BLOCK)
        else if outgoing \<and> rl_outgoing_update s then MOQ_ERR_WOULD_BLOCK
        else MOQ_OK)"

definition moq_request_lifetime_update_committed ::
  "bool \<Rightarrow> moq_request_lifetime \<Rightarrow> moq_result \<times> moq_request_lifetime" where
  "moq_request_lifetime_update_committed outgoing s =
     (let rc = moq_request_lifetime_check_update s outgoing in
      if rc \<noteq> MOQ_OK then (rc, s)
      else if outgoing then (MOQ_OK, s\<lparr>rl_outgoing_update := True\<rparr>)
      else (MOQ_OK, s\<lparr>rl_incoming_update := True\<rparr>))"

definition moq_request_lifetime_check_update_response :: "moq_request_lifetime \<Rightarrow> bool \<Rightarrow> moq_result" where
  "moq_request_lifetime_check_update_response s outgoing =
     (if \<not> rl_valid s then MOQ_ERR_INVAL
      else let pending = (if outgoing then rl_incoming_update s else rl_outgoing_update s) in
        if \<not> pending \<or> failed s \<or> rl_response s \<noteq> MOQ_REQUEST_RESPONSE_ACCEPTED
           \<or> direction_closed s outgoing \<or> (rl_publisher_done s \<and> local_publisher s = outgoing)
        then unexpected outgoing
        else MOQ_OK)"

definition moq_request_lifetime_update_response_committed ::
  "bool \<Rightarrow> bool \<Rightarrow> moq_request_lifetime \<Rightarrow> moq_result \<times> moq_request_lifetime" where
  "moq_request_lifetime_update_response_committed outgoing accepted s =
     (let rc = moq_request_lifetime_check_update_response s outgoing in
      if rc \<noteq> MOQ_OK then (rc, s)
      else let s1 = (if outgoing then s\<lparr>rl_incoming_update := False\<rparr>
                     else s\<lparr>rl_outgoing_update := False\<rparr>) in
        (MOQ_OK, if \<not> accepted then s1\<lparr>rl_update_failed := True\<rparr> else s1))"

definition moq_request_lifetime_check_done :: "moq_request_lifetime \<Rightarrow> bool \<Rightarrow> bool \<Rightarrow> moq_result" where
  "moq_request_lifetime_check_done s outgoing data_obligations_clear =
     (if \<not> rl_valid s then MOQ_ERR_INVAL
      else let pending_publish = rl_family s = MOQ_REQUEST_FAMILY_PUBLISH
                 \<and> rl_response s = MOQ_REQUEST_RESPONSE_PENDING;
               crossed_rejection = \<not> outgoing \<and> rl_family s = MOQ_REQUEST_FAMILY_PUBLISH
                 \<and> rl_response s = MOQ_REQUEST_RESPONSE_REJECTED in
        if \<not> subscription s \<or> local_publisher s \<noteq> outgoing \<or> failed s
           \<or> (rl_response s \<noteq> MOQ_REQUEST_RESPONSE_ACCEPTED \<and> \<not> pending_publish \<and> \<not> crossed_rejection)
           \<or> rl_publisher_done s \<or> direction_closed s outgoing
           \<or> (outgoing \<and> rl_incoming_update s)
        then unexpected outgoing
        else if outgoing \<and> \<not> data_obligations_clear then MOQ_ERR_WOULD_BLOCK
        else MOQ_OK)"

definition moq_request_lifetime_done_committed ::
  "bool \<Rightarrow> bool \<Rightarrow> moq_request_lifetime \<Rightarrow> moq_result \<times> moq_request_lifetime" where
  "moq_request_lifetime_done_committed outgoing data_obligations_clear s =
     (let rc = moq_request_lifetime_check_done s outgoing data_obligations_clear in
      if rc \<noteq> MOQ_OK then (rc, s) else (MOQ_OK, s\<lparr>rl_publisher_done := True\<rparr>))"

definition moq_request_lifetime_check_notify :: "moq_request_lifetime \<Rightarrow> bool \<Rightarrow> moq_result" where
  "moq_request_lifetime_check_notify s outgoing =
     (if \<not> rl_valid s then MOQ_ERR_INVAL
      else if \<not> subscription s \<or> local_publisher s \<noteq> outgoing \<or> failed s
              \<or> rl_response s = MOQ_REQUEST_RESPONSE_REJECTED \<or> rl_publisher_done s
              \<or> direction_closed s outgoing
      then unexpected outgoing
      else if rl_response s = MOQ_REQUEST_RESPONSE_PENDING
      then (if outgoing then MOQ_ERR_WRONG_STATE else MOQ_ERR_WOULD_BLOCK)
      else MOQ_OK)"

section \<open>Runs\<close>

text \<open>The calls that change a value, with their arguments.\<close>

datatype rl_op =
    InitialResponse bool bool | Fin | PeerFin | Reset | Stop | PeerReset | PeerStop
  | Update bool | UpdateResponse bool bool | Done bool bool

fun rl_apply :: "rl_op \<Rightarrow> moq_request_lifetime \<Rightarrow> moq_result \<times> moq_request_lifetime" where
  "rl_apply (InitialResponse outgoing accepted) s =
     moq_request_lifetime_initial_response_committed outgoing accepted s"
| "rl_apply Fin s = moq_request_lifetime_fin_committed s"
| "rl_apply PeerFin s = moq_request_lifetime_peer_fin s"
| "rl_apply Reset s = moq_request_lifetime_reset_committed s"
| "rl_apply Stop s = moq_request_lifetime_stop_committed s"
| "rl_apply PeerReset s = moq_request_lifetime_peer_reset s"
| "rl_apply PeerStop s = moq_request_lifetime_peer_stop s"
| "rl_apply (Update outgoing) s = moq_request_lifetime_update_committed outgoing s"
| "rl_apply (UpdateResponse outgoing accepted) s =
     moq_request_lifetime_update_response_committed outgoing accepted s"
| "rl_apply (Done outgoing clear) s = moq_request_lifetime_done_committed outgoing clear s"

inductive rl_step :: "moq_request_lifetime \<Rightarrow> rl_op \<Rightarrow> moq_request_lifetime \<Rightarrow> bool" where
  step: "rl_apply op s = (rc, s') \<Longrightarrow> rl_step s op s'"

inductive rl_reach :: "moq_request_lifetime \<Rightarrow> bool" where
  init: "moq_request_lifetime_init family local_requester s0 = (MOQ_OK, s) \<Longrightarrow> rl_reach s"
| step: "rl_reach s \<Longrightarrow> rl_step s op s' \<Longrightarrow> rl_reach s'"

inductive_cases rl_stepE: "rl_step s op s'"

inductive_simps rl_step_simp: "rl_step s op s'"

lemmas rl_defs =
  moq_request_lifetime_initial_response_committed_def moq_request_lifetime_fin_committed_def
  moq_request_lifetime_peer_fin_def moq_request_lifetime_reset_committed_def
  moq_request_lifetime_stop_committed_def moq_request_lifetime_peer_reset_def
  moq_request_lifetime_peer_stop_def moq_request_lifetime_update_committed_def
  moq_request_lifetime_update_response_committed_def moq_request_lifetime_done_committed_def

text \<open>The consistency of the recorded facts.\<close>

definition rl_inv :: "moq_request_lifetime \<Rightarrow> bool" where
  "rl_inv s \<longleftrightarrow>
     rl_valid s
     \<and> \<not> (rl_local_fin s \<and> rl_local_reset s)
     \<and> (rl_local_reset s \<or> rl_local_stop s \<or> rl_peer_reset s \<or> rl_peer_stop s \<longrightarrow> rl_cancelled s)
     \<and> (rl_cancelled s \<longrightarrow> rl_local_reset s \<or> rl_local_stop s \<or> rl_peer_reset s \<or> rl_peer_stop s)
     \<and> (rl_peer_fin_failed s \<longrightarrow> rl_peer_fin s)
     \<and> (rl_incoming_update s \<or> rl_outgoing_update s \<or> rl_update_failed s \<longrightarrow>
          rl_response s = MOQ_REQUEST_RESPONSE_ACCEPTED
          \<and> rl_family s \<noteq> MOQ_REQUEST_FAMILY_TRACK_STATUS)
     \<and> (rl_publisher_done s \<longrightarrow> subscription s)"

text \<open>What the local endpoint owed before it ended its direction has been sent.\<close>

definition rl_fin_settled :: "moq_request_lifetime \<Rightarrow> bool" where
  "rl_fin_settled s \<longleftrightarrow>
     (rl_local_fin s \<longrightarrow>
        \<not> rl_incoming_update s
        \<and> (\<not> rl_local_requester s \<longrightarrow> rl_response s \<noteq> MOQ_REQUEST_RESPONSE_PENDING)
        \<and> (local_publisher s \<and> rl_response s \<noteq> MOQ_REQUEST_RESPONSE_REJECTED \<longrightarrow> rl_publisher_done s))"

lemma rl_init_inv:
  "moq_request_lifetime_init family lr s0 = (MOQ_OK, s) \<Longrightarrow> rl_inv s \<and> rl_fin_settled s"
  by (auto simp: moq_request_lifetime_init_def rl_inv_def rl_fin_settled_def rl_zero_def rl_valid_def
      split: if_splits)

text \<open>What each check lets through.\<close>

lemma check_initial_response_ok:
  "moq_request_lifetime_check_initial_response s o' = MOQ_OK \<longleftrightarrow>
   rl_valid s \<and> o' \<noteq> rl_local_requester s \<and> \<not> failed s
   \<and> rl_response s = MOQ_REQUEST_RESPONSE_PENDING \<and> \<not> direction_closed s o'"
  by (auto simp: moq_request_lifetime_check_initial_response_def unexpected_def)

lemma check_update_ok:
  "moq_request_lifetime_check_update s o' = MOQ_OK \<longleftrightarrow>
   rl_valid s \<and> rl_family s \<noteq> MOQ_REQUEST_FAMILY_TRACK_STATUS
   \<and> (o' = rl_local_requester s \<or> rl_family s = MOQ_REQUEST_FAMILY_PUBLISH)
   \<and> rl_response s = MOQ_REQUEST_RESPONSE_ACCEPTED \<and> \<not> failed s \<and> \<not> rl_update_failed s
   \<and> \<not> rl_local_reset s \<and> \<not> direction_closed s False \<and> \<not> rl_publisher_done s \<and> \<not> rl_local_fin s
   \<and> \<not> (if o' then rl_outgoing_update s else rl_incoming_update s)"
  by (cases "rl_response s")
    (auto simp: moq_request_lifetime_check_update_def unexpected_def Let_def)

lemma check_update_response_ok:
  "moq_request_lifetime_check_update_response s o' = MOQ_OK \<longleftrightarrow>
   rl_valid s \<and> (if o' then rl_incoming_update s else rl_outgoing_update s) \<and> \<not> failed s
   \<and> rl_response s = MOQ_REQUEST_RESPONSE_ACCEPTED \<and> \<not> direction_closed s o'
   \<and> \<not> (rl_publisher_done s \<and> local_publisher s = o')"
  by (auto simp: moq_request_lifetime_check_update_response_def unexpected_def Let_def)

lemma check_done_ok:
  "moq_request_lifetime_check_done s o' clear = MOQ_OK \<Longrightarrow>
   rl_valid s \<and> subscription s \<and> local_publisher s = o' \<and> \<not> failed s \<and> \<not> rl_publisher_done s
   \<and> \<not> direction_closed s o' \<and> \<not> (o' \<and> rl_incoming_update s) \<and> (o' \<longrightarrow> clear)"
  by (auto simp: moq_request_lifetime_check_done_def unexpected_def Let_def split: if_splits)

lemma check_fin_ok:
  "moq_request_lifetime_check_fin s = MOQ_OK \<longleftrightarrow>
   rl_valid s \<and> (rl_local_fin s \<or>
     (\<not> rl_local_reset s \<and> \<not> failed s \<and> \<not> rl_incoming_update s
      \<and> \<not> (rl_response s = MOQ_REQUEST_RESPONSE_PENDING
           \<and> (\<not> rl_local_requester s
              \<or> (rl_family s = MOQ_REQUEST_FAMILY_PUBLISH \<and> \<not> rl_publisher_done s)))
      \<and> \<not> (rl_response s = MOQ_REQUEST_RESPONSE_ACCEPTED \<and> local_publisher s
           \<and> \<not> rl_publisher_done s)))"
  by (auto simp: moq_request_lifetime_check_fin_def)

text \<open>A call changes nothing, or its check passed and it records one thing.\<close>

fun rl_effect :: "rl_op \<Rightarrow> moq_request_lifetime \<Rightarrow> moq_request_lifetime \<Rightarrow> bool" where
  "rl_effect (InitialResponse o' a) s s' \<longleftrightarrow>
     moq_request_lifetime_check_initial_response s o' = MOQ_OK
     \<and> s' = s\<lparr>rl_response :=
         if a then MOQ_REQUEST_RESPONSE_ACCEPTED else MOQ_REQUEST_RESPONSE_REJECTED\<rparr>"
| "rl_effect Fin s s' \<longleftrightarrow>
     moq_request_lifetime_check_fin s = MOQ_OK \<and> s' = s\<lparr>rl_local_fin := True\<rparr>"
| "rl_effect PeerFin s s' \<longleftrightarrow>
     \<not> rl_peer_fin s \<and> s' = s\<lparr>rl_peer_fin := True, rl_peer_fin_failed := peer_fin_missing s\<rparr>"
| "rl_effect Reset s s' \<longleftrightarrow>
     \<not> rl_local_fin s \<and> s' = s\<lparr>rl_local_reset := True, rl_cancelled := True\<rparr>"
| "rl_effect Stop s s' \<longleftrightarrow> s' = s\<lparr>rl_local_stop := True, rl_cancelled := True\<rparr>"
| "rl_effect PeerReset s s' \<longleftrightarrow> s' = s\<lparr>rl_peer_reset := True, rl_cancelled := True\<rparr>"
| "rl_effect PeerStop s s' \<longleftrightarrow> s' = s\<lparr>rl_peer_stop := True, rl_cancelled := True\<rparr>"
| "rl_effect (Update o') s s' \<longleftrightarrow>
     moq_request_lifetime_check_update s o' = MOQ_OK
     \<and> s' = (if o' then s\<lparr>rl_outgoing_update := True\<rparr> else s\<lparr>rl_incoming_update := True\<rparr>)"
| "rl_effect (UpdateResponse o' a) s s' \<longleftrightarrow>
     moq_request_lifetime_check_update_response s o' = MOQ_OK
     \<and> s' = (let s1 = (if o' then s\<lparr>rl_incoming_update := False\<rparr> else s\<lparr>rl_outgoing_update := False\<rparr>)
             in if \<not> a then s1\<lparr>rl_update_failed := True\<rparr> else s1)"
| "rl_effect (Done o' c) s s' \<longleftrightarrow>
     moq_request_lifetime_check_done s o' c = MOQ_OK \<and> s' = s\<lparr>rl_publisher_done := True\<rparr>"

lemma rl_step_effect: "rl_step s op s' \<Longrightarrow> s' = s \<or> rl_effect op s s'"
  by (cases op) (auto simp: rl_step_simp rl_defs Let_def split: if_splits)

lemmas rl_ok = check_initial_response_ok check_update_ok check_update_response_ok check_fin_ok

lemma rl_effect_inv: "rl_effect op s s' \<Longrightarrow> rl_inv s \<Longrightarrow> rl_inv s'"
  by (cases op)
    (simp_all add: rl_inv_def rl_ok rl_valid_def subscription_def Let_def failed_def split: if_splits,
     blast, metis check_done_ok subscription_def)

lemma rl_effect_fin: "rl_effect op s s' \<Longrightarrow> rl_inv s \<Longrightarrow> rl_fin_settled s \<Longrightarrow> rl_fin_settled s'"
  by (cases op; cases "rl_response s")
    (auto simp: rl_fin_settled_def rl_inv_def rl_ok local_publisher_def subscription_def
        failed_def direction_closed_def Let_def dest!: check_done_ok)

lemma rl_step_inv: "rl_step s op s' \<Longrightarrow> rl_inv s \<Longrightarrow> rl_inv s'"
  using rl_step_effect rl_effect_inv by blast

lemma rl_step_fin: "rl_step s op s' \<Longrightarrow> rl_inv s \<Longrightarrow> rl_fin_settled s \<Longrightarrow> rl_fin_settled s'"
  using rl_step_effect rl_effect_fin by blast

text \<open>Facts that are never taken back.\<close>

definition rl_facts :: "moq_request_lifetime \<Rightarrow> bool list" where
  "rl_facts s = [rl_local_fin s, rl_peer_fin s, rl_local_reset s, rl_peer_reset s, rl_local_stop s,
     rl_peer_stop s, rl_cancelled s, rl_peer_fin_failed s, rl_publisher_done s, rl_update_failed s]"

definition rl_le :: "moq_request_lifetime \<Rightarrow> moq_request_lifetime \<Rightarrow> bool" where
  "rl_le s s' \<longleftrightarrow>
     rl_family s' = rl_family s \<and> rl_local_requester s' = rl_local_requester s
     \<and> list_all2 (\<longrightarrow>) (rl_facts s) (rl_facts s')
     \<and> (rl_response s \<noteq> MOQ_REQUEST_RESPONSE_PENDING \<longrightarrow> rl_response s' = rl_response s)"

lemma rl_le_refl [simp]: "rl_le s s"
  by (simp add: rl_le_def rl_facts_def)

lemma rl_le_trans: "rl_le s t \<Longrightarrow> rl_le t u \<Longrightarrow> rl_le s u"
  by (auto simp: rl_le_def rl_facts_def)

lemma rl_effect_le: "rl_effect op s s' \<Longrightarrow> rl_inv s \<Longrightarrow> rl_le s s'"
  by (cases op) (simp_all add: rl_inv_def rl_le_def rl_facts_def rl_ok Let_def split: if_splits)

lemma rl_step_le: "rl_step s op s' \<Longrightarrow> rl_inv s \<Longrightarrow> rl_le s s'"
  using rl_step_effect rl_effect_le rl_le_refl by blast

text \<open>A sequence of calls.\<close>

primrec rl_run :: "rl_op list \<Rightarrow> moq_request_lifetime \<Rightarrow> moq_request_lifetime" where
  "rl_run [] s = s"
| "rl_run (op # ops) s = rl_run ops (snd (rl_apply op s))"

lemma rl_run_step: "rl_step s op (snd (rl_apply op s))"
  by (rule rl_step.step [of _ _ "fst (rl_apply op s)"]) simp

lemma rl_run_reach: "rl_reach s \<Longrightarrow> rl_reach (rl_run ops s)"
  by (induction ops arbitrary: s) (auto intro: rl_reach.step rl_run_step)

lemma rl_reach_inv: "rl_reach s \<Longrightarrow> rl_inv s \<and> rl_fin_settled s"
proof (induction rule: rl_reach.induct)
  case (init family local_requester s0 s)
  then show ?case by (rule rl_init_inv)
next
  case (step s op s')
  then show ?case
    using rl_step_inv rl_step_fin by blast
qed

section \<open>Properties\<close>

text \<open>C17: in every reachable state of a request the recorded facts are consistent: a direction that
  was finished is never reset, a request is cancelled exactly when a reset or a stop was seen,
  updates exist only after an accepting response, and only a subscription has a publisher DONE.
  Moreover a local FIN was sent only after the local endpoint had sent what it owed: the initial
  response, the response to every admitted update, and the publisher's DONE.\<close>

theorem request_lifetime_invariant:
  assumes "rl_reach s"
  shows "rl_inv s \<and> rl_fin_settled s"
  by (rule rl_reach_inv [OF assms])

theorem request_lifetime_invariant_witness:
  "rl_inv (rl_run [InitialResponse True True, Update False, UpdateResponse True True, Done True True, Fin]
     (rl_zero\<lparr>rl_family := MOQ_REQUEST_FAMILY_SUBSCRIBE\<rparr>))"
proof -
  let ?s = "rl_zero\<lparr>rl_family := MOQ_REQUEST_FAMILY_SUBSCRIBE\<rparr>"
  have "moq_request_lifetime_init MOQ_REQUEST_FAMILY_SUBSCRIBE False rl_zero = (MOQ_OK, ?s)"
    by (simp add: moq_request_lifetime_init_def family_valid_def rl_zero_def)
  then have "rl_reach ?s" by (rule rl_reach.init)
  then show ?thesis
    using request_lifetime_invariant [OF rl_run_reach] by blast
qed

text \<open>C18: a refused call changes nothing. The only outcome other than success that commits is the
  premature peer FIN, which records the FIN and the failure.\<close>

theorem request_lifetime_refusal_preserves:
  assumes "rl_apply op s = (rc, s')" and "rc \<noteq> MOQ_OK"
  shows "s' = s \<or> (op = PeerFin \<and> rc = MOQ_REQUEST_LIFETIME_FAILED
    \<and> s' = s\<lparr>rl_peer_fin := True, rl_peer_fin_failed := True\<rparr>)"
  using assms by (cases op) (auto simp: rl_defs Let_def split: if_splits)

theorem request_lifetime_refusal_preserves_witness:
  "snd (rl_apply Fin (rl_zero\<lparr>rl_family := MOQ_REQUEST_FAMILY_SUBSCRIBE\<rparr>))
   = rl_zero\<lparr>rl_family := MOQ_REQUEST_FAMILY_SUBSCRIBE\<rparr>"
proof -
  let ?s = "rl_zero\<lparr>rl_family := MOQ_REQUEST_FAMILY_SUBSCRIBE\<rparr>"
  have "rl_apply Fin ?s = (MOQ_ERR_WRONG_STATE, ?s)" by code_simp
  then have "rl_apply Fin ?s = (MOQ_ERR_WRONG_STATE, snd (rl_apply Fin ?s))" by simp
  from request_lifetime_refusal_preserves [OF this] show ?thesis by auto
qed

text \<open>Along any sequence of calls the family, the role and every recorded FIN, reset, stop,
  cancellation, failure and DONE stay, and the initial response is decided at most once.\<close>

theorem request_lifetime_monotone:
  assumes "rl_reach s"
  shows "rl_le s (rl_run ops s)"
  using assms
proof (induction ops arbitrary: s)
  case Nil
  then show ?case by simp
next
  case (Cons op ops)
  let ?s1 = "snd (rl_apply op s)"
  have "rl_reach ?s1"
    by (rule rl_reach.step [OF Cons.prems rl_run_step])
  then have "rl_le ?s1 (rl_run ops ?s1)" by (rule Cons.IH)
  moreover have "rl_le s ?s1"
    using rl_step_le [OF rl_run_step] rl_reach_inv [OF Cons.prems] by blast
  ultimately show ?case
    using rl_le_trans by simp
qed

theorem request_lifetime_monotone_witness:
  "rl_le (rl_zero\<lparr>rl_family := MOQ_REQUEST_FAMILY_FETCH\<rparr>)
     (rl_run [PeerStop, Reset, PeerFin] (rl_zero\<lparr>rl_family := MOQ_REQUEST_FAMILY_FETCH\<rparr>))"
proof -
  let ?s = "rl_zero\<lparr>rl_family := MOQ_REQUEST_FAMILY_FETCH\<rparr>"
  have "moq_request_lifetime_init MOQ_REQUEST_FAMILY_FETCH False rl_zero = (MOQ_OK, ?s)"
    by (simp add: moq_request_lifetime_init_def family_valid_def rl_zero_def)
  then have "rl_reach ?s" by (rule rl_reach.init)
  then show ?thesis by (rule request_lifetime_monotone)
qed

end
