(* ===== verification/FillOwner.thy ===== *)
theory FillOwner
  imports Prelude
begin

text \<open>
  The ownership table of fill children (\<open>core/src/session/fill_owner.c\<close>): slots with generations,
  the per-child state machine of control, delivery, stream and terminal facts, and the queries that
  say what is still owed. Every operation on a child is an entry function applied through
  \<open>fill_with\<close>, which models \<open>lookup_mut\<close>.
\<close>

section \<open>Data\<close>

text \<open>The fixed-width discriminators of \<open>fill_owner_internal.h\<close>.\<close>

abbreviation MOQ_FILL_PARENT_SUBSCRIBE :: u32 where "MOQ_FILL_PARENT_SUBSCRIBE \<equiv> 1"
abbreviation MOQ_FILL_PARENT_PUBLISH :: u32 where "MOQ_FILL_PARENT_PUBLISH \<equiv> 2"
abbreviation MOQ_FILL_SUBSCRIBER :: u32 where "MOQ_FILL_SUBSCRIBER \<equiv> 1"
abbreviation MOQ_FILL_PUBLISHER :: u32 where "MOQ_FILL_PUBLISHER \<equiv> 2"
abbreviation MOQ_FILL_OUTCOME_STREAM :: u32 where "MOQ_FILL_OUTCOME_STREAM \<equiv> 1"
abbreviation MOQ_FILL_OUTCOME_NO_STREAM :: u32 where "MOQ_FILL_OUTCOME_NO_STREAM \<equiv> 2"
abbreviation MOQ_FILL_CONTROL_PENDING :: u32 where "MOQ_FILL_CONTROL_PENDING \<equiv> 0"
abbreviation MOQ_FILL_CONTROL_ACCEPTED :: u32 where "MOQ_FILL_CONTROL_ACCEPTED \<equiv> 1"
abbreviation MOQ_FILL_CONTROL_REJECTED :: u32 where "MOQ_FILL_CONTROL_REJECTED \<equiv> 2"
abbreviation MOQ_FILL_CONTROL_RESET :: u32 where "MOQ_FILL_CONTROL_RESET \<equiv> 3"
abbreviation MOQ_FILL_TERM_COMPLETE :: u32 where "MOQ_FILL_TERM_COMPLETE \<equiv> 1"
abbreviation MOQ_FILL_TERM_NO_STREAM :: u32 where "MOQ_FILL_TERM_NO_STREAM \<equiv> 2"
abbreviation MOQ_FILL_TERM_CANCELLED :: u32 where "MOQ_FILL_TERM_CANCELLED \<equiv> 3"
abbreviation MOQ_FILL_TERM_ABORTED :: u32 where "MOQ_FILL_TERM_ABORTED \<equiv> 4"
abbreviation MOQ_FILL_TERM_RESET :: u32 where "MOQ_FILL_TERM_RESET \<equiv> 5"
abbreviation MOQ_FILL_TERM_PARENT_CANCELLED :: u32 where "MOQ_FILL_TERM_PARENT_CANCELLED \<equiv> 6"
abbreviation MOQ_FILL_TERM_CONTROL_REJECTED :: u32 where "MOQ_FILL_TERM_CONTROL_REJECTED \<equiv> 7"
abbreviation MOQ_FILL_ACTION_NONE :: u32 where "MOQ_FILL_ACTION_NONE \<equiv> 0"
abbreviation MOQ_FILL_ACTION_HEADER :: u32 where "MOQ_FILL_ACTION_HEADER \<equiv> 1"
abbreviation MOQ_FILL_ACTION_FIN :: u32 where "MOQ_FILL_ACTION_FIN \<equiv> 2"
abbreviation MOQ_FILL_ACTION_RESET :: u32 where "MOQ_FILL_ACTION_RESET \<equiv> 3"
abbreviation MOQ_FILL_ACTION_STOP :: u32 where "MOQ_FILL_ACTION_STOP \<equiv> 4"

record moq_fill_parent =
  fp_family :: u32
  fp_slot :: u64
  fp_generation :: u64

record moq_fill_ref =
  fr_slot :: nat
  fr_generation :: u64
  fr_parent :: moq_fill_parent

record moq_fill_delivery =
  fd_outcome :: u32
  fd_group_order :: u32
  fd_start_group :: u64
  fd_start_object :: u64
  fd_end_group :: u64
  fd_end_object :: u64
  fd_processed_at_us :: u64
  fd_fill_timeout_ms :: u64
  fd_subscriber_priority :: u8
  fd_has_fill_timeout :: bool

record moq_fill_entry =
  fe_generation :: u64
  fe_active :: bool
  fe_parent :: moq_fill_parent
  fe_initiating_id :: u64
  fe_role :: u32
  fe_control :: u32
  fe_delivery_known :: bool
  fe_delivery :: moq_fill_delivery
  fe_stream_bound :: bool
  fe_stream :: u64
  fe_data_fin :: bool
  fe_data_reset :: bool
  fe_data_local_retired :: bool
  fe_stop_committed :: bool
  fe_peer_stop :: bool
  fe_cancel_requested :: bool
  fe_abort_requested :: bool
  fe_finish_requested :: bool
  fe_parent_cancelled :: bool
  fe_stream_accounted :: bool
  fe_terminal_reason :: u32
  fe_terminal_published :: bool
  fe_terminal_retired :: bool

text \<open>\<open>ft_entries\<close> is the pair \<open>entries, capacity\<close>.\<close>

record moq_fill_table =
  ft_entries :: "moq_fill_entry cptr"
  ft_live :: nat

record moq_fill_reservation =
  fv_ref :: moq_fill_ref
  fv_initiating_id :: u64
  fv_role :: u32
  fv_delivery_known :: bool
  fv_delivery :: moq_fill_delivery


definition fill_parent_zero :: moq_fill_parent where
  "fill_parent_zero = \<lparr>fp_family = 0, fp_slot = 0, fp_generation = 0\<rparr>"

definition fill_delivery_zero :: moq_fill_delivery where
  "fill_delivery_zero = \<lparr>fd_outcome = 0, fd_group_order = 0, fd_start_group = 0, fd_start_object = 0,
     fd_end_group = 0, fd_end_object = 0, fd_processed_at_us = 0, fd_fill_timeout_ms = 0,
     fd_subscriber_priority = 0, fd_has_fill_timeout = False\<rparr>"

definition fill_entry_zero :: moq_fill_entry where
  "fill_entry_zero = \<lparr>fe_generation = 0, fe_active = False, fe_parent = fill_parent_zero,
     fe_initiating_id = 0, fe_role = 0, fe_control = 0, fe_delivery_known = False,
     fe_delivery = fill_delivery_zero, fe_stream_bound = False, fe_stream = 0, fe_data_fin = False,
     fe_data_reset = False, fe_data_local_retired = False, fe_stop_committed = False,
     fe_peer_stop = False, fe_cancel_requested = False, fe_abort_requested = False,
     fe_finish_requested = False, fe_parent_cancelled = False, fe_stream_accounted = False,
     fe_terminal_reason = 0, fe_terminal_published = False, fe_terminal_retired = False\<rparr>"

text \<open>\<open>SIZE_MAX / sizeof (moq_fill_entry_t)\<close> on an LP64 target, where an entry has 168 bytes.\<close>

definition fill_capacity_max :: nat where
  "fill_capacity_max = 18446744073709551615 div 168"

section \<open>Predicates\<close>

definition parent_valid :: "moq_fill_parent \<Rightarrow> bool" where
  "parent_valid p \<longleftrightarrow> fp_generation p \<noteq> 0
     \<and> (fp_family p = MOQ_FILL_PARENT_SUBSCRIBE \<or> fp_family p = MOQ_FILL_PARENT_PUBLISH)"

definition parent_equal :: "moq_fill_parent \<Rightarrow> moq_fill_parent \<Rightarrow> bool" where
  "parent_equal a b \<longleftrightarrow>
     fp_family a = fp_family b \<and> fp_slot a = fp_slot b \<and> fp_generation a = fp_generation b"

definition table_valid :: "moq_fill_table \<Rightarrow> bool" where
  "table_valid t \<longleftrightarrow> plen (ft_entries t) \<le> fill_capacity_max
     \<and> (plen (ft_entries t) = 0 \<or> \<not> is_null (ft_entries t)) \<and> ft_live t \<le> plen (ft_entries t)"

definition delivery_valid :: "moq_fill_delivery \<Rightarrow> bool" where
  "delivery_valid d \<longleftrightarrow>
     (if fd_outcome d = MOQ_FILL_OUTCOME_NO_STREAM then True
      else fd_outcome d = MOQ_FILL_OUTCOME_STREAM
        \<and> (fd_group_order d = 1 \<or> fd_group_order d = 2)
        \<and> (fd_start_group d < fd_end_group d
           \<or> (fd_end_group d = fd_start_group d \<and> fd_start_object d \<le> fd_end_object d)))"

definition delivery_equal :: "moq_fill_delivery \<Rightarrow> moq_fill_delivery \<Rightarrow> bool" where
  "delivery_equal a b \<longleftrightarrow>
     fd_outcome a = fd_outcome b \<and> fd_group_order a = fd_group_order b
     \<and> fd_start_group a = fd_start_group b \<and> fd_start_object a = fd_start_object b
     \<and> fd_end_group a = fd_end_group b \<and> fd_end_object a = fd_end_object b
     \<and> fd_processed_at_us a = fd_processed_at_us b
     \<and> fd_subscriber_priority a = fd_subscriber_priority b
     \<and> fd_has_fill_timeout a = fd_has_fill_timeout b
     \<and> fd_fill_timeout_ms a = fd_fill_timeout_ms b"

definition lookup :: "moq_fill_table \<Rightarrow> moq_fill_ref \<Rightarrow> moq_fill_entry option" where
  "lookup t ref =
     (if \<not> table_valid t \<or> plen (ft_entries t) \<le> fr_slot ref \<or> fr_generation ref = 0 then None
      else let e = elems (ft_entries t) ! fr_slot ref in
        if fe_active e \<and> fe_generation e = fr_generation ref \<and> parent_equal (fe_parent e) (fr_parent ref)
        then Some e else None)"

definition reason_first :: "u32 \<Rightarrow> moq_fill_entry \<Rightarrow> moq_fill_entry" where
  "reason_first reason e = (if fe_terminal_reason e = 0 then e\<lparr>fe_terminal_reason := reason\<rparr> else e)"

definition data_terminal :: "moq_fill_entry \<Rightarrow> bool" where
  "data_terminal e \<longleftrightarrow> fe_stream_bound e \<and> (fe_data_fin e \<or> fe_data_reset e)"

definition stream_ended :: "moq_fill_entry \<Rightarrow> bool" where
  "stream_ended e \<longleftrightarrow> data_terminal e \<or> (fe_stream_bound e \<and> fe_data_local_retired e)"

definition no_stream_proven :: "moq_fill_entry \<Rightarrow> bool" where
  "no_stream_proven e \<longleftrightarrow> fe_control e = MOQ_FILL_CONTROL_ACCEPTED \<and> fe_delivery_known e
     \<and> fd_outcome (fe_delivery e) = MOQ_FILL_OUTCOME_NO_STREAM"

definition stopping :: "moq_fill_entry \<Rightarrow> bool" where
  "stopping e \<longleftrightarrow> fe_cancel_requested e \<or> fe_abort_requested e \<or> fe_parent_cancelled e
     \<or> fe_peer_stop e \<or> fe_control e = MOQ_FILL_CONTROL_REJECTED
     \<or> fe_control e = MOQ_FILL_CONTROL_RESET"

definition data_settled :: "moq_fill_entry \<Rightarrow> bool" where
  "data_settled e \<longleftrightarrow>
     (if fe_stream_bound e then stream_ended e \<and> fe_stream_accounted e
      else if no_stream_proven e then True
      else fe_role e = MOQ_FILL_PUBLISHER
        \<and> (fe_parent_cancelled e \<or> fe_control e = MOQ_FILL_CONTROL_REJECTED
           \<or> fe_control e = MOQ_FILL_CONTROL_RESET))"

definition next_action :: "moq_fill_entry \<Rightarrow> u32" where
  "next_action e =
     (if stream_ended e then MOQ_FILL_ACTION_NONE
      else if fe_role e = MOQ_FILL_SUBSCRIBER
      then (if fe_stream_bound e \<and> stopping e \<and> \<not> fe_stop_committed e
            then MOQ_FILL_ACTION_STOP else MOQ_FILL_ACTION_NONE)
      else if fe_stream_bound e
      then (if stopping e then MOQ_FILL_ACTION_RESET
            else if fe_finish_requested e then MOQ_FILL_ACTION_FIN else MOQ_FILL_ACTION_NONE)
      else if fe_parent_cancelled e \<or> fe_control e \<noteq> MOQ_FILL_CONTROL_ACCEPTED
              \<or> \<not> fe_delivery_known e \<or> fd_outcome (fe_delivery e) \<noteq> MOQ_FILL_OUTCOME_STREAM
      then MOQ_FILL_ACTION_NONE
      else MOQ_FILL_ACTION_HEADER)"

definition terminal_ready :: "moq_fill_entry \<Rightarrow> bool" where
  "terminal_ready e \<longleftrightarrow>
     (if fe_terminal_reason e = 0 \<or> fe_terminal_published e then False
      else if fe_role e = MOQ_FILL_SUBSCRIBER
      then data_terminal e \<or> stopping e \<or> no_stream_proven e
      else data_terminal e \<or> (\<not> fe_stream_bound e \<and> data_settled e))"

definition reclaimable :: "moq_fill_entry \<Rightarrow> bool" where
  "reclaimable e \<longleftrightarrow> fe_control e \<noteq> MOQ_FILL_CONTROL_PENDING
     \<and> (fe_control e \<noteq> MOQ_FILL_CONTROL_ACCEPTED \<or> fe_delivery_known e)
     \<and> fe_terminal_published e \<and> fe_terminal_retired e \<and> data_settled e"

section \<open>Table operations\<close>

definition moq_fill_table_init ::
  "moq_fill_entry cptr \<Rightarrow> moq_fill_table \<Rightarrow> moq_result \<times> moq_fill_table" where
  "moq_fill_table_init storage t =
     (if (plen storage \<noteq> 0 \<and> is_null storage) \<or> fill_capacity_max < plen storage
      then (MOQ_ERR_INVAL, t)
      else (MOQ_OK, \<lparr>ft_entries =
              (if plen storage \<noteq> 0 then Arr (replicate (plen storage) fill_entry_zero) else storage),
              ft_live = 0\<rparr>))"

text \<open>The scan of \<open>moq_fill_prepare\<close> from index \<open>i\<close>, with the first free slot seen so far.\<close>

fun fill_scan :: "u64 \<Rightarrow> nat \<Rightarrow> nat option \<Rightarrow> moq_fill_entry list \<Rightarrow> moq_result + nat option" where
  "fill_scan rid i slot [] = Inr slot"
| "fill_scan rid i slot (e # es) =
     (if fe_active e \<and> fe_initiating_id e = rid then Inl MOQ_ERR_WRONG_STATE
      else fill_scan rid (i + 1)
        (if \<not> fe_active e \<and> fe_generation e \<noteq> UINT64_MAX \<and> slot = None then Some i else slot) es)"

definition moq_fill_prepare :: "moq_fill_table \<Rightarrow> moq_fill_parent \<Rightarrow> u64 \<Rightarrow> u32
    \<Rightarrow> moq_fill_delivery option \<Rightarrow> moq_result + moq_fill_reservation" where
  "moq_fill_prepare t parent rid role delivery =
     (if \<not> table_valid t \<or> \<not> parent_valid parent
         \<or> (role \<noteq> MOQ_FILL_SUBSCRIBER \<and> role \<noteq> MOQ_FILL_PUBLISHER)
         \<or> (case delivery of None \<Rightarrow> False | Some d \<Rightarrow> \<not> delivery_valid d)
      then Inl MOQ_ERR_INVAL
      else case fill_scan rid 0 None (elems (ft_entries t)) of
        Inl e \<Rightarrow> Inl e
      | Inr None \<Rightarrow> Inl MOQ_ERR_REQUEST_BLOCKED
      | Inr (Some slot) \<Rightarrow>
          Inr \<lparr>fv_ref = \<lparr>fr_slot = slot,
                 fr_generation = fe_generation (elems (ft_entries t) ! slot) + 1, fr_parent = parent\<rparr>,
               fv_initiating_id = rid, fv_role = role, fv_delivery_known = delivery \<noteq> None,
               fv_delivery = (case delivery of None \<Rightarrow> fill_delivery_zero | Some d \<Rightarrow> d)\<rparr>)"

definition moq_fill_check_commit :: "moq_fill_table \<Rightarrow> moq_fill_reservation \<Rightarrow> moq_result" where
  "moq_fill_check_commit t r =
     (if \<not> table_valid t \<or> \<not> parent_valid (fr_parent (fv_ref r))
         \<or> (fv_role r \<noteq> MOQ_FILL_SUBSCRIBER \<and> fv_role r \<noteq> MOQ_FILL_PUBLISHER)
         \<or> (fv_delivery_known r \<and> \<not> delivery_valid (fv_delivery r))
      then MOQ_ERR_INVAL
      else if plen (ft_entries t) \<le> fr_slot (fv_ref r) then MOQ_ERR_STALE_HANDLE
      else let e = elems (ft_entries t) ! fr_slot (fv_ref r) in
        if fe_active e \<or> fe_generation e = UINT64_MAX
           \<or> fr_generation (fv_ref r) \<noteq> fe_generation e + 1 then MOQ_ERR_STALE_HANDLE
        else if plen (ft_entries t) \<le> ft_live t then MOQ_ERR_REQUEST_BLOCKED
        else if list_ex (\<lambda>e. fe_active e \<and> fe_initiating_id e = fv_initiating_id r)
                  (elems (ft_entries t)) then MOQ_ERR_WRONG_STATE
        else MOQ_OK)"

text \<open>Storing an entry into a slot.\<close>

definition put_entry :: "nat \<Rightarrow> moq_fill_entry \<Rightarrow> moq_fill_table \<Rightarrow> moq_fill_table" where
  "put_entry i e t = t\<lparr>ft_entries := Arr ((elems (ft_entries t))[i := e])\<rparr>"

definition moq_fill_commit ::
  "moq_fill_reservation \<Rightarrow> moq_fill_table \<Rightarrow> moq_result \<times> moq_fill_table" where
  "moq_fill_commit r t =
     (let rc = moq_fill_check_commit t r in
      if rc \<noteq> MOQ_OK then (rc, t)
      else let e = fill_entry_zero\<lparr>fe_active := True, fe_generation := fr_generation (fv_ref r),
                     fe_parent := fr_parent (fv_ref r), fe_initiating_id := fv_initiating_id r,
                     fe_role := fv_role r, fe_delivery_known := fv_delivery_known r,
                     fe_delivery := (if fv_delivery_known r then fv_delivery r else fill_delivery_zero)\<rparr>
           in (MOQ_OK, (put_entry (fr_slot (fv_ref r)) e t)\<lparr>ft_live := ft_live t + 1\<rparr>))"

fun fill_find_loop :: "u64 \<Rightarrow> nat \<Rightarrow> moq_fill_entry list \<Rightarrow> moq_fill_ref option" where
  "fill_find_loop rid i [] = None"
| "fill_find_loop rid i (e # es) =
     (if fe_active e \<and> fe_initiating_id e = rid
      then Some \<lparr>fr_slot = i, fr_generation = fe_generation e, fr_parent = fe_parent e\<rparr>
      else fill_find_loop rid (i + 1) es)"

definition moq_fill_find :: "moq_fill_table \<Rightarrow> u64 \<Rightarrow> moq_result + moq_fill_ref" where
  "moq_fill_find t rid =
     (if \<not> table_valid t then Inl MOQ_ERR_INVAL
      else case fill_find_loop rid 0 (elems (ft_entries t)) of
        None \<Rightarrow> Inl MOQ_ERR_STALE_HANDLE | Some ref \<Rightarrow> Inr ref)"

definition moq_fill_read :: "moq_fill_table \<Rightarrow> moq_fill_ref \<Rightarrow> moq_result + moq_fill_entry" where
  "moq_fill_read t ref = (case lookup t ref of None \<Rightarrow> Inl MOQ_ERR_STALE_HANDLE | Some e \<Rightarrow> Inr e)"


section \<open>Operations on one child\<close>

text \<open>\<open>lookup_mut\<close> followed by an in-place change of the entry it found.\<close>

definition fill_with :: "(moq_fill_entry \<Rightarrow> moq_result \<times> moq_fill_entry) \<Rightarrow> moq_fill_ref
    \<Rightarrow> moq_fill_table \<Rightarrow> moq_result \<times> moq_fill_table" where
  "fill_with f ref t =
     (case lookup t ref of
        None \<Rightarrow> (MOQ_ERR_STALE_HANDLE, t)
      | Some e \<Rightarrow> let (rc, e') = f e in (rc, put_entry (fr_slot ref) e' t))"

definition fill_control_response_entry ::
  "u64 \<Rightarrow> bool \<Rightarrow> moq_fill_entry \<Rightarrow> moq_result \<times> moq_fill_entry" where
  "fill_control_response_entry rid accepted e =
     (if fe_initiating_id e \<noteq> rid then (MOQ_ERR_INVAL, e)
      else if fe_control e \<noteq> MOQ_FILL_CONTROL_PENDING then (MOQ_ERR_WRONG_STATE, e)
      else let e = e\<lparr>fe_control :=
                 (if accepted then MOQ_FILL_CONTROL_ACCEPTED else MOQ_FILL_CONTROL_REJECTED)\<rparr> in
        (MOQ_OK,
         if \<not> accepted then reason_first MOQ_FILL_TERM_CONTROL_REJECTED e
         else if fe_delivery_known e \<and> fd_outcome (fe_delivery e) = MOQ_FILL_OUTCOME_NO_STREAM
         then reason_first MOQ_FILL_TERM_NO_STREAM e
         else e))"

definition moq_fill_control_response ::
  "moq_fill_ref \<Rightarrow> u64 \<Rightarrow> bool \<Rightarrow> moq_fill_table \<Rightarrow> moq_result \<times> moq_fill_table" where
  "moq_fill_control_response ref rid accepted = fill_with (fill_control_response_entry rid accepted) ref"

definition fill_control_reset_entry ::
  "u64 \<Rightarrow> moq_fill_entry \<Rightarrow> moq_result \<times> moq_fill_entry" where
  "fill_control_reset_entry rid e =
     (if fe_initiating_id e \<noteq> rid then (MOQ_ERR_INVAL, e)
      else if fe_control e = MOQ_FILL_CONTROL_RESET then (MOQ_OK, e)
      else if fe_control e \<noteq> MOQ_FILL_CONTROL_PENDING then (MOQ_ERR_WRONG_STATE, e)
      else (MOQ_OK, reason_first MOQ_FILL_TERM_PARENT_CANCELLED
              (e\<lparr>fe_control := MOQ_FILL_CONTROL_RESET, fe_parent_cancelled := True\<rparr>)))"

definition moq_fill_control_reset ::
  "moq_fill_ref \<Rightarrow> u64 \<Rightarrow> moq_fill_table \<Rightarrow> moq_result \<times> moq_fill_table" where
  "moq_fill_control_reset ref rid = fill_with (fill_control_reset_entry rid) ref"

definition fill_resolve_delivery_entry ::
  "u64 \<Rightarrow> moq_fill_delivery \<Rightarrow> moq_fill_entry \<Rightarrow> moq_result \<times> moq_fill_entry" where
  "fill_resolve_delivery_entry rid d e =
     (if fe_initiating_id e \<noteq> rid then (MOQ_ERR_INVAL, e)
      else if fe_delivery_known e
      then (if delivery_equal (fe_delivery e) d then MOQ_OK else MOQ_ERR_WRONG_STATE, e)
      else if fe_stream_bound e \<and> fd_outcome d = MOQ_FILL_OUTCOME_NO_STREAM then (MOQ_ERR_PROTO, e)
      else let e = e\<lparr>fe_delivery := d, fe_delivery_known := True\<rparr> in
        (MOQ_OK, if no_stream_proven e then reason_first MOQ_FILL_TERM_NO_STREAM e else e))"

definition moq_fill_resolve_delivery ::
  "moq_fill_ref \<Rightarrow> u64 \<Rightarrow> moq_fill_delivery \<Rightarrow> moq_fill_table \<Rightarrow> moq_result \<times> moq_fill_table" where
  "moq_fill_resolve_delivery ref rid d t =
     (if \<not> delivery_valid d then (MOQ_ERR_INVAL, t)
      else fill_with (fill_resolve_delivery_entry rid d) ref t)"

definition fill_cancel_entry :: "moq_fill_entry \<Rightarrow> moq_result \<times> moq_fill_entry" where
  "fill_cancel_entry e =
     (if fe_role e \<noteq> MOQ_FILL_SUBSCRIBER then (MOQ_ERR_WRONG_STATE, e)
      else if fe_cancel_requested e then (MOQ_OK, e)
      else if data_terminal e \<or> no_stream_proven e then (MOQ_ERR_WRONG_STATE, e)
      else (MOQ_OK, reason_first MOQ_FILL_TERM_CANCELLED (e\<lparr>fe_cancel_requested := True\<rparr>)))"

definition moq_fill_cancel ::
  "moq_fill_ref \<Rightarrow> moq_fill_table \<Rightarrow> moq_result \<times> moq_fill_table" where
  "moq_fill_cancel = fill_with fill_cancel_entry"

definition fill_abort_entry :: "moq_fill_entry \<Rightarrow> moq_result \<times> moq_fill_entry" where
  "fill_abort_entry e =
     (if fe_role e \<noteq> MOQ_FILL_PUBLISHER then (MOQ_ERR_WRONG_STATE, e)
      else if fe_abort_requested e then (MOQ_OK, e)
      else if data_terminal e
              \<or> (fe_delivery_known e \<and> fd_outcome (fe_delivery e) = MOQ_FILL_OUTCOME_NO_STREAM)
              \<or> fe_parent_cancelled e \<or> fe_control e = MOQ_FILL_CONTROL_REJECTED
              \<or> fe_control e = MOQ_FILL_CONTROL_RESET then (MOQ_ERR_WRONG_STATE, e)
      else (MOQ_OK, reason_first MOQ_FILL_TERM_ABORTED (e\<lparr>fe_abort_requested := True\<rparr>)))"

definition moq_fill_abort ::
  "moq_fill_ref \<Rightarrow> moq_fill_table \<Rightarrow> moq_result \<times> moq_fill_table" where
  "moq_fill_abort = fill_with fill_abort_entry"

definition fill_finish_entry :: "moq_fill_entry \<Rightarrow> moq_result \<times> moq_fill_entry" where
  "fill_finish_entry e =
     (if fe_role e \<noteq> MOQ_FILL_PUBLISHER then (MOQ_ERR_WRONG_STATE, e)
      else if fe_finish_requested e then (MOQ_OK, e)
      else if \<not> fe_stream_bound e \<or> data_terminal e \<or> stopping e then (MOQ_ERR_WRONG_STATE, e)
      else (MOQ_OK, e\<lparr>fe_finish_requested := True\<rparr>))"

definition moq_fill_finish ::
  "moq_fill_ref \<Rightarrow> moq_fill_table \<Rightarrow> moq_result \<times> moq_fill_table" where
  "moq_fill_finish = fill_with fill_finish_entry"

definition fill_parent_cancel_entry :: "moq_fill_entry \<Rightarrow> moq_result \<times> moq_fill_entry" where
  "fill_parent_cancel_entry e =
     (MOQ_OK, reason_first MOQ_FILL_TERM_PARENT_CANCELLED (e\<lparr>fe_parent_cancelled := True\<rparr>))"

definition moq_fill_parent_cancel ::
  "moq_fill_ref \<Rightarrow> moq_fill_table \<Rightarrow> moq_result \<times> moq_fill_table" where
  "moq_fill_parent_cancel = fill_with fill_parent_cancel_entry"

text \<open>\<open>es\<close> is the whole table, scanned for a child that already owns the stream.\<close>

definition fill_bind_entry :: "moq_fill_entry list \<Rightarrow> u64 \<Rightarrow> u32
    \<Rightarrow> moq_fill_entry \<Rightarrow> moq_result \<times> moq_fill_entry" where
  "fill_bind_entry es stream role e =
     (if fe_role e \<noteq> role then (MOQ_ERR_WRONG_STATE, e)
      else if fe_stream_bound e then (if fe_stream e = stream then MOQ_OK else MOQ_ERR_PROTO, e)
      else if fe_delivery_known e \<and> fd_outcome (fe_delivery e) = MOQ_FILL_OUTCOME_NO_STREAM
      then (MOQ_ERR_PROTO, e)
      else if role = MOQ_FILL_PUBLISHER \<and> next_action e \<noteq> MOQ_FILL_ACTION_HEADER
      then (MOQ_ERR_WRONG_STATE, e)
      else if list_ex (\<lambda>e. fe_active e \<and> fe_stream_bound e \<and> fe_stream e = stream) es
      then (MOQ_ERR_PROTO, e)
      else (MOQ_OK, e\<lparr>fe_stream_bound := True, fe_stream := stream\<rparr>))"

definition bind_stream ::
  "moq_fill_ref \<Rightarrow> u64 \<Rightarrow> u32 \<Rightarrow> moq_fill_table \<Rightarrow> moq_result \<times> moq_fill_table" where
  "bind_stream ref stream role t =
     (if stream = 0 then (MOQ_ERR_INVAL, t)
      else fill_with (fill_bind_entry (elems (ft_entries t)) stream role) ref t)"

definition moq_fill_bind_received ::
  "moq_fill_ref \<Rightarrow> u64 \<Rightarrow> moq_fill_table \<Rightarrow> moq_result \<times> moq_fill_table" where
  "moq_fill_bind_received ref stream = bind_stream ref stream MOQ_FILL_SUBSCRIBER"

definition moq_fill_header_committed ::
  "moq_fill_ref \<Rightarrow> u64 \<Rightarrow> moq_fill_table \<Rightarrow> moq_result \<times> moq_fill_table" where
  "moq_fill_header_committed ref stream = bind_stream ref stream MOQ_FILL_PUBLISHER"

definition fill_terminal_entry ::
  "u64 \<Rightarrow> bool \<Rightarrow> moq_fill_entry \<Rightarrow> moq_result \<times> moq_fill_entry" where
  "fill_terminal_entry stream reset e =
     (if fe_role e \<noteq> MOQ_FILL_SUBSCRIBER \<or> \<not> fe_stream_bound e \<or> fe_stream e \<noteq> stream
      then (MOQ_ERR_WRONG_STATE, e)
      else if stream_ended e then (MOQ_OK, e)
      else (MOQ_OK, reason_first (if reset then MOQ_FILL_TERM_RESET else MOQ_FILL_TERM_COMPLETE)
              (if reset then e\<lparr>fe_data_reset := True\<rparr> else e\<lparr>fe_data_fin := True\<rparr>)))"

definition receive_terminal ::
  "moq_fill_ref \<Rightarrow> u64 \<Rightarrow> bool \<Rightarrow> moq_fill_table \<Rightarrow> moq_result \<times> moq_fill_table" where
  "receive_terminal ref stream reset = fill_with (fill_terminal_entry stream reset) ref"

definition moq_fill_peer_fin ::
  "moq_fill_ref \<Rightarrow> u64 \<Rightarrow> moq_fill_table \<Rightarrow> moq_result \<times> moq_fill_table" where
  "moq_fill_peer_fin ref stream = receive_terminal ref stream False"

definition moq_fill_peer_reset ::
  "moq_fill_ref \<Rightarrow> u64 \<Rightarrow> moq_fill_table \<Rightarrow> moq_result \<times> moq_fill_table" where
  "moq_fill_peer_reset ref stream = receive_terminal ref stream True"

definition fill_local_retired_entry ::
  "u64 \<Rightarrow> moq_fill_entry \<Rightarrow> moq_result \<times> moq_fill_entry" where
  "fill_local_retired_entry stream e =
     (if fe_role e \<noteq> MOQ_FILL_SUBSCRIBER \<or> \<not> fe_stream_bound e \<or> fe_stream e \<noteq> stream
         \<or> \<not> fe_stop_committed e then (MOQ_ERR_WRONG_STATE, e)
      else if stream_ended e then (MOQ_OK, e)
      else (MOQ_OK, e\<lparr>fe_data_local_retired := True\<rparr>))"

definition moq_fill_local_retired ::
  "moq_fill_ref \<Rightarrow> u64 \<Rightarrow> moq_fill_table \<Rightarrow> moq_result \<times> moq_fill_table" where
  "moq_fill_local_retired ref stream = fill_with (fill_local_retired_entry stream) ref"

definition fill_peer_stop_entry ::
  "u64 \<Rightarrow> moq_fill_entry \<Rightarrow> moq_result \<times> moq_fill_entry" where
  "fill_peer_stop_entry stream e =
     (if fe_role e \<noteq> MOQ_FILL_PUBLISHER \<or> \<not> fe_stream_bound e \<or> fe_stream e \<noteq> stream
      then (MOQ_ERR_WRONG_STATE, e)
      else let e = e\<lparr>fe_peer_stop := True\<rparr> in
        (MOQ_OK, if \<not> data_terminal e then reason_first MOQ_FILL_TERM_RESET e else e))"

definition moq_fill_peer_stop ::
  "moq_fill_ref \<Rightarrow> u64 \<Rightarrow> moq_fill_table \<Rightarrow> moq_result \<times> moq_fill_table" where
  "moq_fill_peer_stop ref stream = fill_with (fill_peer_stop_entry stream) ref"

definition fill_action_entry :: "u32 \<Rightarrow> moq_fill_entry \<Rightarrow> moq_result \<times> moq_fill_entry" where
  "fill_action_entry action e =
     (if action < MOQ_FILL_ACTION_FIN \<or> MOQ_FILL_ACTION_STOP < action then (MOQ_ERR_INVAL, e)
      else if (action = MOQ_FILL_ACTION_FIN \<and> fe_data_fin e \<and> fe_role e = MOQ_FILL_PUBLISHER)
              \<or> (action = MOQ_FILL_ACTION_RESET \<and> fe_data_reset e \<and> fe_role e = MOQ_FILL_PUBLISHER)
              \<or> (action = MOQ_FILL_ACTION_STOP \<and> fe_stop_committed e \<and> fe_role e = MOQ_FILL_SUBSCRIBER)
      then (MOQ_OK, e)
      else if next_action e \<noteq> action then (MOQ_ERR_WRONG_STATE, e)
      else (MOQ_OK,
        if action = MOQ_FILL_ACTION_STOP then e\<lparr>fe_stop_committed := True\<rparr>
        else if action = MOQ_FILL_ACTION_FIN
        then reason_first MOQ_FILL_TERM_COMPLETE (e\<lparr>fe_data_fin := True\<rparr>)
        else reason_first MOQ_FILL_TERM_RESET (e\<lparr>fe_data_reset := True\<rparr>)))"

definition moq_fill_action_committed ::
  "moq_fill_ref \<Rightarrow> u32 \<Rightarrow> moq_fill_table \<Rightarrow> moq_result \<times> moq_fill_table" where
  "moq_fill_action_committed ref action = fill_with (fill_action_entry action) ref"


definition fill_accounted_entry :: "moq_fill_entry \<Rightarrow> moq_result \<times> moq_fill_entry" where
  "fill_accounted_entry e =
     (if \<not> stream_ended e \<or> fe_stream_accounted e then (MOQ_ERR_WRONG_STATE, e)
      else (MOQ_OK, e\<lparr>fe_stream_accounted := True\<rparr>))"

definition moq_fill_stream_accounted ::
  "moq_fill_ref \<Rightarrow> moq_fill_table \<Rightarrow> moq_result \<times> moq_fill_table" where
  "moq_fill_stream_accounted = fill_with fill_accounted_entry"

definition fill_terminal_committed_entry :: "moq_fill_entry \<Rightarrow> moq_result \<times> moq_fill_entry" where
  "fill_terminal_committed_entry e =
     (if \<not> terminal_ready e then (MOQ_ERR_WRONG_STATE, e)
      else (MOQ_OK, e\<lparr>fe_terminal_published := True\<rparr>))"

definition moq_fill_terminal_committed ::
  "moq_fill_ref \<Rightarrow> moq_fill_table \<Rightarrow> moq_result \<times> moq_fill_table" where
  "moq_fill_terminal_committed = fill_with fill_terminal_committed_entry"

definition fill_terminal_retired_entry :: "moq_fill_entry \<Rightarrow> moq_result \<times> moq_fill_entry" where
  "fill_terminal_retired_entry e =
     (if \<not> fe_terminal_published e then (MOQ_ERR_WRONG_STATE, e)
      else (MOQ_OK, e\<lparr>fe_terminal_retired := True\<rparr>))"

definition moq_fill_terminal_retired ::
  "moq_fill_ref \<Rightarrow> moq_fill_table \<Rightarrow> moq_result \<times> moq_fill_table" where
  "moq_fill_terminal_retired = fill_with fill_terminal_retired_entry"

text \<open>Clearing a slot keeps its generation.\<close>

definition clear_slot :: "nat \<Rightarrow> moq_fill_entry \<Rightarrow> moq_fill_table \<Rightarrow> moq_fill_table" where
  "clear_slot i e t =
     (put_entry i (fill_entry_zero\<lparr>fe_generation := fe_generation e\<rparr>) t)\<lparr>ft_live := ft_live t - 1\<rparr>"

definition moq_fill_reclaim ::
  "moq_fill_ref \<Rightarrow> moq_fill_table \<Rightarrow> moq_result \<times> moq_fill_table" where
  "moq_fill_reclaim ref t =
     (case lookup t ref of
        None \<Rightarrow> (MOQ_ERR_STALE_HANDLE, t)
      | Some e \<Rightarrow> if \<not> reclaimable e then (MOQ_ERR_WOULD_BLOCK, t)
                  else (MOQ_OK, clear_slot (fr_slot ref) e t))"

definition moq_fill_release_unbound ::
  "moq_fill_ref \<Rightarrow> moq_fill_table \<Rightarrow> moq_result \<times> moq_fill_table" where
  "moq_fill_release_unbound ref t =
     (case lookup t ref of
        None \<Rightarrow> (MOQ_ERR_STALE_HANDLE, t)
      | Some e \<Rightarrow> if fe_stream_bound e \<or> \<not> fe_terminal_published e then (MOQ_ERR_WRONG_STATE, t)
                  else (MOQ_OK, clear_slot (fr_slot ref) e t))"


section \<open>Invariants\<close>

text \<open>What holds of the facts recorded in an active entry.\<close>

definition fe_inv :: "moq_fill_entry \<Rightarrow> bool" where
  "fe_inv e \<longleftrightarrow>
     fe_generation e \<noteq> 0 \<and> parent_valid (fe_parent e)
     \<and> (fe_role e = MOQ_FILL_SUBSCRIBER \<or> fe_role e = MOQ_FILL_PUBLISHER)
     \<and> fe_control e \<le> MOQ_FILL_CONTROL_RESET
     \<and> (fe_delivery_known e \<longrightarrow> delivery_valid (fe_delivery e))
     \<and> (fe_stream_bound e \<longrightarrow> fe_stream e \<noteq> 0)
     \<and> (fe_stream_bound e \<and> fe_delivery_known e \<longrightarrow> fd_outcome (fe_delivery e) \<noteq> MOQ_FILL_OUTCOME_NO_STREAM)
     \<and> (fe_data_fin e \<or> fe_data_reset e \<or> fe_data_local_retired e \<longrightarrow> fe_stream_bound e)
     \<and> \<not> (fe_data_fin e \<and> fe_data_reset e)
     \<and> (fe_data_local_retired e \<longrightarrow> fe_stop_committed e)
     \<and> (fe_stop_committed e \<or> fe_cancel_requested e \<longrightarrow> fe_role e = MOQ_FILL_SUBSCRIBER)
     \<and> (fe_peer_stop e \<or> fe_abort_requested e \<or> fe_finish_requested e \<longrightarrow> fe_role e = MOQ_FILL_PUBLISHER)
     \<and> (fe_control e = MOQ_FILL_CONTROL_RESET \<longrightarrow> fe_parent_cancelled e)
     \<and> (fe_stream_accounted e \<longrightarrow> stream_ended e)
     \<and> (data_terminal e \<or> stopping e \<or> no_stream_proven e \<longrightarrow> fe_terminal_reason e \<noteq> 0)
     \<and> (fe_terminal_published e \<longrightarrow> fe_terminal_reason e \<noteq> 0)
     \<and> (fe_terminal_retired e \<longrightarrow> fe_terminal_published e)"

text \<open>How the facts of an entry may evolve while it stays in its slot.\<close>

definition fe_flags :: "moq_fill_entry \<Rightarrow> bool list" where
  "fe_flags e = [fe_data_fin e, fe_data_reset e, fe_data_local_retired e, fe_stop_committed e,
     fe_peer_stop e, fe_cancel_requested e, fe_abort_requested e, fe_finish_requested e,
     fe_parent_cancelled e, fe_stream_accounted e, fe_terminal_published e, fe_terminal_retired e]"

definition fe_le :: "moq_fill_entry \<Rightarrow> moq_fill_entry \<Rightarrow> bool" where
  "fe_le e e' \<longleftrightarrow>
     fe_generation e' = fe_generation e \<and> fe_active e' = fe_active e \<and> fe_parent e' = fe_parent e
     \<and> fe_initiating_id e' = fe_initiating_id e \<and> fe_role e' = fe_role e
     \<and> (fe_control e \<noteq> MOQ_FILL_CONTROL_PENDING \<longrightarrow> fe_control e' = fe_control e)
     \<and> (fe_delivery_known e \<longrightarrow> fe_delivery_known e' \<and> fe_delivery e' = fe_delivery e)
     \<and> (fe_stream_bound e \<longrightarrow> fe_stream_bound e' \<and> fe_stream e' = fe_stream e)
     \<and> list_all2 (\<longrightarrow>) (fe_flags e) (fe_flags e')
     \<and> (fe_terminal_reason e \<noteq> 0 \<longrightarrow> fe_terminal_reason e' = fe_terminal_reason e)"

lemma fe_le_refl [simp]: "fe_le e e"
  by (simp add: fe_le_def fe_flags_def)

lemma fe_le_trans: "fe_le a b \<Longrightarrow> fe_le b c \<Longrightarrow> fe_le a c"
  unfolding fe_le_def fe_flags_def list_all2_Cons list.rel_inject by (elim conjE) simp

text \<open>A slot moves to a later generation, or keeps its generation and its entry evolves, or the
  entry leaves it.\<close>

definition slot_le :: "moq_fill_entry \<Rightarrow> moq_fill_entry \<Rightarrow> bool" where
  "slot_le e e' \<longleftrightarrow> fe_generation e < fe_generation e'
     \<or> fe_generation e = fe_generation e' \<and> (fe_active e' \<longrightarrow> fe_active e \<and> fe_le e e')"

lemma slot_le_refl [simp]: "slot_le e e"
  by (simp add: slot_le_def)

lemma slot_le_trans: "slot_le a b \<Longrightarrow> slot_le b c \<Longrightarrow> slot_le a c"
  unfolding slot_le_def using fe_le_trans [of a b c] by (elim disjE conjE) auto

lemma fe_le_slot: "fe_le e e' \<Longrightarrow> slot_le e e'"
  by (simp add: slot_le_def fe_le_def)

abbreviation slots :: "moq_fill_table \<Rightarrow> moq_fill_entry list" where
  "slots t \<equiv> elems (ft_entries t)"

definition table_le :: "moq_fill_table \<Rightarrow> moq_fill_table \<Rightarrow> bool" where
  "table_le t t' \<longleftrightarrow> list_all2 slot_le (slots t) (slots t')"

lemma table_le_refl [simp]: "table_le t t"
  by (simp add: table_le_def list_all2_conv_all_nth)

lemma table_le_trans: "table_le a b \<Longrightarrow> table_le b c \<Longrightarrow> table_le a c"
  unfolding table_le_def by (rule list_all2_trans [OF slot_le_trans])

text \<open>The slots that hold an active entry, and those whose entry owns a stream.\<close>

definition active_slots :: "moq_fill_entry list \<Rightarrow> nat set" where
  "active_slots es = {i. i < length es \<and> fe_active (es ! i)}"

definition bound_slots :: "moq_fill_entry list \<Rightarrow> nat set" where
  "bound_slots es = {i. i < length es \<and> fe_active (es ! i) \<and> fe_stream_bound (es ! i)}"

definition fill_inv :: "moq_fill_table \<Rightarrow> bool" where
  "fill_inv t \<longleftrightarrow>
     table_valid t
     \<and> ft_live t = length (filter fe_active (slots t))
     \<and> inj_on (\<lambda>i. fe_initiating_id (slots t ! i)) (active_slots (slots t))
     \<and> inj_on (\<lambda>i. fe_stream (slots t ! i)) (bound_slots (slots t))
     \<and> (\<forall>e \<in> set (slots t). fe_active e \<longrightarrow> fe_inv e)"

text \<open>What a successful lookup means.\<close>

lemma table_valid_len: "table_valid t \<Longrightarrow> length (slots t) = plen (ft_entries t)"
  by (cases "ft_entries t") (auto simp: table_valid_def)

lemma lookup_SomeE:
  assumes "lookup t ref = Some e"
  obtains "table_valid t" and "fr_slot ref < length (slots t)" and "slots t ! fr_slot ref = e"
    and "fe_active e" and "fe_generation e = fr_generation ref" and "fe_parent e = fr_parent ref"
    and "fr_generation ref \<noteq> 0" and "ft_entries t = Arr (slots t)"
proof -
  have v: "table_valid t" and i: "fr_slot ref < plen (ft_entries t)" and e: "slots t ! fr_slot ref = e"
      "fe_active e" "fe_generation e = fr_generation ref" "parent_equal (fe_parent e) (fr_parent ref)"
      "fr_generation ref \<noteq> 0"
    using assms by (auto simp: lookup_def Let_def split: if_splits)
  moreover have "ft_entries t = Arr (slots t)"
    using v i by (intro not_null_Arr) (auto simp: table_valid_def)
  moreover have "fe_parent e = fr_parent ref"
    using e(4) by (simp add: parent_equal_def)
  ultimately show thesis using that table_valid_len by simp
qed

lemma lookup_slot:
  assumes "lookup t ref = Some e" and "fill_inv t"
  shows "fe_inv e" and "fr_slot ref \<in> active_slots (slots t)"
  using assms by (auto elim!: lookup_SomeE simp: fill_inv_def active_slots_def)

lemma put_entry_simps [simp]:
  "slots (put_entry i e t) = (slots t)[i := e]" "ft_live (put_entry i e t) = ft_live t"
  "plen (ft_entries (put_entry i e t)) = length (slots t)"
  by (simp_all add: put_entry_def)

lemma put_entry_valid: "table_valid t \<Longrightarrow> table_valid (put_entry i e t)"
  using table_valid_len [of t] by (auto simp: table_valid_def put_entry_def)

lemma put_entry_same:
  assumes "lookup t ref = Some e"
  shows "put_entry (fr_slot ref) e t = t"
  using assms by (rule lookup_SomeE) (auto simp: put_entry_def)

lemma put_entry_le:
  assumes "lookup t ref = Some e" and "slot_le e e'"
  shows "table_le t (put_entry (fr_slot ref) e' t)"
  using assms by (elim lookup_SomeE) (auto simp: table_le_def list_all2_conv_all_nth nth_list_update)

text \<open>Replacing an active entry by one with the same identifier and the same stream keeps the
  table invariant.\<close>

lemma put_entry_inv:
  assumes inv: "fill_inv t" and look: "lookup t ref = Some e" and le: "fe_le e e'" and e': "fe_inv e'"
    and streams: "inj_on (\<lambda>i. fe_stream ((slots t)[fr_slot ref := e'] ! i))
                    (bound_slots ((slots t)[fr_slot ref := e']))"
  shows "fill_inv (put_entry (fr_slot ref) e' t)"
proof -
  let ?i = "fr_slot ref"
  from look have i: "?i < length (slots t)" "slots t ! ?i = e" "fe_active e"
    by (auto elim: lookup_SomeE)
  have e: "fe_active e'" "fe_initiating_id e' = fe_initiating_id e" using le i by (auto simp: fe_le_def)
  have slots: "active_slots ((slots t)[?i := e']) = active_slots (slots t)"
    using i e by (auto simp: active_slots_def nth_list_update split: if_splits)
  have ids: "(\<lambda>j. fe_initiating_id ((slots t)[?i := e'] ! j)) = (\<lambda>j. fe_initiating_id (slots t ! j))"
    using i e by (auto simp: fun_eq_iff nth_list_update)
  have live: "length (filter fe_active ((slots t)[?i := e'])) = length (filter fe_active (slots t))"
    using count_update [of ?i "slots t" fe_active e'] i e by simp
  have entries: "\<forall>x \<in> set ((slots t)[?i := e']). fe_active x \<longrightarrow> fe_inv x"
    using inv e' set_update_subset_insert [of "slots t" ?i e'] unfolding fill_inv_def by blast
  show ?thesis
    unfolding fill_inv_def put_entry_simps slots ids live
    by (intro conjI put_entry_valid streams entries) (use inv in \<open>auto simp: fill_inv_def\<close>)
qed

section \<open>The contract of an entry operation\<close>

text \<open>Every operation on a child only adds facts, keeps them consistent, and when it refuses it leaves
  the entry as it was. What follows for the table is proved once.\<close>

locale fill_entry_op =
  fixes f :: "moq_fill_entry \<Rightarrow> moq_result \<times> moq_fill_entry"
  assumes op_le: "f e = (rc, e') \<Longrightarrow> fe_le e e'"
    and op_inv: "f e = (rc, e') \<Longrightarrow> fe_inv e \<Longrightarrow> fe_inv e'"
    and op_refuse: "f e = (rc, e') \<Longrightarrow> rc \<noteq> MOQ_OK \<Longrightarrow> e' = e"
begin

lemma with_cases:
  assumes "fill_with f ref t = (rc, t')"
  obtains "lookup t ref = None" "rc = MOQ_ERR_STALE_HANDLE" "t' = t"
  | e e' where "lookup t ref = Some e" "f e = (rc, e')" "t' = put_entry (fr_slot ref) e' t"
  using assms by (auto simp: fill_with_def split: option.splits prod.splits)

lemma with_le: "fill_with f ref t = (rc, t') \<Longrightarrow> table_le t t'"
  by (erule with_cases) (auto intro: put_entry_le fe_le_slot op_le)

lemma with_refuse: "fill_with f ref t = (rc, t') \<Longrightarrow> rc \<noteq> MOQ_OK \<Longrightarrow> t' = t"
  by (erule with_cases) (auto dest: op_refuse simp: put_entry_same)

end

locale fill_entry_op_unbound = fill_entry_op +
  assumes op_stream: "f e = (rc, e') \<Longrightarrow> fe_stream_bound e' = fe_stream_bound e"
begin

lemma with_inv:
  assumes "fill_with f ref t = (rc, t')" and "fill_inv t"
  shows "fill_inv t'"
  using assms(1)
proof (cases rule: with_cases)
  case (2 e e')
  let ?i = "fr_slot ref"
  have i: "?i < length (slots t)" "slots t ! ?i = e" "fe_active e"
    using 2(1) by (auto elim: lookup_SomeE)
  have le: "fe_le e e'" and same: "fe_stream_bound e' = fe_stream_bound e"
    using op_le op_stream 2(2) by auto
  have eq: "bound_slots ((slots t)[?i := e']) = bound_slots (slots t)"
    using i le same by (auto simp: bound_slots_def nth_list_update fe_le_def split: if_splits)
  have "inj_on (\<lambda>j. fe_stream ((slots t)[?i := e'] ! j)) (bound_slots (slots t))
      = inj_on (\<lambda>j. fe_stream (slots t ! j)) (bound_slots (slots t))"
    by (rule inj_on_cong) (use i le in \<open>auto simp: bound_slots_def nth_list_update fe_le_def\<close>)
  then have "inj_on (\<lambda>j. fe_stream ((slots t)[?i := e'] ! j)) (bound_slots ((slots t)[?i := e']))"
    unfolding eq using assms(2) unfolding fill_inv_def by blast
  then show ?thesis
    unfolding 2(3) by (rule put_entry_inv [OF assms(2) 2(1) le op_inv [OF 2(2) lookup_slot(1) [OF 2(1) assms(2)]]])
qed (use assms in simp)

end

text \<open>\<open>reason_first\<close> touches the reason only, and afterwards there is one.\<close>

lemma reason_first_fields [simp]:
  "fe_generation (reason_first r e) = fe_generation e" "fe_active (reason_first r e) = fe_active e"
  "fe_parent (reason_first r e) = fe_parent e" "fe_initiating_id (reason_first r e) = fe_initiating_id e"
  "fe_role (reason_first r e) = fe_role e" "fe_control (reason_first r e) = fe_control e"
  "fe_delivery_known (reason_first r e) = fe_delivery_known e"
  "fe_delivery (reason_first r e) = fe_delivery e" "fe_stream_bound (reason_first r e) = fe_stream_bound e"
  "fe_stream (reason_first r e) = fe_stream e" "fe_data_fin (reason_first r e) = fe_data_fin e"
  "fe_data_reset (reason_first r e) = fe_data_reset e"
  "fe_data_local_retired (reason_first r e) = fe_data_local_retired e"
  "fe_stop_committed (reason_first r e) = fe_stop_committed e"
  "fe_peer_stop (reason_first r e) = fe_peer_stop e"
  "fe_cancel_requested (reason_first r e) = fe_cancel_requested e"
  "fe_abort_requested (reason_first r e) = fe_abort_requested e"
  "fe_finish_requested (reason_first r e) = fe_finish_requested e"
  "fe_parent_cancelled (reason_first r e) = fe_parent_cancelled e"
  "fe_stream_accounted (reason_first r e) = fe_stream_accounted e"
  "fe_terminal_published (reason_first r e) = fe_terminal_published e"
  "fe_terminal_retired (reason_first r e) = fe_terminal_retired e"
  by (simp_all add: reason_first_def)

lemma reason_first_reason [simp]:
  "fe_terminal_reason (reason_first r e) = (if fe_terminal_reason e = 0 then r else fe_terminal_reason e)"
  by (simp add: reason_first_def)

lemmas fe_le_defs = fe_le_def fe_flags_def

lemmas fe_inv_defs = fe_inv_def data_terminal_def stream_ended_def
  no_stream_proven_def stopping_def Let_def

text \<open>Each admissible change keeps the entry invariant.\<close>

named_theorems fe_change \<open>changes of an entry that keep its invariant\<close>

lemma inv_control_accepted [fe_change]:
  "fe_inv e \<Longrightarrow> fe_control e = 0 \<Longrightarrow> fe_delivery_known e \<Longrightarrow> fd_outcome (fe_delivery e) = MOQ_FILL_OUTCOME_NO_STREAM
   \<Longrightarrow> fe_inv (reason_first MOQ_FILL_TERM_NO_STREAM (e\<lparr>fe_control := MOQ_FILL_CONTROL_ACCEPTED\<rparr>))"
  "fe_inv e \<Longrightarrow> fe_control e = 0 \<Longrightarrow> \<not> fe_delivery_known e \<or> fd_outcome (fe_delivery e) \<noteq> MOQ_FILL_OUTCOME_NO_STREAM
   \<Longrightarrow> fe_inv (e\<lparr>fe_control := MOQ_FILL_CONTROL_ACCEPTED\<rparr>)"
  "fe_inv e \<Longrightarrow> fe_control e = 0
   \<Longrightarrow> fe_inv (reason_first MOQ_FILL_TERM_CONTROL_REJECTED (e\<lparr>fe_control := MOQ_FILL_CONTROL_REJECTED\<rparr>))"
  "fe_inv e \<Longrightarrow> fe_control e = 0
   \<Longrightarrow> fe_inv (reason_first MOQ_FILL_TERM_PARENT_CANCELLED
         (e\<lparr>fe_control := MOQ_FILL_CONTROL_RESET, fe_parent_cancelled := True\<rparr>))"
  by (simp add: fe_inv_defs; (blast | (clarsimp; blast)))+

lemma inv_resolved [fe_change]:
  assumes "fe_inv e" "delivery_valid d" "\<not> fe_delivery_known e"
    "\<not> fe_stream_bound e \<or> fd_outcome d \<noteq> MOQ_FILL_OUTCOME_NO_STREAM"
  shows "no_stream_proven (e\<lparr>fe_delivery := d, fe_delivery_known := True\<rparr>) \<Longrightarrow>
      fe_inv (reason_first MOQ_FILL_TERM_NO_STREAM (e\<lparr>fe_delivery := d, fe_delivery_known := True\<rparr>))"
    and "\<not> no_stream_proven (e\<lparr>fe_delivery := d, fe_delivery_known := True\<rparr>) \<Longrightarrow>
      fe_inv (e\<lparr>fe_delivery := d, fe_delivery_known := True\<rparr>)"
  using assms by (simp add: fe_inv_defs; (blast | (clarsimp; blast)))+

lemma inv_stopped [fe_change]:
  "fe_inv e \<Longrightarrow> fe_role e = MOQ_FILL_SUBSCRIBER
   \<Longrightarrow> fe_inv (reason_first MOQ_FILL_TERM_CANCELLED (e\<lparr>fe_cancel_requested := True\<rparr>))"
  "fe_inv e \<Longrightarrow> fe_role e = MOQ_FILL_PUBLISHER
   \<Longrightarrow> fe_inv (reason_first MOQ_FILL_TERM_ABORTED (e\<lparr>fe_abort_requested := True\<rparr>))"
  "fe_inv e \<Longrightarrow> fe_role e = MOQ_FILL_PUBLISHER \<Longrightarrow> fe_inv (e\<lparr>fe_finish_requested := True\<rparr>)"
  "fe_inv e \<Longrightarrow> fe_inv (reason_first MOQ_FILL_TERM_PARENT_CANCELLED (e\<lparr>fe_parent_cancelled := True\<rparr>))"
  "fe_inv e \<Longrightarrow> fe_role e = MOQ_FILL_PUBLISHER
   \<Longrightarrow> fe_inv (reason_first MOQ_FILL_TERM_RESET (e\<lparr>fe_peer_stop := True\<rparr>))"
  "fe_inv e \<Longrightarrow> fe_role e = MOQ_FILL_PUBLISHER \<Longrightarrow> data_terminal (e\<lparr>fe_peer_stop := True\<rparr>)
   \<Longrightarrow> fe_inv (e\<lparr>fe_peer_stop := True\<rparr>)"
  "fe_inv e \<Longrightarrow> fe_role e = MOQ_FILL_SUBSCRIBER \<Longrightarrow> fe_inv (e\<lparr>fe_stop_committed := True\<rparr>)"
  by (simp add: fe_inv_defs; (blast | (clarsimp; blast)))+

lemma inv_ended [fe_change]:
  "fe_inv e \<Longrightarrow> fe_stream_bound e \<Longrightarrow> \<not> stream_ended e
   \<Longrightarrow> fe_inv (reason_first MOQ_FILL_TERM_RESET (e\<lparr>fe_data_reset := True\<rparr>))"
  "fe_inv e \<Longrightarrow> fe_stream_bound e \<Longrightarrow> \<not> stream_ended e
   \<Longrightarrow> fe_inv (reason_first MOQ_FILL_TERM_COMPLETE (e\<lparr>fe_data_fin := True\<rparr>))"
  "fe_inv e \<Longrightarrow> fe_stream_bound e \<Longrightarrow> fe_stop_committed e
   \<Longrightarrow> fe_inv (e\<lparr>fe_data_local_retired := True\<rparr>)"
  by (simp add: fe_inv_defs; (blast | (clarsimp; blast)))+

lemma terminal_ready_reason: "terminal_ready e \<Longrightarrow> fe_terminal_reason e \<noteq> 0"
  by (simp add: terminal_ready_def split: if_splits)

lemma inv_terminal [fe_change]:
  assumes "fe_inv e"
  shows "stream_ended e \<Longrightarrow> fe_inv (e\<lparr>fe_stream_accounted := True\<rparr>)"
    and "terminal_ready e \<Longrightarrow> fe_inv (e\<lparr>fe_terminal_published := True\<rparr>)"
    and "fe_terminal_published e \<Longrightarrow> fe_inv (e\<lparr>fe_terminal_retired := True\<rparr>)"
  using assms terminal_ready_reason [of e]
  unfolding fe_inv_def data_terminal_def stream_ended_def no_stream_proven_def stopping_def
  by simp_all

interpretation op_response: fill_entry_op_unbound "fill_control_response_entry rid accepted" for rid accepted
  by unfold_locales
     (auto simp: fill_control_response_entry_def fe_le_defs Let_def split: if_splits intro: fe_change)

interpretation op_control_reset: fill_entry_op_unbound "fill_control_reset_entry rid" for rid
  by unfold_locales
     (auto simp: fill_control_reset_entry_def fe_le_defs split: if_splits intro: fe_change)

text \<open>The delivery is checked before the entry is looked up.\<close>

definition fill_resolve_checked ::
  "u64 \<Rightarrow> moq_fill_delivery \<Rightarrow> moq_fill_entry \<Rightarrow> moq_result \<times> moq_fill_entry" where
  "fill_resolve_checked rid d e =
     (if delivery_valid d then fill_resolve_delivery_entry rid d e else (MOQ_ERR_INVAL, e))"

interpretation op_resolve: fill_entry_op_unbound "fill_resolve_checked rid d" for rid d
  by unfold_locales
     (auto simp: fill_resolve_checked_def fill_resolve_delivery_entry_def fe_le_defs Let_def
        split: if_splits intro: fe_change)

interpretation op_cancel: fill_entry_op_unbound fill_cancel_entry
  by unfold_locales
     (auto simp: fill_cancel_entry_def fe_le_defs split: if_splits intro: fe_change)

interpretation op_abort: fill_entry_op_unbound fill_abort_entry
  by unfold_locales
     (auto simp: fill_abort_entry_def fe_le_defs split: if_splits intro: fe_change)

interpretation op_finish: fill_entry_op_unbound fill_finish_entry
  by unfold_locales
     (auto simp: fill_finish_entry_def fe_le_defs split: if_splits intro: fe_change)

interpretation op_parent_cancel: fill_entry_op_unbound fill_parent_cancel_entry
  by unfold_locales
     (auto simp: fill_parent_cancel_entry_def fe_le_defs split: if_splits intro: fe_change)

interpretation op_terminal: fill_entry_op_unbound "fill_terminal_entry stream reset" for stream reset
  by unfold_locales
     (auto simp: fill_terminal_entry_def fe_le_defs split: if_splits intro: fe_change)

interpretation op_local_retired: fill_entry_op_unbound "fill_local_retired_entry stream" for stream
  by unfold_locales
     (auto simp: fill_local_retired_entry_def fe_le_defs split: if_splits intro: fe_change)

interpretation op_peer_stop: fill_entry_op_unbound "fill_peer_stop_entry stream" for stream
  by unfold_locales
     (auto simp: fill_peer_stop_entry_def fe_le_defs Let_def split: if_splits intro: fe_change)

interpretation op_accounted: fill_entry_op_unbound fill_accounted_entry
  by unfold_locales
     (auto simp: fill_accounted_entry_def fe_le_defs split: if_splits intro: fe_change)

interpretation op_published: fill_entry_op_unbound fill_terminal_committed_entry
  by unfold_locales
     (auto simp: fill_terminal_committed_entry_def fe_le_defs split: if_splits intro: fe_change)

interpretation op_retired: fill_entry_op_unbound fill_terminal_retired_entry
  by unfold_locales
     (auto simp: fill_terminal_retired_entry_def fe_le_defs split: if_splits intro: fe_change)

text \<open>What each committed action presupposes.\<close>

lemma next_actionD:
  "next_action e = MOQ_FILL_ACTION_STOP \<Longrightarrow> fe_role e = MOQ_FILL_SUBSCRIBER"
  "next_action e = MOQ_FILL_ACTION_FIN \<Longrightarrow> fe_stream_bound e \<and> \<not> stream_ended e"
  "next_action e = MOQ_FILL_ACTION_RESET \<Longrightarrow> fe_stream_bound e \<and> \<not> stream_ended e"
  by (auto simp: next_action_def split: if_splits)

lemma action_cases:
  "\<not> (action < MOQ_FILL_ACTION_FIN \<or> MOQ_FILL_ACTION_STOP < action) \<Longrightarrow>
   action = MOQ_FILL_ACTION_FIN \<or> action = MOQ_FILL_ACTION_RESET \<or> action = MOQ_FILL_ACTION_STOP"
  for action :: u32
  by (simp add: word_less_nat_alt word_unat_eq_iff) linarith

interpretation op_action: fill_entry_op_unbound "fill_action_entry action" for action
proof (unfold_locales, goal_cases)
  case (1 e rc e')
  then show ?case by (auto simp: fill_action_entry_def fe_le_defs split: if_splits)
next
  case (2 e rc e')
  then show ?case using action_cases [of action] next_actionD [of e]
    by (auto simp: fill_action_entry_def split: if_splits intro: fe_change)
qed (auto simp: fill_action_entry_def split: if_splits)

text \<open>Binding a stream: the only change that touches the set of owned streams.\<close>

definition fill_bind_checked :: "moq_fill_entry list \<Rightarrow> u64 \<Rightarrow> u32
    \<Rightarrow> moq_fill_entry \<Rightarrow> moq_result \<times> moq_fill_entry" where
  "fill_bind_checked es stream role e =
     (if stream = 0 then (MOQ_ERR_INVAL, e) else fill_bind_entry es stream role e)"

lemma inv_bound [fe_change]:
  assumes "fe_inv e" and "\<not> fe_stream_bound e" and "stream \<noteq> 0"
    and "\<not> (fe_delivery_known e \<and> fd_outcome (fe_delivery e) = MOQ_FILL_OUTCOME_NO_STREAM)"
  shows "fe_inv (e\<lparr>fe_stream_bound := True, fe_stream := stream\<rparr>)"
  using assms by (simp add: fe_inv_defs) blast

interpretation op_bind: fill_entry_op "fill_bind_checked es stream role" for es stream role
  by unfold_locales
     (auto simp: fill_bind_checked_def fill_bind_entry_def fe_le_defs split: if_splits intro: fe_change)

lemma bind_fresh:
  assumes "fill_bind_checked es stream role e = (rc, e')"
  shows "e' = e \<or> e' = e\<lparr>fe_stream_bound := True, fe_stream := stream\<rparr>
    \<and> (\<forall>x \<in> set es. fe_active x \<and> fe_stream_bound x \<longrightarrow> fe_stream x \<noteq> stream)"
  using assms by (auto simp: fill_bind_checked_def fill_bind_entry_def list_ex_iff split: if_splits)

lemma bind_inv:
  assumes "fill_with (fill_bind_checked (slots t) stream role) ref t = (rc, t')" and inv: "fill_inv t"
  shows "fill_inv t'"
  using assms(1)
proof (cases rule: op_bind.with_cases)
  case (2 e e')
  let ?i = "fr_slot ref" and ?s = "\<lambda>xs j. fe_stream (xs ! j)"
  have i: "?i < length (slots t)" "slots t ! ?i = e" using 2(1) by (auto elim: lookup_SomeE)
  have old: "inj_on (?s (slots t)) (bound_slots (slots t))" using inv by (simp add: fill_inv_def)
  from bind_fresh [OF 2(2)] consider "e' = e"
    | "e' = e\<lparr>fe_stream_bound := True, fe_stream := stream\<rparr>"
      "\<forall>x \<in> set (slots t). fe_active x \<and> fe_stream_bound x \<longrightarrow> fe_stream x \<noteq> stream" by blast
  then have "inj_on (?s ((slots t)[?i := e'])) (bound_slots ((slots t)[?i := e']))"
  proof cases
    case 1
    then have "(slots t)[?i := e'] = slots t" using i list_update_id by metis
    then show ?thesis using old by simp
  next
    case new: 2
    have "?s (slots t) j \<noteq> stream" if "j \<in> bound_slots (slots t)" for j
      using new(2) that nth_mem by (auto simp: bound_slots_def)
    then show ?thesis
      using old i new(1) by (auto simp: inj_on_def bound_slots_def nth_list_update)
  qed
  then show ?thesis
    unfolding 2(3)
    by (rule put_entry_inv [OF inv 2(1) op_bind.op_le [OF 2(2)]
          op_bind.op_inv [OF 2(2) lookup_slot(1) [OF 2(1) inv]]])
qed (use inv in simp)

section \<open>Commit and removal\<close>

lemma generation_next:
  fixes g :: u64
  assumes "g \<noteq> UINT64_MAX"
  shows "g < g + 1" and "g + 1 \<noteq> 0"
proof -
  have "(- 1 :: u64) = UINT64_MAX" by simp
  then show ne: "g + 1 \<noteq> 0" using assms by (metis eq_neg_iff_add_eq_0)
  then have "unat (1 + g) = Suc (unat g)" by (intro unatSuc) (simp add: add.commute)
  then show "g < g + 1" by (simp add: word_less_nat_alt add.commute)
qed

definition fill_fresh :: "moq_fill_reservation \<Rightarrow> moq_fill_entry" where
  "fill_fresh r = fill_entry_zero\<lparr>fe_active := True, fe_generation := fr_generation (fv_ref r),
                     fe_parent := fr_parent (fv_ref r), fe_initiating_id := fv_initiating_id r,
                     fe_role := fv_role r, fe_delivery_known := fv_delivery_known r,
                     fe_delivery := (if fv_delivery_known r then fv_delivery r else fill_delivery_zero)\<rparr>"

lemma commit_cases:
  assumes "moq_fill_commit r t = (rc, t')"
  obtains "rc \<noteq> MOQ_OK" "t' = t"
  | e where "rc = MOQ_OK" "table_valid t" "fr_slot (fv_ref r) < length (slots t)"
      "slots t ! fr_slot (fv_ref r) = e" "\<not> fe_active e" "fe_generation e \<noteq> UINT64_MAX"
      "fr_generation (fv_ref r) = fe_generation e + 1" "ft_live t < plen (ft_entries t)"
      "\<forall>x \<in> set (slots t). fe_active x \<longrightarrow> fe_initiating_id x \<noteq> fv_initiating_id r"
      "parent_valid (fr_parent (fv_ref r))"
      "fv_role r = MOQ_FILL_SUBSCRIBER \<or> fv_role r = MOQ_FILL_PUBLISHER"
      "fv_delivery_known r \<longrightarrow> delivery_valid (fv_delivery r)"
      "t' = (put_entry (fr_slot (fv_ref r)) (fill_fresh r) t)\<lparr>ft_live := ft_live t + 1\<rparr>"
proof (cases "moq_fill_check_commit t r = MOQ_OK")
  case False
  then show thesis using assms that(1) by (auto simp: moq_fill_commit_def)
next
  case True
  then have "t' = (put_entry (fr_slot (fv_ref r)) (fill_fresh r) t)\<lparr>ft_live := ft_live t + 1\<rparr>" "rc = MOQ_OK"
    using assms by (auto simp: moq_fill_commit_def fill_fresh_def Let_def)
  moreover have "table_valid t"
    using True by (simp add: moq_fill_check_commit_def split: if_splits)
  ultimately show thesis using True that(2) table_valid_len [of t]
    by (auto simp: moq_fill_check_commit_def Let_def list_ex_iff split: if_splits)
qed

lemma fresh_inv:
  assumes "fr_generation (fv_ref r) \<noteq> 0" "parent_valid (fr_parent (fv_ref r))"
    "fv_role r = MOQ_FILL_SUBSCRIBER \<or> fv_role r = MOQ_FILL_PUBLISHER"
    "fv_delivery_known r \<longrightarrow> delivery_valid (fv_delivery r)"
  shows "fe_inv (fill_fresh r)"
  using assms unfolding fe_inv_defs fill_fresh_def fill_entry_zero_def by simp

lemma fresh_fields [simp]:
  "fe_active (fill_fresh r)" "\<not> fe_stream_bound (fill_fresh r)"
  "fe_initiating_id (fill_fresh r) = fv_initiating_id r"
  "fe_generation (fill_fresh r) = fr_generation (fv_ref r)"
  by (simp_all add: fill_fresh_def fill_entry_zero_def)

lemma commit_inv:
  assumes "moq_fill_commit r t = (rc, t')" and inv: "fill_inv t"
  shows "fill_inv t'"
  using assms(1)
proof (cases rule: commit_cases)
  case (2 e)
  let ?i = "fr_slot (fv_ref r)" and ?n = "fill_fresh r"
  have "fr_generation (fv_ref r) \<noteq> 0" using 2(6,7) generation_next by simp
  then have fresh: "fe_inv ?n" using 2 fresh_inv by simp
  have live: "length (filter fe_active ((slots t)[?i := ?n])) = ft_live t + 1"
    using count_update [of ?i "slots t" fe_active ?n] 2 inv by (simp add: fill_inv_def)
  have ids: "inj_on (\<lambda>i. fe_initiating_id ((slots t)[?i := ?n] ! i)) (active_slots ((slots t)[?i := ?n]))"
    using inv 2 unfolding active_slots_def fill_inv_def by (intro inj_on_fresh) auto
  have streams: "inj_on (\<lambda>i. fe_stream ((slots t)[?i := ?n] ! i)) (bound_slots ((slots t)[?i := ?n]))"
    using inv 2 unfolding bound_slots_def fill_inv_def by (intro inj_on_removed) auto
  have entries: "\<forall>x \<in> set ((slots t)[?i := ?n]). fe_active x \<longrightarrow> fe_inv x"
    using inv fresh unfolding fill_inv_def by (intro update_set_all) auto
  have "table_valid t'"
    using 2 table_valid_len [of t] by (auto simp: table_valid_def put_entry_def)
  then show ?thesis
    using 2 live ids streams entries by (simp add: fill_inv_def)
qed (use inv in simp)

lemma commit_le:
  assumes "moq_fill_commit r t = (rc, t')"
  shows "table_le t t'"
  using assms
proof (cases rule: commit_cases)
  case (2 e)
  then have "slot_le e (fill_fresh r)"
    using generation_next(1) [of "fe_generation e"] by (simp add: slot_le_def)
  then show ?thesis using 2
    by (auto simp: table_le_def list_all2_conv_all_nth nth_list_update)
qed simp

lemma clear_slot_inv:
  assumes look: "lookup t ref = Some e" and inv: "fill_inv t"
  shows "fill_inv (clear_slot (fr_slot ref) e t)"
proof -
  let ?i = "fr_slot ref" and ?n = "fill_entry_zero\<lparr>fe_generation := fe_generation e\<rparr>"
  have i: "table_valid t" "?i < length (slots t)" "slots t ! ?i = e" "fe_active e"
    using look by (auto elim: lookup_SomeE)
  have n: "\<not> fe_active ?n" by (simp add: fill_entry_zero_def)
  have live: "length (filter fe_active ((slots t)[?i := ?n])) = ft_live t - 1"
    using count_update [of ?i "slots t" fe_active ?n] i n inv by (simp add: fill_inv_def)
  have ids: "inj_on (\<lambda>i. fe_initiating_id ((slots t)[?i := ?n] ! i)) (active_slots ((slots t)[?i := ?n]))"
    using inv n i unfolding active_slots_def fill_inv_def by (intro inj_on_removed) auto
  have streams: "inj_on (\<lambda>i. fe_stream ((slots t)[?i := ?n] ! i)) (bound_slots ((slots t)[?i := ?n]))"
    using inv n i unfolding bound_slots_def fill_inv_def by (intro inj_on_removed) auto
  have entries: "\<forall>x \<in> set ((slots t)[?i := ?n]). fe_active x \<longrightarrow> fe_inv x"
    using inv n unfolding fill_inv_def by (intro update_set_all) auto
  have "table_valid (clear_slot ?i e t)"
    using i table_valid_len [of t] by (auto simp: table_valid_def put_entry_def clear_slot_def)
  then show ?thesis
    using live ids streams entries by (simp add: fill_inv_def clear_slot_def)
qed

lemma clear_slot_le:
  assumes "lookup t ref = Some e"
  shows "table_le t (clear_slot (fr_slot ref) e t)"
proof -
  have "slot_le e (fill_entry_zero\<lparr>fe_generation := fe_generation e\<rparr>)"
    by (simp add: slot_le_def fill_entry_zero_def)
  then show ?thesis
    using put_entry_le [OF assms] by (simp add: table_le_def clear_slot_def)
qed

section \<open>Runs\<close>

text \<open>The state-changing calls of the table's interface.\<close>

datatype fill_op =
  F_Commit moq_fill_reservation | F_Control_Response moq_fill_ref u64 bool
| F_Control_Reset moq_fill_ref u64 | F_Resolve_Delivery moq_fill_ref u64 moq_fill_delivery
| F_Cancel moq_fill_ref | F_Abort moq_fill_ref | F_Finish moq_fill_ref | F_Parent_Cancel moq_fill_ref
| F_Bind_Received moq_fill_ref u64 | F_Header_Committed moq_fill_ref u64
| F_Peer_Fin moq_fill_ref u64 | F_Peer_Reset moq_fill_ref u64 | F_Local_Retired moq_fill_ref u64
| F_Peer_Stop moq_fill_ref u64 | F_Action_Committed moq_fill_ref u32
| F_Stream_Accounted moq_fill_ref | F_Terminal_Committed moq_fill_ref | F_Terminal_Retired moq_fill_ref
| F_Reclaim moq_fill_ref | F_Release_Unbound moq_fill_ref

fun fill_apply :: "fill_op \<Rightarrow> moq_fill_table \<Rightarrow> moq_result \<times> moq_fill_table" where
  "fill_apply (F_Commit r) = moq_fill_commit r"
| "fill_apply (F_Control_Response ref rid accepted) = moq_fill_control_response ref rid accepted"
| "fill_apply (F_Control_Reset ref rid) = moq_fill_control_reset ref rid"
| "fill_apply (F_Resolve_Delivery ref rid d) = moq_fill_resolve_delivery ref rid d"
| "fill_apply (F_Cancel ref) = moq_fill_cancel ref"
| "fill_apply (F_Abort ref) = moq_fill_abort ref"
| "fill_apply (F_Finish ref) = moq_fill_finish ref"
| "fill_apply (F_Parent_Cancel ref) = moq_fill_parent_cancel ref"
| "fill_apply (F_Bind_Received ref stream) = moq_fill_bind_received ref stream"
| "fill_apply (F_Header_Committed ref stream) = moq_fill_header_committed ref stream"
| "fill_apply (F_Peer_Fin ref stream) = moq_fill_peer_fin ref stream"
| "fill_apply (F_Peer_Reset ref stream) = moq_fill_peer_reset ref stream"
| "fill_apply (F_Local_Retired ref stream) = moq_fill_local_retired ref stream"
| "fill_apply (F_Peer_Stop ref stream) = moq_fill_peer_stop ref stream"
| "fill_apply (F_Action_Committed ref action) = moq_fill_action_committed ref action"
| "fill_apply (F_Stream_Accounted ref) = moq_fill_stream_accounted ref"
| "fill_apply (F_Terminal_Committed ref) = moq_fill_terminal_committed ref"
| "fill_apply (F_Terminal_Retired ref) = moq_fill_terminal_retired ref"
| "fill_apply (F_Reclaim ref) = moq_fill_reclaim ref"
| "fill_apply (F_Release_Unbound ref) = moq_fill_release_unbound ref"

primrec fill_run :: "fill_op list \<Rightarrow> moq_fill_table \<Rightarrow> moq_fill_table" where
  "fill_run [] t = t"
| "fill_run (op # ops) t = fill_run ops (snd (fill_apply op t))"

inductive fill_reach :: "moq_fill_table \<Rightarrow> bool" where
  fill_reach_init: "moq_fill_table_init storage t = (MOQ_OK, t0) \<Longrightarrow> fill_reach t0"
| fill_reach_step: "fill_reach t \<Longrightarrow> fill_apply op t = (rc, t') \<Longrightarrow> fill_reach t'"

inductive_simps fill_reach_simp: "fill_reach t"

lemma resolve_checked:
  "moq_fill_resolve_delivery ref rid d t =
   (if \<not> delivery_valid d then (MOQ_ERR_INVAL, t) else fill_with (fill_resolve_checked rid d) ref t)"
  by (simp add: moq_fill_resolve_delivery_def fill_with_def fill_resolve_checked_def split: option.split)

lemma bind_checked:
  "bind_stream ref stream role t =
   (if stream = 0 then (MOQ_ERR_INVAL, t)
    else fill_with (fill_bind_checked (slots t) stream role) ref t)"
  by (simp add: bind_stream_def fill_with_def fill_bind_checked_def split: option.split)

lemmas fill_entry_calls = moq_fill_control_response_def moq_fill_control_reset_def resolve_checked
  moq_fill_cancel_def moq_fill_abort_def moq_fill_finish_def moq_fill_parent_cancel_def
  moq_fill_peer_fin_def moq_fill_peer_reset_def receive_terminal_def moq_fill_local_retired_def
  moq_fill_peer_stop_def moq_fill_action_committed_def moq_fill_stream_accounted_def
  moq_fill_terminal_committed_def moq_fill_terminal_retired_def

lemmas fill_bind_calls = moq_fill_bind_received_def moq_fill_header_committed_def bind_checked

lemma removal_cases:
  assumes "fill_apply op t = (rc, t')" and "op = F_Reclaim ref \<or> op = F_Release_Unbound ref"
  obtains "rc \<noteq> MOQ_OK" "t' = t"
  | e where "rc = MOQ_OK" "lookup t ref = Some e" "fe_terminal_published e"
      "op = F_Reclaim ref \<Longrightarrow> reclaimable e" "op = F_Release_Unbound ref \<Longrightarrow> \<not> fe_stream_bound e"
      "t' = clear_slot (fr_slot ref) e t"
  using assms
  by (auto simp: moq_fill_reclaim_def moq_fill_release_unbound_def reclaimable_def
      split: option.splits if_splits)

lemma fill_step_le: "fill_apply op t = (rc, t') \<Longrightarrow> table_le t t'"
proof (cases op)
  case (F_Commit r) assume "fill_apply op t = (rc, t')"
  with F_Commit show ?thesis by (simp add: commit_le)
next
  case (F_Reclaim ref) assume "fill_apply op t = (rc, t')"
  then show ?thesis by (rule removal_cases) (use F_Reclaim clear_slot_le in auto)
next
  case (F_Release_Unbound ref) assume "fill_apply op t = (rc, t')"
  then show ?thesis by (rule removal_cases) (use F_Release_Unbound clear_slot_le in auto)
qed (auto simp: fill_entry_calls fill_bind_calls split: if_splits
      dest: op_response.with_le op_control_reset.with_le op_resolve.with_le op_cancel.with_le
        op_abort.with_le op_finish.with_le op_parent_cancel.with_le op_bind.with_le
        op_terminal.with_le op_local_retired.with_le op_peer_stop.with_le op_action.with_le
        op_accounted.with_le op_published.with_le op_retired.with_le)

lemma fill_step_refuse: "fill_apply op t = (rc, t') \<Longrightarrow> rc \<noteq> MOQ_OK \<Longrightarrow> t' = t"
proof (cases op)
  case (F_Commit r) assume "fill_apply op t = (rc, t')" "rc \<noteq> MOQ_OK"
  with F_Commit show ?thesis by (auto elim: commit_cases)
next
  case (F_Reclaim ref) assume "fill_apply op t = (rc, t')" "rc \<noteq> MOQ_OK"
  then show ?thesis by (elim removal_cases) (use F_Reclaim in auto)
next
  case (F_Release_Unbound ref) assume "fill_apply op t = (rc, t')" "rc \<noteq> MOQ_OK"
  then show ?thesis by (elim removal_cases) (use F_Release_Unbound in auto)
qed (auto simp: fill_entry_calls fill_bind_calls split: if_splits
      dest: op_response.with_refuse op_control_reset.with_refuse op_resolve.with_refuse
        op_cancel.with_refuse op_abort.with_refuse op_finish.with_refuse
        op_parent_cancel.with_refuse op_bind.with_refuse op_terminal.with_refuse
        op_local_retired.with_refuse op_peer_stop.with_refuse op_action.with_refuse
        op_accounted.with_refuse op_published.with_refuse op_retired.with_refuse)

lemma fill_step_inv: "fill_apply op t = (rc, t') \<Longrightarrow> fill_inv t \<Longrightarrow> fill_inv t'"
proof (cases op)
  case (F_Commit r) assume "fill_apply op t = (rc, t')" "fill_inv t"
  with F_Commit show ?thesis by (simp add: commit_inv)
next
  case (F_Reclaim ref) assume "fill_apply op t = (rc, t')" "fill_inv t"
  then show ?thesis by (elim removal_cases) (use F_Reclaim clear_slot_inv in auto)
next
  case (F_Release_Unbound ref) assume "fill_apply op t = (rc, t')" "fill_inv t"
  then show ?thesis by (elim removal_cases) (use F_Release_Unbound clear_slot_inv in auto)
qed (auto simp: fill_entry_calls fill_bind_calls split: if_splits
      dest: op_response.with_inv op_control_reset.with_inv op_resolve.with_inv op_cancel.with_inv
        op_abort.with_inv op_finish.with_inv op_parent_cancel.with_inv bind_inv
        op_terminal.with_inv op_local_retired.with_inv op_peer_stop.with_inv op_action.with_inv
        op_accounted.with_inv op_published.with_inv op_retired.with_inv)

lemma fill_init_inv:
  assumes "moq_fill_table_init storage t = (MOQ_OK, t0)"
  shows "fill_inv t0"
proof -
  have entries: "ft_live t0 = 0 \<and> table_valid t0 \<and> (\<forall>e \<in> set (slots t0). \<not> fe_active e)"
    using assms by (cases storage)
      (auto simp: moq_fill_table_init_def table_valid_def fill_entry_zero_def split: if_splits)
  then have "active_slots (slots t0) = {}" "bound_slots (slots t0) = {}" "filter fe_active (slots t0) = []"
    by (auto simp: active_slots_def bound_slots_def)
  with entries show ?thesis by (simp add: fill_inv_def)
qed

lemma fill_reach_inv: "fill_reach t \<Longrightarrow> fill_inv t"
  by (induction rule: fill_reach.induct) (auto intro: fill_init_inv fill_step_inv)

lemma fill_run_le: "table_le t (fill_run ops t)"
proof (induction ops arbitrary: t)
  case (Cons op ops)
  have "table_le t (snd (fill_apply op t))" by (rule fill_step_le) (rule prod.collapse [symmetric])
  then show ?case using Cons.IH [of "snd (fill_apply op t)"] by (auto intro: table_le_trans)
qed simp

lemma fill_run_reach: "fill_reach t \<Longrightarrow> fill_reach (fill_run ops t)"
  by (induction ops arbitrary: t) (auto intro: fill_reach_step prod.collapse [symmetric])

section \<open>The table as a map from request identifiers\<close>

definition fill_abs :: "moq_fill_table \<Rightarrow> u64 \<Rightarrow> moq_fill_entry option" where
  "fill_abs t rid = find (\<lambda>e. fe_active e \<and> fe_initiating_id e = rid) (slots t)"

lemma fill_abs_keyed: "fill_abs t = keyed fe_active fe_initiating_id (slots t)"
  by (simp add: fun_eq_iff fill_abs_def keyed_def)

lemma fill_inv_unique: "fill_inv t \<Longrightarrow> key_unique fe_active fe_initiating_id (slots t)"
  by (simp add: fill_inv_def key_unique_def active_slots_def)

lemma fill_find_loop_iff:
  "fill_find_loop rid k es = Some ref \<longleftrightarrow>
   (\<exists>i < length es. fe_active (es ! i) \<and> fe_initiating_id (es ! i) = rid
      \<and> (\<forall>j < i. \<not> (fe_active (es ! j) \<and> fe_initiating_id (es ! j) = rid))
      \<and> ref = \<lparr>fr_slot = k + i, fr_generation = fe_generation (es ! i), fr_parent = fe_parent (es ! i)\<rparr>)"
proof (induction es arbitrary: k)
  case (Cons e es)
  show ?case
  proof (cases "fe_active e \<and> fe_initiating_id e = rid")
    case True
    then show ?thesis by (auto intro!: exI [of _ 0] simp: Ex_less_Suc2 All_less_Suc2)
  next
    case False
    then show ?thesis by (auto simp: Cons.IH Ex_less_Suc2 All_less_Suc2)
  qed
qed simp

text \<open>\<open>moq_fill_find\<close> looks the identifier up in the map.\<close>

lemma find_abs:
  assumes "fill_inv t"
  shows "moq_fill_find t rid = Inr ref \<Longrightarrow> \<exists>e. fill_abs t rid = Some e \<and> lookup t ref = Some e"
    and "moq_fill_find t rid = Inl err \<Longrightarrow> fill_abs t rid = None"
proof -
  have v: "table_valid t" using assms by (simp add: fill_inv_def)
  show "\<exists>e. fill_abs t rid = Some e \<and> lookup t ref = Some e" if "moq_fill_find t rid = Inr ref"
  proof -
    have "fill_find_loop rid 0 (slots t) = Some ref"
      using that v by (simp add: moq_fill_find_def split: option.splits)
    then obtain i where i: "i < length (slots t)" "fe_active (slots t ! i)" "fe_initiating_id (slots t ! i) = rid"
        "ref = \<lparr>fr_slot = i, fr_generation = fe_generation (slots t ! i), fr_parent = fe_parent (slots t ! i)\<rparr>"
      unfolding fill_find_loop_iff by auto
    moreover have "fe_inv (slots t ! i)" using assms i by (simp add: fill_inv_def)
    ultimately have "lookup t ref = Some (slots t ! i)"
      using v table_valid_len [OF v] by (simp add: lookup_def parent_equal_def fe_inv_def)
    moreover have "fill_abs t rid = Some (slots t ! i)"
      using i keyed_Some_iff [OF fill_inv_unique [OF assms]] unfolding fill_abs_keyed by blast
    ultimately show ?thesis by blast
  qed
  show "fill_abs t rid = None" if "moq_fill_find t rid = Inl err"
  proof (cases "fill_abs t rid")
    case (Some e)
    then obtain n where "n < length (slots t)" "fe_active (slots t ! n) \<and> fe_initiating_id (slots t ! n) = rid"
        "\<forall>j < n. \<not> (fe_active (slots t ! j) \<and> fe_initiating_id (slots t ! j) = rid)"
      by (auto simp: fill_abs_def find_Some_iff)
    then have "\<exists>ref. fill_find_loop rid 0 (slots t) = Some ref" unfolding fill_find_loop_iff by blast
    then show ?thesis using that v by (auto simp: moq_fill_find_def)
  qed simp
qed

lemma fill_scan_Inr:
  "fill_scan rid k slot es = Inr (Some s) \<Longrightarrow>
   (\<forall>e \<in> set es. \<not> (fe_active e \<and> fe_initiating_id e = rid))
   \<and> (slot = Some s \<or> k \<le> s \<and> s < k + length es \<and> \<not> fe_active (es ! (s - k))
        \<and> fe_generation (es ! (s - k)) \<noteq> UINT64_MAX)"
proof (induction es arbitrary: k slot)
  case (Cons e es)
  let ?slot = "if \<not> fe_active e \<and> fe_generation e \<noteq> UINT64_MAX \<and> slot = None then Some k else slot"
  have *: "\<not> (fe_active e \<and> fe_initiating_id e = rid)" "fill_scan rid (k + 1) ?slot es = Inr (Some s)"
    using Cons.prems by (auto split: if_splits)
  from Cons.IH [OF *(2)] consider "?slot = Some s"
    | "k + 1 \<le> s" "s < k + 1 + length es" "\<not> fe_active (es ! (s - (k + 1)))"
      "fe_generation (es ! (s - (k + 1))) \<noteq> UINT64_MAX" by blast
  then show ?case
  proof cases
    case 1
    then show ?thesis using Cons.IH [OF *(2)] *(1) by (auto split: if_splits)
  next
    case 2
    then have "(e # es) ! (s - k) = es ! (s - (k + 1))" by (simp add: nth_Cons')
    then show ?thesis using 2 Cons.IH [OF *(2)] *(1) by auto
  qed
qed simp

text \<open>A reservation commits on the table it was prepared from.\<close>

lemma prepare_commits:
  assumes "moq_fill_prepare t parent rid role delivery = Inr r" and "fill_inv t"
  shows "moq_fill_check_commit t r = MOQ_OK"
proof -
  let ?i = "fr_slot (fv_ref r)"
  obtain s where s: "fill_scan rid 0 None (slots t) = Inr (Some s)"
    using assms(1) by (auto simp: moq_fill_prepare_def split: if_splits sum.splits option.splits)
  have free: "\<forall>e \<in> set (slots t). \<not> (fe_active e \<and> fe_initiating_id e = rid)" "s < length (slots t)"
      "\<not> fe_active (slots t ! s)" "fe_generation (slots t ! s) \<noteq> UINT64_MAX"
    using fill_scan_Inr [OF s] by auto
  have r: "?i = s" "fr_generation (fv_ref r) = fe_generation (slots t ! s) + 1" "fr_parent (fv_ref r) = parent"
      "fv_initiating_id r = rid" "fv_role r = role" "fv_delivery_known r = (delivery \<noteq> None)"
      "table_valid t" "parent_valid parent" "role = MOQ_FILL_SUBSCRIBER \<or> role = MOQ_FILL_PUBLISHER"
      "fv_delivery_known r \<longrightarrow> delivery_valid (fv_delivery r)"
    using assms(1) s by (auto simp: moq_fill_prepare_def split: if_splits option.splits)
  have "length (filter fe_active (slots t)) < length (slots t)"
    using free(2,3) length_filter_less [of "slots t ! s" "slots t" fe_active] by simp
  then have "ft_live t < plen (ft_entries t)"
    using assms(2) table_valid_len [of t] by (simp add: fill_inv_def)
  then show ?thesis
    using free r table_valid_len [OF r(7)]
    by (auto simp: moq_fill_check_commit_def Let_def list_ex_iff)
qed

lemma commit_abs:
  assumes "moq_fill_commit r t = (MOQ_OK, t')" and "fill_inv t"
  shows "fill_abs t (fv_initiating_id r) = None"
    and "fill_abs t' = (fill_abs t)(fv_initiating_id r \<mapsto> fill_fresh r)"
proof -
  from assms(1) obtain e where e: "fr_slot (fv_ref r) < length (slots t)" "slots t ! fr_slot (fv_ref r) = e"
      "\<not> fe_active e" "\<forall>x \<in> set (slots t). fe_active x \<longrightarrow> fe_initiating_id x \<noteq> fv_initiating_id r"
      "slots t' = (slots t)[fr_slot (fv_ref r) := fill_fresh r]"
    by (rule commit_cases) auto
  show "fill_abs t (fv_initiating_id r) = None"
    using e(4) by (auto simp: fill_abs_def find_None_iff)
  show "fill_abs t' = (fill_abs t)(fv_initiating_id r \<mapsto> fill_fresh r)"
    using keyed_update [OF fill_inv_unique [OF assms(2)]
        fill_inv_unique [OF commit_inv [OF assms], unfolded e(5)] e(1)] e(2,3)
    by (simp add: fill_abs_keyed e(5))
qed

lemma removal_abs:
  assumes "fill_apply op t = (MOQ_OK, t')" and "op = F_Reclaim ref \<or> op = F_Release_Unbound ref"
    and "fill_inv t" and "lookup t ref = Some e"
  shows "fill_abs t' = (fill_abs t)(fe_initiating_id e := None)"
proof -
  have t': "t' = clear_slot (fr_slot ref) e t"
    by (rule removal_cases [OF assms(1,2)]) (use assms(4) in auto)
  have i: "fr_slot ref < length (slots t)" "slots t ! fr_slot ref = e" "fe_active e"
    using assms(4) by (auto elim: lookup_SomeE)
  show ?thesis
    using keyed_remove [OF fill_inv_unique [OF assms(3)] i(1)] i(2,3)
    by (simp add: t' clear_slot_def fill_entry_zero_def fill_abs_keyed)
qed

text \<open>References across runs.\<close>

lemma lookup_le:
  assumes "table_le t t'" and "lookup t ref = Some e" and "lookup t' ref = Some e'"
  shows "fe_le e e'"
proof -
  have "slot_le e e'"
    using assms by (auto elim!: lookup_SomeE simp: table_le_def list_all2_conv_all_nth)
  then show ?thesis using assms(2,3) by (auto elim!: lookup_SomeE simp: slot_le_def)
qed

lemma removed_stale:
  assumes "lookup t ref = Some e" and "table_le (clear_slot (fr_slot ref) e t) t'"
  shows "lookup t' ref = None"
proof (rule ccontr)
  assume "lookup t' ref \<noteq> None"
  then obtain e' where e': "lookup t' ref = Some e'" by blast
  have "slot_le (fill_entry_zero\<lparr>fe_generation := fe_generation e\<rparr>) e'"
    using assms e' by (auto elim!: lookup_SomeE simp: table_le_def list_all2_conv_all_nth clear_slot_def)
  then show False
    using assms(1) e' by (auto elim!: lookup_SomeE simp: slot_le_def fill_entry_zero_def)
qed




section \<open>Properties\<close>

text \<open>A small concrete table: one slot, one publisher child whose request was rejected.\<close>

definition demo_parent :: moq_fill_parent where
  "demo_parent = \<lparr>fp_family = MOQ_FILL_PARENT_SUBSCRIBE, fp_slot = 5, fp_generation = 7\<rparr>"

definition demo_ref :: moq_fill_ref where
  "demo_ref = \<lparr>fr_slot = 0, fr_generation = 1, fr_parent = demo_parent\<rparr>"

definition demo_reservation :: moq_fill_reservation where
  "demo_reservation = \<lparr>fv_ref = demo_ref, fv_initiating_id = 9, fv_role = MOQ_FILL_PUBLISHER,
     fv_delivery_known = False, fv_delivery = fill_delivery_zero\<rparr>"

definition demo_init :: moq_fill_table where
  "demo_init = \<lparr>ft_entries = Arr [fill_entry_zero], ft_live = 0\<rparr>"

definition demo_table :: moq_fill_table where
  "demo_table = fill_run [F_Commit demo_reservation, F_Control_Response demo_ref 9 False,
     F_Terminal_Committed demo_ref, F_Terminal_Retired demo_ref] demo_init"

lemma demo_init_reach: "fill_reach demo_init"
proof (rule fill_reach_init)
  show "moq_fill_table_init (Arr [fill_entry_zero]) demo_init = (MOQ_OK, demo_init)" by code_simp
qed

lemma demo_reach: "fill_reach demo_table"
  unfolding demo_table_def by (intro fill_run_reach demo_init_reach)

text \<open>C19: in every reachable table the live count is the number of active entries, no two active
  children have the same initiating request or own the same stream, and the facts recorded for each
  child are consistent. A refused call leaves the table as it was.\<close>

theorem fill_table_invariant:
  assumes "fill_reach t"
  shows "fill_inv t \<and> (fill_apply op t = (rc, t') \<and> rc \<noteq> MOQ_OK \<longrightarrow> t' = t)"
  using fill_reach_inv [OF assms] fill_step_refuse by blast

theorem fill_table_invariant_witness:
  "fill_inv demo_table \<and> fill_apply (F_Commit demo_reservation) demo_table = (MOQ_ERR_STALE_HANDLE, demo_table)"
proof -
  have "fst (fill_apply (F_Commit demo_reservation) demo_table) = MOQ_ERR_STALE_HANDLE" by code_simp
  then show ?thesis
    using fill_table_invariant [OF demo_reach, of "F_Commit demo_reservation" MOQ_ERR_STALE_HANDLE
        "snd (fill_apply (F_Commit demo_reservation) demo_table)"]
    by (cases "fill_apply (F_Commit demo_reservation) demo_table") auto
qed

text \<open>C4: once a child was reclaimed or released its reference resolves to nothing, whatever happens
  to the table afterwards, even when its slot is used again.\<close>

theorem fill_reference_stale_forever:
  assumes "fill_apply op t = (MOQ_OK, t')" and "op = F_Reclaim ref \<or> op = F_Release_Unbound ref"
  shows "lookup (fill_run ops t') ref = None"
  by (rule removal_cases [OF assms]) (auto intro: removed_stale fill_run_le)

theorem fill_reference_stale_forever_witness:
  "let t' = snd (fill_apply (F_Reclaim demo_ref) demo_table);
       r = demo_reservation\<lparr>fv_ref := demo_ref\<lparr>fr_generation := 2\<rparr>\<rparr> in
   lookup demo_table demo_ref \<noteq> None \<and> lookup (fill_run [F_Commit r] t') demo_ref = None
   \<and> lookup (fill_run [F_Commit r] t') (fv_ref r) \<noteq> None"
proof -
  let ?t = "snd (fill_apply (F_Reclaim demo_ref) demo_table)"
  let ?r = "demo_reservation\<lparr>fv_ref := demo_ref\<lparr>fr_generation := 2\<rparr>\<rparr>"
  have ok: "fst (fill_apply (F_Reclaim demo_ref) demo_table) = MOQ_OK" by code_simp
  have "fill_apply (F_Reclaim demo_ref) demo_table = (MOQ_OK, ?t)"
    unfolding ok [symmetric] by (rule prod.collapse [symmetric])
  then have "lookup (fill_run [F_Commit ?r] ?t) demo_ref = None"
    by (rule fill_reference_stale_forever) simp
  moreover have "lookup demo_table demo_ref \<noteq> None" by code_simp
  moreover have "lookup (fill_run [F_Commit ?r] ?t) (fv_ref ?r) \<noteq> None" by code_simp
  ultimately show ?thesis unfolding Let_def by blast
qed

text \<open>While a reference resolves, what was recorded for the child stays: its identity, a decided
  control outcome, a known delivery, a bound stream, every flag and the first terminal reason. In
  particular a terminal is published at most once and a stream is accounted at most once.\<close>

theorem fill_facts_sticky:
  assumes "lookup t ref = Some e" and "lookup (fill_run ops t) ref = Some e'"
  shows "fe_le e e'
    \<and> (fe_terminal_published e \<longrightarrow>
         moq_fill_terminal_committed ref (fill_run ops t) = (MOQ_ERR_WRONG_STATE, fill_run ops t))
    \<and> (fe_stream_accounted e \<longrightarrow>
         moq_fill_stream_accounted ref (fill_run ops t) = (MOQ_ERR_WRONG_STATE, fill_run ops t))"
proof -
  have "fe_le e e'" using lookup_le [OF fill_run_le assms] .
  then show ?thesis
    using assms(2) put_entry_same [OF assms(2)]
    by (auto simp: moq_fill_terminal_committed_def fill_terminal_committed_entry_def terminal_ready_def
        moq_fill_stream_accounted_def fill_accounted_entry_def fill_with_def fe_le_def fe_flags_def)
qed

theorem fill_facts_sticky_witness:
  "moq_fill_terminal_committed demo_ref (fill_run [F_Parent_Cancel demo_ref] demo_table)
   = (MOQ_ERR_WRONG_STATE, fill_run [F_Parent_Cancel demo_ref] demo_table)"
proof -
  let ?t = "fill_run [F_Parent_Cancel demo_ref] demo_table"
  have "lookup demo_table demo_ref = Some (the (lookup demo_table demo_ref))" by code_simp
  moreover have "lookup ?t demo_ref = Some (the (lookup ?t demo_ref))" by code_simp
  moreover have "fe_terminal_published (the (lookup demo_table demo_ref))" by code_simp
  ultimately show ?thesis using fill_facts_sticky by blast
qed



text \<open>C21: the table is a map from initiating request identifiers to children. Preparing finds a slot
  that commits, committing adds a fresh child under an identifier that had none, removing a child
  deletes its identifier, and \<open>moq_fill_find\<close> answers the lookup with a reference that resolves.\<close>

theorem fill_table_refines_map:
  assumes "fill_reach t"
  shows "(moq_fill_prepare t parent rid role delivery = Inr r \<longrightarrow> moq_fill_check_commit t r = MOQ_OK)
    \<and> (moq_fill_commit r t = (MOQ_OK, t') \<longrightarrow> fill_abs t (fv_initiating_id r) = None
         \<and> fill_abs t' = (fill_abs t)(fv_initiating_id r \<mapsto> fill_fresh r))
    \<and> (fill_apply op t = (MOQ_OK, t') \<and> (op = F_Reclaim ref \<or> op = F_Release_Unbound ref)
         \<and> lookup t ref = Some e \<longrightarrow> fill_abs t' = (fill_abs t)(fe_initiating_id e := None))
    \<and> (case moq_fill_find t rid of
         Inl err \<Rightarrow> fill_abs t rid = None
       | Inr found \<Rightarrow> lookup t found \<noteq> None \<and> fill_abs t rid = lookup t found)"
proof -
  have inv: "fill_inv t" using assms by (rule fill_reach_inv)
  have "case moq_fill_find t rid of
         Inl err \<Rightarrow> fill_abs t rid = None
       | Inr found \<Rightarrow> lookup t found \<noteq> None \<and> fill_abs t rid = lookup t found"
    using find_abs [OF inv, of rid] by (fastforce split: sum.split)
  then show ?thesis
    using prepare_commits [OF _ inv] commit_abs [OF _ inv] removal_abs [OF _ _ inv] by blast
qed

theorem fill_table_refines_map_witness:
  "fill_abs (snd (moq_fill_reclaim demo_ref demo_table)) = (fill_abs demo_table)(9 := None)
   \<and> fill_abs demo_table 9 \<noteq> None"
proof -
  let ?e = "the (lookup demo_table demo_ref)"
  have ok: "fst (fill_apply (F_Reclaim demo_ref) demo_table) = MOQ_OK" by code_simp
  have "fill_apply (F_Reclaim demo_ref) demo_table
      = (MOQ_OK, snd (fill_apply (F_Reclaim demo_ref) demo_table))"
    unfolding ok [symmetric] by (rule prod.collapse [symmetric])
  moreover have "lookup demo_table demo_ref = Some ?e" by code_simp
  ultimately have "fill_abs (snd (fill_apply (F_Reclaim demo_ref) demo_table))
      = (fill_abs demo_table)(fe_initiating_id ?e := None)"
    using fill_table_refines_map [OF demo_reach] by blast
  moreover have "fe_initiating_id ?e = 9" by code_simp
  moreover have "fill_abs demo_table 9 \<noteq> None" by code_simp
  ultimately show ?thesis by simp
qed

end
