(* ===== verification/Heap.thy ===== *)
theory Heap
  imports Prelude "HOL-Library.Multiset"
begin

text \<open>
  The application's allocator (\<open>moq_alloc_t\<close>) as a parameter of the components that allocate:
  \<open>h_grant n\<close> says whether the n-th request for memory succeeds, and \<open>h_blocks\<close> lists the sizes of
  the blocks that are outstanding.
\<close>

section \<open>Memory\<close>

record moq_heap =
  h_grant :: "nat \<Rightarrow> bool"
  h_calls :: nat
  h_blocks :: "nat list"

definition heap_alloc :: "nat \<Rightarrow> moq_heap \<Rightarrow> bool \<times> moq_heap" where
  "heap_alloc n h =
     (let granted = h_grant h (h_calls h) in
      (granted, h\<lparr>h_calls := h_calls h + 1,
                  h_blocks := (if granted then n # h_blocks h else h_blocks h)\<rparr>))"

definition heap_free :: "nat \<Rightarrow> moq_heap \<Rightarrow> moq_heap" where
  "heap_free n h = h\<lparr>h_blocks := remove1 n (h_blocks h)\<rparr>"

section \<open>An allocator that never refuses\<close>

definition grants_all :: "moq_heap \<Rightarrow> bool" where
  "grants_all h \<longleftrightarrow> h_grant h = (\<lambda>_. True)"

lemma grants_alloc [simp]:
  "grants_all h \<Longrightarrow> heap_alloc n h = (True, h\<lparr>h_calls := h_calls h + 1, h_blocks := n # h_blocks h\<rparr>)"
  by (simp add: grants_all_def heap_alloc_def Let_def)

lemma grants_keep [simp]:
  "grants_all (h\<lparr>h_calls := n, h_blocks := bs\<rparr>) = grants_all h" "grants_all (heap_free n h) = grants_all h"
  by (simp_all add: grants_all_def heap_free_def)

section \<open>Accounting\<close>

lemma blocks_alloc: "heap_alloc n h = (True, h') \<Longrightarrow> mset (h_blocks h') = add_mset n (mset (h_blocks h))"
  "heap_alloc n h = (False, h') \<Longrightarrow> mset (h_blocks h') = mset (h_blocks h)"
  by (auto simp: heap_alloc_def Let_def split: if_splits)

lemma blocks_free: "mset (h_blocks (heap_free n h)) = mset (h_blocks h) - {#n#}"
  by (simp add: heap_free_def)

lemma blocks_fold_free:
  "mset (h_blocks (fold (\<lambda>x. if P x then heap_free (g x) else id) xs h))
   = mset (h_blocks h) - mset (map g (filter P xs))"
  by (induction xs arbitrary: h) (auto simp: blocks_free)

end
