(* ===== verification/TokenCache.thy ===== *)
theory TokenCache
  imports Heap
begin

text \<open>
  The authorization token cache and the staged processing of token operations
  (\<open>core/src/session/session_auth.c\<close>): the bounded cache of peer tokens, the overlay that records
  the cache operations of one message before they are committed, and the resolution of a message's
  tokens.
\<close>

section \<open>The cache\<close>

datatype moq_token_rc = MOQ_TOKEN_OK | MOQ_TOKEN_ERR_DUPLICATE | MOQ_TOKEN_ERR_OVERFLOW
  | MOQ_TOKEN_ERR_UNKNOWN | MOQ_TOKEN_ERR_NOMEM

abbreviation MOQ_TOKEN_ENTRY_OVERHEAD :: nat where "MOQ_TOKEN_ENTRY_OVERHEAD \<equiv> 16"

definition MOQ_DEFAULT_MAX_TOKEN_CACHE_ENTRIES :: nat where
  "MOQ_DEFAULT_MAX_TOKEN_CACHE_ENTRIES = 4096"

text \<open>\<open>te_value\<close> is the pair \<open>token_value, token_value_len\<close>.\<close>

record moq_token_cache_entry =
  te_alias :: u64
  te_type :: u64
  te_value :: moq_bytes
  te_active :: bool

definition token_entry_zero :: moq_token_cache_entry where
  "token_entry_zero = \<lparr>te_alias = 0, te_type = 0, te_value = Null 0, te_active = False\<rparr>"

text \<open>\<open>tc_entries\<close> is the pair \<open>entries, cap\<close>.\<close>

record moq_token_cache =
  tc_entries :: "moq_token_cache_entry cptr"
  tc_used :: nat
  tc_max :: nat

text \<open>An entry has 40 bytes on an LP64 target.\<close>

abbreviation TOKEN_ENTRY_SIZEOF :: nat where "TOKEN_ENTRY_SIZEOF \<equiv> 40"

definition moq_token_cache_init ::
  "nat \<Rightarrow> nat \<Rightarrow> moq_heap \<Rightarrow> moq_result \<times> moq_token_cache \<times> moq_heap" where
  "moq_token_cache_init max_bytes max_entries h =
     (let cache = \<lparr>tc_entries = Null 0, tc_used = 0, tc_max = max_bytes\<rparr>;
          max_entries = (if max_entries = 0 then MOQ_DEFAULT_MAX_TOKEN_CACHE_ENTRIES else max_entries) in
      if SIZE_MAX div TOKEN_ENTRY_SIZEOF < max_entries then (MOQ_ERR_INVAL, cache, h)
      else case heap_alloc (max_entries * TOKEN_ENTRY_SIZEOF) h of
        (False, h) \<Rightarrow> (MOQ_ERR_NOMEM, cache, h)
      | (True, h) \<Rightarrow> (MOQ_OK, cache\<lparr>tc_entries := Arr (replicate max_entries token_entry_zero)\<rparr>, h))"

text \<open>Releasing the value of an entry, \<open>free\<close> being called only on a non-null pointer.\<close>

definition free_value :: "moq_bytes \<Rightarrow> moq_heap \<Rightarrow> moq_heap" where
  "free_value v h = (if is_null v then h else heap_free (plen v) h)"

definition moq_token_cache_free :: "moq_token_cache \<Rightarrow> moq_heap \<Rightarrow> moq_token_cache \<times> moq_heap" where
  "moq_token_cache_free cache h =
     (if is_null (tc_entries cache) then (cache, h)
      else (cache\<lparr>tc_entries := Null 0, tc_used := 0\<rparr>,
            heap_free (plen (tc_entries cache) * TOKEN_ENTRY_SIZEOF)
              (fold (\<lambda>e. if te_active e then free_value (te_value e) else id)
                 (elems (tc_entries cache)) h)))"

definition holds_alias :: "u64 \<Rightarrow> moq_token_cache_entry \<Rightarrow> bool" where
  "holds_alias alias e \<longleftrightarrow> te_active e \<and> te_alias e = alias"

text \<open>The conversion \<open>(int)i\<close> of an index.\<close>

definition int_of_size :: "nat \<Rightarrow> int" where
  "int_of_size i = sint (word_of_nat i :: 32 word)"

text \<open>The checks that both registration functions make before they store: no entry for the alias,
  room for the entry in the byte budget, and a free slot.\<close>

definition token_slot :: "u64 \<Rightarrow> nat \<Rightarrow> moq_token_cache \<Rightarrow> moq_token_rc + nat" where
  "token_slot alias value_len cache =
     (if list_ex (holds_alias alias) (elems (tc_entries cache)) then Inl MOQ_TOKEN_ERR_DUPLICATE
      else let entry_size = size_add MOQ_TOKEN_ENTRY_OVERHEAD value_len in
        if entry_size < MOQ_TOKEN_ENTRY_OVERHEAD then Inl MOQ_TOKEN_ERR_OVERFLOW
        else if tc_max cache < tc_used cache \<or> tc_max cache - tc_used cache < entry_size
        then Inl MOQ_TOKEN_ERR_OVERFLOW
        else let slot = (case first_index (\<lambda>e. \<not> te_active e) (elems (tc_entries cache)) of
                           None \<Rightarrow> - 1 | Some i \<Rightarrow> int_of_size i) in
          if slot < 0 then Inl MOQ_TOKEN_ERR_OVERFLOW else Inr (nat slot))"

definition token_store :: "nat \<Rightarrow> u64 \<Rightarrow> u64 \<Rightarrow> moq_bytes \<Rightarrow> moq_token_cache \<Rightarrow> moq_token_cache" where
  "token_store slot alias token_type v cache =
     cache\<lparr>tc_entries := Arr ((elems (tc_entries cache))[slot :=
              \<lparr>te_alias = alias, te_type = token_type, te_value = v, te_active = True\<rparr>]),
           tc_used := size_add (tc_used cache) (size_add MOQ_TOKEN_ENTRY_OVERHEAD (plen v))\<rparr>"

definition moq_token_cache_register :: "u64 \<Rightarrow> u64 \<Rightarrow> moq_bytes \<Rightarrow> moq_token_cache \<Rightarrow> moq_heap
    \<Rightarrow> moq_token_rc \<times> moq_token_cache \<times> moq_heap" where
  "moq_token_cache_register alias token_type v cache h =
     (if is_null (tc_entries cache) then (MOQ_TOKEN_ERR_NOMEM, cache, h)
      else case token_slot alias (plen v) cache of
        Inl e \<Rightarrow> (e, cache, h)
      | Inr slot \<Rightarrow>
          if 0 < plen v then
            (if is_null v then (MOQ_TOKEN_ERR_NOMEM, cache, h)
             else case heap_alloc (plen v) h of
               (False, h) \<Rightarrow> (MOQ_TOKEN_ERR_NOMEM, cache, h)
             | (True, h) \<Rightarrow> (MOQ_TOKEN_OK, token_store slot alias token_type (Arr (elems v)) cache, h))
          else (MOQ_TOKEN_OK, token_store slot alias token_type (Null 0) cache, h))"

definition moq_token_cache_register_preowned ::
  "u64 \<Rightarrow> u64 \<Rightarrow> moq_bytes \<Rightarrow> moq_token_cache \<Rightarrow> moq_token_rc \<times> moq_token_cache" where
  "moq_token_cache_register_preowned alias token_type v cache =
     (if is_null (tc_entries cache) then (MOQ_TOKEN_ERR_NOMEM, cache)
      else case token_slot alias (plen v) cache of
        Inl e \<Rightarrow> (e, cache)
      | Inr slot \<Rightarrow> (MOQ_TOKEN_OK, token_store slot alias token_type v cache))"

definition moq_token_cache_delete ::
  "u64 \<Rightarrow> moq_token_cache \<Rightarrow> moq_heap \<Rightarrow> moq_token_rc \<times> moq_token_cache \<times> moq_heap" where
  "moq_token_cache_delete alias cache h =
     (if is_null (tc_entries cache) then (MOQ_TOKEN_ERR_UNKNOWN, cache, h)
      else case first_index (holds_alias alias) (elems (tc_entries cache)) of
        None \<Rightarrow> (MOQ_TOKEN_ERR_UNKNOWN, cache, h)
      | Some i \<Rightarrow>
          let e = elems (tc_entries cache) ! i;
              entry_size = size_add MOQ_TOKEN_ENTRY_OVERHEAD (plen (te_value e)) in
          (MOQ_TOKEN_OK,
           cache\<lparr>tc_entries := Arr ((elems (tc_entries cache))[i := token_entry_zero]),
                 tc_used := (if entry_size \<le> tc_used cache then tc_used cache - entry_size else 0)\<rparr>,
           free_value (te_value e) h))"

text \<open>\<open>None\<close> is \<open>MOQ_TOKEN_ERR_UNKNOWN\<close>; otherwise the out-parameters.\<close>

definition moq_token_cache_lookup :: "moq_token_cache \<Rightarrow> u64 \<Rightarrow> (u64 \<times> moq_bytes) option" where
  "moq_token_cache_lookup cache alias =
     (if is_null (tc_entries cache) then None
      else map_option (\<lambda>e. (te_type e, te_value e)) (find (holds_alias alias) (elems (tc_entries cache))))"

section \<open>The overlay\<close>

datatype moq_ov_kind = MOQ_OV_REGISTER | MOQ_OV_DELETE

record moq_ov_entry =
  oe_kind :: moq_ov_kind
  oe_alias :: u64
  oe_type :: u64
  oe_value :: moq_bytes
  oe_preowned :: moq_bytes

text \<open>The used part \<open>entries[0 .. count)\<close> of the overlay's array; \<open>ov->cache\<close> is an argument.\<close>

type_synonym moq_cache_overlay = "moq_ov_entry list"

definition MOQ_CACHE_OVERLAY_CAP :: nat where "MOQ_CACHE_OVERLAY_CAP = 16"

definition moq_ov_init :: moq_cache_overlay where
  "moq_ov_init = []"

definition moq_ov_free_preowned :: "moq_cache_overlay \<Rightarrow> moq_heap \<Rightarrow> moq_cache_overlay \<times> moq_heap" where
  "moq_ov_free_preowned ov h =
     (map (\<lambda>e. if is_null (oe_preowned e) then e else e\<lparr>oe_preowned := Null 0\<rparr>) ov,
      fold (\<lambda>e h. if is_null (oe_preowned e) then h else heap_free (plen (oe_value e)) h) ov h)"

text \<open>The search of both lookups, from the newest entry down; \<open>base\<close> answers when no entry names
  the alias.\<close>

fun ov_search :: "u64 \<Rightarrow> (u64 \<times> moq_bytes) option \<Rightarrow> moq_ov_entry list \<Rightarrow> (u64 \<times> moq_bytes) option" where
  "ov_search alias base [] = base"
| "ov_search alias base (e # newest_first) =
     (if oe_alias e \<noteq> alias then ov_search alias base newest_first
      else if oe_kind e = MOQ_OV_DELETE then None
      else Some (oe_type e, oe_value e))"

definition moq_ov_alias_live ::
  "moq_cache_overlay \<Rightarrow> moq_token_cache \<Rightarrow> u64 \<Rightarrow> (u64 \<times> moq_bytes) option" where
  "moq_ov_alias_live ov cache alias = ov_search alias (moq_token_cache_lookup cache alias) (rev ov)"

text \<open>One entry of the projection; \<open>before\<close> are the overlay entries before it.\<close>

definition ov_project_entry :: "moq_token_cache \<Rightarrow> moq_ov_entry list \<Rightarrow> moq_ov_entry \<Rightarrow> nat \<times> nat \<Rightarrow> nat \<times> nat" where
  "ov_project_entry cache before e = (\<lambda>(bytes, active).
     if oe_kind e = MOQ_OV_REGISTER then
       (let entry_size = size_add MOQ_TOKEN_ENTRY_OVERHEAD (plen (oe_value e)) in
        if entry_size < MOQ_TOKEN_ENTRY_OVERHEAD then (SIZE_MAX, active + 1)
        else ((if SIZE_MAX - entry_size < bytes then SIZE_MAX else bytes + entry_size), active + 1))
     else
       (let del_size =
              (case find (\<lambda>r. oe_alias r = oe_alias e \<and> oe_kind r = MOQ_OV_REGISTER) (rev before) of
                 Some r \<Rightarrow> size_add MOQ_TOKEN_ENTRY_OVERHEAD (plen (oe_value r))
               | None \<Rightarrow> (case moq_token_cache_lookup cache (oe_alias e) of
                   Some (_, v) \<Rightarrow> size_add MOQ_TOKEN_ENTRY_OVERHEAD (plen v)
                 | None \<Rightarrow> MOQ_TOKEN_ENTRY_OVERHEAD)) in
        (if del_size \<le> bytes then bytes - del_size else 0, active - 1)))"

fun ov_project_loop :: "moq_token_cache \<Rightarrow> moq_ov_entry list \<Rightarrow> moq_ov_entry list \<Rightarrow> nat \<times> nat \<Rightarrow> nat \<times> nat" where
  "ov_project_loop cache before [] acc = acc"
| "ov_project_loop cache before (e # rest) acc =
     ov_project_loop cache (before @ [e]) rest (ov_project_entry cache before e acc)"

definition moq_ov_project :: "moq_cache_overlay \<Rightarrow> moq_token_cache \<Rightarrow> nat \<times> nat" where
  "moq_ov_project ov cache =
     ov_project_loop cache [] ov
       (tc_used cache, length (filter te_active (elems (tc_entries cache))))"

text \<open>The variants that read through a prepared prefix.\<close>

definition ov_alias_live_after :: "moq_cache_overlay \<Rightarrow> moq_cache_overlay option \<Rightarrow> moq_token_cache
    \<Rightarrow> u64 \<Rightarrow> (u64 \<times> moq_bytes) option" where
  "ov_alias_live_after entries prefix cache alias =
     ov_search alias
       (case prefix of Some ov \<Rightarrow> moq_ov_alias_live ov cache alias
                     | None \<Rightarrow> moq_token_cache_lookup cache alias) (rev entries)"

definition ov_project_after_entry :: "moq_cache_overlay \<Rightarrow> moq_token_cache \<Rightarrow> moq_ov_entry list
    \<Rightarrow> moq_ov_entry \<Rightarrow> nat \<times> nat \<Rightarrow> nat \<times> nat" where
  "ov_project_after_entry prefix cache before e = (\<lambda>(bytes, active).
     if oe_kind e = MOQ_OV_REGISTER then
       (let size = size_add MOQ_TOKEN_ENTRY_OVERHEAD (plen (oe_value e)) in
        (if size < MOQ_TOKEN_ENTRY_OVERHEAD \<or> SIZE_MAX - size < bytes then SIZE_MAX else bytes + size,
         active + 1))
     else
       (case ov_alias_live_after before (Some prefix) cache (oe_alias e) of
          None \<Rightarrow> (bytes, active)
        | Some (_, v) \<Rightarrow>
            (let size = size_add MOQ_TOKEN_ENTRY_OVERHEAD (plen v) in
             (if size \<le> bytes then bytes - size else 0, active - 1))))"

fun ov_project_after_loop :: "moq_cache_overlay \<Rightarrow> moq_token_cache \<Rightarrow> moq_ov_entry list
    \<Rightarrow> moq_ov_entry list \<Rightarrow> nat \<times> nat \<Rightarrow> nat \<times> nat" where
  "ov_project_after_loop prefix cache before [] acc = acc"
| "ov_project_after_loop prefix cache before (e # rest) acc =
     ov_project_after_loop prefix cache (before @ [e]) rest
       (ov_project_after_entry prefix cache before e acc)"

definition ov_project_after ::
  "moq_cache_overlay \<Rightarrow> moq_cache_overlay option \<Rightarrow> moq_token_cache \<Rightarrow> nat \<times> nat" where
  "ov_project_after ov prefix cache =
     (case prefix of
        None \<Rightarrow> moq_ov_project ov cache
      | Some p \<Rightarrow> ov_project_after_loop p cache [] ov (moq_ov_project p cache))"

section \<open>Processing the tokens of a message\<close>

datatype moq_auth_op = MOQ_AUTH_OP_DELETE | MOQ_AUTH_OP_REGISTER | MOQ_AUTH_OP_USE_ALIAS
  | MOQ_AUTH_OP_USE_VALUE

record moq_decoded_auth_token =
  dt_op :: moq_auth_op
  dt_alias :: u64
  dt_type :: u64
  dt_value :: moq_bytes

text \<open>A resolved token with its entry of the \<open>staged\<close> array.\<close>

record moq_resolved_token =
  rt_type :: u64
  rt_value :: moq_bytes
  rt_staged :: bool

text \<open>The locals of \<open>process_auth_tokens_after\<close> with the cache and the memory they act on. \<open>au_ov\<close>
  is the overlay of the transaction, when there is one.\<close>

record auth_state =
  au_tokens :: "moq_resolved_token list"
  au_reject :: u64
  au_ov :: "moq_cache_overlay option"
  au_cache :: moq_token_cache
  au_heap :: moq_heap

text \<open>How processing can stop early: with a result code, or by \<open>close_with_error\<close> with a code.\<close>

datatype auth_stop = Auth_Error moq_result | Auth_Close u64

text \<open>\<open>has_staged\<close> says whether the caller passed a \<open>staged\<close> array.\<close>

definition free_staging_internal ::
  "bool \<Rightarrow> moq_resolved_token list \<Rightarrow> moq_heap \<Rightarrow> moq_resolved_token list \<times> moq_heap" where
  "free_staging_internal has_staged tokens h =
     (if \<not> has_staged then (tokens, h)
      else (map (\<lambda>t. if rt_staged t \<and> \<not> is_null (rt_value t) \<and> 0 < plen (rt_value t)
                     then t\<lparr>rt_value := Null (plen (rt_value t))\<rparr> else t) tokens,
            fold (\<lambda>t. if rt_staged t \<and> \<not> is_null (rt_value t) \<and> 0 < plen (rt_value t)
                      then heap_free (plen (rt_value t)) else id) tokens h))"

definition process_auth_tokens_free_staging ::
  "bool \<Rightarrow> moq_resolved_token list \<Rightarrow> moq_heap \<Rightarrow> moq_resolved_token list \<times> moq_heap" where
  "process_auth_tokens_free_staging = free_staging_internal"

text \<open>The clean-up of every early return: staged copies first, then the overlay's values.\<close>

definition auth_cleanup :: "bool \<Rightarrow> auth_state \<Rightarrow> auth_state" where
  "auth_cleanup has_staged st =
     (let (tokens, h) = free_staging_internal has_staged (au_tokens st) (au_heap st) in
      case au_ov st of
        None \<Rightarrow> st\<lparr>au_tokens := tokens, au_heap := h\<rparr>
      | Some ov \<Rightarrow> (let (ov, h) = moq_ov_free_preowned ov h in
          st\<lparr>au_tokens := tokens, au_heap := h, au_ov := Some ov\<rparr>))"

definition reject_once :: "u64 \<Rightarrow> auth_state \<Rightarrow> auth_state" where
  "reject_once code st = (if au_reject st = 0 then st\<lparr>au_reject := code\<rparr> else st)"

definition auth_delete :: "moq_cache_overlay option \<Rightarrow> moq_decoded_auth_token \<Rightarrow> auth_state \<Rightarrow> auth_state" where
  "auth_delete prefix tok st =
     (case au_ov st of
        Some ov \<Rightarrow>
          if ov_alias_live_after ov prefix (au_cache st) (dt_alias tok) = None then reject_once 0x17 st
          else if length ov < MOQ_CACHE_OVERLAY_CAP
          then st\<lparr>au_ov := Some (ov @ [\<lparr>oe_kind = MOQ_OV_DELETE, oe_alias = dt_alias tok, oe_type = 0,
                                         oe_value = Null 0, oe_preowned = Null 0\<rparr>])\<rparr>
          else st
      | None \<Rightarrow>
          let (drc, cache, h) = moq_token_cache_delete (dt_alias tok) (au_cache st) (au_heap st);
              st = st\<lparr>au_cache := cache, au_heap := h\<rparr> in
          if drc = MOQ_TOKEN_ERR_UNKNOWN then reject_once 0x17 st else st)"

definition auth_register :: "bool \<Rightarrow> moq_cache_overlay option \<Rightarrow> moq_decoded_auth_token \<Rightarrow> auth_state
    \<Rightarrow> (auth_stop \<times> auth_state) + auth_state" where
  "auth_register has_staged prefix tok st =
     (case au_ov st of
        Some ov \<Rightarrow>
          if ov_alias_live_after ov prefix (au_cache st) (dt_alias tok) \<noteq> None
          then Inl (Auth_Close 0x14, auth_cleanup has_staged st)
          else let (projected_bytes, projected_active) = ov_project_after ov prefix (au_cache st);
                   entry_size = size_add MOQ_TOKEN_ENTRY_OVERHEAD (plen (dt_value tok)) in
            if entry_size < MOQ_TOKEN_ENTRY_OVERHEAD \<or> tc_max (au_cache st) < projected_bytes
               \<or> tc_max (au_cache st) - projected_bytes < entry_size
               \<or> plen (tc_entries (au_cache st)) \<le> projected_active
            then Inl (Auth_Close 0x13, auth_cleanup has_staged st)
            else if length ov < MOQ_CACHE_OVERLAY_CAP
            then Inr (st\<lparr>au_ov := Some (ov @ [\<lparr>oe_kind = MOQ_OV_REGISTER, oe_alias = dt_alias tok,
                            oe_type = dt_type tok, oe_value = dt_value tok, oe_preowned = Null 0\<rparr>])\<rparr>)
            else Inr st
      | None \<Rightarrow>
          let (rrc, cache, h) = moq_token_cache_register (dt_alias tok) (dt_type tok) (dt_value tok)
                                  (au_cache st) (au_heap st);
              st = st\<lparr>au_cache := cache, au_heap := h\<rparr> in
          if rrc = MOQ_TOKEN_ERR_DUPLICATE then Inl (Auth_Close 0x14, auth_cleanup has_staged st)
          else if rrc = MOQ_TOKEN_ERR_OVERFLOW then Inl (Auth_Close 0x13, auth_cleanup has_staged st)
          else if rrc = MOQ_TOKEN_ERR_NOMEM
          then Inl (Auth_Error MOQ_ERR_NOMEM, auth_cleanup has_staged st)
          else Inr st)"

text \<open>Resolving an alias gives the token's type and a copy of its value that the message owns.\<close>

definition auth_use_alias :: "bool \<Rightarrow> moq_cache_overlay option \<Rightarrow> moq_decoded_auth_token \<Rightarrow> auth_state
    \<Rightarrow> (auth_stop \<times> auth_state) + (u64 \<times> moq_bytes \<times> auth_state)" where
  "auth_use_alias has_staged prefix tok st =
     (if au_reject st \<noteq> 0 then Inr (dt_type tok, dt_value tok, st)
      else case (case au_ov st of
                   Some ov \<Rightarrow> ov_alias_live_after ov prefix (au_cache st) (dt_alias tok)
                 | None \<Rightarrow> moq_token_cache_lookup (au_cache st) (dt_alias tok)) of
        None \<Rightarrow> Inr (dt_type tok, dt_value tok, st\<lparr>au_reject := 0x17\<rparr>)
      | Some (rtype, rval) \<Rightarrow>
          if 0 < plen rval \<and> \<not> is_null rval then
            (case heap_alloc (plen rval) (au_heap st) of
               (False, h) \<Rightarrow> Inl (Auth_Error MOQ_ERR_NOMEM, auth_cleanup has_staged (st\<lparr>au_heap := h\<rparr>))
             | (True, h) \<Rightarrow> Inr (rtype, Arr (elems rval), st\<lparr>au_heap := h\<rparr>))
          else Inr (rtype, Null (plen rval), st))"

definition same_token :: "u64 \<Rightarrow> moq_bytes \<Rightarrow> moq_resolved_token \<Rightarrow> bool" where
  "same_token tok_type tok_value t \<longleftrightarrow>
     rt_type t = tok_type \<and> plen (rt_value t) = plen tok_value
     \<and> (plen tok_value = 0 \<or> elems (rt_value t) = elems tok_value)"

text \<open>The rest of the loop body: skip after a rejection and for DELETE, reject a duplicate, record
  the token.\<close>

definition auth_push :: "nat \<Rightarrow> moq_auth_op \<Rightarrow> u64 \<Rightarrow> moq_bytes \<Rightarrow> auth_state \<Rightarrow> auth_state" where
  "auth_push max_tokens tok_op tok_type tok_value st =
     (let owned = (tok_op = MOQ_AUTH_OP_USE_ALIAS \<and> \<not> is_null tok_value \<and> 0 < plen tok_value) in
      if au_reject st \<noteq> 0 then st
      else if tok_op = MOQ_AUTH_OP_DELETE then st
      else if list_ex (same_token tok_type tok_value) (au_tokens st)
      then st\<lparr>au_reject := 0x4,
              au_heap := (if owned then heap_free (plen tok_value) (au_heap st) else au_heap st)\<rparr>
      else if length (au_tokens st) < max_tokens
      then st\<lparr>au_tokens := au_tokens st @ [\<lparr>rt_type = tok_type, rt_value = tok_value, rt_staged = owned\<rparr>]\<rparr>
      else st)"

definition auth_token :: "nat \<Rightarrow> bool \<Rightarrow> moq_cache_overlay option \<Rightarrow> moq_decoded_auth_token \<Rightarrow> auth_state
    \<Rightarrow> (auth_stop \<times> auth_state) + auth_state" where
  "auth_token max_tokens has_staged prefix tok st =
     (case dt_op tok of
        MOQ_AUTH_OP_DELETE \<Rightarrow>
          Inr (auth_push max_tokens MOQ_AUTH_OP_DELETE (dt_type tok) (dt_value tok) (auth_delete prefix tok st))
      | MOQ_AUTH_OP_REGISTER \<Rightarrow>
          (case auth_register has_staged prefix tok st of
             Inl stop \<Rightarrow> Inl stop
           | Inr st \<Rightarrow> Inr (auth_push max_tokens MOQ_AUTH_OP_REGISTER (dt_type tok) (dt_value tok) st))
      | MOQ_AUTH_OP_USE_ALIAS \<Rightarrow>
          (case auth_use_alias has_staged prefix tok st of
             Inl stop \<Rightarrow> Inl stop
           | Inr (tok_type, tok_value, st) \<Rightarrow>
               Inr (auth_push max_tokens MOQ_AUTH_OP_USE_ALIAS tok_type tok_value st))
      | MOQ_AUTH_OP_USE_VALUE \<Rightarrow>
          Inr (auth_push max_tokens MOQ_AUTH_OP_USE_VALUE (dt_type tok) (dt_value tok) st))"

fun auth_loop :: "nat \<Rightarrow> bool \<Rightarrow> moq_cache_overlay option \<Rightarrow> moq_decoded_auth_token list \<Rightarrow> auth_state
    \<Rightarrow> (auth_stop \<times> auth_state) + auth_state" where
  "auth_loop max_tokens has_staged prefix [] st = Inr st"
| "auth_loop max_tokens has_staged prefix (tok # toks) st =
     (case auth_token max_tokens has_staged prefix tok st of
        Inl stop \<Rightarrow> Inl stop
      | Inr st \<Rightarrow> auth_loop max_tokens has_staged prefix toks st)"

text \<open>Allocating the values of the staged registrations; \<open>before\<close> are the entries done already.\<close>

fun auth_prealloc :: "moq_ov_entry list \<Rightarrow> moq_ov_entry list \<Rightarrow> moq_heap \<Rightarrow> bool \<times> moq_cache_overlay \<times> moq_heap" where
  "auth_prealloc before [] h = (True, before, h)"
| "auth_prealloc before (e # rest) h =
     (if oe_kind e \<noteq> MOQ_OV_REGISTER \<or> plen (oe_value e) = 0 then auth_prealloc (before @ [e]) rest h
      else case heap_alloc (plen (oe_value e)) h of
        (False, h) \<Rightarrow> (False, before @ e # rest, h)
      | (True, h) \<Rightarrow> auth_prealloc (before @ [e\<lparr>oe_preowned := Arr (elems (oe_value e))\<rparr>]) rest h)"

definition process_auth_tokens_after :: "moq_decoded_auth_token list \<Rightarrow> nat \<Rightarrow> bool \<Rightarrow> bool
    \<Rightarrow> moq_cache_overlay option \<Rightarrow> moq_token_cache \<Rightarrow> moq_heap
    \<Rightarrow> (auth_stop \<times> auth_state) + auth_state" where
  "process_auth_tokens_after tokens_in max_tokens has_staged use_txn prefix cache h =
     (case auth_loop max_tokens has_staged prefix tokens_in
             \<lparr>au_tokens = [], au_reject = 0, au_ov = (if use_txn then Some moq_ov_init else None),
              au_cache = cache, au_heap = h\<rparr> of
        Inl stop \<Rightarrow> Inl stop
      | Inr st \<Rightarrow>
          let (ok, st) = (case au_ov st of
                 None \<Rightarrow> (True, st)
               | Some ov \<Rightarrow> let (ok, ov, h) = auth_prealloc [] ov (au_heap st) in
                   (ok, st\<lparr>au_ov := Some ov, au_heap := h\<rparr>)) in
          if \<not> ok then Inl (Auth_Error MOQ_ERR_NOMEM, auth_cleanup has_staged st)
          else if au_reject st \<noteq> 0 then
            (let (tokens, h) = free_staging_internal has_staged (au_tokens st) (au_heap st) in
             Inr (st\<lparr>au_tokens := tokens, au_heap := h\<rparr>))
          else Inr st)"

definition process_auth_tokens :: "moq_decoded_auth_token list \<Rightarrow> nat \<Rightarrow> bool \<Rightarrow> bool
    \<Rightarrow> moq_token_cache \<Rightarrow> moq_heap \<Rightarrow> (auth_stop \<times> auth_state) + auth_state" where
  "process_auth_tokens tokens_in max_tokens has_staged use_txn =
     process_auth_tokens_after tokens_in max_tokens has_staged use_txn None"

text \<open>Committing applies the staged operations to the cache in order.\<close>

definition auth_commit_entry :: "moq_ov_entry \<Rightarrow> moq_token_cache \<times> moq_heap \<Rightarrow> moq_token_cache \<times> moq_heap" where
  "auth_commit_entry e = (\<lambda>(cache, h).
     if oe_kind e = MOQ_OV_REGISTER then
       (let (rrc, cache) = moq_token_cache_register_preowned (oe_alias e) (oe_type e)
              (if is_null (oe_preowned e) then Null (plen (oe_value e)) else oe_preowned e) cache in
        if rrc = MOQ_TOKEN_OK then (cache, h)
        else (cache, if is_null (oe_preowned e) then h else heap_free (plen (oe_value e)) h))
     else (let (_, cache, h) = moq_token_cache_delete (oe_alias e) cache h in (cache, h)))"

definition process_auth_tokens_commit_txn ::
  "moq_cache_overlay \<Rightarrow> moq_token_cache \<Rightarrow> moq_heap \<Rightarrow> moq_token_cache \<times> moq_heap" where
  "process_auth_tokens_commit_txn ov cache h = fold auth_commit_entry ov (cache, h)"

definition process_auth_tokens_abort_txn ::
  "moq_cache_overlay \<Rightarrow> moq_heap \<Rightarrow> moq_cache_overlay \<times> moq_heap" where
  "process_auth_tokens_abort_txn = moq_ov_free_preowned"

section \<open>The cache as a bounded map\<close>

text \<open>What a value looks like once it is stored: no pointer exactly when it is empty.\<close>

definition norm_value :: "moq_bytes \<Rightarrow> moq_bytes" where
  "norm_value v = (if elems v = [] then Null 0 else Arr (elems v))"

definition value_given :: "moq_bytes \<Rightarrow> bool" where
  "value_given v \<longleftrightarrow> plen v = 0 \<or> \<not> is_null v"

definition cache_cap :: "moq_token_cache \<Rightarrow> nat" where
  "cache_cap c = plen (tc_entries c)"

definition cache_active :: "moq_token_cache \<Rightarrow> nat" where
  "cache_active c = length (filter te_active (elems (tc_entries c)))"

definition entry_cost :: "moq_token_cache_entry \<Rightarrow> nat" where
  "entry_cost e = MOQ_TOKEN_ENTRY_OVERHEAD + plen (te_value e)"

definition cache_ok :: "moq_token_cache \<Rightarrow> bool" where
  "cache_ok c \<longleftrightarrow>
     \<not> is_null (tc_entries c) \<and> cache_cap c \<le> 2 ^ 31
     \<and> key_unique te_active te_alias (elems (tc_entries c))
     \<and> tc_used c = sum_list (map entry_cost (filter te_active (elems (tc_entries c))))
     \<and> tc_used c \<le> tc_max c \<and> tc_max c \<le> SIZE_MAX
     \<and> (\<forall>e \<in> set (elems (tc_entries c)). te_active e \<longrightarrow> te_value e = norm_value (te_value e))"

text \<open>Room for one more entry with a value of \<open>n\<close> bytes.\<close>

definition cache_room :: "nat \<Rightarrow> moq_token_cache \<Rightarrow> bool" where
  "cache_room n c \<longleftrightarrow> tc_used c + (MOQ_TOKEN_ENTRY_OVERHEAD + n) \<le> tc_max c \<and> cache_active c < cache_cap c"

text \<open>The effects of registering and deleting on the cache alone.\<close>

definition cache_put :: "u64 \<Rightarrow> u64 \<Rightarrow> moq_bytes \<Rightarrow> moq_token_cache \<Rightarrow> moq_token_cache" where
  "cache_put alias t v c = snd (moq_token_cache_register_preowned alias t (norm_value v) c)"

definition cache_del :: "u64 \<Rightarrow> moq_token_cache \<Rightarrow> moq_token_cache" where
  "cache_del alias c = fst (snd (moq_token_cache_delete alias c undefined))"

lemma plen_norm [simp]: "value_given v \<Longrightarrow> plen (norm_value v) = plen v"
  by (cases v) (auto simp: norm_value_def value_given_def)

lemma norm_norm [simp]: "norm_value (norm_value v) = norm_value v"
  by (cases v) (auto simp: norm_value_def)

lemma value_given_norm [simp]: "value_given (norm_value v)"
  by (simp add: norm_value_def value_given_def)

lemma is_null_norm [simp]: "value_given v \<Longrightarrow> is_null (norm_value v) \<longleftrightarrow> plen v = 0"
  by (cases v) (auto simp: norm_value_def value_given_def)

lemma norm_given: "v = norm_value v \<Longrightarrow> value_given v"
  by (metis value_given_norm)

lemma lookup_keyed:
  "\<not> is_null (tc_entries c) \<Longrightarrow>
   moq_token_cache_lookup c = (\<lambda>a. map_option (\<lambda>e. (te_type e, te_value e)) (keyed te_active te_alias (elems (tc_entries c)) a))"
  by (simp add: fun_eq_iff moq_token_cache_lookup_def keyed_def holds_alias_def [abs_def])

lemma cache_free_slot:
  assumes "cache_active c < cache_cap c" and "\<not> is_null (tc_entries c)" and "cache_cap c \<le> 2 ^ 31"
  obtains i where "first_index (\<lambda>e. \<not> te_active e) (elems (tc_entries c)) = Some i"
    "i < length (elems (tc_entries c))" "\<not> te_active (elems (tc_entries c) ! i)" "int_of_size i = int i"
proof -
  let ?es = "elems (tc_entries c)"
  have len: "length ?es = cache_cap c" using assms(2) by (simp add: cache_cap_def)
  have "\<exists>x \<in> set ?es. \<not> te_active x"
    using assms(1) len unfolding cache_active_def by (metis filter_True less_irrefl)
  then obtain i where i: "first_index (\<lambda>e. \<not> te_active e) ?es = Some i"
    by (metis first_index_None_iff not_Some_eq)
  then have "i < length ?es" "\<not> te_active (?es ! i)" by (simp_all add: first_index_Some_iff)
  moreover from this have "i < 2 ^ 31" using len assms(3) by simp
  then have "signed_take_bit 31 (int i) = int i"
    by (intro signed_take_bit_int_eq_self) auto
  then have "int_of_size i = int i"
    using sint_sbintrunc' [of "int i", where 'a = 32] by (simp add: int_of_size_def)
  ultimately show thesis using that i by blast
qed

lemma token_slot_room:
  assumes "cache_ok c" and "moq_token_cache_lookup c a = None" and "cache_room n c"
  obtains i where "token_slot a n c = Inr i" "i < length (elems (tc_entries c))"
    "\<not> te_active (elems (tc_entries c) ! i)" "size_add MOQ_TOKEN_ENTRY_OVERHEAD n = MOQ_TOKEN_ENTRY_OVERHEAD + n"
proof -
  have ok: "\<not> is_null (tc_entries c)" "cache_cap c \<le> 2 ^ 31" "cache_active c < cache_cap c"
    using assms by (auto simp: cache_ok_def cache_room_def)
  have size: "size_add MOQ_TOKEN_ENTRY_OVERHEAD n = MOQ_TOKEN_ENTRY_OVERHEAD + n"
    using assms by (intro size_add_small) (auto simp: cache_ok_def cache_room_def)
  obtain i where i: "first_index (\<lambda>e. \<not> te_active e) (elems (tc_entries c)) = Some i"
      "i < length (elems (tc_entries c))" "\<not> te_active (elems (tc_entries c) ! i)" "int_of_size i = int i"
    using cache_free_slot [OF ok(3,1,2)] by blast
  have "\<not> list_ex (holds_alias a) (elems (tc_entries c))"
    using assms(2) ok(1) by (auto simp: lookup_keyed keyed_None_iff list_ex_iff holds_alias_def)
  then have "token_slot a n c = Inr i"
    using assms(1,3) i size unfolding token_slot_def
    by (auto simp: Let_def cache_room_def cache_ok_def)
  then show thesis using that i size by blast
qed

text \<open>Every refusal of \<open>token_slot\<close>.\<close>

lemma token_slot_refuse:
  assumes "cache_ok c" and "n \<le> SIZE_MAX"
  shows "moq_token_cache_lookup c a \<noteq> None \<Longrightarrow> token_slot a n c = Inl MOQ_TOKEN_ERR_DUPLICATE"
    and "moq_token_cache_lookup c a = None \<Longrightarrow> \<not> cache_room n c \<Longrightarrow> token_slot a n c = Inl MOQ_TOKEN_ERR_OVERFLOW"
proof -
  have nn: "\<not> is_null (tc_entries c)" using assms by (simp add: cache_ok_def)
  have held: "list_ex (holds_alias a) (elems (tc_entries c)) \<longleftrightarrow> moq_token_cache_lookup c a \<noteq> None"
    using keyed_None_iff [of te_active te_alias "elems (tc_entries c)" a] nn
    by (auto simp: lookup_keyed list_ex_iff holds_alias_def)
  show "moq_token_cache_lookup c a \<noteq> None \<Longrightarrow> token_slot a n c = Inl MOQ_TOKEN_ERR_DUPLICATE"
    using held by (simp add: token_slot_def)
  assume fresh: "moq_token_cache_lookup c a = None" and no: "\<not> cache_room n c"
  show "token_slot a n c = Inl MOQ_TOKEN_ERR_OVERFLOW"
  proof (cases "size_add MOQ_TOKEN_ENTRY_OVERHEAD n < MOQ_TOKEN_ENTRY_OVERHEAD")
    case True
    then show ?thesis using held fresh by (simp add: token_slot_def)
  next
    case False
    then have size: "size_add MOQ_TOKEN_ENTRY_OVERHEAD n = MOQ_TOKEN_ENTRY_OVERHEAD + n"
      using assms(2) size_add_wraps [of MOQ_TOKEN_ENTRY_OVERHEAD n] by (intro size_add_small) auto
    have "first_index (\<lambda>e. \<not> te_active e) (elems (tc_entries c)) = None" if "\<not> cache_active c < cache_cap c"
    proof -
      have "length (filter (\<lambda>e. \<not> te_active e) (elems (tc_entries c))) = 0"
        using that sum_length_filter_compl [of te_active "elems (tc_entries c)"]
        unfolding cache_active_def cache_cap_def plen_elems [OF nn] by linarith
      then show ?thesis by (simp add: first_index_None_iff filter_empty_conv)
    qed
    then show ?thesis
      using held fresh no False size assms(1)
      by (auto simp: token_slot_def Let_def cache_room_def cache_ok_def)
  qed
qed

text \<open>The contract of a bounded token map: what lookups return after a registration or a deletion,
  what the two operations cost, and what they keep.\<close>

locale token_map =
  fixes inv :: "'c \<Rightarrow> bool"
    and look :: "'c \<Rightarrow> u64 \<Rightarrow> (u64 \<times> moq_bytes) option"
    and put :: "u64 \<Rightarrow> u64 \<Rightarrow> moq_bytes \<Rightarrow> 'c \<Rightarrow> 'c"
    and del :: "u64 \<Rightarrow> 'c \<Rightarrow> 'c"
    and cost :: "'c \<Rightarrow> nat"
    and size :: "'c \<Rightarrow> nat"
    and room :: "nat \<Rightarrow> 'c \<Rightarrow> bool"
  assumes put_laws: "inv c \<Longrightarrow> look c a = None \<Longrightarrow> value_given v \<Longrightarrow> room (plen v) c \<Longrightarrow>
      inv (put a t v c) \<and> look (put a t v c) = (look c)(a \<mapsto> (t, norm_value v))
      \<and> cost (put a t v c) = cost c + (MOQ_TOKEN_ENTRY_OVERHEAD + plen v) \<and> size (put a t v c) = size c + 1"
    and del_laws: "inv c \<Longrightarrow> look c a = Some (t, v) \<Longrightarrow>
      inv (del a c) \<and> look (del a c) = (look c)(a := None)
      \<and> cost (del a c) + (MOQ_TOKEN_ENTRY_OVERHEAD + plen v) = cost c \<and> size (del a c) + 1 = size c"
    and look_given: "inv c \<Longrightarrow> look c a = Some (t, v) \<Longrightarrow> norm_value v = v"

text \<open>The staged operations applied to a map, and the condition that each of them succeeds there.\<close>

definition ov_apply_entry :: "(u64 \<Rightarrow> u64 \<Rightarrow> moq_bytes \<Rightarrow> 'c \<Rightarrow> 'c) \<Rightarrow> (u64 \<Rightarrow> 'c \<Rightarrow> 'c) \<Rightarrow> moq_ov_entry \<Rightarrow> 'c \<Rightarrow> 'c" where
  "ov_apply_entry put del e c =
     (if oe_kind e = MOQ_OV_REGISTER then put (oe_alias e) (oe_type e) (oe_value e) c else del (oe_alias e) c)"

definition ov_fits :: "('c \<Rightarrow> u64 \<Rightarrow> (u64 \<times> moq_bytes) option) \<Rightarrow> (nat \<Rightarrow> 'c \<Rightarrow> bool) \<Rightarrow> moq_ov_entry \<Rightarrow> 'c \<Rightarrow> bool" where
  "ov_fits look room e c \<longleftrightarrow>
     (if oe_kind e = MOQ_OV_REGISTER
      then look c (oe_alias e) = None \<and> value_given (oe_value e) \<and> room (plen (oe_value e)) c
      else look c (oe_alias e) \<noteq> None)"

inductive ov_run :: "('c \<Rightarrow> u64 \<Rightarrow> (u64 \<times> moq_bytes) option) \<Rightarrow> (nat \<Rightarrow> 'c \<Rightarrow> bool)
    \<Rightarrow> (u64 \<Rightarrow> u64 \<Rightarrow> moq_bytes \<Rightarrow> 'c \<Rightarrow> 'c) \<Rightarrow> (u64 \<Rightarrow> 'c \<Rightarrow> 'c) \<Rightarrow> 'c \<Rightarrow> moq_ov_entry list \<Rightarrow> 'c \<Rightarrow> bool"
  for look room put del c where
  ov_run_Nil: "ov_run look room put del c [] c"
| ov_run_snoc: "ov_run look room put del c es d \<Longrightarrow> ov_fits look room e d \<Longrightarrow>
    ov_run look room put del c (es @ [e]) (ov_apply_entry put del e d)"

inductive_cases ov_run_snocE: "ov_run look room put del c (es @ [e]) d"

context token_map
begin

lemma run_inv: "ov_run look room put del c es d \<Longrightarrow> inv c \<Longrightarrow> inv d"
  by (induction rule: ov_run.induct)
     (auto simp: ov_fits_def ov_apply_entry_def put_laws del_laws split: if_splits)

text \<open>Searching the overlay finds what the map holds after the staged operations.\<close>

lemma run_search:
  assumes "ov_run look room put del c es d" and "inv c"
  shows "look d a = map_option (apsnd norm_value) (ov_search a (look c a) (rev es))"
  using assms
proof (induction rule: ov_run.induct)
  case ov_run_Nil
  then show ?case using look_given [of c a] by (cases "look c a") auto
next
  case (ov_run_snoc es d e)
  have inv: "inv d" using ov_run_snoc run_inv by blast
  show ?case
  proof (cases "oe_kind e")
    case MOQ_OV_REGISTER
    then show ?thesis
      using ov_run_snoc put_laws [OF inv, of "oe_alias e" "oe_value e" "oe_type e"]
      by (simp add: ov_fits_def ov_apply_entry_def)
  next
    case MOQ_OV_DELETE
    then obtain t v where "look d (oe_alias e) = Some (t, v)"
      using ov_run_snoc by (auto simp: ov_fits_def)
    then show ?thesis
      using MOQ_OV_DELETE ov_run_snoc del_laws [OF inv, of "oe_alias e" t v]
      by (simp add: ov_apply_entry_def)
  qed
qed

text \<open>The newest registration of a live alias is the one the map holds.\<close>

lemma run_find:
  assumes "ov_run look room put del c es d" and "inv c" and "look d a = Some (t, v)"
  shows "(case find (\<lambda>r. oe_alias r = a \<and> oe_kind r = MOQ_OV_REGISTER) (rev es) of
            Some r \<Rightarrow> norm_value (oe_value r) = v | None \<Rightarrow> look c a = Some (t, v))"
proof -
  have gen: "ov_search a b xs \<noteq> None \<Longrightarrow>
      (case find (\<lambda>r. oe_alias r = a \<and> oe_kind r = MOQ_OV_REGISTER) xs of
        Some r \<Rightarrow> ov_search a b xs = Some (oe_type r, oe_value r) | None \<Rightarrow> ov_search a b xs = b)" for b xs
  proof (induction xs)
    case (Cons x xs)
    then show ?case by (cases "oe_alias x = a"; cases "oe_kind x") (auto split: option.splits)
  qed simp
  have s: "Some (t, v) = map_option (apsnd norm_value) (ov_search a (look c a) (rev es))"
    using run_search [OF assms(1,2), of a] assms(3) by metis
  then have "ov_search a (look c a) (rev es) \<noteq> None" by (metis option.map_disc_iff option.distinct(1))
  from gen [OF this] s look_given [OF assms(2), of a] show ?thesis
    by (cases "look c a") (auto split: option.splits)
qed

end

section \<open>The cache meets the contract\<close>

text \<open>One slot of the cache replaced by an entry in use, or cleared.\<close>

definition cache_set :: "nat \<Rightarrow> moq_token_cache_entry \<Rightarrow> nat \<Rightarrow> moq_token_cache \<Rightarrow> moq_token_cache" where
  "cache_set i e n c = c\<lparr>tc_entries := Arr ((elems (tc_entries c))[i := e]), tc_used := n\<rparr>"

lemma cache_set_simps [simp]:
  "elems (tc_entries (cache_set i e n c)) = (elems (tc_entries c))[i := e]" "tc_used (cache_set i e n c) = n"
  "tc_max (cache_set i e n c) = tc_max c" "\<not> is_null (tc_entries (cache_set i e n c))"
  "\<not> is_null (tc_entries c) \<Longrightarrow> cache_cap (cache_set i e n c) = cache_cap c"
  by (simp_all add: cache_set_def cache_cap_def)

lemma cache_set_ok:
  assumes "cache_ok c" and "i < length (elems (tc_entries c))"
    and "key_unique te_active te_alias ((elems (tc_entries c))[i := e])"
    and "n + (if te_active (elems (tc_entries c) ! i) then entry_cost (elems (tc_entries c) ! i) else 0)
         = tc_used c + (if te_active e then entry_cost e else 0)"
    and "n \<le> tc_max c" and "te_active e \<longrightarrow> te_value e = norm_value (te_value e)"
  shows "cache_ok (cache_set i e n c)"
proof -
  have "tc_used c = sum_list (map entry_cost (filter te_active (elems (tc_entries c))))"
    using assms(1) by (simp add: cache_ok_def)
  then have "n = sum_list (map entry_cost (filter te_active ((elems (tc_entries c))[i := e])))"
    using assms(4) sum_update [OF assms(2), of entry_cost te_active e] by simp
  moreover have "\<forall>x \<in> set ((elems (tc_entries c))[i := e]). te_active x \<longrightarrow> te_value x = norm_value (te_value x)"
    using assms(1,6) unfolding cache_ok_def by (intro update_set_all) auto
  ultimately show ?thesis
    using assms(1,3,5) by (simp add: cache_ok_def)
qed

lemma cache_set_active:
  assumes "i < length (elems (tc_entries c))"
  shows "cache_active (cache_set i e n c) + (if te_active (elems (tc_entries c) ! i) then 1 else 0)
    = cache_active c + (if te_active e then 1 else 0)"
  using count_update [OF assms, of te_active e] by (simp add: cache_active_def)

lemma cache_put_eq:
  assumes "cache_ok c" and "moq_token_cache_lookup c a = None" and "value_given v" and "cache_room (plen v) c"
  obtains i where "i < length (elems (tc_entries c))" "\<not> te_active (elems (tc_entries c) ! i)"
    "moq_token_cache_register_preowned a t (norm_value v) c = (MOQ_TOKEN_OK, cache_put a t v c)"
    "cache_put a t v c = cache_set i \<lparr>te_alias = a, te_type = t, te_value = norm_value v, te_active = True\<rparr>
       (tc_used c + (MOQ_TOKEN_ENTRY_OVERHEAD + plen v)) c"
proof -
  obtain i where i: "token_slot a (plen v) c = Inr i" "i < length (elems (tc_entries c))"
      "\<not> te_active (elems (tc_entries c) ! i)"
      "size_add MOQ_TOKEN_ENTRY_OVERHEAD (plen v) = MOQ_TOKEN_ENTRY_OVERHEAD + plen v"
    using token_slot_room [OF assms(1,2,4)] by blast
  have used: "size_add (tc_used c) (MOQ_TOKEN_ENTRY_OVERHEAD + plen v) = tc_used c + (MOQ_TOKEN_ENTRY_OVERHEAD + plen v)"
    using assms(1,4) by (intro size_add_small) (auto simp: cache_ok_def cache_room_def)
  have "\<not> is_null (tc_entries c)" using assms(1) by (simp add: cache_ok_def)
  then have "moq_token_cache_register_preowned a t (norm_value v) c =
      (MOQ_TOKEN_OK, token_store i a t (norm_value v) c)"
    using i assms(3) by (simp add: moq_token_cache_register_preowned_def)
  then show thesis
    using that i used assms(3) by (simp add: cache_put_def token_store_def cache_set_def)
qed

lemma cache_held:
  assumes "cache_ok c" and "moq_token_cache_lookup c a = Some (t, v)"
  obtains i e where "i < length (elems (tc_entries c))" "elems (tc_entries c) ! i = e" "te_active e"
    "te_alias e = a" "te_type e = t" "te_value e = v"
    "first_index (holds_alias a) (elems (tc_entries c)) = Some i"
proof -
  have "\<not> is_null (tc_entries c)" using assms(1) by (simp add: cache_ok_def)
  then obtain e where e: "keyed te_active te_alias (elems (tc_entries c)) a = Some e" "te_type e = t" "te_value e = v"
    using assms(2) by (auto simp: lookup_keyed)
  then have "e \<in> set (elems (tc_entries c))" "holds_alias a e"
    using keyed_SomeD [OF e(1)] by (auto simp: holds_alias_def)
  then obtain i where i: "first_index (holds_alias a) (elems (tc_entries c)) = Some i"
    by (metis first_index_None_iff not_Some_eq)
  then have j: "i < length (elems (tc_entries c))" "holds_alias a (elems (tc_entries c) ! i)"
    by (simp_all add: first_index_Some_iff)
  then have "keyed te_active te_alias (elems (tc_entries c)) a = Some (elems (tc_entries c) ! i)"
    using assms(1) unfolding holds_alias_def
    by (subst keyed_Some_iff) (auto simp: cache_ok_def)
  then show thesis using that i j e by (auto simp: holds_alias_def)
qed

lemma cost_le_used:
  assumes "cache_ok c" and "e \<in> set (elems (tc_entries c))" and "te_active e"
  shows "entry_cost e \<le> tc_used c"
proof -
  have "entry_cost e \<in> set (map entry_cost (filter te_active (elems (tc_entries c))))" using assms by simp
  then have "entry_cost e \<le> sum_list (map entry_cost (filter te_active (elems (tc_entries c))))"
    by (rule member_le_sum_list) simp
  then show ?thesis using assms(1) by (simp add: cache_ok_def)
qed

lemma cache_del_eq:
  assumes "cache_ok c" and "moq_token_cache_lookup c a = Some (t, v)"
  obtains i where "i < length (elems (tc_entries c))" "te_active (elems (tc_entries c) ! i)"
    "te_alias (elems (tc_entries c) ! i) = a" "te_value (elems (tc_entries c) ! i) = v"
    "moq_token_cache_delete a c h = (MOQ_TOKEN_OK, cache_del a c, free_value v h)"
    "cache_del a c = cache_set i token_entry_zero (tc_used c - (MOQ_TOKEN_ENTRY_OVERHEAD + plen v)) c"
    "MOQ_TOKEN_ENTRY_OVERHEAD + plen v \<le> tc_used c"
proof -
  obtain i e where e: "i < length (elems (tc_entries c))" "elems (tc_entries c) ! i = e" "te_active e"
      "te_alias e = a" "te_value e = v" "first_index (holds_alias a) (elems (tc_entries c)) = Some i"
    using cache_held [OF assms] by metis
  have le: "MOQ_TOKEN_ENTRY_OVERHEAD + plen v \<le> tc_used c"
    using cost_le_used [OF assms(1), of e] e by (auto simp: entry_cost_def)
  moreover have "tc_used c \<le> SIZE_MAX" using assms(1) by (simp add: cache_ok_def)
  ultimately have "size_add MOQ_TOKEN_ENTRY_OVERHEAD (plen v) = MOQ_TOKEN_ENTRY_OVERHEAD + plen v"
    by (intro size_add_small) simp
  then have del: "moq_token_cache_delete a c h' = (MOQ_TOKEN_OK,
      cache_set i token_entry_zero (tc_used c - (MOQ_TOKEN_ENTRY_OVERHEAD + plen v)) c, free_value v h')" for h'
    using assms(1) e le by (simp add: moq_token_cache_delete_def cache_set_def cache_ok_def Let_def)
  show thesis using that [OF e(1)] e le by (simp add: del cache_del_def)
qed

interpretation cache_map: token_map cache_ok moq_token_cache_lookup cache_put cache_del tc_used cache_active cache_room
proof
  fix c a t v assume c: "cache_ok c" "moq_token_cache_lookup c a = None" "value_given v" "cache_room (plen v) c"
  let ?e = "\<lparr>te_alias = a, te_type = t, te_value = norm_value v, te_active = True\<rparr>"
  obtain i where i: "i < length (elems (tc_entries c))" "\<not> te_active (elems (tc_entries c) ! i)"
      "cache_put a t v c = cache_set i ?e (tc_used c + (MOQ_TOKEN_ENTRY_OVERHEAD + plen v)) c"
    using cache_put_eq [OF c] by metis
  have nn: "\<not> is_null (tc_entries c)" and u: "key_unique te_active te_alias (elems (tc_entries c))"
    using c(1) by (auto simp: cache_ok_def)
  have fresh: "keyed te_active te_alias (elems (tc_entries c)) (te_alias ?e) = None"
    using c(2) nn by (simp add: lookup_keyed)
  note u' = key_unique_fresh [OF u i(1) fresh]
  have "cache_ok (cache_put a t v c)"
    unfolding i(3) using i(1,2) c u' by (intro cache_set_ok) (auto simp: entry_cost_def cache_room_def)
  moreover have "moq_token_cache_lookup (cache_put a t v c) = (moq_token_cache_lookup c)(a \<mapsto> (t, norm_value v))"
    using keyed_update [OF u u' i(1)] i(2) nn by (simp add: i(3) lookup_keyed fun_eq_iff)
  moreover have "cache_active (cache_put a t v c) = cache_active c + 1"
    using cache_set_active [OF i(1), of ?e] i(2) by (simp add: i(3))
  ultimately show "cache_ok (cache_put a t v c)
      \<and> moq_token_cache_lookup (cache_put a t v c) = (moq_token_cache_lookup c)(a \<mapsto> (t, norm_value v))
      \<and> tc_used (cache_put a t v c) = tc_used c + (MOQ_TOKEN_ENTRY_OVERHEAD + plen v)
      \<and> cache_active (cache_put a t v c) = cache_active c + 1"
    by (simp add: i(3))
next
  fix c a t v assume c: "cache_ok c" "moq_token_cache_lookup c a = Some (t, v)"
  obtain i where i: "i < length (elems (tc_entries c))" "te_active (elems (tc_entries c) ! i)"
      "te_alias (elems (tc_entries c) ! i) = a" "te_value (elems (tc_entries c) ! i) = v"
      "cache_del a c = cache_set i token_entry_zero (tc_used c - (MOQ_TOKEN_ENTRY_OVERHEAD + plen v)) c"
      "MOQ_TOKEN_ENTRY_OVERHEAD + plen v \<le> tc_used c"
    using cache_del_eq [OF c] by metis
  have nn: "\<not> is_null (tc_entries c)" and u: "key_unique te_active te_alias (elems (tc_entries c))"
    using c(1) by (auto simp: cache_ok_def)
  have z: "\<not> te_active token_entry_zero" by (simp add: token_entry_zero_def)
  have "cache_ok (cache_del a c)"
    unfolding i(5) using i(1-4,6) c(1) z key_unique_removed [OF u i(1) z]
    by (intro cache_set_ok) (auto simp: entry_cost_def cache_ok_def)
  moreover have "moq_token_cache_lookup (cache_del a c) = (moq_token_cache_lookup c)(a := None)"
    using keyed_remove [OF u i(1) z i(2)] nn by (simp add: i(3,5) lookup_keyed fun_eq_iff)
  moreover have "cache_active (cache_del a c) + 1 = cache_active c"
    using cache_set_active [OF i(1), of token_entry_zero] i(2) z by (simp add: i(5))
  ultimately show "cache_ok (cache_del a c) \<and> moq_token_cache_lookup (cache_del a c) = (moq_token_cache_lookup c)(a := None)
      \<and> tc_used (cache_del a c) + (MOQ_TOKEN_ENTRY_OVERHEAD + plen v) = tc_used c
      \<and> cache_active (cache_del a c) + 1 = cache_active c"
    using i(6) by (simp add: i(5))
next
  fix c a t v assume c: "cache_ok c" "moq_token_cache_lookup c a = Some (t, v)"
  show "norm_value v = v"
    by (rule cache_held [OF c]) (use c(1) nth_mem in \<open>auto simp: cache_ok_def\<close>)
qed

section \<open>The overlay shows the cache after the staged operations\<close>

abbreviation cache_run :: "moq_token_cache \<Rightarrow> moq_ov_entry list \<Rightarrow> moq_token_cache \<Rightarrow> bool" where
  "cache_run \<equiv> ov_run moq_token_cache_lookup cache_room cache_put cache_del"

lemma cache_put_keeps:
  assumes "cache_ok c" and "moq_token_cache_lookup c a = None" and "value_given v" and "cache_room (plen v) c"
  shows "tc_max (cache_put a t v c) = tc_max c \<and> cache_cap (cache_put a t v c) = cache_cap c"
  by (rule cache_put_eq [OF assms, of t]) (use assms(1) in \<open>auto simp: cache_ok_def\<close>)

lemma cache_del_keeps:
  assumes "cache_ok c" and "moq_token_cache_lookup c a = Some (t, v)"
  shows "tc_max (cache_del a c) = tc_max c \<and> cache_cap (cache_del a c) = cache_cap c"
  by (rule cache_del_eq [OF assms]) (use assms(1) in \<open>auto simp: cache_ok_def\<close>)

lemma run_keeps:
  assumes "cache_run c es d" and "cache_ok c"
  shows "tc_max d = tc_max c \<and> cache_cap d = cache_cap c"
  using assms
proof (induction rule: ov_run.induct)
  case (ov_run_snoc es d e)
  then have "cache_ok d" using cache_map.run_inv by blast
  then show ?case
    using ov_run_snoc cache_put_keeps [of d "oe_alias e" "oe_value e" "oe_type e"] cache_del_keeps [of d "oe_alias e"]
    by (auto simp: ov_fits_def ov_apply_entry_def split: if_splits)
qed simp

lemma run_given:
  assumes "cache_run c es d" and "r \<in> set es" and "oe_kind r = MOQ_OV_REGISTER"
  shows "value_given (oe_value r)"
  using assms by (induction rule: ov_run.induct) (auto simp: ov_fits_def)

lemma find_in: "find P xs = Some x \<Longrightarrow> x \<in> set xs \<and> P x"
  by (auto simp: find_Some_iff)

lemma ov_project_loop_snoc:
  "ov_project_loop c before (es @ [e]) acc = ov_project_entry c (before @ es) e (ov_project_loop c before es acc)"
  by (induction es arbitrary: before acc) auto

lemma ov_project_after_loop_snoc:
  "ov_project_after_loop p c before (es @ [e]) acc
   = ov_project_after_entry p c (before @ es) e (ov_project_after_loop p c before es acc)"
  by (induction es arbitrary: before acc) auto

text \<open>The sizes that a registration and a deletion account for.\<close>

lemma room_size:
  assumes "cache_ok d" and "cache_room n d"
  shows "size_add MOQ_TOKEN_ENTRY_OVERHEAD n = MOQ_TOKEN_ENTRY_OVERHEAD + n"
    and "\<not> SIZE_MAX - (MOQ_TOKEN_ENTRY_OVERHEAD + n) < tc_used d"
  using assms size_add_small [of MOQ_TOKEN_ENTRY_OVERHEAD n] by (auto simp: cache_ok_def cache_room_def)

lemma held_size:
  assumes "cache_ok d" and "moq_token_cache_lookup d a = Some (t, v)"
  shows "size_add MOQ_TOKEN_ENTRY_OVERHEAD (plen v) = MOQ_TOKEN_ENTRY_OVERHEAD + plen v"
    and "MOQ_TOKEN_ENTRY_OVERHEAD + plen v \<le> tc_used d"
proof -
  show "MOQ_TOKEN_ENTRY_OVERHEAD + plen v \<le> tc_used d"
    using cache_map.del_laws [OF assms] by linarith
  then show "size_add MOQ_TOKEN_ENTRY_OVERHEAD (plen v) = MOQ_TOKEN_ENTRY_OVERHEAD + plen v"
    using assms(1) by (intro size_add_small) (auto simp: cache_ok_def)
qed

lemma project_entry_run:
  assumes run: "cache_run c es d" and ok: "cache_ok c"
    and fits: "ov_fits moq_token_cache_lookup cache_room e d"
  shows "ov_project_entry c es e (tc_used d, cache_active d)
    = (tc_used (ov_apply_entry cache_put cache_del e d), cache_active (ov_apply_entry cache_put cache_del e d))"
proof (cases "oe_kind e")
  case MOQ_OV_REGISTER
  have d: "cache_ok d" using run ok cache_map.run_inv by blast
  with MOQ_OV_REGISTER fits show ?thesis
    using room_size [OF d] cache_map.put_laws [OF d, of "oe_alias e" "oe_value e" "oe_type e"]
    by (simp add: ov_project_entry_def ov_apply_entry_def ov_fits_def)
next
  case MOQ_OV_DELETE
  have d: "cache_ok d" using run ok cache_map.run_inv by blast
  obtain t v where v: "moq_token_cache_lookup d (oe_alias e) = Some (t, v)"
    using MOQ_OV_DELETE fits by (auto simp: ov_fits_def)
  have size: "(case find (\<lambda>r. oe_alias r = oe_alias e \<and> oe_kind r = MOQ_OV_REGISTER) (rev es) of
      Some r \<Rightarrow> size_add MOQ_TOKEN_ENTRY_OVERHEAD (plen (oe_value r))
    | None \<Rightarrow> (case moq_token_cache_lookup c (oe_alias e) of
         Some (_, v) \<Rightarrow> size_add MOQ_TOKEN_ENTRY_OVERHEAD (plen v)
       | None \<Rightarrow> MOQ_TOKEN_ENTRY_OVERHEAD)) = MOQ_TOKEN_ENTRY_OVERHEAD + plen v"
  proof (cases "find (\<lambda>r. oe_alias r = oe_alias e \<and> oe_kind r = MOQ_OV_REGISTER) (rev es)")
    case None
    then show ?thesis using cache_map.run_find [OF run ok v] held_size(1) [OF d v] by simp
  next
    case (Some r)
    then have "value_given (oe_value r)" using find_in [OF Some] run_given [OF run] by simp
    then have "plen (oe_value r) = plen v"
      using cache_map.run_find [OF run ok v] Some plen_norm [of "oe_value r"] by simp
    then show ?thesis using Some held_size(1) [OF d v] by simp
  qed
  show ?thesis
    using MOQ_OV_DELETE cache_map.del_laws [OF d v] held_size(2) [OF d v]
    by (auto simp: ov_project_entry_def size ov_apply_entry_def Let_def)
qed

lemma project_run:
  assumes "cache_run c es d" and "cache_ok c"
  shows "moq_ov_project es c = (tc_used d, cache_active d)"
  using assms
proof (induction rule: ov_run.induct)
  case ov_run_Nil
  then show ?case by (simp add: moq_ov_project_def cache_active_def)
next
  case (ov_run_snoc es d e)
  then show ?case
    using project_entry_run [OF ov_run_snoc(1) ov_run_snoc(4,2)]
    by (simp add: moq_ov_project_def ov_project_loop_snoc)
qed

text \<open>With a prefix the staged operations start from the cache after the prefix.\<close>

definition prefix_run :: "moq_cache_overlay option \<Rightarrow> moq_token_cache \<Rightarrow> moq_token_cache \<Rightarrow> bool" where
  "prefix_run prefix c b \<longleftrightarrow> (case prefix of None \<Rightarrow> b = c | Some p \<Rightarrow> cache_run c p b)"

lemma prefix_run_ok: "prefix_run prefix c b \<Longrightarrow> cache_ok c \<Longrightarrow> cache_ok b"
  by (auto simp: prefix_run_def intro: cache_map.run_inv split: option.splits)

lemma prefix_run_keeps:
  "prefix_run prefix c b \<Longrightarrow> cache_ok c \<Longrightarrow> tc_max b = tc_max c \<and> cache_cap b = cache_cap c"
  by (auto simp: prefix_run_def dest: run_keeps split: option.splits)

lemma ov_search_norm:
  "map_option (apsnd norm_value) (ov_search a (map_option (apsnd norm_value) b) xs)
   = map_option (apsnd norm_value) (ov_search a b xs)"
  by (induction xs) (auto simp: option.map_comp o_def split: option.splits intro!: option.map_cong)

lemma live_run:
  assumes "prefix_run prefix c b" and "cache_run b es d" and "cache_ok c"
  shows "moq_token_cache_lookup d a = map_option (apsnd norm_value) (ov_alias_live_after es prefix c a)"
proof -
  have b: "cache_ok b" using assms prefix_run_ok by blast
  have base: "moq_token_cache_lookup b a = map_option (apsnd norm_value)
      (case prefix of Some ov \<Rightarrow> moq_ov_alias_live ov c a | None \<Rightarrow> moq_token_cache_lookup c a)"
  proof (cases prefix)
    case None
    then show ?thesis using assms cache_map.look_given [OF assms(3), of a]
      by (cases "moq_token_cache_lookup c a") (auto simp: prefix_run_def)
  next
    case (Some p)
    then show ?thesis using assms cache_map.run_search [of c p b a]
      by (simp add: prefix_run_def moq_ov_alias_live_def)
  qed
  show ?thesis
    unfolding cache_map.run_search [OF assms(2) b] base ov_search_norm ov_alias_live_after_def ..
qed

lemma ov_search_given:
  assumes "ov_search a b xs = Some (t, v)" and "\<forall>e \<in> set xs. oe_kind e = MOQ_OV_REGISTER \<longrightarrow> value_given (oe_value e)"
    and "\<And>t v. b = Some (t, v) \<Longrightarrow> value_given v"
  shows "value_given v"
  using assms
proof (induction xs)
  case (Cons x xs)
  then show ?case by (cases "oe_alias x = a"; cases "oe_kind x") auto
qed simp

lemma live_given:
  assumes "prefix_run prefix c b" and "cache_run b es d" and "cache_ok c"
    and "ov_alias_live_after es prefix c a = Some (t, v)"
  shows "value_given v"
proof (rule ov_search_given [OF assms(4) [unfolded ov_alias_live_after_def]])
  show "\<forall>e \<in> set (rev es). oe_kind e = MOQ_OV_REGISTER \<longrightarrow> value_given (oe_value e)"
    using run_given [OF assms(2)] by simp
  have cache: "moq_token_cache_lookup c a = Some (t, v) \<Longrightarrow> value_given v" for t v
    using cache_map.look_given [OF assms(3)] norm_given by metis
  show "(case prefix of None \<Rightarrow> moq_token_cache_lookup c a | Some ov \<Rightarrow> moq_ov_alias_live ov c a) = Some (t, v)
      \<Longrightarrow> value_given v" for t v
  proof (cases prefix)
    case (Some p)
    assume "(case prefix of None \<Rightarrow> moq_token_cache_lookup c a | Some ov \<Rightarrow> moq_ov_alias_live ov c a) = Some (t, v)"
    with Some have "ov_search a (moq_token_cache_lookup c a) (rev p) = Some (t, v)"
      by (simp add: moq_ov_alias_live_def)
    then show ?thesis
      by (rule ov_search_given) (use Some assms(1) run_given cache in \<open>auto simp: prefix_run_def\<close>)
  qed (use cache in simp)
qed

lemma project_after_run:
  assumes "prefix_run prefix c b" and "cache_run b es d" and "cache_ok c"
  shows "ov_project_after es prefix c = (tc_used d, cache_active d)"
proof (cases prefix)
  case None
  then show ?thesis using assms project_run by (simp add: ov_project_after_def prefix_run_def)
next
  case (Some p)
  have b: "cache_ok b" using assms prefix_run_ok by blast
  have "ov_project_after_loop p c [] es (moq_ov_project p c) = (tc_used d, cache_active d)"
    using assms(2)
  proof (induction rule: ov_run.induct)
    case ov_run_Nil
    then show ?case using Some assms project_run by (simp add: prefix_run_def)
  next
    case (ov_run_snoc es d e)
    have d: "cache_ok d" using ov_run_snoc b cache_map.run_inv by blast
    have live: "moq_token_cache_lookup d (oe_alias e)
        = map_option (apsnd norm_value) (ov_alias_live_after es (Some p) c (oe_alias e))"
      using live_run [OF assms(1) ov_run_snoc(1) assms(3)] Some by simp
    show ?case
    proof (cases "oe_kind e")
      case MOQ_OV_REGISTER
      with ov_run_snoc show ?thesis
        using room_size [OF d] cache_map.put_laws [OF d, of "oe_alias e" "oe_value e" "oe_type e"]
        by (simp add: ov_project_after_loop_snoc ov_project_after_entry_def ov_apply_entry_def ov_fits_def)
    next
      case MOQ_OV_DELETE
      then obtain t v where v: "ov_alias_live_after es (Some p) c (oe_alias e) = Some (t, v)"
          "moq_token_cache_lookup d (oe_alias e) = Some (t, norm_value v)"
        using ov_run_snoc live by (auto simp: ov_fits_def)
      then have "plen (norm_value v) = plen v"
        using live_given [OF assms(1) ov_run_snoc(1) assms(3)] Some by simp
      then show ?thesis
        using MOQ_OV_DELETE ov_run_snoc(3) v cache_map.del_laws [OF d v(2)] held_size [OF d v(2)]
        by (auto simp: ov_project_after_loop_snoc ov_project_after_entry_def ov_apply_entry_def Let_def)
    qed
  qed
  then show ?thesis using Some by (simp add: ov_project_after_def)
qed

section \<open>Staged processing against direct processing\<close>

definition tok_ok :: "moq_decoded_auth_token \<Rightarrow> bool" where
  "tok_ok tok \<longleftrightarrow> value_given (dt_value tok) \<and> plen (dt_value tok) \<le> SIZE_MAX"

lemma grants_free_value [simp]: "grants_all (free_value v h) = grants_all h"
  by (simp add: free_value_def)

lemma not_room_iff:
  assumes "cache_ok d" and "n \<le> SIZE_MAX"
  shows "(size_add MOQ_TOKEN_ENTRY_OVERHEAD n < MOQ_TOKEN_ENTRY_OVERHEAD \<or> tc_max d < tc_used d
      \<or> tc_max d - tc_used d < size_add MOQ_TOKEN_ENTRY_OVERHEAD n \<or> cache_cap d \<le> cache_active d)
    \<longleftrightarrow> \<not> cache_room n d"
proof (cases "size_add MOQ_TOKEN_ENTRY_OVERHEAD n < MOQ_TOKEN_ENTRY_OVERHEAD")
  case True
  then have "SIZE_MAX < MOQ_TOKEN_ENTRY_OVERHEAD + n"
    using size_add_wraps [of MOQ_TOKEN_ENTRY_OVERHEAD n] assms(2) by auto
  then show ?thesis using True assms(1) by (auto simp: cache_room_def cache_ok_def)
next
  case False
  then have "size_add MOQ_TOKEN_ENTRY_OVERHEAD n = MOQ_TOKEN_ENTRY_OVERHEAD + n"
    using size_add_wraps [of MOQ_TOKEN_ENTRY_OVERHEAD n] assms(2) by (intro size_add_small) auto
  then show ?thesis using assms(1) by (auto simp: cache_room_def cache_ok_def)
qed

lemma register_stores:
  assumes "cache_ok c" and "moq_token_cache_lookup c a = None" and "value_given v" and "cache_room (plen v) c"
    and "grants_all h"
  obtains h' where "moq_token_cache_register a t v c h = (MOQ_TOKEN_OK, cache_put a t v c, h')" "grants_all h'"
proof -
  have nn: "\<not> is_null (tc_entries c)" using assms(1) by (simp add: cache_ok_def)
  obtain i where i: "token_slot a (plen v) c = Inr i" using token_slot_room [OF assms(1,2,4)] by blast
  have put: "cache_put a t v c = token_store i a t (norm_value v) c"
    using i nn assms(3) by (simp add: cache_put_def moq_token_cache_register_preowned_def)
  show thesis
  proof (cases "plen v = 0")
    case True
    then have "norm_value v = Null 0" using assms(3) by (cases v) (auto simp: norm_value_def)
    then show thesis using that [of h] i nn assms True put
      by (simp add: moq_token_cache_register_def)
  next
    case False
    then have "norm_value v = Arr (elems v)" "\<not> is_null v"
      using assms(3) by (cases v; auto simp: norm_value_def value_given_def)+
    then show thesis using that i nn assms False put
      by (simp add: moq_token_cache_register_def)
  qed
qed

lemma register_refuses:
  assumes "cache_ok c" and "plen v \<le> SIZE_MAX"
  shows "moq_token_cache_lookup c a \<noteq> None \<Longrightarrow> moq_token_cache_register a t v c h = (MOQ_TOKEN_ERR_DUPLICATE, c, h)"
    and "moq_token_cache_lookup c a = None \<Longrightarrow> \<not> cache_room (plen v) c \<Longrightarrow>
         moq_token_cache_register a t v c h = (MOQ_TOKEN_ERR_OVERFLOW, c, h)"
  using assms token_slot_refuse [OF assms, of a] by (auto simp: moq_token_cache_register_def cache_ok_def)

lemma delete_unknown:
  assumes "cache_ok c" and "moq_token_cache_lookup c a = None"
  shows "moq_token_cache_delete a c h = (MOQ_TOKEN_ERR_UNKNOWN, c, h)"
proof -
  have "first_index (holds_alias a) (elems (tc_entries c)) = None"
    using assms unfolding first_index_None_iff
    by (auto simp: lookup_keyed cache_ok_def keyed_None_iff holds_alias_def)
  then show ?thesis by (simp add: moq_token_cache_delete_def)
qed

text \<open>A staged state and a direct state that have seen the same tokens: the direct cache is the base
  cache with the staged operations applied.\<close>

definition auth_sim :: "moq_cache_overlay option \<Rightarrow> moq_token_cache \<Rightarrow> moq_token_cache \<Rightarrow> nat \<Rightarrow> auth_state \<Rightarrow> auth_state \<Rightarrow> bool" where
  "auth_sim prefix c b n st sd \<longleftrightarrow>
     au_cache st = c \<and> cache_ok c \<and> prefix_run prefix c b
     \<and> (\<exists>ov. au_ov st = Some ov \<and> cache_run b ov (au_cache sd) \<and> length ov \<le> n
          \<and> (\<forall>e \<in> set ov. oe_preowned e = Null 0))
     \<and> au_ov sd = None \<and> au_tokens st = au_tokens sd \<and> au_reject st = au_reject sd
     \<and> grants_all (au_heap st) \<and> grants_all (au_heap sd)"

definition both :: "('a \<Rightarrow> 'b \<Rightarrow> bool) \<Rightarrow> (auth_stop \<times> 'x) + 'a \<Rightarrow> (auth_stop \<times> 'y) + 'b \<Rightarrow> bool" where
  "both R x y \<longleftrightarrow>
     (case (x, y) of (Inr a, Inr b) \<Rightarrow> R a b | (Inl (s, _), Inl (s', _)) \<Rightarrow> s = s' | _ \<Rightarrow> False)"

lemma both_simps [simp]:
  "both R (Inr a) (Inr b) = R a b" "both R (Inl (s, x)) (Inl (s', y)) = (s = s')"
  by (simp_all add: both_def)

lemma sim_run:
  assumes "auth_sim prefix c b n st sd"
  obtains ov where "au_ov st = Some ov" "cache_run b ov (au_cache sd)" "length ov \<le> n" "cache_ok (au_cache sd)"
    "au_cache st = c" "tc_max c = tc_max (au_cache sd)" "cache_cap c = cache_cap (au_cache sd)"
    "\<And>a. moq_token_cache_lookup (au_cache sd) a = map_option (apsnd norm_value) (ov_alias_live_after ov prefix c a)"
    "ov_project_after ov prefix c = (tc_used (au_cache sd), cache_active (au_cache sd))"
proof -
  obtain ov where ov: "au_ov st = Some ov" "cache_run b ov (au_cache sd)" "length ov \<le> n"
      "prefix_run prefix c b" "cache_ok c" "au_cache st = c"
    using assms by (auto simp: auth_sim_def)
  have "cache_ok b" using ov prefix_run_ok by blast
  then show thesis
    using that ov cache_map.run_inv [OF ov(2)] run_keeps [OF ov(2)] prefix_run_keeps [OF ov(4,5)]
      live_run [OF ov(4,2,5)] project_after_run [OF ov(4,2,5)] by auto
qed

lemma sim_extend:
  assumes "auth_sim prefix c b n st sd" and "au_ov st = Some ov"
    and "ov_fits moq_token_cache_lookup cache_room e (au_cache sd)" and "oe_preowned e = Null 0"
    and "grants_all h"
  shows "auth_sim prefix c b (n + 1) (st\<lparr>au_ov := Some (ov @ [e])\<rparr>)
    (sd\<lparr>au_cache := ov_apply_entry cache_put cache_del e (au_cache sd), au_heap := h\<rparr>)"
  using assms by (auto simp: auth_sim_def intro: ov_run_snoc)

lemma sim_delete:
  assumes sim: "auth_sim prefix c b n st sd" and "n < MOQ_CACHE_OVERLAY_CAP"
  shows "auth_sim prefix c b (n + 1) (auth_delete prefix tok st) (auth_delete None tok sd)"
proof -
  obtain ov where ov: "au_ov st = Some ov" "cache_run b ov (au_cache sd)" "length ov \<le> n" "cache_ok (au_cache sd)"
      "au_cache st = c"
      "\<And>a. moq_token_cache_lookup (au_cache sd) a = map_option (apsnd norm_value) (ov_alias_live_after ov prefix c a)"
    using sim_run [OF sim] by metis
  have sd: "au_ov sd = None" "au_reject st = au_reject sd" "grants_all (au_heap sd)" using sim by (auto simp: auth_sim_def)
  show ?thesis
  proof (cases "moq_token_cache_lookup (au_cache sd) (dt_alias tok)")
    case None
    then have "ov_alias_live_after ov prefix c (dt_alias tok) = None" using ov(6) by simp
    then show ?thesis
      using sim ov sd None delete_unknown [OF ov(4) None]
      by (auto simp: auth_delete_def reject_once_def auth_sim_def)
  next
    case (Some tv)
    obtain t v where tv: "tv = (t, v)" by (cases tv)
    then have live: "ov_alias_live_after ov prefix c (dt_alias tok) \<noteq> None" using ov(6) Some by auto
    have del: "moq_token_cache_delete (dt_alias tok) (au_cache sd) (au_heap sd)
        = (MOQ_TOKEN_OK, cache_del (dt_alias tok) (au_cache sd), free_value v (au_heap sd))"
      using cache_del_eq [OF ov(4) Some [unfolded tv]] by metis
    show ?thesis
      using sim_extend [OF sim ov(1), of "\<lparr>oe_kind = MOQ_OV_DELETE, oe_alias = dt_alias tok, oe_type = 0,
            oe_value = Null 0, oe_preowned = Null 0\<rparr>" "free_value v (au_heap sd)"]
        live del assms(2) ov sd Some
      by (auto simp: auth_delete_def ov_fits_def ov_apply_entry_def)
  qed
qed

lemma sim_register:
  assumes sim: "auth_sim prefix c b n st sd" and "n < MOQ_CACHE_OVERLAY_CAP" and "tok_ok tok"
  shows "both (auth_sim prefix c b (n + 1)) (auth_register has_staged prefix tok st) (auth_register has_staged None tok sd)"
proof -
  obtain ov where ov: "au_ov st = Some ov" "cache_run b ov (au_cache sd)" "length ov \<le> n" "cache_ok (au_cache sd)"
      "au_cache st = c" "tc_max c = tc_max (au_cache sd)" "cache_cap c = cache_cap (au_cache sd)"
      "\<And>a. moq_token_cache_lookup (au_cache sd) a = map_option (apsnd norm_value) (ov_alias_live_after ov prefix c a)"
      "ov_project_after ov prefix c = (tc_used (au_cache sd), cache_active (au_cache sd))"
    using sim_run [OF sim] by metis
  have sd: "au_ov sd = None" "grants_all (au_heap sd)" using sim by (auto simp: auth_sim_def)
  have tok: "value_given (dt_value tok)" "plen (dt_value tok) \<le> SIZE_MAX" using assms(3) by (auto simp: tok_ok_def)
  have live: "(ov_alias_live_after ov prefix c (dt_alias tok) = None)
      = (moq_token_cache_lookup (au_cache sd) (dt_alias tok) = None)" using ov(8) by simp
  have room: "(size_add MOQ_TOKEN_ENTRY_OVERHEAD (plen (dt_value tok)) < MOQ_TOKEN_ENTRY_OVERHEAD
      \<or> tc_max c < tc_used (au_cache sd)
      \<or> tc_max c - tc_used (au_cache sd) < size_add MOQ_TOKEN_ENTRY_OVERHEAD (plen (dt_value tok))
      \<or> plen (tc_entries c) \<le> cache_active (au_cache sd)) = (\<not> cache_room (plen (dt_value tok)) (au_cache sd))"
    using not_room_iff [OF ov(4) tok(2)] ov(6,7) by (simp add: cache_cap_def)
  have staged: "auth_register has_staged prefix tok st =
      (if moq_token_cache_lookup (au_cache sd) (dt_alias tok) \<noteq> None then Inl (Auth_Close 0x14, auth_cleanup has_staged st)
       else if \<not> cache_room (plen (dt_value tok)) (au_cache sd) then Inl (Auth_Close 0x13, auth_cleanup has_staged st)
       else Inr (st\<lparr>au_ov := Some (ov @ [\<lparr>oe_kind = MOQ_OV_REGISTER, oe_alias = dt_alias tok,
                  oe_type = dt_type tok, oe_value = dt_value tok, oe_preowned = Null 0\<rparr>])\<rparr>))"
    using ov(1,3,5,9) assms(2) live room by (simp add: auth_register_def Let_def)
  show ?thesis
  proof (cases "moq_token_cache_lookup (au_cache sd) (dt_alias tok) = None
      \<and> cache_room (plen (dt_value tok)) (au_cache sd)")
    case True
    obtain h' where h': "moq_token_cache_register (dt_alias tok) (dt_type tok) (dt_value tok) (au_cache sd) (au_heap sd)
        = (MOQ_TOKEN_OK, cache_put (dt_alias tok) (dt_type tok) (dt_value tok) (au_cache sd), h')" "grants_all h'"
      using register_stores [OF ov(4)] True tok(1) sd(2) by metis
    then show ?thesis
      using True staged sd sim_extend [OF sim ov(1), of "\<lparr>oe_kind = MOQ_OV_REGISTER, oe_alias = dt_alias tok,
                  oe_type = dt_type tok, oe_value = dt_value tok, oe_preowned = Null 0\<rparr>" h'] tok(1)
      by (simp add: auth_register_def ov_fits_def ov_apply_entry_def)
  next
    case False
    then show ?thesis
      using staged sd register_refuses [OF ov(4) tok(2), of "dt_alias tok"]
      by (cases "moq_token_cache_lookup (au_cache sd) (dt_alias tok)") (auto simp: auth_register_def)
  qed
qed

lemma sim_use_alias:
  assumes sim: "auth_sim prefix c b n st sd"
  shows "both (\<lambda>(t, v, st') (t', v', sd'). auth_sim prefix c b n st' sd' \<and> (au_reject st' = 0 \<longrightarrow> t' = t \<and> v' = v))
    (auth_use_alias has_staged prefix tok st) (auth_use_alias has_staged None tok sd)"
proof (cases "au_reject sd = 0")
  case True
  obtain ov where ov: "au_ov st = Some ov" "cache_run b ov (au_cache sd)" "cache_ok (au_cache sd)" "au_cache st = c"
      "\<And>a. moq_token_cache_lookup (au_cache sd) a = map_option (apsnd norm_value) (ov_alias_live_after ov prefix c a)"
    using sim_run [OF sim] by metis
  have sd: "au_ov sd = None" "au_reject st = au_reject sd" "grants_all (au_heap sd)" "grants_all (au_heap st)"
    using sim by (auto simp: auth_sim_def)
  show ?thesis
  proof (cases "ov_alias_live_after ov prefix c (dt_alias tok)")
    case None
    then show ?thesis using True sim ov sd by (simp add: auth_use_alias_def auth_sim_def)
  next
    case (Some tv)
    obtain t v where tv: "tv = (t, v)" by (cases tv)
    have "value_given v"
      using live_given [OF _ ov(2), of prefix c "dt_alias tok"] sim Some tv by (auto simp: auth_sim_def)
    then have "plen (norm_value v) = plen v" "is_null (norm_value v) = (plen v = 0)" "plen v \<noteq> 0 \<Longrightarrow> \<not> is_null v"
      "elems (norm_value v) = elems v"
      by (cases v; auto simp: value_given_def norm_value_def)+
    then show ?thesis using True Some tv sim ov sd by (auto simp: auth_use_alias_def auth_sim_def)
  qed
next
  case False
  then show ?thesis using sim by (simp add: auth_use_alias_def auth_sim_def)
qed

lemma sim_push:
  assumes "auth_sim prefix c b n st sd" and "au_reject st = 0 \<Longrightarrow> t' = t \<and> v' = v"
  shows "auth_sim prefix c b n (auth_push m op t v st) (auth_push m op t' v' sd)"
  using assms by (auto simp: auth_sim_def auth_push_def Let_def)

lemma sim_more: "auth_sim prefix c b n st sd \<Longrightarrow> auth_sim prefix c b (n + 1) st sd"
  by (auto simp: auth_sim_def)

lemma sim_token:
  assumes "auth_sim prefix c b n st sd" and "n < MOQ_CACHE_OVERLAY_CAP" and "tok_ok tok"
  shows "both (auth_sim prefix c b (n + 1)) (auth_token m has_staged prefix tok st) (auth_token m has_staged None tok sd)"
proof (cases "dt_op tok")
  case MOQ_AUTH_OP_DELETE
  then show ?thesis using sim_delete [OF assms(1,2)] sim_push by (simp add: auth_token_def)
next
  case MOQ_AUTH_OP_REGISTER
  then show ?thesis using sim_register [OF assms, of has_staged] sim_push
    by (auto simp: auth_token_def both_def split: sum.splits)
next
  case MOQ_AUTH_OP_USE_ALIAS
  then show ?thesis using sim_use_alias [OF assms(1), of has_staged tok] sim_push sim_more
    by (auto simp: auth_token_def both_def split: sum.splits)
next
  case MOQ_AUTH_OP_USE_VALUE
  then show ?thesis using sim_push [OF sim_more [OF assms(1)]] by (simp add: auth_token_def)
qed

lemma sim_loop:
  assumes "auth_sim prefix c b n st sd" and "n + length toks \<le> MOQ_CACHE_OVERLAY_CAP" and "list_all tok_ok toks"
  shows "both (auth_sim prefix c b (n + length toks)) (auth_loop m has_staged prefix toks st) (auth_loop m has_staged None toks sd)"
  using assms
proof (induction toks arbitrary: n st sd)
  case (Cons tok toks)
  have step: "both (auth_sim prefix c b (n + 1)) (auth_token m has_staged prefix tok st) (auth_token m has_staged None tok sd)"
    using Cons.prems by (intro sim_token) auto
  show ?case
  proof (cases "auth_token m has_staged prefix tok st")
    case (Inl x)
    with step show ?thesis by (auto simp: both_def split: sum.splits)
  next
    case (Inr st')
    with step obtain sd' where "auth_token m has_staged None tok sd = Inr sd'" "auth_sim prefix c b (n + 1) st' sd'"
      by (auto simp: both_def split: sum.splits)
    with Inr Cons.IH [of "n + 1" st' sd'] Cons.prems show ?thesis by simp
  qed
qed simp

section \<open>Memory accounting\<close>

text \<open>The blocks owned by the values of the cache, by the staged copies of a message, and by the
  values allocated for the staged registrations.\<close>

definition value_block :: "moq_bytes \<Rightarrow> nat multiset" where
  "value_block v = (if is_null v then {#} else {#plen v#})"

definition cache_blocks :: "moq_token_cache \<Rightarrow> nat multiset" where
  "cache_blocks c = sum_list (map (\<lambda>e. value_block (te_value e)) (filter te_active (elems (tc_entries c))))"

definition staged_blocks :: "moq_resolved_token list \<Rightarrow> nat multiset" where
  "staged_blocks tokens = mset (map (\<lambda>t. plen (rt_value t))
     (filter (\<lambda>t. rt_staged t \<and> \<not> is_null (rt_value t) \<and> 0 < plen (rt_value t)) tokens))"

definition ov_blocks :: "moq_cache_overlay \<Rightarrow> nat multiset" where
  "ov_blocks ov = mset (map (\<lambda>e. plen (oe_value e)) (filter (\<lambda>e. \<not> is_null (oe_preowned e)) ov))"

lemma ov_blocks_simps [simp]:
  "ov_blocks [] = {#}" "ov_blocks (xs @ ys) = ov_blocks xs + ov_blocks ys"
  "ov_blocks [e] = (if is_null (oe_preowned e) then {#} else {#plen (oe_value e)#})"
  by (simp_all add: ov_blocks_def)

lemma free_staging_blocks:
  "mset (h_blocks (snd (free_staging_internal True tokens h))) = mset (h_blocks h) - staged_blocks tokens"
  "staged_blocks (fst (free_staging_internal True tokens h)) = {#}"
  by (simp add: free_staging_internal_def staged_blocks_def blocks_fold_free)
     (auto simp: free_staging_internal_def staged_blocks_def filter_empty_conv)

lemma free_preowned_blocks:
  "mset (h_blocks (snd (moq_ov_free_preowned ov h))) = mset (h_blocks h) - ov_blocks ov"
proof -
  have eq: "(\<lambda>e h. if is_null (oe_preowned e) then h else heap_free (plen (oe_value e)) h)
      = (\<lambda>e. if \<not> is_null (oe_preowned e) then heap_free (plen (oe_value e)) else id)"
    by (auto simp: fun_eq_iff)
  show ?thesis
    unfolding moq_ov_free_preowned_def snd_conv eq ov_blocks_def by (rule blocks_fold_free)
qed

lemma cache_set_blocks:
  assumes "i < length (elems (tc_entries c))"
  shows "cache_blocks (cache_set i e n c) + (if te_active (elems (tc_entries c) ! i) then value_block (te_value (elems (tc_entries c) ! i)) else {#})
    = cache_blocks c + (if te_active e then value_block (te_value e) else {#})"
  using sum_update [OF assms, of "\<lambda>e. value_block (te_value e)" te_active e] by (simp add: cache_blocks_def)

lemma put_blocks:
  assumes "cache_ok c" and "moq_token_cache_lookup c a = None" and "value_given v" and "cache_room (plen v) c"
  shows "cache_blocks (cache_put a t v c) = cache_blocks c + value_block (norm_value v)"
proof -
  obtain i where i: "i < length (elems (tc_entries c))" "\<not> te_active (elems (tc_entries c) ! i)"
    "cache_put a t v c = cache_set i \<lparr>te_alias = a, te_type = t, te_value = norm_value v, te_active = True\<rparr>
       (tc_used c + (MOQ_TOKEN_ENTRY_OVERHEAD + plen v)) c"
    using cache_put_eq [OF assms] by metis
  show ?thesis
    using cache_set_blocks [OF i(1), of "\<lparr>te_alias = a, te_type = t, te_value = norm_value v, te_active = True\<rparr>"] i(2)
    by (simp add: i(3))
qed

lemma del_blocks:
  assumes "cache_ok c" and "moq_token_cache_lookup c a = Some (t, v)"
  shows "cache_blocks (cache_del a c) + value_block v = cache_blocks c"
proof -
  obtain i where i: "i < length (elems (tc_entries c))" "te_active (elems (tc_entries c) ! i)"
    "te_value (elems (tc_entries c) ! i) = v"
    "cache_del a c = cache_set i token_entry_zero (tc_used c - (MOQ_TOKEN_ENTRY_OVERHEAD + plen v)) c"
    using cache_del_eq [OF assms] by metis
  show ?thesis
    using cache_set_blocks [OF i(1), of token_entry_zero] i(2,3) by (simp add: i(4) token_entry_zero_def)
qed

lemma free_value_blocks: "mset (h_blocks (free_value v h)) = mset (h_blocks h) - value_block v"
  by (simp add: free_value_def value_block_def blocks_free)

text \<open>The entries after their values were allocated.\<close>

definition ov_prealloc :: "moq_ov_entry \<Rightarrow> moq_ov_entry" where
  "ov_prealloc e = (if oe_kind e \<noteq> MOQ_OV_REGISTER \<or> plen (oe_value e) = 0 then e
     else e\<lparr>oe_preowned := Arr (elems (oe_value e))\<rparr>)"

lemma prealloc_ok: "auth_prealloc before rest h = (True, ov, h') \<Longrightarrow> ov = before @ map ov_prealloc rest"
  by (induction before rest h rule: auth_prealloc.induct)
     (auto simp: ov_prealloc_def split: if_splits prod.splits bool.splits)

lemma prealloc_grants:
  "grants_all h \<Longrightarrow> \<exists>h'. auth_prealloc before rest h = (True, before @ map ov_prealloc rest, h')"
  by (induction before rest h rule: auth_prealloc.induct) (auto simp: ov_prealloc_def)

lemma prealloc_blocks:
  assumes "auth_prealloc before rest h = (ok, ov, h')" and "\<forall>e \<in> set rest. oe_preowned e = Null 0"
  shows "mset (h_blocks h') + ov_blocks before = mset (h_blocks h) + ov_blocks ov"
  using assms
proof (induction rest arbitrary: before h)
  case (Cons e rest)
  have rest: "\<forall>e \<in> set rest. oe_preowned e = Null 0" and e: "is_null (oe_preowned e)"
    using Cons.prems(2) by auto
  show ?case
  proof (cases "oe_kind e \<noteq> MOQ_OV_REGISTER \<or> plen (oe_value e) = 0")
    case True
    then have "auth_prealloc (before @ [e]) rest h = (ok, ov, h')" using Cons.prems(1) by simp
    from Cons.IH [OF this rest] show ?thesis using e by simp
  next
    case False
    obtain g h1 where g: "heap_alloc (plen (oe_value e)) h = (g, h1)" by (rule prod.exhaust)
    show ?thesis
    proof (cases g)
      case True
      then have "auth_prealloc (before @ [e\<lparr>oe_preowned := Arr (elems (oe_value e))\<rparr>]) rest h1 = (ok, ov, h')"
        using Cons.prems(1) False g by simp
      from Cons.IH [OF this rest] show ?thesis
        using blocks_alloc(1) [of "plen (oe_value e)" h h1] g True by simp
    next
      case no: False
      have eq: "ov = before @ e # rest" "h' = h1" using Cons.prems(1) False g no by simp_all
      have "ov_blocks (e # rest) = {#}" using e rest by (auto simp: ov_blocks_def filter_empty_conv)
      then show ?thesis
        using eq g no blocks_alloc(2) [of "plen (oe_value e)" h h1] by simp
    qed
  qed
qed auto

text \<open>Committing reaches the cache that the staged operations describe, and moves the allocated
  values into it.\<close>

lemma commit_entry_run:
  assumes d: "cache_ok d" and fits: "ov_fits moq_token_cache_lookup cache_room e d" and "oe_preowned e = Null 0"
  shows "\<exists>h'. auth_commit_entry (ov_prealloc e) (d, h) = (ov_apply_entry cache_put cache_del e d, h')
    \<and> (\<forall>F. mset (h_blocks h) = F + cache_blocks d + ov_blocks [ov_prealloc e] \<longrightarrow>
          mset (h_blocks h') = F + cache_blocks (ov_apply_entry cache_put cache_del e d))"
proof (cases "oe_kind e")
  case MOQ_OV_REGISTER
  let ?p = "ov_prealloc e"
  have f: "moq_token_cache_lookup d (oe_alias e) = None" "value_given (oe_value e)" "cache_room (plen (oe_value e)) d"
    using MOQ_OV_REGISTER fits by (auto simp: ov_fits_def)
  have p: "oe_kind ?p = MOQ_OV_REGISTER" "oe_alias ?p = oe_alias e" "oe_type ?p = oe_type e"
      "(if is_null (oe_preowned ?p) then Null (plen (oe_value ?p)) else oe_preowned ?p) = norm_value (oe_value e)"
      "ov_blocks [?p] = value_block (norm_value (oe_value e))"
    using MOQ_OV_REGISTER assms(3) f(2) by (cases "oe_value e"; auto simp: ov_prealloc_def norm_value_def value_given_def value_block_def)+
  have "moq_token_cache_register_preowned (oe_alias e) (oe_type e) (norm_value (oe_value e)) d
      = (MOQ_TOKEN_OK, cache_put (oe_alias e) (oe_type e) (oe_value e) d)"
    using cache_put_eq [OF d f, of "oe_type e"] by metis
  then have "auth_commit_entry ?p (d, h) = (cache_put (oe_alias e) (oe_type e) (oe_value e) d, h)"
    unfolding auth_commit_entry_def prod.case p(4) p(2) p(3) by (simp add: p(1))
  then show ?thesis
    using MOQ_OV_REGISTER put_blocks [OF d f, of "oe_type e"] p(5)
    by (simp add: ov_apply_entry_def ac_simps)
next
  case MOQ_OV_DELETE
  obtain t v where v: "moq_token_cache_lookup d (oe_alias e) = Some (t, v)"
    using MOQ_OV_DELETE fits by (auto simp: ov_fits_def)
  have del: "moq_token_cache_delete (oe_alias e) d h = (MOQ_TOKEN_OK, cache_del (oe_alias e) d, free_value v h)"
    using cache_del_eq [OF d v] by metis
  show ?thesis
    using MOQ_OV_DELETE del assms(3) del_blocks [OF d v, symmetric]
    by (simp add: auth_commit_entry_def ov_prealloc_def ov_apply_entry_def free_value_blocks)
qed

lemma commit_run:
  assumes "cache_run c es d" and "cache_ok c" and "\<forall>e \<in> set es. oe_preowned e = Null 0"
  shows "\<exists>h'. process_auth_tokens_commit_txn (map ov_prealloc es) c h = (d, h')
    \<and> (\<forall>F. mset (h_blocks h) = F + cache_blocks c + ov_blocks (map ov_prealloc es) \<longrightarrow>
          mset (h_blocks h') = F + cache_blocks d)"
  using assms
proof (induction rule: ov_run.induct)
  case (ov_run_snoc es d e)
  then obtain h1 where h1: "process_auth_tokens_commit_txn (map ov_prealloc es) c h = (d, h1)"
      "\<And>F. mset (h_blocks h) = F + cache_blocks c + ov_blocks (map ov_prealloc es) \<Longrightarrow>
          mset (h_blocks h1) = F + cache_blocks d"
    by auto
  have d: "cache_ok d" using ov_run_snoc cache_map.run_inv by blast
  obtain h2 where h2: "auth_commit_entry (ov_prealloc e) (d, h1) = (ov_apply_entry cache_put cache_del e d, h2)"
      "\<And>F. mset (h_blocks h1) = F + cache_blocks d + ov_blocks [ov_prealloc e] \<Longrightarrow>
          mset (h_blocks h2) = F + cache_blocks (ov_apply_entry cache_put cache_del e d)"
    using commit_entry_run [OF d ov_run_snoc(2), of h1] ov_run_snoc(5) by auto
  have "mset (h_blocks h2) = F + cache_blocks (ov_apply_entry cache_put cache_del e d)"
    if F: "mset (h_blocks h) = F + cache_blocks c + ov_blocks (map ov_prealloc (es @ [e]))" for F
  proof (rule h2(2))
    have "mset (h_blocks h1) = (F + ov_blocks [ov_prealloc e]) + cache_blocks d"
      using F by (intro h1(2)) (simp add: ac_simps)
    then show "mset (h_blocks h1) = F + cache_blocks d + ov_blocks [ov_prealloc e]" by (simp add: ac_simps)
  qed
  then show ?case using h1(1) h2(1) by (simp add: process_auth_tokens_commit_txn_def)
qed (auto simp: process_auth_tokens_commit_txn_def)

text \<open>Staged processing keeps the cache and, besides the staged copies, every block of memory.\<close>

definition auth_mem :: "moq_token_cache \<Rightarrow> nat multiset \<Rightarrow> nat \<Rightarrow> auth_state \<Rightarrow> bool" where
  "auth_mem c F n st \<longleftrightarrow>
     au_cache st = c \<and> mset (h_blocks (au_heap st)) = F + staged_blocks (au_tokens st)
     \<and> (\<exists>ov. au_ov st = Some ov \<and> (\<forall>e \<in> set ov. oe_preowned e = Null 0)) \<and> length (au_tokens st) \<le> n"

lemma cleanup_blocks:
  assumes "au_ov st = Some ov"
  shows "mset (h_blocks (au_heap (auth_cleanup True st)))
      = mset (h_blocks (au_heap st)) - staged_blocks (au_tokens st) - ov_blocks ov"
    and "au_cache (auth_cleanup True st) = au_cache st"
proof -
  obtain tokens h ov' h' where "free_staging_internal True (au_tokens st) (au_heap st) = (tokens, h)"
      "moq_ov_free_preowned ov h = (ov', h')" by (meson prod.exhaust)
  then show "mset (h_blocks (au_heap (auth_cleanup True st)))
      = mset (h_blocks (au_heap st)) - staged_blocks (au_tokens st) - ov_blocks ov"
    and "au_cache (auth_cleanup True st) = au_cache st"
    using assms free_staging_blocks(1) [of "au_tokens st" "au_heap st"] free_preowned_blocks [of ov h]
    by (simp_all add: auth_cleanup_def)
qed

lemma ov_blocks_none: "\<forall>e \<in> set ov. oe_preowned e = Null 0 \<Longrightarrow> ov_blocks ov = {#}"
  by (simp add: ov_blocks_def filter_empty_conv)

text \<open>The outcome of a step: the invariant with one more token, or a stop that gave everything back.\<close>

definition mem_step :: "moq_token_cache \<Rightarrow> nat multiset \<Rightarrow> nat \<Rightarrow> (auth_stop \<times> auth_state) + auth_state \<Rightarrow> bool" where
  "mem_step c F n r \<longleftrightarrow>
     (case r of Inr st \<Rightarrow> auth_mem c F n st
              | Inl (_, st) \<Rightarrow> au_cache st = c \<and> mset (h_blocks (au_heap st)) = F)"

lemma mem_cleanup:
  assumes "auth_mem c F n st"
  shows "au_cache (auth_cleanup True st) = c \<and> mset (h_blocks (au_heap (auth_cleanup True st))) = F"
proof -
  obtain ov where ov: "au_ov st = Some ov" "\<forall>e \<in> set ov. oe_preowned e = Null 0"
    using assms by (auto simp: auth_mem_def)
  show ?thesis
    using assms cleanup_blocks [OF ov(1)] ov_blocks_none [OF ov(2)] by (simp add: auth_mem_def)
qed

lemma mem_delete: "auth_mem c F n st \<Longrightarrow> auth_mem c F n (auth_delete prefix tok st)"
  by (auto simp: auth_mem_def auth_delete_def reject_once_def)

lemma mem_register:
  assumes "auth_mem c F n st"
  shows "mem_step c F n (auth_register True prefix tok st)"
  using assms mem_cleanup [OF assms]
  by (auto simp: auth_register_def mem_step_def auth_mem_def Let_def split: prod.splits)

text \<open>\<open>auth_push\<close> records a copy that was made for it, or gives it back.\<close>

lemma mem_push:
  assumes "au_cache st = c" and "\<exists>ov. au_ov st = Some ov \<and> (\<forall>e \<in> set ov. oe_preowned e = Null 0)"
    and "length (au_tokens st) \<le> n" and "n < m"
    and "mset (h_blocks (au_heap st)) = F + staged_blocks (au_tokens st)
      + (if au_reject st = 0 \<and> op = MOQ_AUTH_OP_USE_ALIAS \<and> \<not> is_null v \<and> 0 < plen v then {#plen v#} else {#})"
  shows "auth_mem c F (n + 1) (auth_push m op t v st)"
  using assms
  by (auto simp: auth_mem_def auth_push_def Let_def blocks_free staged_blocks_def)

lemma mem_use_alias:
  assumes "auth_mem c F n st"
  shows "case auth_use_alias True prefix tok st of
      Inl (_, st') \<Rightarrow> au_cache st' = c \<and> mset (h_blocks (au_heap st')) = F
    | Inr (t, v, st') \<Rightarrow> au_cache st' = c \<and> au_ov st' = au_ov st \<and> au_tokens st' = au_tokens st
        \<and> mset (h_blocks (au_heap st')) = F + staged_blocks (au_tokens st')
          + (if au_reject st' = 0 \<and> \<not> is_null v \<and> 0 < plen v then {#plen v#} else {#})"
proof (cases "au_reject st = 0")
  case True
  obtain ov where ov: "au_ov st = Some ov" using assms by (auto simp: auth_mem_def)
  show ?thesis
  proof (cases "ov_alias_live_after ov prefix (au_cache st) (dt_alias tok)")
    case None
    then show ?thesis using True assms ov by (simp add: auth_use_alias_def auth_mem_def)
  next
    case (Some tv)
    obtain t v where tv: "tv = (t, v)" by (rule prod.exhaust)
    obtain g h where g: "heap_alloc (plen v) (au_heap st) = (g, h)" by (rule prod.exhaust)
    have "auth_mem c F n (st\<lparr>au_heap := h\<rparr>)" if "\<not> g"
      using assms blocks_alloc(2) g that by (simp add: auth_mem_def)
    then show ?thesis
      using True Some tv g assms ov blocks_alloc(1) [of "plen v" "au_heap st" h] mem_cleanup
      by (cases g; cases "0 < plen v \<and> \<not> is_null v")
         (auto simp: auth_use_alias_def auth_mem_def)
  qed
next
  case False
  then show ?thesis using assms by (simp add: auth_use_alias_def auth_mem_def)
qed

lemma mem_push_plain:
  assumes "auth_mem c F n st" and "n < m" and "op \<noteq> MOQ_AUTH_OP_USE_ALIAS"
  shows "auth_mem c F (n + 1) (auth_push m op t v st)"
  using assms by (intro mem_push) (auto simp: auth_mem_def)

lemma mem_token:
  assumes "auth_mem c F n st" and "n < m"
  shows "mem_step c F (n + 1) (auth_token m True prefix tok st)"
proof (cases "dt_op tok")
  case MOQ_AUTH_OP_DELETE
  then show ?thesis using mem_push_plain [OF mem_delete [OF assms(1)] assms(2)]
    by (simp add: auth_token_def mem_step_def)
next
  case MOQ_AUTH_OP_REGISTER
  then show ?thesis using mem_register [OF assms(1), of prefix tok] mem_push_plain assms(2)
    by (auto simp: auth_token_def mem_step_def split: sum.splits)
next
  case MOQ_AUTH_OP_USE_ALIAS
  show ?thesis
  proof (cases "auth_use_alias True prefix tok st")
    case (Inl x)
    then show ?thesis using MOQ_AUTH_OP_USE_ALIAS mem_use_alias [OF assms(1), of prefix tok]
      by (simp add: auth_token_def mem_step_def)
  next
    case (Inr x)
    obtain t v st' where x: "x = (t, v, st')" by (rule prod_cases3)
    have "auth_mem c F (n + 1) (auth_push m MOQ_AUTH_OP_USE_ALIAS t v st')"
      using mem_use_alias [OF assms(1), of prefix tok] Inr x assms by (intro mem_push) (auto simp: auth_mem_def)
    then show ?thesis using MOQ_AUTH_OP_USE_ALIAS Inr x by (simp add: auth_token_def mem_step_def)
  qed
next
  case MOQ_AUTH_OP_USE_VALUE
  then show ?thesis using mem_push_plain [OF assms]
    by (simp add: auth_token_def mem_step_def)
qed

lemma mem_loop:
  assumes "auth_mem c F n st" and "n + length toks \<le> m"
  shows "mem_step c F (n + length toks) (auth_loop m True prefix toks st)"
  using assms
proof (induction toks arbitrary: n st)
  case (Cons tok toks)
  have step: "mem_step c F (n + 1) (auth_token m True prefix tok st)"
    using Cons.prems by (intro mem_token) auto
  show ?case
  proof (cases "auth_token m True prefix tok st")
    case (Inl x)
    with step show ?thesis by (simp add: mem_step_def)
  next
    case (Inr st')
    with step have "auth_mem c F (n + 1) st'" by (simp add: mem_step_def)
    from Cons.IH [OF this] Inr Cons.prems show ?thesis by simp
  qed
qed (simp add: mem_step_def)

text \<open>Every outcome of a registration.\<close>

lemma register_outcome:
  assumes "cache_ok c" and "value_given v" and "plen v \<le> SIZE_MAX"
    and "moq_token_cache_register a t v c h = (rc, c', h')"
  shows "if moq_token_cache_lookup c a \<noteq> None then rc = MOQ_TOKEN_ERR_DUPLICATE \<and> c' = c \<and> h' = h
    else if \<not> cache_room (plen v) c then rc = MOQ_TOKEN_ERR_OVERFLOW \<and> c' = c \<and> h' = h
    else rc = MOQ_TOKEN_ERR_NOMEM \<and> c' = c \<and> mset (h_blocks h') = mset (h_blocks h)
      \<or> rc = MOQ_TOKEN_OK \<and> c' = cache_put a t v c
        \<and> mset (h_blocks h') = mset (h_blocks h) + value_block (norm_value v)"
proof (cases "moq_token_cache_lookup c a = None \<and> cache_room (plen v) c")
  case False
  then show ?thesis using register_refuses [OF assms(1,3), of a] assms(4)
    by (cases "moq_token_cache_lookup c a") (auto split: if_splits)
next
  case True
  have nn: "\<not> is_null (tc_entries c)" using assms(1) by (simp add: cache_ok_def)
  obtain i where i: "token_slot a (plen v) c = Inr i" using token_slot_room [of c a "plen v"] assms(1) True by blast
  have put: "cache_put a t v c = token_store i a t (norm_value v) c"
    using i nn assms(2) by (simp add: cache_put_def moq_token_cache_register_preowned_def)
  show ?thesis
  proof (cases "plen v = 0")
    case zero: True
    then have "norm_value v = Null 0" using assms(2) by (cases v) (auto simp: norm_value_def)
    then show ?thesis
      using True zero assms(4) i nn put by (auto simp: moq_token_cache_register_def value_block_def)
  next
    case False
    then have v: "norm_value v = Arr (elems v)" "\<not> is_null v" using assms(2) by (cases v; auto simp: norm_value_def value_given_def)+
    obtain g h1 where g: "heap_alloc (plen v) h = (g, h1)" by (rule prod.exhaust)
    then show ?thesis
      using True False assms(4) i nn put v blocks_alloc [of "plen v" h h1]
      by (cases g) (auto simp: moq_token_cache_register_def value_block_def)
  qed
qed

lemma delete_outcome:
  assumes "cache_ok c" and "moq_token_cache_delete a c h = (rc, c', h')"
  shows "(case moq_token_cache_lookup c a of
      None \<Rightarrow> rc = MOQ_TOKEN_ERR_UNKNOWN \<and> c' = c \<and> h' = h
    | Some (t, v) \<Rightarrow> rc = MOQ_TOKEN_OK \<and> c' = cache_del a c \<and> h' = free_value v h)"
proof (cases "moq_token_cache_lookup c a")
  case None
  then show ?thesis using delete_unknown [OF assms(1) None] assms(2) by simp
next
  case (Some tv)
  obtain t v where tv: "tv = (t, v)" by (rule prod.exhaust)
  have "moq_token_cache_delete a c h = (MOQ_TOKEN_OK, cache_del a c, free_value v h)"
    using cache_del_eq [OF assms(1) Some [unfolded tv]] by metis
  then show ?thesis using assms(2) Some tv by simp
qed

section \<open>Properties\<close>

lemma triple_split: "x = (fst x, fst (snd x), snd (snd x))"
  by simp

text \<open>A cache of two slots and 100 bytes that holds one token, and the memory behind it.\<close>

definition demo_heap :: moq_heap where
  "demo_heap = \<lparr>h_grant = (\<lambda>_. True), h_calls = 0, h_blocks = [80, 3]\<rparr>"

definition demo_cache :: moq_token_cache where
  "demo_cache = \<lparr>tc_entries = Arr [\<lparr>te_alias = 7, te_type = 1, te_value = Arr [1, 2, 3], te_active = True\<rparr>,
     token_entry_zero], tc_used = 19, tc_max = 100\<rparr>"

lemma demo_cache_ok: "cache_ok demo_cache"
proof -
  have "key_unique te_active te_alias (elems (tc_entries demo_cache))"
    by (auto simp: key_unique_def inj_on_def demo_cache_def token_entry_zero_def less_Suc_eq)
  then show ?thesis
    by (simp add: cache_ok_def demo_cache_def token_entry_zero_def cache_cap_def entry_cost_def norm_value_def)
qed

text \<open>C22: the token cache is a bounded map from aliases to tokens. A registration succeeds only for an
  alias that is not held and when the entry fits the byte budget and a slot is free, it then adds the
  alias, and otherwise it reports why and changes nothing; a deletion removes exactly the alias; both
  keep the cache consistent, with the byte count equal to the cost of the entries held, and the memory
  outstanding follows the values held.\<close>

theorem token_cache_refines_map:
  assumes "cache_ok c" and "value_given v" and "plen v \<le> SIZE_MAX"
    and "moq_token_cache_register a t v c h = (rc, c', h')"
    and "moq_token_cache_delete a c h = (rc'', c'', h'')"
  shows "cache_ok c' \<and> cache_ok c''
    \<and> moq_token_cache_lookup c' = (if rc = MOQ_TOKEN_OK then (moq_token_cache_lookup c)(a \<mapsto> (t, norm_value v))
                                  else moq_token_cache_lookup c)
    \<and> (rc = MOQ_TOKEN_ERR_DUPLICATE \<longleftrightarrow> moq_token_cache_lookup c a \<noteq> None)
    \<and> (rc = MOQ_TOKEN_ERR_OVERFLOW \<longleftrightarrow> moq_token_cache_lookup c a = None \<and> \<not> cache_room (plen v) c)
    \<and> mset (h_blocks h') + cache_blocks c = mset (h_blocks h) + cache_blocks c'
    \<and> moq_token_cache_lookup c'' = (moq_token_cache_lookup c)(a := None)
    \<and> (rc'' = MOQ_TOKEN_OK \<longleftrightarrow> moq_token_cache_lookup c a \<noteq> None)
    \<and> (cache_blocks c \<subseteq># mset (h_blocks h) \<longrightarrow>
         mset (h_blocks h'') + cache_blocks c = mset (h_blocks h) + cache_blocks c'')"
proof -
  have reg: "cache_ok c'
    \<and> moq_token_cache_lookup c' = (if rc = MOQ_TOKEN_OK then (moq_token_cache_lookup c)(a \<mapsto> (t, norm_value v))
                                  else moq_token_cache_lookup c)
    \<and> (rc = MOQ_TOKEN_ERR_DUPLICATE \<longleftrightarrow> moq_token_cache_lookup c a \<noteq> None)
    \<and> (rc = MOQ_TOKEN_ERR_OVERFLOW \<longleftrightarrow> moq_token_cache_lookup c a = None \<and> \<not> cache_room (plen v) c)
    \<and> mset (h_blocks h') + cache_blocks c = mset (h_blocks h) + cache_blocks c'"
    using register_outcome [OF assms(1-4)] assms(1,2) cache_map.put_laws [OF assms(1), of a v t]
      put_blocks [OF assms(1), of a v t]
    by (cases "moq_token_cache_lookup c a") (auto split: if_splits)
  have del: "cache_ok c'' \<and> moq_token_cache_lookup c'' = (moq_token_cache_lookup c)(a := None)
    \<and> (rc'' = MOQ_TOKEN_OK \<longleftrightarrow> moq_token_cache_lookup c a \<noteq> None)
    \<and> (cache_blocks c \<subseteq># mset (h_blocks h) \<longrightarrow>
         mset (h_blocks h'') + cache_blocks c = mset (h_blocks h) + cache_blocks c'')"
  proof (cases "moq_token_cache_lookup c a")
    case None
    then show ?thesis using delete_outcome [OF assms(1,5)] assms(1) by auto
  next
    case (Some tv)
    obtain t' v' where tv: "tv = (t', v')" by (rule prod.exhaust)
    have o: "rc'' = MOQ_TOKEN_OK" "c'' = cache_del a c" "h'' = free_value v' h"
      using delete_outcome [OF assms(1,5)] Some tv by auto
    have blocks: "cache_blocks (cache_del a c) + value_block v' = cache_blocks c"
      using del_blocks [OF assms(1)] Some tv by simp
    have "mset (h_blocks h'') + cache_blocks c = mset (h_blocks h) + cache_blocks c''"
      if "cache_blocks c \<subseteq># mset (h_blocks h)"
    proof -
      have "value_block v' \<subseteq># mset (h_blocks h)"
        using that blocks by (metis mset_subset_eq_add_right subset_mset.trans)
      then show ?thesis
        unfolding o free_value_blocks blocks [symmetric] by (simp add: multiset_diff_union_assoc)
    qed
    then show ?thesis using cache_map.del_laws [OF assms(1)] Some tv o by auto
  qed
  show ?thesis using reg del by blast
qed

theorem token_cache_refines_map_witness:
  "moq_token_cache_lookup (fst (snd (moq_token_cache_register 9 2 (Arr [5, 6]) demo_cache demo_heap)))
     = (moq_token_cache_lookup demo_cache)(9 \<mapsto> (2, norm_value (Arr [5, 6])))
   \<and> moq_token_cache_lookup (fst (snd (moq_token_cache_delete 9 demo_cache demo_heap)))
     = (moq_token_cache_lookup demo_cache)(9 := None)"
proof -
  have "fst (moq_token_cache_register 9 2 (Arr [5, 6]) demo_cache demo_heap) = MOQ_TOKEN_OK" by code_simp
  then show ?thesis
    using token_cache_refines_map [OF demo_cache_ok _ _ triple_split triple_split, of "Arr [5, 6]" 9 2 demo_heap]
    by (simp add: value_given_def)
qed

text \<open>C1: when memory is available, processing a message with a transaction and committing it is
  processing it directly on the cache that the prefix leaves: both stop for the same reason, or both
  succeed with the same resolved tokens and the same reject code, and the committed cache is the cache
  that direct processing produced.\<close>

theorem auth_txn_equals_direct:
  assumes "cache_ok c" and "prefix_run prefix c b" and "list_all tok_ok toks"
    and "length toks \<le> MOQ_CACHE_OVERLAY_CAP" and "grants_all h" and "grants_all h'"
  shows "both (\<lambda>st sd. au_tokens st = au_tokens sd \<and> au_reject st = au_reject sd
      \<and> fst (process_auth_tokens_commit_txn (the (au_ov st)) b h'') = au_cache sd)
    (process_auth_tokens_after toks m has_staged True prefix c h)
    (process_auth_tokens_after toks m has_staged False None b h')"
proof -
  let ?st = "\<lparr>au_tokens = [], au_reject = 0, au_ov = Some moq_ov_init, au_cache = c, au_heap = h\<rparr>"
  let ?sd = "\<lparr>au_tokens = [], au_reject = 0, au_ov = None, au_cache = b, au_heap = h'\<rparr>"
  have "auth_sim prefix c b 0 ?st ?sd"
    using assms by (auto simp: auth_sim_def moq_ov_init_def intro: ov_run_Nil)
  then have loop: "both (auth_sim prefix c b (length toks)) (auth_loop m has_staged prefix toks ?st)
      (auth_loop m has_staged None toks ?sd)"
    using sim_loop [of prefix c b 0 ?st ?sd toks m has_staged] assms(3,4) by simp
  show ?thesis
  proof (cases "auth_loop m has_staged prefix toks ?st")
    case (Inl x)
    with loop show ?thesis by (auto simp: both_def process_auth_tokens_after_def split: sum.splits)
  next
    case (Inr st)
    with loop obtain sd where sd: "auth_loop m has_staged None toks ?sd = Inr sd" "auth_sim prefix c b (length toks) st sd"
      by (auto simp: both_def split: sum.splits)
    then obtain ov where ov: "au_ov st = Some ov" "cache_run b ov (au_cache sd)" "\<forall>e \<in> set ov. oe_preowned e = Null 0"
        "au_ov sd = None" "au_tokens st = au_tokens sd" "au_reject st = au_reject sd" "grants_all (au_heap st)"
      by (auto simp: auth_sim_def)
    obtain h1 where h1: "auth_prealloc [] ov (au_heap st) = (True, map ov_prealloc ov, h1)"
      using prealloc_grants [OF ov(7), of "[]" ov] by auto
    have "fst (process_auth_tokens_commit_txn (map ov_prealloc ov) b h'') = au_cache sd"
      using commit_run [OF ov(2) prefix_run_ok [OF assms(2,1)] ov(3), of h''] by auto
    then show ?thesis
      using Inr sd ov h1
      by (auto simp: process_auth_tokens_after_def free_staging_internal_def split: prod.splits)
  qed
qed

text \<open>The message registers alias 9, uses it, and deletes alias 7.\<close>

definition demo_tokens :: "moq_decoded_auth_token list" where
  "demo_tokens =
     [\<lparr>dt_op = MOQ_AUTH_OP_REGISTER, dt_alias = 9, dt_type = 2, dt_value = Arr [5, 6]\<rparr>,
      \<lparr>dt_op = MOQ_AUTH_OP_USE_ALIAS, dt_alias = 7, dt_type = 0, dt_value = Null 0\<rparr>,
      \<lparr>dt_op = MOQ_AUTH_OP_DELETE, dt_alias = 7, dt_type = 0, dt_value = Null 0\<rparr>]"

theorem auth_txn_equals_direct_witness:
  "case process_auth_tokens_after demo_tokens 16 True True None demo_cache demo_heap of
     Inl _ \<Rightarrow> False
   | Inr st \<Rightarrow> length (au_tokens st) = 2
       \<and> Inr (fst (process_auth_tokens_commit_txn (the (au_ov st)) demo_cache demo_heap))
         = map_sum id au_cache (process_auth_tokens_after demo_tokens 16 True False None demo_cache demo_heap)"
proof -
  have "both (\<lambda>st sd. au_tokens st = au_tokens sd \<and> au_reject st = au_reject sd
      \<and> fst (process_auth_tokens_commit_txn (the (au_ov st)) demo_cache demo_heap) = au_cache sd)
    (process_auth_tokens_after demo_tokens 16 True True None demo_cache demo_heap)
    (process_auth_tokens_after demo_tokens 16 True False None demo_cache demo_heap)"
    by (rule auth_txn_equals_direct)
       (simp_all add: demo_cache_ok prefix_run_def demo_tokens_def tok_ok_def value_given_def
          MOQ_CACHE_OVERLAY_CAP_def grants_all_def demo_heap_def)
  moreover have "case process_auth_tokens_after demo_tokens 16 True True None demo_cache demo_heap of
     Inl _ \<Rightarrow> False | Inr st \<Rightarrow> length (au_tokens st) = 2" by code_simp
  ultimately show ?thesis by (auto simp: both_def split: sum.splits)
qed

text \<open>C23: processing with a transaction never touches the cache and leaks no memory, whichever
  allocations fail: an early stop has given back every block, and after success releasing the staged
  copies and aborting the transaction gives back every block.\<close>

theorem auth_txn_no_leak:
  assumes "length toks \<le> m"
  shows "case process_auth_tokens_after toks m True True prefix c h of
      Inl (_, st) \<Rightarrow> au_cache st = c \<and> mset (h_blocks (au_heap st)) = mset (h_blocks h)
    | Inr st \<Rightarrow> au_cache st = c
        \<and> (let h1 = snd (process_auth_tokens_free_staging True (au_tokens st) (au_heap st));
               h2 = snd (process_auth_tokens_abort_txn (the (au_ov st)) h1)
           in mset (h_blocks h2) = mset (h_blocks h))"
proof -
  let ?F = "mset (h_blocks h)"
  let ?st = "\<lparr>au_tokens = [], au_reject = 0, au_ov = Some moq_ov_init, au_cache = c, au_heap = h\<rparr>"
  have "auth_mem c ?F 0 ?st" by (simp add: auth_mem_def moq_ov_init_def staged_blocks_def)
  then have loop: "mem_step c ?F (length toks) (auth_loop m True prefix toks ?st)"
    using mem_loop [of c ?F 0 ?st toks m prefix] assms by simp
  show ?thesis
  proof (cases "auth_loop m True prefix toks ?st")
    case (Inl x)
    with loop show ?thesis by (auto simp: mem_step_def process_auth_tokens_after_def)
  next
    case (Inr st)
    with loop obtain ov where ov: "au_ov st = Some ov" "\<forall>e \<in> set ov. oe_preowned e = Null 0" "au_cache st = c"
        "mset (h_blocks (au_heap st)) = ?F + staged_blocks (au_tokens st)"
      by (auto simp: mem_step_def auth_mem_def)
    obtain ok ov' h1 where h1: "auth_prealloc [] ov (au_heap st) = (ok, ov', h1)" by (rule prod_cases3)
    let ?s = "st\<lparr>au_ov := Some ov', au_heap := h1\<rparr>"
    have blocks: "mset (h_blocks h1) = ?F + staged_blocks (au_tokens st) + ov_blocks ov'"
      using prealloc_blocks [OF h1 ov(2)] ov(4) by simp
    have stop: "mset (h_blocks (au_heap (auth_cleanup True ?s))) = ?F" "au_cache (auth_cleanup True ?s) = c"
      using cleanup_blocks [of ?s ov'] blocks ov(3) by simp_all
    obtain tokens h2 where h2: "free_staging_internal True (au_tokens st) h1 = (tokens, h2)" by (rule prod.exhaust)
    have h2': "mset (h_blocks h2) = ?F + ov_blocks ov'" "staged_blocks tokens = {#}"
      using free_staging_blocks [of "au_tokens st" h1] h2 blocks by simp_all
    show ?thesis
      using Inr ov(1,3) h1 h2 h2' stop free_preowned_blocks [of ov'] free_staging_blocks(1) [of tokens h2]
      by (auto simp: process_auth_tokens_after_def process_auth_tokens_free_staging_def
          process_auth_tokens_abort_txn_def Let_def)
  qed
qed

theorem auth_txn_no_leak_witness:
  "case process_auth_tokens_after demo_tokens 16 True True None demo_cache
          (demo_heap\<lparr>h_grant := (\<lambda>n. n < 1)\<rparr>) of
     Inl (_, st) \<Rightarrow> au_cache st = demo_cache \<and> mset (h_blocks (au_heap st)) = mset [80, 3]
   | Inr _ \<Rightarrow> False"
proof -
  have "case process_auth_tokens_after demo_tokens 16 True True None demo_cache
          (demo_heap\<lparr>h_grant := (\<lambda>n. n < 1)\<rparr>) of Inl _ \<Rightarrow> True | Inr _ \<Rightarrow> False" by code_simp
  then show ?thesis
    using auth_txn_no_leak [where toks = demo_tokens and m = 16 and prefix = None and c = demo_cache
        and h = "demo_heap\<lparr>h_grant := (\<lambda>n. n < 1)\<rparr>"]
    by (auto simp: demo_tokens_def demo_heap_def split: sum.splits)
qed

end
