(* ===== verification/HopPath.thy ===== *)
theory HopPath
  imports Buf
begin

unbundle bit_operations_syntax

text \<open>
  The validation of a hop path (\<open>moq_d22_validate_hop_path\<close> in \<open>core/src/wire/params_d22.c\<close>): a
  sequence of encoded integers whose nonzero members must be distinct. The code finds duplicates with a
  hash table of fixed size; when the table fills it splits the identifier space by one more leading
  bit and scans the halves separately. The theory proves that this is the plain distinctness check.
\<close>

section \<open>The code\<close>

definition hop_hash :: "u64 \<Rightarrow> u64" where
  "hop_hash rid =
     (let hash = rid XOR drop_bit 33 rid;
          hash = hash * 0xff51afd7ed558ccd
      in hash XOR drop_bit 33 hash)"

definition hop_slot :: "u64 \<Rightarrow> nat" where
  "hop_slot rid = unat (hop_hash rid AND 511)"

text \<open>The probing loop. \<open>None\<close> when \<open>fuel\<close> steps did not find the identifier or an empty slot.\<close>

fun hop_probe :: "nat \<Rightarrow> u64 list \<Rightarrow> u64 \<Rightarrow> nat \<Rightarrow> nat option" where
  "hop_probe 0 seen rid slot = None"
| "hop_probe (Suc fuel) seen rid slot =
     (if seen ! slot \<noteq> 0 \<and> seen ! slot \<noteq> rid then hop_probe fuel seen rid ((slot + 1) mod 512) else Some slot)"

datatype hop_outcome = Hop_Done | Hop_Split | Hop_Error | Hop_Stuck

text \<open>One scan of the path for the identifiers of a partition; \<open>Hop_Stuck\<close> stands for a probing loop
  that went round the table.\<close>

function hop_scan :: "u64 \<Rightarrow> u64 \<Rightarrow> u64 list \<Rightarrow> nat \<Rightarrow> moq_buf_reader \<Rightarrow> hop_outcome" where
  "hop_scan prefix msk seen used r =
     (if \<not> rd_pos r < plen (rd_data r) then Hop_Done
      else case moq_buf_read_vi64 r of
        (Inl e, _) \<Rightarrow> Hop_Error
      | (Inr rid, r1) \<Rightarrow>
          if rid = 0 \<or> rid AND msk \<noteq> prefix then hop_scan prefix msk seen used r1
          else case hop_probe 512 seen rid (hop_slot rid) of
            None \<Rightarrow> Hop_Stuck
          | Some slot \<Rightarrow>
              if seen ! slot = rid then Hop_Error
              else if 256 < used + 1 then Hop_Split
              else hop_scan prefix msk (seen[slot := rid]) (used + 1) r1)"
  by pat_completeness auto
termination
  by (relation "measure (\<lambda>(prefix, msk, seen, used, r). plen (rd_data r) - rd_pos r)")
    (auto dest!: sym [of "(_, _)" "moq_buf_read_vi64 _"] io_vi64.rd_step)

declare hop_scan.simps [simp del]

definition hop_mask :: "nat \<Rightarrow> u64" where
  "hop_mask bits = (if bits \<noteq> 0 then push_bit (64 - bits) UINT64_MAX else 0)"

text \<open>The pending partitions, the next one first. The number of leading bits never exceeds 64, so the
  code's test for 64 is written as a bound.\<close>

function hop_loop :: "moq_bytes \<Rightarrow> (u64 \<times> nat) list \<Rightarrow> moq_result option" where
  "hop_loop path [] = Some MOQ_OK"
| "hop_loop path ((prefix, bits) # pending) =
     (case hop_scan prefix (hop_mask bits) (replicate 512 0) 0 (moq_buf_reader_init path) of
        Hop_Error \<Rightarrow> Some MOQ_ERR_PROTO
      | Hop_Stuck \<Rightarrow> None
      | Hop_Done \<Rightarrow> hop_loop path pending
      | Hop_Split \<Rightarrow>
          if 64 \<le> bits \<or> 65 < length pending + 2 then Some MOQ_ERR_PROTO
          else hop_loop path ((prefix OR push_bit (63 - bits) 1, bits + 1) # (prefix, bits + 1) # pending))"
  by pat_completeness auto
termination
proof (relation "measure (\<lambda>(path, pending). \<Sum>(prefix, bits) \<leftarrow> pending. 3 ^ (65 - bits))")
  fix prefix :: u64 and bits :: nat and pending :: "(u64 \<times> nat) list" and path :: moq_bytes
  assume "\<not> (64 \<le> bits \<or> 65 < length pending + 2)"
  then have "65 - bits = Suc (64 - bits)" by auto
  then have "(3::nat) ^ (65 - bits) = 3 * 3 ^ (64 - bits)" by simp
  then show "((path, (prefix OR push_bit (63 - bits) 1, bits + 1) # (prefix, bits + 1) # pending),
      (path, (prefix, bits) # pending)) \<in> measure (\<lambda>(path, pending). \<Sum>(prefix, bits) \<leftarrow> pending. 3 ^ (65 - bits))"
    by simp
qed auto

definition moq_d22_validate_hop_path :: "moq_bytes \<Rightarrow> moq_result option" where
  "moq_d22_validate_hop_path path =
     (if is_null path \<or> plen path = 0 then Some MOQ_ERR_PROTO else hop_loop path [(0, 0)])"

section \<open>The hash table\<close>

text \<open>The table holds the set \<open>S\<close>, and from the home slot of each member up to its own slot no slot is
  empty.\<close>

definition hop_table :: "u64 list \<Rightarrow> u64 set \<Rightarrow> bool" where
  "hop_table seen S \<longleftrightarrow>
     length seen = 512 \<and> finite S \<and> 0 \<notin> S \<and> set seen \<subseteq> insert 0 S
     \<and> length (filter (\<lambda>x. x \<noteq> 0) seen) = card S
     \<and> (\<forall>x \<in> S. \<exists>k < 512. seen ! ((hop_slot x + k) mod 512) = x
           \<and> (\<forall>j < k. seen ! ((hop_slot x + j) mod 512) \<noteq> 0))"

lemma hop_slot_less: "hop_slot x < 512"
proof -
  have "hop_hash x AND 511 \<le> 511" by (rule word_and_le1)
  then show ?thesis by (simp add: hop_slot_def word_le_nat_alt)
qed

text \<open>Probing from slot \<open>s\<close> stops at the first slot, counted round the table, that is empty or holds
  the identifier.\<close>

lemma hop_probe_eq:
  assumes "s < 512" and "k < fuel" and "\<forall>j < k. seen ! ((s + j) mod 512) \<noteq> 0 \<and> seen ! ((s + j) mod 512) \<noteq> rid"
    and "seen ! ((s + k) mod 512) = 0 \<or> seen ! ((s + k) mod 512) = rid"
  shows "hop_probe fuel seen rid s = Some ((s + k) mod 512)"
  using assms
proof (induction k arbitrary: s fuel)
  case 0
  then show ?case by (cases fuel) auto
next
  case (Suc k)
  obtain n where n: "fuel = Suc n" using Suc.prems(2) by (cases fuel) auto
  have shift: "(Suc s mod 512 + j) mod 512 = Suc (s + j) mod 512" for j
    by (simp add: mod_add_left_eq)
  have "seen ! s \<noteq> 0 \<and> seen ! s \<noteq> rid" using Suc.prems(1,3) by force
  moreover have "seen ! (Suc (s + j) mod 512) \<noteq> 0 \<and> seen ! (Suc (s + j) mod 512) \<noteq> rid" if "j < k" for j
    using Suc.prems(3) that by (metis Suc_less_eq add_Suc_right)
  then have "hop_probe n seen rid (Suc s mod 512) = Some ((Suc s mod 512 + k) mod 512)"
    using Suc.prems n by (intro Suc.IH) (auto simp: shift)
  ultimately show ?case using n by (simp add: shift)
qed

lemma hop_table_empty: "hop_table (replicate 512 0) {}"
  by (auto simp: hop_table_def)

text \<open>A table with room has an empty slot on every round.\<close>

lemma hop_table_gap:
  assumes "hop_table seen S" and "card S < 512" and "s < 512"
  shows "\<exists>k < 512. seen ! ((s + k) mod 512) = 0"
proof -
  have sizes: "length (filter (\<lambda>x. x \<noteq> 0) seen) = card S" "length seen = 512"
    using assms(1) unfolding hop_table_def by blast+
  have "0 \<in> set seen"
  proof (rule ccontr)
    assume "0 \<notin> set seen"
    then have "filter (\<lambda>x. x \<noteq> 0) seen = seen" by (intro filter_True) metis
    then show False using sizes assms(2) by simp
  qed
  then obtain i where i: "i < 512" "seen ! i = 0" using sizes(2) by (metis in_set_conv_nth)
  let ?k = "if s \<le> i then i - s else i + 512 - s"
  have "?k < 512" "(s + ?k) mod 512 = i" using i assms(3) by auto
  then show ?thesis using i(2) by metis
qed

lemma hop_probe_finds:
  assumes t: "hop_table seen S" and "card S < 512" and "rid \<noteq> 0"
  obtains slot k where "hop_probe 512 seen rid (hop_slot rid) = Some slot" "slot < 512" "k < 512"
    "slot = (hop_slot rid + k) mod 512" "\<forall>j < k. seen ! ((hop_slot rid + j) mod 512) \<noteq> 0"
    "seen ! slot = (if rid \<in> S then rid else 0)"
proof -
  let ?s = "hop_slot rid" and ?P = "\<lambda>k. k < 512 \<and> (seen ! ((hop_slot rid + k) mod 512) = 0 \<or> seen ! ((hop_slot rid + k) mod 512) = rid)"
  have "\<exists>k. ?P k" using hop_table_gap [OF t assms(2) hop_slot_less] by blast
  then obtain k where k: "?P k" "\<And>j. j < k \<Longrightarrow> \<not> ?P j" using exists_least_iff [of ?P] by metis
  have before: "seen ! ((?s + j) mod 512) \<noteq> 0 \<and> seen ! ((?s + j) mod 512) \<noteq> rid" if "j < k" for j
    using k that by auto
  have probe: "hop_probe 512 seen rid ?s = Some ((?s + k) mod 512)"
    using k(1) before by (intro hop_probe_eq [OF hop_slot_less]) auto
  have found: "seen ! ((?s + k) mod 512) = (if rid \<in> S then rid else 0)"
  proof (cases "rid \<in> S")
    case True
    then obtain k' where k': "k' < 512" "seen ! ((?s + k') mod 512) = rid" "\<forall>j < k'. seen ! ((?s + j) mod 512) \<noteq> 0"
      using t by (auto simp: hop_table_def)
    then have "k \<le> k'" using k(2) by (meson not_less)
    moreover have "seen ! ((?s + k) mod 512) \<noteq> 0"
      using k' assms(3) \<open>k \<le> k'\<close> by (cases "k = k'") auto
    ultimately show ?thesis using True k(1) by auto
  next
    case False
    have "seen ! ((?s + k) mod 512) \<in> set seen" using t by (auto simp: hop_table_def)
    then have "seen ! ((?s + k) mod 512) \<in> insert 0 S" using t unfolding hop_table_def by blast
    then have "seen ! ((?s + k) mod 512) \<noteq> rid" using False assms(3) by auto
    then show ?thesis using False k(1) by auto
  qed
  have "(?s + k) mod 512 < 512" "k < 512" "\<forall>j < k. seen ! ((?s + j) mod 512) \<noteq> 0"
    using k(1) before by auto
  from that [OF probe this(1,2) refl this(3) found] show thesis .
qed

lemma hop_table_insert:
  assumes t: "hop_table seen S" and "rid \<notin> S" and "rid \<noteq> 0" and "slot = (hop_slot rid + k) mod 512" and "k < 512"
    and "\<forall>j < k. seen ! ((hop_slot rid + j) mod 512) \<noteq> 0" and "seen ! slot = 0"
  shows "hop_table (seen[slot := rid]) (insert rid S)"
proof -
  have len: "length seen = 512" and slot: "slot < 512" using t assms(4) by (auto simp: hop_table_def)
  have count: "length (filter (\<lambda>x. x \<noteq> 0) (seen[slot := rid])) = card (insert rid S)"
    using t assms(2,3,7) len slot count_update [of slot seen "\<lambda>x. x \<noteq> 0" rid] by (simp add: hop_table_def)
  have keep: "seen[slot := rid] ! i \<noteq> 0" if "seen ! i \<noteq> 0 \<or> i = slot" "i < 512" for i
    using that assms(3) len slot by (cases "i = slot") auto
  have "\<exists>k < 512. seen[slot := rid] ! ((hop_slot x + k) mod 512) = x
      \<and> (\<forall>j < k. seen[slot := rid] ! ((hop_slot x + j) mod 512) \<noteq> 0)" if "x \<in> insert rid S" for x
  proof (cases "x = rid")
    case True
    then show ?thesis using assms(4-6) len slot keep by (intro exI [of _ k]) auto
  next
    case False
    then have x: "x \<in> S" "x \<noteq> 0" using that t by (auto simp: hop_table_def)
    then obtain k' where k': "k' < 512" "seen ! ((hop_slot x + k') mod 512) = x"
        "\<forall>j < k'. seen ! ((hop_slot x + j) mod 512) \<noteq> 0"
      using t unfolding hop_table_def by blast
    then have "(hop_slot x + k') mod 512 \<noteq> slot" using assms(7) x(2) by auto
    then show ?thesis using k' keep by (intro exI [of _ k']) auto
  qed
  then show ?thesis
    using t count assms(3) set_update_subset_insert [of seen slot rid] by (auto simp: hop_table_def)
qed

section \<open>One scan\<close>

text \<open>The integers a byte string encodes, up to the first one that cannot be decoded, and whether all of
  it was decoded.\<close>

function vi64_list :: "u8 list \<Rightarrow> u64 list \<times> bool" where
  "vi64_list bs =
     (if bs = [] then ([], True)
      else case vi64_dec bs of
        None \<Rightarrow> ([], False)
      | Some (v, n) \<Rightarrow> (case vi64_list (drop n bs) of (xs, ok) \<Rightarrow> (v # xs, ok)))"
  by pat_completeness auto
termination
  by (relation "measure length") (auto dest!: vi64.dec_bounds)

declare vi64_list.simps [simp del]

text \<open>The scan as a recursion on the decoded integers.\<close>

fun hop_ids :: "u64 \<Rightarrow> u64 \<Rightarrow> u64 list \<Rightarrow> nat \<Rightarrow> bool \<Rightarrow> u64 list \<Rightarrow> hop_outcome" where
  "hop_ids prefix msk seen used ok [] = (if ok then Hop_Done else Hop_Error)"
| "hop_ids prefix msk seen used ok (rid # xs) =
     (if rid = 0 \<or> rid AND msk \<noteq> prefix then hop_ids prefix msk seen used ok xs
      else case hop_probe 512 seen rid (hop_slot rid) of
        None \<Rightarrow> Hop_Stuck
      | Some slot \<Rightarrow>
          if seen ! slot = rid then Hop_Error
          else if 256 < used + 1 then Hop_Split
          else hop_ids prefix msk (seen[slot := rid]) (used + 1) ok xs)"

lemma hop_scan_ids:
  assumes "reader_valid r" and "rd_data r = Arr bs"
  shows "hop_scan prefix msk seen used r =
    (case vi64_list (drop (rd_pos r) bs) of (xs, ok) \<Rightarrow> hop_ids prefix msk seen used ok xs)"
  using assms
proof (induction prefix msk seen used r rule: hop_scan.induct)
  case (1 prefix msk seen used r)
  have rest: "rd_rest r = drop (rd_pos r) bs" using 1(4) by (simp add: rd_rest_def)
  show ?case
  proof (cases "rd_pos r < length bs")
    case False
    then show ?thesis using 1 by (simp add: hop_scan.simps [of _ _ _ _ r] vi64_list.simps)
  next
    case more: True
    show ?thesis
    proof (cases "vi64_dec (drop (rd_pos r) bs)")
      case None
      then show ?thesis using 1 more rest
        by (simp add: hop_scan.simps [of _ _ _ _ r] vi64_list.simps io_vi64.rd_law)
    next
      case (Some p)
      then obtain v n where p: "vi64_dec (drop (rd_pos r) bs) = Some (v, n)" by (cases p) auto
      let ?r = "r\<lparr>rd_pos := rd_pos r + n\<rparr>"
      have rd: "moq_buf_read_vi64 r = (Inr v, ?r)" using p rest 1(3) by (simp add: io_vi64.rd_law)
      have r: "reader_valid ?r" "rd_data ?r = Arr bs" using io_vi64.rd_step [OF rd] 1(4) by auto
      obtain xs ok where tail: "vi64_list (drop (rd_pos ?r) bs) = (xs, ok)" by fastforce
      then have list: "vi64_list (drop (rd_pos r) bs) = (v # xs, ok)"
        using more p by (simp add: vi64_list.simps [of "drop (rd_pos r) bs"] add.commute)
      note IH = 1(1) [OF _ rd [symmetric] refl _ r] 1(2) [OF _ rd [symmetric] refl _ _ _ _ r]
      show ?thesis
        using IH more tail unfolding list
        by (simp add: hop_scan.simps [of _ _ _ _ r] 1(4) rd split: option.splits)
    qed
  qed
qed

text \<open>What the outcome of a scan says about the integers \<open>ys\<close> of the partition, when the table already
  holds \<open>S\<close>.\<close>

definition hop_claim :: "u64 set \<Rightarrow> bool \<Rightarrow> u64 list \<Rightarrow> hop_outcome \<Rightarrow> bool" where
  "hop_claim S ok ys res =
     (case res of
        Hop_Done \<Rightarrow> ok \<and> distinct ys \<and> set ys \<inter> S = {}
      | Hop_Error \<Rightarrow> \<not> (ok \<and> distinct ys \<and> set ys \<inter> S = {})
      | Hop_Split \<Rightarrow> 256 < card (S \<union> set ys)
      | Hop_Stuck \<Rightarrow> False)"

lemma hop_claim_step:
  assumes "hop_claim (insert rid S) ok ys res" and "rid \<notin> S"
  shows "hop_claim S ok (rid # ys) res"
  using assms by (auto simp: hop_claim_def split: hop_outcome.splits)

lemma hop_ids_claim:
  assumes "hop_table seen S" and "card S = used" and "used \<le> 256"
  shows "hop_claim S ok (filter (\<lambda>x. x \<noteq> 0 \<and> x AND msk = prefix) xs) (hop_ids prefix msk seen used ok xs)"
  using assms
proof (induction xs arbitrary: seen S used)
  case Nil
  then show ?case by (simp add: hop_claim_def)
next
  case (Cons rid xs)
  show ?case
  proof (cases "rid = 0 \<or> rid AND msk \<noteq> prefix")
    case True
    then show ?thesis using Cons by auto
  next
    case part: False
    let ?ys = "filter (\<lambda>x. x \<noteq> 0 \<and> x AND msk = prefix) xs"
    have few: "card S < 512" using Cons.prems(2,3) by simp
    obtain slot k where probe: "hop_probe 512 seen rid (hop_slot rid) = Some slot" and slot: "slot < 512" "k < 512"
        "slot = (hop_slot rid + k) mod 512" "\<forall>j < k. seen ! ((hop_slot rid + j) mod 512) \<noteq> 0"
        and at: "seen ! slot = (if rid \<in> S then rid else 0)"
      by (rule hop_probe_finds [OF Cons.prems(1) few]) (use part in blast)+
    have fin: "finite S" using Cons.prems(1) by (simp add: hop_table_def)
    show ?thesis
    proof (cases "rid \<in> S")
      case True
      then show ?thesis using probe at part by (auto simp: hop_claim_def)
    next
      case new: False
      have table: "hop_table (seen[slot := rid]) (insert rid S)"
        using Cons.prems(1) new part slot at by (intro hop_table_insert [where k = k]) auto
      have size: "card (insert rid S) = used + 1" using new fin Cons.prems(2) by simp
      show ?thesis
      proof (cases "256 < used + 1")
        case True
        have "card (insert rid S) \<le> card (S \<union> set (rid # ?ys))" using fin by (intro card_mono) auto
        then show ?thesis using True probe at new part size by (simp add: hop_claim_def)
      next
        case False
        have "hop_claim (insert rid S) ok ?ys (hop_ids prefix msk (seen[slot := rid]) (used + 1) ok xs)"
          using Cons.IH [OF table size] False by simp
        from hop_claim_step [OF this new] show ?thesis using False probe at new part by simp
      qed
    qed
  qed
qed

section \<open>The partitions\<close>

declare push_bit_of_1 [simp del]

lemma bit_single: "bit (push_bit n (1 :: u64)) i \<longleftrightarrow> n = i \<and> i < 64"
  by (auto simp: bit_push_bit_iff bit_1_iff)

lemma bit_hop_mask: "b \<le> 64 \<Longrightarrow> bit (hop_mask b) n \<longleftrightarrow> 64 - b \<le> n \<and> n < 64"
proof -
  have all: "UINT64_MAX = - 1" by simp
  show "b \<le> 64 \<Longrightarrow> ?thesis" unfolding hop_mask_def all by (auto simp: bit_not_iff bit_mask_iff)
qed

lemma hop_mask_Suc: "b < 64 \<Longrightarrow> hop_mask (b + 1) = hop_mask b OR push_bit (63 - b) 1"
  by (rule bit_eqI) (auto simp: bit_hop_mask bit_or_iff bit_single)

lemma hop_mask_disjoint: "b < 64 \<Longrightarrow> hop_mask b AND push_bit (63 - b) 1 = 0"
  by (rule bit_eqI) (auto simp: bit_hop_mask bit_and_iff bit_single)

lemma hop_mask_64: "hop_mask 64 = - 1"
  by (rule bit_eqI) (simp add: bit_hop_mask)

text \<open>A partition splits into the two halves that its next bit distinguishes.\<close>

lemma and_single_bit: "(x :: u64) AND push_bit n 1 = (if bit x n then push_bit n 1 else 0)"
  by (rule bit_eqI) (auto simp: bit_and_iff bit_single)

lemma hop_halves:
  assumes b: "b < 64" and p: "prefix AND hop_mask b = prefix"
  shows "x AND hop_mask b = prefix \<longleftrightarrow>
      x AND hop_mask (b + 1) = prefix \<or> x AND hop_mask (b + 1) = prefix OR push_bit (63 - b) 1"
    and "prefix \<noteq> prefix OR push_bit (63 - b) 1"
    and "prefix AND hop_mask (b + 1) = prefix"
    and "(prefix OR push_bit (63 - b) 1) AND hop_mask (b + 1) = prefix OR push_bit (63 - b) 1"
proof -
  let ?m = "hop_mask b" and ?s = "push_bit (63 - b) 1 :: u64"
  have next_mask: "y AND hop_mask (b + 1) = (y AND ?m) OR (y AND ?s)" for y
    by (simp only: hop_mask_Suc [OF b] bit.conj_disj_distrib)
  have keeps: "(y AND hop_mask (b + 1)) AND ?m = y AND ?m" for y
    using b by (intro bit_eqI) (auto simp: bit_hop_mask bit_and_iff)
  have no_m: "(y OR ?s) AND ?m = y AND ?m" for y
    using hop_mask_disjoint [OF b] by (simp only: bit.conj_disj_distrib2 and.commute [of ?s] or.right_neutral)
  have "bit ?m (63 - b) \<longleftrightarrow> False" using b by (simp add: bit_hop_mask)
  then have p_s: "\<not> bit prefix (63 - b)" using p by (metis bit_and_iff)
  have s_s: "bit ?s (63 - b)" by (simp add: bit_single)
  show "prefix \<noteq> prefix OR ?s" using p_s s_s by (metis bit_or_iff)
  show one: "prefix AND hop_mask (b + 1) = prefix" by (simp only: next_mask p and_single_bit p_s) simp
  show "(prefix OR ?s) AND hop_mask (b + 1) = prefix OR ?s"
    unfolding next_mask no_m p and_single_bit using s_s by (simp add: bit_or_iff)
  show "x AND ?m = prefix \<longleftrightarrow> x AND hop_mask (b + 1) = prefix \<or> x AND hop_mask (b + 1) = prefix OR ?s"
  proof
    assume "x AND ?m = prefix"
    then show "x AND hop_mask (b + 1) = prefix \<or> x AND hop_mask (b + 1) = prefix OR ?s"
      unfolding next_mask and_single_bit by simp
  next
    assume "x AND hop_mask (b + 1) = prefix \<or> x AND hop_mask (b + 1) = prefix OR ?s"
    then show "x AND ?m = prefix" using keeps [of x] p no_m [of prefix] by metis
  qed
qed

lemma distinct_filter_halves:
  assumes "\<And>x. P x \<longleftrightarrow> Q x \<or> R x" and "\<And>x. \<not> (Q x \<and> R x)"
  shows "distinct (filter P xs) \<longleftrightarrow> distinct (filter Q xs) \<and> distinct (filter R xs)"
  using assms by (induction xs) auto

text \<open>The identifiers of a partition, and the shape of the pending partitions: below a partition of
  \<open>b\<close> leading bits at most \<open>b\<close> others are pending, so that the 65 entries of the array are enough.\<close>

definition hop_part :: "u64 list \<Rightarrow> u64 \<times> nat \<Rightarrow> u64 list" where
  "hop_part xs q = filter (\<lambda>x. x \<noteq> 0 \<and> x AND hop_mask (snd q) = fst q) xs"

fun hop_pending_ok :: "(u64 \<times> nat) list \<Rightarrow> bool" where
  "hop_pending_ok [] \<longleftrightarrow> True"
| "hop_pending_ok ((p, b) # qs) \<longleftrightarrow>
     length qs \<le> b \<and> b \<le> 64 \<and> p AND hop_mask b = p \<and> hop_pending_ok qs"

lemma hop_part_halves:
  assumes b: "b < 64" and p: "prefix AND hop_mask b = prefix"
  shows "distinct (hop_part xs (prefix, b)) \<longleftrightarrow>
    distinct (hop_part xs (prefix OR push_bit (63 - b) 1, b + 1)) \<and> distinct (hop_part xs (prefix, b + 1))"
  unfolding hop_part_def
  by (rule distinct_filter_halves) (use hop_halves(1) [OF b p] hop_halves(2) [OF b p] in auto)

lemma hop_scan_claim:
  assumes "vi64_list bs = (xs, ok)"
  shows "hop_claim {} ok (hop_part xs (prefix, b))
    (hop_scan prefix (hop_mask b) (replicate 512 0) 0 (moq_buf_reader_init (Arr bs)))"
proof -
  have "reader_valid (moq_buf_reader_init (Arr bs))" "rd_data (moq_buf_reader_init (Arr bs)) = Arr bs"
      "rd_pos (moq_buf_reader_init (Arr bs)) = 0"
    by (simp_all add: reader_valid_def moq_buf_reader_init_def)
  note scan = hop_scan_ids [OF this(1,2), unfolded this(3) drop_0 assms prod.case]
  show ?thesis
    unfolding scan hop_part_def using hop_ids_claim [OF hop_table_empty, of 0] by simp
qed

lemma hop_part_64: "card (set (hop_part xs (prefix, 64))) \<le> 1"
proof -
  have "set (hop_part xs (prefix, 64)) \<subseteq> {prefix}" by (auto simp: hop_part_def hop_mask_64)
  from card_mono [OF _ this] show ?thesis by simp
qed

lemma hop_pending_split:
  assumes "hop_pending_ok ((prefix, b) # qs)" and "b < 64"
  shows "hop_pending_ok ((prefix OR push_bit (63 - b) 1, b + 1) # (prefix, b + 1) # qs)"
  using assms hop_halves(3,4) [of b prefix] by auto

lemma hop_loop_eq:
  assumes "vi64_list bs = (xs, ok)" and "hop_pending_ok qs"
  shows "hop_loop (Arr bs) qs =
    Some (if (qs = [] \<or> ok) \<and> (\<forall>q \<in> set qs. distinct (hop_part xs q)) then MOQ_OK else MOQ_ERR_PROTO)"
  using assms(2)
proof (induction "Arr bs" qs rule: hop_loop.induct)
  case 1
  then show ?case by simp
next
  case (2 prefix b qs)
  note claim = hop_scan_claim [OF assms(1), of prefix b, unfolded hop_claim_def]
  show ?case
  proof (cases "hop_scan prefix (hop_mask b) (replicate 512 0) 0 (moq_buf_reader_init (Arr bs))")
    case Hop_Done
    then show ?thesis using 2 claim by auto
  next
    case Hop_Split
    then have "256 < card (set (hop_part xs (prefix, b)))" using claim by simp
    then have "b \<noteq> 64" using hop_part_64 [of xs prefix] by auto
    then have b: "b < 64" "length qs < 64" "prefix AND hop_mask b = prefix" using 2(3) by auto
    show ?thesis
      using Hop_Split b 2(2) hop_pending_split [OF 2(3) b(1)] hop_part_halves [OF b(1,3), of xs] by auto
  qed (use claim in auto)
qed

lemma hop_part_all: "hop_part xs (0, 0) = filter (\<lambda>x. x \<noteq> 0) xs"
  by (simp add: hop_part_def hop_mask_def)

lemma validate_hop_path_eq:
  "moq_d22_validate_hop_path (Arr bs) =
     Some (if bs \<noteq> [] \<and> snd (vi64_list bs) \<and> distinct (filter (\<lambda>x. x \<noteq> 0) (fst (vi64_list bs)))
           then MOQ_OK else MOQ_ERR_PROTO)"
proof -
  obtain xs ok where list: "vi64_list bs = (xs, ok)" by fastforce
  show ?thesis
    using hop_loop_eq [OF list, of "[(0, 0)]"] by (simp add: moq_d22_validate_hop_path_def list hop_part_all)
qed

lemma validate_hop_path_total: "\<exists>rc. moq_d22_validate_hop_path path = Some rc"
  by (cases path) (auto simp: validate_hop_path_eq, simp add: moq_d22_validate_hop_path_def)

text \<open>C7: \<open>moq_d22_validate_hop_path\<close> always returns, and it accepts exactly the nonempty byte strings that
  decode completely into integers whose nonzero members are pairwise distinct: the hash table, its
  probing loop and the splitting of the identifier space are the plain distinctness check, for paths
  of any length.\<close>

theorem validate_hop_path_spec:
  "moq_d22_validate_hop_path (Arr bs) =
     Some (if bs \<noteq> [] \<and> snd (vi64_list bs) \<and> distinct (filter (\<lambda>x. x \<noteq> 0) (fst (vi64_list bs)))
           then MOQ_OK else MOQ_ERR_PROTO)"
  by (rule validate_hop_path_eq)

text \<open>On the encoding of a list of identifiers the decoded integers are that list.\<close>

lemma vi64_list_enc: "vi64_list (concat (map vi64_enc ids)) = (ids, True)"
proof (induction ids)
  case Nil
  then show ?case by (simp add: vi64_list.simps)
next
  case (Cons v ids)
  have dec: "vi64_dec (vi64_enc v @ concat (map vi64_enc ids)) = Some (v, length (vi64_enc v))"
    by (rule vi64.dec_enc) simp
  then have "vi64_enc v @ concat (map vi64_enc ids) \<noteq> []"
    using vi64.dec_bounds [OF dec] by (metis le_zero_eq less_irrefl list.size(3))
  then show ?case using dec Cons by (simp add: vi64_list.simps [of "vi64_enc v @ concat (map vi64_enc ids)"])
qed

end
