(* ===== verification/ParamsD22.thy ===== *)
theory ParamsD22
  imports HopPath ControlD22
begin

text \<open>
  The draft-22 message parameters of \<open>core/src/wire/params_d22.c\<close>: namespaces, range filters,
  authorization tokens, single parameters and parameter sequences with their scopes, duplicate rules
  and limits, in both directions.
\<close>

unbundle bit_operations_syntax

section \<open>Data\<close>

definition MOQ_D22_HOP_PATH :: u64 where "MOQ_D22_HOP_PATH = 0x40B57"
definition MOQ_D22_ROUTE_COST :: u64 where "MOQ_D22_ROUTE_COST = 0x40B58"

definition MOQ_D22_PARAM_PRESENT :: "u64 \<Rightarrow> u64" where
  "MOQ_D22_PARAM_PRESENT type = push_bit (unat type) 1"

text \<open>The enumeration \<open>moq_d22_param_scope_t\<close>, by its integer values; the named ones are those the
  codec itself mentions.\<close>

type_synonym moq_d22_param_scope = nat

abbreviation MOQ_D22_SCOPE_FILL :: moq_d22_param_scope where "MOQ_D22_SCOPE_FILL \<equiv> 20"
abbreviation MOQ_D22_SCOPE_NAMESPACE :: moq_d22_param_scope where "MOQ_D22_SCOPE_NAMESPACE \<equiv> 21"

record moq_d22_location =
  loc_group :: u64
  loc_object :: u64

record moq_d22_namespace =
  dn_encoded :: moq_bytes
  dn_fields :: moq_bytes
  dn_count :: nat
  dn_value_bytes :: nat

record moq_d22_token =
  dt_alias_type :: u64
  dt_alias :: u64
  dt_type :: u64
  dt_value :: moq_bytes

record moq_d22_range =
  rg_start :: u64
  rg_end :: u64
  rg_open_end :: bool

record moq_d22_range_filter =
  rf_clear :: bool
  rf_set_id :: u8
  rf_property_type :: u64
  rf_ranges :: moq_bytes
  rf_count :: u64

text \<open>The union \<open>value\<close> as one field for each member: the code only uses the member that the type
  selects. \<open>p_hop_ids\<close> is the pair \<open>hop_ids, hop_count\<close>.\<close>

record moq_d22_param =
  p_type :: u64
  p_hop_ids :: "u64 cptr"
  p_integer :: u64
  p_location :: moq_d22_location
  p_filter :: moq_d22_location_filter
  p_token :: moq_d22_token
  p_ranges :: moq_d22_range_filter
  p_ns :: moq_d22_namespace
  p_hop_path :: moq_bytes
  p_fill :: moq_bytes

record moq_d22_params =
  ps_encoded :: moq_bytes
  ps_count :: u64
  ps_present :: u64
  ps_range_count :: u64
  ps_has_hop_path :: bool
  ps_has_route_cost :: bool

definition param_zero :: "u64 \<Rightarrow> moq_d22_param" where
  "param_zero type = \<lparr>
     p_type = type, p_hop_ids = Null 0, p_integer = 0,
     p_location = \<lparr>loc_group = 0, loc_object = 0\<rparr>,
     p_filter = \<lparr>lf_type = 0, lf_start_group = 0, lf_start_object = 0, lf_end_group_delta = 0, lf_end_object = 0\<rparr>,
     p_token = \<lparr>dt_alias_type = 0, dt_alias = 0, dt_type = 0, dt_value = Null 0\<rparr>,
     p_ranges = \<lparr>rf_clear = False, rf_set_id = 0, rf_property_type = 0, rf_ranges = Null 0, rf_count = 0\<rparr>,
     p_ns = \<lparr>dn_encoded = Null 0, dn_fields = Null 0, dn_count = 0, dn_value_bytes = 0\<rparr>,
     p_hop_path = Null 0, p_fill = Null 0\<rparr>"

definition params_zero :: "moq_bytes \<Rightarrow> moq_d22_params" where
  "params_zero encoded = \<lparr>ps_encoded = encoded, ps_count = 0, ps_present = 0, ps_range_count = 0,
     ps_has_hop_path = False, ps_has_route_cost = False\<rparr>"

text \<open>The parameter types of each scope, in the order of the enumeration.\<close>

definition type_bits :: "u64 list \<Rightarrow> u64" where
  "type_bits types = foldr (\<lambda>type bits. MOQ_D22_PARAM_PRESENT type OR bits) types 0"

abbreviation RANGES :: "u64 list" where "RANGES \<equiv> [0x25, 0x26, 0x27, 0x28]"

definition allowed_types :: "u64 list list" where
  "allowed_types = [
     [2, 3, 4, 6, 16, 32, 33, 34, 35] @ RANGES @ [50, 53],
     [2, 3, 6, 8, 9, 16, 32, 33, 34],
     [3, 10, 32, 33, 34] @ RANGES @ [53],
     [3, 53],
     [3, 63],
     [3],
     [3, 16, 34] @ RANGES @ [41, 53],
     [8, 9],
     [8],
     [8, 9],
     [9],
     [8],
     [],
     [9, 16, 33],
     [2, 3, 6, 16, 32, 33, 35] @ RANGES @ [50],
     [2, 3, 6, 16, 32, 33, 50],
     [3, 32],
     [3, 63],
     [3, 52],
     [3, 16, 41, 52],
     [10, 32, 33, 34] @ RANGES,
     [63]]"

definition allowed :: "moq_d22_param_scope \<Rightarrow> u64" where
  "allowed scope = type_bits (allowed_types ! scope)"

definition scope_valid :: "moq_d22_param_scope \<Rightarrow> bool" where
  "scope_valid scope \<longleftrightarrow> scope \<le> MOQ_D22_SCOPE_NAMESPACE"

definition is_range :: "u64 \<Rightarrow> bool" where
  "is_range type \<longleftrightarrow> 0x25 \<le> type \<and> type \<le> 0x29"

definition cluster_type :: "u64 \<Rightarrow> bool" where
  "cluster_type type \<longleftrightarrow> type = MOQ_D22_HOP_PATH \<or> type = MOQ_D22_ROUTE_COST"

text \<open>The test of a type against a set of types, as the decoder and the encoder make it.\<close>

definition type_legal :: "u64 \<Rightarrow> u64 \<Rightarrow> bool" where
  "type_legal legal type \<longleftrightarrow>
     (if cluster_type type then legal AND MOQ_D22_PARAM_PRESENT 63 \<noteq> 0
      else \<not> (63 \<le> type \<or> legal AND MOQ_D22_PARAM_PRESENT type = 0))"

section \<open>Bytes, spans and namespaces\<close>

definition read_byte :: "u8 rd" where
  "read_byte r =
     (if moq_buf_reader_remaining r = 0 then (Inl MOQ_ERR_BUFFER, r)
      else (Inr (elems (rd_data r) ! rd_pos r), r\<lparr>rd_pos := rd_pos r + 1\<rparr>))"

definition read_span :: "nat \<Rightarrow> moq_bytes rd" where
  "read_span limit = rd_then moq_buf_read_vi64 (\<lambda>len r.
     if limit < unat len then (Inl MOQ_ERR_PROTO, r)
     else if moq_buf_reader_remaining r < unat len then (Inl MOQ_ERR_BUFFER, r)
     else moq_buf_read_raw (unat len) r)"

definition write_span :: "moq_bytes \<Rightarrow> wr" where
  "write_span bytes w =
     (if is_null bytes \<and> plen bytes \<noteq> 0 \<or> 65535 < plen bytes then (MOQ_ERR_INVAL, w)
      else wr_then (moq_buf_write_vi64 (of_nat (plen bytes))) (moq_buf_write_raw bytes) w)"

text \<open>A read together with the span it consumed.\<close>

definition rd_span :: "'a rd \<Rightarrow> ('a \<times> moq_bytes) rd" where
  "rd_span m r = (case m r of
     (Inl e, c) \<Rightarrow> (Inl e, c)
   | (Inr a, c) \<Rightarrow> (Inr (a, ptake (rd_pos c - rd_pos r) (moq_buf_reader_ptr r)), c))"

text \<open>The loop over the fields: \<open>n\<close> are left and \<open>value_bytes\<close> have been seen.\<close>

fun decode_ns_fields :: "nat \<Rightarrow> nat \<Rightarrow> nat rd" where
  "decode_ns_fields 0 value_bytes = rd_return value_bytes"
| "decode_ns_fields (Suc n) value_bytes =
     rd_then (read_span (4096 - value_bytes)) (\<lambda>field.
       if plen field = 0 then rd_fail MOQ_ERR_PROTO else decode_ns_fields n (value_bytes + plen field))"

definition moq_d22_decode_namespace :: "moq_d22_namespace rd" where
  "moq_d22_decode_namespace r =
     (if \<not> reader_valid r then (Inl MOQ_ERR_INVAL, r)
      else rd_local
        (rd_then
          (rd_span (rd_then moq_buf_read_vi64 (\<lambda>count.
             if 32 < count then rd_fail MOQ_ERR_PROTO
             else rd_then (rd_span (decode_ns_fields (unat count) 0)) (\<lambda>x. rd_return (unat count, x)))))
          (\<lambda>(x, encoded). rd_return \<lparr>dn_encoded = encoded, dn_fields = snd (snd x),
             dn_count = fst x, dn_value_bytes = fst (snd x)\<rparr>)) r)"

fun encode_ns_check :: "nat \<Rightarrow> moq_bytes list \<Rightarrow> bool" where
  "encode_ns_check total_bytes [] \<longleftrightarrow> True"
| "encode_ns_check total_bytes (p # ps) \<longleftrightarrow>
     \<not> (is_null p \<or> plen p = 0 \<or> 4096 - total_bytes < plen p) \<and> encode_ns_check (total_bytes + plen p) ps"

fun write_spans :: "moq_bytes list \<Rightarrow> wr" where
  "write_spans [] w = (MOQ_OK, w)"
| "write_spans (p # ps) w = wr_then (write_span p) (write_spans ps) w"

definition moq_d22_encode_namespace :: "moq_namespace \<Rightarrow> wr" where
  "moq_d22_encode_namespace ns w =
     (if \<not> writer_valid w \<or> 32 < plen ns \<or> is_null ns \<and> plen ns \<noteq> 0 then (MOQ_ERR_INVAL, w)
      else if \<not> encode_ns_check 0 (elems ns) then (MOQ_ERR_INVAL, w)
      else wr_local (wr_then (moq_buf_write_vi64 (of_nat (plen ns))) (write_spans (elems ns))) w)"

section \<open>Ranges and tokens\<close>

text \<open>One range after the end of the previous one; the flag tells that a bound overflowed.\<close>

definition scan_range :: "u64 \<Rightarrow> (moq_d22_range \<times> bool) rd" where
  "scan_range previous_end = rd_local (rd_then moq_buf_read_vi64 (\<lambda>delta c.
     let invalid = UINT64_MAX - previous_end < delta;
         start = (if invalid then 0 else previous_end + delta)
     in if moq_buf_reader_remaining c = 0
        then (Inr (\<lparr>rg_start = start, rg_end = UINT64_MAX, rg_open_end = True\<rparr>, invalid), c)
        else rd_then moq_buf_read_vi64 (\<lambda>delta.
          if UINT64_MAX - start < delta
          then rd_return (\<lparr>rg_start = start, rg_end = UINT64_MAX, rg_open_end = False\<rparr>, True)
          else rd_return (\<lparr>rg_start = start, rg_end = start + delta, rg_open_end = False\<rparr>, invalid)) c))"

definition moq_d22_range_next :: "u64 \<Rightarrow> moq_d22_range rd" where
  "moq_d22_range_next previous_end r =
     (if \<not> reader_valid r then (Inl MOQ_ERR_INVAL, r)
      else rd_local (rd_then (scan_range previous_end) (\<lambda>(v, invalid).
        if invalid then rd_fail MOQ_D22_ERR_INVALID_FILTER else rd_return v)) r)"

text \<open>Any failure of a read reported as \<open>e\<close>.\<close>

definition rd_or :: "moq_result \<Rightarrow> 'a rd \<Rightarrow> 'a rd" where
  "rd_or e m r = (case m r of (Inl _, r1) \<Rightarrow> (Inl e, r1) | (Inr a, r1) \<Rightarrow> (Inr a, r1))"

definition read_token :: "moq_d22_token rd" where
  "read_token =
     rd_then (rd_or MOQ_D22_ERR_KVP_FORMAT moq_buf_read_vi64) (\<lambda>alias_type.
       if 3 < alias_type then rd_fail MOQ_D22_ERR_KVP_FORMAT
       else rd_then (if alias_type \<noteq> 3 then rd_or MOQ_D22_ERR_KVP_FORMAT moq_buf_read_vi64 else rd_return 0) (\<lambda>alias.
         if alias_type = 1 \<or> alias_type = 3 then
           rd_then (rd_or MOQ_D22_ERR_KVP_FORMAT moq_buf_read_vi64) (\<lambda>type r.
             (Inr \<lparr>dt_alias_type = alias_type, dt_alias = alias, dt_type = type,
                   dt_value = ptake (moq_buf_reader_remaining r) (moq_buf_reader_ptr r)\<rparr>, r))
         else (\<lambda>r.
           if moq_buf_reader_remaining r \<noteq> 0 then (Inl MOQ_D22_ERR_KVP_FORMAT, r)
           else (Inr \<lparr>dt_alias_type = alias_type, dt_alias = alias, dt_type = 0, dt_value = Null 0\<rparr>, r))))"

definition decode_token :: "moq_bytes \<Rightarrow> moq_result + moq_d22_token" where
  "decode_token bytes = fst (read_token (moq_buf_reader_init bytes))"

lemma remaining_less:
  "reader_valid r' \<Longrightarrow> rd_data r' = rd_data r \<Longrightarrow> rd_pos r < rd_pos r' \<Longrightarrow>
   moq_buf_reader_remaining r' < moq_buf_reader_remaining r"
  by (auto simp: reader_valid_def moq_buf_reader_remaining_def)

lemma rd_moves_dyn [rd_rule]:
  "rd_moves m \<Longrightarrow> rd_moves k \<Longrightarrow> rd_moves (\<lambda>c. if P c then m c else k c)"
proof -
  assume m: "rd_moves m" and k: "rd_moves k"
  have "reader_valid r' \<and> rd_data r' = rd_data r \<and> rd_pos r \<le> rd_pos r'"
    if "reader_valid r" and "(if P r then m r else k r) = (Inr a, r')" for r a r'
    using that rd_movesD [OF m that(1), of a r'] rd_movesD [OF k that(1), of a r'] by (cases "P r") simp_all
  then show ?thesis unfolding rd_moves_def by blast
qed

lemma rd_moves_inr [rd_rule]: "rd_moves (\<lambda>c. (Inr a, c))"
  using rd_moves_return [of a] by (simp add: rd_return_def [abs_def])

lemma rd_moves_inl [rd_rule]: "rd_moves (\<lambda>c. (Inl e, c))"
  by (simp add: rd_moves_def)

lemma vi64_then_step:
  assumes "rd_local (rd_then moq_buf_read_vi64 f) r = (Inr a, r')" and "\<And>d. rd_moves (f d)"
  shows "reader_valid r \<and> reader_valid r' \<and> rd_data r' = rd_data r \<and> rd_pos r < rd_pos r'"
proof -
  from rd_local_okD [OF assms(1)] obtain d r1 where d: "moq_buf_read_vi64 r = (Inr d, r1)" and f: "f d r1 = (Inr a, r')"
    by (auto simp: rd_then_def split: prod.splits sum.splits)
  from io_vi64.rd_step [OF d] rd_movesD [OF assms(2) _ f] show ?thesis by auto
qed

lemma scan_range_step:
  assumes "scan_range previous_end r = (Inr v, r')"
  shows "reader_valid r \<and> reader_valid r' \<and> rd_data r' = rd_data r \<and> rd_pos r < rd_pos r'"
  using assms unfolding scan_range_def Let_def
  by (rule vi64_then_step) (intro rd_rule)

text \<open>The loop over the ranges; \<open>count\<close> have been read.\<close>

function ranges_loop :: "u64 \<Rightarrow> moq_buf_reader \<Rightarrow> u64 \<Rightarrow> u64 \<Rightarrow> bool \<Rightarrow> moq_result + u64 \<times> bool" where
  "ranges_loop type r previous count invalid =
     (if moq_buf_reader_remaining r = 0 then Inr (count, invalid)
      else case scan_range previous r of
        (Inl rc, _) \<Rightarrow> Inl (if rc = MOQ_ERR_BUFFER then MOQ_ERR_PROTO else rc)
      | (Inr (rng, flag), r1) \<Rightarrow>
          ranges_loop type r1 (rg_end rng) (count + 1)
            (invalid \<or> flag \<or>
             type = 0x27 \<and> (255 < rg_start rng \<or> \<not> rg_open_end rng \<and> 255 < rg_end rng)))"
  by pat_completeness auto
termination
  by (relation "measure (\<lambda>(type, r, previous, count, invalid). moq_buf_reader_remaining r)")
    (auto dest!: sym [of "(_, _)" "scan_range _ _"] scan_range_step intro: remaining_less)

declare ranges_loop.simps [simp del]

definition decode_ranges :: "u64 \<Rightarrow> moq_bytes \<Rightarrow> moq_result + moq_d22_range_filter \<times> bool" where
  "decode_ranges type bytes =
     (if plen bytes = 0
      then Inr (\<lparr>rf_clear = True, rf_set_id = 0, rf_property_type = 0, rf_ranges = Null 0, rf_count = 0\<rparr>, False)
      else case read_byte (moq_buf_reader_init bytes) of
        (Inl e, _) \<Rightarrow> Inl e
      | (Inr set_id, r) \<Rightarrow>
          (case (if type = 0x28 \<or> type = 0x29 then rd_or MOQ_ERR_PROTO moq_buf_read_vi64 r else (Inr 0, r)) of
             (Inl e, _) \<Rightarrow> Inl e
           | (Inr property_type, r) \<Rightarrow>
               (case ranges_loop type r 0 0 ((type = 0x28 \<or> type = 0x29) \<and> property_type AND 1 \<noteq> 0) of
                  Inl e \<Rightarrow> Inl e
                | Inr (count, invalid) \<Rightarrow>
                    Inr (\<lparr>rf_clear = False, rf_set_id = set_id, rf_property_type = property_type,
                          rf_ranges = ptake (moq_buf_reader_remaining r) (moq_buf_reader_ptr r),
                          rf_count = count\<rparr>, invalid))))"

section \<open>One parameter\<close>

definition integer_type :: "u64 \<Rightarrow> bool" where
  "integer_type type \<longleftrightarrow> type = MOQ_D22_ROUTE_COST \<or> type \<in> {2, 4, 6, 8, 10, 50}"

definition byte_type :: "u64 \<Rightarrow> bool" where
  "byte_type type \<longleftrightarrow> type \<in> {16, 32, 34, 53}"

definition range_type :: "u64 \<Rightarrow> bool" where
  "range_type type \<longleftrightarrow> type \<in> {37, 38, 39, 40, 41}"

text \<open>A complete value that was read as a span: its own decoder decides.\<close>

definition rd_lift :: "moq_result + 'a \<Rightarrow> 'a rd" where
  "rd_lift x = (case x of Inl e \<Rightarrow> rd_fail e | Inr a \<Rightarrow> rd_return a)"

text \<open>The result code of the check of a hop path. The check always returns (\<open>validate_hop_path_total\<close>), so
  the last case is never reached.\<close>

definition hop_path_check :: "moq_bytes \<Rightarrow> moq_result + unit" where
  "hop_path_check span = (case moq_d22_validate_hop_path span of
     Some rc \<Rightarrow> if rc = MOQ_OK then Inr () else Inl rc
   | None \<Rightarrow> Inl MOQ_ERR_INTERNAL)"

text \<open>The switch of \<open>scan_param\<close>.\<close>

definition scan_value :: "u64 \<Rightarrow> (moq_d22_param \<times> bool) rd" where
  "scan_value type =
     (if integer_type type then
        rd_then moq_buf_read_vi64 (\<lambda>n. rd_return ((param_zero type)\<lparr>p_integer := n\<rparr>, False))
      else if type = MOQ_D22_HOP_PATH then
        rd_then (read_span 65535) (\<lambda>span. rd_then (rd_lift (hop_path_check span)) (\<lambda>_.
          rd_return ((param_zero type)\<lparr>p_hop_path := span\<rparr>, False)))
      else if type = 3 then
        rd_then (read_span 65535) (\<lambda>span. rd_then (rd_lift (decode_token span)) (\<lambda>token.
          rd_return ((param_zero type)\<lparr>p_token := token\<rparr>, False)))
      else if type = 9 then
        rd_then moq_buf_read_vi64 (\<lambda>grp. rd_then moq_buf_read_vi64 (\<lambda>obj.
          rd_return ((param_zero type)\<lparr>p_location := \<lparr>loc_group = grp, loc_object = obj\<rparr>\<rparr>, False)))
      else if byte_type type then
        rd_then read_byte (\<lambda>byte.
          if (type = 16 \<or> type = 53) \<and> 1 < byte \<or> type = 34 \<and> (byte < 1 \<or> 2 < byte) then rd_fail MOQ_ERR_PROTO
          else rd_return ((param_zero type)\<lparr>p_integer := ucast byte\<rparr>, False))
      else if type = 33 then
        rd_then moq_d22_decode_location_filter (\<lambda>lf. rd_return ((param_zero type)\<lparr>p_filter := lf\<rparr>, False))
      else if type = 35 then
        rd_then (read_span 65535) (\<lambda>fill. rd_return ((param_zero type)\<lparr>p_fill := fill\<rparr>, False))
      else if range_type type then
        rd_then (read_span 65535) (\<lambda>span. rd_then (rd_lift (decode_ranges type span)) (\<lambda>(ranges, flag).
          rd_return ((param_zero type)\<lparr>p_ranges := ranges\<rparr>, flag)))
      else if type = 52 then
        rd_then moq_d22_decode_namespace (\<lambda>ns. rd_return ((param_zero type)\<lparr>p_ns := ns\<rparr>, False))
      else rd_fail MOQ_ERR_PROTO)"

definition scan_param :: "u64 \<Rightarrow> u64 \<Rightarrow> (moq_d22_param \<times> bool) rd" where
  "scan_param previous_type legal = rd_local (rd_then moq_buf_read_vi64 (\<lambda>delta.
     if UINT64_MAX - previous_type < delta then rd_fail MOQ_ERR_PROTO
     else if \<not> type_legal legal (previous_type + delta) then rd_fail MOQ_ERR_PROTO
     else scan_value (previous_type + delta)))"

definition moq_d22_param_next :: "u64 \<Rightarrow> moq_d22_param rd" where
  "moq_d22_param_next previous_type r =
     (if \<not> reader_valid r then (Inl MOQ_ERR_INVAL, r)
      else rd_local (rd_then (scan_param previous_type UINT64_MAX) (\<lambda>(v, invalid).
        if invalid then rd_fail MOQ_D22_ERR_INVALID_FILTER else rd_return v)) r)"

definition moq_d22_param_next_scanned :: "u64 \<Rightarrow> moq_d22_param rd" where
  "moq_d22_param_next_scanned previous_type r =
     (if \<not> reader_valid r then (Inl MOQ_ERR_INVAL, r)
      else rd_local (rd_then (scan_param previous_type UINT64_MAX) (\<lambda>(v, invalid). rd_return v)) r)"

text \<open>Every successful read of a parameter consumes at least one byte and stays in the span.\<close>

lemma rd_moves_byte [rd_rule]: "rd_moves read_byte"
  by (auto simp: rd_moves_def read_byte_def reader_valid_def moq_buf_reader_remaining_def split: if_splits)

lemma rd_moves_read_span [rd_rule]: "rd_moves (read_span limit)"
  unfolding read_span_def by (intro rd_rule)

lemma rd_moves_span [rd_rule]: "rd_moves m \<Longrightarrow> rd_moves (rd_span m)"
proof -
  assume m: "rd_moves m"
  have "\<exists>x. m r = (Inr x, r')" if "rd_span m r = (Inr y, r')" for r r' y
    using that by (auto simp: rd_span_def split: prod.splits sum.splits)
  then show ?thesis unfolding rd_moves_def using rd_movesD [OF m] by blast
qed

lemma rd_moves_lift [rd_rule]: "rd_moves (rd_lift x)"
  by (cases x) (auto simp: rd_lift_def intro: rd_rule)

lemma rd_moves_valid [rd_rule]: "rd_moves m \<Longrightarrow> rd_moves (\<lambda>r. if \<not> reader_valid r then (Inl e, r) else m r)"
  by (intro rd_rule)

lemma rd_moves_ns_fields [rd_rule]: "rd_moves (decode_ns_fields n tot)"
  by (induction n arbitrary: tot) (auto intro!: rd_rule)

lemma rd_moves_pair [rd_rule]: "(\<And>a b. rd_moves (f a b)) \<Longrightarrow> rd_moves (case x of (a, b) \<Rightarrow> f a b)"
  by (cases x) simp

lemma rd_moves_decode_namespace [rd_rule]: "rd_moves moq_d22_decode_namespace"
  unfolding moq_d22_decode_namespace_def [abs_def] by (intro rd_rule)

lemma rd_moves_location_filter [rd_rule]: "rd_moves moq_d22_decode_location_filter"
  unfolding moq_d22_decode_location_filter_def [abs_def] by (intro rd_rule)

lemma rd_moves_scan_value [rd_rule]: "rd_moves (scan_value type)"
  unfolding scan_value_def by (intro rd_rule)

lemma scan_param_step:
  assumes "scan_param previous legal r = (Inr v, r')"
  shows "reader_valid r \<and> reader_valid r' \<and> rd_data r' = rd_data r \<and> rd_pos r < rd_pos r'"
  using assms unfolding scan_param_def by (rule vi64_then_step) (intro rd_rule)

text \<open>What holds of every value a read returns.\<close>

definition rd_post :: "'a rd \<Rightarrow> ('a \<Rightarrow> bool) \<Rightarrow> bool" where
  "rd_post m P \<longleftrightarrow> (\<forall>r a r'. m r = (Inr a, r') \<longrightarrow> P a)"

named_theorems post_rule

lemma rd_postD: "rd_post m P \<Longrightarrow> m r = (Inr a, r') \<Longrightarrow> P a"
  unfolding rd_post_def by blast

lemma rd_post_return [post_rule]: "P a \<Longrightarrow> rd_post (rd_return a) P"
  by (simp add: rd_post_def rd_return_def)

lemma rd_post_fail [post_rule]: "rd_post (rd_fail e) P"
  by (simp add: rd_post_def rd_fail_def)

lemma rd_post_then [post_rule]: "(\<And>a. rd_post (f a) P) \<Longrightarrow> rd_post (rd_then m f) P"
  by (auto simp: rd_post_def rd_then_def split: prod.splits sum.splits)

lemma rd_post_if [post_rule]: "rd_post m P \<Longrightarrow> rd_post k P \<Longrightarrow> rd_post (if c then m else k) P"
  by simp

lemma rd_post_pair [post_rule]: "(\<And>a b. rd_post (f a b) P) \<Longrightarrow> rd_post (case x of (a, b) \<Rightarrow> f a b) P"
  by (cases x) simp

lemma scan_value_type: "rd_post (scan_value type) (\<lambda>(p, flag). p_type p = type)"
  unfolding scan_value_def by (intro post_rule) (simp_all add: param_zero_def)

lemma scan_value_no_fill: "type \<noteq> 35 \<Longrightarrow> rd_post (scan_value type) (\<lambda>(p, flag). p_fill p = Null 0)"
  unfolding scan_value_def by (simp, intro conjI impI post_rule) (simp_all add: param_zero_def)

lemma read_span_len: "read_span limit r = (Inr span, r') \<Longrightarrow> plen span \<le> moq_buf_reader_remaining r \<and> plen span \<le> limit"
proof -
  assume "read_span limit r = (Inr span, r')"
  then obtain len r1 where len: "moq_buf_read_vi64 r = (Inr len, r1)" "\<not> limit < unat len"
      and raw: "moq_buf_read_raw (unat len) r1 = (Inr span, r')"
    by (auto simp: read_span_def rd_then_def split: prod.splits sum.splits if_splits)
  have "reader_valid r1" "moq_buf_reader_remaining r1 \<le> moq_buf_reader_remaining r"
    using io_vi64.rd_step [OF len(1)] remaining_less [of r1 r] by auto
  moreover have "plen span \<le> unat len \<and> unat len \<le> plen (rd_data r1) - rd_pos r1"
  proof -
    have "plen (ptake n p) \<le> n" for n and p :: moq_bytes by (cases p) auto
    then show ?thesis using raw by (auto simp: moq_buf_read_raw_def split: if_splits)
  qed
  ultimately show ?thesis using len(2) by (auto simp: moq_buf_reader_remaining_def reader_valid_def)
qed

lemma scan_param_fill:
  assumes "scan_param previous legal r = (Inr (p, flag), r')"
  shows "plen (p_fill p) < moq_buf_reader_remaining r"
proof -
  from rd_local_okD [OF assms [unfolded scan_param_def]] obtain delta r1
    where d: "moq_buf_read_vi64 r = (Inr delta, r1)" and v: "scan_value (previous + delta) r1 = (Inr (p, flag), r')"
    by (auto simp: rd_then_def rd_fail_def split: prod.splits sum.splits if_splits)
  have less: "moq_buf_reader_remaining r1 < moq_buf_reader_remaining r"
    using io_vi64.rd_step [OF d] by (auto intro: remaining_less)
  show ?thesis
  proof (cases "previous + delta = 35")
    case True
    from v [unfolded True] obtain r2 where "read_span 65535 r1 = (Inr (p_fill p), r2)"
      by (auto simp: scan_value_def integer_type_def byte_type_def MOQ_D22_HOP_PATH_def MOQ_D22_ROUTE_COST_def
          rd_then_def rd_return_def split: prod.splits sum.splits)
    from read_span_len [OF this] less show ?thesis by simp
  next
    case False
    from rd_postD [OF scan_value_no_fill [OF this] v] less show ?thesis by simp
  qed
qed

lemma scan_param_facts:
  "scan_param previous legal r = (Inr (p, flag), r') \<Longrightarrow>
   plen (p_fill p) < moq_buf_reader_remaining r \<and> reader_valid r \<and> reader_valid r' \<and> rd_data r' = rd_data r
   \<and> rd_pos r < rd_pos r'"
  using scan_param_step scan_param_fill by blast

section \<open>Parameter sequences\<close>

text \<open>The loop of \<open>check_range_key\<close> over the earlier parameters.\<close>

function check_range_loop :: "moq_d22_param \<Rightarrow> moq_buf_reader \<Rightarrow> u64 \<Rightarrow> moq_result" where
  "check_range_loop p r previous =
     (if moq_buf_reader_remaining r = 0 then MOQ_OK
      else case scan_param previous UINT64_MAX r of
        (Inl e, _) \<Rightarrow> e
      | (Inr (earlier, _), r1) \<Rightarrow>
          if p_type earlier \<noteq> p_type p then check_range_loop p r1 (p_type earlier)
          else let a = p_ranges earlier; b = p_ranges p in
            if \<not> rf_clear a \<and> \<not> rf_clear b \<and> rf_set_id a = rf_set_id b \<and> rf_property_type a = rf_property_type b
            then MOQ_D22_ERR_INVALID_FILTER
            else check_range_loop p r1 (p_type earlier))"
  by pat_completeness auto
termination
  by (relation "measure (\<lambda>(p, r, previous). moq_buf_reader_remaining r)")
    (auto dest!: sym [of "(_, _)" "scan_param _ _ _"] scan_param_step intro: remaining_less)

declare check_range_loop.simps [simp del]

definition check_range_key :: "moq_bytes \<Rightarrow> moq_d22_param \<Rightarrow> moq_result" where
  "check_range_key prior p = check_range_loop p (moq_buf_reader_init prior) 0"

definition params_repeat :: "moq_d22_params \<Rightarrow> moq_d22_param \<Rightarrow> bool" where
  "params_repeat v p =
     (if p_type p = MOQ_D22_HOP_PATH then ps_has_hop_path v
      else if p_type p = MOQ_D22_ROUTE_COST then ps_has_route_cost v
      else ps_present v AND MOQ_D22_PARAM_PRESENT (p_type p) \<noteq> 0)"

text \<open>The branch for a range filter: the new value of \<open>invalid\<close>.\<close>

definition params_range :: "u64 \<Rightarrow> moq_d22_params \<Rightarrow> moq_d22_param \<Rightarrow> bool \<Rightarrow> moq_result + bool" where
  "params_range max_ranges v p invalid =
     (let invalid = (invalid \<or> max_ranges = 0 \<or> max_ranges < ps_range_count v
                     \<or> max_ranges - ps_range_count v < rf_count (p_ranges p))
      in if \<not> invalid \<and> params_repeat v p \<and> \<not> rf_clear (p_ranges p) then
           let rc = check_range_key (ps_encoded v) p in
             if rc = MOQ_D22_ERR_INVALID_FILTER then Inr True
             else if rc \<noteq> MOQ_OK then Inl rc
             else Inr invalid
         else Inr invalid)"

definition params_mark :: "moq_d22_params \<Rightarrow> moq_d22_param \<Rightarrow> moq_d22_params" where
  "params_mark v p =
     (if p_type p = MOQ_D22_HOP_PATH then v\<lparr>ps_has_hop_path := True\<rparr>
      else if p_type p = MOQ_D22_ROUTE_COST then v\<lparr>ps_has_route_cost := True\<rparr>
      else v\<lparr>ps_present := ps_present v OR MOQ_D22_PARAM_PRESENT (p_type p)\<rparr>)"

text \<open>
  \<open>decode_sequence\<close> and \<open>decode_fill_value\<close> call each other. \<open>sequence_loop\<close> is the loop of
  \<open>decode_sequence\<close>: \<open>r\<close> is the caller's cursor, \<open>c\<close> the local copy.
\<close>

function sequence_loop :: "moq_buf_reader \<Rightarrow> u64 \<Rightarrow> moq_d22_param_scope \<Rightarrow> u64 \<Rightarrow> moq_buf_reader \<Rightarrow> u64 \<Rightarrow> bool
    \<Rightarrow> moq_d22_params \<Rightarrow> moq_result + moq_d22_params \<times> bool \<times> moq_buf_reader" and
  decode_fill_value :: "moq_bytes \<Rightarrow> u64 \<Rightarrow> moq_result + moq_d22_params \<times> bool" where
  "sequence_loop r count scope max_ranges c previous invalid v =
     (if \<not> ps_count v < count then Inr (v, invalid, c)
      else case scan_param previous (allowed scope) c of
        (Inl e, _) \<Rightarrow> Inl e
      | (Inr (p, flag), c1) \<Rightarrow>
          if params_repeat v p \<and> p_type p \<noteq> 3 \<and> \<not> is_range (p_type p) then Inl MOQ_ERR_PROTO
          else case (if is_range (p_type p) then params_range max_ranges v p (invalid \<or> flag)
                     else if p_type p = 35 then
                       (case decode_fill_value (p_fill p) max_ranges of
                          Inl e \<Rightarrow> Inl e
                        | Inr (fill, fill_invalid) \<Rightarrow> Inr (invalid \<or> flag \<or> fill_invalid))
                     else Inr (invalid \<or> flag)) of
            Inl e \<Rightarrow> Inl e
          | Inr invalid1 \<Rightarrow>
              if 65535 < rd_pos c1 - rd_pos r then Inl MOQ_ERR_PROTO
              else sequence_loop r count scope max_ranges c1 (p_type p) invalid1
                ((params_mark v p)\<lparr>
                   ps_encoded := ptake (rd_pos c1 - rd_pos r) (moq_buf_reader_ptr r),
                   ps_range_count := (if is_range (p_type p) then ps_range_count v + rf_count (p_ranges p)
                                      else ps_range_count v),
                   ps_count := ps_count v + 1\<rparr>))"
| "decode_fill_value fill max_ranges =
     (case moq_buf_read_vi64 (moq_buf_reader_init fill) of
        (Inl _, _) \<Rightarrow> Inl MOQ_ERR_PROTO
      | (Inr count, r) \<Rightarrow>
          case sequence_loop r count MOQ_D22_SCOPE_FILL max_ranges r 0 False
                 (params_zero (ptake 0 (moq_buf_reader_ptr r))) of
            Inl rc \<Rightarrow> Inl (if rc = MOQ_ERR_BUFFER then MOQ_ERR_PROTO else rc)
          | Inr (v, invalid, r1) \<Rightarrow>
              if moq_buf_reader_remaining r1 \<noteq> 0 then Inl MOQ_ERR_PROTO else Inr (v, invalid))"
  by pat_completeness auto
termination
proof (relation "measure (\<lambda>x. case x of
      Inl (r, count, scope, max_ranges, c, previous, invalid, v) \<Rightarrow> moq_buf_reader_remaining c
    | Inr (fill, max_ranges) \<Rightarrow> plen fill)")
qed (auto dest!: sym [of "(_, _)" "scan_param _ _ _"] sym [of "(_, _)" "moq_buf_read_vi64 _"] scan_param_facts
      io_vi64.rd_step
      simp: moq_buf_reader_remaining_def moq_buf_reader_init_def reader_valid_def)

declare sequence_loop.simps [simp del]
declare decode_fill_value.simps [simp del]

definition decode_sequence :: "u64 \<Rightarrow> moq_d22_param_scope \<Rightarrow> u64 \<Rightarrow> (moq_d22_params \<times> bool) rd" where
  "decode_sequence count scope max_ranges r =
     (case sequence_loop r count scope max_ranges r 0 False (params_zero (ptake 0 (moq_buf_reader_ptr r))) of
        Inl e \<Rightarrow> (Inl e, r)
      | Inr (v, invalid, c) \<Rightarrow> (Inr (v, invalid), c))"

definition moq_d22_scan_params :: "u64 \<Rightarrow> moq_d22_param_scope \<Rightarrow> u64 \<Rightarrow> (moq_d22_params \<times> bool) rd" where
  "moq_d22_scan_params count scope max_ranges r =
     (if \<not> reader_valid r \<or> \<not> scope_valid scope then (Inl MOQ_ERR_INVAL, r)
      else decode_sequence count scope max_ranges r)"

definition moq_d22_decode_params :: "u64 \<Rightarrow> moq_d22_param_scope \<Rightarrow> u64 \<Rightarrow> moq_d22_params rd" where
  "moq_d22_decode_params count scope max_ranges r =
     (if \<not> reader_valid r \<or> \<not> scope_valid scope then (Inl MOQ_ERR_INVAL, r)
      else rd_local (rd_then (moq_d22_scan_params count scope max_ranges) (\<lambda>(v, invalid).
        if invalid then rd_fail MOQ_D22_ERR_INVALID_FILTER else rd_return v)) r)"

definition moq_d22_decode_fill :: "moq_bytes \<Rightarrow> u64 \<Rightarrow> moq_result + moq_d22_params" where
  "moq_d22_decode_fill body max_ranges =
     (if is_null body \<and> plen body \<noteq> 0 then Inl MOQ_ERR_INVAL
      else if 65535 < plen body then Inl MOQ_ERR_PROTO
      else case decode_fill_value body max_ranges of
        Inl e \<Rightarrow> Inl e
      | Inr (v, invalid) \<Rightarrow> if invalid then Inl MOQ_D22_ERR_INVALID_FILTER else Inr v)"

section \<open>Encoding\<close>

fun write_ids :: "u64 list \<Rightarrow> wr" where
  "write_ids [] w = (MOQ_OK, w)"
| "write_ids (x # xs) w = wr_then (moq_buf_write_vi64 x) (write_ids xs) w"

definition encode_hop_path :: "moq_d22_param \<Rightarrow> wr" where
  "encode_hop_path p w =
     (if \<not> is_null (p_hop_ids p) then
        if 65535 < plen (p_hop_ids p) then (MOQ_ERR_INVAL, w)
        else let bytes = sum_list (map moq_vi64_len (elems (p_hop_ids p))) in
          if 65535 < bytes then (MOQ_ERR_INVAL, w)
          else wr_then (moq_buf_write_vi64 (of_nat bytes)) (write_ids (elems (p_hop_ids p))) w
      else write_span (p_hop_path p) w)"

definition encode_ns_value :: "moq_bytes \<Rightarrow> wr" where
  "encode_ns_value bytes w =
     (if is_null bytes \<and> plen bytes \<noteq> 0 \<or> 65535 < plen bytes then (MOQ_ERR_INVAL, w)
      else case moq_d22_decode_namespace (moq_buf_reader_init bytes) of
        (Inl _, _) \<Rightarrow> (MOQ_ERR_INVAL, w)
      | (Inr ns, r) \<Rightarrow>
          if rd_pos r \<noteq> plen (rd_data r) then (MOQ_ERR_INVAL, w) else moq_buf_write_raw bytes w)"

definition encode_token :: "moq_d22_token \<Rightarrow> wr" where
  "encode_token t w =
     (if 3 < dt_alias_type t then (MOQ_ERR_INVAL, w)
      else let has_value = (dt_alias_type t = 1 \<or> dt_alias_type t = 3);
               size1 = moq_vi64_len (dt_alias_type t)
                 + (if dt_alias_type t \<noteq> 3 then moq_vi64_len (dt_alias t) else 0);
               size2 = size1 + moq_vi64_len (dt_type t);
               size = (if has_value then size2 + plen (dt_value t) else size1)
        in if has_value \<and> (is_null (dt_value t) \<and> plen (dt_value t) \<noteq> 0 \<or> 65535 - size2 < plen (dt_value t))
           then (MOQ_ERR_INVAL, w)
           else wr_then (moq_buf_write_vi64 (of_nat size))
             (wr_then (moq_buf_write_vi64 (dt_alias_type t))
             (wr_then (wr_when (dt_alias_type t \<noteq> 3) (moq_buf_write_vi64 (dt_alias t)))
               (wr_when has_value
                 (wr_then (moq_buf_write_vi64 (dt_type t)) (moq_buf_write_raw (dt_value t)))))) w)"

definition encode_ranges :: "u64 \<Rightarrow> moq_d22_range_filter \<Rightarrow> wr" where
  "encode_ranges type f w =
     (if rf_clear f then moq_buf_write_vi64 0 w
      else let prop = (type = 40 \<or> type = 41);
               head = 1 + (if prop then moq_vi64_len (rf_property_type f) else 0)
        in if is_null (rf_ranges f) \<and> plen (rf_ranges f) \<noteq> 0 \<or> 65535 - head < plen (rf_ranges f)
           then (MOQ_ERR_INVAL, w)
           else wr_then (moq_buf_write_vi64 (of_nat (head + plen (rf_ranges f))))
             (wr_then (moq_buf_write_raw (Arr [rf_set_id f]))
             (wr_then (wr_when prop (moq_buf_write_vi64 (rf_property_type f)))
               (moq_buf_write_raw (rf_ranges f)))) w)"

definition encode_value :: "moq_d22_param \<Rightarrow> wr" where
  "encode_value p w =
     (if integer_type (p_type p) then moq_buf_write_vi64 (p_integer p) w
      else if byte_type (p_type p) then
        let n = p_integer p in
          if 255 < n \<or> (p_type p = 16 \<or> p_type p = 53) \<and> 1 < n \<or> p_type p = 34 \<and> (n < 1 \<or> 2 < n)
          then (MOQ_ERR_INVAL, w)
          else moq_buf_write_raw (Arr [ucast n]) w
      else if p_type p = 9 then
        wr_then (moq_buf_write_vi64 (loc_group (p_location p)))
          (moq_buf_write_vi64 (loc_object (p_location p))) w
      else if p_type p = 33 then moq_d22_encode_location_filter (p_filter p) w
      else if p_type p = MOQ_D22_HOP_PATH then encode_hop_path p w
      else if p_type p = 35 then write_span (p_fill p) w
      else if p_type p = 52 then encode_ns_value (dn_encoded (p_ns p)) w
      else if p_type p = 3 then encode_token (p_token p) w
      else if range_type (p_type p) then encode_ranges (p_type p) (p_ranges p) w
      else (MOQ_ERR_INVAL, w))"

text \<open>The loop of \<open>moq_d22_encode_params\<close>; \<open>start\<close> is the position of the caller's cursor.\<close>

fun encode_params_loop :: "nat \<Rightarrow> moq_d22_param_scope \<Rightarrow> u64 \<Rightarrow> moq_d22_param list \<Rightarrow> wr" where
  "encode_params_loop start scope previous [] c = (MOQ_OK, c)"
| "encode_params_loop start scope previous (p # ps) c =
     (if p_type p < previous then (MOQ_ERR_INVAL, c)
      else if \<not> type_legal (allowed scope) (p_type p) then (MOQ_ERR_INVAL, c)
      else wr_then (wr_then (moq_buf_write_vi64 (p_type p - previous)) (encode_value p))
        (\<lambda>c. if 65535 < w_pos c - start then (MOQ_ERR_INVAL, c)
             else encode_params_loop start scope (p_type p) ps c) c)"

definition moq_d22_encode_params :: "moq_d22_param cptr \<Rightarrow> moq_d22_param_scope \<Rightarrow> u64 \<Rightarrow> wr" where
  "moq_d22_encode_params p scope max_ranges w =
     (if \<not> writer_valid w \<or> is_null p \<and> plen p \<noteq> 0 \<or> \<not> scope_valid scope \<or> 65535 div 2 < plen p
      then (MOQ_ERR_INVAL, w)
      else wr_local (wr_then (encode_params_loop (w_pos w) scope 0 (elems p)) (\<lambda>c.
        case moq_d22_decode_params (of_nat (plen p)) scope max_ranges
               \<lparr>rd_data = ptake (w_pos c) (w_data c), rd_pos = w_pos w\<rparr> of
          (Inl _, _) \<Rightarrow> (MOQ_ERR_INVAL, c)
        | (Inr checked, _) \<Rightarrow> (MOQ_OK, c))) w)"

end
