(* ===== verification/ParamsSpec.thy ===== *)
theory ParamsSpec
  imports ParamsD22
begin

text \<open>
  What the parameter codec of \<open>ParamsD22\<close> accepts and produces: a declarative description of the
  accepted parameter sequences, the round trip of the encoder, and the ranges of a range filter.
\<close>

unbundle bit_operations_syntax

section \<open>Reads of parameters depend only on what they consume\<close>

lemma reads_live_cong: "(\<And>r. rd_live r \<Longrightarrow> m r = k r) \<Longrightarrow> reads m bs a = reads k bs a"
  unfolding reads_def by metis

lemma rd_exact_cong: "(\<And>r. rd_live r \<Longrightarrow> m r = k r) \<Longrightarrow> rd_exact m \<longleftrightarrow> rd_exact k"
proof -
  assume same: "\<And>r. rd_live r \<Longrightarrow> m r = k r"
  then have "reads m = reads k" by (intro ext reads_live_cong)
  then show ?thesis using same by (simp add: rd_exact_def cong: imp_cong)
qed

lemma rd_exact_byte [rd_rule]: "rd_exact read_byte"
  unfolding rd_exact_def
proof (intro allI impI)
  fix r b r' assume live: "rd_live r" and run: "read_byte r = (Inr b, r')"
  then have pos: "rd_pos r < length (elems (rd_data r))"
    by (auto simp: read_byte_def rd_live_def moq_buf_reader_remaining_def split: if_splits)
  then have "rd_rest r = [b] @ drop (rd_pos r + 1) (elems (rd_data r))" "r' = r\<lparr>rd_pos := rd_pos r + length [b]\<rparr>"
    using run Cons_nth_drop_Suc [OF pos] by (auto simp: read_byte_def rd_rest_def split: if_splits)
  moreover have "reads read_byte [b] b"
  proof -
    have "elems (rd_data q) ! rd_pos q = b \<and> moq_buf_reader_remaining q \<noteq> 0"
      if "rd_live q" "rd_rest q = [b] @ rest" for q rest
    proof -
      from that(2) have "rd_pos q < length (elems (rd_data q))" "drop (rd_pos q) (elems (rd_data q)) ! 0 = b"
        by (auto simp: rd_rest_def dest: arg_cong [of _ _ length])
      then show ?thesis using that(1) by (auto simp: moq_buf_reader_remaining_def rd_live_def)
    qed
    then show ?thesis by (fastforce simp: reads_def read_byte_def)
  qed
  ultimately show "\<exists>bs rest. rd_rest r = bs @ rest \<and> r' = r\<lparr>rd_pos := rd_pos r + length bs\<rparr> \<and> reads read_byte bs b"
    by blast
qed

lemma rd_exact_read_span [rd_rule]: "rd_exact (read_span limit)"
proof -
  have "rd_exact (\<lambda>r. if limit < n then (Inl MOQ_ERR_PROTO, r)
      else if moq_buf_reader_remaining r < n then (Inl MOQ_ERR_BUFFER, r) else moq_buf_read_raw n r)" for n
  proof (cases "limit < n")
    case True
    then show ?thesis using rd_exact_fail [of MOQ_ERR_PROTO] by (simp add: rd_fail_def [abs_def])
  next
    case False
    have "rd_live r \<Longrightarrow> (if moq_buf_reader_remaining r < n then (Inl MOQ_ERR_BUFFER, r) else moq_buf_read_raw n r)
        = moq_buf_read_raw n r" for r
      by (auto simp: moq_buf_read_raw_def moq_buf_reader_remaining_def reader_valid_def rd_live_def)
    from rd_exact_cong [OF this] show ?thesis using False rd_exact_raw by simp
  qed
  then show ?thesis unfolding read_span_def by (intro rd_rule)
qed

lemma reader_ptr_take:
  assumes "rd_live r" and "rd_rest r = bs @ rest"
  shows "ptake (length bs) (moq_buf_reader_ptr r) = Arr bs"
  using assms rest_take(1) [OF assms] by (simp add: moq_buf_reader_ptr_def rd_live_def)

lemma reads_rd_span: "reads m bs a \<Longrightarrow> reads (rd_span m) bs (a, Arr bs)"
  by (auto simp: reads_def rd_span_def reader_ptr_take)

lemma rd_exact_span [rd_rule]: "rd_exact m \<Longrightarrow> rd_exact (rd_span m)"
  unfolding rd_exact_def
proof (intro allI impI)
  fix r x r' assume m: "\<forall>r a r'. rd_live r \<longrightarrow> m r = (Inr a, r') \<longrightarrow> (\<exists>bs rest. rd_rest r = bs @ rest \<and> r' = r\<lparr>rd_pos := rd_pos r + length bs\<rparr> \<and> reads m bs a)"
    and live: "rd_live r" and run: "rd_span m r = (Inr x, r')"
  from run obtain a where a: "m r = (Inr a, r')" "x = (a, ptake (rd_pos r' - rd_pos r) (moq_buf_reader_ptr r))"
    by (auto simp: rd_span_def split: prod.splits sum.splits)
  with m live obtain bs rest where bs: "rd_rest r = bs @ rest" "r' = r\<lparr>rd_pos := rd_pos r + length bs\<rparr>" "reads m bs a"
    by blast
  then have "x = (a, Arr bs)" using a(2) reader_ptr_take [OF live bs(1)] by simp
  then show "\<exists>bs rest. rd_rest r = bs @ rest \<and> r' = r\<lparr>rd_pos := rd_pos r + length bs\<rparr> \<and> reads (rd_span m) bs x"
    using bs reads_rd_span [OF bs(3)] by (intro exI [of _ bs] exI [of _ rest]) simp
qed

lemma rd_exact_lift [rd_rule]: "rd_exact (rd_lift x)"
  by (cases x) (auto simp: rd_lift_def intro: rd_rule)

lemma rd_exact_pair [rd_rule]: "(\<And>a b. rd_exact (f a b)) \<Longrightarrow> rd_exact (case x of (a, b) \<Rightarrow> f a b)"
  by (cases x) simp

lemma rd_exact_valid [rd_rule]: "rd_exact m \<Longrightarrow> rd_exact (\<lambda>r. if \<not> reader_valid r then (Inl e, r) else m r)"
  by (subst rd_exact_cong [of _ m]) auto

lemma rd_exact_ns_fields [rd_rule]: "rd_exact (decode_ns_fields n tot)"
  by (induction n arbitrary: tot) (auto intro!: rd_rule)

lemma rd_exact_decode_namespace [rd_rule]: "rd_exact moq_d22_decode_namespace"
  unfolding moq_d22_decode_namespace_def [abs_def] by (intro rd_rule)

lemma rd_exact_location_filter [rd_rule]: "rd_exact moq_d22_decode_location_filter"
  unfolding moq_d22_decode_location_filter_def [abs_def] by (intro rd_rule)

lemma rd_exact_scan_value [rd_rule]: "rd_exact (scan_value type)"
  unfolding scan_value_def by (intro rd_rule)

lemma rd_exact_scan_param [rd_rule]: "rd_exact (scan_param previous legal)"
  unfolding scan_param_def by (intro rd_rule)

section \<open>Walking over a sequence\<close>

lemma rd_then_assoc: "rd_then (rd_then m f) g = rd_then m (\<lambda>a. rd_then (f a) g)"
  by (intro ext) (simp add: rd_then_def split: prod.split sum.split)

lemma rd_then_return_left: "rd_then (rd_return a) f = f a"
  by (intro ext) (simp add: rd_then_def rd_return_def)

lemma rd_then_okE:
  assumes "rd_then m f r = (Inr b, r')"
  obtains a r1 where "m r = (Inr a, r1)" "f a r1 = (Inr b, r')"
  using assms by (auto simp: rd_then_def split: prod.splits sum.splits)

lemma rd_then_ok: "m r = (Inr a, r1) \<Longrightarrow> rd_then m f r = f a r1"
  by (simp add: rd_then_def)

text \<open>One parameter that is legal and holds no invalid filter, and \<open>n\<close> of them in a row.\<close>

definition scan_ok :: "u64 \<Rightarrow> u64 \<Rightarrow> moq_d22_param rd" where
  "scan_ok previous legal = rd_then (scan_param previous legal) (\<lambda>(v, invalid).
     if invalid then rd_fail MOQ_D22_ERR_INVALID_FILTER else rd_return v)"

fun scan_all :: "u64 \<Rightarrow> nat \<Rightarrow> u64 \<Rightarrow> moq_d22_param list rd" where
  "scan_all legal 0 previous = rd_return []"
| "scan_all legal (Suc n) previous = rd_then (scan_ok previous legal) (\<lambda>p.
     rd_then (scan_all legal n (p_type p)) (\<lambda>ps. rd_return (p # ps)))"

text \<open>The same walk with the public iterator.\<close>

fun walk_params :: "nat \<Rightarrow> u64 \<Rightarrow> moq_d22_param list rd" where
  "walk_params 0 previous = rd_return []"
| "walk_params (Suc n) previous = rd_then (moq_d22_param_next previous) (\<lambda>p.
     rd_then (walk_params n (p_type p)) (\<lambda>ps. rd_return (p # ps)))"

lemma scan_ok_iff: "scan_ok previous legal r = (Inr p, r') \<longleftrightarrow> scan_param previous legal r = (Inr (p, False), r')"
  by (auto simp: scan_ok_def rd_then_def rd_fail_def rd_return_def split: prod.splits sum.splits if_splits)

lemma rd_exact_scan_ok [rd_rule]: "rd_exact (scan_ok previous legal)"
  unfolding scan_ok_def by (intro rd_rule)

lemma rd_moves_scan_ok [rd_rule]: "rd_moves (scan_ok previous legal)"
  unfolding scan_ok_def scan_param_def by (intro rd_rule)

lemma rd_exact_scan_all [rd_rule]: "rd_exact (scan_all legal n previous)"
  by (induction n arbitrary: previous) (auto intro!: rd_rule)

lemma scan_all_length: "scan_all legal n previous r = (Inr ps, r') \<Longrightarrow> length ps = n"
  by (induction n arbitrary: previous r ps) (auto simp: rd_return_def elim!: rd_then_okE)

lemma scan_all_snoc:
  "scan_all legal (Suc n) previous = rd_then (scan_all legal n previous) (\<lambda>ps.
     rd_then (scan_ok (last (previous # map p_type ps)) legal) (\<lambda>p. rd_return (ps @ [p])))"
proof (induction n arbitrary: previous)
  case 0
  then show ?case by (simp add: rd_then_return_left)
next
  case (Suc n)
  have tail: "rd_then (scan_all legal (Suc n) (p_type p)) (\<lambda>ps. rd_return (p # ps)) =
      rd_then (rd_then (scan_all legal n (p_type p)) (\<lambda>ps. rd_return (p # ps))) (\<lambda>ps.
        rd_then (scan_ok (last (previous # map p_type ps)) legal) (\<lambda>q. rd_return (ps @ [q])))" for p
    unfolding Suc by (simp add: rd_then_assoc rd_then_return_left)
  have "scan_all legal (Suc (Suc n)) previous = rd_then (scan_ok previous legal) (\<lambda>p.
      rd_then (scan_all legal (Suc n) (p_type p)) (\<lambda>ps. rd_return (p # ps)))"
    by (rule scan_all.simps(2))
  then show ?case unfolding tail by (simp only: scan_all.simps(2) rd_then_assoc)
qed

lemma bit_present: "bit (MOQ_D22_PARAM_PRESENT t) n \<longleftrightarrow> n = unat t \<and> n < 64"
  unfolding MOQ_D22_PARAM_PRESENT_def bit_single by auto

lemma type_legal_all: "type_legal legal type \<Longrightarrow> type_legal UINT64_MAX type"
proof -
  have all: "UINT64_MAX = - 1" by simp
  have "MOQ_D22_PARAM_PRESENT t \<noteq> 0" if "t < 64" for t
    using that by (auto simp: word_less_nat_alt bit_eq_iff bit_present)
  from this [of 63] this [of type] show "type_legal legal type \<Longrightarrow> ?thesis"
    unfolding type_legal_def all by (auto split: if_splits)
qed

lemma unat_of_nat_u64: "n < 2 ^ 64 \<Longrightarrow> unat (of_nat n :: u64) = n"
  by (simp add: unat_of_nat take_bit_nat_eq_self_iff)

lemma scan_param_type:
  assumes "scan_param previous legal r = (Inr (p, flag), r')"
  shows "type_legal legal (p_type p)" and "previous \<le> p_type p"
proof -
  from rd_local_okD [OF assms [unfolded scan_param_def]] obtain delta r1
    where d: "\<not> UINT64_MAX - previous < delta" "type_legal legal (previous + delta)"
      and v: "scan_value (previous + delta) r1 = (Inr (p, flag), r')"
    by (auto simp: rd_fail_def elim!: rd_then_okE split: if_splits)
  from rd_postD [OF scan_value_type v] have type: "p_type p = previous + delta" by simp
  then show "type_legal legal (p_type p)" using d(2) by simp
  show "previous \<le> p_type p" unfolding type by (rule delta_sum_ge [OF d(1)])
qed

lemma scan_param_legal_iff:
  "scan_param previous legal r = (Inr (p, flag), r') \<longleftrightarrow>
   scan_param previous UINT64_MAX r = (Inr (p, flag), r') \<and> type_legal legal (p_type p)"
proof -
  have "scan_param previous legal r = scan_param previous UINT64_MAX r"
    if "\<And>delta r1. moq_buf_read_vi64 r = (Inr delta, r1) \<Longrightarrow> \<not> UINT64_MAX - previous < delta \<Longrightarrow> type_legal legal (previous + delta)"
    using that type_legal_all
    by (auto simp: scan_param_def rd_local_def rd_then_def split: prod.split sum.split)
  moreover have "type_legal legal (previous + delta)"
    if "scan_param previous l r = (Inr (p, flag), r')" "type_legal legal (p_type p)"
      "moq_buf_read_vi64 r = (Inr delta, r1)" for delta r1 l
  proof -
    have "scan_value (previous + delta) r1 = (Inr (p, flag), r')"
      using rd_local_okD [OF that(1) [unfolded scan_param_def]] that(3)
      by (auto simp: rd_fail_def elim!: rd_then_okE split: if_splits)
    from rd_postD [OF scan_value_type this] show ?thesis using that(2) by simp
  qed
  ultimately show ?thesis using scan_param_type(1) [of previous legal r p flag r'] by metis
qed

lemma scan_ok_legal_iff:
  "scan_ok previous legal r = (Inr p, r') \<longleftrightarrow> scan_ok previous UINT64_MAX r = (Inr p, r') \<and> type_legal legal (p_type p)"
  unfolding scan_ok_iff using scan_param_legal_iff by blast

lemma scan_all_Suc_iff:
  "scan_all legal (Suc n) previous r = (Inr ps, r') \<longleftrightarrow>
   (\<exists>p qs r1. ps = p # qs \<and> scan_ok previous legal r = (Inr p, r1) \<and> scan_all legal n (p_type p) r1 = (Inr qs, r'))"
  by (auto simp: rd_return_def rd_then_def split: prod.splits sum.splits)

lemma scan_all_legal_iff:
  "scan_all legal n previous r = (Inr ps, r') \<longleftrightarrow>
   scan_all UINT64_MAX n previous r = (Inr ps, r') \<and> (\<forall>p \<in> set ps. type_legal legal (p_type p))"
proof (induction n arbitrary: previous r ps)
  case 0
  then show ?case by (auto simp: rd_return_def)
next
  case (Suc n)
  show ?case
    unfolding scan_all_Suc_iff scan_ok_legal_iff [of previous legal] Suc by (auto simp del: scan_all.simps)
qed

lemma scan_all_sorted:
  "scan_all legal n previous r = (Inr ps, r') \<Longrightarrow> sorted (previous # map p_type ps)"
proof (induction n arbitrary: previous r ps)
  case 0
  then show ?case by (auto simp: rd_return_def)
next
  case (Suc n)
  then obtain p qs r1 where "ps = p # qs" "scan_ok previous legal r = (Inr p, r1)" "scan_all legal n (p_type p) r1 = (Inr qs, r')"
    unfolding scan_all_Suc_iff by blast
  then show ?case using Suc.IH [of "p_type p" r1 qs] scan_param_type(2) [of previous legal r p False r1]
    by (auto simp: scan_ok_iff)
qed

text \<open>On a valid cursor the public iterator makes the same walk.\<close>

lemma param_next_eq:
  "reader_valid r \<Longrightarrow> moq_d22_param_next previous r = (Inr p, r') \<longleftrightarrow> scan_ok previous UINT64_MAX r = (Inr p, r')"
  by (auto simp: moq_d22_param_next_def scan_ok_def rd_local_def split: prod.splits sum.splits)

lemma walk_params_iff:
  "reader_valid r \<Longrightarrow>
   walk_params n previous r = (Inr ps, r') \<longleftrightarrow> scan_all UINT64_MAX n previous r = (Inr ps, r')"
proof (induction n arbitrary: previous r ps)
  case 0
  then show ?case by simp
next
  case (Suc n)
  have valid: "reader_valid r1" if "scan_ok previous UINT64_MAX r = (Inr p, r1)" for p r1
    using rd_movesD [OF rd_moves_scan_ok Suc.prems that] by simp
  have "walk_params (Suc n) previous r = (Inr ps, r') \<longleftrightarrow>
      (\<exists>p qs r1. ps = p # qs \<and> moq_d22_param_next previous r = (Inr p, r1) \<and> walk_params n (p_type p) r1 = (Inr qs, r'))"
    by (auto simp: rd_return_def rd_then_def split: prod.splits sum.splits)
  then show ?case
    unfolding scan_all_Suc_iff param_next_eq [OF Suc.prems] using Suc.IH valid by blast
qed

section \<open>What a sequence must satisfy\<close>

definition range_total :: "moq_d22_param list \<Rightarrow> nat" where
  "range_total ps = (\<Sum>p \<leftarrow> filter (\<lambda>p. is_range (p_type p)) ps. unat (rf_count (p_ranges p)))"

definition range_key :: "moq_d22_param \<Rightarrow> u64 \<times> u8 \<times> u64" where
  "range_key p = (p_type p, rf_set_id (p_ranges p), rf_property_type (p_ranges p))"

definition range_keyed :: "moq_d22_param \<Rightarrow> bool" where
  "range_keyed p \<longleftrightarrow> is_range (p_type p) \<and> \<not> rf_clear (p_ranges p)"

definition fill_accepted :: "u64 \<Rightarrow> moq_bytes \<Rightarrow> bool" where
  "fill_accepted max_ranges fill \<longleftrightarrow> (\<exists>v. decode_fill_value fill max_ranges = Inr (v, False))"

text \<open>
  A sequence is acceptable when only tokens and range filters repeat, keyed range filters have different
  keys, the ranges stay within the limit (and there are no range filters when it is zero), and every
  nested fill is accepted.
\<close>

definition params_acceptable :: "u64 \<Rightarrow> moq_d22_param list \<Rightarrow> bool" where
  "params_acceptable max_ranges ps \<longleftrightarrow>
     distinct (filter (\<lambda>t. t \<noteq> 3 \<and> \<not> is_range t) (map p_type ps))
     \<and> distinct (map range_key (filter range_keyed ps))
     \<and> range_total ps \<le> unat max_ranges
     \<and> (\<forall>p \<in> set ps. is_range (p_type p) \<longrightarrow> max_ranges \<noteq> 0)
     \<and> (\<forall>p \<in> set ps. p_type p = 35 \<longrightarrow> fill_accepted max_ranges (p_fill p))"

text \<open>The result the decoder reports for an accepted sequence.\<close>

definition params_summary :: "u8 list \<Rightarrow> moq_d22_param list \<Rightarrow> moq_d22_params" where
  "params_summary bs ps = \<lparr>
     ps_encoded = Arr bs, ps_count = of_nat (length ps),
     ps_present = type_bits (filter (\<lambda>t. \<not> cluster_type t) (map p_type ps)),
     ps_range_count = of_nat (range_total ps),
     ps_has_hop_path = (MOQ_D22_HOP_PATH \<in> p_type ` set ps),
     ps_has_route_cost = (MOQ_D22_ROUTE_COST \<in> p_type ` set ps)\<rparr>"

text \<open>The condition under which the next parameter keeps a sequence acceptable.\<close>

definition params_step :: "u64 \<Rightarrow> moq_d22_param list \<Rightarrow> moq_d22_param \<Rightarrow> bool" where
  "params_step max_ranges ps p \<longleftrightarrow>
     (p_type p \<in> p_type ` set ps \<longrightarrow> p_type p = 3 \<or> is_range (p_type p))
     \<and> (is_range (p_type p) \<longrightarrow>
          max_ranges \<noteq> 0 \<and> range_total ps + unat (rf_count (p_ranges p)) \<le> unat max_ranges
          \<and> (rf_clear (p_ranges p) \<or> range_key p \<notin> range_key ` set (filter range_keyed ps)))
     \<and> (p_type p = 35 \<longrightarrow> fill_accepted max_ranges (p_fill p))"

lemma range_total_snoc: "range_total (ps @ [p]) = range_total ps + (if is_range (p_type p) then unat (rf_count (p_ranges p)) else 0)"
  by (simp add: range_total_def)

lemma range_total_mono: "range_total ps \<le> range_total (ps @ qs)"
  by (simp add: range_total_def)

lemma params_acceptable_Nil: "params_acceptable max_ranges []"
  by (simp add: params_acceptable_def range_total_def)

lemma params_acceptable_snoc:
  "params_acceptable max_ranges (ps @ [p]) \<longleftrightarrow> params_acceptable max_ranges ps \<and> params_step max_ranges ps p"
proof -
  have keys: "distinct (map range_key (filter range_keyed (ps @ [p]))) \<longleftrightarrow>
      distinct (map range_key (filter range_keyed ps))
      \<and> (is_range (p_type p) \<longrightarrow> rf_clear (p_ranges p) \<or> range_key p \<notin> range_key ` set (filter range_keyed ps))"
    by (auto simp: range_keyed_def)
  have types: "distinct (filter (\<lambda>t. t \<noteq> 3 \<and> \<not> is_range t) (map p_type (ps @ [p]))) \<longleftrightarrow>
      distinct (filter (\<lambda>t. t \<noteq> 3 \<and> \<not> is_range t) (map p_type ps))
      \<and> (p_type p \<in> p_type ` set ps \<longrightarrow> p_type p = 3 \<or> is_range (p_type p))"
    by auto
  have sums: "range_total (ps @ [p]) \<le> unat max_ranges \<longleftrightarrow> range_total ps \<le> unat max_ranges
      \<and> (is_range (p_type p) \<longrightarrow> range_total ps + unat (rf_count (p_ranges p)) \<le> unat max_ranges)"
    by (auto simp: range_total_snoc)
  show ?thesis unfolding params_acceptable_def params_step_def keys types sums by auto
qed

lemma params_acceptable_prefix: "params_acceptable max_ranges (ps @ qs) \<Longrightarrow> params_acceptable max_ranges ps"
  by (induction qs rule: rev_induct) (simp_all add: params_acceptable_snoc flip: append_assoc)

text \<open>The set of types seen.\<close>

lemma type_bits_bit: "bit (type_bits ts) n \<longleftrightarrow> n < 64 \<and> n \<in> unat ` set ts"
  by (induction ts) (auto simp: type_bits_def bit_or_iff bit_present)

lemma type_bits_test: "t < 64 \<Longrightarrow> type_bits ts AND MOQ_D22_PARAM_PRESENT t \<noteq> 0 \<longleftrightarrow> t \<in> set ts"
proof -
  assume "t < 64"
  then have "unat t < 64" by (simp add: word_less_nat_alt)
  then have "type_bits ts AND MOQ_D22_PARAM_PRESENT t \<noteq> 0 \<longleftrightarrow> bit (type_bits ts) (unat t)"
    by (auto simp: bit_eq_iff [of _ "0 :: u64"] bit_and_iff bit_present)
  also have "\<dots> \<longleftrightarrow> t \<in> set ts" using \<open>unat t < 64\<close> by (auto simp: type_bits_bit) (metis word_unat_eq_iff)
  finally show ?thesis .
qed

lemma type_bits_snoc: "type_bits (ts @ [t]) = type_bits ts OR MOQ_D22_PARAM_PRESENT t"
  by (rule bit_eqI) (auto simp: type_bits_bit bit_or_iff bit_present)

text \<open>The types a scope allows, read off the table.\<close>

lemma type_legal_allowed:
  "type_legal (allowed scope) t \<longleftrightarrow>
    (if cluster_type t then 63 \<in> set (allowed_types ! scope) else t < 63 \<and> t \<in> set (allowed_types ! scope))"
proof -
  have "t < 63 \<Longrightarrow> t < 64" by (simp add: word_less_nat_alt)
  then show ?thesis
    using type_bits_test [of 63 "allowed_types ! scope"] type_bits_test [of t "allowed_types ! scope"]
    by (auto simp: type_legal_def allowed_def not_le)
qed

lemma type_legal_max: "type_legal UINT64_MAX t \<longleftrightarrow> cluster_type t \<or> t < 63"
proof -
  have all: "UINT64_MAX = - 1" by simp
  have "MOQ_D22_PARAM_PRESENT u \<noteq> 0" if "u < 64" for u
    using that by (auto simp: word_less_nat_alt bit_eq_iff bit_present)
  moreover have "t < 63 \<Longrightarrow> t < 64" by (simp add: word_less_nat_alt)
  ultimately show ?thesis unfolding type_legal_def all by (auto simp: not_le)
qed

lemma scan_legal_type:
  assumes "type_legal legal t"
  shows "t = MOQ_D22_HOP_PATH \<or> t = MOQ_D22_ROUTE_COST \<or> \<not> cluster_type t \<and> t < 64"
  using assms by (auto simp: type_legal_def cluster_type_def word_le_nat_alt word_less_nat_alt split: if_splits)

lemma params_repeat_iff:
  assumes "type_legal legal (p_type p)"
  shows "params_repeat (params_summary bs ps) p \<longleftrightarrow> p_type p \<in> p_type ` set ps"
proof (cases "cluster_type (p_type p)")
  case True
  then show ?thesis
    by (auto simp: params_repeat_def params_summary_def cluster_type_def MOQ_D22_HOP_PATH_def MOQ_D22_ROUTE_COST_def)
next
  case False
  then have "p_type p < 64" using scan_legal_type [OF assms] by (auto simp: cluster_type_def)
  then show ?thesis
    using False by (auto simp: params_repeat_def params_summary_def cluster_type_def type_bits_test)
qed

lemma params_summary_snoc:
  assumes "range_total (ps @ [p]) < 2 ^ 64"
  shows "(params_mark (params_summary bs ps) p)\<lparr>ps_encoded := Arr cs,
      ps_range_count := (if is_range (p_type p) then ps_range_count (params_summary bs ps) + rf_count (p_ranges p)
                         else ps_range_count (params_summary bs ps)),
      ps_count := ps_count (params_summary bs ps) + 1\<rparr> = params_summary cs (ps @ [p])"
  using assms
  by (auto simp: params_mark_def params_summary_def cluster_type_def range_total_snoc type_bits_snoc
      MOQ_D22_HOP_PATH_def MOQ_D22_ROUTE_COST_def add.commute)

text \<open>\<open>check_range_key\<close> compares with the earlier filters of the same type.\<close>

lemma check_range_loop_eq:
  assumes "scan_all UINT64_MAX n previous r = (Inr ps, r')" and "moq_buf_reader_remaining r' = 0"
  shows "check_range_loop p r previous =
    (if \<exists>q \<in> set ps. p_type q = p_type p \<and> \<not> rf_clear (p_ranges q) \<and> \<not> rf_clear (p_ranges p)
          \<and> range_key q = range_key p then MOQ_D22_ERR_INVALID_FILTER else MOQ_OK)"
  using assms(1)
proof (induction n arbitrary: previous r ps)
  case 0
  then show ?case using assms(2) by (auto simp: rd_return_def check_range_loop.simps)
next
  case (Suc n)
  then obtain q qs r1 where ps: "ps = q # qs" and q: "scan_param previous UINT64_MAX r = (Inr (q, False), r1)"
      and qs: "scan_all UINT64_MAX n (p_type q) r1 = (Inr qs, r')"
    unfolding scan_all_Suc_iff scan_ok_iff by blast
  have "moq_buf_reader_remaining r \<noteq> 0" using scan_param_facts [OF q] by auto
  then show ?case
    using Suc.IH [OF qs] q ps by (auto simp: check_range_loop.simps [of _ r] Let_def range_key_def)
qed

lemma check_range_key_eq:
  assumes "reads (scan_all UINT64_MAX n 0) bs ps" and "\<not> rf_clear (p_ranges p)" and "is_range (p_type p)"
  shows "check_range_key (Arr bs) p =
    (if range_key p \<in> range_key ` set (filter range_keyed ps) then MOQ_D22_ERR_INVALID_FILTER else MOQ_OK)"
proof -
  have scan: "scan_all UINT64_MAX n 0 (moq_buf_reader_init (Arr bs)) = (Inr ps, \<lparr>rd_data = Arr bs, rd_pos = length bs\<rparr>)"
    using reads_all [OF assms(1)] by (simp add: moq_buf_reader_init_def)
  have "(\<exists>q \<in> set ps. p_type q = p_type p \<and> \<not> rf_clear (p_ranges q) \<and> \<not> rf_clear (p_ranges p) \<and> range_key q = range_key p)
      \<longleftrightarrow> range_key p \<in> range_key ` set (filter range_keyed ps)"
    using assms(2,3) by (auto simp: range_keyed_def range_key_def image_iff)
  then show ?thesis
    unfolding check_range_key_def check_range_loop_eq [OF scan, simplified moq_buf_reader_remaining_def, simplified] by simp
qed

section \<open>The decoding loop\<close>

text \<open>What one parameter does to the flag \<open>invalid\<close>, or the error it raises.\<close>

definition seq_verdict :: "u64 \<Rightarrow> moq_d22_params \<Rightarrow> moq_d22_param \<Rightarrow> bool \<Rightarrow> moq_result + bool" where
  "seq_verdict max_ranges v p invalid =
     (if params_repeat v p \<and> p_type p \<noteq> 3 \<and> \<not> is_range (p_type p) then Inl MOQ_ERR_PROTO
      else if is_range (p_type p) then params_range max_ranges v p invalid
      else if p_type p = 35 then
        (case decode_fill_value (p_fill p) max_ranges of
           Inl e \<Rightarrow> Inl e
         | Inr (fill, fill_invalid) \<Rightarrow> Inr (invalid \<or> fill_invalid))
      else Inr invalid)"

lemma sequence_loop_unfold:
  "sequence_loop r count scope max_ranges c previous invalid v =
     (if \<not> ps_count v < count then Inr (v, invalid, c)
      else case scan_param previous (allowed scope) c of
        (Inl e, _) \<Rightarrow> Inl e
      | (Inr (p, flag), c1) \<Rightarrow>
          (case seq_verdict max_ranges v p (invalid \<or> flag) of
             Inl e \<Rightarrow> Inl e
           | Inr invalid1 \<Rightarrow>
               if 65535 < rd_pos c1 - rd_pos r then Inl MOQ_ERR_PROTO
               else sequence_loop r count scope max_ranges c1 (p_type p) invalid1
                 ((params_mark v p)\<lparr>
                    ps_encoded := ptake (rd_pos c1 - rd_pos r) (moq_buf_reader_ptr r),
                    ps_range_count := (if is_range (p_type p) then ps_range_count v + rf_count (p_ranges p)
                                       else ps_range_count v),
                    ps_count := ps_count v + 1\<rparr>)))"
  by (subst sequence_loop.simps)
    (auto simp: seq_verdict_def split: prod.split sum.split)

lemma seq_verdict_sticky: "seq_verdict max_ranges v p True = Inr invalid \<Longrightarrow> invalid"
  by (auto simp: seq_verdict_def params_range_def Let_def split: if_splits sum.splits)

lemma sequence_loop_sticky:
  "sequence_loop r count scope max_ranges c previous True v = Inr (v', invalid, c') \<Longrightarrow> invalid"
proof (induction "moq_buf_reader_remaining c" arbitrary: c previous v rule: less_induct)
  case less
  show ?case
  proof (cases "ps_count v < count")
    case False
    then show ?thesis using less.prems by (simp add: sequence_loop_unfold)
  next
    case True
    with less.prems obtain p flag c1 invalid1 v1 where p: "scan_param previous (allowed scope) c = (Inr (p, flag), c1)"
        and verdict: "seq_verdict max_ranges v p True = Inr invalid1"
        and tail: "sequence_loop r count scope max_ranges c1 (p_type p) invalid1 v1 = Inr (v', invalid, c')"
      by (subst (asm) sequence_loop_unfold) (auto split: prod.splits sum.splits if_splits)
    have "moq_buf_reader_remaining c1 < moq_buf_reader_remaining c"
      using scan_param_step [OF p] remaining_less by blast
    moreover have "invalid1 = True" using seq_verdict_sticky [OF verdict] by simp
    ultimately show ?thesis using less.hyps tail by blast
  qed
qed

lemma seq_verdict_ok:
  assumes reads: "reads (scan_all UINT64_MAX n 0) bs ps" and legal: "type_legal legal (p_type p)"
    and total: "range_total ps \<le> unat max_ranges"
  shows "seq_verdict max_ranges (params_summary bs ps) p False = Inr False \<longleftrightarrow> params_step max_ranges ps p"
proof -
  let ?v = "params_summary bs ps"
  have repeat: "params_repeat ?v p \<longleftrightarrow> p_type p \<in> p_type ` set ps" by (rule params_repeat_iff [OF legal])
  have count: "unat (ps_range_count ?v) = range_total ps"
    using total unat64_le [of max_ranges] by (simp add: params_summary_def unat_of_nat_u64)
  show ?thesis
  proof (cases "is_range (p_type p)")
    case False
    then show ?thesis
      by (auto simp: seq_verdict_def repeat params_step_def fill_accepted_def split: sum.splits)
  next
    case True
    have fresh: "p_type p \<notin> p_type ` set ps \<Longrightarrow> range_key p \<notin> range_key ` set (filter range_keyed ps)"
      by (auto simp: range_key_def)
    have fits: "max_ranges < ps_range_count ?v \<or> max_ranges - ps_range_count ?v < rf_count (p_ranges p) \<longleftrightarrow>
        \<not> range_total ps + unat (rf_count (p_ranges p)) \<le> unat max_ranges"
      using total by (auto simp: word_less_nat_alt count unat_sub word_le_nat_alt)
    have enc: "ps_encoded ?v = Arr bs" by (simp add: params_summary_def)
    have "p_type p \<noteq> 35" using True by (auto simp: is_range_def)
    then show ?thesis
      using True fresh check_range_key_eq [OF reads _ True]
      by (auto simp: seq_verdict_def params_range_def Let_def params_step_def fits repeat enc)
  qed
qed

text \<open>The state of the loop after the parameters \<open>ps\<close>, encoded as \<open>bs\<close>.\<close>

definition seq_state :: "u64 \<Rightarrow> moq_buf_reader \<Rightarrow> u8 list \<Rightarrow> moq_d22_param list \<Rightarrow> moq_buf_reader \<Rightarrow> u64 \<Rightarrow> bool" where
  "seq_state max_ranges r bs ps c previous \<longleftrightarrow>
     rd_live r \<and> (\<exists>rest. rd_rest r = bs @ rest) \<and> c = r\<lparr>rd_pos := rd_pos r + length bs\<rparr>
     \<and> reads (scan_all UINT64_MAX (length ps) 0) bs ps \<and> previous = last (0 # map p_type ps)
     \<and> params_acceptable max_ranges ps \<and> length bs \<le> 65535"

lemma seq_state_start: "rd_live r \<Longrightarrow> seq_state max_ranges r [] [] r 0"
  by (simp add: seq_state_def params_acceptable_Nil reads_rd_return)

lemma seq_state_step:
  assumes st: "seq_state max_ranges r bs ps c previous"
    and scan: "scan_param previous legal c = (Inr (p, False), c1)"
  obtains ds where "c1 = r\<lparr>rd_pos := rd_pos r + length (bs @ ds)\<rparr>" "\<exists>rest. rd_rest r = (bs @ ds) @ rest"
    "reads (scan_all UINT64_MAX (length (ps @ [p])) 0) (bs @ ds) (ps @ [p])"
proof -
  from st obtain rest where live: "rd_live r" and rest: "rd_rest r = bs @ rest"
      and c: "c = r\<lparr>rd_pos := rd_pos r + length bs\<rparr>" and reads: "reads (scan_all UINT64_MAX (length ps) 0) bs ps"
      and prev: "previous = last (0 # map p_type ps)"
    by (auto simp: seq_state_def)
  have c_live: "rd_live c" "rd_rest c = rest" using rd_live_advance [OF live rest] c by auto
  have "scan_ok previous UINT64_MAX c = (Inr p, c1)"
    using scan scan_param_legal_iff unfolding scan_ok_iff by blast
  with rd_exact_scan_ok c_live(1) obtain ds rest1
    where ds: "rd_rest c = ds @ rest1" "c1 = c\<lparr>rd_pos := rd_pos c + length ds\<rparr>" "reads (scan_ok previous UINT64_MAX) ds p"
    by (rule rd_exactE)
  have "reads (rd_then (scan_ok previous UINT64_MAX) (\<lambda>q. rd_return (ps @ [q]))) ds (ps @ [p])"
    by (rule reads_then_return [OF ds(3)])
  then have "reads (scan_all UINT64_MAX (Suc (length ps)) 0) (bs @ ds) (ps @ [p])"
    unfolding scan_all_snoc using prev by (intro reads_then [OF reads]) simp
  moreover have "rd_rest r = (bs @ ds) @ rest1" using ds(1) rest c_live(2) by simp
  moreover have "c1 = r\<lparr>rd_pos := rd_pos r + length (bs @ ds)\<rparr>" using c ds(2) by simp
  ultimately show thesis using that by (metis length_append_singleton)
qed

lemma scan_all_pos: "reader_valid c \<Longrightarrow> scan_all legal n previous c = (Inr qs, c') \<Longrightarrow> rd_pos c \<le> rd_pos c'"
proof (induction n arbitrary: previous c qs)
  case 0
  then show ?case by (simp add: rd_return_def)
next
  case (Suc n)
  from Suc.prems(2) obtain p qs1 r1 where "scan_ok previous legal c = (Inr p, r1)"
      "scan_all legal n (p_type p) r1 = (Inr qs1, c')"
    unfolding scan_all_Suc_iff by blast
  with rd_movesD [OF rd_moves_scan_ok Suc.prems(1)] Suc.IH show ?case using le_trans by blast
qed

text \<open>The accepting runs of the loop from such a state.\<close>

definition seq_run :: "u64 \<Rightarrow> moq_d22_param_scope \<Rightarrow> moq_buf_reader \<Rightarrow> nat \<Rightarrow> moq_d22_param list \<Rightarrow> moq_buf_reader
    \<Rightarrow> u64 \<Rightarrow> moq_d22_params \<Rightarrow> moq_buf_reader \<Rightarrow> bool" where
  "seq_run max_ranges scope r n ps c previous v' c' \<longleftrightarrow>
     (\<exists>qs cs rest. scan_all (allowed scope) n previous c = (Inr qs, c')
        \<and> rd_rest r = cs @ rest \<and> c' = r\<lparr>rd_pos := rd_pos r + length cs\<rparr> \<and> length cs \<le> 65535
        \<and> params_acceptable max_ranges (ps @ qs) \<and> v' = params_summary cs (ps @ qs))"

lemma seq_run_0:
  assumes "seq_state max_ranges r bs ps c previous"
  shows "seq_run max_ranges scope r 0 ps c previous v' c' \<longleftrightarrow> v' = params_summary bs ps \<and> c' = c"
proof
  assume "seq_run max_ranges scope r 0 ps c previous v' c'"
  then obtain cs rest where cs: "rd_rest r = cs @ rest" "c' = r\<lparr>rd_pos := rd_pos r + length cs\<rparr>" "c' = c" "v' = params_summary cs ps"
    by (auto simp: seq_run_def rd_return_def)
  have bs: "c = r\<lparr>rd_pos := rd_pos r + length bs\<rparr>" "\<exists>rest. rd_rest r = bs @ rest"
    using assms unfolding seq_state_def by blast+
  have "rd_pos c' = rd_pos r + length cs" "rd_pos c = rd_pos r + length bs" by (simp_all add: cs(2) bs(1))
  then have "length cs = length bs" using cs(3) by simp
  then have "cs = bs" using cs(1) bs(2) by (metis append_eq_append_conv)
  then show "v' = params_summary bs ps \<and> c' = c" using cs by simp
next
  assume "v' = params_summary bs ps \<and> c' = c"
  then show "seq_run max_ranges scope r 0 ps c previous v' c'"
    using assms by (auto simp: seq_run_def seq_state_def rd_return_def)
qed

lemma seq_run_Suc:
  "seq_run max_ranges scope r (Suc n) ps c previous v' c' \<longleftrightarrow>
   (\<exists>p c1. scan_param previous (allowed scope) c = (Inr (p, False), c1) \<and> params_step max_ranges ps p
      \<and> params_acceptable max_ranges ps \<and> seq_run max_ranges scope r n (ps @ [p]) c1 (p_type p) v' c')"
proof
  assume "seq_run max_ranges scope r (Suc n) ps c previous v' c'"
  then obtain p qs c1 cs rest where run: "scan_param previous (allowed scope) c = (Inr (p, False), c1)"
      "scan_all (allowed scope) n (p_type p) c1 = (Inr qs, c')"
      and cs: "rd_rest r = cs @ rest" "c' = r\<lparr>rd_pos := rd_pos r + length cs\<rparr>" "length cs \<le> 65535"
      and acc: "params_acceptable max_ranges ((ps @ [p]) @ qs)" and v': "v' = params_summary cs ((ps @ [p]) @ qs)"
    unfolding seq_run_def scan_all_Suc_iff scan_ok_iff by auto
  from params_acceptable_prefix [OF acc] have "params_step max_ranges ps p" "params_acceptable max_ranges ps"
    by (simp_all add: params_acceptable_snoc)
  then show "\<exists>p c1. scan_param previous (allowed scope) c = (Inr (p, False), c1) \<and> params_step max_ranges ps p
      \<and> params_acceptable max_ranges ps \<and> seq_run max_ranges scope r n (ps @ [p]) c1 (p_type p) v' c'"
    using run cs acc v' unfolding seq_run_def by blast
next
  assume "\<exists>p c1. scan_param previous (allowed scope) c = (Inr (p, False), c1) \<and> params_step max_ranges ps p
      \<and> params_acceptable max_ranges ps \<and> seq_run max_ranges scope r n (ps @ [p]) c1 (p_type p) v' c'"
  then show "seq_run max_ranges scope r (Suc n) ps c previous v' c'"
    unfolding seq_run_def scan_all_Suc_iff scan_ok_iff append_assoc append_Cons append_Nil by blast
qed

lemma seq_run_long:
  assumes "seq_run max_ranges scope r n ps c1 previous v' c'" and "reader_valid c1"
  shows "rd_pos c1 - rd_pos r \<le> 65535"
  using assms scan_all_pos unfolding seq_run_def by (fastforce dest!: scan_all_pos)

lemma seq_state_extend:
  assumes "seq_state max_ranges r bs ps c previous"
    and "c1 = r\<lparr>rd_pos := rd_pos r + length cs\<rparr>" and "\<exists>rest. rd_rest r = cs @ rest"
    and "reads (scan_all UINT64_MAX (length (ps @ [p])) 0) cs (ps @ [p])"
    and "params_step max_ranges ps p" and "length cs \<le> 65535"
  shows "seq_state max_ranges r cs (ps @ [p]) c1 (p_type p)"
  using assms by (simp add: seq_state_def params_acceptable_snoc)

lemma acceptable_total: "params_acceptable max_ranges ps \<Longrightarrow> range_total ps < 2 ^ 64"
  using unat64_le [of max_ranges] by (simp add: params_acceptable_def)

text \<open>One round of an accepting run.\<close>

lemma sequence_loop_round:
  assumes "ps_count v < count" and "scan_param previous (allowed scope) c = (Inr (p, flag), c1)"
  shows "sequence_loop r count scope max_ranges c previous False v = Inr (v', False, c') \<longleftrightarrow>
    seq_verdict max_ranges v p flag = Inr False \<and> rd_pos c1 - rd_pos r \<le> 65535
    \<and> sequence_loop r count scope max_ranges c1 (p_type p) False
        ((params_mark v p)\<lparr>
           ps_encoded := ptake (rd_pos c1 - rd_pos r) (moq_buf_reader_ptr r),
           ps_range_count := (if is_range (p_type p) then ps_range_count v + rf_count (p_ranges p)
                              else ps_range_count v),
           ps_count := ps_count v + 1\<rparr>) = Inr (v', False, c')"
proof (cases "seq_verdict max_ranges v p flag")
  case (Inl e)
  then show ?thesis using assms by (subst sequence_loop_unfold) simp
next
  case (Inr invalid1)
  then show ?thesis
    using assms sequence_loop_sticky [of r count scope max_ranges c1 "p_type p" _ v' False c']
    by (cases invalid1; subst sequence_loop_unfold) auto
qed

lemma sequence_loop_extend:
  assumes st: "seq_state max_ranges r bs ps c previous" and more: "ps_count (params_summary bs ps) < count"
    and scan: "scan_param previous (allowed scope) c = (Inr (p, False), c1)"
  obtains cs where "rd_pos c1 - rd_pos r = length cs"
    and "sequence_loop r count scope max_ranges c previous False (params_summary bs ps) = Inr (v', False, c') \<longleftrightarrow>
      params_step max_ranges ps p \<and> length cs \<le> 65535
      \<and> sequence_loop r count scope max_ranges c1 (p_type p) False (params_summary cs (ps @ [p])) = Inr (v', False, c')"
    and "params_step max_ranges ps p \<Longrightarrow> length cs \<le> 65535 \<Longrightarrow> seq_state max_ranges r cs (ps @ [p]) c1 (p_type p)"
proof -
  from seq_state_step [OF st scan] obtain ds rest where c1: "c1 = r\<lparr>rd_pos := rd_pos r + length (bs @ ds)\<rparr>"
      and rest: "rd_rest r = (bs @ ds) @ rest"
      and reads: "reads (scan_all UINT64_MAX (length (ps @ [p])) 0) (bs @ ds) (ps @ [p])"
    by blast
  have parts: "reads (scan_all UINT64_MAX (length ps) 0) bs ps" "rd_live r" "params_acceptable max_ranges ps"
    using st by (simp_all add: seq_state_def)
  have len: "rd_pos c1 - rd_pos r = length (bs @ ds)" using c1 by simp
  have verdict: "seq_verdict max_ranges (params_summary bs ps) p False = Inr False \<longleftrightarrow> params_step max_ranges ps p"
    using seq_verdict_ok [OF parts(1) scan_param_type(1) [OF scan]] parts(3) by (simp add: params_acceptable_def)
  have "params_step max_ranges ps p \<Longrightarrow> range_total (ps @ [p]) < 2 ^ 64"
    by (rule acceptable_total [of max_ranges]) (simp add: params_acceptable_snoc parts(3))
  from params_summary_snoc [OF this, of bs "bs @ ds"]
  have "sequence_loop r count scope max_ranges c previous False (params_summary bs ps) = Inr (v', False, c') \<longleftrightarrow>
      params_step max_ranges ps p \<and> length (bs @ ds) \<le> 65535
      \<and> sequence_loop r count scope max_ranges c1 (p_type p) False (params_summary (bs @ ds) (ps @ [p])) = Inr (v', False, c')"
    unfolding sequence_loop_round [OF more scan] verdict len reader_ptr_take [OF parts(2) rest] by auto
  moreover have "\<exists>rest. rd_rest r = (bs @ ds) @ rest" using rest by blast
  note seq_state_extend [OF st c1 this reads]
  ultimately show thesis using that [OF len] by blast
qed

lemma scan_outcome:
  fixes x :: "(moq_result + 'a \<times> bool) \<times> 'r"
  obtains e c1 where "x = (Inl e, c1)" | p c1 where "x = (Inr (p, True), c1)" | p c1 where "x = (Inr (p, False), c1)"
proof (cases x)
  case (Pair y c1)
  then show thesis
  proof (cases y)
    case (Inr z)
    then show thesis using that(2,3) Pair by (cases z; cases "snd z") auto
  qed (use that(1) in simp)
qed

text \<open>The loop accepts exactly these runs.\<close>

lemma sequence_loop_iff:
  assumes "seq_state max_ranges r bs ps c previous" and "length ps + n = unat count"
  shows "sequence_loop r count scope max_ranges c previous False (params_summary bs ps) = Inr (v', False, c') \<longleftrightarrow>
    seq_run max_ranges scope r n ps c previous v' c'"
  using assms
proof (induction n arbitrary: bs ps c previous)
  case 0
  then have "ps_count (params_summary bs ps) = count" by (simp add: params_summary_def)
  then show ?case using seq_run_0 [OF 0(1)] by (auto simp: sequence_loop_unfold)
next
  case (Suc n)
  have "length ps < unat count" "unat count < 2 ^ 64" using Suc.prems(2) unat64_le [of count] by auto
  then have more: "ps_count (params_summary bs ps) < count"
    by (simp add: params_summary_def word_less_nat_alt unat_of_nat_u64)
  have acc: "params_acceptable max_ranges ps" using Suc.prems(1) by (simp add: seq_state_def)
  consider e c1 where "scan_param previous (allowed scope) c = (Inl e, c1)"
    | p c1 where "scan_param previous (allowed scope) c = (Inr (p, True), c1)"
    | p c1 where "scan_param previous (allowed scope) c = (Inr (p, False), c1)"
    by (rule scan_outcome)
  then show ?case
  proof cases
    case 1
    then show ?thesis using more by (simp add: seq_run_Suc sequence_loop_unfold)
  next
    case 2
    then show ?thesis using sequence_loop_round [OF more 2] seq_verdict_sticky by (auto simp: seq_run_Suc)
  next
    case (3 p c1)
    have run: "seq_run max_ranges scope r (Suc n) ps c previous v' c' \<longleftrightarrow>
        params_step max_ranges ps p \<and> seq_run max_ranges scope r n (ps @ [p]) c1 (p_type p) v' c'"
      using 3 acc by (auto simp: seq_run_Suc)
    from sequence_loop_extend [OF Suc.prems(1) more 3] obtain cs where len: "rd_pos c1 - rd_pos r = length cs"
        and loop: "sequence_loop r count scope max_ranges c previous False (params_summary bs ps) = Inr (v', False, c') \<longleftrightarrow>
          params_step max_ranges ps p \<and> length cs \<le> 65535
          \<and> sequence_loop r count scope max_ranges c1 (p_type p) False (params_summary cs (ps @ [p])) = Inr (v', False, c')"
        and st: "params_step max_ranges ps p \<Longrightarrow> length cs \<le> 65535 \<Longrightarrow> seq_state max_ranges r cs (ps @ [p]) c1 (p_type p)"
      by blast
    have "reader_valid c1" using scan_param_step [OF 3] by simp
    then show ?thesis
      using Suc.IH [OF st] Suc.prems(2) seq_run_long [of max_ranges scope r n "ps @ [p]" c1] len run loop by auto
  qed
qed

lemma exact_at:
  assumes "rd_exact m" and "rd_live r" and "rd_rest r = bs @ rest"
  shows "m r = (Inr a, r\<lparr>rd_pos := rd_pos r + length bs\<rparr>) \<longleftrightarrow> reads m bs a"
proof
  assume run: "m r = (Inr a, r\<lparr>rd_pos := rd_pos r + length bs\<rparr>)"
  obtain cs rest' where cs: "rd_rest r = cs @ rest'" and pos: "r\<lparr>rd_pos := rd_pos r + length bs\<rparr> = r\<lparr>rd_pos := rd_pos r + length cs\<rparr>"
      and reads: "reads m cs a"
    using rd_exactE [OF assms(1,2) run] by blast
  from arg_cong [OF pos, of rd_pos] have "length bs = length cs" by simp
  then have "bs = cs" using cs assms(3) by simp
  then show "reads m bs a" using reads by simp
qed (rule readsD [OF _ assms(2,3)])

lemma exact_all:
  assumes "rd_exact m"
  shows "m (moq_buf_reader_init (Arr bs)) = (Inr a, \<lparr>rd_data = Arr bs, rd_pos = length bs\<rparr>) \<longleftrightarrow> reads m bs a"
  using exact_at [OF assms, of "moq_buf_reader_init (Arr bs)" bs "[]"]
  by (simp add: moq_buf_reader_init_def rd_live_def rd_rest_def)

lemma decode_params_ok_iff:
  assumes "rd_live r"
  shows "moq_d22_decode_params count scope max_ranges r = (Inr v, r') \<longleftrightarrow>
    scope_valid scope \<and> seq_run max_ranges scope r (unat count) [] r 0 v r'"
proof -
  have empty: "params_zero (ptake 0 (moq_buf_reader_ptr r)) = params_summary [] []"
    using assms reader_ptr_take [OF assms, of "[]"]
    by (simp add: params_zero_def params_summary_def type_bits_def range_total_def)
  have "moq_d22_decode_params count scope max_ranges r = (Inr v, r') \<longleftrightarrow>
      scope_valid scope \<and> sequence_loop r count scope max_ranges r 0 False (params_summary [] []) = Inr (v, False, r')"
    using assms
    by (auto simp: moq_d22_decode_params_def moq_d22_scan_params_def decode_sequence_def empty rd_local_def rd_then_def
        rd_fail_def rd_return_def split: sum.splits prod.splits if_splits)
  then show ?thesis using sequence_loop_iff [OF seq_state_start [OF assms], of "unat count" count] by simp
qed

text \<open>Two parameters used in the examples: a delivery timeout and a forward flag, for a SUBSCRIBE message.\<close>

definition demo_params :: "moq_d22_param list" where
  "demo_params = [(param_zero 2)\<lparr>p_integer := 7\<rparr>, (param_zero 16)\<lparr>p_integer := 1\<rparr>]"

lemma demo_walk:
  "walk_params 2 0 (moq_buf_reader_init (Arr [2, 7, 14, 1])) =
   (Inr demo_params, \<lparr>rd_data = Arr [2, 7, 14, 1], rd_pos = length [2, 7, 14, 1 :: u8]\<rparr>)"
proof -
  let ?bs = "[2, 7, 14, 1] :: u8 list"
  have reads: "moq_buf_read_vi64 \<lparr>rd_data = Arr ?bs, rd_pos = 0\<rparr> = (Inr 2, \<lparr>rd_data = Arr ?bs, rd_pos = Suc 0\<rparr>)"
    "moq_buf_read_vi64 \<lparr>rd_data = Arr ?bs, rd_pos = Suc 0\<rparr> = (Inr 7, \<lparr>rd_data = Arr ?bs, rd_pos = 2\<rparr>)"
    "moq_buf_read_vi64 \<lparr>rd_data = Arr ?bs, rd_pos = 2\<rparr> = (Inr 14, \<lparr>rd_data = Arr ?bs, rd_pos = 3\<rparr>)"
    "read_byte \<lparr>rd_data = Arr ?bs, rd_pos = 3\<rparr> = (Inr 1, \<lparr>rd_data = Arr ?bs, rd_pos = 4\<rparr>)"
    by code_simp+
  note evals = reads rd_then_def rd_local_def rd_return_def moq_d22_param_next_def reader_valid_def scan_param_def
    type_legal_max scan_value_def integer_type_def byte_type_def MOQ_D22_HOP_PATH_def MOQ_D22_ROUTE_COST_def
  have "moq_d22_param_next 0 \<lparr>rd_data = Arr ?bs, rd_pos = 0\<rparr> = (Inr (demo_params ! 0), \<lparr>rd_data = Arr ?bs, rd_pos = 2\<rparr>)"
    and "moq_d22_param_next 2 \<lparr>rd_data = Arr ?bs, rd_pos = 2\<rparr> = (Inr (demo_params ! 1), \<lparr>rd_data = Arr ?bs, rd_pos = 4\<rparr>)"
    by (simp_all add: evals demo_params_def)
  moreover have two: "(2 :: nat) = Suc (Suc 0)" by simp
  ultimately show ?thesis
    unfolding two walk_params.simps
    by (simp add: moq_buf_reader_init_def rd_then_def rd_return_def param_zero_def demo_params_def)
qed

lemma demo_ok: "\<forall>p \<in> set demo_params. type_legal (allowed 0) (p_type p)" "params_acceptable 4 demo_params" "scope_valid 0"
  by (simp_all add: type_legal_allowed scope_valid_def cluster_type_def MOQ_D22_HOP_PATH_def MOQ_D22_ROUTE_COST_def
      allowed_types_def param_zero_def params_acceptable_def range_total_def is_range_def range_keyed_def demo_params_def)

text \<open>C6: \<open>moq_d22_decode_params\<close> accepts exactly this: a valid scope, and a next stretch of at most 65535 bytes
  that the public iterator \<open>moq_d22_param_next\<close> reads to its end as the requested number of parameters, each
  of a type the scope allows, of which only tokens and range filters repeat, keyed range filters have
  different keys, the ranges stay within the limit and the nested fills are accepted. It then reports the
  span, the number, the set of types present and the number of ranges of just these parameters, and moves
  the cursor behind them.\<close>

theorem decode_params_accepts_iff:
  assumes "rd_live r"
  shows "moq_d22_decode_params count scope max_ranges r = (Inr v, r') \<longleftrightarrow>
    scope_valid scope \<and>
    (\<exists>bs rest ps. rd_rest r = bs @ rest \<and> r' = r\<lparr>rd_pos := rd_pos r + length bs\<rparr> \<and> length bs \<le> 65535
       \<and> walk_params (unat count) 0 (moq_buf_reader_init (Arr bs)) = (Inr ps, \<lparr>rd_data = Arr bs, rd_pos = length bs\<rparr>)
       \<and> (\<forall>p \<in> set ps. type_legal (allowed scope) (p_type p)) \<and> params_acceptable max_ranges ps
       \<and> v = params_summary bs ps)"
proof -
  have "walk_params (unat count) 0 (moq_buf_reader_init (Arr bs)) = (Inr ps, \<lparr>rd_data = Arr bs, rd_pos = length bs\<rparr>)
        \<and> (\<forall>p \<in> set ps. type_legal (allowed scope) (p_type p)) \<longleftrightarrow>
      scan_all (allowed scope) (unat count) 0 r = (Inr ps, r\<lparr>rd_pos := rd_pos r + length bs\<rparr>)"
    if "rd_rest r = bs @ rest" for bs rest ps
  proof -
    have valid: "reader_valid (moq_buf_reader_init (Arr bs))" by (simp add: reader_valid_def moq_buf_reader_init_def)
    show ?thesis
      unfolding walk_params_iff [OF valid] exact_all [OF rd_exact_scan_all]
        exact_at [OF rd_exact_scan_all assms that, symmetric]
      by (rule scan_all_legal_iff [symmetric])
  qed
  then show ?thesis unfolding decode_params_ok_iff [OF assms] seq_run_def append_Nil by metis
qed

theorem decode_params_accepts_iff_witness:
  "\<exists>v. moq_d22_decode_params 2 0 4 \<lparr>rd_data = Arr [2, 7, 14, 1, 99], rd_pos = 0\<rparr>
     = (Inr v, \<lparr>rd_data = Arr [2, 7, 14, 1, 99], rd_pos = 4\<rparr>)
   \<and> ps_count v = 2 \<and> ps_encoded v = Arr [2, 7, 14, 1]"
proof -
  let ?bs = "[2, 7, 14, 1] :: u8 list" and ?r = "\<lparr>rd_data = Arr [2, 7, 14, 1, 99], rd_pos = 0\<rparr>"
  have "rd_live ?r" "rd_rest ?r = ?bs @ [99]" "length ?bs \<le> 65535"
      "\<lparr>rd_data = Arr [2, 7, 14, 1, 99], rd_pos = 4\<rparr> = ?r\<lparr>rd_pos := rd_pos ?r + length ?bs\<rparr>" "unat (2 :: u64) = 2"
    by (simp_all add: rd_live_def rd_rest_def)
  with demo_walk demo_ok have "moq_d22_decode_params 2 0 4 ?r =
      (Inr (params_summary ?bs demo_params), \<lparr>rd_data = Arr [2, 7, 14, 1, 99], rd_pos = 4\<rparr>)"
    by (intro decode_params_accepts_iff [THEN iffD2] conjI exI [of _ ?bs] exI [of _ "[99]"] exI [of _ demo_params])
      (simp_all only:)
  then show ?thesis by (intro exI [of _ "params_summary ?bs demo_params"]) (simp add: params_summary_def demo_params_def)
qed

end
