(* ===== verification/ParamsRound.thy ===== *)
theory ParamsRound
  imports ParamsSpec
begin

text \<open>
  The encoders of \<open>ParamsD22\<close> against its decoders: the bytes each parameter is written as, and the
  round trips of parameter sequences, namespaces and range filters.
\<close>

unbundle bit_operations_syntax

section \<open>What the encoder writes\<close>

definition span_bytes :: "u8 list \<Rightarrow> u8 list" where
  "span_bytes bs = vi64_enc (of_nat (length bs)) @ bs"

definition bytes_given :: "moq_bytes \<Rightarrow> bool" where
  "bytes_given b \<longleftrightarrow> \<not> (is_null b \<and> plen b \<noteq> 0)"

lemma bytes_given_len: "bytes_given b \<Longrightarrow> length (elems b) = plen b"
  by (cases b) (auto simp: bytes_given_def)

lemma writes_raw: "bytes_given b \<Longrightarrow> writes (moq_buf_write_raw b) True (elems b)"
  by (intro emits_writes emits_raw) (auto simp: bytes_given_def)

lemma writes_span:
  "writes (write_span b) (bytes_given b \<and> plen b \<le> 65535) (span_bytes (elems b))"
proof (cases "bytes_given b")
  case True
  have "writes (wr_then (moq_buf_write_vi64 (of_nat (plen b))) (moq_buf_write_raw b)) True (span_bytes (elems b))"
    using writes_then [OF vi64_writes writes_raw [OF True], of "of_nat (plen b)"]
    by (simp add: span_bytes_def bytes_given_len [OF True])
  from writes_guard [OF this, of "write_span b" "plen b \<le> 65535" MOQ_ERR_INVAL "\<lambda>w. w"] True
  show ?thesis by (auto simp: write_span_def bytes_given_def)
next
  case False
  then show ?thesis by (auto simp: writes_def write_span_def bytes_given_def)
qed

lemma writes_ids: "writes (write_ids xs) True (concat (map vi64_enc xs))"
proof (induction xs)
  case Nil
  then show ?case using writes_return by (simp add: writes_def)
next
  case (Cons x xs)
  have "write_ids (x # xs) = wr_then (moq_buf_write_vi64 x) (write_ids xs)" by (intro ext) simp
  then show ?case using writes_then [OF vi64_writes Cons] by simp
qed

definition token_bytes :: "moq_d22_token \<Rightarrow> u8 list" where
  "token_bytes t = vi64_enc (dt_alias_type t)
     @ (if dt_alias_type t \<noteq> 3 then vi64_enc (dt_alias t) else [])
     @ (if dt_alias_type t = 1 \<or> dt_alias_type t = 3 then vi64_enc (dt_type t) @ elems (dt_value t) else [])"

definition token_ok :: "moq_d22_token \<Rightarrow> bool" where
  "token_ok t \<longleftrightarrow> \<not> 3 < dt_alias_type t
     \<and> (dt_alias_type t = 1 \<or> dt_alias_type t = 3 \<longrightarrow> bytes_given (dt_value t) \<and> length (token_bytes t) \<le> 65535)"

lemma vi64_len_le: "moq_vi64_len v \<le> 9"
  using vi64.enc_bounds [of v] by simp

lemma writes_token: "writes (encode_token t) (token_ok t) (span_bytes (token_bytes t))"
proof -
  let ?val = "dt_alias_type t = 1 \<or> dt_alias_type t = 3"
  let ?size1 = "moq_vi64_len (dt_alias_type t) + (if dt_alias_type t \<noteq> 3 then moq_vi64_len (dt_alias t) else 0)"
  let ?size2 = "?size1 + moq_vi64_len (dt_type t)"
  have "(if dt_alias_type t \<noteq> 3 then moq_vi64_len (dt_alias t) else 0) \<le> 9" using vi64_len_le by simp
  then have size: "?size2 \<le> 65535"
    using vi64_len_le [of "dt_alias_type t"] vi64_len_le [of "dt_type t"] by linarith
  show ?thesis
  proof (cases "?val \<longrightarrow> bytes_given (dt_value t)")
    case True
    then have len: "length (token_bytes t) = (if ?val then ?size2 + plen (dt_value t) else ?size1)"
      by (auto simp: token_bytes_def bytes_given_len)
    have "writes (wr_when ?val (wr_then (moq_buf_write_vi64 (dt_type t)) (moq_buf_write_raw (dt_value t)))) True
        (if ?val then vi64_enc (dt_type t) @ elems (dt_value t) else [])"
      using writes_when [OF writes_then [OF vi64_writes writes_raw], of "dt_value t" ?val "dt_type t"] True
      by (cases ?val) (simp_all add: wr_when_def writes_return)
    from writes_then [OF vi64_writes writes_then [OF vi64_writes writes_then [OF writes_when [OF vi64_writes] this]]]
    have wr: "writes (wr_then (moq_buf_write_vi64 (of_nat (length (token_bytes t))))
        (wr_then (moq_buf_write_vi64 (dt_alias_type t))
        (wr_then (wr_when (dt_alias_type t \<noteq> 3) (moq_buf_write_vi64 (dt_alias t)))
          (wr_when ?val (wr_then (moq_buf_write_vi64 (dt_type t)) (moq_buf_write_raw (dt_value t)))))))
        True (span_bytes (token_bytes t))"
      by (simp add: span_bytes_def token_bytes_def)
    show ?thesis
      by (rule writes_guard [OF wr, of _ _ MOQ_ERR_INVAL "\<lambda>w. w"])
        (use True size in \<open>auto simp: encode_token_def Let_def token_ok_def len bytes_given_def\<close>)
  next
    case False
    then show ?thesis by (auto simp: writes_def encode_token_def token_ok_def bytes_given_def Let_def)
  qed
qed

definition ranges_bytes :: "u64 \<Rightarrow> moq_d22_range_filter \<Rightarrow> u8 list" where
  "ranges_bytes type f =
     (if rf_clear f then []
      else [rf_set_id f] @ (if type = 40 \<or> type = 41 then vi64_enc (rf_property_type f) else []) @ elems (rf_ranges f))"

definition ranges_ok :: "u64 \<Rightarrow> moq_d22_range_filter \<Rightarrow> bool" where
  "ranges_ok type f \<longleftrightarrow> rf_clear f \<or> bytes_given (rf_ranges f) \<and> length (ranges_bytes type f) \<le> 65535"

lemma writes_ranges: "writes (encode_ranges type f) (ranges_ok type f) (span_bytes (ranges_bytes type f))"
proof -
  let ?odd_pt = "type = 40 \<or> type = 41"
  let ?head = "1 + (if ?odd_pt then moq_vi64_len (rf_property_type f) else 0)"
  have head: "?head \<le> 10" using vi64_len_le by simp
  consider "rf_clear f" | "\<not> rf_clear f" "bytes_given (rf_ranges f)" | "\<not> rf_clear f" "\<not> bytes_given (rf_ranges f)" by blast
  then show ?thesis
  proof cases
    case 1
    then have "encode_ranges type f = moq_buf_write_vi64 0" by (intro ext) (simp add: encode_ranges_def)
    then show ?thesis using 1 vi64_writes [of 0] by (simp add: ranges_ok_def ranges_bytes_def span_bytes_def)
  next
    case 2
    have len: "length (ranges_bytes type f) = ?head + plen (rf_ranges f)"
      using 2 by (simp add: ranges_bytes_def bytes_given_len)
    have one: "writes (moq_buf_write_raw (Arr [rf_set_id f])) True [rf_set_id f]"
      using writes_raw [of "Arr [rf_set_id f]"] by (simp add: bytes_given_def)
    have wr: "writes (wr_then (moq_buf_write_vi64 (of_nat (?head + plen (rf_ranges f))))
        (wr_then (moq_buf_write_raw (Arr [rf_set_id f]))
        (wr_then (wr_when ?odd_pt (moq_buf_write_vi64 (rf_property_type f))) (moq_buf_write_raw (rf_ranges f)))))
        True (span_bytes (ranges_bytes type f))"
      using writes_then [OF vi64_writes [of "of_nat (?head + plen (rf_ranges f))"]
          writes_then [OF one writes_then [OF writes_when [OF vi64_writes, of ?odd_pt] writes_raw [OF 2(2)]]]] 2(1)
      unfolding span_bytes_def len by (simp add: ranges_bytes_def)
    show ?thesis
      by (rule writes_guard [OF wr, of _ _ MOQ_ERR_INVAL "\<lambda>w. w"])
        (use 2 head in \<open>auto simp: encode_ranges_def Let_def ranges_ok_def len bytes_given_def\<close>)
  next
    case 3
    then show ?thesis by (auto simp: writes_def encode_ranges_def ranges_ok_def bytes_given_def Let_def)
  qed
qed

definition hop_bytes :: "moq_d22_param \<Rightarrow> u8 list" where
  "hop_bytes p = (if is_null (p_hop_ids p) then elems (p_hop_path p) else concat (map vi64_enc (elems (p_hop_ids p))))"

definition hop_ok :: "moq_d22_param \<Rightarrow> bool" where
  "hop_ok p \<longleftrightarrow> (if is_null (p_hop_ids p) then bytes_given (p_hop_path p) \<and> plen (p_hop_path p) \<le> 65535
     else plen (p_hop_ids p) \<le> 65535 \<and> length (hop_bytes p) \<le> 65535)"

lemma writes_hop: "writes (encode_hop_path p) (hop_ok p) (span_bytes (hop_bytes p))"
proof (cases "is_null (p_hop_ids p)")
  case True
  then have "encode_hop_path p = write_span (p_hop_path p)" by (intro ext) (simp add: encode_hop_path_def)
  then show ?thesis using writes_span True by (simp add: hop_ok_def hop_bytes_def)
next
  case False
  have len: "length (hop_bytes p) = sum_list (map moq_vi64_len (elems (p_hop_ids p)))"
    using False by (simp add: hop_bytes_def length_concat comp_def)
  have wr: "writes (wr_then (moq_buf_write_vi64 (of_nat (length (hop_bytes p)))) (write_ids (elems (p_hop_ids p)))) True
      (span_bytes (hop_bytes p))"
    using writes_then [OF vi64_writes writes_ids, of "of_nat (length (hop_bytes p))"] False
    by (simp add: span_bytes_def hop_bytes_def)
  show ?thesis
    by (rule writes_guard [OF wr, of _ _ MOQ_ERR_INVAL "\<lambda>w. w"])
      (use False in \<open>auto simp: encode_hop_path_def Let_def hop_ok_def len\<close>)
qed

definition ns_value_ok :: "moq_bytes \<Rightarrow> bool" where
  "ns_value_ok b \<longleftrightarrow> bytes_given b \<and> plen b \<le> 65535
     \<and> (\<exists>ns r. moq_d22_decode_namespace (moq_buf_reader_init b) = (Inr ns, r) \<and> rd_pos r = plen (rd_data r))"

lemma writes_ns_value: "writes (encode_ns_value b) (ns_value_ok b) (elems b)"
proof (cases "bytes_given b")
  case True
  show ?thesis
    by (rule writes_guard [OF writes_raw [OF True], of _ _ MOQ_ERR_INVAL "\<lambda>w. w"])
      (use True in \<open>auto simp: encode_ns_value_def ns_value_ok_def bytes_given_def split: prod.split sum.split\<close>)
next
  case False
  then show ?thesis by (auto simp: writes_def encode_ns_value_def ns_value_ok_def bytes_given_def)
qed

definition value_bytes :: "moq_d22_param \<Rightarrow> u8 list" where
  "value_bytes p =
     (if integer_type (p_type p) then vi64_enc (p_integer p)
      else if byte_type (p_type p) then [ucast (p_integer p)]
      else if p_type p = 9 then vi64_enc (loc_group (p_location p)) @ vi64_enc (loc_object (p_location p))
      else if p_type p = 33 then lf_bytes (p_filter p)
      else if p_type p = MOQ_D22_HOP_PATH then span_bytes (hop_bytes p)
      else if p_type p = 35 then span_bytes (elems (p_fill p))
      else if p_type p = 52 then elems (dn_encoded (p_ns p))
      else if p_type p = 3 then span_bytes (token_bytes (p_token p))
      else span_bytes (ranges_bytes (p_type p) (p_ranges p)))"

definition value_ok :: "moq_d22_param \<Rightarrow> bool" where
  "value_ok p \<longleftrightarrow>
     (if integer_type (p_type p) then True
      else if byte_type (p_type p) then p_integer p \<le> 255
      else if p_type p = 9 then True
      else if p_type p = 33 then lf_ok (p_filter p)
      else if p_type p = MOQ_D22_HOP_PATH then hop_ok p
      else if p_type p = 35 then bytes_given (p_fill p) \<and> plen (p_fill p) \<le> 65535
      else if p_type p = 52 then ns_value_ok (dn_encoded (p_ns p))
      else if p_type p = 3 then token_ok (p_token p)
      else range_type (p_type p) \<and> ranges_ok (p_type p) (p_ranges p))"

text \<open>A successful write of a value: its bytes, and the check it passed.\<close>

definition appends :: "wr \<Rightarrow> bool \<Rightarrow> u8 list \<Rightarrow> bool" where
  "appends m c bs \<longleftrightarrow>
     (\<forall>w w'. writer_valid w \<longrightarrow> m w = (MOQ_OK, w') \<longrightarrow> c \<and> length bs \<le> w_room w \<and> w' = w_append bs w)"

lemma writes_appends: "writes m c bs \<Longrightarrow> appends m c bs"
  by (simp add: writes_def appends_def)

lemma appends_then: "appends m c bs \<Longrightarrow> appends k d cs \<Longrightarrow> appends (wr_then m k) (c \<and> d) (bs @ cs)"
  unfolding appends_def
proof (intro allI impI)
  fix w w' assume m: "\<forall>w w'. writer_valid w \<longrightarrow> m w = (MOQ_OK, w') \<longrightarrow> c \<and> length bs \<le> w_room w \<and> w' = w_append bs w"
    and k: "\<forall>w w'. writer_valid w \<longrightarrow> k w = (MOQ_OK, w') \<longrightarrow> d \<and> length cs \<le> w_room w \<and> w' = w_append cs w"
    and w: "writer_valid w" and run: "wr_then m k w = (MOQ_OK, w')"
  from run obtain w1 where 1: "m w = (MOQ_OK, w1)" "k w1 = (MOQ_OK, w')"
    by (auto simp: wr_then_def split: prod.splits if_splits)
  with m w have c: "c" "length bs \<le> w_room w" "w1 = w_append bs w" by auto
  with k 1(2) w_append_valid [OF w c(2)] have d: "d" "length cs \<le> w_room w1" "w' = w_append cs w1" by auto
  then show "(c \<and> d) \<and> length (bs @ cs) \<le> w_room w \<and> w' = w_append (bs @ cs) w"
    using c w_room_append [OF w c(2)] w_append_append [OF w, of bs cs] by auto
qed

lemma appends_value: "appends (encode_value p) (value_ok p) (value_bytes p)"
proof -
  let ?t = "p_type p"
  have byte: "writes (moq_buf_write_raw (Arr [ucast (p_integer p)])) True [ucast (p_integer p)]"
    using writes_raw [of "Arr [ucast (p_integer p)]"] by (simp add: bytes_given_def)
  note parts = writes_appends [OF byte] writes_appends [OF vi64_writes] writes_appends [OF writes_span]
    writes_appends [OF writes_then [OF vi64_writes vi64_writes]] writes_appends [OF writes_location_filter]
    writes_appends [OF writes_hop] writes_appends [OF writes_ns_value] writes_appends [OF writes_token]
    writes_appends [OF writes_ranges]
  consider "integer_type ?t" | "\<not> integer_type ?t" "byte_type ?t" | "\<not> integer_type ?t" "\<not> byte_type ?t" by blast
  then show ?thesis
  proof cases
    case 1
    then show ?thesis using parts(2) [of "p_integer p"] by (simp add: appends_def encode_value_def value_ok_def value_bytes_def)
  next
    case 2
    then show ?thesis using parts(1)
      by (auto simp: appends_def encode_value_def value_ok_def value_bytes_def Let_def not_less split: if_splits)
  next
    case 3
    then show ?thesis
      using parts(3) [of "p_fill p"] parts(4) [of "loc_group (p_location p)" "loc_object (p_location p)"]
        parts(5) [of "p_filter p"] parts(6) [of p] parts(7) [of "dn_encoded (p_ns p)"] parts(8) [of "p_token p"]
        parts(9) [of ?t "p_ranges p"]
      unfolding appends_def encode_value_def value_ok_def value_bytes_def
      by (simp split: if_split)
  qed
qed

fun params_bytes :: "u64 \<Rightarrow> moq_d22_param list \<Rightarrow> u8 list" where
  "params_bytes previous [] = []"
| "params_bytes previous (p # ps) = vi64_enc (p_type p - previous) @ value_bytes p @ params_bytes (p_type p) ps"

fun params_ascend :: "u64 \<Rightarrow> moq_d22_param list \<Rightarrow> bool" where
  "params_ascend previous [] \<longleftrightarrow> True"
| "params_ascend previous (p # ps) \<longleftrightarrow> previous \<le> p_type p \<and> value_ok p \<and> params_ascend (p_type p) ps"

lemma appends_loop: "appends (encode_params_loop start scope previous ps) (params_ascend previous ps) (params_bytes previous ps)"
proof (induction ps arbitrary: previous)
  case Nil
  then show ?case by (auto simp: appends_def)
next
  case (Cons p ps)
  have "appends (\<lambda>c. if 65535 < w_pos c - start then (MOQ_ERR_INVAL, c) else encode_params_loop start scope (p_type p) ps c)
      (params_ascend (p_type p) ps) (params_bytes (p_type p) ps)"
    using Cons by (auto simp: appends_def)
  from appends_then [OF appends_then [OF writes_appends [OF vi64_writes, of "p_type p - previous"] appends_value [of p]] this]
  show ?case by (auto simp: appends_def not_less)
qed

section \<open>What the decoder reads back\<close>

definition token_same :: "moq_d22_token \<Rightarrow> moq_d22_token \<Rightarrow> bool" where
  "token_same t u \<longleftrightarrow> dt_alias_type u = dt_alias_type t
     \<and> dt_alias u = (if dt_alias_type t \<noteq> 3 then dt_alias t else 0)
     \<and> (if dt_alias_type t = 1 \<or> dt_alias_type t = 3
        then dt_type u = dt_type t \<and> dt_value u = Arr (elems (dt_value t))
        else dt_type u = 0 \<and> dt_value u = Null 0)"

definition ranges_same :: "u64 \<Rightarrow> moq_d22_range_filter \<Rightarrow> moq_d22_range_filter \<Rightarrow> bool" where
  "ranges_same type f g \<longleftrightarrow> rf_clear g = rf_clear f
     \<and> (rf_clear f \<or> rf_set_id g = rf_set_id f \<and> rf_ranges g = Arr (elems (rf_ranges f))
          \<and> rf_property_type g = (if type = 40 \<or> type = 41 then rf_property_type f else 0))"

text \<open>The decoded parameter \<open>q\<close> has the type and the value of the given \<open>p\<close>.\<close>

definition param_same :: "moq_d22_param \<Rightarrow> moq_d22_param \<Rightarrow> bool" where
  "param_same p q \<longleftrightarrow> p_type q = p_type p
     \<and> (if integer_type (p_type p) \<or> byte_type (p_type p) then p_integer q = p_integer p
        else if p_type p = 9 then p_location q = p_location p
        else if p_type p = 33 then p_filter q = lf_canon (p_filter p)
        else if p_type p = MOQ_D22_HOP_PATH then p_hop_path q = Arr (hop_bytes p)
        else if p_type p = 35 then p_fill q = Arr (elems (p_fill p))
        else if p_type p = 52 then dn_encoded (p_ns q) = Arr (elems (dn_encoded (p_ns p)))
        else if p_type p = 3 then token_same (p_token p) (p_token q)
        else ranges_same (p_type p) (p_ranges p) (p_ranges q))"

lemma reads_read_span: "length bs \<le> limit \<Longrightarrow> limit < 2 ^ 64 \<Longrightarrow> reads (read_span limit) (span_bytes bs) (Arr bs)"
  unfolding read_span_def span_bytes_def
proof (rule reads_then [OF vi64_reads])
  assume len: "length bs \<le> limit" "limit < 2 ^ 64"
  then have n: "unat (of_nat (length bs) :: u64) = length bs" by (intro unat_of_nat_u64) simp
  have "\<not> moq_buf_reader_remaining r < length bs" if "rd_live r" "rd_rest r = bs @ rest" for r rest
    using rest_take(2) [OF that] that(1) by (simp add: moq_buf_reader_remaining_def rd_live_def)
  then show "reads (\<lambda>r. if limit < unat (of_nat (length bs) :: u64) then (Inl MOQ_ERR_PROTO, r)
      else if moq_buf_reader_remaining r < unat (of_nat (length bs) :: u64) then (Inl MOQ_ERR_BUFFER, r)
      else moq_buf_read_raw (unat (of_nat (length bs) :: u64)) r) bs (Arr bs)"
    unfolding n reads_def using readsD [OF reads_raw] len(1) by auto
qed

lemma reads_read_byte: "reads read_byte [b] b"
proof -
  have "read_byte (moq_buf_reader_init (Arr [b])) = (Inr b, \<lparr>rd_data = Arr [b], rd_pos = length [b]\<rparr>)"
    by (simp add: read_byte_def moq_buf_reader_init_def moq_buf_reader_remaining_def)
  then show ?thesis using exact_all [OF rd_exact_byte] by blast
qed

text \<open>The continuation of a read whose bytes are next.\<close>

lemma then_at:
  assumes "rd_then m f r = (Inr b, r')" and "reads m bs a" and "rd_live r" and "rd_rest r = bs @ rest"
  shows "f a (r\<lparr>rd_pos := rd_pos r + length bs\<rparr>) = (Inr b, r')"
  using assms(1) readsD [OF assms(2-4)] by (simp add: rd_then_def)

lemma remaining_rest: "rd_live r \<Longrightarrow> moq_buf_reader_remaining r = length (rd_rest r)"
  by (auto simp: moq_buf_reader_remaining_def rd_live_def rd_rest_def)

lemma reader_ptr_rest: "rd_live r \<Longrightarrow> ptake (moq_buf_reader_remaining r) (moq_buf_reader_ptr r) = Arr (rd_rest r)"
  using reader_ptr_take [of r "rd_rest r" "[]"] by (simp add: remaining_rest)

lemma reads_rd_or: "reads m bs a \<Longrightarrow> reads (rd_or e m) bs a"
  by (simp add: reads_def rd_or_def)

lemma init_live: "rd_live (moq_buf_reader_init (Arr bs))" "rd_rest (moq_buf_reader_init (Arr bs)) = bs"
  by (simp_all add: rd_live_def rd_rest_def moq_buf_reader_init_def)

lemma decode_token_same:
  assumes "decode_token (Arr (token_bytes t)) = Inr u"
  shows "token_same t u"
proof -
  let ?r = "moq_buf_reader_init (Arr (token_bytes t))" and ?a = "dt_alias_type t"
  let ?has = "?a = 1 \<or> ?a = 3"
  let ?mid = "if ?a \<noteq> 3 then vi64_enc (dt_alias t) else []"
  let ?tail = "if ?has then vi64_enc (dt_type t) @ elems (dt_value t) else []"
  note int = reads_rd_or [OF vi64_reads, of MOQ_D22_ERR_KVP_FORMAT]
  from assms obtain r' where run: "read_token ?r = (Inr u, r')" by (cases "read_token ?r") (auto simp: decode_token_def)
  have rest: "rd_rest ?r = vi64_enc ?a @ (?mid @ ?tail)" by (simp add: init_live token_bytes_def)
  let ?r1 = "?r\<lparr>rd_pos := rd_pos ?r + length (vi64_enc ?a)\<rparr>"
  from rd_live_advance [OF init_live(1) rest] have r1: "rd_live ?r1" "rd_rest ?r1 = ?mid @ ?tail" by auto
  note run1 = then_at [OF run [unfolded read_token_def] int init_live(1) rest]
  then have small: "\<not> 3 < ?a" by (auto simp: rd_fail_def)
  have mid: "reads (if ?a \<noteq> 3 then rd_or MOQ_D22_ERR_KVP_FORMAT moq_buf_read_vi64 else rd_return 0) ?mid
      (if ?a \<noteq> 3 then dt_alias t else 0)"
    by (simp add: int reads_rd_return)
  let ?r2 = "?r1\<lparr>rd_pos := rd_pos ?r1 + length ?mid\<rparr>"
  from rd_live_advance [OF r1] have r2: "rd_live ?r2" "rd_rest ?r2 = ?tail" by auto
  note run2 = then_at [OF run1 [unfolded if_not_P [OF small]] mid r1]
  show ?thesis
  proof (cases ?has)
    case True
    then have rest2: "rd_rest ?r2 = vi64_enc (dt_type t) @ elems (dt_value t)" using r2(2) by simp
    from rd_live_advance [OF r2(1) rest2] then_at [OF run2 [unfolded if_P [OF True]] int r2(1) rest2]
    show ?thesis using True by (auto simp: token_same_def reader_ptr_rest)
  next
    case False
    then show ?thesis using run2 by (auto simp: token_same_def split: if_splits)
  qed
qed

lemma decode_ranges_same:
  assumes "decode_ranges type (Arr (ranges_bytes type f)) = Inr (g, flag)"
  shows "ranges_same type f g"
proof (cases "rf_clear f")
  case True
  then show ?thesis using assms by (auto simp: decode_ranges_def ranges_bytes_def ranges_same_def)
next
  case False
  let ?r = "moq_buf_reader_init (Arr (ranges_bytes type f))" and ?odd_pt = "type = 40 \<or> type = 41"
  let ?mid = "if ?odd_pt then vi64_enc (rf_property_type f) else []"
  have rest: "rd_rest ?r = [rf_set_id f] @ (?mid @ elems (rf_ranges f))"
    using False by (simp add: init_live ranges_bytes_def)
  define r1 where "r1 = ?r\<lparr>rd_pos := rd_pos ?r + length [rf_set_id f]\<rparr>"
  define r2 where "r2 = r1\<lparr>rd_pos := rd_pos r1 + length ?mid\<rparr>"
  have r1: "rd_live r1" "rd_rest r1 = ?mid @ elems (rf_ranges f)"
    using rd_live_advance [OF init_live(1) rest] by (auto simp: r1_def)
  have r2: "rd_live r2" "rd_rest r2 = elems (rf_ranges f)" using rd_live_advance [OF r1] by (auto simp: r2_def)
  have b: "read_byte ?r = (Inr (rf_set_id f), r1)"
    unfolding r1_def by (rule readsD [OF reads_read_byte init_live(1) rest])
  have pt: "(if type = 0x28 \<or> type = 0x29 then rd_or MOQ_ERR_PROTO moq_buf_read_vi64 r1 else (Inr 0, r1))
      = (Inr (if ?odd_pt then rf_property_type f else 0), r2)"
    using readsD [OF reads_rd_or [OF vi64_reads, of MOQ_ERR_PROTO] r1(1)] r1(2) by (cases ?odd_pt) (simp_all add: r2_def)
  have ne: "plen (Arr (ranges_bytes type f)) \<noteq> 0" using False by (simp add: ranges_bytes_def)
  show ?thesis
    using assms unfolding decode_ranges_def if_not_P [OF ne] b prod.case sum.case pt reader_ptr_rest [OF r2(1)] r2(2)
    using False by (auto simp: ranges_same_def split: sum.splits)
qed

lemma ucast_byte: "n \<le> 255 \<Longrightarrow> ucast (ucast n :: u8) = (n :: u64)"
proof -
  assume "n \<le> 255"
  then have "take_bit 8 n = n" by (simp add: take_bit_self_iff word_le_nat_alt)
  moreover have "ucast (ucast n :: u8) = take_bit 8 n" by (rule bit_word_eqI) (auto simp: bit_simps)
  ultimately show ?thesis by simp
qed

lemmas type_defs = integer_type_def byte_type_def range_type_def MOQ_D22_HOP_PATH_def MOQ_D22_ROUTE_COST_def

text \<open>The branches of the switch that read a length-prefixed value.\<close>

lemma scan_value_spans:
  "scan_value MOQ_D22_HOP_PATH = rd_then (read_span 65535) (\<lambda>span. rd_then (rd_lift (hop_path_check span)) (\<lambda>_.
     rd_return ((param_zero MOQ_D22_HOP_PATH)\<lparr>p_hop_path := span\<rparr>, False)))"
  "scan_value 3 = rd_then (read_span 65535) (\<lambda>span. rd_then (rd_lift (decode_token span)) (\<lambda>token.
     rd_return ((param_zero 3)\<lparr>p_token := token\<rparr>, False)))"
  "scan_value 35 = rd_then (read_span 65535) (\<lambda>fill. rd_return ((param_zero 35)\<lparr>p_fill := fill\<rparr>, False))"
  "range_type t \<Longrightarrow> scan_value t = rd_then (read_span 65535) (\<lambda>span. rd_then (rd_lift (decode_ranges t span)) (\<lambda>(ranges, flag).
     rd_return ((param_zero t)\<lparr>p_ranges := ranges\<rparr>, flag)))"
  unfolding scan_value_def by (auto simp: type_defs)

lemma lift_return_okD: "rd_then (rd_lift x) f r = (Inr b, r') \<Longrightarrow> \<exists>a. x = Inr a \<and> f a r = (Inr b, r')"
  by (cases x) (auto simp: rd_lift_def rd_then_def rd_fail_def rd_return_def)

lemma value_lens:
  "hop_ok p \<Longrightarrow> length (hop_bytes p) \<le> 65535"
  "token_ok t \<Longrightarrow> length (token_bytes t) \<le> 65535"
  "ranges_ok ty f \<Longrightarrow> length (ranges_bytes ty f) \<le> 65535"
proof -
  show "hop_ok p \<Longrightarrow> length (hop_bytes p) \<le> 65535"
    by (auto simp: hop_ok_def hop_bytes_def bytes_given_len split: if_splits)
  have "moq_vi64_len (dt_alias_type t) + moq_vi64_len (dt_alias t) \<le> 18"
    using vi64_len_le [of "dt_alias_type t"] vi64_len_le [of "dt_alias t"] by linarith
  then show "token_ok t \<Longrightarrow> length (token_bytes t) \<le> 65535"
    using vi64_len_le [of "dt_alias_type t"]
    by (cases "dt_alias_type t = 1 \<or> dt_alias_type t = 3") (simp_all add: token_ok_def token_bytes_def)
  show "ranges_ok ty f \<Longrightarrow> length (ranges_bytes ty f) \<le> 65535"
    by (auto simp: ranges_ok_def ranges_bytes_def)
qed

lemma scan_value_same_span:
  assumes "rd_live r" and "rd_rest r = value_bytes p @ rest" and "value_ok p"
    and "scan_value (p_type p) r = (Inr (q, flag), r')"
    and "p_type p = MOQ_D22_HOP_PATH \<or> p_type p = 3 \<or> p_type p = 35 \<or> range_type (p_type p)"
  shows "param_same p q \<and> r' = r\<lparr>rd_pos := rd_pos r + length (value_bytes p)\<rparr>"
proof -
  define bs where "bs = (if p_type p = MOQ_D22_HOP_PATH then hop_bytes p
    else if p_type p = 3 then token_bytes (p_token p)
    else if p_type p = 35 then elems (p_fill p) else ranges_bytes (p_type p) (p_ranges p))"
  have bytes: "value_bytes p = span_bytes bs" using assms(5) by (auto simp: value_bytes_def bs_def type_defs)
  have len: "length bs \<le> 65535"
    using assms(3,5) value_lens(1) [of p] value_lens(2) [of "p_token p"] value_lens(3) [of "p_type p" "p_ranges p"]
    by (auto simp: bs_def value_ok_def type_defs bytes_given_len)
  let ?r = "r\<lparr>rd_pos := rd_pos r + length (span_bytes bs)\<rparr>"
  note at = then_at [OF _ reads_read_span [OF len, simplified] assms(1) assms(2) [unfolded bytes]]
  consider "p_type p = MOQ_D22_HOP_PATH" | "p_type p = 3" | "p_type p = 35" | "range_type (p_type p)" using assms(5) by blast
  then show ?thesis
  proof cases
    case 1
    from at [OF assms(4) [unfolded 1 scan_value_spans]] show ?thesis
      using 1 by (auto simp: rd_return_def param_same_def param_zero_def bytes bs_def type_defs dest!: lift_return_okD)
  next
    case 2
    from at [OF assms(4) [unfolded 2 scan_value_spans]] show ?thesis
      using 2 decode_token_same
      by (auto simp: rd_return_def param_same_def param_zero_def bytes bs_def type_defs dest!: lift_return_okD)
  next
    case 3
    from at [OF assms(4) [unfolded 3 scan_value_spans]] show ?thesis
      using 3 by (auto simp: rd_return_def param_same_def param_zero_def bytes bs_def type_defs)
  next
    case 4
    then have bs: "bs = ranges_bytes (p_type p) (p_ranges p)" by (auto simp: bs_def type_defs)
    from at [OF assms(4) [unfolded scan_value_spans(4) [OF 4]]] obtain g flag'
      where "decode_ranges (p_type p) (Arr bs) = Inr (g, flag')" "q = (param_zero (p_type p))\<lparr>p_ranges := g\<rparr>" "r' = ?r"
      by (auto simp: rd_return_def dest!: lift_return_okD)
    then show ?thesis
      using 4 decode_ranges_same [of "p_type p" "p_ranges p" g flag'] unfolding bs
      by (auto simp: param_same_def param_zero_def bytes bs type_defs)
  qed
qed

lemma decode_namespace_encoded:
  assumes "rd_live r" and "moq_d22_decode_namespace r = (Inr ns, r')"
  shows "dn_encoded ns = ptake (rd_pos r' - rd_pos r) (moq_buf_reader_ptr r)"
  using assms
  by (auto simp: moq_d22_decode_namespace_def rd_return_def rd_span_def dest!: rd_local_okD elim!: rd_then_okE
      split: if_splits prod.splits sum.splits)

lemma reads_ns_value:
  assumes "ns_value_ok b"
  obtains ns where "reads moq_d22_decode_namespace (elems b) ns" "dn_encoded ns = Arr (elems b)"
proof -
  from assms obtain ns r where run: "moq_d22_decode_namespace (moq_buf_reader_init b) = (Inr ns, r)" "rd_pos r = plen (rd_data r)"
      and b: "bytes_given b"
    by (auto simp: ns_value_ok_def)
  have "b \<noteq> Null 0"
  proof
    assume "b = Null 0"
    then have "moq_buf_read_vi64 (moq_buf_reader_init b) = (Inl MOQ_ERR_BUFFER, moq_buf_reader_init b)"
      by (simp add: moq_buf_read_vi64_def moq_buf_reader_init_def reader_valid_def)
    then show False
      using run(1) by (auto simp: moq_d22_decode_namespace_def rd_local_def rd_then_def rd_span_def split: if_splits)
  qed
  with b obtain xs where xs: "b = Arr xs" by (cases b) (auto simp: bytes_given_def)
  have "reader_valid (moq_buf_reader_init b)" using init_live(1) xs by simp
  from rd_movesD [OF rd_moves_decode_namespace this run(1)] run(2) xs
  have r: "r = \<lparr>rd_data = Arr xs, rd_pos = length xs\<rparr>" by (simp add: moq_buf_reader_init_def)
  have "reads moq_d22_decode_namespace xs ns"
    using run(1) exact_all [OF rd_exact_decode_namespace] unfolding r xs by blast
  moreover have "dn_encoded ns = Arr xs"
    using decode_namespace_encoded [OF init_live(1) run(1) [unfolded xs]] r reader_ptr_rest [OF init_live(1), of xs]
      init_live(2) [of xs]
    by (simp add: moq_buf_reader_init_def moq_buf_reader_remaining_def)
  ultimately show thesis using that xs by simp
qed

lemma scan_value_fixed:
  "integer_type t \<Longrightarrow> scan_value t = rd_then moq_buf_read_vi64 (\<lambda>n. rd_return ((param_zero t)\<lparr>p_integer := n\<rparr>, False))"
  "scan_value 9 = rd_then moq_buf_read_vi64 (\<lambda>grp. rd_then moq_buf_read_vi64 (\<lambda>obj.
     rd_return ((param_zero 9)\<lparr>p_location := \<lparr>loc_group = grp, loc_object = obj\<rparr>\<rparr>, False)))"
  "byte_type t \<Longrightarrow> scan_value t = rd_then read_byte (\<lambda>byte.
     if (t = 16 \<or> t = 53) \<and> 1 < byte \<or> t = 34 \<and> (byte < 1 \<or> 2 < byte) then rd_fail MOQ_ERR_PROTO
     else rd_return ((param_zero t)\<lparr>p_integer := ucast byte\<rparr>, False))"
  "scan_value 33 = rd_then moq_d22_decode_location_filter (\<lambda>lf. rd_return ((param_zero 33)\<lparr>p_filter := lf\<rparr>, False))"
  "scan_value 52 = rd_then moq_d22_decode_namespace (\<lambda>ns. rd_return ((param_zero 52)\<lparr>p_ns := ns\<rparr>, False))"
  unfolding scan_value_def by (auto simp: type_defs)

lemma scan_value_same:
  assumes live: "rd_live r" and rest: "rd_rest r = value_bytes p @ rest" and ok: "value_ok p"
    and run: "scan_value (p_type p) r = (Inr (q, flag), r')"
  shows "param_same p q \<and> r' = r\<lparr>rd_pos := rd_pos r + length (value_bytes p)\<rparr>"
proof -
  consider "integer_type (p_type p)" | "byte_type (p_type p)" | "p_type p = 9" | "p_type p = 33" | "p_type p = 52"
    | "p_type p = MOQ_D22_HOP_PATH \<or> p_type p = 3 \<or> p_type p = 35 \<or> range_type (p_type p)"
    using ok by (auto simp: value_ok_def split: if_splits)
  then show ?thesis
  proof cases
    case 1
    then have bytes: "value_bytes p = vi64_enc (p_integer p)" by (simp add: value_bytes_def)
    show ?thesis
      using then_at [OF run [unfolded scan_value_fixed(1) [OF 1]] vi64_reads live rest [unfolded bytes]] 1 bytes
      by (auto simp: rd_return_def param_same_def param_zero_def)
  next
    case 2
    then have bytes: "value_bytes p = [ucast (p_integer p)]" "p_integer p \<le> 255"
      using ok by (auto simp: value_bytes_def value_ok_def type_defs)
    show ?thesis
      using then_at [OF run [unfolded scan_value_fixed(3) [OF 2]] reads_read_byte live rest [unfolded bytes]] 2 bytes
      by (auto simp: rd_return_def rd_fail_def param_same_def param_zero_def ucast_byte split: if_splits)
  next
    case 3
    then have bytes: "value_bytes p = vi64_enc (loc_group (p_location p)) @ vi64_enc (loc_object (p_location p))"
      by (simp add: value_bytes_def type_defs)
    then have rest1: "rd_rest r = vi64_enc (loc_group (p_location p)) @ (vi64_enc (loc_object (p_location p)) @ rest)"
      using rest by simp
    note r1 = rd_live_advance [OF live rest1]
    from then_at [OF then_at [OF run [unfolded 3 scan_value_fixed] vi64_reads live rest1] vi64_reads conjunct1 [OF r1] conjunct2 [OF r1]]
    show ?thesis using 3 bytes by (auto simp: rd_return_def param_same_def param_zero_def type_defs add.assoc)
  next
    case 4
    then have bytes: "value_bytes p = lf_bytes (p_filter p)" "lf_ok (p_filter p)"
      using ok by (auto simp: value_bytes_def value_ok_def type_defs)
    show ?thesis
      using then_at [OF run [unfolded 4 scan_value_fixed] reads_location_filter [OF bytes(2)] live rest [unfolded bytes]] 4 bytes
      by (auto simp: rd_return_def param_same_def param_zero_def type_defs)
  next
    case 5
    then have bytes: "value_bytes p = elems (dn_encoded (p_ns p))" "ns_value_ok (dn_encoded (p_ns p))"
      using ok by (auto simp: value_bytes_def value_ok_def type_defs)
    from reads_ns_value [OF bytes(2)] obtain ns where ns: "reads moq_d22_decode_namespace (value_bytes p) ns"
        "dn_encoded ns = Arr (elems (dn_encoded (p_ns p)))" unfolding bytes(1) by blast
    show ?thesis
      using then_at [OF run [unfolded 5 scan_value_fixed] ns(1) live rest] 5 ns(2)
      by (auto simp: rd_return_def param_same_def param_zero_def type_defs)
  next
    case 6
    then show ?thesis using scan_value_same_span [OF live rest ok run] by blast
  qed
qed

lemma scan_all_same:
  assumes "rd_live r" and "rd_rest r = params_bytes previous ps @ rest" and "params_ascend previous ps"
    and "scan_all legal (length ps) previous r = (Inr qs, r')"
  shows "list_all2 param_same ps qs \<and> r' = r\<lparr>rd_pos := rd_pos r + length (params_bytes previous ps)\<rparr>"
  using assms
proof (induction ps arbitrary: previous r qs)
  case Nil
  then show ?case by (simp add: rd_return_def)
next
  case (Cons p ps)
  from Cons.prems(4) obtain q qs1 r1 where qs: "qs = q # qs1" and q: "scan_ok previous legal r = (Inr q, r1)"
      and run: "scan_all legal (length ps) (p_type q) r1 = (Inr qs1, r')"
    unfolding length_Cons scan_all_Suc_iff by blast
  have rest: "rd_rest r = vi64_enc (p_type p - previous) @ (value_bytes p @ params_bytes (p_type p) ps @ rest)"
    using Cons.prems(2) by simp
  let ?r0 = "r\<lparr>rd_pos := rd_pos r + length (vi64_enc (p_type p - previous))\<rparr>"
  from rd_live_advance [OF Cons.prems(1) rest] have r0: "rd_live ?r0" "rd_rest ?r0 = value_bytes p @ (params_bytes (p_type p) ps @ rest)" by auto
  from q have "scan_param previous legal r = (Inr (q, False), r1)" by (simp add: scan_ok_iff)
  from then_at [OF rd_local_okD [OF this [unfolded scan_param_def]] vi64_reads Cons.prems(1) rest]
  have "scan_value (p_type p) ?r0 = (Inr (q, False), r1)" by (auto simp: rd_fail_def split: if_splits)
  from scan_value_same [OF r0 _ this] Cons.prems(3)
  have same: "param_same p q" and r1: "r1 = ?r0\<lparr>rd_pos := rd_pos ?r0 + length (value_bytes p)\<rparr>" by auto
  from rd_live_advance [OF r0] have r1': "rd_live r1" "rd_rest r1 = params_bytes (p_type p) ps @ rest" unfolding r1 by auto
  have type: "p_type q = p_type p" using same by (simp add: param_same_def)
  have "list_all2 param_same ps qs1 \<and> r' = r1\<lparr>rd_pos := rd_pos r1 + length (params_bytes (p_type p) ps)\<rparr>"
    using Cons.prems(3) run unfolding type by (intro Cons.IH [OF r1']) auto
  then show ?case using same qs r1 by (simp add: add.assoc)
qed

text \<open>What a successful encode has written, and the scan of it that succeeded.\<close>

lemma encode_params_okD:
  assumes "w_data w = Arr buf" and "w_pos w \<le> length buf"
    and "moq_d22_encode_params params scope max_ranges w = (MOQ_OK, w')"
  defines "bs \<equiv> params_bytes 0 (elems params)"
  shows "w_out w' = w_out w @ bs \<and> scope_valid scope \<and> length bs \<le> 65535
    \<and> unat (of_nat (plen params) :: u64) = plen params
    \<and> (\<exists>qs. reads (scan_all (allowed scope) (plen params) 0) bs qs \<and> list_all2 param_same (elems params) qs
         \<and> params_acceptable max_ranges qs)"
proof -
  have valid: "writer_valid w" using assms(1,2) by (simp add: writer_valid_def)
  from assms(3) valid obtain c v r where loop: "encode_params_loop (w_pos w) scope 0 (elems params) w = (MOQ_OK, c)"
      and dec: "moq_d22_decode_params (of_nat (plen params)) scope max_ranges
        \<lparr>rd_data = ptake (w_pos c) (w_data c), rd_pos = w_pos w\<rparr> = (Inr v, r)"
      and c: "w' = c" and given: "\<not> (is_null params \<and> plen params \<noteq> 0)" "plen params \<le> 65535 div 2"
    by (auto simp: moq_d22_encode_params_def wr_local_def wr_then_def split: if_splits prod.splits sum.splits)
  from appends_loop loop valid have up: "params_ascend 0 (elems params)" "length bs \<le> w_room w" "c = w_append bs w"
    unfolding appends_def bs_def by blast+
  have n: "length (elems params) = plen params" using given(1) by (cases params) auto
  have count: "unat (of_nat (plen params) :: u64) = plen params" using given(2) by (intro unat_of_nat_u64) simp
  define r0 where "r0 = \<lparr>rd_data = ptake (w_pos c) (w_data c), rd_pos = w_pos w\<rparr>"
  have r: "rd_live r0" "rd_rest r0 = bs @ []"
    using up(2,3) assms(1,2) by (auto simp: r0_def rd_live_def rd_rest_def w_append_def w_room_def)
  from dec [folded r0_def, unfolded decode_params_ok_iff [OF r(1)] count] obtain qs and cs :: "u8 list" where scope: "scope_valid scope"
      and scan: "scan_all (allowed scope) (plen params) 0 r0 = (Inr qs, r)"
      and cs: "r = r0\<lparr>rd_pos := rd_pos r0 + length cs\<rparr>" "length cs \<le> 65535"
      and acc: "params_acceptable max_ranges qs"
    unfolding seq_run_def append_Nil by blast
  from scan_all_same [OF r [unfolded bs_def] up(1)] scan n
  have same: "list_all2 param_same (elems params) qs" and end_r: "r = r0\<lparr>rd_pos := rd_pos r0 + length bs\<rparr>"
    unfolding bs_def by auto
  from arg_cong [OF trans [OF cs(1) [symmetric] end_r], of rd_pos] have "length cs = length bs" by simp
  moreover have "reads (scan_all (allowed scope) (plen params) 0) bs qs"
    using scan exact_at [OF rd_exact_scan_all r] unfolding end_r by blast
  ultimately show ?thesis
    using same acc scope count cs(2) c up(3) w_out_append [OF valid up(2)] by auto
qed

text \<open>The example parameters, encoded into a buffer of five bytes.\<close>

lemma demo_decode:
  "moq_d22_decode_params 2 0 4 \<lparr>rd_data = Arr [2, 7, 14, 1], rd_pos = 0\<rparr> =
   (Inr (params_summary [2, 7, 14, 1] demo_params), \<lparr>rd_data = Arr [2, 7, 14, 1], rd_pos = 4\<rparr>)"
proof -
  let ?bs = "[2, 7, 14, 1] :: u8 list" and ?r = "\<lparr>rd_data = Arr [2, 7, 14, 1], rd_pos = 0\<rparr> :: moq_buf_reader"
  have r: "rd_live ?r" "rd_rest ?r = ?bs @ []" by (simp_all add: rd_live_def rd_rest_def)
  have "scan_all (allowed 0) 2 0 ?r = (Inr demo_params, \<lparr>rd_data = Arr ?bs, rd_pos = 4\<rparr>)"
    using demo_walk demo_ok(1) scan_all_legal_iff [of "allowed 0"] walk_params_iff [OF rd_live_valid [OF r(1)]]
    by (simp add: moq_buf_reader_init_def)
  then have "seq_run 4 0 ?r (unat (2 :: u64)) [] ?r 0 (params_summary ?bs demo_params) \<lparr>rd_data = Arr ?bs, rd_pos = 4\<rparr>"
    unfolding seq_run_def using demo_ok(2) r(2)
    by (intro exI [of _ demo_params] exI [of _ ?bs] exI [of _ "[]"]) simp
  then show ?thesis using decode_params_ok_iff [OF r(1)] demo_ok(3) by blast
qed

lemma demo_encode:
  "moq_d22_encode_params (Arr demo_params) 0 4 \<lparr>w_data = Arr [0, 0, 0, 0, 0], w_pos = 0\<rparr> =
   (MOQ_OK, \<lparr>w_data = Arr [2, 7, 14, 1, 0], w_pos = 4\<rparr>)"
proof -
  have wr: "moq_buf_write_vi64 2 \<lparr>w_data = Arr [0, 0, 0, 0, 0], w_pos = 0\<rparr> = (MOQ_OK, \<lparr>w_data = Arr [2, 0, 0, 0, 0], w_pos = Suc 0\<rparr>)"
    "moq_buf_write_vi64 7 \<lparr>w_data = Arr [2, 0, 0, 0, 0], w_pos = Suc 0\<rparr> = (MOQ_OK, \<lparr>w_data = Arr [2, 7, 0, 0, 0], w_pos = 2\<rparr>)"
    "moq_buf_write_vi64 14 \<lparr>w_data = Arr [2, 7, 0, 0, 0], w_pos = 2\<rparr> = (MOQ_OK, \<lparr>w_data = Arr [2, 7, 14, 0, 0], w_pos = 3\<rparr>)"
    "moq_buf_write_raw (Arr [1]) \<lparr>w_data = Arr [2, 7, 14, 0, 0], w_pos = 3\<rparr> = (MOQ_OK, \<lparr>w_data = Arr [2, 7, 14, 1, 0], w_pos = 4\<rparr>)"
    by code_simp+
  have "encode_params_loop 0 0 0 demo_params \<lparr>w_data = Arr [0, 0, 0, 0, 0], w_pos = 0\<rparr> = (MOQ_OK, \<lparr>w_data = Arr [2, 7, 14, 1, 0], w_pos = 4\<rparr>)"
    using demo_ok(1) by (simp add: demo_params_def param_zero_def wr_then_def encode_value_def type_defs wr Let_def)
  moreover have "length demo_params = 2" by (simp add: demo_params_def)
  ultimately show ?thesis
    using demo_decode demo_ok(3) by (simp add: moq_d22_encode_params_def writer_valid_def wr_local_def wr_then_def)
qed

text \<open>C24: what \<open>moq_d22_encode_params\<close> writes for a list of parameters is read back by the public iterator as
  parameters of the same types and values, and \<open>moq_d22_decode_params\<close> accepts it as one sequence of that
  length, reporting exactly the bytes written.\<close>

theorem encode_params_round_trip:
  assumes "w_data w = Arr buf" and "w_pos w \<le> length buf"
    and "moq_d22_encode_params params scope max_ranges w = (MOQ_OK, w')"
  shows "\<exists>bs ps. w_out w' = w_out w @ bs
    \<and> walk_params (plen params) 0 (moq_buf_reader_init (Arr bs)) = (Inr ps, \<lparr>rd_data = Arr bs, rd_pos = length bs\<rparr>)
    \<and> list_all2 param_same (elems params) ps
    \<and> moq_d22_decode_params (of_nat (plen params)) scope max_ranges (moq_buf_reader_init (Arr bs))
      = (Inr (params_summary bs ps), \<lparr>rd_data = Arr bs, rd_pos = length bs\<rparr>)"
proof -
  let ?bs = "params_bytes 0 (elems params)"
  from encode_params_okD [OF assms] obtain qs where out: "w_out w' = w_out w @ ?bs" "scope_valid scope" "length ?bs \<le> 65535"
      and count: "unat (of_nat (plen params) :: u64) = plen params"
      and reads: "reads (scan_all (allowed scope) (plen params) 0) ?bs qs"
      and same: "list_all2 param_same (elems params) qs" "params_acceptable max_ranges qs" by blast
  note all = exact_all [OF rd_exact_scan_all, THEN iffD2, OF reads]
  have "seq_run max_ranges scope (moq_buf_reader_init (Arr ?bs)) (plen params) [] (moq_buf_reader_init (Arr ?bs)) 0
      (params_summary ?bs qs) \<lparr>rd_data = Arr ?bs, rd_pos = length ?bs\<rparr>"
    unfolding seq_run_def using all same(2) out(3) init_live(2) [of ?bs]
    by (intro exI [of _ qs] exI [of _ ?bs] exI [of _ "[]"]) (simp add: moq_buf_reader_init_def)
  then have "moq_d22_decode_params (of_nat (plen params)) scope max_ranges (moq_buf_reader_init (Arr ?bs))
      = (Inr (params_summary ?bs qs), \<lparr>rd_data = Arr ?bs, rd_pos = length ?bs\<rparr>)"
    using decode_params_ok_iff [OF init_live(1)] out(2) count by metis
  moreover have "walk_params (plen params) 0 (moq_buf_reader_init (Arr ?bs)) = (Inr qs, \<lparr>rd_data = Arr ?bs, rd_pos = length ?bs\<rparr>)"
    using all walk_params_iff [OF rd_live_valid [OF init_live(1)]] scan_all_legal_iff by blast
  ultimately show ?thesis using out(1) same(1) by blast
qed

theorem encode_params_round_trip_witness:
  "\<exists>ps. list_all2 param_same demo_params ps
    \<and> moq_d22_decode_params 2 0 4 (moq_buf_reader_init (Arr [2, 7, 14, 1]))
      = (Inr (params_summary [2, 7, 14, 1] ps), \<lparr>rd_data = Arr [2, 7, 14, 1], rd_pos = 4\<rparr>)"
proof -
  have "length demo_params = 2" by (simp add: demo_params_def)
  then show ?thesis
    using encode_params_round_trip [OF _ _ demo_encode] by (auto simp: w_out_def)
qed

section \<open>Range filters\<close>

text \<open>The ranges of a filter, as the public iterator returns them.\<close>

fun walk_ranges :: "nat \<Rightarrow> u64 \<Rightarrow> moq_d22_range list rd" where
  "walk_ranges 0 previous_end = rd_return []"
| "walk_ranges (Suc n) previous_end = rd_then (moq_d22_range_next previous_end) (\<lambda>v.
     rd_then (walk_ranges n (rg_end v)) (\<lambda>vs. rd_return (v # vs)))"

text \<open>Each range starts at or behind the end of the one before, and only the last one may be open.\<close>

fun ranges_ascend :: "u64 \<Rightarrow> moq_d22_range list \<Rightarrow> bool" where
  "ranges_ascend previous_end [] \<longleftrightarrow> True"
| "ranges_ascend previous_end (v # vs) \<longleftrightarrow>
     previous_end \<le> rg_start v \<and> rg_start v \<le> rg_end v
     \<and> (rg_open_end v \<longrightarrow> rg_end v = UINT64_MAX \<and> vs = []) \<and> ranges_ascend (rg_end v) vs"

lemma scan_range_valid:
  assumes "scan_range previous_end r = (Inr (v, False), r')"
  shows "previous_end \<le> rg_start v \<and> rg_start v \<le> rg_end v
    \<and> (rg_open_end v \<longrightarrow> rg_end v = UINT64_MAX \<and> moq_buf_reader_remaining r' = 0)"
proof -
  from rd_local_okD [OF assms [unfolded scan_range_def Let_def]] obtain d c where
    step: "(if moq_buf_reader_remaining c = 0
        then (Inr (\<lparr>rg_start = if UINT64_MAX - previous_end < d then 0 else previous_end + d,
          rg_end = UINT64_MAX, rg_open_end = True\<rparr>, UINT64_MAX - previous_end < d), c)
        else rd_then moq_buf_read_vi64 (\<lambda>delta.
          if UINT64_MAX - (if UINT64_MAX - previous_end < d then 0 else previous_end + d) < delta
          then rd_return (\<lparr>rg_start = if UINT64_MAX - previous_end < d then 0 else previous_end + d,
            rg_end = UINT64_MAX, rg_open_end = False\<rparr>, True)
          else rd_return (\<lparr>rg_start = if UINT64_MAX - previous_end < d then 0 else previous_end + d,
            rg_end = (if UINT64_MAX - previous_end < d then 0 else previous_end + d) + delta, rg_open_end = False\<rparr>,
            UINT64_MAX - previous_end < d)) c) = (Inr (v, False), r')"
    by (elim rd_then_okE) auto
  show ?thesis
  proof (cases "moq_buf_reader_remaining c = 0")
    case True
    then show ?thesis using step delta_sum_ge [of previous_end d] u64_le_max by auto
  next
    case False
    then show ?thesis
      using step delta_sum_ge [of previous_end d] delta_sum_ge [of "previous_end + d"]
      by (auto simp: rd_return_def elim!: rd_then_okE split: if_splits)
  qed
qed

lemma ranges_loop_sticky: "ranges_loop type r previous count True = Inr (n, invalid) \<Longrightarrow> invalid"
proof (induction "moq_buf_reader_remaining r" arbitrary: r previous count rule: less_induct)
  case less
  show ?case
  proof (cases "moq_buf_reader_remaining r = 0")
    case True
    then show ?thesis using less.prems by (simp add: ranges_loop.simps)
  next
    case False
    with less.prems obtain v flag r1 where v: "scan_range previous r = (Inr (v, flag), r1)"
        and tail: "ranges_loop type r1 (rg_end v) (count + 1) True = Inr (n, invalid)"
      by (subst (asm) ranges_loop.simps) (auto split: prod.splits sum.splits)
    have "moq_buf_reader_remaining r1 < moq_buf_reader_remaining r"
      using scan_range_step [OF v] remaining_less by blast
    then show ?thesis using less.hyps tail by blast
  qed
qed

text \<open>Cursors over different spans with the same bytes left behave alike.\<close>

definition rd_alike :: "moq_buf_reader \<Rightarrow> moq_buf_reader \<Rightarrow> bool" where
  "rd_alike r q \<longleftrightarrow> rd_live r \<and> rd_live q \<and> rd_rest r = rd_rest q"

lemma exact_alike:
  assumes "rd_exact m" and "rd_alike r q" and "m r = (Inr a, r1)"
  shows "\<exists>q1. m q = (Inr a, q1) \<and> rd_alike r1 q1"
proof -
  have live: "rd_live r" "rd_live q" "rd_rest q = rd_rest r" using assms(2) by (simp_all add: rd_alike_def)
  from rd_exactE [OF assms(1) live(1) assms(3)] obtain bs rest where bs: "rd_rest r = bs @ rest"
      "r1 = r\<lparr>rd_pos := rd_pos r + length bs\<rparr>" "reads m bs a" by blast
  have q: "rd_rest q = bs @ rest" using bs(1) live(3) by simp
  have "rd_alike r1 (q\<lparr>rd_pos := rd_pos q + length bs\<rparr>)"
    using rd_live_advance [OF live(1) bs(1)] rd_live_advance [OF live(2) q] unfolding bs(2) rd_alike_def by simp
  then show ?thesis using readsD [OF bs(3) live(2) q] by blast
qed

lemma scan_range_alike:
  assumes "rd_alike r q" and "scan_range previous_end r = (Inr x, r1)"
  shows "\<exists>q1. scan_range previous_end q = (Inr x, q1) \<and> rd_alike r1 q1"
proof -
  from rd_local_okD [OF assms(2) [unfolded scan_range_def]] obtain d c
    where d: "moq_buf_read_vi64 r = (Inr d, c)" by (elim rd_then_okE) auto
  from exact_alike [OF rd_exact_vi64 assms(1) this] obtain c' where d': "moq_buf_read_vi64 q = (Inr d, c')" "rd_alike c c'"
    by blast
  have left: "moq_buf_reader_remaining c' = moq_buf_reader_remaining c"
    using d'(2) by (simp add: rd_alike_def remaining_rest)
  show ?thesis
  proof (cases "moq_buf_reader_remaining c = 0")
    case True
    then show ?thesis using assms(2) d d' left by (auto simp: scan_range_def Let_def rd_local_def rd_then_def)
  next
    case False
    then obtain e b where e: "moq_buf_read_vi64 c = (Inr e, b)"
      using rd_local_okD [OF assms(2) [unfolded scan_range_def Let_def]] d by (auto elim!: rd_then_okE)
    from exact_alike [OF rd_exact_vi64 d'(2) this] obtain b' where "moq_buf_read_vi64 c' = (Inr e, b')" "rd_alike b b'"
      by blast
    then show ?thesis using assms(2) d d' e left False
      by (auto simp: scan_range_def Let_def rd_local_def rd_then_def rd_return_def split: if_splits)
  qed
qed

lemma ranges_loop_walk:
  assumes "ranges_loop type r previous count False = Inr (n, False)" and "rd_alike r q"
  shows "\<exists>vs q'. walk_ranges (length vs) previous q = (Inr vs, q') \<and> moq_buf_reader_remaining q' = 0
    \<and> n = count + of_nat (length vs) \<and> ranges_ascend previous vs \<and> length vs \<le> moq_buf_reader_remaining r
    \<and> (type = 0x27 \<longrightarrow> (\<forall>v \<in> set vs. rg_start v \<le> 255 \<and> (rg_open_end v \<or> rg_end v \<le> 255)))"
  using assms
proof (induction "moq_buf_reader_remaining r" arbitrary: r q previous count rule: less_induct)
  case less
  show ?case
  proof (cases "moq_buf_reader_remaining r = 0")
    case True
    then show ?thesis using less.prems
      by (intro exI [of _ "[]"] exI [of _ q])
        (auto simp: ranges_loop.simps rd_return_def rd_alike_def remaining_rest)
  next
    case False
    with less.prems(1) obtain v flag r1 where v: "scan_range previous r = (Inr (v, flag), r1)"
        and tail: "ranges_loop type r1 (rg_end v) (count + 1)
          (flag \<or> type = 0x27 \<and> (255 < rg_start v \<or> \<not> rg_open_end v \<and> 255 < rg_end v)) = Inr (n, False)"
      by (subst (asm) ranges_loop.simps) (auto split: prod.splits sum.splits)
    have valid: "\<not> (flag \<or> type = 0x27 \<and> (255 < rg_start v \<or> \<not> rg_open_end v \<and> 255 < rg_end v))" (is "\<not> ?bad")
    proof
      assume "?bad"
      then show False using tail ranges_loop_sticky [of type r1 "rg_end v" "count + 1" n False] by simp
    qed
    then have ok: "\<not> flag" "type = 0x27 \<longrightarrow> rg_start v \<le> 255 \<and> (rg_open_end v \<or> rg_end v \<le> 255)"
      by (auto simp: not_less)
    have less_r: "moq_buf_reader_remaining r1 < moq_buf_reader_remaining r"
      using scan_range_step [OF v] remaining_less by blast
    from scan_range_alike [OF less.prems(2) v] obtain q1 where q: "scan_range previous q = (Inr (v, flag), q1)" and q1: "rd_alike r1 q1"
      by blast
    have "ranges_loop type r1 (rg_end v) (count + 1) False = Inr (n, False)" using tail valid by simp
    from less.hyps [OF less_r this q1] obtain vs q' where vs: "walk_ranges (length vs) (rg_end v) q1 = (Inr vs, q')"
        "moq_buf_reader_remaining q' = 0" "n = count + 1 + of_nat (length vs)" "ranges_ascend (rg_end v) vs"
        "length vs \<le> moq_buf_reader_remaining r1"
        "type = 0x27 \<longrightarrow> (\<forall>v \<in> set vs. rg_start v \<le> 255 \<and> (rg_open_end v \<or> rg_end v \<le> 255))" by blast
    have "reader_valid q" using less.prems(2) by (simp add: rd_alike_def)
    then have "moq_d22_range_next previous q = (Inr v, q1)"
      using q ok(1) by (simp add: moq_d22_range_next_def rd_local_def rd_then_def rd_return_def)
    then have "walk_ranges (length (v # vs)) previous q = (Inr (v # vs), q')"
      using vs(1) by (simp add: rd_then_def rd_return_def)
    moreover have "ranges_ascend previous (v # vs)" using scan_range_valid [of previous r v r1] v ok(1) vs(4,5) by auto
    ultimately show ?thesis using vs ok less_r by (intro exI [of _ "v # vs"] exI [of _ q']) auto
  qed
qed

lemma decode_ranges_loop:
  assumes "decode_ranges type (Arr bs) = Inr (f, False)" and "bs \<noteq> []"
  shows "\<exists>r. ranges_loop type r 0 0 False = Inr (rf_count f, False) \<and> rd_data r = Arr bs \<and> rd_pos r \<le> length bs
    \<and> rf_ranges f = ptake (moq_buf_reader_remaining r) (moq_buf_reader_ptr r)"
proof -
  let ?r = "moq_buf_reader_init (Arr bs)" and ?odd = "\<lambda>pt. (type = 0x28 \<or> type = 0x29) \<and> pt AND 1 \<noteq> 0"
  from assms obtain sid r0 pt r1 where byte: "read_byte ?r = (Inr sid, r0)"
      and pt1: "(if type = 0x28 \<or> type = 0x29 then rd_or MOQ_ERR_PROTO moq_buf_read_vi64 r0 else (Inr 0, r0)) = (Inr pt, r1)"
      and loop: "ranges_loop type r1 0 0 (?odd pt) = Inr (rf_count f, False)"
      and f: "rf_ranges f = ptake (moq_buf_reader_remaining r1) (moq_buf_reader_ptr r1)"
    unfolding decode_ranges_def by (auto split: if_splits prod.splits sum.splits)
  have r0: "reader_valid r0" "rd_data r0 = Arr bs"
    using rd_movesD [OF rd_moves_byte _ byte] init_live(1) by (auto simp: moq_buf_reader_init_def)
  have r1: "reader_valid r1 \<and> rd_data r1 = Arr bs"
  proof (cases "type = 0x28 \<or> type = 0x29")
    case True
    then have "moq_buf_read_vi64 r0 = (Inr pt, r1)" using pt1 by (auto simp: rd_or_def split: prod.splits sum.splits)
    then show ?thesis using io_vi64.rd_step r0 by metis
  next
    case False
    then show ?thesis using pt1 r0 by simp
  qed
  have "\<not> ?odd pt"
  proof
    assume "?odd pt"
    then show False using loop ranges_loop_sticky [of type r1 0 0 "rf_count f" False] by simp
  qed
  then have even: "((type = 0x28 \<or> type = 0x29) \<and> pt AND 1 \<noteq> 0) = False" by blast
  from loop [unfolded even] show ?thesis using f r1 by (intro exI [of _ r1]) (auto simp: reader_valid_def)
qed

text \<open>C25: a range filter value that the decoder accepts without objection lists, through the public
  iterator and to the end of its ranges, exactly the counted number of ranges; each starts at or behind the
  end of the one before it, none is inverted, only the last one may be open, and the bounds of the filter on
  priorities fit a byte.\<close>

theorem range_filter_walk:
  assumes "decode_ranges type (Arr bs) = Inr (f, False)" and "bs \<noteq> []" and "length bs \<le> 65535"
  shows "\<exists>vs q. walk_ranges (unat (rf_count f)) 0 (moq_buf_reader_init (rf_ranges f)) = (Inr vs, q)
    \<and> moq_buf_reader_remaining q = 0 \<and> length vs = unat (rf_count f) \<and> ranges_ascend 0 vs
    \<and> (type = 0x27 \<longrightarrow> (\<forall>v \<in> set vs. rg_start v \<le> 255 \<and> (rg_open_end v \<or> rg_end v \<le> 255)))"
proof -
  from decode_ranges_loop [OF assms(1,2)] obtain r where loop: "ranges_loop type r 0 0 False = Inr (rf_count f, False)"
      and r: "rd_data r = Arr bs" "rd_pos r \<le> length bs"
      and f: "rf_ranges f = ptake (moq_buf_reader_remaining r) (moq_buf_reader_ptr r)" by blast
  have live: "rd_live r" using r by (simp add: rd_live_def)
  then have "rd_alike r (moq_buf_reader_init (rf_ranges f))"
    unfolding f reader_ptr_rest [OF live] by (simp add: rd_alike_def init_live)
  from ranges_loop_walk [OF loop this] obtain vs q where vs:
      "walk_ranges (length vs) 0 (moq_buf_reader_init (rf_ranges f)) = (Inr vs, q)" "moq_buf_reader_remaining q = 0"
      "rf_count f = of_nat (length vs)" "ranges_ascend 0 vs" "length vs \<le> moq_buf_reader_remaining r"
      "type = 0x27 \<longrightarrow> (\<forall>v \<in> set vs. rg_start v \<le> 255 \<and> (rg_open_end v \<or> rg_end v \<le> 255))" by auto
  have "length vs < 2 ^ 64" using vs(5) r assms(3) by (auto simp: moq_buf_reader_remaining_def split: if_splits)
  then have "unat (rf_count f) = length vs" using vs(3) by (simp add: unat_of_nat_u64)
  then show ?thesis using vs by auto
qed

theorem range_filter_walk_witness:
  "\<exists>vs q. walk_ranges 2 0 (moq_buf_reader_init (Arr [5, 3, 2])) = (Inr vs, q) \<and> length vs = 2 \<and> ranges_ascend 0 vs"
proof -
  have "decode_ranges 0x25 (Arr [9, 5, 3, 2]) =
      Inr (\<lparr>rf_clear = False, rf_set_id = 9, rf_property_type = 0, rf_ranges = Arr [5, 3, 2], rf_count = 2\<rparr>, False)"
    by code_simp
  from range_filter_walk [OF this] show ?thesis by auto
qed

section \<open>Namespaces\<close>

definition ns22_bytes :: "u8 list list \<Rightarrow> u8 list" where
  "ns22_bytes fs = vi64_enc (of_nat (length fs)) @ concat (map span_bytes fs)"

definition ns22_ok :: "moq_namespace \<Rightarrow> bool" where
  "ns22_ok ns \<longleftrightarrow> plen ns \<le> 32 \<and> \<not> (is_null ns \<and> plen ns \<noteq> 0)
     \<and> (\<forall>p \<in> set (elems ns). \<not> is_null p \<and> plen p \<noteq> 0) \<and> sum_list (map plen (elems ns)) \<le> 4096"

lemma encode_ns_check_iff:
  "tot \<le> 4096 \<Longrightarrow> encode_ns_check tot ps \<longleftrightarrow>
   (\<forall>p \<in> set ps. \<not> is_null p \<and> plen p \<noteq> 0) \<and> tot + sum_list (map plen ps) \<le> 4096"
proof (induction ps arbitrary: tot)
  case (Cons p ps)
  show ?case
  proof (cases "4096 - tot < plen p")
    case True
    then show ?thesis by auto
  next
    case False
    then show ?thesis using Cons.IH [of "tot + plen p"] Cons.prems by auto
  qed
qed simp

lemma writes_spans: "\<forall>p \<in> set ps. \<not> is_null p \<and> plen p \<le> 65535 \<Longrightarrow>
  writes (write_spans ps) True (concat (map (\<lambda>p. span_bytes (elems p)) ps))"
proof (induction ps)
  case Nil
  then show ?case using writes_return by (simp add: writes_def)
next
  case (Cons p ps)
  have "write_spans (p # ps) = wr_then (write_span p) (write_spans ps)" by (intro ext) simp
  moreover have "writes (write_span p) True (span_bytes (elems p))"
    using writes_span [of p] Cons.prems by (simp add: bytes_given_def)
  ultimately show ?case using writes_then [OF _ Cons.IH, of "write_span p"] Cons.prems by simp
qed

lemma writes_namespace22:
  "writes (moq_d22_encode_namespace ns) (ns22_ok ns) (ns22_bytes (map elems (elems ns)))"
proof (cases "ns22_ok ns")
  case True
  then have n: "length (elems ns) = plen ns" by (cases ns) (auto simp: ns22_ok_def)
  have "plen p \<le> 65535" if "p \<in> set (elems ns)" for p
    using True member_le_sum_list [of "plen p" "map plen (elems ns)"] that by (auto simp: ns22_ok_def)
  then have "writes (write_spans (elems ns)) True (concat (map (\<lambda>p. span_bytes (elems p)) (elems ns)))"
    using True by (intro writes_spans) (auto simp: ns22_ok_def)
  from writes_local [OF writes_then [OF vi64_writes this, of "of_nat (plen ns)"]]
  have "writes (wr_local (wr_then (moq_buf_write_vi64 (of_nat (plen ns))) (write_spans (elems ns)))) True
      (ns22_bytes (map elems (elems ns)))"
    by (simp add: ns22_bytes_def n comp_def)
  from writes_guard [OF this, of _ True MOQ_ERR_INVAL "\<lambda>w. w"] show ?thesis
    using True by (auto simp: moq_d22_encode_namespace_def ns22_ok_def encode_ns_check_iff)
next
  case False
  then show ?thesis
    using encode_ns_check_iff [of 0 "elems ns"] by (auto simp: writes_def moq_d22_encode_namespace_def ns22_ok_def)
qed

lemma reads_ns22_fields:
  "\<forall>f \<in> set fs. f \<noteq> [] \<Longrightarrow> tot + sum_list (map length fs) \<le> 4096 \<Longrightarrow>
   reads (decode_ns_fields (length fs) tot) (concat (map span_bytes fs)) (tot + sum_list (map length fs))"
proof (induction fs arbitrary: tot)
  case Nil
  then show ?case by (simp add: reads_rd_return)
next
  case (Cons f fs)
  have "reads (read_span (4096 - tot)) (span_bytes f) (Arr f)" using Cons.prems by (intro reads_read_span) auto
  from reads_then [OF this, of _ "concat (map span_bytes fs)" "tot + length f + sum_list (map length fs)"]
  show ?case using Cons.IH [of "tot + length f"] Cons.prems by (simp add: add.assoc)
qed

lemma reads_namespace22:
  assumes "length fs \<le> 32" and "\<forall>f \<in> set fs. f \<noteq> []" and "sum_list (map length fs) \<le> 4096"
  shows "reads moq_d22_decode_namespace (ns22_bytes fs)
    \<lparr>dn_encoded = Arr (ns22_bytes fs), dn_fields = Arr (concat (map span_bytes fs)),
     dn_count = length fs, dn_value_bytes = sum_list (map length fs)\<rparr>"
proof -
  have "reads (decode_ns_fields (length fs) 0) (concat (map span_bytes fs)) (sum_list (map length fs))"
    using reads_ns22_fields [of fs 0] assms by simp
  note fields = reads_then_return [OF reads_rd_span [OF this], of "\<lambda>x. (length fs, x)"]
  have count: "unat (of_nat (length fs) :: u64) = length fs" "\<not> 32 < (of_nat (length fs) :: u64)"
    using assms(1) by (simp_all add: unat_of_nat_u64 word_less_nat_alt)
  let ?m = "rd_then moq_buf_read_vi64 (\<lambda>count.
      if 32 < count then rd_fail MOQ_ERR_PROTO
      else rd_then (rd_span (decode_ns_fields (unat count) 0)) (\<lambda>x. rd_return (unat count, x)))"
  have "reads ?m (ns22_bytes fs) (length fs, sum_list (map length fs), Arr (concat (map span_bytes fs)))"
    unfolding ns22_bytes_def by (rule reads_then [OF vi64_reads]) (use fields count in simp)
  from reads_local [OF reads_then_return [OF reads_rd_span [OF this], of "\<lambda>(x, encoded). \<lparr>dn_encoded = encoded,
      dn_fields = snd (snd x), dn_count = fst x, dn_value_bytes = fst (snd x)\<rparr>"]]
  have local: "reads (rd_local (rd_then (rd_span ?m) (\<lambda>x. rd_return (case x of (x, encoded) \<Rightarrow> \<lparr>dn_encoded = encoded,
      dn_fields = snd (snd x), dn_count = fst x, dn_value_bytes = fst (snd x)\<rparr>)))) (ns22_bytes fs)
      \<lparr>dn_encoded = Arr (ns22_bytes fs), dn_fields = Arr (concat (map span_bytes fs)),
       dn_count = length fs, dn_value_bytes = sum_list (map length fs)\<rparr>" by simp
  have same: "moq_d22_decode_namespace r = rd_local (rd_then (rd_span ?m) (\<lambda>x. rd_return (case x of (x, encoded) \<Rightarrow>
      \<lparr>dn_encoded = encoded, dn_fields = snd (snd x), dn_count = fst x, dn_value_bytes = fst (snd x)\<rparr>))) r"
    if "rd_live r" for r
    using that by (simp add: moq_d22_decode_namespace_def case_prod_unfold)
  show ?thesis by (rule reads_live_cong [THEN iffD2, rotated, OF local same])
qed

text \<open>C26: the namespace encoder succeeds exactly on at most 32 fields, none null or empty and at most 4096 bytes
  in all, when they fit; what it then appends decodes to the same number of fields, the same total length and
  exactly these bytes.\<close>

theorem d22_namespace_round_trip:
  assumes "writer_valid w"
  shows "(moq_d22_encode_namespace ns w = (MOQ_OK, w') \<longleftrightarrow>
      ns22_ok ns \<and> length (ns22_bytes (map elems (elems ns))) \<le> w_room w
      \<and> w' = w_append (ns22_bytes (map elems (elems ns))) w)
    \<and> (ns22_ok ns \<longrightarrow>
        moq_d22_decode_namespace (moq_buf_reader_init (Arr (ns22_bytes (map elems (elems ns))))) =
          (Inr \<lparr>dn_encoded = Arr (ns22_bytes (map elems (elems ns))),
                dn_fields = Arr (concat (map span_bytes (map elems (elems ns)))),
                dn_count = plen ns, dn_value_bytes = sum_list (map plen (elems ns))\<rparr>,
           \<lparr>rd_data = Arr (ns22_bytes (map elems (elems ns))),
            rd_pos = length (ns22_bytes (map elems (elems ns)))\<rparr>))"
proof (intro conjI impI)
  show "moq_d22_encode_namespace ns w = (MOQ_OK, w') \<longleftrightarrow>
      ns22_ok ns \<and> length (ns22_bytes (map elems (elems ns))) \<le> w_room w
      \<and> w' = w_append (ns22_bytes (map elems (elems ns))) w"
    by (rule writesD [OF writes_namespace22 assms])
next
  define fs where "fs = map elems (elems ns)"
  assume ok: "ns22_ok ns"
  have "length fs = plen ns" using ok by (cases ns) (auto simp: ns22_ok_def fs_def)
  moreover have "map length fs = map plen (elems ns)" using ok by (simp add: fs_def ns22_ok_def)
  moreover have "\<forall>f \<in> set fs. f \<noteq> []" using ok by (auto simp: fs_def ns22_ok_def dest!: plen_elems)
  ultimately show "moq_d22_decode_namespace (moq_buf_reader_init (Arr (ns22_bytes (map elems (elems ns))))) =
          (Inr \<lparr>dn_encoded = Arr (ns22_bytes (map elems (elems ns))),
                dn_fields = Arr (concat (map span_bytes (map elems (elems ns)))),
                dn_count = plen ns, dn_value_bytes = sum_list (map plen (elems ns))\<rparr>,
           \<lparr>rd_data = Arr (ns22_bytes (map elems (elems ns))),
            rd_pos = length (ns22_bytes (map elems (elems ns)))\<rparr>)"
    using reads_all [OF reads_namespace22 [of fs]] ok unfolding moq_buf_reader_init_def fs_def [symmetric]
    by (simp add: ns22_ok_def)
qed

theorem d22_namespace_round_trip_witness:
  "moq_d22_decode_namespace (moq_buf_reader_init (Arr (ns22_bytes [[97], [98, 99]]))) =
     (Inr \<lparr>dn_encoded = Arr (ns22_bytes [[97], [98, 99]]), dn_fields = Arr (span_bytes [97] @ span_bytes [98, 99]),
           dn_count = 2, dn_value_bytes = 3\<rparr>,
      \<lparr>rd_data = Arr (ns22_bytes [[97], [98, 99]]), rd_pos = length (ns22_bytes [[97], [98, 99]])\<rparr>)"
proof -
  have "writer_valid \<lparr>w_data = Arr [0, 0], w_pos = 0\<rparr>" by (simp add: writer_valid_def)
  moreover have "ns22_ok (Arr [Arr [97], Arr [98, 99]])" by (simp add: ns22_ok_def)
  ultimately show ?thesis using d22_namespace_round_trip [of _ "Arr [Arr [97], Arr [98, 99]]"] by (simp add: numeral_2_eq_2)
qed

end
