(* ===== verification/Handle.thy ===== *)
theory Handle
  imports Prelude
begin

text \<open>
  Handles (\<open>core/src/types.c\<close>): the packing of pool, session, generation and slot into 64 bits, the
  structural validity of a handle and its hash, and the public handle of a fill
  (\<open>core/src/session/fill_input.c\<close>).
\<close>

unbundle bit_operations_syntax

section \<open>Packing\<close>

abbreviation MOQ_HANDLE_POOL_FILL :: u32 where "MOQ_HANDLE_POOL_FILL \<equiv> 10"

definition moq_handle_pack :: "u32 \<Rightarrow> u16 \<Rightarrow> u32 \<Rightarrow> u32 \<Rightarrow> u64" where
  "moq_handle_pack pool_tag session_tag generation slot =
     (if pool_tag = 0 \<or> 0xF < pool_tag then 0
      else if session_tag = 0 then 0
      else if generation AND 1 = 0 then 0
      else if 0xFFFFFFF < generation then 0
      else if 0xFFFF < slot then 0
      else push_bit 60 (ucast pool_tag) OR push_bit 44 (ucast session_tag)
           OR push_bit 16 (ucast generation) OR ucast slot)"

definition moq_handle_pool_tag :: "u64 \<Rightarrow> u32" where
  "moq_handle_pool_tag h = ucast (drop_bit 60 h) AND 0xF"

definition moq_handle_session_tag :: "u64 \<Rightarrow> u16" where
  "moq_handle_session_tag h = ucast (drop_bit 44 h)"

definition moq_handle_generation :: "u64 \<Rightarrow> u32" where
  "moq_handle_generation h = ucast (drop_bit 16 h) AND 0xFFFFFFF"

definition moq_handle_slot :: "u64 \<Rightarrow> u32" where
  "moq_handle_slot h = ucast h AND 0xFFFF"

definition handle_valid :: "u64 \<Rightarrow> u32 \<Rightarrow> bool" where
  "handle_valid h expected_pool =
     (if h = 0 then False
      else if moq_handle_pool_tag h \<noteq> expected_pool then False
      else if moq_handle_session_tag h = 0 then False
      else if moq_handle_generation h AND 1 = 0 then False
      else True)"

definition handle_hash :: "u64 \<Rightarrow> u64" where
  "handle_hash h = h * 0x9E3779B97F4A7C15"

section \<open>The handle of a fill\<close>

definition moq_fill_is_valid :: "u64 \<Rightarrow> bool" where
  "moq_fill_is_valid h = handle_valid h MOQ_HANDLE_POOL_FILL"

definition MOQ_FILL_PUBLIC_GENERATION_MAX :: u64 where "MOQ_FILL_PUBLIC_GENERATION_MAX = 0x08000000"
definition MOQ_FILL_PUBLIC_SLOT_MAX :: nat where "MOQ_FILL_PUBLIC_SLOT_MAX = 0xffff"

record moq_fill_identity =
  id_slot :: nat
  id_generation :: u64

definition moq_fill_handle_encode :: "u16 \<Rightarrow> nat \<Rightarrow> u64 \<Rightarrow> moq_result + u64" where
  "moq_fill_handle_encode tag slot generation =
     (if tag = 0 \<or> MOQ_FILL_PUBLIC_SLOT_MAX < slot \<or> generation = 0
         \<or> MOQ_FILL_PUBLIC_GENERATION_MAX < generation
      then Inl MOQ_ERR_INVAL
      else let odd_generation = generation * 2 - 1 in
        Inr (moq_handle_pack MOQ_HANDLE_POOL_FILL tag (ucast odd_generation) (of_nat slot)))"

definition moq_fill_handle_decode :: "u16 \<Rightarrow> u64 \<Rightarrow> moq_result + moq_fill_identity" where
  "moq_fill_handle_decode tag handle =
     (if tag = 0 then Inl MOQ_ERR_INVAL
      else if \<not> moq_fill_is_valid handle then Inl MOQ_ERR_STALE_HANDLE
      else if moq_handle_session_tag handle \<noteq> tag then Inl MOQ_ERR_WRONG_SESSION
      else Inr \<lparr>id_slot = unat (moq_handle_slot handle),
                id_generation = (ucast (moq_handle_generation handle) + 1) div 2\<rparr>)"

section \<open>Fields\<close>

definition handle_fields :: "u32 \<Rightarrow> u16 \<Rightarrow> u32 \<Rightarrow> u32 \<Rightarrow> bool" where
  "handle_fields pool tag gen slot \<longleftrightarrow>
     pool \<noteq> 0 \<and> unat pool < 2 ^ 4 \<and> tag \<noteq> 0 \<and> gen AND 1 \<noteq> 0 \<and> unat gen < 2 ^ 28 \<and> unat slot < 2 ^ 16"

lemma pack_fields:
  "handle_fields pool tag gen slot \<Longrightarrow> moq_handle_pack pool tag gen slot
     = push_bit 60 (ucast pool) OR push_bit 44 (ucast tag) OR push_bit 16 (ucast gen) OR ucast slot"
  "\<not> handle_fields pool tag gen slot \<Longrightarrow> moq_handle_pack pool tag gen slot = 0"
  by (auto simp: handle_fields_def moq_handle_pack_def word_less_nat_alt split: if_splits)

lemma and_masks: "(x :: u32) AND 0xF = take_bit 4 x" "(x :: u32) AND 0xFFFF = take_bit 16 x"
    "(x :: u32) AND 0xFFFFFFF = take_bit 28 x"
  by (simp_all add: take_bit_eq_mask mask_eq_exp_minus_1)

lemmas handle_parts = moq_handle_pool_tag_def moq_handle_session_tag_def moq_handle_generation_def
  moq_handle_slot_def and_masks

lemma unpack_pack:
  assumes "handle_fields pool tag gen slot"
  shows "moq_handle_pool_tag (moq_handle_pack pool tag gen slot) = pool"
    "moq_handle_session_tag (moq_handle_pack pool tag gen slot) = tag"
    "moq_handle_generation (moq_handle_pack pool tag gen slot) = gen"
    "moq_handle_slot (moq_handle_pack pool tag gen slot) = slot"
proof -
  note bounds = assms [unfolded handle_fields_def]
  have b: "bit pool n \<Longrightarrow> n < 4" "bit gen n \<Longrightarrow> n < 28" "bit slot n \<Longrightarrow> n < 16" "bit tag n \<Longrightarrow> n < 16" for n
    using unat_less_bit [of pool 4 n] unat_less_bit [of gen 28 n] unat_less_bit [of slot 16 n] bounds
      bit_imp_le_length [of tag n] by simp_all
  show "moq_handle_pool_tag (moq_handle_pack pool tag gen slot) = pool"
    unfolding handle_parts pack_fields(1) [OF assms] by (rule bit_word_eqI) (auto simp: bit_simps dest: b)
  show "moq_handle_session_tag (moq_handle_pack pool tag gen slot) = tag"
    unfolding handle_parts pack_fields(1) [OF assms] by (rule bit_word_eqI) (auto simp: bit_simps dest: b)
  show "moq_handle_generation (moq_handle_pack pool tag gen slot) = gen"
    unfolding handle_parts pack_fields(1) [OF assms] by (rule bit_word_eqI) (auto simp: bit_simps dest: b)
  show "moq_handle_slot (moq_handle_pack pool tag gen slot) = slot"
    unfolding handle_parts pack_fields(1) [OF assms] by (rule bit_word_eqI) (auto simp: bit_simps dest: b)
qed

text \<open>A structurally valid handle is the packing of its fields.\<close>

lemma valid_fields:
  assumes "handle_valid h pool" and "pool \<noteq> 0"
  shows "handle_fields pool (moq_handle_session_tag h) (moq_handle_generation h) (moq_handle_slot h)"
proof -
  have "unat (moq_handle_pool_tag h) < 2 ^ 4" "unat (moq_handle_generation h) < 2 ^ 28"
    "unat (moq_handle_slot h) < 2 ^ 16"
    by (rule unat_less_bitI; simp add: handle_parts bit_simps)+
  with assms show ?thesis by (auto simp: handle_valid_def handle_fields_def split: if_splits)
qed

lemma pack_unpack:
  assumes "handle_valid h pool" and "pool \<noteq> 0"
  shows "moq_handle_pack pool (moq_handle_session_tag h) (moq_handle_generation h) (moq_handle_slot h) = h"
proof -
  have pool: "moq_handle_pool_tag h = pool" using assms(1) by (simp add: handle_valid_def split: if_splits)
  have "push_bit 60 (ucast (moq_handle_pool_tag h)) OR push_bit 44 (ucast (moq_handle_session_tag h))
      OR push_bit 16 (ucast (moq_handle_generation h)) OR ucast (moq_handle_slot h) = h"
    unfolding handle_parts
  proof (rule bit_word_eqI)
    fix n
    assume "n < LENGTH(64)"
    then show "bit (push_bit 60 (ucast (take_bit 4 (ucast (drop_bit 60 h) :: u32)))
        OR push_bit 44 (ucast (ucast (drop_bit 44 h) :: u16))
        OR push_bit 16 (ucast (take_bit 28 (ucast (drop_bit 16 h) :: u32)))
        OR ucast (take_bit 16 (ucast h :: u32)) :: u64) n \<longleftrightarrow> bit h n"
      by (cases "44 \<le> n"; cases "60 \<le> n") (auto simp: bit_simps)
  qed
  then show ?thesis
    unfolding pack_fields(1) [OF valid_fields [OF assms]] pool .
qed

section \<open>The fill handle\<close>

lemma unat_u32_up: "unat (ucast (x :: u32) :: u64) = unat x"
  using unsigned_less [of x, where 'a = nat] by (simp add: unsigned_ucast_eq take_bit_nat_eq_self)

text \<open>The odd generation of a handle and the generation it stands for.\<close>

lemma odd_generation:
  assumes "g \<noteq> 0" and "unat (g :: u64) \<le> 2 ^ 27"
  shows "unat (ucast (g * 2 - 1) :: u32) = 2 * unat g - 1"
    "(ucast (ucast (g * 2 - 1) :: u32) + 1) div 2 = g"
proof -
  have pos: "0 < unat g" using assms(1) by (simp add: unat_gt_0)
  have "unat (g * 2) = unat g * 2" using assms(2) by (subst unat_word_ariths) simp
  then have w: "unat (g * 2 - 1) = 2 * unat g - 1"
    using pos by (subst unat_sub) (auto simp: word_le_nat_alt)
  then show u: "unat (ucast (g * 2 - 1) :: u32) = 2 * unat g - 1"
    using assms(2) by (simp add: unsigned_ucast_eq take_bit_nat_eq_self)
  have "unat (ucast (ucast (g * 2 - 1) :: u32) :: u64) = 2 * unat g - 1"
    unfolding unat_u32_up by (rule u)
  then have "unat (ucast (ucast (g * 2 - 1) :: u32) + 1 :: u64) = 2 * unat g"
    using pos assms(2) by (subst unat_word_ariths) simp
  then show "(ucast (ucast (g * 2 - 1) :: u32) + 1) div 2 = g"
    by (intro word_unat_eq_iff [THEN iffD2]) (simp add: unat_div)
qed

lemma odd_and_1: "odd (unat x) \<Longrightarrow> x AND 1 \<noteq> 0" for x :: u32
  using bit_unsigned_iff [of x 0, where 'a = nat]
  by (simp add: bit_0 and_one_eq mod_2_eq_odd)

lemma and_1_odd: "x AND 1 \<noteq> 0 \<Longrightarrow> odd (unat x)" for x :: u32
  using bit_unsigned_iff [of x 0, where 'a = nat]
  by (simp add: bit_0 and_one_eq mod_2_eq_odd split: if_splits)

lemma fill_encode_fields:
  assumes "moq_fill_handle_encode tag slot g = Inr h"
  shows "handle_fields 10 tag (ucast (g * 2 - 1)) (of_nat slot)"
    "h = moq_handle_pack 10 tag (ucast (g * 2 - 1)) (of_nat slot)" "g \<noteq> 0" "unat g \<le> 2 ^ 27"
    "slot < 2 ^ 16" "tag \<noteq> 0"
proof -
  show g: "g \<noteq> 0" "unat g \<le> 2 ^ 27" and slot: "slot < 2 ^ 16" and tag: "tag \<noteq> 0"
    and "h = moq_handle_pack 10 tag (ucast (g * 2 - 1)) (of_nat slot)"
    using assms by (auto simp: moq_fill_handle_encode_def MOQ_FILL_PUBLIC_SLOT_MAX_def
        MOQ_FILL_PUBLIC_GENERATION_MAX_def not_less word_le_nat_alt Let_def split: if_splits)
  have "odd (unat (ucast (g * 2 - 1) :: u32))"
    using odd_generation(1) [OF g] g(1) by (simp add: unat_gt_0)
  then have "(ucast (g * 2 - 1) :: u32) AND 1 \<noteq> 0" by (rule odd_and_1)
  moreover have "unat (ucast (g * 2 - 1) :: u32) < 2 ^ 28" using odd_generation(1) [OF g] g by simp
  moreover have "unat (of_nat slot :: u32) < 2 ^ 16" using slot by (simp add: unat_of_nat)
  ultimately show "handle_fields 10 tag (ucast (g * 2 - 1)) (of_nat slot)"
    using tag by (simp add: handle_fields_def)
qed

lemma handle_hash_inj: "handle_hash h = handle_hash h' \<longleftrightarrow> h = h'"
proof -
  have one: "(0x9E3779B97F4A7C15 :: u64) * 17428512612931826493 = 1" by code_simp
  have "handle_hash x * 17428512612931826493 = x" for x
    unfolding handle_hash_def mult.assoc one by simp
  then show ?thesis by metis
qed

lemma pack_valid:
  assumes "handle_fields pool tag gen slot"
  shows "handle_valid (moq_handle_pack pool tag gen slot) pool"
proof -
  have "moq_handle_pack pool tag gen slot \<noteq> 0"
  proof
    assume "moq_handle_pack pool tag gen slot = 0"
    with unpack_pack(2) [OF assms] have "tag = 0" by (simp add: moq_handle_session_tag_def)
    with assms show False by (simp add: handle_fields_def)
  qed
  with assms show ?thesis by (simp add: handle_valid_def unpack_pack handle_fields_def)
qed

lemma fill_decode_encode:
  assumes "moq_fill_handle_decode tag f = Inr idn"
  shows "moq_fill_handle_encode tag (id_slot idn) (id_generation idn) = Inr f"
proof -
  define gen where "gen = moq_handle_generation f"
  have valid: "handle_valid f 10" and tag: "tag \<noteq> 0" "moq_handle_session_tag f = tag"
    and idn: "idn = \<lparr>id_slot = unat (moq_handle_slot f), id_generation = (ucast gen + 1) div 2\<rparr>"
    using assms by (auto simp: moq_fill_handle_decode_def moq_fill_is_valid_def gen_def split: if_splits)
  note fields = valid_fields [OF valid, simplified, unfolded handle_fields_def, folded gen_def]
  have "odd (unat gen)" using fields and_1_odd [of gen] by simp
  then obtain k where k: "unat gen = 2 * k + 1" by (rule oddE)
  have k_less: "k < 2 ^ 27" using fields k by simp
  have "unat (ucast gen + 1 :: u64) = 2 * k + 2"
    using k k_less by (subst unat_word_ariths) (simp add: unat_u32_up)
  then have g: "unat ((ucast gen + 1 :: u64) div 2) = k + 1" by (simp add: unat_div)
  define g where "g = (ucast gen + 1 :: u64) div 2"
  have bounds: "g \<noteq> 0" "unat g \<le> 2 ^ 27" using g k_less unfolding g_def [symmetric] by auto
  have "unat (ucast (g * 2 - 1) :: u32) = unat gen"
    using odd_generation(1) [OF bounds] g k unfolding g_def [symmetric] by simp
  then have "ucast (g * 2 - 1) = gen" by (simp add: word_unat_eq_iff)
  moreover have "of_nat (unat (moq_handle_slot f)) = moq_handle_slot f" by simp
  moreover have "\<not> MOQ_FILL_PUBLIC_GENERATION_MAX < g" "\<not> MOQ_FILL_PUBLIC_SLOT_MAX < unat (moq_handle_slot f)"
    using bounds fields by (auto simp: MOQ_FILL_PUBLIC_GENERATION_MAX_def MOQ_FILL_PUBLIC_SLOT_MAX_def
        word_less_nat_alt)
  ultimately show ?thesis
    using pack_unpack [OF valid] tag bounds unfolding idn gen_def [symmetric]
    by (simp add: moq_fill_handle_encode_def g_def [symmetric] Let_def)
qed

lemma unat_u32_of_nat: "n < 2 ^ 16 \<Longrightarrow> unat (of_nat n :: u32) = n"
  by (simp add: unat_of_nat)

section \<open>Properties\<close>

text \<open>C33: handles identify. The packing of fields in range is a valid handle of its pool from which
  every field is read back, any other packing is 0, which is valid for no pool, and every valid handle
  is the packing of the fields read from it; distinct handles have distinct hashes. A fill handle
  decodes, for the session it was made for, to the slot and generation it was made of, and is refused
  for any other session; a handle that decodes is the one the encoder makes of its identity.\<close>

theorem handles_identify:
  assumes "pool \<noteq> 0"
  shows "(handle_fields pool tag gen slot \<longrightarrow>
      (let h = moq_handle_pack pool tag gen slot in
         handle_valid h pool \<and> moq_handle_pool_tag h = pool \<and> moq_handle_session_tag h = tag
         \<and> moq_handle_generation h = gen \<and> moq_handle_slot h = slot))
    \<and> (\<not> handle_fields pool tag gen slot \<longrightarrow> moq_handle_pack pool tag gen slot = 0 \<and> \<not> handle_valid 0 pool)
    \<and> (handle_valid h pool \<longrightarrow> moq_handle_pack pool (moq_handle_session_tag h) (moq_handle_generation h)
        (moq_handle_slot h) = h)
    \<and> (handle_hash h = handle_hash h' \<longleftrightarrow> h = h')
    \<and> (moq_fill_handle_encode tag n g = Inr f \<longrightarrow>
        moq_fill_handle_decode tag f = Inr \<lparr>id_slot = n, id_generation = g\<rparr>
        \<and> (tag' \<noteq> 0 \<and> tag' \<noteq> tag \<longrightarrow> moq_fill_handle_decode tag' f = Inl MOQ_ERR_WRONG_SESSION))
    \<and> (moq_fill_handle_decode tag f = Inr idn \<longrightarrow>
        moq_fill_handle_encode tag (id_slot idn) (id_generation idn) = Inr f)"
proof (intro conjI impI)
  assume "handle_fields pool tag gen slot"
  then show "let h = moq_handle_pack pool tag gen slot in
         handle_valid h pool \<and> moq_handle_pool_tag h = pool \<and> moq_handle_session_tag h = tag
         \<and> moq_handle_generation h = gen \<and> moq_handle_slot h = slot"
    by (simp add: Let_def unpack_pack pack_valid)
next
  assume "moq_fill_handle_encode tag n g = Inr f"
  note f = fill_encode_fields [OF this]
  then show "moq_fill_handle_decode tag f = Inr \<lparr>id_slot = n, id_generation = g\<rparr>"
    using pack_valid [OF f(1)] odd_generation(2) [OF f(3,4)] unat_u32_of_nat [OF f(5)]
    by (simp add: moq_fill_handle_decode_def moq_fill_is_valid_def unpack_pack)
  assume "tag' \<noteq> 0 \<and> tag' \<noteq> tag"
  then show "moq_fill_handle_decode tag' f = Inl MOQ_ERR_WRONG_SESSION"
    using pack_valid [OF f(1)] f(1,2)
    by (auto simp: moq_fill_handle_decode_def moq_fill_is_valid_def unpack_pack)
next
  assume "moq_fill_handle_decode tag f = Inr idn"
  then show "moq_fill_handle_encode tag (id_slot idn) (id_generation idn) = Inr f"
    by (rule fill_decode_encode)
qed (auto simp: pack_fields handle_valid_def pack_unpack [OF _ assms] handle_hash_inj)

theorem handles_identify_witness:
  "moq_fill_handle_encode 7 3 2 = Inr 0xA000700000030003
   \<and> moq_fill_handle_decode 7 0xA000700000030003 = Inr \<lparr>id_slot = 3, id_generation = 2\<rparr>
   \<and> moq_fill_handle_decode 8 0xA000700000030003 = Inl MOQ_ERR_WRONG_SESSION"
proof -
  have enc: "moq_fill_handle_encode 7 3 2 = Inr 0xA000700000030003" by code_simp
  have "(10 :: u32) \<noteq> 0" by simp
  from handles_identify [OF this, of 7 _ _ _ _ 3 2 "0xA000700000030003" 8] enc
  show ?thesis by simp
qed

end
