(* ===== verification/Location.thy ===== *)
theory Location
  imports ControlD22 "HOL-Library.Product_Lexorder"
begin

text \<open>
  Location filters: the public configuration (\<open>moq/location.h\<close>), the core form and the window it is
  resolved to (\<open>core/src/session/session_track_hist.c\<close>), the membership tests of the publisher
  (\<open>core/src/facade/publisher.c\<close>) and of the subscriber (\<open>core/src/session/session_subscribe.c\<close>),
  the draft-22 wire form (\<open>core/src/session/location_d22.c\<close>, \<open>profile_d22.c\<close>), and the range of a fill
  (\<open>core/src/session/fill_range.c\<close>, \<open>fill_input.c\<close>). A Location is a pair of a group and an object
  in lexicographic order. An output parameter is a result; it is unspecified when the call fails.
\<close>

unbundle bit_operations_syntax

type_synonym moq_location = "u64 \<times> u64"

section \<open>Filter codes\<close>

abbreviation MOQ_SUBSCRIBE_FILTER_NONE :: u32 where "MOQ_SUBSCRIBE_FILTER_NONE \<equiv> 0"
abbreviation MOQ_SUBSCRIBE_FILTER_NEXT_GROUP :: u32 where "MOQ_SUBSCRIBE_FILTER_NEXT_GROUP \<equiv> 1"
abbreviation MOQ_SUBSCRIBE_FILTER_LARGEST_OBJECT :: u32 where "MOQ_SUBSCRIBE_FILTER_LARGEST_OBJECT \<equiv> 2"
abbreviation MOQ_SUBSCRIBE_FILTER_ABSOLUTE_START :: u32 where "MOQ_SUBSCRIBE_FILTER_ABSOLUTE_START \<equiv> 3"
abbreviation MOQ_SUBSCRIBE_FILTER_ABSOLUTE_RANGE :: u32 where "MOQ_SUBSCRIBE_FILTER_ABSOLUTE_RANGE \<equiv> 4"
abbreviation MOQ_SUBSCRIBE_FILTER_RELATIVE_GROUP_INTERNAL :: u32 where
  "MOQ_SUBSCRIBE_FILTER_RELATIVE_GROUP_INTERNAL \<equiv> 0x101"
abbreviation MOQ_SUBSCRIBE_FILTER_OBJECT_END_INTERNAL :: u32 where
  "MOQ_SUBSCRIBE_FILTER_OBJECT_END_INTERNAL \<equiv> 0x104"

abbreviation MOQ_LOCATION_FILTER_NONE :: u32 where "MOQ_LOCATION_FILTER_NONE \<equiv> 0"
abbreviation MOQ_LOCATION_FILTER_RELATIVE_GROUP :: u32 where "MOQ_LOCATION_FILTER_RELATIVE_GROUP \<equiv> 1"
abbreviation MOQ_LOCATION_FILTER_ABSOLUTE_START :: u32 where "MOQ_LOCATION_FILTER_ABSOLUTE_START \<equiv> 2"
abbreviation MOQ_LOCATION_FILTER_GROUP_END :: u32 where "MOQ_LOCATION_FILTER_GROUP_END \<equiv> 3"
abbreviation MOQ_LOCATION_FILTER_OBJECT_END :: u32 where "MOQ_LOCATION_FILTER_OBJECT_END \<equiv> 4"
abbreviation MOQ_LOCATION_FILTER_NEXT_OBJECT :: u32 where "MOQ_LOCATION_FILTER_NEXT_OBJECT \<equiv> 5"

abbreviation MOQ_LOCATION_FILTER_CFG_V0_SIZE :: u32 where "MOQ_LOCATION_FILTER_CFG_V0_SIZE \<equiv> 48"

section \<open>Data\<close>

record moq_location_filter_cfg =
  lc_struct_size :: u32
  lc_kind :: u32
  lc_relative_group_offset :: u64
  lc_start_group :: u64
  lc_start_object :: u64
  lc_end_group :: u64
  lc_end_object :: u64

record moq_core_filter =
  cf_type :: u32
  cf_start_group :: u64
  cf_start_object :: u64
  cf_end_group :: u64
  cf_end_object :: u64

record moq_resolved_window =
  rw_has_window :: bool
  rw_unsatisfiable :: bool
  rw_has_end :: bool
  rw_has_end_object :: bool
  rw_filter :: u32
  rw_start_group :: u64
  rw_start_object :: u64
  rw_end_group :: u64
  rw_end_object :: u64

record moq_filter_window =
  fw_struct_size :: u32
  fw_resolved :: bool
  fw_empty :: bool
  fw_has_end :: bool
  fw_has_end_object :: bool
  fw_start_group :: u64
  fw_start_object :: u64
  fw_end_group :: u64
  fw_end_object :: u64

definition moq_location_filter_cfg_init :: moq_location_filter_cfg where
  "moq_location_filter_cfg_init = \<lparr>lc_struct_size = 48, lc_kind = MOQ_LOCATION_FILTER_NONE,
     lc_relative_group_offset = 0, lc_start_group = 0, lc_start_object = 0, lc_end_group = 0,
     lc_end_object = 0\<rparr>"

definition core_filter_zero :: moq_core_filter where
  "core_filter_zero = \<lparr>cf_type = MOQ_SUBSCRIBE_FILTER_NONE, cf_start_group = 0, cf_start_object = 0,
     cf_end_group = 0, cf_end_object = 0\<rparr>"

definition resolved_window_zero :: moq_resolved_window where
  "resolved_window_zero = \<lparr>rw_has_window = False, rw_unsatisfiable = False, rw_has_end = False,
     rw_has_end_object = False, rw_filter = 0, rw_start_group = 0, rw_start_object = 0,
     rw_end_group = 0, rw_end_object = 0\<rparr>"

section \<open>The public form and the core form\<close>

definition moq_location_filter_from_core :: "moq_core_filter \<Rightarrow> nat \<Rightarrow> moq_location_filter_cfg" where
  "moq_location_filter_from_core f out_size =
     (let v = moq_location_filter_cfg_init;
          v = (if cf_type f = MOQ_SUBSCRIBE_FILTER_NEXT_GROUP then
                 v\<lparr>lc_kind := MOQ_LOCATION_FILTER_RELATIVE_GROUP, lc_relative_group_offset := 0\<rparr>
               else if cf_type f = MOQ_SUBSCRIBE_FILTER_RELATIVE_GROUP_INTERNAL then
                 v\<lparr>lc_kind := MOQ_LOCATION_FILTER_RELATIVE_GROUP,
                   lc_relative_group_offset := cf_start_group f\<rparr>
               else if cf_type f = MOQ_SUBSCRIBE_FILTER_LARGEST_OBJECT then
                 v\<lparr>lc_kind := MOQ_LOCATION_FILTER_NEXT_OBJECT\<rparr>
               else if cf_type f = MOQ_SUBSCRIBE_FILTER_ABSOLUTE_START then
                 v\<lparr>lc_kind := MOQ_LOCATION_FILTER_ABSOLUTE_START,
                   lc_start_group := cf_start_group f, lc_start_object := cf_start_object f\<rparr>
               else if cf_type f = MOQ_SUBSCRIBE_FILTER_ABSOLUTE_RANGE then
                 v\<lparr>lc_kind := MOQ_LOCATION_FILTER_GROUP_END,
                   lc_start_group := cf_start_group f, lc_start_object := cf_start_object f,
                   lc_end_group := cf_end_group f\<rparr>
               else if cf_type f = MOQ_SUBSCRIBE_FILTER_OBJECT_END_INTERNAL then
                 v\<lparr>lc_kind := MOQ_LOCATION_FILTER_OBJECT_END,
                   lc_start_group := cf_start_group f, lc_start_object := cf_start_object f,
                   lc_end_group := cf_end_group f, lc_end_object := cf_end_object f\<rparr>
               else v\<lparr>lc_kind := MOQ_LOCATION_FILTER_NONE\<rparr>) in
      v\<lparr>lc_struct_size := of_nat (if out_size < 48 then out_size else 48)\<rparr>)"

definition moq_location_filter_to_core ::
  "moq_location_filter_cfg \<Rightarrow> moq_result + moq_core_filter" where
  "moq_location_filter_to_core cfg =
     (if lc_struct_size cfg < MOQ_LOCATION_FILTER_CFG_V0_SIZE then Inl MOQ_ERR_ABI_MISMATCH
      else let z = core_filter_zero in
        if lc_kind cfg = MOQ_LOCATION_FILTER_NONE then Inr (z\<lparr>cf_type := MOQ_SUBSCRIBE_FILTER_NONE\<rparr>)
        else if lc_kind cfg = MOQ_LOCATION_FILTER_RELATIVE_GROUP then
          (if lc_relative_group_offset cfg = 0 then Inr (z\<lparr>cf_type := MOQ_SUBSCRIBE_FILTER_NEXT_GROUP\<rparr>)
           else Inr (z\<lparr>cf_type := MOQ_SUBSCRIBE_FILTER_RELATIVE_GROUP_INTERNAL,
                       cf_start_group := lc_relative_group_offset cfg\<rparr>))
        else if lc_kind cfg = MOQ_LOCATION_FILTER_NEXT_OBJECT then
          Inr (z\<lparr>cf_type := MOQ_SUBSCRIBE_FILTER_LARGEST_OBJECT\<rparr>)
        else if lc_kind cfg = MOQ_LOCATION_FILTER_ABSOLUTE_START then
          Inr (z\<lparr>cf_type := MOQ_SUBSCRIBE_FILTER_ABSOLUTE_START,
                 cf_start_group := lc_start_group cfg, cf_start_object := lc_start_object cfg\<rparr>)
        else if lc_kind cfg = MOQ_LOCATION_FILTER_GROUP_END then
          (if lc_end_group cfg < lc_start_group cfg then Inl MOQ_ERR_INVAL
           else Inr (z\<lparr>cf_type := MOQ_SUBSCRIBE_FILTER_ABSOLUTE_RANGE,
                       cf_start_group := lc_start_group cfg, cf_start_object := lc_start_object cfg,
                       cf_end_group := lc_end_group cfg\<rparr>))
        else if lc_kind cfg = MOQ_LOCATION_FILTER_OBJECT_END then
          (if lc_end_group cfg < lc_start_group cfg then Inl MOQ_ERR_INVAL
           else Inr (z\<lparr>cf_type := MOQ_SUBSCRIBE_FILTER_OBJECT_END_INTERNAL,
                       cf_start_group := lc_start_group cfg, cf_start_object := lc_start_object cfg,
                       cf_end_group := lc_end_group cfg, cf_end_object := lc_end_object cfg\<rparr>))
        else Inl MOQ_ERR_INVAL)"

text \<open>\<open>relative_group_clamps\<close> is the field of the session's profile.\<close>

definition moq_local_filter_normalize :: "bool \<Rightarrow> u32 \<Rightarrow> u64 \<Rightarrow> u32 \<times> u64" where
  "moq_local_filter_normalize relative_group_clamps filter_type start_group =
     (if filter_type = MOQ_SUBSCRIBE_FILTER_NEXT_GROUP \<and> relative_group_clamps
      then (MOQ_SUBSCRIBE_FILTER_RELATIVE_GROUP_INTERNAL, 0) else (filter_type, start_group))"

section \<open>Resolution to a window\<close>

text \<open>\<open>None\<close> is the return of \<open>true\<close>: no representable successor, and nothing is written.\<close>

definition moq_loc_successor :: "u64 \<Rightarrow> u64 \<Rightarrow> u64 \<Rightarrow> moq_location option" where
  "moq_loc_successor grp object ceiling =
     (if object < ceiling then Some (grp, object + 1)
      else if grp < ceiling then Some (grp + 1, 0)
      else None)"

text \<open>The structure has 40 bytes and ends with \<open>end_object\<close>, so an accepted size covers all of it.\<close>

definition moq_filter_window_out :: "moq_resolved_window \<Rightarrow> nat \<Rightarrow> moq_result + moq_filter_window" where
  "moq_filter_window_out w out_size =
     (if out_size < 40 then Inl MOQ_ERR_INVAL
      else let has = rw_has_window w; end_obj = has \<and> rw_has_end w \<and> rw_has_end_object w in
        Inr \<lparr>fw_struct_size = of_nat (if out_size < 40 then out_size else 40), fw_resolved = has,
             fw_empty = (has \<and> rw_unsatisfiable w), fw_has_end = (has \<and> rw_has_end w),
             fw_has_end_object = end_obj,
             fw_start_group = (if has then rw_start_group w else 0),
             fw_start_object = (if has then rw_start_object w else 0),
             fw_end_group = (if has \<and> rw_has_end w then rw_end_group w else 0),
             fw_end_object = (if end_obj then rw_end_object w else 0)\<rparr>)"

text \<open>The window that starts at the successor, or the unsatisfiable one.\<close>

definition window_after :: "moq_location option \<Rightarrow> moq_resolved_window \<Rightarrow> moq_resolved_window" where
  "window_after start w =
     (case start of None \<Rightarrow> w\<lparr>rw_unsatisfiable := True\<rparr>
      | Some (g, ob) \<Rightarrow> w\<lparr>rw_start_group := g, rw_start_object := ob\<rparr>)"

text \<open>\<open>snap\<close> is \<open>Some (snap_group, snap_object)\<close> when \<open>has_snap\<close>.\<close>

definition moq_resolve_filter_window ::
  "moq_core_filter \<Rightarrow> moq_location option \<Rightarrow> u64 \<Rightarrow> moq_resolved_window" where
  "moq_resolve_filter_window f snap ceiling =
     (let out = resolved_window_zero\<lparr>rw_has_window := True, rw_filter := cf_type f\<rparr>;
          absolute = out\<lparr>rw_start_group := cf_start_group f, rw_start_object := cf_start_object f\<rparr> in
      if cf_type f = MOQ_SUBSCRIBE_FILTER_NEXT_GROUP then
        (case snap of None \<Rightarrow> out
         | Some (snap_group, snap_object) \<Rightarrow>
             window_after (moq_loc_successor snap_group ceiling ceiling) out)
      else if cf_type f = MOQ_SUBSCRIBE_FILTER_LARGEST_OBJECT then
        (case snap of None \<Rightarrow> out
         | Some (snap_group, snap_object) \<Rightarrow>
             window_after (moq_loc_successor snap_group snap_object ceiling) out)
      else if cf_type f = MOQ_SUBSCRIBE_FILTER_ABSOLUTE_START then absolute
      else if cf_type f = MOQ_SUBSCRIBE_FILTER_ABSOLUTE_RANGE then
        absolute\<lparr>rw_has_end := True, rw_end_group := cf_end_group f\<rparr>
      else if cf_type f = MOQ_SUBSCRIBE_FILTER_OBJECT_END_INTERNAL then
        absolute\<lparr>rw_has_end := True, rw_end_group := cf_end_group f, rw_has_end_object := True,
                 rw_end_object := cf_end_object f\<rparr>
      else if cf_type f = MOQ_SUBSCRIBE_FILTER_RELATIVE_GROUP_INTERNAL then
        (case snap of None \<Rightarrow> out
         | Some (snap_group, snap_object) \<Rightarrow>
             if cf_start_group f = 0 then
               out\<lparr>rw_start_group := (if snap_group = UINT64_MAX then UINT64_MAX else snap_group + 1)\<rparr>
             else let back = cf_start_group f - 1 in
               out\<lparr>rw_start_group := (if snap_group < back then 0 else snap_group - back),
                   rw_start_object := 0\<rparr>)
      else out)"

section \<open>Membership\<close>

definition window_admits :: "moq_resolved_window \<Rightarrow> u64 \<Rightarrow> u64 \<Rightarrow> bool" where
  "window_admits w group_id object_id =
     (if \<not> rw_has_window w then True
      else if rw_unsatisfiable w then False
      else if group_id < rw_start_group w \<or> (group_id = rw_start_group w \<and> object_id < rw_start_object w)
      then False
      else if rw_has_end w \<and> rw_end_group w < group_id then False
      else if rw_has_end_object w \<and> group_id = rw_end_group w \<and> rw_end_object w < object_id then False
      else True)"

definition window_admits_group :: "moq_resolved_window \<Rightarrow> u64 \<Rightarrow> bool" where
  "window_admits_group w group_id =
     (if \<not> rw_has_window w then True
      else if rw_unsatisfiable w then False
      else if group_id < rw_start_group w then False
      else if rw_has_end w \<and> rw_end_group w < group_id then False
      else True)"

definition window_owes :: "moq_resolved_window \<Rightarrow> u64 \<Rightarrow> u64 \<Rightarrow> bool" where
  "window_owes w group_id object_id =
     (if \<not> rw_has_window w \<or> rw_unsatisfiable w then True
      else \<not> (group_id < rw_start_group w
               \<or> (group_id = rw_start_group w \<and> object_id < rw_start_object w)))"

text \<open>The entry of a subscription is represented by its fields \<open>forward\<close> and \<open>window\<close>.\<close>

definition sub_accepts_group :: "moq_resolved_window \<Rightarrow> u64 \<Rightarrow> bool" where
  "sub_accepts_group w grp =
     (if \<not> rw_has_window w then True
      else if rw_unsatisfiable w then False
      else if grp < rw_start_group w then False
      else if rw_has_end w \<and> rw_end_group w < grp then False
      else True)"

definition sub_accepts_object :: "bool \<Rightarrow> moq_resolved_window \<Rightarrow> u64 \<Rightarrow> u64 \<Rightarrow> bool" where
  "sub_accepts_object forward w grp object =
     (if \<not> forward then False
      else if \<not> sub_accepts_group w grp then False
      else if \<not> rw_has_window w then True
      else if grp = rw_start_group w \<and> object < rw_start_object w then False
      else if rw_has_end_object w \<and> grp = rw_end_group w \<and> rw_end_object w < object then False
      else True)"

section \<open>The draft-22 wire form\<close>

definition d22_filter_zero :: moq_d22_location_filter where
  "d22_filter_zero = \<lparr>lf_type = MOQ_D22_FILTER_NONE, lf_start_group = 0, lf_start_object = 0,
     lf_end_group_delta = 0, lf_end_object = 0\<rparr>"

definition moq_d22_from_location_cfg ::
  "moq_location_filter_cfg \<Rightarrow> moq_result + moq_d22_location_filter" where
  "moq_d22_from_location_cfg cfg =
     (if lc_struct_size cfg < MOQ_LOCATION_FILTER_CFG_V0_SIZE then Inl MOQ_ERR_ABI_MISMATCH
      else let z = d22_filter_zero in
        if lc_kind cfg = MOQ_LOCATION_FILTER_NONE then Inr (z\<lparr>lf_type := MOQ_D22_FILTER_NONE\<rparr>)
        else if lc_kind cfg = MOQ_LOCATION_FILTER_RELATIVE_GROUP then
          Inr (z\<lparr>lf_type := MOQ_D22_FILTER_RELATIVE, lf_start_group := lc_relative_group_offset cfg\<rparr>)
        else if lc_kind cfg = MOQ_LOCATION_FILTER_ABSOLUTE_START then
          Inr (z\<lparr>lf_type := MOQ_D22_FILTER_ABSOLUTE, lf_start_group := lc_start_group cfg,
                 lf_start_object := lc_start_object cfg\<rparr>)
        else if lc_kind cfg = MOQ_LOCATION_FILTER_GROUP_END \<or> lc_kind cfg = MOQ_LOCATION_FILTER_OBJECT_END then
          (if lc_end_group cfg < lc_start_group cfg then Inl MOQ_ERR_INVAL
           else Inr (z\<lparr>lf_type := (if lc_kind cfg = MOQ_LOCATION_FILTER_GROUP_END
                                    then MOQ_D22_FILTER_GROUP_END else MOQ_D22_FILTER_RANGE),
                       lf_start_group := lc_start_group cfg, lf_start_object := lc_start_object cfg,
                       lf_end_group_delta := lc_end_group cfg - lc_start_group cfg,
                       lf_end_object := (if lc_kind cfg = MOQ_LOCATION_FILTER_OBJECT_END
                                         then lc_end_object cfg else 0)\<rparr>))
        else if lc_kind cfg = MOQ_LOCATION_FILTER_NEXT_OBJECT then
          Inr (z\<lparr>lf_type := MOQ_D22_FILTER_NEXT_OBJECT\<rparr>)
        else Inl MOQ_ERR_INVAL)"

definition moq_d22_from_subscription_filter ::
  "moq_core_filter \<Rightarrow> moq_result + moq_d22_location_filter" where
  "moq_d22_from_subscription_filter f =
     (let z = d22_filter_zero;
          bounded = z\<lparr>lf_start_group := cf_start_group f, lf_start_object := cf_start_object f,
                      lf_end_group_delta := cf_end_group f - cf_start_group f\<rparr> in
      if cf_type f = MOQ_SUBSCRIBE_FILTER_NONE then Inr (z\<lparr>lf_type := MOQ_D22_FILTER_NONE\<rparr>)
      else if cf_type f = MOQ_SUBSCRIBE_FILTER_NEXT_GROUP then
        Inr (z\<lparr>lf_type := MOQ_D22_FILTER_RELATIVE, lf_start_group := 0\<rparr>)
      else if cf_type f = MOQ_SUBSCRIBE_FILTER_RELATIVE_GROUP_INTERNAL then
        Inr (z\<lparr>lf_type := MOQ_D22_FILTER_RELATIVE, lf_start_group := cf_start_group f\<rparr>)
      else if cf_type f = MOQ_SUBSCRIBE_FILTER_OBJECT_END_INTERNAL then
        (if cf_end_group f < cf_start_group f then Inl MOQ_ERR_INVAL
         else Inr (bounded\<lparr>lf_type := MOQ_D22_FILTER_RANGE, lf_end_object := cf_end_object f\<rparr>))
      else if cf_type f = MOQ_SUBSCRIBE_FILTER_LARGEST_OBJECT then
        Inr (z\<lparr>lf_type := MOQ_D22_FILTER_NEXT_OBJECT\<rparr>)
      else if cf_type f = MOQ_SUBSCRIBE_FILTER_ABSOLUTE_START then
        Inr (z\<lparr>lf_type := MOQ_D22_FILTER_ABSOLUTE, lf_start_group := cf_start_group f,
               lf_start_object := cf_start_object f\<rparr>)
      else if cf_type f = MOQ_SUBSCRIBE_FILTER_ABSOLUTE_RANGE then
        (if cf_end_group f < cf_start_group f then Inl MOQ_ERR_INVAL
         else Inr (bounded\<lparr>lf_type := MOQ_D22_FILTER_GROUP_END\<rparr>))
      else Inl MOQ_ERR_INVAL)"

definition moq_d22_from_fetch_range ::
  "u64 \<Rightarrow> u64 \<Rightarrow> u64 \<Rightarrow> u64 \<Rightarrow> moq_result + moq_d22_location_filter" where
  "moq_d22_from_fetch_range start_group start_object end_group end_object =
     (if end_group < start_group
         \<or> (end_group = start_group \<and> end_object \<noteq> 0 \<and> end_object \<le> start_object)
      then Inl MOQ_ERR_INVAL
      else Inr \<lparr>lf_type = (if end_object = 0 then MOQ_D22_FILTER_GROUP_END else MOQ_D22_FILTER_RANGE),
                lf_start_group = start_group, lf_start_object = start_object,
                lf_end_group_delta = end_group - start_group,
                lf_end_object = (if end_object = 0 then 0 else end_object - 1)\<rparr>)"

text \<open>A decoded filter as the core's record; the flag is \<open>present\<close>.\<close>

definition d22_filter_record :: "moq_d22_location_filter \<Rightarrow> bool \<times> moq_core_filter" where
  "d22_filter_record f =
     (let z = core_filter_zero;
          start = z\<lparr>cf_start_group := lf_start_group f, cf_start_object := lf_start_object f\<rparr>;
          bounded = start\<lparr>cf_end_group := lf_start_group f + lf_end_group_delta f\<rparr> in
      if lf_type f = MOQ_D22_FILTER_NONE then (False, z\<lparr>cf_type := MOQ_SUBSCRIBE_FILTER_NONE\<rparr>)
      else if lf_type f = MOQ_D22_FILTER_NEXT_OBJECT then
        (True, z\<lparr>cf_type := MOQ_SUBSCRIBE_FILTER_LARGEST_OBJECT\<rparr>)
      else if lf_type f = MOQ_D22_FILTER_RELATIVE then
        (True, z\<lparr>cf_type := MOQ_SUBSCRIBE_FILTER_RELATIVE_GROUP_INTERNAL,
                 cf_start_group := lf_start_group f\<rparr>)
      else if lf_type f = MOQ_D22_FILTER_ABSOLUTE then
        (True, start\<lparr>cf_type := MOQ_SUBSCRIBE_FILTER_ABSOLUTE_START\<rparr>)
      else if lf_type f = MOQ_D22_FILTER_GROUP_END then
        (True, bounded\<lparr>cf_type := MOQ_SUBSCRIBE_FILTER_ABSOLUTE_RANGE\<rparr>)
      else (True, bounded\<lparr>cf_type := MOQ_SUBSCRIBE_FILTER_OBJECT_END_INTERNAL,
                          cf_end_object := lf_end_object f\<rparr>))"

text \<open>The range fields of a decoded FETCH.\<close>

record d22_fetch_range =
  fd_start_group :: u64
  fd_start_object :: u64
  fd_end_group :: u64
  fd_end_object :: u64
  fd_end_at_largest :: bool
  fd_start_relative :: bool
  fd_relative_offset :: u64
  fd_start_next_object :: bool

text \<open>The part of the FETCH decoder that projects its location filter; \<open>None\<close> is \<open>!v.has_filter\<close>.\<close>

definition d22_fetch_filter :: "moq_d22_location_filter option \<Rightarrow> d22_fetch_range" where
  "d22_fetch_filter filt =
     (let fd = \<lparr>fd_start_group = 0, fd_start_object = 0, fd_end_group = 0, fd_end_object = 0,
                fd_end_at_largest = True, fd_start_relative = False, fd_relative_offset = 0,
                fd_start_next_object = False\<rparr> in
      case filt of None \<Rightarrow> fd
      | Some f \<Rightarrow>
        if lf_type f = MOQ_D22_FILTER_NONE then fd
        else if lf_type f = MOQ_D22_FILTER_RELATIVE then
          fd\<lparr>fd_start_relative := True, fd_relative_offset := lf_start_group f\<rparr>
        else if lf_type f = MOQ_D22_FILTER_NEXT_OBJECT then fd\<lparr>fd_start_next_object := True\<rparr>
        else if lf_type f = MOQ_D22_FILTER_ABSOLUTE then
          fd\<lparr>fd_start_group := lf_start_group f, fd_start_object := lf_start_object f\<rparr>
        else if lf_type f = MOQ_D22_FILTER_GROUP_END then
          fd\<lparr>fd_start_group := lf_start_group f, fd_start_object := lf_start_object f,
             fd_end_group := lf_start_group f + lf_end_group_delta f, fd_end_object := 0,
             fd_end_at_largest := False\<rparr>
        else
          fd\<lparr>fd_start_group := lf_start_group f, fd_start_object := lf_start_object f,
             fd_end_group := lf_start_group f + lf_end_group_delta f,
             fd_end_object := (if lf_end_object f = UINT64_MAX then 0 else lf_end_object f + 1),
             fd_end_at_largest := False\<rparr>)"

section \<open>The range of a fill\<close>

definition after :: "u64 \<Rightarrow> u64 \<Rightarrow> u64 \<Rightarrow> u64 \<Rightarrow> bool" where
  "after grp object other_group other_object \<longleftrightarrow>
     other_group < grp \<or> (grp = other_group \<and> other_object < object)"

definition relative_start_group :: "u64 \<Rightarrow> u64 \<Rightarrow> u64" where
  "relative_start_group largest offset =
     (if offset = 0 then (if largest = UINT64_MAX then UINT64_MAX else largest + 1)
      else let delta = offset - 1 in if largest < delta then 0 else largest - delta)"

datatype moq_fill_range_outcome = MOQ_FILL_RANGE_STREAM | MOQ_FILL_RANGE_NO_STREAM_PAUSED
  | MOQ_FILL_RANGE_NO_STREAM_NO_LARGEST | MOQ_FILL_RANGE_NO_STREAM_EMPTY
  | MOQ_FILL_RANGE_NO_STREAM_AFTER_LARGEST

record moq_fill_range =
  fg_outcome :: moq_fill_range_outcome
  fg_start_group :: u64
  fg_start_object :: u64
  fg_end_group :: u64
  fg_end_object :: u64

definition fill_no_stream :: "moq_fill_range_outcome \<Rightarrow> moq_fill_range" where
  "fill_no_stream outcome = \<lparr>fg_outcome = outcome, fg_start_group = 0, fg_start_object = 0,
     fg_end_group = 0, fg_end_object = 0\<rparr>"

text \<open>The filter classes of the first \<open>switch\<close>: \<open>relative\<close>, \<open>next_object\<close>, \<open>absolute\<close>,
  \<open>bounded_end\<close> and \<open>whole_end_group\<close>.\<close>

definition fill_class :: "u32 \<Rightarrow> (bool \<times> bool \<times> bool \<times> bool \<times> bool) option" where
  "fill_class filter_type =
     (if filter_type = MOQ_SUBSCRIBE_FILTER_NONE then Some (False, False, False, False, False)
      else if filter_type = MOQ_SUBSCRIBE_FILTER_NEXT_GROUP
              \<or> filter_type = MOQ_SUBSCRIBE_FILTER_RELATIVE_GROUP_INTERNAL
      then Some (True, False, False, False, False)
      else if filter_type = MOQ_SUBSCRIBE_FILTER_LARGEST_OBJECT then Some (False, True, False, False, False)
      else if filter_type = MOQ_SUBSCRIBE_FILTER_ABSOLUTE_START then Some (False, False, True, False, False)
      else if filter_type = MOQ_SUBSCRIBE_FILTER_ABSOLUTE_RANGE then Some (False, False, True, True, True)
      else if filter_type = MOQ_SUBSCRIBE_FILTER_OBJECT_END_INTERNAL then Some (False, False, True, True, False)
      else None)"

text \<open>\<open>largest\<close> is \<open>Some (largest_group, largest_object)\<close> when \<open>has_largest\<close>.\<close>

definition moq_fill_range_resolve ::
  "moq_core_filter \<Rightarrow> moq_location option \<Rightarrow> bool \<Rightarrow> moq_result + moq_fill_range" where
  "moq_fill_range_resolve f largest paused =
     (case fill_class (cf_type f) of None \<Rightarrow> Inl MOQ_ERR_PROTO
      | Some (relative, next_object, absolute, bounded_end, whole_end_group) \<Rightarrow>
        if bounded_end \<and> cf_end_group f < cf_start_group f then Inl MOQ_ERR_PROTO
        else if paused then Inr (fill_no_stream MOQ_FILL_RANGE_NO_STREAM_PAUSED)
        else case largest of None \<Rightarrow> Inr (fill_no_stream MOQ_FILL_RANGE_NO_STREAM_NO_LARGEST)
        | Some (largest_group, largest_object) \<Rightarrow>
          if next_object then Inr (fill_no_stream MOQ_FILL_RANGE_NO_STREAM_AFTER_LARGEST)
          else
            let offset = (if cf_type f = MOQ_SUBSCRIBE_FILTER_NEXT_GROUP then 0 else cf_start_group f);
                start_group = (if relative then relative_start_group largest_group offset
                               else if absolute then cf_start_group f else 0);
                start_object = (if \<not> relative \<and> absolute then cf_start_object f else 0);
                end_group = (if \<not> bounded_end then largest_group else cf_end_group f);
                end_object = (if \<not> bounded_end then largest_object
                              else if whole_end_group then UINT64_MAX else cf_end_object f) in
            if bounded_end \<and> after start_group start_object end_group end_object
            then Inr (fill_no_stream MOQ_FILL_RANGE_NO_STREAM_EMPTY)
            else if after start_group start_object largest_group largest_object
            then Inr (fill_no_stream MOQ_FILL_RANGE_NO_STREAM_AFTER_LARGEST)
            else
              let clip = after end_group end_object largest_group largest_object in
              Inr \<lparr>fg_outcome = MOQ_FILL_RANGE_STREAM,
                   fg_start_group = start_group, fg_start_object = start_object,
                   fg_end_group = (if clip then largest_group else end_group),
                   fg_end_object = (if clip then largest_object else end_object)\<rparr>)"

text \<open>\<open>fc_location\<close> is the pointer \<open>location\<close>; on an LP64 target \<open>MOQ_FILL_CFG_V0_SIZE\<close> is 32.\<close>

abbreviation MOQ_FILL_CFG_V0_SIZE :: u32 where "MOQ_FILL_CFG_V0_SIZE \<equiv> 32"
abbreviation MOQ_GROUP_ORDER_ASCENDING :: u32 where "MOQ_GROUP_ORDER_ASCENDING \<equiv> 1"
abbreviation MOQ_GROUP_ORDER_DESCENDING :: u32 where "MOQ_GROUP_ORDER_DESCENDING \<equiv> 2"

record moq_fill_cfg =
  fc_struct_size :: u32
  fc_has_subscriber_priority :: bool
  fc_subscriber_priority :: u8
  fc_has_group_order :: bool
  fc_has_fill_timeout :: bool
  fc_fill_timeout_ms :: u64
  fc_group_order :: u32
  fc_location :: "moq_location_filter_cfg option"

text \<open>\<open>fi_filter\<close> holds the fields \<open>filter_type\<close> to \<open>end_object\<close>.\<close>

record moq_fill_input =
  fi_requested :: bool
  fi_has_subscriber_priority :: bool
  fi_subscriber_priority :: u8
  fi_has_group_order :: bool
  fi_group_order :: u32
  fi_has_fill_timeout :: bool
  fi_fill_timeout_ms :: u64
  fi_has_location :: bool
  fi_filter :: moq_core_filter

definition fill_input_zero :: moq_fill_input where
  "fill_input_zero = \<lparr>fi_requested = False, fi_has_subscriber_priority = False,
     fi_subscriber_priority = 0, fi_has_group_order = False, fi_group_order = 0,
     fi_has_fill_timeout = False, fi_fill_timeout_ms = 0, fi_has_location = False,
     fi_filter = core_filter_zero\<rparr>"

definition moq_fill_input_normalize :: "moq_fill_cfg option \<Rightarrow> moq_result + moq_fill_input" where
  "moq_fill_input_normalize cfgp =
     (case cfgp of None \<Rightarrow> Inr fill_input_zero
      | Some cfg \<Rightarrow>
        if fc_struct_size cfg < MOQ_FILL_CFG_V0_SIZE then Inl MOQ_ERR_ABI_MISMATCH
        else
          let v = fill_input_zero\<lparr>fi_requested := True\<rparr>;
              v = (if fc_has_subscriber_priority cfg
                   then v\<lparr>fi_has_subscriber_priority := True,
                         fi_subscriber_priority := fc_subscriber_priority cfg\<rparr> else v) in
          if fc_has_group_order cfg \<and> fc_group_order cfg \<noteq> MOQ_GROUP_ORDER_ASCENDING
             \<and> fc_group_order cfg \<noteq> MOQ_GROUP_ORDER_DESCENDING
          then Inl MOQ_ERR_INVAL
          else
            let v = (if fc_has_group_order cfg
                     then v\<lparr>fi_has_group_order := True, fi_group_order := fc_group_order cfg\<rparr> else v);
                v = (if fc_has_fill_timeout cfg
                     then v\<lparr>fi_has_fill_timeout := True, fi_fill_timeout_ms := fc_fill_timeout_ms cfg\<rparr>
                     else v) in
            case fc_location cfg of None \<Rightarrow> Inr v
            | Some loc \<Rightarrow>
                (case moq_location_filter_to_core loc of Inl e \<Rightarrow> Inl e
                 | Inr f \<Rightarrow> Inr (v\<lparr>fi_filter := f, fi_has_location := True\<rparr>)))"

section \<open>Locations\<close>

lemma u64_succ_le: "x < c \<Longrightarrow> x + 1 \<le> y \<longleftrightarrow> x < y" for x y c :: u64
  by unat_arith

lemma after_iff: "after g ob g' ob' \<longleftrightarrow> (g', ob') < (g, ob)"
  by (auto simp: after_def)

lemma start_iff: "g < sg \<or> (g = sg \<and> ob < so) \<longleftrightarrow> \<not> (sg, so) \<le> (g, ob)" for g sg ob so :: u64
  by auto

lemma loc_successor_Some:
  assumes "moq_loc_successor g ob c = Some l" and "y \<le> c"
  shows "l \<le> (x, y) \<longleftrightarrow> (g, ob) < (x, y)"
  using assms u64_succ_le [of ob c] u64_succ_le [of g c]
  by (fastforce simp: moq_loc_successor_def split: if_splits)

lemma loc_successor_None:
  assumes "moq_loc_successor g ob c = None" and "x \<le> c" and "y \<le> c"
  shows "\<not> (g, ob) < (x, y)"
  using assms by (auto simp: moq_loc_successor_def split: if_splits)

section \<open>What a filter selects\<close>

text \<open>The Locations a filter selects once the largest Location \<open>snap\<close> of the track is known.\<close>

definition filter_selects :: "moq_core_filter \<Rightarrow> moq_location option \<Rightarrow> moq_location \<Rightarrow> bool" where
  "filter_selects f snap l =
     (if cf_type f = MOQ_SUBSCRIBE_FILTER_NEXT_GROUP then
        (case snap of None \<Rightarrow> True | Some largest \<Rightarrow> fst largest < fst l)
      else if cf_type f = MOQ_SUBSCRIBE_FILTER_LARGEST_OBJECT then
        (case snap of None \<Rightarrow> True | Some largest \<Rightarrow> largest < l)
      else if cf_type f = MOQ_SUBSCRIBE_FILTER_ABSOLUTE_START then
        (cf_start_group f, cf_start_object f) \<le> l
      else if cf_type f = MOQ_SUBSCRIBE_FILTER_ABSOLUTE_RANGE then
        (cf_start_group f, cf_start_object f) \<le> l \<and> fst l \<le> cf_end_group f
      else if cf_type f = MOQ_SUBSCRIBE_FILTER_OBJECT_END_INTERNAL then
        (cf_start_group f, cf_start_object f) \<le> l \<and> l \<le> (cf_end_group f, cf_end_object f)
      else if cf_type f = MOQ_SUBSCRIBE_FILTER_RELATIVE_GROUP_INTERNAL then
        (case snap of None \<Rightarrow> True
         | Some largest \<Rightarrow>
             min (uint (fst largest) + 1 - uint (cf_start_group f)) (uint UINT64_MAX) \<le> uint (fst l))
      else True)"

lemma uint_u64_le: "uint (x :: u64) \<le> 18446744073709551615"
  using uint_lt2p [of x] by simp

lemma uint_relative_start:
  "uint (relative_start_group lg k) = max 0 (min (uint lg + 1 - uint k) (uint UINT64_MAX))"
proof (cases "k = 0")
  case True
  show ?thesis
  proof (cases "lg = UINT64_MAX")
    case False
    then have "lg < UINT64_MAX" using u64_le_max [of lg] by simp
    then have "uint lg + 1 \<le> 18446744073709551615" by (simp add: word_less_def)
    then have "uint (lg + 1) = uint lg + 1" by (simp add: uint_word_ariths)
    with True False uint_u64_le [of "lg + 1"] uint_ge_0 [of lg] show ?thesis
      by (simp add: relative_start_group_def)
  qed (use True in \<open>simp add: relative_start_group_def\<close>)
next
  case False
  then have "0 < uint k" by (metis uint_0_iff uint_ge_0 order_le_less)
  then have k: "uint (k - 1) = uint k - 1" using uint_u64_le [of k] by (simp add: uint_word_ariths)
  have "uint (lg - (k - 1)) = uint lg - uint (k - 1)" if "k - 1 \<le> lg" using that by uint_arith
  with False k uint_u64_le [of lg] uint_ge_0 [of "k - 1"] show ?thesis
    by (auto simp: relative_start_group_def Let_def word_less_def not_less word_le_def)
qed

lemma relative_start_iff:
  "relative_start_group lg k \<le> g \<longleftrightarrow> min (uint lg + 1 - uint k) (uint UINT64_MAX) \<le> uint g"
  unfolding word_le_def uint_relative_start using uint_ge_0 [of g] by linarith

text \<open>The window of a relative filter starts at the start group of a fill.\<close>

lemma resolve_relative:
  assumes "cf_type f = MOQ_SUBSCRIBE_FILTER_RELATIVE_GROUP_INTERNAL"
  shows "moq_resolve_filter_window f (Some (lg, lo)) c
    = resolved_window_zero\<lparr>rw_has_window := True, rw_filter := cf_type f,
        rw_start_group := relative_start_group lg (cf_start_group f)\<rparr>"
  using assms
  by (simp add: moq_resolve_filter_window_def relative_start_group_def resolved_window_zero_def Let_def)

lemma admits_iff:
  "window_admits w g ob \<longleftrightarrow> \<not> rw_has_window w \<or>
     (\<not> rw_unsatisfiable w \<and> (rw_start_group w, rw_start_object w) \<le> (g, ob)
      \<and> (rw_has_end w \<longrightarrow> g \<le> rw_end_group w)
      \<and> (rw_has_end_object w \<longrightarrow> g = rw_end_group w \<longrightarrow> ob \<le> rw_end_object w))"
  by (auto simp: window_admits_def start_iff simp flip: not_le)

lemma window_after_admits:
  assumes "g \<le> c" and "ob \<le> c"
    and "w = resolved_window_zero\<lparr>rw_has_window := True, rw_filter := t\<rparr>"
  shows "window_admits (window_after (moq_loc_successor lg lo c) w) g ob \<longleftrightarrow> (lg, lo) < (g, ob)"
proof (cases "moq_loc_successor lg lo c")
  case None
  then show ?thesis
    using loc_successor_None [OF None assms(1,2)]
    by (simp add: window_after_def window_admits_def assms(3) resolved_window_zero_def)
next
  case (Some l)
  then show ?thesis
    using loc_successor_Some [OF Some assms(2), of g]
    by (cases l) (simp add: window_after_def admits_iff assms(3) resolved_window_zero_def)
qed

abbreviation open_window :: "u32 \<Rightarrow> moq_resolved_window" where
  "open_window t \<equiv> resolved_window_zero\<lparr>rw_has_window := True, rw_filter := t\<rparr>"

lemma resolve_after:
  "cf_type f = MOQ_SUBSCRIBE_FILTER_NEXT_GROUP \<Longrightarrow> moq_resolve_filter_window f (Some (lg, lo)) c
    = window_after (moq_loc_successor lg c c) (open_window (cf_type f))"
  "cf_type f = MOQ_SUBSCRIBE_FILTER_LARGEST_OBJECT \<Longrightarrow> moq_resolve_filter_window f (Some (lg, lo)) c
    = window_after (moq_loc_successor lg lo c) (open_window (cf_type f))"
  by (simp_all add: moq_resolve_filter_window_def)

lemma resolve_open:
  assumes "cf_type f \<in> {MOQ_SUBSCRIBE_FILTER_NEXT_GROUP, MOQ_SUBSCRIBE_FILTER_LARGEST_OBJECT,
      MOQ_SUBSCRIBE_FILTER_RELATIVE_GROUP_INTERNAL}"
  shows "moq_resolve_filter_window f None c = open_window (cf_type f)" and "filter_selects f None l"
  using assms by (auto simp: moq_resolve_filter_window_def filter_selects_def)

lemma open_admits: "window_admits (open_window t) g ob"
  by (simp add: window_admits_def resolved_window_zero_def)

lemma window_selects:
  assumes "g \<le> c" and "ob \<le> c"
  shows "window_admits (moq_resolve_filter_window f snap c) g ob \<longleftrightarrow> filter_selects f snap (g, ob)"
proof (cases "cf_type f \<in> {MOQ_SUBSCRIBE_FILTER_NEXT_GROUP, MOQ_SUBSCRIBE_FILTER_LARGEST_OBJECT,
      MOQ_SUBSCRIBE_FILTER_RELATIVE_GROUP_INTERNAL}")
  case True
  show ?thesis
  proof (cases snap)
    case None
    with True show ?thesis by (simp only: resolve_open open_admits)
  next
    case (Some l)
    obtain lg lo where l: "l = (lg, lo)" by (cases l)
    have ng: "(lg, c) < (g, ob) \<longleftrightarrow> lg < g" using assms(2) by auto
    have rg: "(relative_start_group lg k, 0) \<le> (g, ob) \<longleftrightarrow> relative_start_group lg k \<le> g" for k by auto
    note after = window_after_admits [OF assms refl]
    consider (a) "cf_type f = MOQ_SUBSCRIBE_FILTER_NEXT_GROUP"
      | (b) "cf_type f = MOQ_SUBSCRIBE_FILTER_LARGEST_OBJECT"
      | (c) "cf_type f = MOQ_SUBSCRIBE_FILTER_RELATIVE_GROUP_INTERNAL" using True by blast
    then show ?thesis
    proof cases
      case a
      then show ?thesis
        unfolding Some l resolve_after(1) [OF a] after ng by (simp add: filter_selects_def)
    next
      case b
      then show ?thesis
        unfolding Some l resolve_after(2) [OF b] after by (simp add: filter_selects_def)
    next
      case c
      then show ?thesis
        unfolding Some l resolve_relative [OF c] admits_iff
        using rg [of "cf_start_group f"] relative_start_iff [of lg "cf_start_group f" g]
        by (simp add: filter_selects_def resolved_window_zero_def del: less_eq_prod_simp)
    qed
  qed
next
  case False
  then show ?thesis
    by (auto simp: moq_resolve_filter_window_def filter_selects_def Let_def admits_iff
        resolved_window_zero_def)
qed

lemma sub_accepts_iff: "sub_accepts_object forward w g ob \<longleftrightarrow> forward \<and> window_admits w g ob"
  by (auto simp: sub_accepts_object_def sub_accepts_group_def window_admits_def)

lemma admits_group_iff:
  "window_admits_group w g \<longleftrightarrow> \<not> rw_has_window w \<or>
     (\<not> rw_unsatisfiable w \<and> rw_start_group w \<le> g \<and> (rw_has_end w \<longrightarrow> g \<le> rw_end_group w))"
  by (auto simp: window_admits_group_def not_less)

text \<open>A group is admitted when some Location in it is, or when the filter ends in that group before
  it starts.\<close>

lemma window_group_iff:
  "window_admits_group w g \<longleftrightarrow> (\<exists>ob. window_admits w g ob)
    \<or> rw_has_window w \<and> \<not> rw_unsatisfiable w \<and> rw_has_end_object w \<and> g = rw_start_group w
      \<and> g = rw_end_group w \<and> rw_end_object w < rw_start_object w" (is "_ \<longleftrightarrow> ?some \<or> ?inverted")
proof
  assume g: "window_admits_group w g"
  show "?some \<or> ?inverted"
  proof (cases "rw_has_end_object w \<and> g = rw_end_group w \<and> g \<noteq> rw_start_group w")
    case True
    with g have "window_admits w g (rw_end_object w)"
      by (auto simp: admits_group_iff admits_iff dest: order.not_eq_order_implies_strict [rotated])
    then show ?thesis by blast
  next
    case False
    with g have "window_admits w g (rw_start_object w)" if "\<not> ?inverted"
      using that by (auto simp: admits_group_iff admits_iff not_less)
    then show ?thesis by blast
  qed
qed (auto simp: admits_group_iff admits_iff)

text \<open>The start of a fill and its end, as the resolution computes them.\<close>

definition fill_start :: "moq_core_filter \<Rightarrow> u64 \<Rightarrow> moq_location" where
  "fill_start f lg =
     (if cf_type f = MOQ_SUBSCRIBE_FILTER_NEXT_GROUP then (relative_start_group lg 0, 0)
      else if cf_type f = MOQ_SUBSCRIBE_FILTER_RELATIVE_GROUP_INTERNAL
      then (relative_start_group lg (cf_start_group f), 0)
      else if cf_type f = MOQ_SUBSCRIBE_FILTER_NONE then (0, 0)
      else (cf_start_group f, cf_start_object f))"

definition fill_end :: "moq_core_filter \<Rightarrow> moq_location option" where
  "fill_end f =
     (if cf_type f = MOQ_SUBSCRIBE_FILTER_ABSOLUTE_RANGE then Some (cf_end_group f, UINT64_MAX)
      else if cf_type f = MOQ_SUBSCRIBE_FILTER_OBJECT_END_INTERNAL then Some (cf_end_group f, cf_end_object f)
      else None)"

definition fill_valid :: "moq_core_filter \<Rightarrow> bool" where
  "fill_valid f \<longleftrightarrow> fill_class (cf_type f) \<noteq> None \<and> (fill_end f \<noteq> None \<longrightarrow> cf_start_group f \<le> cf_end_group f)"

definition fill_contains :: "moq_fill_range \<Rightarrow> moq_location \<Rightarrow> bool" where
  "fill_contains r l \<longleftrightarrow> fg_outcome r = MOQ_FILL_RANGE_STREAM
     \<and> (fg_start_group r, fg_start_object r) \<le> l \<and> l \<le> (fg_end_group r, fg_end_object r)"

lemma fill_class_cases:
  assumes "fill_class t \<noteq> None"
  obtains "t = MOQ_SUBSCRIBE_FILTER_NONE" | "t = MOQ_SUBSCRIBE_FILTER_NEXT_GROUP"
    | "t = MOQ_SUBSCRIBE_FILTER_RELATIVE_GROUP_INTERNAL" | "t = MOQ_SUBSCRIBE_FILTER_LARGEST_OBJECT"
    | "t = MOQ_SUBSCRIBE_FILTER_ABSOLUTE_START" | "t = MOQ_SUBSCRIBE_FILTER_ABSOLUTE_RANGE"
    | "t = MOQ_SUBSCRIBE_FILTER_OBJECT_END_INTERNAL"
  using assms by (auto simp: fill_class_def split: if_splits)

lemma fill_resolve_ok_iff: "(\<exists>r. moq_fill_range_resolve f snap paused = Inr r) \<longleftrightarrow> fill_valid f"
  by (cases snap) (auto simp: moq_fill_range_resolve_def fill_valid_def fill_class_def fill_end_def Let_def not_less)

lemma fill_resolve_err: "moq_fill_range_resolve f snap paused = Inl e \<Longrightarrow> e = MOQ_ERR_PROTO"
  by (auto simp: moq_fill_range_resolve_def Let_def split: option.splits if_splits prod.splits)

lemma fill_resolve_eq:
  assumes "fill_valid f" and "cf_type f \<noteq> MOQ_SUBSCRIBE_FILTER_LARGEST_OBJECT"
  shows "moq_fill_range_resolve f (Some (lg, lo)) False =
    (if \<exists>e. fill_end f = Some e \<and> e < fill_start f lg
     then Inr (fill_no_stream MOQ_FILL_RANGE_NO_STREAM_EMPTY)
     else if (lg, lo) < fill_start f lg then Inr (fill_no_stream MOQ_FILL_RANGE_NO_STREAM_AFTER_LARGEST)
     else let e = (case fill_end f of None \<Rightarrow> (lg, lo) | Some e \<Rightarrow> min e (lg, lo)) in
       Inr \<lparr>fg_outcome = MOQ_FILL_RANGE_STREAM, fg_start_group = fst (fill_start f lg),
            fg_start_object = snd (fill_start f lg), fg_end_group = fst e, fg_end_object = snd e\<rparr>)"
proof -
  have "fill_class (cf_type f) \<noteq> None" using assms(1) by (simp add: fill_valid_def)
  then show ?thesis
    by (cases rule: fill_class_cases)
      (use assms in \<open>auto simp: moq_fill_range_resolve_def fill_valid_def fill_class_def fill_end_def
        fill_start_def Let_def after_iff min_def not_le simp del: less_prod_simp less_eq_prod_simp\<close>)
qed

lemma fill_selects:
  assumes "fill_valid f" and "cf_type f \<noteq> MOQ_SUBSCRIBE_FILTER_LARGEST_OBJECT"
    and "\<not> (cf_type f = MOQ_SUBSCRIBE_FILTER_NEXT_GROUP \<and> lg = UINT64_MAX)"
  shows "filter_selects f (Some (lg, lo)) l \<longleftrightarrow>
    fill_start f lg \<le> l \<and> (case fill_end f of None \<Rightarrow> True | Some e \<Rightarrow> l \<le> e)"
proof -
  obtain g ob where l: "l = (g, ob)" by (cases l)
  have known: "fill_class (cf_type f) \<noteq> None" using assms(1) by (simp add: fill_valid_def)
  have ng: "relative_start_group lg 0 \<le> g \<longleftrightarrow> lg < g" if "lg \<noteq> UINT64_MAX"
  proof -
    have "lg < UINT64_MAX" using that u64_le_max [of lg] by simp
    then show ?thesis using u64_succ_le [of lg UINT64_MAX g] that by (simp add: relative_start_group_def)
  qed
  have "(x, 0) \<le> (g, ob) \<longleftrightarrow> x \<le> g" for x :: u64 by auto
  moreover have "(g, ob) \<le> (x, UINT64_MAX) \<longleftrightarrow> g \<le> x" for x using u64_le_max [of ob] by auto
  ultimately show ?thesis
    using known ng relative_start_iff [of lg "cf_start_group f" g] assms(2,3) l
    by (cases rule: fill_class_cases [OF known])
      (simp_all add: filter_selects_def fill_start_def fill_end_def del: less_prod_simp less_eq_prod_simp)
qed

lemma fill_contains_iff:
  assumes "fill_valid f" and "cf_type f \<noteq> MOQ_SUBSCRIBE_FILTER_LARGEST_OBJECT"
    and "\<not> (cf_type f = MOQ_SUBSCRIBE_FILTER_NEXT_GROUP \<and> lg = UINT64_MAX)"
    and "moq_fill_range_resolve f (Some (lg, lo)) False = Inr r"
  shows "fill_contains r l \<longleftrightarrow> filter_selects f (Some (lg, lo)) l \<and> l \<le> (lg, lo)"
proof -
  have min_iff: "l \<le> min e (lg, lo) \<longleftrightarrow> l \<le> e \<and> l \<le> (lg, lo)" for e by (rule min.bounded_iff)
  have trans: "\<not> (fill_start f lg \<le> l \<and> l \<le> e)" if "e < fill_start f lg" for e
    using that by (meson leD order_trans)
  show ?thesis
    using assms(4) unfolding fill_selects [OF assms(1-3)] fill_resolve_eq [OF assms(1,2)]
    by (auto simp: fill_contains_def fill_no_stream_def Let_def min_iff split: if_splits option.splits
        simp del: less_prod_simp less_eq_prod_simp dest: trans)
qed

section \<open>Properties\<close>

text \<open>C30: whatever the filter, the window it resolves to admits, among the Locations up to the
  profile's ceiling, exactly those the filter selects relative to the largest Location known; the
  subscriber accepts what the publisher's test admits; an object the window admits is owed by the
  stream; and the test on whole groups passes when a Location of the group does, and otherwise only
  for a filter that ends before it starts within one group.\<close>

theorem resolved_window_selects:
  assumes "g \<le> ceiling" and "ob \<le> ceiling" and "w = moq_resolve_filter_window f snap ceiling"
  shows "(window_admits w g ob \<longleftrightarrow> filter_selects f snap (g, ob))
    \<and> (sub_accepts_object forward w g ob \<longleftrightarrow> forward \<and> window_admits w g ob)
    \<and> (window_admits w g ob \<longrightarrow> window_owes w g ob)
    \<and> (window_admits_group w g \<longleftrightarrow> (\<exists>o'. window_admits w g o')
        \<or> cf_type f = MOQ_SUBSCRIBE_FILTER_OBJECT_END_INTERNAL \<and> g = cf_start_group f
          \<and> g = cf_end_group f \<and> cf_end_object f < cf_start_object f)"
proof (intro conjI)
  show "window_admits w g ob \<longleftrightarrow> filter_selects f snap (g, ob)"
    unfolding assms(3) by (rule window_selects [OF assms(1,2)])
  show "sub_accepts_object forward w g ob \<longleftrightarrow> forward \<and> window_admits w g ob" by (rule sub_accepts_iff)
  show "window_admits w g ob \<longrightarrow> window_owes w g ob" by (simp add: window_admits_def window_owes_def)
  have "rw_has_end_object w \<longleftrightarrow> cf_type f = MOQ_SUBSCRIBE_FILTER_OBJECT_END_INTERNAL"
    unfolding assms(3) by (cases snap; cases "the snap")
      (simp_all add: moq_resolve_filter_window_def window_after_def resolved_window_zero_def Let_def
        split: option.splits)
  moreover have "w = \<lparr>rw_has_window = True, rw_unsatisfiable = False, rw_has_end = True, rw_has_end_object = True,
      rw_filter = cf_type f, rw_start_group = cf_start_group f, rw_start_object = cf_start_object f,
      rw_end_group = cf_end_group f, rw_end_object = cf_end_object f\<rparr>"
    if "cf_type f = MOQ_SUBSCRIBE_FILTER_OBJECT_END_INTERNAL"
    using that unfolding assms(3) by (simp add: moq_resolve_filter_window_def resolved_window_zero_def)
  ultimately show "window_admits_group w g \<longleftrightarrow> (\<exists>o'. window_admits w g o')
      \<or> cf_type f = MOQ_SUBSCRIBE_FILTER_OBJECT_END_INTERNAL \<and> g = cf_start_group f
        \<and> g = cf_end_group f \<and> cf_end_object f < cf_start_object f"
    unfolding window_group_iff [of w g] by auto
qed

theorem resolved_window_selects_witness:
  "window_admits (moq_resolve_filter_window (core_filter_zero\<lparr>cf_type := 0x101, cf_start_group := 2\<rparr>)
     (Some (7, 3)) UINT64_MAX) 6 0
   \<and> \<not> window_admits (moq_resolve_filter_window (core_filter_zero\<lparr>cf_type := 0x101, cf_start_group := 2\<rparr>)
     (Some (7, 3)) UINT64_MAX) 5 9"
  using resolved_window_selects [OF u64_le_max [of 6] u64_le_max [of 0] refl,
      of "core_filter_zero\<lparr>cf_type := 0x101, cf_start_group := 2\<rparr>" "Some (7, 3)"]
    resolved_window_selects [OF u64_le_max [of 5] u64_le_max [of 9] refl,
      of "core_filter_zero\<lparr>cf_type := 0x101, cf_start_group := 2\<rparr>" "Some (7, 3)"]
  by (simp add: filter_selects_def)

text \<open>C31: the range of a fill and the live window of the same filter agree. The range is resolved
  exactly for known filters whose end group is not before the start group; with a largest Location
  and no pause it contains exactly the Locations up to that one that the window admits, so no stream
  is opened exactly when there are none. The next-group filter at the last group is the exception,
  which the draft-22 normalization to the relative form removes.\<close>

theorem fill_range_matches_window:
  assumes "\<not> (cf_type f = MOQ_SUBSCRIBE_FILTER_NEXT_GROUP \<and> lg = UINT64_MAX)"
  shows "(moq_fill_range_resolve f snap paused = Inl MOQ_ERR_PROTO \<longleftrightarrow> \<not> fill_valid f)
    \<and> (fill_valid f \<longrightarrow> (\<exists>r. moq_fill_range_resolve f (Some (lg, lo)) False = Inr r
        \<and> (\<forall>g ob. fill_contains r (g, ob) \<longleftrightarrow>
              window_admits (moq_resolve_filter_window f (Some (lg, lo)) UINT64_MAX) g ob
              \<and> (g, ob) \<le> (lg, lo))
        \<and> (fg_outcome r = MOQ_FILL_RANGE_STREAM \<longleftrightarrow> (\<exists>l. fill_contains r l))))"
proof (intro conjI impI)
  show "moq_fill_range_resolve f snap paused = Inl MOQ_ERR_PROTO \<longleftrightarrow> \<not> fill_valid f"
    using fill_resolve_ok_iff [of f snap paused] fill_resolve_err [of f snap paused]
    by (cases "moq_fill_range_resolve f snap paused") auto
next
  assume valid: "fill_valid f"
  then obtain r where r: "moq_fill_range_resolve f (Some (lg, lo)) False = Inr r"
    using fill_resolve_ok_iff by blast
  let ?sel = "\<lambda>g ob. filter_selects f (Some (lg, lo)) (g, ob) \<and> (g, ob) \<le> (lg, lo)"
  have both: "(\<forall>g ob. fill_contains r (g, ob) \<longleftrightarrow> ?sel g ob)
      \<and> (fg_outcome r = MOQ_FILL_RANGE_STREAM \<longleftrightarrow> (\<exists>l. fill_contains r l))"
  proof (cases "cf_type f = MOQ_SUBSCRIBE_FILTER_LARGEST_OBJECT")
    case True
    then have "r = fill_no_stream MOQ_FILL_RANGE_NO_STREAM_AFTER_LARGEST"
      using r by (simp add: moq_fill_range_resolve_def fill_class_def)
    with True show ?thesis by (simp add: fill_contains_def fill_no_stream_def filter_selects_def not_le
          del: less_prod_simp less_eq_prod_simp)
  next
    case False
    have "fill_contains r (fill_start f lg)" if "fg_outcome r = MOQ_FILL_RANGE_STREAM"
      using r that unfolding fill_resolve_eq [OF valid False]
      by (auto simp: fill_contains_def fill_no_stream_def Let_def not_less min_def
          split: if_splits option.splits simp del: less_prod_simp less_eq_prod_simp)
    moreover have "fill_contains r l \<Longrightarrow> fg_outcome r = MOQ_FILL_RANGE_STREAM" for l
      by (simp add: fill_contains_def)
    ultimately show ?thesis using fill_contains_iff [OF valid False assms r] by blast
  qed
  then show "\<exists>r. moq_fill_range_resolve f (Some (lg, lo)) False = Inr r
        \<and> (\<forall>g ob. fill_contains r (g, ob) \<longleftrightarrow>
              window_admits (moq_resolve_filter_window f (Some (lg, lo)) UINT64_MAX) g ob
              \<and> (g, ob) \<le> (lg, lo))
        \<and> (fg_outcome r = MOQ_FILL_RANGE_STREAM \<longleftrightarrow> (\<exists>l. fill_contains r l))"
    using r window_selects [OF u64_le_max u64_le_max] by blast
qed

theorem fill_range_matches_window_witness:
  "\<exists>r. moq_fill_range_resolve (core_filter_zero\<lparr>cf_type := 0x104, cf_start_group := 2, cf_end_group := 9\<rparr>)
      (Some (4, 1)) False = Inr r \<and> fill_contains r (4, 1) \<and> \<not> fill_contains r (4, 2)"
proof -
  let ?f = "core_filter_zero\<lparr>cf_type := 0x104, cf_start_group := 2, cf_end_group := 9\<rparr>"
  have "fill_valid ?f" by (simp add: fill_valid_def fill_class_def fill_end_def)
  then obtain r where r: "moq_fill_range_resolve ?f (Some (4, 1)) False = Inr r"
    and sel: "fill_contains r (g, ob) \<longleftrightarrow>
      window_admits (moq_resolve_filter_window ?f (Some (4, 1)) UINT64_MAX) g ob \<and> (g, ob) \<le> (4, 1)" for g ob
    using fill_range_matches_window [of ?f 4 None False 1] by auto
  have "window_admits (moq_resolve_filter_window ?f (Some (4, 1)) UINT64_MAX) 4 1" by code_simp
  then have "fill_contains r (4, 1) \<and> \<not> fill_contains r (4, 2)" unfolding sel by (simp add: word_le_nat_alt)
  with r show ?thesis by blast
qed

text \<open>The location filter a configuration stands for on draft-22.\<close>

definition normal_core :: "moq_core_filter \<Rightarrow> moq_core_filter" where
  "normal_core c = (let (t, sg) = moq_local_filter_normalize True (cf_type c) (cf_start_group c)
     in c\<lparr>cf_type := t, cf_start_group := sg\<rparr>)"

lemma to_core_cases:
  "moq_location_filter_to_core cfg = Inr core \<longleftrightarrow>
     \<not> lc_struct_size cfg < 48 \<and>
     (lc_kind cfg = 0 \<and> core = core_filter_zero
      \<or> lc_kind cfg = 1 \<and> core = core_filter_zero\<lparr>cf_type := if lc_relative_group_offset cfg = 0 then 1 else 0x101,
            cf_start_group := lc_relative_group_offset cfg\<rparr>
      \<or> lc_kind cfg = 5 \<and> core = core_filter_zero\<lparr>cf_type := 2\<rparr>
      \<or> lc_kind cfg = 2 \<and> core = core_filter_zero\<lparr>cf_type := 3, cf_start_group := lc_start_group cfg,
            cf_start_object := lc_start_object cfg\<rparr>
      \<or> lc_kind cfg \<in> {3, 4} \<and> \<not> lc_end_group cfg < lc_start_group cfg
          \<and> core = \<lparr>cf_type = if lc_kind cfg = 3 then 4 else 0x104, cf_start_group = lc_start_group cfg,
              cf_start_object = lc_start_object cfg, cf_end_group = lc_end_group cfg,
              cf_end_object = if lc_kind cfg = 3 then 0 else lc_end_object cfg\<rparr>)"
  by (auto simp: moq_location_filter_to_core_def core_filter_zero_def Let_def)

lemma from_cfg_ok: "(\<exists>f. moq_d22_from_location_cfg cfg = Inr f) \<longleftrightarrow> (\<exists>c. moq_location_filter_to_core cfg = Inr c)"
  by (auto simp: moq_d22_from_location_cfg_def moq_location_filter_to_core_def Let_def)

lemma wire_core:
  assumes "moq_location_filter_to_core cfg = Inr core" and "moq_d22_from_location_cfg cfg = Inr f"
  shows "moq_d22_from_subscription_filter core = Inr f" "lf_ok f" "lf_canon f = f"
    "d22_filter_record f = (lc_kind cfg \<noteq> MOQ_LOCATION_FILTER_NONE, normal_core core)"
proof -
  let ?f = "\<lparr>lf_type = ucast (lc_kind cfg),
    lf_start_group = if lc_kind cfg = 1 then lc_relative_group_offset cfg
                     else if lc_kind cfg \<in> {2, 3, 4} then lc_start_group cfg else 0,
    lf_start_object = if lc_kind cfg \<in> {2, 3, 4} then lc_start_object cfg else 0,
    lf_end_group_delta = if lc_kind cfg \<in> {3, 4} then lc_end_group cfg - lc_start_group cfg else 0,
    lf_end_object = if lc_kind cfg = 4 then lc_end_object cfg else 0\<rparr>"
  have f: "f = ?f"
    using assms(2) by (auto simp: moq_d22_from_location_cfg_def Let_def d22_filter_zero_def split: if_splits)
  note core = assms(1) [unfolded to_core_cases]
  note defs = Let_def core_filter_zero_def
  show "lf_ok f"
    using core unfolding f lf_ok_def by (elim conjE disjE) (auto simp: not_less dest: delta_fits)
  show "lf_canon f = f"
    using core unfolding f lf_canon_def by (elim conjE disjE) (auto simp: Let_def)
  show "moq_d22_from_subscription_filter core = Inr f"
    using core unfolding f
    by (elim conjE disjE) (auto simp: moq_d22_from_subscription_filter_def d22_filter_zero_def defs)
  show "d22_filter_record f = (lc_kind cfg \<noteq> MOQ_LOCATION_FILTER_NONE, normal_core core)"
    using core unfolding f
    by (elim conjE disjE) (auto simp: d22_filter_record_def normal_core_def moq_local_filter_normalize_def defs)
qed

text \<open>C32: a location filter keeps its meaning over draft-22. A configuration that the wire
  form accepts is one that the core form accepts; what is encoded and decoded again is the core filter of the
  configuration, with the next-group form normalized, and it is the same wire value that the
  subscription encoder derives from the core filter. So both ends resolve the same window.\<close>

theorem filter_meaning_over_wire:
  assumes "moq_d22_from_location_cfg cfg = Inr f" and "writer_valid w"
    and "moq_d22_encode_location_filter f w = (MOQ_OK, w')"
  shows "\<exists>core f'. moq_location_filter_to_core cfg = Inr core
    \<and> moq_d22_decode_location_filter \<lparr>rd_data = w_data w', rd_pos = w_pos w\<rparr>
        = (Inr f', \<lparr>rd_data = w_data w', rd_pos = w_pos w'\<rparr>)
    \<and> d22_filter_record f' = (lc_kind cfg \<noteq> MOQ_LOCATION_FILTER_NONE, normal_core core)
    \<and> moq_d22_from_subscription_filter core = Inr f'
    \<and> filter_selects (normal_core core) None l
        = filter_selects core None l
    \<and> (lg < UINT64_MAX \<longrightarrow>
        filter_selects (normal_core core) (Some (lg, lo)) l = filter_selects core (Some (lg, lo)) l)"
proof -
  obtain core where core: "moq_location_filter_to_core cfg = Inr core"
    using assms(1) from_cfg_ok [of cfg] by blast
  note wire = wire_core [OF core assms(1)]
  have "moq_d22_decode_location_filter \<lparr>rd_data = w_data w', rd_pos = w_pos w\<rparr>
      = (Inr (lf_canon f), \<lparr>rd_data = w_data w', rd_pos = w_pos w'\<rparr>)"
  proof (rule writes_read_back [OF writes_location_filter reads_location_filter _ assms(2,3)])
    show "lf_bytes f \<noteq> []" using vi64.enc_nonempty [of "lf_type f"] by (simp add: lf_bytes_def)
  qed
  moreover have "filter_selects (normal_core core) None l = filter_selects core None l"
    by (simp add: normal_core_def moq_local_filter_normalize_def filter_selects_def)
  moreover have "filter_selects (normal_core core) (Some (lg, lo)) l = filter_selects core (Some (lg, lo)) l"
    if "lg < UINT64_MAX"
  proof (cases "cf_type core = MOQ_SUBSCRIBE_FILTER_NEXT_GROUP")
    case True
    from that have "relative_start_group lg 0 \<le> fst l \<longleftrightarrow> lg < fst l"
      using u64_succ_le [of lg UINT64_MAX "fst l"] by (auto simp: relative_start_group_def)
    with True show ?thesis
      using relative_start_iff [of lg 0 "fst l"]
      by (simp add: normal_core_def moq_local_filter_normalize_def filter_selects_def)
  qed (simp add: normal_core_def moq_local_filter_normalize_def)
  ultimately show ?thesis using core wire by auto
qed

theorem filter_meaning_over_wire_witness:
  "\<exists>f'. moq_d22_decode_location_filter \<lparr>rd_data = Arr [4, 7, 2, 5, 9], rd_pos = 0\<rparr>
       = (Inr f', \<lparr>rd_data = Arr [4, 7, 2, 5, 9], rd_pos = 5\<rparr>)
     \<and> d22_filter_record f' = (True, \<lparr>cf_type = 0x104, cf_start_group = 7, cf_start_object = 2,
          cf_end_group = 12, cf_end_object = 9\<rparr>)"
proof -
  let ?cfg = "\<lparr>lc_struct_size = 48, lc_kind = 4, lc_relative_group_offset = 0, lc_start_group = 7,
    lc_start_object = 2, lc_end_group = 12, lc_end_object = 9\<rparr>"
  let ?f = "\<lparr>lf_type = 4, lf_start_group = 7, lf_start_object = 2, lf_end_group_delta = 5, lf_end_object = 9\<rparr>"
  let ?w = "\<lparr>w_data = Arr [0, 0, 0, 0, 0], w_pos = 0\<rparr>"
  have "moq_d22_from_location_cfg ?cfg = Inr ?f" by code_simp
  moreover have "writer_valid ?w" by code_simp
  moreover have "moq_d22_encode_location_filter ?f ?w = (MOQ_OK, \<lparr>w_data = Arr [4, 7, 2, 5, 9], w_pos = 5\<rparr>)"
    by code_simp
  moreover have "moq_location_filter_to_core ?cfg = Inr \<lparr>cf_type = 0x104, cf_start_group = 7,
      cf_start_object = 2, cf_end_group = 12, cf_end_object = 9\<rparr>" by code_simp
  ultimately show ?thesis
    using filter_meaning_over_wire [of ?cfg ?f ?w]
    by (auto simp: normal_core_def moq_local_filter_normalize_def)
qed

text \<open>The public form of a core filter leads back to it, for a structure the caller has sized
  for it, and the range of a FETCH survives the draft-22 filter it is sent as.\<close>

theorem filter_forms_round_trip:
  assumes "moq_location_filter_to_core cfg = Inr core" and "48 \<le> n"
    and "moq_d22_from_fetch_range sg so eg eo = Inr f"
  shows "moq_location_filter_to_core (moq_location_filter_from_core core n) = Inr core
    \<and> lc_kind (moq_location_filter_from_core core n) = lc_kind cfg
    \<and> lf_ok f
    \<and> d22_fetch_filter (Some (lf_canon f)) =
       \<lparr>fd_start_group = sg, fd_start_object = so, fd_end_group = eg, fd_end_object = eo,
        fd_end_at_largest = False, fd_start_relative = False, fd_relative_offset = 0,
        fd_start_next_object = False\<rparr>"
proof (intro conjI)
  note defs = moq_location_filter_to_core_def moq_location_filter_from_core_def Let_def
    moq_location_filter_cfg_init_def core_filter_zero_def
  have core: "lc_relative_group_offset cfg = 0 \<or> lc_relative_group_offset cfg \<noteq> 0" by simp
  show "moq_location_filter_to_core (moq_location_filter_from_core core n) = Inr core"
    using assms(1) unfolding to_core_cases using assms(2) core
    by (elim conjE disjE) (auto simp: defs)
  show "lc_kind (moq_location_filter_from_core core n) = lc_kind cfg"
    using assms(1) unfolding to_core_cases using assms(2) core
    by (elim conjE disjE) (auto simp: defs)
  have f: "\<not> eg < sg" "f = \<lparr>lf_type = if eo = 0 then 3 else 4, lf_start_group = sg, lf_start_object = so,
      lf_end_group_delta = eg - sg, lf_end_object = if eo = 0 then 0 else eo - 1\<rparr>"
    using assms(3) by (auto simp: moq_d22_from_fetch_range_def split: if_splits)
  then show "lf_ok f" by (auto simp: lf_ok_def not_less dest: delta_fits)
  have "eo - 1 \<noteq> UINT64_MAX" if "eo \<noteq> 0"
  proof
    assume "eo - 1 = UINT64_MAX"
    then have "eo = UINT64_MAX + 1" by (metis diff_add_cancel)
    with that show False by simp
  qed
  with f show "d22_fetch_filter (Some (lf_canon f)) =
       \<lparr>fd_start_group = sg, fd_start_object = so, fd_end_group = eg, fd_end_object = eo,
        fd_end_at_largest = False, fd_start_relative = False, fd_relative_offset = 0,
        fd_start_next_object = False\<rparr>"
    by (auto simp: d22_fetch_filter_def lf_canon_def Let_def)
qed

theorem filter_forms_round_trip_witness:
  "moq_location_filter_to_core (moq_location_filter_from_core \<lparr>cf_type = 0x101, cf_start_group = 3,
     cf_start_object = 0, cf_end_group = 0, cf_end_object = 0\<rparr> 48)
   = Inr \<lparr>cf_type = 0x101, cf_start_group = 3, cf_start_object = 0, cf_end_group = 0, cf_end_object = 0\<rparr>"
proof -
  have "moq_location_filter_to_core (moq_location_filter_cfg_init\<lparr>lc_kind := 1, lc_relative_group_offset := 3\<rparr>)
    = Inr \<lparr>cf_type = 0x101, cf_start_group = 3, cf_start_object = 0, cf_end_group = 0, cf_end_object = 0\<rparr>"
    by code_simp
  moreover have "moq_d22_from_fetch_range 1 2 3 4 = Inr \<lparr>lf_type = 4, lf_start_group = 1,
    lf_start_object = 2, lf_end_group_delta = 2, lf_end_object = 3\<rparr>" by code_simp
  ultimately show ?thesis using filter_forms_round_trip by (metis order_refl)
qed

end
