(* ===== verification/TrackHist.thy ===== *)
theory TrackHist
  imports Location Heap
begin

text \<open>
  The registry of the largest Location seen on each track
  (\<open>core/src/session/session_track_hist.c\<close>, \<open>core/src/internal/validate.h\<close>): the canonical key of a
  full track name, the comparison of a name with a stored key, the pool of counted records, and the
  public call that notes a published object. A record is named by its index in the pool.
\<close>

unbundle bit_operations_syntax

section \<open>Data\<close>

text \<open>\<open>th_key\<close> is the pair \<open>key, key_len\<close>.\<close>

record moq_track_hist =
  th_in_use :: bool
  th_has_largest :: bool
  th_refs :: u32
  th_key :: moq_bytes
  th_largest_group :: u64
  th_largest_object :: u64
  th_pending_subs :: u32

definition track_hist_zero :: moq_track_hist where
  "track_hist_zero = \<lparr>th_in_use = False, th_has_largest = False, th_refs = 0, th_key = Null 0,
     th_largest_group = 0, th_largest_object = 0, th_pending_subs = 0\<rparr>"

text \<open>The part of the session that the registry uses: the pool \<open>track_hist, th_cap\<close>, the allocator
  with the bytes \<open>ts_fresh n\<close> that the block of its n-th call holds before it is written, whether the
  session is active, and two fields of its profile.\<close>

record th_session =
  ts_hist :: "moq_track_hist cptr"
  ts_heap :: moq_heap
  ts_fresh :: "nat \<Rightarrow> nat \<Rightarrow> u8"
  ts_active :: bool
  ts_location_varint_max :: u64
  ts_min_track_namespace_fields :: nat

abbreviation ts_records :: "th_session \<Rightarrow> moq_track_hist list" where
  "ts_records s \<equiv> elems (ts_hist s)"

definition hist_put :: "nat \<Rightarrow> moq_track_hist \<Rightarrow> th_session \<Rightarrow> th_session" where
  "hist_put i r s = s\<lparr>ts_hist := Arr ((ts_records s)[i := r])\<rparr>"

text \<open>A record has 48 bytes on an LP64 target; the session block creates the pool zeroed.\<close>

abbreviation TRACK_HIST_SIZEOF :: nat where "TRACK_HIST_SIZEOF \<equiv> 48"

definition track_hist_create :: "nat \<Rightarrow> th_session \<Rightarrow> moq_result \<times> th_session" where
  "track_hist_create th_cap s =
     (if 0 < th_cap then
        case heap_alloc (th_cap * TRACK_HIST_SIZEOF) (ts_heap s) of
          (False, h) \<Rightarrow> (MOQ_ERR_NOMEM, s\<lparr>ts_hist := Null th_cap, ts_heap := h\<rparr>)
        | (True, h) \<Rightarrow> (MOQ_OK, s\<lparr>ts_hist := Arr (replicate th_cap track_hist_zero), ts_heap := h\<rparr>)
      else (MOQ_OK, s\<lparr>ts_hist := Null th_cap\<rparr>))"

section \<open>Track names\<close>

definition MOQ_FULL_TRACK_NAME_MAX :: nat where "MOQ_FULL_TRACK_NAME_MAX = 4096"

fun validate_ns_loop :: "nat \<Rightarrow> moq_bytes list \<Rightarrow> moq_result" where
  "validate_ns_loop tot [] = MOQ_OK"
| "validate_ns_loop tot (p # ps) =
     (if plen p = 0 then MOQ_ERR_INVAL
      else if is_null p then MOQ_ERR_INVAL
      else if MOQ_FULL_TRACK_NAME_MAX - tot < plen p then MOQ_ERR_INVAL
      else validate_ns_loop (tot + plen p) ps)"

definition moq_validate_namespace_min_fields :: "moq_namespace \<Rightarrow> nat \<Rightarrow> moq_result" where
  "moq_validate_namespace_min_fields ns min_fields =
     (if 32 < min_fields \<or> plen ns < min_fields \<or> 32 < plen ns then MOQ_ERR_INVAL
      else if 0 < plen ns \<and> is_null ns then MOQ_ERR_INVAL
      else validate_ns_loop 0 (elems ns))"

definition moq_validate_full_track_name_min_fields ::
  "moq_namespace \<Rightarrow> moq_bytes \<Rightarrow> nat \<Rightarrow> moq_result" where
  "moq_validate_full_track_name_min_fields ns track_name min_fields =
     (let rc = moq_validate_namespace_min_fields ns min_fields in
      if moq_code rc < 0 then rc
      else if 0 < plen track_name \<and> is_null track_name then MOQ_ERR_INVAL
      else let ns_total = sum_list (map plen (elems ns)) in
        if MOQ_FULL_TRACK_NAME_MAX - ns_total < plen track_name then MOQ_ERR_INVAL else MOQ_OK)"

section \<open>Keys\<close>

text \<open>One length-prefixed field stored at an offset: the length is truncated to 16 bits, and so many
  bytes of the field are copied.\<close>

definition key_put_len :: "nat \<Rightarrow> u16 \<Rightarrow> moq_bytes \<Rightarrow> moq_bytes" where
  "key_put_len off flen buf = store_bytes off [ucast (drop_bit 8 flen), ucast (flen AND 0xFF)] buf"

fun key_put_parts :: "moq_bytes list \<Rightarrow> nat \<Rightarrow> moq_bytes \<Rightarrow> nat \<times> moq_bytes" where
  "key_put_parts [] off buf = (off, buf)"
| "key_put_parts (p # ps) off buf =
     (let flen = of_nat (plen p) :: u16;
          buf = key_put_len off flen buf;
          buf = (if 0 < flen then store_bytes (off + 2) (take (unat flen) (elems p)) buf else buf) in
      key_put_parts ps (off + 2 + unat flen) buf)"

definition key_write :: "moq_namespace \<Rightarrow> moq_bytes \<Rightarrow> moq_bytes \<Rightarrow> moq_bytes" where
  "key_write ns name buf =
     (let buf = store_bytes 0 [of_nat (plen ns)] buf in
      case key_put_parts (elems ns) 1 buf of
        (off, buf) \<Rightarrow>
          let buf = key_put_len off (of_nat (plen name)) buf in
          if 0 < plen name \<and> \<not> is_null name then store_bytes (off + 2) (elems name) buf else buf)"

definition moq_build_track_key ::
  "th_session \<Rightarrow> moq_namespace \<Rightarrow> moq_bytes \<Rightarrow> moq_bytes \<times> th_session" where
  "moq_build_track_key s ns name =
     (let key_len = 1 + sum_list (map (\<lambda>p. 2 + plen p) (elems ns)) + (2 + plen name) in
      case heap_alloc key_len (ts_heap s) of
        (False, h) \<Rightarrow> (Null key_len, s\<lparr>ts_heap := h\<rparr>)
      | (True, h) \<Rightarrow>
          (key_write ns name (Arr (map (ts_fresh s (h_calls (ts_heap s))) [0..<key_len])),
           s\<lparr>ts_heap := h\<rparr>))"

text \<open>One field of a stored key against a field of a name; the result is the offset behind it.\<close>

definition key_field :: "u8 list \<Rightarrow> nat \<Rightarrow> moq_bytes \<Rightarrow> nat option" where
  "key_field key off p =
     (if length key - off < 2 then None
      else let flen = unat (key ! off) * 256 + unat (key ! (off + 1)); off = off + 2 in
        if flen \<noteq> plen p then None
        else if length key - off < flen then None
        else if 0 < flen \<and> take flen (drop off key) \<noteq> elems p then None
        else Some (off + flen))"

fun key_fields :: "u8 list \<Rightarrow> nat \<Rightarrow> moq_bytes list \<Rightarrow> nat option" where
  "key_fields key off [] = Some off"
| "key_fields key off (p # ps) =
     (case key_field key off p of None \<Rightarrow> None | Some off \<Rightarrow> key_fields key off ps)"

definition moq_track_key_matches :: "moq_bytes \<Rightarrow> moq_namespace \<Rightarrow> moq_bytes \<Rightarrow> bool" where
  "moq_track_key_matches key ns name =
     (if is_null key \<or> plen key < 1 then False
      else if elems key ! 0 \<noteq> of_nat (plen ns) then False
      else if 0xFF < plen ns then False
      else case key_fields (elems key) 1 (elems ns) of None \<Rightarrow> False
        | Some off \<Rightarrow>
            (case key_field (elems key) off name of None \<Rightarrow> False
             | Some off \<Rightarrow> off = plen key))"

section \<open>The registry\<close>

definition track_hist_find :: "th_session \<Rightarrow> moq_bytes \<Rightarrow> nat option" where
  "track_hist_find s key =
     (if is_null (ts_hist s) then None
      else first_index (\<lambda>r. th_in_use r \<and> plen (th_key r) = plen key
             \<and> (plen key = 0 \<or> elems (th_key r) = elems key)) (ts_records s))"

definition track_hist_find_id :: "th_session \<Rightarrow> moq_namespace \<Rightarrow> moq_bytes \<Rightarrow> nat option" where
  "track_hist_find_id s ns name =
     (if is_null (ts_hist s) then None
      else first_index (\<lambda>r. th_in_use r \<and> moq_track_key_matches (th_key r) ns name) (ts_records s))"

datatype moq_track_hist_sel = MOQ_TH_SEL_EXISTING | MOQ_TH_SEL_FREE_SLOT | MOQ_TH_SEL_FULL

definition moq_track_hist_select :: "th_session \<Rightarrow> moq_namespace \<Rightarrow> moq_bytes \<Rightarrow> moq_track_hist_sel" where
  "moq_track_hist_select s ns name =
     (if track_hist_find_id s ns name \<noteq> None then MOQ_TH_SEL_EXISTING
      else if is_null (ts_hist s) then MOQ_TH_SEL_FULL
      else if list_ex (\<lambda>r. \<not> th_in_use r) (ts_records s) then MOQ_TH_SEL_FREE_SLOT
      else MOQ_TH_SEL_FULL)"

definition hist_ref :: "nat \<Rightarrow> th_session \<Rightarrow> th_session" where
  "hist_ref i s = hist_put i ((ts_records s ! i)\<lparr>th_refs := th_refs (ts_records s ! i) + 1\<rparr>) s"

definition hist_free_slot :: "th_session \<Rightarrow> nat option" where
  "hist_free_slot s =
     (if is_null (ts_hist s) then None else first_index (\<lambda>r. \<not> th_in_use r) (ts_records s))"

definition hist_fresh :: "moq_bytes \<Rightarrow> moq_track_hist" where
  "hist_fresh key = \<lparr>th_in_use = True, th_has_largest = False, th_refs = 1, th_key = key,
     th_largest_group = 0, th_largest_object = 0, th_pending_subs = 0\<rparr>"

definition track_hist_reserve_selected ::
  "th_session \<Rightarrow> moq_namespace \<Rightarrow> moq_bytes \<Rightarrow> (moq_result + nat) \<times> th_session" where
  "track_hist_reserve_selected s ns name =
     (case track_hist_find_id s ns name of
        Some i \<Rightarrow> (Inr i, hist_ref i s)
      | None \<Rightarrow>
          (case hist_free_slot s of None \<Rightarrow> (Inl MOQ_ERR_INTERNAL, s)
           | Some i \<Rightarrow>
               (case moq_build_track_key s ns name of
                  (kcopy, s) \<Rightarrow>
                    if is_null kcopy \<and> 0 < plen kcopy then (Inl MOQ_ERR_NOMEM, s)
                    else (Inr i, hist_put i (hist_fresh kcopy) s))))"

definition track_hist_reserve :: "th_session \<Rightarrow> moq_bytes \<Rightarrow> nat option \<times> th_session" where
  "track_hist_reserve s key =
     (case track_hist_find s key of
        Some i \<Rightarrow> (Some i, hist_ref i s)
      | None \<Rightarrow>
          (case hist_free_slot s of None \<Rightarrow> (None, s)
           | Some i \<Rightarrow>
               if 0 < plen key then
                 (case heap_alloc (plen key) (ts_heap s) of
                    (False, h) \<Rightarrow> (None, s\<lparr>ts_heap := h\<rparr>)
                  | (True, h) \<Rightarrow> (Some i, hist_put i (hist_fresh (Arr (elems key))) (s\<lparr>ts_heap := h\<rparr>)))
               else (Some i, hist_put i (hist_fresh (Null 0)) s)))"

definition track_hist_release :: "nat option \<Rightarrow> th_session \<Rightarrow> th_session" where
  "track_hist_release rec s =
     (case rec of None \<Rightarrow> s
      | Some i \<Rightarrow>
        let r = ts_records s ! i;
            r = (if 0 < th_refs r then r\<lparr>th_refs := th_refs r - 1\<rparr> else r) in
        if th_refs r = 0 \<and> \<not> th_has_largest r then
          let h = (if is_null (th_key r) then ts_heap s else heap_free (plen (th_key r)) (ts_heap s)) in
          hist_put i (r\<lparr>th_key := Null 0, th_in_use := False\<rparr>) (s\<lparr>ts_heap := h\<rparr>)
        else hist_put i r s)"

definition hist_merge_rec :: "u64 \<Rightarrow> u64 \<Rightarrow> moq_track_hist \<Rightarrow> moq_track_hist" where
  "hist_merge_rec group_id object_id r =
     (if \<not> th_has_largest r \<or> th_largest_group r < group_id
         \<or> (group_id = th_largest_group r \<and> th_largest_object r < object_id)
      then r\<lparr>th_largest_group := group_id, th_largest_object := object_id, th_has_largest := True\<rparr>
      else r)"

definition track_hist_merge :: "nat option \<Rightarrow> u64 \<Rightarrow> u64 \<Rightarrow> th_session \<Rightarrow> th_session" where
  "track_hist_merge rec group_id object_id s =
     (case rec of None \<Rightarrow> s
      | Some i \<Rightarrow> hist_put i (hist_merge_rec group_id object_id (ts_records s ! i)) s)"

definition track_hist_destroy :: "th_session \<Rightarrow> th_session" where
  "track_hist_destroy s =
     (if is_null (ts_hist s) then s
      else
        let h = fold (\<lambda>r. if th_in_use r \<and> \<not> is_null (th_key r) then heap_free (plen (th_key r)) else id)
                  (ts_records s) (ts_heap s);
            h = heap_free (plen (ts_hist s) * TRACK_HIST_SIZEOF) h in
        s\<lparr>ts_hist := Null 0, ts_heap := h\<rparr>)"

definition moq_session_note_object_published ::
  "th_session \<Rightarrow> moq_namespace \<Rightarrow> moq_bytes \<Rightarrow> u64 \<Rightarrow> u64 \<Rightarrow> moq_result \<times> th_session" where
  "moq_session_note_object_published s ns track_name group_id object_id =
     (if ts_location_varint_max s < group_id \<or> ts_location_varint_max s < object_id then (MOQ_ERR_INVAL, s)
      else if moq_code (moq_validate_full_track_name_min_fields ns track_name
                (ts_min_track_namespace_fields s)) < 0 then (MOQ_ERR_INVAL, s)
      else if \<not> ts_active s then (MOQ_ERR_WRONG_STATE, s)
      else case moq_build_track_key s ns track_name of
        (key, s) \<Rightarrow>
          if is_null key \<and> 0 < plen key then (MOQ_ERR_NOMEM, s)
          else
            let (rc, s) =
              (case track_hist_find s key of
                 Some i \<Rightarrow> (MOQ_OK, track_hist_merge (Some i) group_id object_id s)
               | None \<Rightarrow>
                   (case track_hist_reserve s key of
                      (None, s) \<Rightarrow> (MOQ_ERR_NOMEM, s)
                    | (Some i, s) \<Rightarrow>
                        (MOQ_OK, track_hist_release (Some i) (track_hist_merge (Some i) group_id object_id s)))) in
            (rc, if is_null key then s else s\<lparr>ts_heap := heap_free (plen key) (ts_heap s)\<rparr>))"

section \<open>The canonical key\<close>

definition field_bytes :: "u8 list \<Rightarrow> u8 list" where
  "field_bytes bs = of_nat (length bs div 256) # of_nat (length bs mod 256) # bs"

definition track_key :: "u8 list list \<Rightarrow> u8 list \<Rightarrow> u8 list" where
  "track_key fs name = of_nat (length fs) # concat (map field_bytes fs) @ field_bytes name"

text \<open>The fields of a namespace, and the spans that hold the bytes they announce.\<close>

abbreviation ns_fields :: "moq_namespace \<Rightarrow> u8 list list" where
  "ns_fields ns \<equiv> map elems (elems ns)"

definition span_given :: "moq_bytes \<Rightarrow> bool" where
  "span_given p \<longleftrightarrow> \<not> is_null p \<or> plen p = 0"

definition name_given :: "moq_namespace \<Rightarrow> moq_bytes \<Rightarrow> bool" where
  "name_given ns name \<longleftrightarrow> (\<not> is_null ns \<or> plen ns = 0) \<and> (\<forall>p \<in> set (elems ns). span_given p) \<and> span_given name"

definition name_fits :: "moq_namespace \<Rightarrow> moq_bytes \<Rightarrow> bool" where
  "name_fits ns name \<longleftrightarrow> plen ns < 256 \<and> (\<forall>p \<in> set (elems ns). plen p < 65536) \<and> plen name < 65536"

lemma span_given_len [simp]: "span_given p \<Longrightarrow> length (elems p) = plen p"
  by (cases p) (auto simp: span_given_def)

lemma length_field_bytes [simp]: "length (field_bytes bs) = 2 + length bs"
  by (simp add: field_bytes_def)

lemma u16_bytes:
  assumes "n < 65536"
  shows "(ucast (drop_bit 8 (of_nat n :: u16)) :: u8) = of_nat (n div 256)"
    "(ucast ((of_nat n :: u16) AND 0xFF) :: u8) = of_nat (n mod 256)"
proof -
  have n: "unat (of_nat n :: u16) = n" using assms by (simp add: unat_of_nat)
  have "unat (drop_bit 8 (of_nat n :: u16)) = n div 256"
    unfolding unat_drop_bit_eq n by (simp add: drop_bit_eq_div)
  then show "(ucast (drop_bit 8 (of_nat n :: u16)) :: u8) = of_nat (n div 256)"
    using assms by (simp add: word_unat_eq_iff unsigned_ucast_eq unat_of_nat take_bit_eq_mod)
  have "(of_nat n :: u16) AND 0xFF = take_bit 8 (of_nat n)" by (simp add: take_bit_eq_mask mask_eq_exp_minus_1)
  moreover have "unat (take_bit 8 (of_nat n :: u16)) = n mod 256"
    unfolding unsigned_take_bit_eq n by (simp add: take_bit_eq_mod)
  ultimately have "unat ((of_nat n :: u16) AND 0xFF) = n mod 256" by simp
  then show "(ucast ((of_nat n :: u16) AND 0xFF) :: u8) = of_nat (n mod 256)"
    by (simp add: word_unat_eq_iff unsigned_ucast_eq unat_of_nat take_bit_eq_mod)
qed

text \<open>Storing behind a finished prefix.\<close>

lemma store_append:
  "length pre = off \<Longrightarrow> length bs \<le> length suf \<Longrightarrow>
   store_bytes off bs (Arr (pre @ suf)) = Arr ((pre @ bs) @ drop (length bs) suf)"
  by simp

lemma put_field:
  assumes "length pre = off" and "2 + n \<le> length suf" and "n < 65536" and "length bs = n"
  shows "(let buf = key_put_len off (of_nat n) (Arr (pre @ suf)) in
      if 0 < n then store_bytes (off + 2) bs buf else buf)
    = Arr ((pre @ field_bytes bs) @ drop (2 + n) suf)"
proof -
  have len: "key_put_len off (of_nat n) (Arr (pre @ suf))
      = Arr ((pre @ [of_nat (n div 256), of_nat (n mod 256)]) @ drop 2 suf)"
    unfolding key_put_len_def u16_bytes [OF assms(3)]
    by (subst store_append) (use assms in \<open>simp_all add: numeral_2_eq_2\<close>)
  have "store_bytes (off + 2) bs (key_put_len off (of_nat n) (Arr (pre @ suf)))
      = Arr ((pre @ field_bytes bs) @ drop (2 + n) suf)"
    unfolding len by (subst store_append) (use assms in \<open>simp_all add: field_bytes_def\<close>)
  then show ?thesis
    using len assms(4) unfolding Let_def
    by (cases "n = 0") (simp_all add: field_bytes_def numeral_2_eq_2 del: store_bytes.simps)
qed

lemma u16_of_nat: "n < 65536 \<Longrightarrow> unat (of_nat n :: u16) = n" "n < 65536 \<Longrightarrow> (0 :: u16) < of_nat n \<longleftrightarrow> 0 < n"
  by (simp_all add: unat_of_nat word_less_nat_alt)

lemma put_parts:
  assumes "\<forall>p \<in> set ps. span_given p \<and> plen p < 65536" and "length pre = off"
    and "length (concat (map (field_bytes \<circ> elems) ps)) \<le> length suf"
  shows "key_put_parts ps off (Arr (pre @ suf))
    = (off + length (concat (map (field_bytes \<circ> elems) ps)),
       Arr ((pre @ concat (map (field_bytes \<circ> elems) ps))
         @ drop (length (concat (map (field_bytes \<circ> elems) ps))) suf))"
  using assms
proof (induction ps arbitrary: off pre suf)
  case (Cons p ps)
  have p: "span_given p" "plen p < 65536" using Cons.prems by simp_all
  have step: "key_put_parts (p # ps) off (Arr (pre @ suf)) = key_put_parts ps (off + 2 + plen p)
      (let buf = key_put_len off (of_nat (plen p)) (Arr (pre @ suf)) in
       if 0 < plen p then store_bytes (off + 2) (elems p) buf else buf)"
    using p by (simp add: Let_def u16_of_nat)
  have fst: "(let buf = key_put_len off (of_nat (plen p)) (Arr (pre @ suf)) in
      if 0 < plen p then store_bytes (off + 2) (elems p) buf else buf)
    = Arr ((pre @ field_bytes (elems p)) @ drop (2 + plen p) suf)"
    by (rule put_field) (use Cons.prems p in simp_all)
  have "key_put_parts ps (off + 2 + plen p) (Arr ((pre @ field_bytes (elems p)) @ drop (2 + plen p) suf))
    = (off + 2 + plen p + length (concat (map (field_bytes \<circ> elems) ps)),
       Arr (((pre @ field_bytes (elems p)) @ concat (map (field_bytes \<circ> elems) ps))
         @ drop (length (concat (map (field_bytes \<circ> elems) ps))) (drop (2 + plen p) suf)))"
    by (rule Cons.IH) (use Cons.prems p in simp_all)
  then show ?case unfolding step fst using p by (simp add: ac_simps comp_def)
qed simp

lemma fields_length: "sum_list (map (\<lambda>f. 2 + length f) fs) = 2 * length fs + sum_list (map length fs)"
  by (induction fs) simp_all

lemma track_key_length:
  "length (track_key fs name) = 1 + sum_list (map (\<lambda>f. 2 + length f) fs) + (2 + length name)"
  by (simp add: track_key_def length_concat comp_def)

lemma key_write:
  assumes "name_given ns name" and "name_fits ns name"
    and "length xs = length (track_key (ns_fields ns) (elems name))"
  shows "key_write ns name (Arr xs) = Arr (track_key (ns_fields ns) (elems name))"
proof -
  let ?ps = "concat (map (field_bytes \<circ> elems) (elems ns))"
  note given = assms(1,2) [unfolded name_given_def name_fits_def]
  have ns: "length (elems ns) = plen ns" using given by (cases ns) auto
  define suf where "suf = drop 1 xs"
  have suf: "length suf = length ?ps + (2 + plen name)"
    using assms(3) given by (simp add: suf_def track_key_def comp_def)
  have hd: "store_bytes 0 [of_nat (plen ns)] (Arr xs) = Arr ([of_nat (plen ns)] @ suf)"
    by (simp add: suf_def)
  have mid: "key_put_parts (elems ns) 1 (Arr ([of_nat (plen ns)] @ suf))
      = (1 + length ?ps, Arr (([of_nat (plen ns)] @ ?ps) @ drop (length ?ps) suf))"
    by (rule put_parts) (use given suf in auto)
  have cond: "0 < plen name \<and> \<not> is_null name \<longleftrightarrow> 0 < plen name" using given by (auto simp: span_given_def)
  have "(let buf = key_put_len (1 + length ?ps) (of_nat (plen name))
        (Arr (([of_nat (plen ns)] @ ?ps) @ drop (length ?ps) suf)) in
      if 0 < plen name then store_bytes (1 + length ?ps + 2) (elems name) buf else buf)
    = Arr ((([of_nat (plen ns)] @ ?ps) @ field_bytes (elems name)) @ drop (2 + plen name) (drop (length ?ps) suf))"
    by (rule put_field) (use given suf in auto)
  then show ?thesis
    unfolding key_write_def hd cond Let_def mid prod.case by (simp add: track_key_def ns suf comp_def)
qed

lemma build_track_key:
  assumes "name_given ns name" and "name_fits ns name"
  shows "moq_build_track_key s ns name =
    (let n = length (track_key (ns_fields ns) (elems name)) in
     case heap_alloc n (ts_heap s) of
       (False, h) \<Rightarrow> (Null n, s\<lparr>ts_heap := h\<rparr>)
     | (True, h) \<Rightarrow> (Arr (track_key (ns_fields ns) (elems name)), s\<lparr>ts_heap := h\<rparr>))"
proof -
  note given = assms(1) [unfolded name_given_def]
  have m: "map (\<lambda>f. 2 + length f) (ns_fields ns) = map (\<lambda>p. 2 + plen p) (elems ns)" using given by simp
  have len: "length (track_key (ns_fields ns) (elems name))
      = 1 + sum_list (map (\<lambda>p. 2 + plen p) (elems ns)) + (2 + plen name)"
    unfolding track_key_length m using given by simp
  have kw: "key_write ns name (Arr (map f [0..<length (track_key (ns_fields ns) (elems name))]))
      = Arr (track_key (ns_fields ns) (elems name))" for f
    by (rule key_write [OF assms]) simp
  show ?thesis unfolding moq_build_track_key_def Let_def len [symmetric] kw ..
qed

section \<open>Matching a key\<close>

lemma unat_u8_of_nat: "n < 256 \<Longrightarrow> unat (of_nat n :: u8) = n"
  by (simp add: unat_of_nat)

lemma unat_lt2p_u8: "unat (x :: u8) < 256"
  using unsigned_less [of x, where 'a = nat] by simp

lemma key_field_iff:
  assumes "span_given p" and "off \<le> length key"
  shows "key_field key off p = Some off' \<longleftrightarrow>
    plen p < 65536 \<and> off' = off + 2 + plen p \<and> (\<exists>rest. drop off key = field_bytes (elems p) @ rest)"
proof (cases "drop off key")
  case Nil
  then show ?thesis using assms by (simp add: key_field_def field_bytes_def)
next
  case (Cons a as)
  show ?thesis
  proof (cases as)
    case Nil
    with Cons have "length key - off = 1" by (metis length_drop list.size(3,4) One_nat_def add_0)
    with Cons Nil show ?thesis by (simp add: key_field_def field_bytes_def)
  next
    case (Cons b bs)
    note d = \<open>drop off key = a # as\<close> [unfolded Cons]
    have len: "length key = off + 2 + length bs"
      using arg_cong [OF d, of length] assms(2) by simp
    have nth: "key ! off = a" "key ! (off + 1) = b" "drop (off + 2) key = bs"
      using nth_drop [OF assms(2), of 0] nth_drop [OF assms(2), of 1] drop_drop [of 2 off key] d
      by (simp_all add: ac_simps)
    have ab: "unat a < 256" "unat b < 256" using unat_lt2p_u8 by auto
    have ev: "key_field key off p =
        (if unat a * 256 + unat b \<noteq> plen p \<or> length bs < plen p
            \<or> (0 < plen p \<and> take (plen p) bs \<noteq> elems p)
         then None else Some (off + 2 + plen p))"
      unfolding key_field_def Let_def nth by (simp add: len)
    have "unat a * 256 + unat b = n \<longleftrightarrow> n < 65536 \<and> a = of_nat (n div 256) \<and> b = of_nat (n mod 256)" for n
      using ab by (auto simp: unat_u8_of_nat word_unat_eq_iff)
    moreover have "length bs < plen p \<or> (0 < plen p \<and> take (plen p) bs \<noteq> elems p)
        \<longleftrightarrow> \<not> (\<exists>rest. bs = elems p @ rest)"
    proof (cases "\<exists>rest. bs = elems p @ rest")
      case False
      then have "take (plen p) bs \<noteq> elems p" by (metis append_take_drop_id)
      moreover have "length (elems p) = plen p" using assms(1) by simp
      ultimately show ?thesis using False by (cases "plen p = 0") auto
    qed (use assms(1) in auto)
    ultimately show ?thesis
      unfolding d ev using assms(1) by (auto simp: field_bytes_def)
  qed
qed

lemma key_fields_iff:
  assumes "\<forall>p \<in> set ps. span_given p" and "off \<le> length key"
  shows "key_fields key off ps = Some off' \<longleftrightarrow>
    (\<forall>p \<in> set ps. plen p < 65536) \<and> off' = off + length (concat (map (field_bytes \<circ> elems) ps))
    \<and> (\<exists>rest. drop off key = concat (map (field_bytes \<circ> elems) ps) @ rest)"
  using assms
proof (induction ps arbitrary: off)
  case (Cons p ps)
  have p: "span_given p" and ps: "\<forall>p \<in> set ps. span_given p" using Cons.prems by simp_all
  show ?case
  proof (cases "key_field key off p")
    case None
    then have "\<not> (plen p < 65536 \<and> (\<exists>rest. drop off key = field_bytes (elems p) @ rest))"
      using key_field_iff [OF p Cons.prems(2)] by auto
    with None show ?thesis by auto
  next
    case (Some off1)
    then obtain rest where off1: "plen p < 65536" "off1 = off + 2 + plen p" "drop off key = field_bytes (elems p) @ rest"
      using key_field_iff [OF p Cons.prems(2)] by auto
    have "drop off1 key = drop (2 + plen p) (drop off key)" by (simp add: off1(2) ac_simps)
    also have "\<dots> = rest" unfolding off1(3) using p by (simp add: field_bytes_def)
    finally have rest: "drop off1 key = rest" .
    have "off1 \<le> length key"
      using arg_cong [OF off1(3), of length] Cons.prems(2) p off1(2) by simp
    from Cons.IH [OF ps this] rest off1 Some p show ?thesis by (auto simp: comp_def)
  qed
qed auto

text \<open>A name matches exactly its canonical key.\<close>

lemma track_key_matches_iff:
  assumes "name_given ns name"
  shows "moq_track_key_matches (Arr key) ns name \<longleftrightarrow>
    name_fits ns name \<and> key = track_key (ns_fields ns) (elems name)"
proof -
  let ?ps = "concat (map (field_bytes \<circ> elems) (elems ns))"
  note given = assms [unfolded name_given_def]
  have ns: "length (elems ns) = plen ns" using given by (cases ns) auto
  show ?thesis
  proof (cases key)
    case Nil
    then show ?thesis by (simp add: moq_track_key_matches_def track_key_def)
  next
    case (Cons c cs)
    have fields: "key_fields key 1 (elems ns) = Some off \<longleftrightarrow>
        (\<forall>p \<in> set (elems ns). plen p < 65536) \<and> off = 1 + length ?ps \<and> (\<exists>rest. cs = ?ps @ rest)" for off
      using key_fields_iff [of "elems ns" 1 key off] given Cons by simp
    show ?thesis
    proof (cases "(\<forall>p \<in> set (elems ns). plen p < 65536) \<and> (\<exists>rest. cs = ?ps @ rest)")
      case False
      then have "key_fields key 1 (elems ns) = None" using fields by (cases "key_fields key 1 (elems ns)") auto
      with False Cons show ?thesis
        by (auto simp: moq_track_key_matches_def track_key_def name_fits_def comp_def)
    next
      case True
      then obtain rest where rest: "cs = ?ps @ rest" by blast
      have f: "key_fields key 1 (elems ns) = Some (1 + length ?ps)" using fields True by blast
      have kf: "key_field key (1 + length ?ps) name = Some off \<longleftrightarrow> plen name < 65536 \<and>
          off = 1 + length ?ps + 2 + plen name \<and> (\<exists>r. rest = field_bytes (elems name) @ r)" for off
        using key_field_iff [of name "1 + length ?ps" key off] given Cons rest by simp
      have size: "length key = 1 + length ?ps + length rest" using Cons rest by simp
      have at: "(case x of None \<Rightarrow> False | Some off \<Rightarrow> off = n) \<longleftrightarrow> x = Some n" for x and n :: nat
        by (cases x) auto
      have last: "(case key_field key (1 + length ?ps) name of None \<Rightarrow> False | Some off \<Rightarrow> off = length key)
          \<longleftrightarrow> plen name < 65536 \<and> rest = field_bytes (elems name)"
        unfolding at kf size using given by auto
      have "c = of_nat (plen ns) \<and> plen ns < 256 \<and> plen name < 65536 \<and> rest = field_bytes (elems name)
          \<longleftrightarrow> name_fits ns name \<and> key = track_key (ns_fields ns) (elems name)"
        using True Cons rest ns by (auto simp: name_fits_def track_key_def comp_def)
      moreover have "moq_track_key_matches (Arr key) ns name \<longleftrightarrow> c = of_nat (plen ns) \<and> plen ns < 256
          \<and> (case key_field key (1 + length ?ps) name of None \<Rightarrow> False | Some off \<Rightarrow> off = length key)"
      proof -
        have "key ! 0 = c" "\<not> length key < 1" using Cons by simp_all
        then show ?thesis unfolding moq_track_key_matches_def elems.simps plen.simps is_null.simps f option.case
          by simp
      qed
      ultimately show ?thesis using last by blast
    qed
  qed
qed

lemma u8_of_nat_inj: "(of_nat m :: u8) = of_nat n \<Longrightarrow> m < 256 \<Longrightarrow> n < 256 \<Longrightarrow> m = n"
  using unat_u8_of_nat by metis

lemma field_bytes_inj:
  assumes "field_bytes a @ x = field_bytes b @ y" and "length a < 65536" and "length b < 65536"
  shows "a = b \<and> x = y"
proof -
  have bytes: "(of_nat (length a div 256) :: u8) = of_nat (length b div 256)"
    "(of_nat (length a mod 256) :: u8) = of_nat (length b mod 256)" and rest: "a @ x = b @ y"
    using assms(1) unfolding field_bytes_def append_Cons list.inject by blast+
  have "length a div 256 = length b div 256" by (rule u8_of_nat_inj [OF bytes(1)]) (use assms in simp_all)
  moreover have "length a mod 256 = length b mod 256" by (rule u8_of_nat_inj [OF bytes(2)]) simp_all
  ultimately have "length a = length b" by (metis div_mult_mod_eq)
  with rest show ?thesis by simp
qed

lemma fields_inj:
  assumes "concat (map field_bytes fs) @ x = concat (map field_bytes gs) @ y" and "length fs = length gs"
    and "\<forall>f \<in> set fs. length f < 65536" and "\<forall>g \<in> set gs. length g < 65536"
  shows "fs = gs \<and> x = y"
  using assms(2,1,3,4)
proof (induction fs gs rule: list_induct2)
  case (Cons f fs g gs)
  have "field_bytes f @ concat (map field_bytes fs) @ x = field_bytes g @ concat (map field_bytes gs) @ y"
    using Cons.prems(1) by simp
  from field_bytes_inj [OF this] Cons show ?case by simp
qed simp

lemma track_key_inj:
  assumes "track_key fs n = track_key gs m" and "length fs < 256" "length gs < 256"
    and "\<forall>f \<in> set fs. length f < 65536" "\<forall>g \<in> set gs. length g < 65536" "length n < 65536" "length m < 65536"
  shows "fs = gs \<and> n = m"
proof -
  have "(of_nat (length fs) :: u8) = of_nat (length gs)"
    using assms(1) unfolding track_key_def by (rule list.inject [THEN iffD1, THEN conjunct1])
  then have "length fs = length gs" using u8_of_nat_inj assms(2,3) by blast
  moreover have "concat (map field_bytes fs) @ field_bytes n = concat (map field_bytes gs) @ field_bytes m"
    using assms(1) unfolding track_key_def by (rule list.inject [THEN iffD1, THEN conjunct2])
  ultimately have "fs = gs \<and> field_bytes n = field_bytes m" using fields_inj assms(4,5) by blast
  then show ?thesis by (simp add: field_bytes_def)
qed

section \<open>Valid names\<close>

lemma validate_ns_loop_ok:
  "validate_ns_loop tot ps = MOQ_OK \<longleftrightarrow>
     (\<forall>p \<in> set ps. \<not> is_null p \<and> 0 < plen p) \<and> (ps \<noteq> [] \<longrightarrow> tot + sum_list (map plen ps) \<le> 4096)"
proof (induction ps arbitrary: tot)
  case (Cons p ps)
  show ?case
    using Cons.IH [of "tot + plen p"] by (cases "ps = []") (auto simp: MOQ_FULL_TRACK_NAME_MAX_def)
qed simp

lemma validate_ns_loop_code: "moq_code (validate_ns_loop tot ps) < 0 \<longleftrightarrow> validate_ns_loop tot ps \<noteq> MOQ_OK"
  by (induction tot ps rule: validate_ns_loop.induct) auto

lemma valid_name:
  assumes "moq_validate_full_track_name_min_fields ns name m = MOQ_OK"
  shows "name_given ns name" "name_fits ns name"
    "plen ns \<le> 32" "sum_list (map plen (elems ns)) + plen name \<le> 4096"
proof -
  have ns: "plen ns \<le> 32" "0 < plen ns \<longrightarrow> \<not> is_null ns" "validate_ns_loop 0 (elems ns) = MOQ_OK"
    and name: "0 < plen name \<longrightarrow> \<not> is_null name" "\<not> 4096 - sum_list (map plen (elems ns)) < plen name"
    using assms validate_ns_loop_code [of 0 "elems ns"]
    by (auto simp: moq_validate_full_track_name_min_fields_def moq_validate_namespace_min_fields_def Let_def
        MOQ_FULL_TRACK_NAME_MAX_def split: if_splits)
  have parts: "\<forall>p \<in> set (elems ns). \<not> is_null p \<and> 0 < plen p" "sum_list (map plen (elems ns)) \<le> 4096"
    using ns(3) by (auto simp: validate_ns_loop_ok)
  then have "plen p < 65536" if "p \<in> set (elems ns)" for p
    using member_le_sum_list [of "plen p" "map plen (elems ns)"] that by force
  with ns parts name show "name_given ns name" "name_fits ns name" "plen ns \<le> 32"
    "sum_list (map plen (elems ns)) + plen name \<le> 4096"
    by (auto simp: name_given_def name_fits_def span_given_def)
qed

lemma validate_code:
  "moq_code (moq_validate_full_track_name_min_fields ns name m) < 0 \<longleftrightarrow>
   moq_validate_full_track_name_min_fields ns name m \<noteq> MOQ_OK"
  using validate_ns_loop_code [of 0 "elems ns"]
  by (auto simp: moq_validate_full_track_name_min_fields_def moq_validate_namespace_min_fields_def Let_def)

section \<open>The registry as a map\<close>

abbreviation hist_key :: "moq_track_hist \<Rightarrow> u8 list" where
  "hist_key r \<equiv> elems (th_key r)"

definition hist_value :: "moq_track_hist \<Rightarrow> u32 \<times> moq_location option" where
  "hist_value r = (th_refs r, if th_has_largest r then Some (th_largest_group r, th_largest_object r) else None)"

definition hist_map :: "th_session \<Rightarrow> u8 list \<rightharpoonup> (u32 \<times> moq_location option)" where
  "hist_map s k = map_option hist_value (keyed th_in_use hist_key (ts_records s) k)"

definition hist_inv :: "th_session \<Rightarrow> bool" where
  "hist_inv s \<longleftrightarrow> key_unique th_in_use hist_key (ts_records s)
     \<and> (\<forall>r \<in> set (ts_records s). if th_in_use r then \<not> is_null (th_key r) \<and> 0 < plen (th_key r)
                                 else is_null (th_key r))"

definition hist_live :: "nat \<Rightarrow> th_session \<Rightarrow> bool" where
  "hist_live i s \<longleftrightarrow> i < length (ts_records s) \<and> th_in_use (ts_records s ! i)"

lemma records_put [simp]: "ts_records (hist_put i r s) = (ts_records s)[i := r]"
  by (simp add: hist_put_def)

lemma ts_heap_put [simp]: "ts_heap (hist_put i r s) = ts_heap s"
  by (simp add: hist_put_def)

lemma null_put [simp]: "\<not> is_null (ts_hist (hist_put i r s))"
  by (simp add: hist_put_def)

text \<open>The three ways an operation changes the pool: it updates a live record, it fills a free slot,
  or it empties a live slot.\<close>

lemma hist_update:
  assumes "hist_inv s" and "hist_live i s" and "th_in_use r" and "th_key r = th_key (ts_records s ! i)"
  shows "hist_inv (hist_put i r s)"
    "hist_map (hist_put i r s) = (hist_map s)(hist_key (ts_records s ! i) \<mapsto> hist_value r)"
proof -
  have u: "key_unique th_in_use hist_key (ts_records s)" using assms(1) by (simp add: hist_inv_def)
  have i: "i < length (ts_records s)" "th_in_use (ts_records s ! i)" using assms(2) by (simp_all add: hist_live_def)
  have u': "key_unique th_in_use hist_key ((ts_records s)[i := r])"
    by (rule key_unique_same [OF u i]) (simp add: assms(4))
  have "ts_records s ! i \<in> set (ts_records s)" using i by simp
  with assms i have "if th_in_use r then \<not> is_null (th_key r) \<and> 0 < plen (th_key r) else is_null (th_key r)"
    by (auto simp: hist_inv_def)
  with assms(1) u' show "hist_inv (hist_put i r s)"
    unfolding hist_inv_def records_put by (intro conjI update_set_all) auto
  show "hist_map (hist_put i r s) = (hist_map s)(hist_key (ts_records s ! i) \<mapsto> hist_value r)"
  proof -
    have "keyed th_in_use hist_key ((ts_records s)[i := r]) = (keyed th_in_use hist_key (ts_records s))(hist_key r \<mapsto> r)"
      by (rule keyed_update [OF u u' i(1) assms(3)]) (simp add: assms(4))
    then show ?thesis by (simp add: hist_map_def fun_eq_iff assms(4))
  qed
qed

lemma hist_insert:
  assumes "hist_inv s" and "i < length (ts_records s)" and "\<not> th_in_use (ts_records s ! i)"
    and "th_in_use r" and "\<not> is_null (th_key r)" and "0 < plen (th_key r)" and "hist_map s (hist_key r) = None"
  shows "hist_inv (hist_put i r s)"
    "hist_map (hist_put i r s) = (hist_map s)(hist_key r \<mapsto> hist_value r)"
proof -
  have u: "key_unique th_in_use hist_key (ts_records s)" using assms(1) by (simp add: hist_inv_def)
  have none: "keyed th_in_use hist_key (ts_records s) (hist_key r) = None" using assms(7) by (simp add: hist_map_def)
  have u': "key_unique th_in_use hist_key ((ts_records s)[i := r])"
    by (rule key_unique_fresh [OF u assms(2) none])
  from assms u' show "hist_inv (hist_put i r s)"
    unfolding hist_inv_def records_put by (intro conjI update_set_all) auto
  show "hist_map (hist_put i r s) = (hist_map s)(hist_key r \<mapsto> hist_value r)"
  proof -
    have "keyed th_in_use hist_key ((ts_records s)[i := r]) = (keyed th_in_use hist_key (ts_records s))(hist_key r \<mapsto> r)"
      by (rule keyed_update [OF u u' assms(2,4)]) (use assms(3) in simp)
    then show ?thesis by (simp add: hist_map_def fun_eq_iff)
  qed
qed

lemma hist_remove:
  assumes "hist_inv s" and "hist_live i s" and "\<not> th_in_use r" and "is_null (th_key r)"
  shows "hist_inv (hist_put i r s)"
    "hist_map (hist_put i r s) = (hist_map s)(hist_key (ts_records s ! i) := None)"
proof -
  have u: "key_unique th_in_use hist_key (ts_records s)" using assms(1) by (simp add: hist_inv_def)
  have i: "i < length (ts_records s)" "th_in_use (ts_records s ! i)" using assms(2) by (simp_all add: hist_live_def)
  have u': "key_unique th_in_use hist_key ((ts_records s)[i := r])"
    by (rule key_unique_removed [OF u i(1) assms(3)])
  from assms u' show "hist_inv (hist_put i r s)"
    unfolding hist_inv_def records_put by (intro conjI update_set_all) auto
  show "hist_map (hist_put i r s) = (hist_map s)(hist_key (ts_records s ! i) := None)"
    using keyed_remove [OF u i(1) assms(3) i(2)] by (simp add: hist_map_def fun_eq_iff)
qed

lemma hist_heap [simp]:
  "hist_map (s\<lparr>ts_heap := h\<rparr>) = hist_map s" "hist_inv (s\<lparr>ts_heap := h\<rparr>) = hist_inv s"
  "hist_live i (s\<lparr>ts_heap := h\<rparr>) = hist_live i s" "track_hist_find (s\<lparr>ts_heap := h\<rparr>) key = track_hist_find s key"
  "hist_free_slot (s\<lparr>ts_heap := h\<rparr>) = hist_free_slot s"
  by (auto simp: hist_map_def hist_inv_def hist_live_def track_hist_find_def hist_free_slot_def)

lemma live_map:
  assumes "hist_inv s" and "hist_live i s"
  shows "hist_map s (hist_key (ts_records s ! i)) = Some (hist_value (ts_records s ! i))"
proof -
  have "keyed th_in_use hist_key (ts_records s) (hist_key (ts_records s ! i)) = Some (ts_records s ! i)"
    using assms keyed_Some_iff [of th_in_use hist_key "ts_records s"]
    by (auto simp: hist_inv_def hist_live_def)
  then show ?thesis by (simp add: hist_map_def)
qed

lemma rec_given:
  assumes "hist_inv s" and "r \<in> set (ts_records s)" and "th_in_use r"
  shows "th_key r = Arr (hist_key r)" "plen (th_key r) = length (hist_key r)" "hist_key r \<noteq> []"
proof -
  have r: "\<not> is_null (th_key r)" "0 < plen (th_key r)" using assms by (auto simp: hist_inv_def)
  then show "th_key r = Arr (hist_key r)" "plen (th_key r) = length (hist_key r)" "hist_key r \<noteq> []"
    using not_null_Arr by (cases "th_key r"; auto)+
qed

definition key_given :: "moq_bytes \<Rightarrow> bool" where
  "key_given key \<longleftrightarrow> \<not> is_null key \<and> 0 < plen key"

lemma find_iff:
  assumes "hist_inv s" and "key_given key"
  shows "track_hist_find s key = Some i \<longleftrightarrow> hist_live i s \<and> hist_key (ts_records s ! i) = elems key"
proof -
  have test: "(th_in_use r \<and> plen (th_key r) = plen key \<and> (plen key = 0 \<or> hist_key r = elems key))
      \<longleftrightarrow> th_in_use r \<and> hist_key r = elems key" if "r \<in> set (ts_records s)" for r
    using assms(2) rec_given [OF assms(1) that] plen_elems [of key] by (auto simp: key_given_def)
  show ?thesis
  proof (cases "is_null (ts_hist s)")
    case True
    then show ?thesis by (cases "ts_hist s") (auto simp: track_hist_find_def hist_live_def)
  next
    case False
    have eq: "track_hist_find s key = first_index (\<lambda>r. th_in_use r \<and> hist_key r = elems key) (ts_records s)"
      using False test unfolding track_hist_find_def by (simp cong: first_index_cong)
    have "\<not> (th_in_use (ts_records s ! j) \<and> hist_key (ts_records s ! j) = elems key)"
      if "hist_live i s" "hist_key (ts_records s ! i) = elems key" "j < i" for j
      using key_uniqueD [of th_in_use hist_key "ts_records s" i j] assms(1) that
      by (auto simp: hist_inv_def hist_live_def)
    then show ?thesis unfolding eq first_index_Some_iff hist_live_def by blast
  qed
qed

lemma find_None:
  assumes "hist_inv s" and "key_given key"
  shows "track_hist_find s key = None \<longleftrightarrow> hist_map s (elems key) = None"
proof
  assume none: "track_hist_find s key = None"
  show "hist_map s (elems key) = None"
  proof (rule ccontr)
    assume "hist_map s (elems key) \<noteq> None"
    then obtain r where "keyed th_in_use hist_key (ts_records s) (elems key) = Some r" by (auto simp: hist_map_def)
    then obtain i where "i < length (ts_records s)" "ts_records s ! i = r" "th_in_use r" "hist_key r = elems key"
      using assms(1) keyed_Some_iff [of th_in_use hist_key "ts_records s"] by (auto simp: hist_inv_def)
    then have "track_hist_find s key = Some i" unfolding find_iff [OF assms] by (simp add: hist_live_def)
    with none show False by simp
  qed
next
  assume none: "hist_map s (elems key) = None"
  show "track_hist_find s key = None"
  proof (cases "track_hist_find s key")
    case (Some i)
    then show ?thesis using none live_map [OF assms(1), of i] unfolding find_iff [OF assms] by simp
  qed
qed

lemma find_id_eq:
  assumes "hist_inv s" and "name_given ns name"
  shows "track_hist_find_id s ns name =
    (if name_fits ns name then track_hist_find s (Arr (track_key (ns_fields ns) (elems name))) else None)"
proof -
  let ?k = "track_key (ns_fields ns) (elems name)"
  have pos: "0 < length ?k" by (simp add: track_key_def)
  have test: "(th_in_use r \<and> moq_track_key_matches (th_key r) ns name) \<longleftrightarrow> th_in_use r \<and> name_fits ns name
      \<and> plen (th_key r) = plen (Arr ?k) \<and> (plen (Arr ?k) = 0 \<or> hist_key r = elems (Arr ?k))"
    if "r \<in> set (ts_records s)" for r
  proof (cases "th_in_use r")
    case True
    note r = rec_given [OF assms(1) that True]
    show ?thesis
      unfolding r(2) using True pos track_key_matches_iff [OF assms(2), of "hist_key r", folded r(1)] by auto
  qed simp
  show ?thesis
  proof (cases "name_fits ns name")
    case True
    then show ?thesis
      using test unfolding track_hist_find_id_def track_hist_find_def by (simp cong: first_index_cong)
  next
    case False
    then have "first_index (\<lambda>r. th_in_use r \<and> moq_track_key_matches (th_key r) ns name) (ts_records s) = None"
      using test by (simp add: first_index_None_iff)
    with False show ?thesis by (simp add: track_hist_find_id_def)
  qed
qed

section \<open>The operations on the map\<close>

definition loc_join :: "moq_location option \<Rightarrow> moq_location \<Rightarrow> moq_location" where
  "loc_join old l = (case old of None \<Rightarrow> l | Some x \<Rightarrow> max x l)"

type_synonym hist_abs = "u8 list \<rightharpoonup> (u32 \<times> moq_location option)"

definition abs_reserve :: "u8 list \<Rightarrow> hist_abs \<Rightarrow> hist_abs" where
  "abs_reserve k m = m(k \<mapsto> (case m k of None \<Rightarrow> (1, None) | Some (n, l) \<Rightarrow> (n + 1, l)))"

definition abs_merge :: "u8 list \<Rightarrow> moq_location \<Rightarrow> hist_abs \<Rightarrow> hist_abs" where
  "abs_merge k l m = (case m k of None \<Rightarrow> m | Some (n, old) \<Rightarrow> m(k \<mapsto> (n, Some (loc_join old l))))"

definition abs_release :: "u8 list \<Rightarrow> hist_abs \<Rightarrow> hist_abs" where
  "abs_release k m = (case m k of None \<Rightarrow> m
     | Some (n, l) \<Rightarrow> let n' = (if 0 < n then n - 1 else n) in
         if n' = 0 \<and> l = None then m(k := None) else m(k \<mapsto> (n', l)))"

definition abs_note :: "u8 list \<Rightarrow> moq_location \<Rightarrow> hist_abs \<Rightarrow> hist_abs" where
  "abs_note k l m = (case m k of None \<Rightarrow> m(k \<mapsto> (0, Some l)) | Some (n, old) \<Rightarrow> m(k \<mapsto> (n, Some (loc_join old l))))"

lemma ref_map:
  assumes "hist_inv s" and "hist_live i s"
  shows "hist_inv (hist_ref i s)" "hist_map (hist_ref i s) = abs_reserve (hist_key (ts_records s ! i)) (hist_map s)"
  using hist_update [OF assms, of "(ts_records s ! i)\<lparr>th_refs := th_refs (ts_records s ! i) + 1\<rparr>"]
    live_map [OF assms] assms(2)
  by (simp_all add: hist_ref_def abs_reserve_def hist_live_def hist_value_def)

lemma merge_value:
  "hist_value (hist_merge_rec g ob r) = (th_refs r, Some (loc_join (snd (hist_value r)) (g, ob)))"
  by (auto simp: hist_merge_rec_def hist_value_def loc_join_def max_def)

lemma merge_map:
  assumes "hist_inv s" and "hist_live i s"
  shows "hist_inv (track_hist_merge (Some i) g ob s)" "hist_live i (track_hist_merge (Some i) g ob s)"
    "hist_map (track_hist_merge (Some i) g ob s) = abs_merge (hist_key (ts_records s ! i)) (g, ob) (hist_map s)"
proof -
  have keep: "th_in_use (hist_merge_rec g ob r) = th_in_use r" "th_key (hist_merge_rec g ob r) = th_key r" for r
    by (simp_all add: hist_merge_rec_def)
  have i: "th_in_use (ts_records s ! i)" using assms(2) by (simp add: hist_live_def)
  note u = hist_update [OF assms, of "hist_merge_rec g ob (ts_records s ! i)", unfolded keep, OF i refl]
  show "hist_inv (track_hist_merge (Some i) g ob s)" using u(1) by (simp add: track_hist_merge_def)
  show "hist_live i (track_hist_merge (Some i) g ob s)"
    using assms(2) by (simp add: track_hist_merge_def hist_live_def keep)
  show "hist_map (track_hist_merge (Some i) g ob s) = abs_merge (hist_key (ts_records s ! i)) (g, ob) (hist_map s)"
    using u(2) live_map [OF assms] merge_value [of g ob "ts_records s ! i"]
    by (simp add: track_hist_merge_def abs_merge_def) (simp add: hist_value_def)
qed

lemma release_map:
  assumes "hist_inv s" and "hist_live i s"
  shows "hist_inv (track_hist_release (Some i) s)"
    "hist_map (track_hist_release (Some i) s) = abs_release (hist_key (ts_records s ! i)) (hist_map s)"
proof -
  define r where "r = (let r = ts_records s ! i in if 0 < th_refs r then r\<lparr>th_refs := th_refs r - 1\<rparr> else r)"
  have keep: "th_in_use r" "th_key r = th_key (ts_records s ! i)"
    "hist_value r = (let (n, l) = hist_value (ts_records s ! i) in (if 0 < n then n - 1 else n, l))"
    using assms(2) by (simp_all add: r_def hist_live_def hist_value_def Let_def)
  have rel: "track_hist_release (Some i) s =
      (if th_refs r = 0 \<and> \<not> th_has_largest r
       then hist_put i (r\<lparr>th_key := Null 0, th_in_use := False\<rparr>)
         (s\<lparr>ts_heap := if is_null (th_key r) then ts_heap s else heap_free (plen (th_key r)) (ts_heap s)\<rparr>)
       else hist_put i r s)"
    unfolding track_hist_release_def r_def Let_def by simp
  have gone: "th_refs r = 0 \<and> \<not> th_has_largest r \<longleftrightarrow> hist_value r = (0, None)"
    by (simp add: hist_value_def)
  have "hist_inv (track_hist_release (Some i) s)
      \<and> hist_map (track_hist_release (Some i) s) = abs_release (hist_key (ts_records s ! i)) (hist_map s)"
  proof (cases "hist_value r = (0, None)")
    case True
    then show ?thesis
      using hist_remove [of "s\<lparr>ts_heap := if is_null (th_key r) then ts_heap s else heap_free (plen (th_key r)) (ts_heap s)\<rparr>"
          i "r\<lparr>th_key := Null 0, th_in_use := False\<rparr>"] assms live_map [OF assms] keep(3)
      unfolding rel gone by (auto simp: abs_release_def Let_def split: prod.splits)
  next
    case False
    then show ?thesis
      using hist_update [OF assms keep(1,2)] live_map [OF assms] keep(3)
      unfolding rel gone by (auto simp: abs_release_def Let_def split: prod.splits)
  qed
  then show "hist_inv (track_hist_release (Some i) s)"
    "hist_map (track_hist_release (Some i) s) = abs_release (hist_key (ts_records s ! i)) (hist_map s)" by auto
qed

lemma free_slot_iff: "hist_free_slot s = Some i \<Longrightarrow> i < length (ts_records s) \<and> \<not> th_in_use (ts_records s ! i)"
  by (auto simp: hist_free_slot_def first_index_Some_iff split: if_splits)

text \<open>A new record in a free slot.\<close>

lemma fresh_map:
  assumes "hist_inv s" and "hist_free_slot s = Some i" and "k \<noteq> []" and "hist_map s k = None"
  shows "hist_inv (hist_put i (hist_fresh (Arr k)) s)" "hist_live i (hist_put i (hist_fresh (Arr k)) s)"
    "hist_key (ts_records (hist_put i (hist_fresh (Arr k)) s) ! i) = k"
    "hist_map (hist_put i (hist_fresh (Arr k)) s) = abs_reserve k (hist_map s)"
proof -
  have i: "i < length (ts_records s)" "\<not> th_in_use (ts_records s ! i)" using free_slot_iff [OF assms(2)] by simp_all
  have r: "th_in_use (hist_fresh (Arr k))" "\<not> is_null (th_key (hist_fresh (Arr k)))" "0 < plen (th_key (hist_fresh (Arr k)))"
    "hist_key (hist_fresh (Arr k)) = k" "hist_value (hist_fresh (Arr k)) = (1, None)"
    using assms(3) by (simp_all add: hist_fresh_def hist_value_def)
  note ins = hist_insert [OF assms(1) i r(1-3), unfolded r(4,5), OF assms(4)]
  show "hist_inv (hist_put i (hist_fresh (Arr k)) s)" by (rule ins(1))
  show "hist_live i (hist_put i (hist_fresh (Arr k)) s)" using i r by (simp add: hist_live_def)
  show "hist_key (ts_records (hist_put i (hist_fresh (Arr k)) s) ! i) = k" using i r by simp
  show "hist_map (hist_put i (hist_fresh (Arr k)) s) = abs_reserve k (hist_map s)"
    using ins(2) assms(4) by (simp add: abs_reserve_def)
qed

lemma ref_keep: "hist_live i s \<Longrightarrow> hist_live i (hist_ref i s) \<and> hist_key (ts_records (hist_ref i s) ! i) = hist_key (ts_records s ! i)"
  by (simp add: hist_ref_def hist_live_def)

definition grants :: "th_session \<Rightarrow> bool" where
  "grants s \<longleftrightarrow> h_grant (ts_heap s) (h_calls (ts_heap s))"

lemma reserve_map:
  assumes "hist_inv s" and "key_given key" and "track_hist_reserve s key = (res, s')"
  shows "res = Some i \<Longrightarrow> hist_inv s' \<and> hist_live i s' \<and> hist_key (ts_records s' ! i) = elems key
      \<and> hist_map s' = abs_reserve (elems key) (hist_map s)"
    "res = None \<Longrightarrow> ts_hist s' = ts_hist s"
    "res = None \<longleftrightarrow> hist_map s (elems key) = None \<and> (hist_free_slot s = None \<or> \<not> grants s)"
proof -
  have key: "plen key = length (elems key)" "elems key \<noteq> []" using assms(2) by (cases key; simp add: key_given_def)+
  have "(res = Some i \<longrightarrow> hist_inv s' \<and> hist_live i s' \<and> hist_key (ts_records s' ! i) = elems key
      \<and> hist_map s' = abs_reserve (elems key) (hist_map s)) \<and> (res = None \<longrightarrow> ts_hist s' = ts_hist s)
      \<and> (res = None \<longleftrightarrow> hist_map s (elems key) = None \<and> (hist_free_slot s = None \<or> \<not> grants s))"
  proof (cases "track_hist_find s key")
    case (Some j)
    then have j: "hist_live j s" "hist_key (ts_records s ! j) = elems key"
      using find_iff [OF assms(1,2)] by blast+
    have "res = Some j" "s' = hist_ref j s" using assms(3) Some by (simp_all add: track_hist_reserve_def)
    then show ?thesis using ref_map [OF assms(1) j(1)] ref_keep [OF j(1)] j(2) live_map [OF assms(1) j(1)] by auto
  next
    case None
    then have none: "hist_map s (elems key) = None" using find_None [OF assms(1,2)] by blast
    show ?thesis
    proof (cases "hist_free_slot s")
      case None
      then show ?thesis using assms(3) \<open>track_hist_find s key = None\<close> none by (simp add: track_hist_reserve_def)
    next
      case (Some j)
      obtain ok h where alloc: "heap_alloc (plen key) (ts_heap s) = (ok, h)" by (cases "heap_alloc (plen key) (ts_heap s)")
      then have ok: "ok \<longleftrightarrow> grants s" by (auto simp: heap_alloc_def grants_def Let_def)
      have res: "(res, s') = (if ok then (Some j, hist_put j (hist_fresh (Arr (elems key))) (s\<lparr>ts_heap := h\<rparr>))
          else (None, s\<lparr>ts_heap := h\<rparr>))"
        using assms(3) \<open>track_hist_find s key = None\<close> Some alloc key by (simp add: track_hist_reserve_def split: bool.splits)
      have "hist_free_slot (s\<lparr>ts_heap := h\<rparr>) = Some j" "hist_inv (s\<lparr>ts_heap := h\<rparr>)"
        "hist_map (s\<lparr>ts_heap := h\<rparr>) (elems key) = None" using Some assms(1) none by simp_all
      from fresh_map [OF this(2,1) key(2) this(3)] res ok Some none show ?thesis by (auto split: if_splits)
    qed
  qed
  then show "res = Some i \<Longrightarrow> hist_inv s' \<and> hist_live i s' \<and> hist_key (ts_records s' ! i) = elems key
      \<and> hist_map s' = abs_reserve (elems key) (hist_map s)" "res = None \<Longrightarrow> ts_hist s' = ts_hist s"
    "res = None \<longleftrightarrow> hist_map s (elems key) = None \<and> (hist_free_slot s = None \<or> \<not> grants s)" by blast+
qed

lemma reserve_selected_map:
  assumes "hist_inv s" and "name_given ns name" and "name_fits ns name"
    and "k = track_key (ns_fields ns) (elems name)" and "track_hist_reserve_selected s ns name = (res, s')"
  shows "res = Inr i \<Longrightarrow> hist_inv s' \<and> hist_live i s' \<and> hist_key (ts_records s' ! i) = k
      \<and> hist_map s' = abs_reserve k (hist_map s)"
    "res = Inl e \<Longrightarrow> ts_hist s' = ts_hist s"
    "res = Inl e \<longleftrightarrow> hist_map s k = None \<and>
       (hist_free_slot s = None \<and> e = MOQ_ERR_INTERNAL \<or> hist_free_slot s \<noteq> None \<and> \<not> grants s \<and> e = MOQ_ERR_NOMEM)"
proof -
  have k: "key_given (Arr k)" "k \<noteq> []" by (simp_all add: key_given_def assms(4) track_key_def)
  have find: "track_hist_find_id s ns name = track_hist_find s (Arr k)"
    using find_id_eq [OF assms(1,2)] assms(3,4) by simp
  have "(res = Inr i \<longrightarrow> hist_inv s' \<and> hist_live i s' \<and> hist_key (ts_records s' ! i) = k
      \<and> hist_map s' = abs_reserve k (hist_map s)) \<and> (res = Inl e \<longrightarrow> ts_hist s' = ts_hist s)
      \<and> (res = Inl e \<longleftrightarrow> hist_map s k = None \<and>
       (hist_free_slot s = None \<and> e = MOQ_ERR_INTERNAL \<or> hist_free_slot s \<noteq> None \<and> \<not> grants s \<and> e = MOQ_ERR_NOMEM))"
  proof (cases "track_hist_find s (Arr k)")
    case (Some j)
    then have j: "hist_live j s" "hist_key (ts_records s ! j) = k"
      using find_iff [OF assms(1) k(1)] by simp_all
    have "res = Inr j" "s' = hist_ref j s" using assms(5) Some find by (simp_all add: track_hist_reserve_selected_def)
    then show ?thesis using ref_map [OF assms(1) j(1)] ref_keep [OF j(1)] j(2) live_map [OF assms(1) j(1)] by auto
  next
    case None
    then have none: "hist_map s k = None" using find_None [OF assms(1) k(1)] by simp
    show ?thesis
    proof (cases "hist_free_slot s")
      case None
      then show ?thesis
        using assms(5) \<open>track_hist_find s (Arr k) = None\<close> none find by (auto simp: track_hist_reserve_selected_def)
    next
      case (Some j)
      obtain ok h where alloc: "heap_alloc (length k) (ts_heap s) = (ok, h)" by (cases "heap_alloc (length k) (ts_heap s)")
      then have ok: "ok \<longleftrightarrow> grants s" by (auto simp: heap_alloc_def grants_def Let_def)
      have "moq_build_track_key s ns name = (if ok then Arr k else Null (length k), s\<lparr>ts_heap := h\<rparr>)"
        unfolding build_track_key [OF assms(2,3)] assms(4) [symmetric] Let_def alloc by (simp split: bool.splits)
      then have res: "(res, s') = (if ok then (Inr j, hist_put j (hist_fresh (Arr k)) (s\<lparr>ts_heap := h\<rparr>))
          else (Inl MOQ_ERR_NOMEM, s\<lparr>ts_heap := h\<rparr>))"
        using assms(5) \<open>track_hist_find s (Arr k) = None\<close> Some find k(2) by (simp add: track_hist_reserve_selected_def split: if_splits)
      have "hist_free_slot (s\<lparr>ts_heap := h\<rparr>) = Some j" "hist_inv (s\<lparr>ts_heap := h\<rparr>)"
        "hist_map (s\<lparr>ts_heap := h\<rparr>) k = None" using Some assms(1) none by simp_all
      from fresh_map [OF this(2,1) k(2) this(3)] res ok Some none show ?thesis by (auto split: if_splits)
    qed
  qed
  then show "res = Inr i \<Longrightarrow> hist_inv s' \<and> hist_live i s' \<and> hist_key (ts_records s' ! i) = k
      \<and> hist_map s' = abs_reserve k (hist_map s)" "res = Inl e \<Longrightarrow> ts_hist s' = ts_hist s"
    "res = Inl e \<longleftrightarrow> hist_map s k = None \<and>
       (hist_free_slot s = None \<and> e = MOQ_ERR_INTERNAL \<or> hist_free_slot s \<noteq> None \<and> \<not> grants s \<and> e = MOQ_ERR_NOMEM)"
    by blast+
qed

section \<open>Memory\<close>

text \<open>The blocks the registry owns: the pool and the key of every record in use.\<close>

definition hist_blocks :: "th_session \<Rightarrow> nat multiset" where
  "hist_blocks s = sum_list (map (\<lambda>r. {#plen (th_key r)#}) (filter th_in_use (ts_records s)))
     + (if is_null (ts_hist s) then {#} else {#plen (ts_hist s) * TRACK_HIST_SIZEOF#})"

definition hist_mem :: "nat multiset \<Rightarrow> th_session \<Rightarrow> bool" where
  "hist_mem base s \<longleftrightarrow> mset (h_blocks (ts_heap s)) = base + hist_blocks s"

lemma blocks_put:
  assumes "i < length (ts_records s)"
  shows "hist_blocks (hist_put i r s) + (if th_in_use (ts_records s ! i) then {#plen (th_key (ts_records s ! i))#} else {#})
    = hist_blocks s + (if th_in_use r then {#plen (th_key r)#} else {#})"
proof -
  obtain xs where xs: "ts_hist s = Arr xs" using assms by (cases "ts_hist s") auto
  then show ?thesis
    using sum_update [OF assms, of "\<lambda>r. {#plen (th_key r)#}" th_in_use r]
    by (simp add: hist_blocks_def) (simp add: hist_put_def xs)
qed

lemma mem_same:
  assumes "hist_mem base s" and "hist_live i s" and "th_in_use r" and "th_key r = th_key (ts_records s ! i)"
  shows "hist_mem base (hist_put i r s)"
  using assms blocks_put [of i s r] by (simp add: hist_mem_def hist_live_def)

lemma blocks_heap [simp]: "hist_blocks (s\<lparr>ts_heap := h\<rparr>) = hist_blocks s"
  by (simp add: hist_blocks_def)

lemma mem_ref: "hist_mem base s \<Longrightarrow> hist_live i s \<Longrightarrow> hist_mem base (hist_ref i s)"
  unfolding hist_ref_def by (rule mem_same) (auto simp: hist_live_def)

lemma mem_merge: "hist_mem base s \<Longrightarrow> hist_live i s \<Longrightarrow> hist_mem base (track_hist_merge (Some i) g ob s)"
  unfolding track_hist_merge_def option.case by (rule mem_same) (auto simp: hist_live_def hist_merge_rec_def)

lemma mem_release:
  assumes "hist_inv s" and "hist_mem base s" and "hist_live i s"
  shows "hist_mem base (track_hist_release (Some i) s)"
proof -
  define r where "r = (let r = ts_records s ! i in if 0 < th_refs r then r\<lparr>th_refs := th_refs r - 1\<rparr> else r)"
  have keep: "th_in_use r" "th_key r = th_key (ts_records s ! i)"
    using assms(3) by (simp_all add: r_def hist_live_def Let_def)
  have i: "i < length (ts_records s)" "th_in_use (ts_records s ! i)" using assms(3) by (simp_all add: hist_live_def)
  have given: "\<not> is_null (th_key r)" using rec_given(1) [OF assms(1) _ i(2)] i(1) keep(2) by (metis is_null.simps(2) nth_mem)
  have rel: "track_hist_release (Some i) s =
      (if th_refs r = 0 \<and> \<not> th_has_largest r
       then hist_put i (r\<lparr>th_key := Null 0, th_in_use := False\<rparr>) (s\<lparr>ts_heap := heap_free (plen (th_key r)) (ts_heap s)\<rparr>)
       else hist_put i r s)"
    using given unfolding track_hist_release_def r_def Let_def by simp
  show ?thesis
  proof (cases "th_refs r = 0 \<and> \<not> th_has_largest r")
    case True
    have "hist_blocks (hist_put i (r\<lparr>th_key := Null 0, th_in_use := False\<rparr>) (s\<lparr>ts_heap := heap_free (plen (th_key r)) (ts_heap s)\<rparr>))
        + {#plen (th_key r)#} = hist_blocks s"
      using blocks_put [of i "s\<lparr>ts_heap := heap_free (plen (th_key r)) (ts_heap s)\<rparr>" "r\<lparr>th_key := Null 0, th_in_use := False\<rparr>"] i keep
      by simp
    then show ?thesis
      using True assms(2) unfolding rel hist_mem_def
      by (simp add: blocks_free) (metis add_diff_cancel_right' union_assoc union_mset_add_mset_right add_mset_add_single)
  next
    case False
    then show ?thesis unfolding rel using mem_same [OF assms(2,3) keep] by auto
  qed
qed

lemma mem_fresh:
  assumes "hist_free_slot s = Some i" and "mset (h_blocks (ts_heap s)) = add_mset (length k) (base + hist_blocks s)"
  shows "hist_mem base (hist_put i (hist_fresh (Arr k)) s)"
  using blocks_put [of i s "hist_fresh (Arr k)"] free_slot_iff [OF assms(1)] assms(2)
  by (simp add: hist_mem_def) (simp add: hist_fresh_def)

lemma alloc_mem:
  assumes "heap_alloc n (ts_heap s) = (ok, h)" and "hist_mem base s"
  shows "mset (h_blocks h) = (if ok then add_mset n (base + hist_blocks s) else base + hist_blocks s)"
  using assms blocks_alloc [of n "ts_heap s" h] by (cases ok) (auto simp: hist_mem_def)

lemma mem_reserve:
  assumes "hist_inv s" and "key_given key" and "hist_mem base s"
  shows "hist_mem base (snd (track_hist_reserve s key))"
proof (cases "track_hist_find s key")
  case (Some j)
  then have "hist_live j s" using find_iff [OF assms(1,2)] by blast
  then show ?thesis using Some mem_ref [OF assms(3)] by (simp add: track_hist_reserve_def)
next
  case None
  obtain ok h where alloc: "heap_alloc (plen key) (ts_heap s) = (ok, h)" by (cases "heap_alloc (plen key) (ts_heap s)")
  have key: "plen key = length (elems key)" "0 < plen key" using assms(2) by (cases key; simp add: key_given_def)+
  show ?thesis
  proof (cases "hist_free_slot s")
    case (Some j)
    have "hist_mem base (hist_put j (hist_fresh (Arr (elems key))) (s\<lparr>ts_heap := h\<rparr>))" if ok
      by (rule mem_fresh) (use Some that alloc_mem [OF alloc assms(3)] key in simp_all)
    then show ?thesis
      using None Some alloc key alloc_mem [OF alloc assms(3)]
      by (simp add: track_hist_reserve_def hist_mem_def split: bool.splits)
  qed (use None assms(3) in \<open>simp add: track_hist_reserve_def\<close>)
qed

lemma mem_reserve_selected:
  assumes "hist_inv s" and "name_given ns name" and "name_fits ns name" and "hist_mem base s"
  shows "hist_mem base (snd (track_hist_reserve_selected s ns name))"
proof -
  define k where "k = track_key (ns_fields ns) (elems name)"
  have k: "key_given (Arr k)" "k \<noteq> []" by (simp_all add: key_given_def k_def track_key_def)
  have find: "track_hist_find_id s ns name = track_hist_find s (Arr k)"
    using find_id_eq [OF assms(1,2)] assms(3) by (simp add: k_def)
  show ?thesis
  proof (cases "track_hist_find s (Arr k)")
    case (Some j)
    then have "hist_live j s" using find_iff [OF assms(1) k(1)] by blast
    then show ?thesis using Some find mem_ref [OF assms(4)] by (simp add: track_hist_reserve_selected_def)
  next
    case None
    obtain ok h where alloc: "heap_alloc (length k) (ts_heap s) = (ok, h)" by (cases "heap_alloc (length k) (ts_heap s)")
    have build: "moq_build_track_key s ns name = (if ok then Arr k else Null (length k), s\<lparr>ts_heap := h\<rparr>)"
      unfolding build_track_key [OF assms(2,3)] k_def [symmetric] Let_def alloc by (simp split: bool.splits)
    show ?thesis
    proof (cases "hist_free_slot s")
      case (Some j)
      have "hist_mem base (hist_put j (hist_fresh (Arr k)) (s\<lparr>ts_heap := h\<rparr>))" if ok
        by (rule mem_fresh) (use Some that alloc_mem [OF alloc assms(4)] in simp_all)
      then show ?thesis
        using None Some find build k(2) alloc_mem [OF alloc assms(4)]
        by (simp add: track_hist_reserve_selected_def hist_mem_def split: if_splits)
    qed (use None find assms(4) in \<open>simp add: track_hist_reserve_selected_def\<close>)
  qed
qed

lemma mem_destroy:
  assumes "hist_inv s" and "hist_mem base s"
  shows "mset (h_blocks (ts_heap (track_hist_destroy s))) = base"
proof (cases "is_null (ts_hist s)")
  case True
  then show ?thesis using assms(2) by (cases "ts_hist s") (auto simp: hist_mem_def hist_blocks_def track_hist_destroy_def)
next
  case False
  have in_use: "filter (\<lambda>r. th_in_use r \<and> \<not> is_null (th_key r)) (ts_records s) = filter th_in_use (ts_records s)"
    using assms(1) by (intro filter_cong) (auto simp: hist_inv_def)
  have sum: "sum_list (map (\<lambda>r. {#plen (th_key r)#}) xs) = mset (map (\<lambda>r. plen (th_key r)) xs)" for xs
    by (induction xs) auto
  show ?thesis
    using assms(2) False
    by (simp add: track_hist_destroy_def Let_def blocks_free blocks_fold_free in_use hist_mem_def hist_blocks_def sum)
qed

section \<open>Noting a published object\<close>

definition note_checked :: "th_session \<Rightarrow> moq_namespace \<Rightarrow> moq_bytes \<Rightarrow> u64 \<Rightarrow> u64 \<Rightarrow> bool" where
  "note_checked s ns name g ob \<longleftrightarrow> g \<le> ts_location_varint_max s \<and> ob \<le> ts_location_varint_max s
     \<and> moq_validate_full_track_name_min_fields ns name (ts_min_track_namespace_fields s) = MOQ_OK \<and> ts_active s"

text \<open>Recording a location under a key, the part after the key was built.\<close>

definition note_record :: "moq_bytes \<Rightarrow> u64 \<Rightarrow> u64 \<Rightarrow> th_session \<Rightarrow> moq_result \<times> th_session" where
  "note_record key g ob s =
     (case track_hist_find s key of
        Some i \<Rightarrow> (MOQ_OK, track_hist_merge (Some i) g ob s)
      | None \<Rightarrow>
          (case track_hist_reserve s key of
             (None, s) \<Rightarrow> (MOQ_ERR_NOMEM, s)
           | (Some i, s) \<Rightarrow> (MOQ_OK, track_hist_release (Some i) (track_hist_merge (Some i) g ob s))))"

lemma note_eq:
  assumes "note_checked s ns name g ob" and "k = track_key (ns_fields ns) (elems name)"
    and "heap_alloc (length k) (ts_heap s) = (ok, h)"
  shows "moq_session_note_object_published s ns name g ob =
    (if \<not> ok then (MOQ_ERR_NOMEM, s\<lparr>ts_heap := h\<rparr>)
     else case note_record (Arr k) g ob (s\<lparr>ts_heap := h\<rparr>) of
       (rc, t) \<Rightarrow> (rc, t\<lparr>ts_heap := heap_free (length k) (ts_heap t)\<rparr>))"
proof -
  have valid: "moq_validate_full_track_name_min_fields ns name (ts_min_track_namespace_fields s) = MOQ_OK"
    and bounds: "\<not> ts_location_varint_max s < g" "\<not> ts_location_varint_max s < ob" "ts_active s"
    using assms(1) by (auto simp: note_checked_def not_less)
  have "moq_build_track_key s ns name = (if ok then Arr k else Null (length k), s\<lparr>ts_heap := h\<rparr>)"
    unfolding build_track_key [OF valid_name(1,2) [OF valid]] assms(2) [symmetric] Let_def assms(3)
    by (simp split: bool.splits)
  moreover have "0 < length k" by (simp add: assms(2) track_key_def)
  ultimately show ?thesis
    using bounds valid
    by (simp add: moq_session_note_object_published_def note_record_def split: prod.splits)
qed

lemma note_unchecked:
  assumes "\<not> note_checked s ns name g ob"
  shows "snd (moq_session_note_object_published s ns name g ob) = s"
    "fst (moq_session_note_object_published s ns name g ob) \<in> {MOQ_ERR_INVAL, MOQ_ERR_WRONG_STATE}"
  using assms validate_code
  by (auto simp: moq_session_note_object_published_def note_checked_def not_less)

lemma note_record_map:
  assumes "hist_inv s" and "k \<noteq> []" and "note_record (Arr k) g ob s = (rc, t)"
  shows "rc = MOQ_OK \<Longrightarrow> hist_inv t \<and> hist_map t = abs_note k (g, ob) (hist_map s)"
    "rc \<noteq> MOQ_OK \<Longrightarrow> ts_hist t = ts_hist s"
    "rc = (if hist_map s k = None \<and> (hist_free_slot s = None \<or> \<not> grants s) then MOQ_ERR_NOMEM else MOQ_OK)"
    "hist_mem base s \<Longrightarrow> hist_mem base t"
proof -
  have given: "key_given (Arr k)" using assms(2) by (simp add: key_given_def)
  have "(rc = MOQ_OK \<longrightarrow> hist_inv t \<and> hist_map t = abs_note k (g, ob) (hist_map s))
      \<and> (rc \<noteq> MOQ_OK \<longrightarrow> ts_hist t = ts_hist s)
      \<and> rc = (if hist_map s k = None \<and> (hist_free_slot s = None \<or> \<not> grants s) then MOQ_ERR_NOMEM else MOQ_OK)
      \<and> (hist_mem base s \<longrightarrow> hist_mem base t)"
  proof (cases "track_hist_find s (Arr k)")
    case (Some i)
    then have i: "hist_live i s" "hist_key (ts_records s ! i) = k"
      using find_iff [OF assms(1) given] by simp_all
    have "rc = MOQ_OK" "t = track_hist_merge (Some i) g ob s" using assms(3) Some by (simp_all add: note_record_def)
    then show ?thesis
      using merge_map [OF assms(1) i(1), of g ob] live_map [OF assms(1) i(1)] i(2) mem_merge [OF _ i(1), of base g ob]
      by (auto simp: abs_merge_def abs_note_def split: prod.splits)
  next
    case None
    then have none: "hist_map s k = None" using find_None [OF assms(1) given] by simp
    obtain res s1 where res: "track_hist_reserve s (Arr k) = (res, s1)" by (cases "track_hist_reserve s (Arr k)")
    note R = reserve_map [OF assms(1) given res]
    have mem: "hist_mem base s \<Longrightarrow> hist_mem base s1" using mem_reserve [OF assms(1) given] res by fastforce
    show ?thesis
    proof (cases res)
      case None
      then show ?thesis
        using R(2,3) mem none assms(3) res \<open>track_hist_find s (Arr k) = None\<close> by (auto simp: note_record_def)
    next
      case (Some i)
      have s1: "hist_inv s1" "hist_live i s1" "hist_key (ts_records s1 ! i) = k" "hist_map s1 = abs_reserve k (hist_map s)"
        using R(1) [OF Some] by simp_all
      define s2 where "s2 = track_hist_merge (Some i) g ob s1"
      note M = merge_map [OF s1(1,2), of g ob, folded s2_def]
      have key2: "hist_key (ts_records s2 ! i) = k"
        using s1 by (simp add: s2_def track_hist_merge_def hist_merge_rec_def hist_live_def)
      have t: "rc = MOQ_OK" "t = track_hist_release (Some i) s2"
        using assms(3) res Some \<open>track_hist_find s (Arr k) = None\<close> by (simp_all add: note_record_def s2_def)
      have "hist_map t = abs_note k (g, ob) (hist_map s)"
        unfolding t(2) release_map(2) [OF M(1,2)] key2 M(3) s1(3,4)
        using none by (simp add: abs_release_def abs_merge_def abs_reserve_def abs_note_def loc_join_def)
      moreover have "hist_mem base s1 \<longrightarrow> hist_mem base t"
        using mem_release [OF M(1) _ M(2)] mem_merge [OF _ s1(2), of base g ob] unfolding t(2) s2_def by blast
      ultimately show ?thesis using t(1) release_map(1) [OF M(1,2)] mem R(3) Some none unfolding t(2) by auto
    qed
  qed
  then show "rc = MOQ_OK \<Longrightarrow> hist_inv t \<and> hist_map t = abs_note k (g, ob) (hist_map s)"
    "rc \<noteq> MOQ_OK \<Longrightarrow> ts_hist t = ts_hist s"
    "rc = (if hist_map s k = None \<and> (hist_free_slot s = None \<or> \<not> grants s) then MOQ_ERR_NOMEM else MOQ_OK)"
    "hist_mem base s \<Longrightarrow> hist_mem base t" by blast+
qed

lemma note_map:
  assumes "hist_inv s" and "k = track_key (ns_fields ns) (elems name)"
    and "moq_session_note_object_published s ns name g ob = (rc, t)"
  shows "rc = MOQ_OK \<Longrightarrow> note_checked s ns name g ob \<and> hist_inv t \<and> hist_map t = abs_note k (g, ob) (hist_map s)"
    "rc \<noteq> MOQ_OK \<Longrightarrow> ts_hist t = ts_hist s"
    "rc = MOQ_ERR_NOMEM \<Longrightarrow> grants s \<Longrightarrow> hist_map s k = None"
    "hist_mem base s \<Longrightarrow> hist_mem base t"
proof -
  have "(rc = MOQ_OK \<longrightarrow> note_checked s ns name g ob \<and> hist_inv t \<and> hist_map t = abs_note k (g, ob) (hist_map s))
      \<and> (rc \<noteq> MOQ_OK \<longrightarrow> ts_hist t = ts_hist s) \<and> (rc = MOQ_ERR_NOMEM \<longrightarrow> grants s \<longrightarrow> hist_map s k = None)
      \<and> (hist_mem base s \<longrightarrow> hist_mem base t)"
  proof (cases "note_checked s ns name g ob")
    case False
    then show ?thesis using note_unchecked [OF False] assms(3) by auto
  next
    case True
    obtain ok h where alloc: "heap_alloc (length k) (ts_heap s) = (ok, h)" by (cases "heap_alloc (length k) (ts_heap s)")
    then have ok: "ok \<longleftrightarrow> grants s" by (auto simp: heap_alloc_def grants_def Let_def)
    have k: "k \<noteq> []" by (simp add: assms(2) track_key_def)
    note eq = note_eq [OF True assms(2) alloc, unfolded assms(3)]
    show ?thesis
    proof (cases ok)
      case False
      then show ?thesis using eq ok alloc_mem [OF alloc, of base] by (auto simp: hist_mem_def)
    next
      case True
      obtain rc' t' where rec: "note_record (Arr k) g ob (s\<lparr>ts_heap := h\<rparr>) = (rc', t')"
        by (cases "note_record (Arr k) g ob (s\<lparr>ts_heap := h\<rparr>)")
      have t: "rc = rc'" "t = t'\<lparr>ts_heap := heap_free (length k) (ts_heap t')\<rparr>" using eq True rec by simp_all
      have "hist_inv (s\<lparr>ts_heap := h\<rparr>)" using assms(1) by simp
      note R = note_record_map [OF this k rec]
      have "hist_mem base t" if "hist_mem base s"
      proof -
        have "hist_mem (add_mset (length k) base) (s\<lparr>ts_heap := h\<rparr>)"
          using alloc_mem [OF alloc that] True by (simp add: hist_mem_def)
        then show ?thesis using R(4) [of "add_mset (length k) base"] unfolding t(2) by (simp add: hist_mem_def blocks_free)
      qed
      moreover have "rc = MOQ_ERR_NOMEM \<longrightarrow> hist_map s k = None" using R(3) t(1) by (auto split: if_splits)
      ultimately show ?thesis using R(1,2) t \<open>note_checked s ns name g ob\<close> by simp
    qed
  qed
  then show "rc = MOQ_OK \<Longrightarrow> note_checked s ns name g ob \<and> hist_inv t \<and> hist_map t = abs_note k (g, ob) (hist_map s)"
    "rc \<noteq> MOQ_OK \<Longrightarrow> ts_hist t = ts_hist s" "rc = MOQ_ERR_NOMEM \<Longrightarrow> grants s \<Longrightarrow> hist_map s k = None"
    "hist_mem base s \<Longrightarrow> hist_mem base t" by blast+
qed

section \<open>Runs\<close>

text \<open>The calls of the session on the registry, with the observation each records. The callers pass
  validated names and keys built from them, and release or merge only records they hold.\<close>

inductive hist_step :: "th_session \<Rightarrow> (u8 list \<times> moq_location) option \<Rightarrow> th_session \<Rightarrow> bool" where
  step_reserve: "moq_validate_full_track_name_min_fields ns name m = MOQ_OK \<Longrightarrow>
    hist_step s None (snd (track_hist_reserve_selected s ns name))"
| step_reserve_key: "key_given key \<Longrightarrow> hist_step s None (snd (track_hist_reserve s key))"
| step_release: "hist_live i s \<Longrightarrow> hist_step s None (track_hist_release (Some i) s)"
| step_merge: "hist_live i s \<Longrightarrow>
    hist_step s (Some (hist_key (ts_records s ! i), g, ob)) (track_hist_merge (Some i) g ob s)"
| step_note: "moq_session_note_object_published s ns name g ob = (rc, t) \<Longrightarrow>
    hist_step s (if rc = MOQ_OK then Some (track_key (ns_fields ns) (elems name), g, ob) else None) t"

inductive hist_run :: "th_session \<Rightarrow> (u8 list \<times> moq_location) list \<Rightarrow> th_session \<Rightarrow> bool" where
  run_start: "hist_run s [] s"
| run_step: "hist_run s seen t \<Longrightarrow> hist_step t obs u \<Longrightarrow>
    hist_run s (case obs of None \<Rightarrow> seen | Some x \<Rightarrow> x # seen) u"

definition hist_largest :: "th_session \<Rightarrow> u8 list \<Rightarrow> moq_location option" where
  "hist_largest s k = Option.bind (hist_map s k) snd"

lemma largest_abs:
  "Option.bind (abs_reserve k m x) snd = Option.bind (m x) snd"
  "Option.bind (abs_release k m x) snd = Option.bind (m x) snd"
  "m k \<noteq> None \<Longrightarrow> Option.bind (abs_merge k l m x) snd
     = (if x = k then Some (loc_join (Option.bind (m k) snd) l) else Option.bind (m x) snd)"
  "Option.bind (abs_note k l m x) snd
     = (if x = k then Some (loc_join (Option.bind (m k) snd) l) else Option.bind (m x) snd)"
  by (auto simp: abs_reserve_def abs_release_def abs_merge_def abs_note_def loc_join_def Let_def
      split: option.splits prod.splits)

lemma inv_cong: "ts_hist s = ts_hist t \<Longrightarrow> hist_inv s = hist_inv t \<and> hist_map s = hist_map t"
  by (simp add: hist_inv_def hist_map_def fun_eq_iff)

lemma hist_step_preserves:
  assumes "hist_step s obs t" and "hist_inv s"
  shows "hist_inv t \<and> (hist_mem base s \<longrightarrow> hist_mem base t)
    \<and> (\<forall>x. hist_largest t x = (case obs of None \<Rightarrow> hist_largest s x
        | Some (k, l) \<Rightarrow> if x = k then Some (loc_join (hist_largest s k) l) else hist_largest s x))"
  using assms
proof (induction rule: hist_step.induct)
  case (step_reserve ns name m s)
  obtain res t where t: "track_hist_reserve_selected s ns name = (res, t)" by (cases "track_hist_reserve_selected s ns name")
  note valid = valid_name(1,2) [OF step_reserve(1)]
  note R = reserve_selected_map [OF step_reserve(2) valid refl t]
  have "hist_inv t \<and> (\<forall>x. hist_largest t x = hist_largest s x)"
  proof (cases res)
    case (Inl e)
    then show ?thesis using R(2) inv_cong [of t s] step_reserve(2) by (simp add: hist_largest_def)
  next
    case (Inr i)
    then show ?thesis using R(1) by (simp add: hist_largest_def largest_abs)
  qed
  then show ?case using t mem_reserve_selected [OF step_reserve(2) valid, of base] by simp
next
  case (step_reserve_key key s)
  obtain res t where t: "track_hist_reserve s key = (res, t)" by (cases "track_hist_reserve s key")
  note R = reserve_map [OF step_reserve_key(2,1) t]
  have "hist_inv t \<and> (\<forall>x. hist_largest t x = hist_largest s x)"
  proof (cases res)
    case None
    then show ?thesis using R(2) inv_cong [of t s] step_reserve_key(2) by (simp add: hist_largest_def)
  next
    case (Some i)
    then show ?thesis using R(1) by (simp add: hist_largest_def largest_abs)
  qed
  then show ?case using t mem_reserve [OF step_reserve_key(2,1), of base] by simp
next
  case (step_release i s)
  then show ?case
    using release_map [OF step_release(2,1)] mem_release [OF step_release(2) _ step_release(1)]
    by (simp add: hist_largest_def largest_abs)
next
  case (step_merge i s g ob)
  then show ?case
    using merge_map [OF step_merge(2,1), of g ob] mem_merge [OF _ step_merge(1)] live_map [OF step_merge(2,1)]
    by (simp add: hist_largest_def largest_abs)
next
  case (step_note s ns name g ob rc t)
  note R = note_map [OF step_note(2) refl step_note(1)]
  show ?case
  proof (cases "rc = MOQ_OK")
    case True
    then show ?thesis using R(1,4) by (simp add: hist_largest_def largest_abs)
  next
    case False
    then show ?thesis using R(2,4) inv_cong [of t s] step_note(2) by (simp add: hist_largest_def)
  qed
qed

definition largest_of :: "moq_location set \<Rightarrow> moq_location option" where
  "largest_of S = (if S = {} then None else Some (Max S))"

lemma largest_insert: "finite S \<Longrightarrow> largest_of (insert l S) = Some (loc_join (largest_of S) l)"
  by (simp add: largest_of_def loc_join_def max.commute)

lemma hist_run_largest:
  assumes "hist_run s seen t" and "hist_inv s" and "hist_map s = Map.empty"
  shows "hist_inv t \<and> (hist_mem base s \<longrightarrow> hist_mem base t)
    \<and> (\<forall>k. hist_largest t k = largest_of {l. (k, l) \<in> set seen})"
  using assms
proof (induction rule: hist_run.induct)
  case (run_start s)
  then show ?case by (simp add: hist_largest_def largest_of_def)
next
  case (run_step s seen t obs u)
  then have t: "hist_inv t" "hist_mem base s \<longrightarrow> hist_mem base t" "\<And>k. hist_largest t k = largest_of {l. (k, l) \<in> set seen}"
    by blast+
  note step = hist_step_preserves [OF run_step(2) t(1), of base]
  have fin: "finite {l. (k, l) \<in> set seen}" for k
    by (rule finite_subset [of _ "snd ` set seen"]) (force, simp)
  show ?case
  proof (cases obs)
    case (Some x)
    obtain k l where x: "x = (k, l)" by (cases x)
    have "{l'. (k', l') \<in> set (x # seen)} = (if k' = k then insert l {l. (k, l) \<in> set seen} else {l. (k', l) \<in> set seen})" for k'
      using x by auto
    then show ?thesis using step t Some x by (simp add: largest_insert [OF fin])
  qed (use step t in auto)
qed

lemma create_empty:
  assumes "track_hist_create n s0 = (MOQ_OK, s)"
  shows "hist_inv s" "hist_map s = Map.empty" "hist_mem (mset (h_blocks (ts_heap s0))) s"
proof -
  have recs: "set (ts_records s) \<subseteq> {track_hist_zero}"
    using assms by (auto simp: track_hist_create_def split: if_splits prod.splits bool.splits)
  then have free: "\<not> th_in_use r \<and> is_null (th_key r)" if "r \<in> set (ts_records s)" for r
    using that by (auto simp: track_hist_zero_def)
  then have none: "{j. j < length (ts_records s) \<and> th_in_use (ts_records s ! j)} = {}" by auto
  show "hist_inv s" unfolding hist_inv_def key_unique_def none using free by simp
  have "keyed th_in_use hist_key (ts_records s) k = None" for k
    using recs unfolding keyed_None_iff by (auto simp: track_hist_zero_def)
  then show "hist_map s = Map.empty" by (simp add: hist_map_def fun_eq_iff)
  have "filter th_in_use (replicate n track_hist_zero) = []" by (simp add: track_hist_zero_def)
  then show "hist_mem (mset (h_blocks (ts_heap s0))) s"
    using assms by (auto simp: track_hist_create_def hist_mem_def hist_blocks_def heap_alloc_def Let_def
        split: if_splits prod.splits bool.splits)
qed

section \<open>Properties\<close>

text \<open>C29: the key of a track is canonical. The key built for a valid name matches exactly the names
  with the same namespace fields and the same track name, two valid names have the same key exactly
  when they are the same, and a key has at most 4163 bytes; what the memory held before does not show.\<close>

theorem track_key_identity:
  assumes "moq_validate_full_track_name_min_fields ns name m = MOQ_OK"
    and "moq_validate_full_track_name_min_fields ns' name' m' = MOQ_OK"
    and "moq_build_track_key s ns name = (key, t)" and "\<not> is_null key"
    and "moq_build_track_key s' ns' name' = (key', t')" and "\<not> is_null key'"
  shows "(moq_track_key_matches key ns' name' \<longleftrightarrow> ns_fields ns = ns_fields ns' \<and> elems name = elems name')
    \<and> (key = key' \<longleftrightarrow> ns_fields ns = ns_fields ns' \<and> elems name = elems name')
    \<and> plen key \<le> 4163"
proof -
  note v = valid_name [OF assms(1)] and v' = valid_name [OF assms(2)]
  have key: "key = Arr (track_key (ns_fields ns) (elems name))"
    using assms(3,4) unfolding build_track_key [OF v(1,2)] by (auto simp: Let_def split: prod.splits bool.splits)
  have key': "key' = Arr (track_key (ns_fields ns') (elems name'))"
    using assms(5,6) unfolding build_track_key [OF v'(1,2)] by (auto simp: Let_def split: prod.splits bool.splits)
  have inj: "track_key (ns_fields ns) (elems name) = track_key (ns_fields ns') (elems name')
      \<longleftrightarrow> ns_fields ns = ns_fields ns' \<and> elems name = elems name'" (is "?l \<longleftrightarrow> ?r")
  proof
    have len: "length (elems x) = plen x" if "\<not> is_null x \<or> plen x = 0" for x :: "moq_bytes cptr"
      using that by (cases x) auto
    assume ?l
    then show ?r
      by (rule track_key_inj) (use v(1,2) v'(1,2) len [of ns] len [of ns'] in \<open>auto simp: name_fits_def name_given_def\<close>)
  qed simp
  have lens: "map length (ns_fields ns) = map plen (elems ns)" using v(1) by (simp add: name_given_def)
  have "length (elems ns) \<le> 32" using v(1,3) by (cases ns) (auto simp: name_given_def)
  moreover have "length (elems name) = plen name" using v(1) by (simp add: name_given_def)
  ultimately have "plen key \<le> 4163"
    using v(4) unfolding key plen.simps track_key_length fields_length lens by simp
  with key key' inj track_key_matches_iff [OF v'(1), of "track_key (ns_fields ns) (elems name)"] v'(2)
  show ?thesis by auto
qed

definition demo_session :: th_session where
  "demo_session = \<lparr>ts_hist = Arr [track_hist_zero], ts_heap = \<lparr>h_grant = \<lambda>_. True, h_calls = 1, h_blocks = [48]\<rparr>,
     ts_fresh = \<lambda>_ _. 0, ts_active = True, ts_location_varint_max = UINT64_MAX, ts_min_track_namespace_fields = 1\<rparr>"

theorem track_key_identity_witness:
  "\<not> moq_track_key_matches (fst (moq_build_track_key demo_session (Arr [Arr [7]]) (Arr [8]))) (Arr [Arr [7], Arr [8]]) (Null 0)"
proof -
  have v: "moq_validate_full_track_name_min_fields (Arr [Arr [7]]) (Arr [8]) 1 = MOQ_OK"
    "moq_validate_full_track_name_min_fields (Arr [Arr [7], Arr [8]]) (Null 0) 1 = MOQ_OK" by code_simp+
  have n: "\<not> is_null (fst (moq_build_track_key demo_session (Arr [Arr [7]]) (Arr [8])))"
    "\<not> is_null (fst (moq_build_track_key demo_session (Arr [Arr [7], Arr [8]]) (Null 0)))" by code_simp+
  show ?thesis
    using track_key_identity [OF v prod.collapse [symmetric] n(1) prod.collapse [symmetric] n(2)] by simp
qed

text \<open>C28: the registry implements a map from keys to a reference count and the largest Location.
  Selecting tells whether a reservation finds the track, a free slot or none; a reservation counts the
  track's entry up or creates it, and one that fails changes nothing and says whether the registry was
  full or memory was refused; a release counts down and removes an entry that no reference and no
  Location holds; merging takes the maximum in Location order; noting a published object does so for
  its track, or fails and changes nothing.\<close>

theorem track_hist_refines_map:
  assumes "hist_inv s" and "moq_validate_full_track_name_min_fields ns name m = MOQ_OK"
    and "k = track_key (ns_fields ns) (elems name)" and "hist_live i s"
  shows "(moq_track_hist_select s ns name = MOQ_TH_SEL_EXISTING \<longleftrightarrow> hist_map s k \<noteq> None)
    \<and> (case track_hist_reserve_selected s ns name of
        (Inr j, t) \<Rightarrow> moq_track_hist_select s ns name \<noteq> MOQ_TH_SEL_FULL \<and> hist_inv t
          \<and> hist_key (ts_records t ! j) = k \<and> hist_map t = abs_reserve k (hist_map s)
      | (Inl e, t) \<Rightarrow> hist_map t = hist_map s \<and> hist_map s k = None
          \<and> e = (if moq_track_hist_select s ns name = MOQ_TH_SEL_FULL then MOQ_ERR_INTERNAL else MOQ_ERR_NOMEM))
    \<and> hist_map (track_hist_release (Some i) s) = abs_release (hist_key (ts_records s ! i)) (hist_map s)
    \<and> hist_map (track_hist_merge (Some i) g ob s) = abs_merge (hist_key (ts_records s ! i)) (g, ob) (hist_map s)
    \<and> (case moq_session_note_object_published s ns name g ob of
        (rc, t) \<Rightarrow> hist_inv t \<and> hist_map t = (if rc = MOQ_OK then abs_note k (g, ob) (hist_map s) else hist_map s))"
proof -
  note v = valid_name(1,2) [OF assms(2)]
  have given: "key_given (Arr k)" by (simp add: key_given_def assms(3) track_key_def)
  have find: "track_hist_find_id s ns name = None \<longleftrightarrow> hist_map s k = None"
    using find_id_eq [OF assms(1) v(1)] v(2) find_None [OF assms(1) given] assms(3) by simp
  have free: "hist_free_slot s = None \<longleftrightarrow> is_null (ts_hist s) \<or> \<not> list_ex (\<lambda>r. \<not> th_in_use r) (ts_records s)"
    by (auto simp: hist_free_slot_def first_index_None_iff list_ex_iff)
  have full: "moq_track_hist_select s ns name = MOQ_TH_SEL_FULL \<longleftrightarrow> hist_map s k = None \<and> hist_free_slot s = None"
    unfolding moq_track_hist_select_def free find by (cases "hist_map s k = None") simp_all
  obtain res t where t: "track_hist_reserve_selected s ns name = (res, t)" by (cases "track_hist_reserve_selected s ns name")
  note R = reserve_selected_map [OF assms(1) v assms(3) t]
  obtain rc u where u: "moq_session_note_object_published s ns name g ob = (rc, u)"
    by (cases "moq_session_note_object_published s ns name g ob")
  note N = note_map [OF assms(1,3) u]
  show ?thesis
  proof (intro conjI)
    show "moq_track_hist_select s ns name = MOQ_TH_SEL_EXISTING \<longleftrightarrow> hist_map s k \<noteq> None"
      unfolding moq_track_hist_select_def find by (cases "hist_map s k = None") simp_all
    show "case track_hist_reserve_selected s ns name of
        (Inr j, t) \<Rightarrow> moq_track_hist_select s ns name \<noteq> MOQ_TH_SEL_FULL \<and> hist_inv t
          \<and> hist_key (ts_records t ! j) = k \<and> hist_map t = abs_reserve k (hist_map s)
      | (Inl e, t) \<Rightarrow> hist_map t = hist_map s \<and> hist_map s k = None
          \<and> e = (if moq_track_hist_select s ns name = MOQ_TH_SEL_FULL then MOQ_ERR_INTERNAL else MOQ_ERR_NOMEM)"
    proof (cases res)
      case (Inl e)
      then have "hist_map t = hist_map s" using R(2) inv_cong [of t s] by blast
      then show ?thesis unfolding t prod.case Inl sum.case full using R(3) [of e] Inl by auto
    next
      case (Inr j)
      then have "\<not> (hist_map s k = None \<and> hist_free_slot s = None)" using R(3) [of MOQ_ERR_INTERNAL] by auto
      then show ?thesis unfolding t prod.case Inr sum.case full using R(1) [OF Inr] by blast
    qed
    show "case moq_session_note_object_published s ns name g ob of
        (rc, t) \<Rightarrow> hist_inv t \<and> hist_map t = (if rc = MOQ_OK then abs_note k (g, ob) (hist_map s) else hist_map s)"
      using N(1,2) inv_cong [of u s] assms(1) unfolding u by auto
  qed (rule release_map(2) [OF assms(1,4)], rule merge_map(3) [OF assms(1,4)])
qed

definition demo_one :: th_session where
  "demo_one = snd (track_hist_reserve_selected demo_session (Arr [Arr [7]]) (Arr [8]))"

theorem track_hist_refines_map_witness:
  "moq_track_hist_select demo_one (Arr [Arr [7]]) (Arr [8]) = MOQ_TH_SEL_EXISTING
   \<and> hist_map (track_hist_merge (Some 0) 5 1 demo_one) = abs_merge [1, 0, 1, 7, 0, 1, 8] (5, 1) (hist_map demo_one)"
proof -
  let ?k = "track_key (ns_fields (Arr [Arr [7]])) (elems (Arr [8]))"
  have k: "?k = [1, 0, 1, 7, 0, 1, 8]" by code_simp
  have v: "moq_validate_full_track_name_min_fields (Arr [Arr [7]]) (Arr [8]) 1 = MOQ_OK" by code_simp
  have recs: "ts_records demo_one = [hist_fresh (Arr [1, 0, 1, 7, 0, 1, 8])]" by code_simp
  have inv: "hist_inv demo_one" and live: "hist_live 0 demo_one"
    by (simp_all add: hist_inv_def hist_live_def recs key_unique_def hist_fresh_def inj_on_def)
  have "hist_map demo_one ?k \<noteq> None"
    unfolding k by (simp add: hist_map_def keyed_def recs) (simp add: hist_fresh_def)
  then show ?thesis
    using track_hist_refines_map [OF inv v refl live, of 5 1] recs by (simp add: hist_fresh_def)
qed

text \<open>C27: whatever calls are made, from the creation of the registry on, the largest Location it holds
  for a track is the maximum of all that were merged or successfully noted for it, and none is forgotten
  when references come and go; the records stay well formed, and destroying the registry returns every
  block it ever took.\<close>

theorem track_hist_keeps_largest:
  assumes "track_hist_create n s0 = (MOQ_OK, s)" and "hist_run s seen t"
  shows "hist_inv t \<and> (\<forall>k. hist_largest t k = largest_of {l. (k, l) \<in> set seen})
    \<and> mset (h_blocks (ts_heap (track_hist_destroy t))) = mset (h_blocks (ts_heap s0))"
  using hist_run_largest [OF assms(2) create_empty(1,2) [OF assms(1)]] create_empty(3) [OF assms(1)] mem_destroy
  by blast

theorem track_hist_keeps_largest_witness:
  "hist_largest (track_hist_release (Some 0) (track_hist_merge (Some 0) 5 1 demo_one)) [1, 0, 1, 7, 0, 1, 8] = Some (5, 1)"
proof -
  let ?s0 = "demo_session\<lparr>ts_hist := Null 0, ts_heap := \<lparr>h_grant = \<lambda>_. True, h_calls = 0, h_blocks = []\<rparr>\<rparr>"
  have create: "track_hist_create 1 ?s0 = (MOQ_OK, demo_session)"
    by (simp add: track_hist_create_def heap_alloc_def demo_session_def)
  have v: "moq_validate_full_track_name_min_fields (Arr [Arr [7]]) (Arr [8]) 1 = MOQ_OK" by code_simp
  have recs: "ts_records demo_one = [hist_fresh (Arr [1, 0, 1, 7, 0, 1, 8])]" by code_simp
  have live: "hist_live 0 demo_one" "hist_live 0 (track_hist_merge (Some 0) 5 1 demo_one)"
    unfolding hist_live_def track_hist_merge_def option.case records_put recs by (simp_all add: hist_fresh_def hist_merge_rec_def)
  have key: "hist_key (ts_records demo_one ! 0) = [1, 0, 1, 7, 0, 1, 8]" unfolding recs by (simp add: hist_fresh_def)
  have "hist_run demo_session [([1, 0, 1, 7, 0, 1, 8], 5, 1)] (track_hist_release (Some 0) (track_hist_merge (Some 0) 5 1 demo_one))"
    using run_step [OF run_step [OF run_step [OF run_start step_reserve [OF v, of demo_session], folded demo_one_def] step_merge [OF live(1), unfolded key]]
        step_release [OF live(2)]] by simp
  from track_hist_keeps_largest [OF create this] show ?thesis by (simp add: largest_of_def)
qed

end
