(* ===== verification/Malformed.thy ===== *)
theory Malformed
  imports Heap
begin

text \<open>
  Malformed Track detection (\<open>core/src/session/session_malformed.c\<close>): the bounded record of what a
  received Track has said, the checks of an object and of a subgroup's end against it, and the list of
  records a session keeps, one per Track. Which Track an alias names and whether a fetch is alive are
  decided by the request tables of the session; they are fields of the model's session.
\<close>

section \<open>Verdicts\<close>

datatype moq_malformed = MOQ_MALFORMED_NONE | MOQ_MALFORMED_PROPS_UNPARSEABLE | MOQ_MALFORMED_NESTED_IMMUTABLE
  | MOQ_MALFORMED_DUPLICATE_IMMUTABLE | MOQ_MALFORMED_MANDATORY_PROPERTY | MOQ_MALFORMED_DUPLICATE_GAP
  | MOQ_MALFORMED_PRIORITY | MOQ_MALFORMED_PAST_SUBGROUP_END | MOQ_MALFORMED_SUBGROUP_END
  | MOQ_MALFORMED_PAST_GROUP_END | MOQ_MALFORMED_PAST_TRACK_END | MOQ_MALFORMED_GROUP_END
  | MOQ_MALFORMED_TRACK_END | MOQ_MALFORMED_ORDER | MOQ_MALFORMED_GAP | MOQ_MALFORMED_TRACK_FAILED

section \<open>Data\<close>

abbreviation MT_GROUPS :: nat where "MT_GROUPS \<equiv> 8"
abbreviation MT_SUBGROUPS :: nat where "MT_SUBGROUPS \<equiv> 16"

record mt_group =
  mg_used :: bool
  mg_has_final :: bool
  mg_has_seen :: bool
  mg_has_group_gap :: bool
  mg_has_object_gap :: bool
  mg_stamp :: u32
  mg_group_id :: u64
  mg_final_object :: u64
  mg_min_seen :: u64
  mg_max_seen :: u64
  mg_group_gap :: u64
  mg_object_gap_lo :: u64
  mg_object_gap_hi :: u64

record mt_subgroup =
  msg_used :: bool
  msg_has_final :: bool
  msg_inherited :: bool
  msg_priority :: u8
  msg_stamp :: u32
  msg_group_id :: u64
  msg_subgroup_id :: u64
  msg_final_object :: u64

datatype mt_kind = MT_KIND_ALIAS | MT_KIND_FETCH

text \<open>\<open>mt_track_key\<close> is the key stored behind the record; the list link is the order of the list.\<close>

record moq_mt_track =
  mt_kind_of :: mt_kind
  mt_key :: u64
  mt_track_key :: "u8 list"
  mt_has_track_end :: bool
  mt_end_group :: u64
  mt_end_object :: u64
  mt_clock :: u32
  mt_groups :: "mt_group list"
  mt_subgroups :: "mt_subgroup list"

record moq_obj_gaps =
  og_has_group_gap :: bool
  og_has_object_gap :: bool
  og_group_gap :: u64
  og_object_gap :: u64

abbreviation MOQ_OBJECT_NORMAL :: u8 where "MOQ_OBJECT_NORMAL \<equiv> 0"
abbreviation MOQ_OBJECT_END_OF_GROUP :: u8 where "MOQ_OBJECT_END_OF_GROUP \<equiv> 1"
abbreviation MOQ_OBJECT_END_OF_TRACK :: u8 where "MOQ_OBJECT_END_OF_TRACK \<equiv> 2"

record moq_mt_object =
  mo_group_id :: u64
  mo_object_id :: u64
  mo_in_subgroup :: bool
  mo_end_of_group :: bool
  mo_priority :: u8
  mo_priority_inherited :: bool
  mo_subgroup_id :: u64
  mo_status :: u8
  mo_gaps :: "moq_obj_gaps option"

definition mt_group_zero :: mt_group where
  "mt_group_zero = \<lparr>mg_used = False, mg_has_final = False, mg_has_seen = False, mg_has_group_gap = False,
     mg_has_object_gap = False, mg_stamp = 0, mg_group_id = 0, mg_final_object = 0, mg_min_seen = 0,
     mg_max_seen = 0, mg_group_gap = 0, mg_object_gap_lo = 0, mg_object_gap_hi = 0\<rparr>"

definition mt_subgroup_zero :: mt_subgroup where
  "mt_subgroup_zero = \<lparr>msg_used = False, msg_has_final = False, msg_inherited = False, msg_priority = 0,
     msg_stamp = 0, msg_group_id = 0, msg_subgroup_id = 0, msg_final_object = 0\<rparr>"

definition mt_track_zero :: moq_mt_track where
  "mt_track_zero = \<lparr>mt_kind_of = MT_KIND_ALIAS, mt_key = 0, mt_track_key = [], mt_has_track_end = False,
     mt_end_group = 0, mt_end_object = 0, mt_clock = 0, mt_groups = replicate MT_GROUPS mt_group_zero,
     mt_subgroups = replicate MT_SUBGROUPS mt_subgroup_zero\<rparr>"

section \<open>Lookup\<close>

definition mt_group_find :: "moq_mt_track \<Rightarrow> u64 \<Rightarrow> nat option" where
  "mt_group_find t group_id = first_index (\<lambda>g. mg_used g \<and> mg_group_id g = group_id) (mt_groups t)"

definition mt_subgroup_find :: "moq_mt_track \<Rightarrow> u64 \<Rightarrow> u64 \<Rightarrow> nat option" where
  "mt_subgroup_find t group_id subgroup_id =
     first_index (\<lambda>g. msg_used g \<and> msg_group_id g = group_id \<and> msg_subgroup_id g = subgroup_id) (mt_subgroups t)"

text \<open>The replacement loop: the first unused slot, otherwise the one with the smallest stamp.\<close>

fun take_slot :: "('a \<Rightarrow> bool) \<Rightarrow> ('a \<Rightarrow> u32) \<Rightarrow> nat \<Rightarrow> u32 \<Rightarrow> nat \<Rightarrow> 'a list \<Rightarrow> nat" where
  "take_slot used stamp best best_stamp i [] = best"
| "take_slot used stamp best best_stamp i (x # xs) =
     (if \<not> used x then i
      else if stamp x < best_stamp then take_slot used stamp i (stamp x) (Suc i) xs
      else take_slot used stamp best best_stamp (Suc i) xs)"

text \<open>\<open>g->stamp = ++t->clock\<close> on the slot with index \<open>i\<close>, which is filled with \<open>g\<close>.\<close>

definition stamp_group :: "nat \<Rightarrow> mt_group \<Rightarrow> moq_mt_track \<Rightarrow> moq_mt_track" where
  "stamp_group i g t =
     t\<lparr>mt_clock := mt_clock t + 1, mt_groups := (mt_groups t)[i := g\<lparr>mg_stamp := mt_clock t + 1\<rparr>]\<rparr>"

definition mt_group_take :: "moq_mt_track \<Rightarrow> u64 \<Rightarrow> nat \<times> moq_mt_track" where
  "mt_group_take t group_id =
     (case mt_group_find t group_id of
        Some i \<Rightarrow> (i, stamp_group i (mt_groups t ! i) t)
      | None \<Rightarrow>
          let i = take_slot mg_used mg_stamp 0 (mg_stamp (mt_groups t ! 0)) 0 (mt_groups t) in
          (i, stamp_group i (mt_group_zero\<lparr>mg_used := True, mg_group_id := group_id\<rparr>) t))"

definition stamp_subgroup :: "nat \<Rightarrow> mt_subgroup \<Rightarrow> moq_mt_track \<Rightarrow> moq_mt_track" where
  "stamp_subgroup i g t =
     t\<lparr>mt_clock := mt_clock t + 1, mt_subgroups := (mt_subgroups t)[i := g\<lparr>msg_stamp := mt_clock t + 1\<rparr>]\<rparr>"

definition mt_subgroup_take ::
  "moq_mt_track \<Rightarrow> u64 \<Rightarrow> u64 \<Rightarrow> u8 \<Rightarrow> bool \<Rightarrow> nat \<times> moq_mt_track" where
  "mt_subgroup_take t group_id subgroup_id priority inherited =
     (case mt_subgroup_find t group_id subgroup_id of
        Some i \<Rightarrow> (i, stamp_subgroup i (mt_subgroups t ! i) t)
      | None \<Rightarrow>
          let i = take_slot msg_used msg_stamp 0 (msg_stamp (mt_subgroups t ! 0)) 0 (mt_subgroups t) in
          (i, stamp_subgroup i (mt_subgroup_zero\<lparr>msg_used := True, msg_group_id := group_id,
                msg_subgroup_id := subgroup_id, msg_priority := priority, msg_inherited := inherited\<rparr>) t))"

definition loc_after :: "u64 \<Rightarrow> u64 \<Rightarrow> u64 \<Rightarrow> u64 \<Rightarrow> bool" where
  "loc_after g ob eg eo \<longleftrightarrow> eg < g \<or> (g = eg \<and> eo < ob)"

section \<open>Checks\<close>

text \<open>A test of the object behind a pointer that may be null: \<open>p && ...\<close>.\<close>

primrec opt_ex :: "'a option \<Rightarrow> ('a \<Rightarrow> bool) \<Rightarrow> bool" where
  "opt_ex None P = False"
| "opt_ex (Some x) P = P x"

definition gap_covers_group :: "u64 \<Rightarrow> mt_group \<Rightarrow> bool" where
  "gap_covers_group group_id r \<longleftrightarrow> mg_used r \<and> mg_has_group_gap r \<and> mg_group_gap r \<noteq> 0
     \<and> group_id < mg_group_id r \<and> mg_group_id r - mg_group_gap r \<le> group_id"

definition mt_check_gaps :: "moq_mt_track \<Rightarrow> moq_mt_object \<Rightarrow> mt_group option \<Rightarrow> moq_malformed" where
  "mt_check_gaps t ob g =
     (if list_ex (gap_covers_group (mo_group_id ob)) (mt_groups t) then MOQ_MALFORMED_GAP
      else if opt_ex g (\<lambda>r. mg_has_object_gap r \<and> mg_object_gap_lo r \<le> mo_object_id ob
               \<and> mo_object_id ob \<le> mg_object_gap_hi r) then MOQ_MALFORMED_GAP
      else case mo_gaps ob of None \<Rightarrow> MOQ_MALFORMED_NONE
      | Some gaps \<Rightarrow>
          if og_has_group_gap gaps \<and>
             (mo_group_id ob < og_group_gap gaps
              \<or> opt_ex g (\<lambda>r. mg_has_group_gap r \<and> mg_group_gap r \<noteq> og_group_gap gaps)
              \<or> (0 < og_group_gap gaps
                 \<and> list_ex (\<lambda>r. mg_used r \<and> mg_has_seen r \<and> mg_group_id r < mo_group_id ob
                              \<and> mo_group_id ob - og_group_gap gaps \<le> mg_group_id r) (mt_groups t)))
          then MOQ_MALFORMED_GAP
          else if og_has_object_gap gaps \<and>
             (mo_object_id ob < og_object_gap gaps
              \<or> (0 < og_object_gap gaps
                 \<and> opt_ex g (\<lambda>r. mg_has_seen r
                      \<and> (let lo = mo_object_id ob - og_object_gap gaps; hi = mo_object_id ob - 1 in
                         (lo \<le> mg_min_seen r \<and> mg_min_seen r \<le> hi) \<or> (lo \<le> mg_max_seen r \<and> mg_max_seen r \<le> hi)))))
          then MOQ_MALFORMED_GAP
          else MOQ_MALFORMED_NONE)"

definition mo_eog :: "moq_mt_object \<Rightarrow> bool" where
  "mo_eog ob \<longleftrightarrow> mo_end_of_group ob \<or> mo_status ob = MOQ_OBJECT_END_OF_GROUP"

definition mo_eot :: "moq_mt_object \<Rightarrow> bool" where
  "mo_eot ob \<longleftrightarrow> mo_status ob = MOQ_OBJECT_END_OF_TRACK"

text \<open>The loop over the groups for an End of Track.\<close>

definition past_track_end :: "moq_mt_object \<Rightarrow> mt_group \<Rightarrow> bool" where
  "past_track_end ob r \<longleftrightarrow>
     (mg_used r \<and> mg_has_seen r \<and> mo_group_id ob < mg_group_id r)
     \<or> (mg_used r \<and> mg_has_final r \<and> mg_group_id r = mo_group_id ob \<and> mo_object_id ob < mg_final_object r)"

text \<open>The verdict on an object, before anything is recorded (a Track without a record is not checked); \<open>g\<close> and \<open>sg\<close> are the group and the
  subgroup found for it.\<close>

definition mt_verdict ::
  "moq_mt_track \<Rightarrow> moq_mt_object \<Rightarrow> mt_group option \<Rightarrow> mt_subgroup option \<Rightarrow> moq_malformed" where
  "mt_verdict t ob g sg =
     (let eog = mo_eog ob; eot = mo_eot ob in
      if mt_has_track_end t \<and> eot \<and> (mo_group_id ob \<noteq> mt_end_group t \<or> mo_object_id ob \<noteq> mt_end_object t)
      then MOQ_MALFORMED_TRACK_END
      else if mt_has_track_end t
              \<and> loc_after (mo_group_id ob) (mo_object_id ob) (mt_end_group t) (mt_end_object t)
      then MOQ_MALFORMED_PAST_TRACK_END
      else if opt_ex g (\<lambda>r. mg_has_final r \<and> eog \<and> mo_object_id ob \<noteq> mg_final_object r)
      then MOQ_MALFORMED_GROUP_END
      else if opt_ex g (\<lambda>r. mg_has_final r \<and> mg_final_object r < mo_object_id ob)
      then MOQ_MALFORMED_PAST_GROUP_END
      else if (eog \<or> eot) \<and> opt_ex g (\<lambda>r. mg_has_seen r \<and> mo_object_id ob < mg_max_seen r)
      then (if eog then MOQ_MALFORMED_GROUP_END else MOQ_MALFORMED_TRACK_END)
      else if eot \<and> list_ex (past_track_end ob) (mt_groups t) then MOQ_MALFORMED_TRACK_END
      else if mo_in_subgroup ob \<and> opt_ex sg (\<lambda>r. \<not> (msg_inherited r \<and> mo_priority_inherited ob)
                                     \<and> msg_priority r \<noteq> mo_priority ob)
      then MOQ_MALFORMED_PRIORITY
      else if mo_in_subgroup ob \<and> opt_ex sg (\<lambda>r. msg_has_final r \<and> msg_final_object r < mo_object_id ob)
      then MOQ_MALFORMED_PAST_SUBGROUP_END
      else mt_check_gaps t ob g)"

text \<open>What a consistent object changes in the record of its group.\<close>

definition record_group :: "moq_mt_object \<Rightarrow> mt_group \<Rightarrow> mt_group" where
  "record_group ob g =
     (let n = mo_object_id ob;
          g = (if \<not> mg_has_seen g then g\<lparr>mg_has_seen := True, mg_min_seen := n, mg_max_seen := n\<rparr>
               else g\<lparr>mg_min_seen := (if n < mg_min_seen g then n else mg_min_seen g),
                      mg_max_seen := (if mg_max_seen g < n then n else mg_max_seen g)\<rparr>);
          g = (if mo_eog ob \<or> mo_eot ob then g\<lparr>mg_has_final := True, mg_final_object := n\<rparr> else g) in
      case mo_gaps ob of None \<Rightarrow> g
      | Some gaps \<Rightarrow>
          let g = (if og_has_group_gap gaps
                   then g\<lparr>mg_has_group_gap := True, mg_group_gap := og_group_gap gaps\<rparr> else g) in
          if og_has_object_gap gaps \<and> 0 < og_object_gap gaps
          then g\<lparr>mg_has_object_gap := True, mg_object_gap_lo := n - og_object_gap gaps, mg_object_gap_hi := n - 1\<rparr>
          else g)"

definition mt_record :: "moq_mt_track \<Rightarrow> moq_mt_object \<Rightarrow> moq_mt_track" where
  "mt_record t ob =
     (case mt_group_take t (mo_group_id ob) of
        (i, t) \<Rightarrow>
          let t = t\<lparr>mt_groups := (mt_groups t)[i := record_group ob (mt_groups t ! i)]\<rparr>;
              t = (if mo_eot ob then t\<lparr>mt_has_track_end := True, mt_end_group := mo_group_id ob,
                     mt_end_object := mo_object_id ob\<rparr> else t) in
          if mo_in_subgroup ob then
            (case mt_subgroup_take t (mo_group_id ob) (mo_subgroup_id ob) (mo_priority ob)
                    (mo_priority_inherited ob) of
               (j, t) \<Rightarrow> t\<lparr>mt_subgroups := (mt_subgroups t)[j := (mt_subgroups t ! j)
                             \<lparr>msg_priority := mo_priority ob, msg_inherited := mo_priority_inherited ob\<rparr>]\<rparr>)
          else t)"

definition mt_object :: "moq_mt_track \<Rightarrow> moq_mt_object \<Rightarrow> moq_malformed \<times> moq_mt_track" where
  "mt_object t ob =
     (let g = map_option ((!) (mt_groups t)) (mt_group_find t (mo_group_id ob));
          sg = map_option ((!) (mt_subgroups t)) (mt_subgroup_find t (mo_group_id ob) (mo_subgroup_id ob));
          why = mt_verdict t ob g sg in
      if why \<noteq> MOQ_MALFORMED_NONE then (why, t) else (MOQ_MALFORMED_NONE, mt_record t ob))"

definition mt_subgroup_fin ::
  "moq_mt_track \<Rightarrow> u64 \<Rightarrow> u64 \<Rightarrow> bool \<Rightarrow> u64 \<Rightarrow> bool \<Rightarrow> moq_malformed \<times> moq_mt_track" where
  "mt_subgroup_fin t group_id subgroup_id has_last final_id end_of_group =
     (if \<not> has_last then (MOQ_MALFORMED_NONE, t)
      else
        let sg = mt_subgroup_find t group_id subgroup_id;
            g = map_option ((!) (mt_groups t)) (mt_group_find t group_id) in
        if opt_ex sg (\<lambda>j. msg_has_final (mt_subgroups t ! j) \<and> msg_final_object (mt_subgroups t ! j) \<noteq> final_id)
        then (MOQ_MALFORMED_SUBGROUP_END, t)
        else if end_of_group \<and> opt_ex g (\<lambda>r. mg_has_final r \<and> mg_final_object r \<noteq> final_id)
        then (MOQ_MALFORMED_GROUP_END, t)
        else if end_of_group \<and> opt_ex g (\<lambda>r. mg_has_seen r \<and> final_id < mg_max_seen r)
        then (MOQ_MALFORMED_GROUP_END, t)
        else if end_of_group \<and> mt_has_track_end t \<and> mt_end_group t = group_id \<and> mt_end_object t \<noteq> final_id
        then (MOQ_MALFORMED_GROUP_END, t)
        else
          let t = (case sg of None \<Rightarrow> t
                   | Some j \<Rightarrow> t\<lparr>mt_subgroups := (mt_subgroups t)[j := (mt_subgroups t ! j)
                       \<lparr>msg_has_final := True, msg_final_object := final_id\<rparr>]\<rparr>) in
          if end_of_group then
            (case mt_group_take t group_id of
               (i, t) \<Rightarrow> (MOQ_MALFORMED_NONE, t\<lparr>mt_groups := (mt_groups t)[i := (mt_groups t ! i)
                            \<lparr>mg_has_final := True, mg_final_object := final_id\<rparr>]\<rparr>))
          else (MOQ_MALFORMED_NONE, t))"

section \<open>The records of a session\<close>

text \<open>\<open>ms_tracks\<close> is the list from \<open>mt_head\<close> on, \<open>ms_cap\<close> is \<open>sub_cap + pub_cap + fetch_cap\<close>, and
  \<open>ms_local\<close> the profile's \<open>malformed_track_local\<close>. \<open>ms_alias_key\<close> is the canonical key of the Track
  that the peer delivers on an alias, \<open>None\<close> when no request with a key holds it; \<open>ms_fetch_live\<close> says
  whether a fetch handle resolves.\<close>

record mt_session =
  ms_tracks :: "moq_mt_track list"
  ms_count :: nat
  ms_cap :: nat
  ms_heap :: moq_heap
  ms_local :: bool
  ms_alias_key :: "u64 \<Rightarrow> u8 list option"
  ms_fetch_live :: "u64 \<Rightarrow> bool"

text \<open>A record has 1152 bytes on an LP64 target.\<close>

abbreviation MT_TRACK_SIZEOF :: nat where "MT_TRACK_SIZEOF \<equiv> 1152"

definition key_eq :: "u8 list \<Rightarrow> u8 list \<Rightarrow> bool" where
  "key_eq a b \<longleftrightarrow> length a = length b \<and> 0 < length a \<and> a = b"

definition mt_alive :: "mt_session \<Rightarrow> moq_mt_track \<Rightarrow> bool" where
  "mt_alive s t =
     (if mt_kind_of t = MT_KIND_FETCH then ms_fetch_live s (mt_key t)
      else case ms_alias_key s (mt_key t) of None \<Rightarrow> False | Some k \<Rightarrow> key_eq k (mt_track_key t))"

definition mt_free :: "moq_mt_track \<Rightarrow> mt_session \<Rightarrow> mt_session" where
  "mt_free t s = s\<lparr>ms_heap := heap_free (MT_TRACK_SIZEOF + length (mt_track_key t)) (ms_heap s),
                  ms_count := ms_count s - 1\<rparr>"

text \<open>The walk of the list with its link pointer: the records kept so far and those still to visit.\<close>

fun mt_collect_loop :: "moq_mt_track list \<Rightarrow> moq_mt_track list \<Rightarrow> mt_session \<Rightarrow> mt_session" where
  "mt_collect_loop kept [] s = s\<lparr>ms_tracks := kept\<rparr>"
| "mt_collect_loop kept (t # ts) s =
     (if \<not> mt_alive s t then mt_collect_loop kept ts (mt_free t s)
      else mt_collect_loop (kept @ [t]) ts s)"

definition mt_collect :: "mt_session \<Rightarrow> mt_session" where
  "mt_collect s = mt_collect_loop [] (ms_tracks s) s"

text \<open>The result code and the position in the list of the record that is returned, \<open>None\<close> for NULL.\<close>

definition mt_new :: "mt_session \<Rightarrow> mt_kind \<Rightarrow> u64 \<Rightarrow> u8 list \<Rightarrow> moq_result \<times> nat option \<times> mt_session" where
  "mt_new s kind key track_key =
     (let s = (if ms_cap s \<le> ms_count s then mt_collect s else s) in
      if ms_cap s \<le> ms_count s then (MOQ_OK, None, s)
      else case heap_alloc (MT_TRACK_SIZEOF + length track_key) (ms_heap s) of
        (False, h) \<Rightarrow> (MOQ_ERR_NOMEM, None, s\<lparr>ms_heap := h\<rparr>)
      | (True, h) \<Rightarrow>
          (MOQ_OK, Some 0,
           s\<lparr>ms_heap := h, ms_count := ms_count s + 1,
             ms_tracks := mt_track_zero\<lparr>mt_kind_of := kind, mt_key := key, mt_track_key := track_key\<rparr> # ms_tracks s\<rparr>))"

definition mt_track_for_alias :: "mt_session \<Rightarrow> u64 \<Rightarrow> moq_result \<times> nat option \<times> mt_session" where
  "mt_track_for_alias s alias =
     (if \<not> ms_local s then (MOQ_OK, None, s)
      else case ms_alias_key s alias of None \<Rightarrow> (MOQ_OK, None, s)
      | Some k \<Rightarrow>
          (case first_index (\<lambda>t. mt_kind_of t = MT_KIND_ALIAS \<and> mt_key t = alias) (ms_tracks s) of
             None \<Rightarrow> mt_new s MT_KIND_ALIAS alias k
           | Some i \<Rightarrow>
               let t = ms_tracks s ! i in
               if key_eq k (mt_track_key t) then (MOQ_OK, Some i, s)
               else mt_new (mt_free t (s\<lparr>ms_tracks := take i (ms_tracks s) @ drop (Suc i) (ms_tracks s)\<rparr>))
                      MT_KIND_ALIAS alias k))"

definition mt_track_for_fetch :: "mt_session \<Rightarrow> u64 \<Rightarrow> moq_result \<times> nat option \<times> mt_session" where
  "mt_track_for_fetch s fetch =
     (if \<not> ms_local s then (MOQ_OK, None, s)
      else if \<not> ms_fetch_live s fetch then (MOQ_OK, None, s)
      else case first_index (\<lambda>t. mt_kind_of t = MT_KIND_FETCH \<and> mt_key t = fetch) (ms_tracks s) of
        Some i \<Rightarrow> (MOQ_OK, Some i, s)
      | None \<Rightarrow> mt_new s MT_KIND_FETCH fetch [])"

fun mt_destroy_loop :: "moq_mt_track list \<Rightarrow> mt_session \<Rightarrow> mt_session" where
  "mt_destroy_loop [] s = s\<lparr>ms_tracks := []\<rparr>"
| "mt_destroy_loop (t # ts) s = mt_destroy_loop ts (mt_free t (s\<lparr>ms_tracks := ts\<rparr>))"

definition mt_destroy_all :: "mt_session \<Rightarrow> mt_session" where
  "mt_destroy_all s = mt_destroy_loop (ms_tracks s) s"

section \<open>Slots\<close>

lemma take_slot_less:
  "best < n \<Longrightarrow> i + length xs = n \<Longrightarrow> take_slot used stamp best best_stamp i xs < n"
  by (induction used stamp best best_stamp i xs rule: take_slot.induct) auto

lemma take_slot_free:
  assumes "x \<in> set xs" and "\<not> used x"
  shows "\<exists>k < length xs. take_slot used stamp best best_stamp i xs = i + k \<and> \<not> used (xs ! k)"
  using assms
proof (induction used stamp best best_stamp i xs rule: take_slot.induct)
  case (2 used stamp best best_stamp i y ys)
  show ?case
  proof (cases "used y")
    case True
    have "\<exists>k < length ys. take_slot used stamp best best_stamp i (y # ys) = Suc i + k \<and> \<not> used (ys ! k)"
      using 2 True by auto
    then show ?thesis by (metis Suc_less_eq add_Suc add_Suc_right length_Cons nth_Cons_Suc)
  next
    case False
    then show ?thesis by (intro exI [of _ 0]) simp
  qed
qed simp

text \<open>A table of slots as a map, and a slot taken for a key: every other key keeps its record or is
  replaced, and no key is replaced while a slot is free.\<close>

definition slot_taken :: "('a \<Rightarrow> bool) \<Rightarrow> ('a \<Rightarrow> 'k) \<Rightarrow> 'a list \<Rightarrow> 'a list \<Rightarrow> 'k \<Rightarrow> 'a \<Rightarrow> bool" where
  "slot_taken P key xs ys k y \<longleftrightarrow> length ys = length xs \<and> key_unique P key ys
     \<and> keyed P key ys k = Some y
     \<and> (\<forall>x. x \<noteq> k \<longrightarrow> keyed P key ys x = keyed P key xs x \<or> keyed P key ys x = None)
     \<and> (keyed P key xs k \<noteq> None \<or> (\<exists>x \<in> set xs. \<not> P x) \<longrightarrow>
          (\<forall>x. x \<noteq> k \<longrightarrow> keyed P key ys x = keyed P key xs x))"

lemma slot_taken_update:
  assumes "key_unique P key xs" and "i < length xs" and "P (xs ! i)" and "P y" and "key y = key (xs ! i)"
  shows "slot_taken P key xs (xs[i := y]) (key y) y"
proof -
  have u: "key_unique P key (xs[i := y])" by (rule key_unique_same [OF assms(1-3,5)])
  have "keyed P key (xs[i := y]) = (keyed P key xs)(key y \<mapsto> y)"
    by (rule keyed_update [OF assms(1) u assms(2,4)]) (use assms(5) in simp)
  with u show ?thesis by (simp add: slot_taken_def)
qed

lemma slot_taken_fresh:
  assumes "key_unique P key xs" and "keyed P key xs (key y) = None" and "P y"
    and "i < length xs" and "(\<exists>x \<in> set xs. \<not> P x) \<longrightarrow> \<not> P (xs ! i)"
  shows "slot_taken P key xs (xs[i := y]) (key y) y"
proof -
  have u: "key_unique P key (xs[i := y])" by (rule key_unique_fresh [OF assms(1,4,2)])
  have here: "keyed P key (xs[i := y]) (key y) = Some y"
    unfolding keyed_Some_iff [OF u] using assms(3,4) by (intro exI [of _ i]) simp
  have other: "keyed P key (xs[i := y]) x = keyed P key xs x \<or> (P (xs ! i) \<and> keyed P key (xs[i := y]) x = None)"
    if "x \<noteq> key y" for x
  proof (cases "P (xs ! i) \<and> key (xs ! i) = x")
    case True
    have "keyed P key (xs[i := y]) x = None"
      unfolding keyed_None_iff
    proof (intro ballI impI)
      fix z assume z: "z \<in> set (xs[i := y])" "P z"
      then obtain j where j: "j < length xs" "z = xs[i := y] ! j" by (auto simp: in_set_conv_nth)
      show "key z \<noteq> x"
        using j z that True key_uniqueD [OF assms(1), of i j] assms(4) by (cases "j = i") auto
    qed
    with True show ?thesis by blast
  next
    case False
    have "keyed P key (xs[i := y]) x = Some z \<longleftrightarrow> keyed P key xs x = Some z" for z
      unfolding keyed_Some_iff [OF u] keyed_Some_iff [OF assms(1)] length_list_update
      using False that assms(4) by (auto simp: nth_list_update split: if_splits)
    then have "keyed P key (xs[i := y]) x = keyed P key xs x" by (rule option_ext)
    then show ?thesis by blast
  qed
  have others: "keyed P key (xs[i := y]) x = keyed P key xs x \<or> keyed P key (xs[i := y]) x = None"
    if "x \<noteq> key y" for x
    using other [OF that] by (elim disjE conjE) simp_all
  have kept: "keyed P key (xs[i := y]) x = keyed P key xs x" if "\<exists>x \<in> set xs. \<not> P x" "x \<noteq> key y" for x
    using other [OF that(2)] assms(5) that(1) by (elim disjE conjE) simp_all
  show ?thesis
    unfolding slot_taken_def using u here others kept assms(2) by simp
qed

section \<open>The tables as maps\<close>

abbreviation sub_id :: "mt_subgroup \<Rightarrow> u64 \<times> u64" where
  "sub_id g \<equiv> (msg_group_id g, msg_subgroup_id g)"

definition gmap :: "moq_mt_track \<Rightarrow> u64 \<rightharpoonup> mt_group" where
  "gmap t = keyed mg_used mg_group_id (mt_groups t)"

definition smap :: "moq_mt_track \<Rightarrow> u64 \<times> u64 \<rightharpoonup> mt_subgroup" where
  "smap t = keyed msg_used sub_id (mt_subgroups t)"

definition mt_ok :: "moq_mt_track \<Rightarrow> bool" where
  "mt_ok t \<longleftrightarrow> length (mt_groups t) = MT_GROUPS \<and> length (mt_subgroups t) = MT_SUBGROUPS
     \<and> key_unique mg_used mg_group_id (mt_groups t) \<and> key_unique msg_used sub_id (mt_subgroups t)"

lemma first_index_find: "map_option ((!) xs) (first_index Q xs) = find Q xs"
  by (induction xs) (auto simp: option.map_comp comp_def)

lemma group_found: "map_option ((!) (mt_groups t)) (mt_group_find t g) = gmap t g"
  by (simp add: mt_group_find_def gmap_def keyed_def first_index_find)

lemma subgroup_found: "map_option ((!) (mt_subgroups t)) (mt_subgroup_find t g sg) = smap t (g, sg)"
  by (simp add: mt_subgroup_find_def smap_def keyed_def first_index_find)

lemma group_list_ex:
  assumes "mt_ok t" and "\<And>r. P r \<Longrightarrow> mg_used r"
  shows "list_ex P (mt_groups t) \<longleftrightarrow> (\<exists>g r. gmap t g = Some r \<and> P r)"
proof
  assume "list_ex P (mt_groups t)"
  then obtain i where "i < length (mt_groups t)" "P (mt_groups t ! i)" by (auto simp: list_ex_iff in_set_conv_nth)
  then have "gmap t (mg_group_id (mt_groups t ! i)) = Some (mt_groups t ! i)"
    using assms keyed_Some_iff [of mg_used mg_group_id "mt_groups t"] by (auto simp: gmap_def mt_ok_def)
  with \<open>P (mt_groups t ! i)\<close> show "\<exists>g r. gmap t g = Some r \<and> P r" by blast
next
  assume "\<exists>g r. gmap t g = Some r \<and> P r"
  then show "list_ex P (mt_groups t)" by (auto simp: gmap_def list_ex_iff dest: keyed_SomeD)
qed

lemma gmap_id: "gmap t g = Some r \<Longrightarrow> mg_used r \<and> mg_group_id r = g"
  by (auto simp: gmap_def dest: keyed_SomeD)

lemma smap_id: "smap t x = Some r \<Longrightarrow> msg_used r \<and> sub_id r = x"
  by (auto simp: smap_def dest: keyed_SomeD)

section \<open>Taking a record\<close>

definition group_base :: "moq_mt_track \<Rightarrow> u64 \<Rightarrow> mt_group" where
  "group_base t g = (case gmap t g of Some r \<Rightarrow> r | None \<Rightarrow> mt_group_zero\<lparr>mg_used := True, mg_group_id := g\<rparr>)"

definition subgroup_base :: "moq_mt_track \<Rightarrow> u64 \<times> u64 \<Rightarrow> mt_subgroup" where
  "subgroup_base t x = (case smap t x of Some r \<Rightarrow> r
     | None \<Rightarrow> mt_subgroup_zero\<lparr>msg_used := True, msg_group_id := fst x, msg_subgroup_id := snd x\<rparr>)"

lemma group_base_id: "mg_used (group_base t g)" "mg_group_id (group_base t g) = g"
  using gmap_id [of t g] by (auto simp: group_base_def split: option.splits)

lemma subgroup_base_id: "msg_used (subgroup_base t x)" "sub_id (subgroup_base t x) = x"
  using smap_id [of t x] by (auto simp: subgroup_base_def split: option.splits)

text \<open>A slot chosen for a key can be filled with any record of that key.\<close>

lemma slot_choice:
  assumes "key_unique P key xs" and "xs \<noteq> []"
    and "i = (case first_index (\<lambda>x. P x \<and> key x = k) xs of Some i \<Rightarrow> i
              | None \<Rightarrow> take_slot P stamp 0 (stamp (xs ! 0)) 0 xs)"
    and "P y" and "key y = k"
  shows "i < length xs" "slot_taken P key xs (xs[i := y]) k y"
proof -
  have "i < length xs \<and> slot_taken P key xs (xs[i := y]) k y"
  proof (cases "first_index (\<lambda>x. P x \<and> key x = k) xs")
    case (Some j)
    then have j: "j < length xs" "P (xs ! j)" "key (xs ! j) = k" by (auto simp: first_index_Some_iff)
    moreover have "i = j" using assms(3) Some by simp
    ultimately show ?thesis using slot_taken_update [OF assms(1) j(1,2) assms(4)] assms(5) by simp
  next
    case None
    then have none: "keyed P key xs (key y) = None" by (auto simp: first_index_None_iff keyed_None_iff assms(5))
    have i: "i = take_slot P stamp 0 (stamp (xs ! 0)) 0 xs" using assms(3) None by simp
    have less: "i < length xs" unfolding i by (rule take_slot_less) (use assms(2) in simp_all)
    have "\<not> P (xs ! i)" if "\<exists>x \<in> set xs. \<not> P x"
      using take_slot_free [of _ xs P stamp 0 "stamp (xs ! 0)" 0] that unfolding i by force
    then show ?thesis using slot_taken_fresh [OF assms(1) none assms(4) less] less assms(5) by simp
  qed
  then show "i < length xs" "slot_taken P key xs (xs[i := y]) k y" by auto
qed

lemma group_take:
  assumes "mt_ok t" and "mt_group_take t g = (i, t')"
  shows "i < length (mt_groups t)" "mg_used y \<Longrightarrow> mg_group_id y = g \<Longrightarrow> slot_taken mg_used mg_group_id (mt_groups t) ((mt_groups t)[i := y]) g y"
    "t' = t\<lparr>mt_clock := mt_clock t + 1, mt_groups := (mt_groups t)[i := (group_base t g)\<lparr>mg_stamp := mt_clock t + 1\<rparr>]\<rparr>"
proof -
  have i: "i = (case first_index (\<lambda>x. mg_used x \<and> mg_group_id x = g) (mt_groups t) of Some i \<Rightarrow> i
      | None \<Rightarrow> take_slot mg_used mg_stamp 0 (mg_stamp (mt_groups t ! 0)) 0 (mt_groups t))"
    using assms(2) by (auto simp: mt_group_take_def mt_group_find_def Let_def split: option.splits)
  have t: "key_unique mg_used mg_group_id (mt_groups t)" "mt_groups t \<noteq> []" using assms(1) by (auto simp: mt_ok_def)
  show "i < length (mt_groups t)"
    by (rule slot_choice(1) [OF t i, of "mt_group_zero\<lparr>mg_used := True, mg_group_id := g\<rparr>"]) simp_all
  show "mg_used y \<Longrightarrow> mg_group_id y = g \<Longrightarrow> slot_taken mg_used mg_group_id (mt_groups t) ((mt_groups t)[i := y]) g y"
    by (rule slot_choice(2) [OF t i])
  show "t' = t\<lparr>mt_clock := mt_clock t + 1, mt_groups := (mt_groups t)[i := (group_base t g)\<lparr>mg_stamp := mt_clock t + 1\<rparr>]\<rparr>"
    using assms(2) group_found [of t g]
    by (auto simp: mt_group_take_def stamp_group_def group_base_def Let_def split: option.splits)
qed

lemma subgroup_take:
  assumes "mt_ok t" and "mt_subgroup_take t g sg p inh = (j, t')"
  shows "j < length (mt_subgroups t)"
    "msg_used y \<Longrightarrow> sub_id y = (g, sg) \<Longrightarrow> slot_taken msg_used sub_id (mt_subgroups t) ((mt_subgroups t)[j := y]) (g, sg) y"
    "\<exists>r. mt_subgroups t' = (mt_subgroups t)[j := r]
       \<and> r\<lparr>msg_priority := p, msg_inherited := inh\<rparr>
         = (subgroup_base t (g, sg))\<lparr>msg_stamp := mt_clock t + 1, msg_priority := p, msg_inherited := inh\<rparr>"
    "t'\<lparr>mt_subgroups := ys\<rparr> = t\<lparr>mt_clock := mt_clock t + 1, mt_subgroups := ys\<rparr>"
proof -
  have j: "j = (case first_index (\<lambda>x. msg_used x \<and> sub_id x = (g, sg)) (mt_subgroups t) of Some i \<Rightarrow> i
      | None \<Rightarrow> take_slot msg_used msg_stamp 0 (msg_stamp (mt_subgroups t ! 0)) 0 (mt_subgroups t))"
    using assms(2) by (auto simp: mt_subgroup_take_def mt_subgroup_find_def Let_def split: option.splits)
  have t: "key_unique msg_used sub_id (mt_subgroups t)" "mt_subgroups t \<noteq> []" using assms(1) by (auto simp: mt_ok_def)
  show "j < length (mt_subgroups t)"
    by (rule slot_choice(1) [OF t j, of "mt_subgroup_zero\<lparr>msg_used := True, msg_group_id := g, msg_subgroup_id := sg\<rparr>"]) simp_all
  show "msg_used y \<Longrightarrow> sub_id y = (g, sg) \<Longrightarrow> slot_taken msg_used sub_id (mt_subgroups t) ((mt_subgroups t)[j := y]) (g, sg) y"
    by (rule slot_choice(2) [OF t j])
  show "\<exists>r. mt_subgroups t' = (mt_subgroups t)[j := r]
       \<and> r\<lparr>msg_priority := p, msg_inherited := inh\<rparr>
         = (subgroup_base t (g, sg))\<lparr>msg_stamp := mt_clock t + 1, msg_priority := p, msg_inherited := inh\<rparr>"
    "t'\<lparr>mt_subgroups := ys\<rparr> = t\<lparr>mt_clock := mt_clock t + 1, mt_subgroups := ys\<rparr>"
    using assms(2) subgroup_found [of t g sg]
    by (auto simp: mt_subgroup_take_def stamp_subgroup_def subgroup_base_def Let_def split: option.splits)
qed

text \<open>The same on maps: a store of at most \<open>n\<close> keys in which \<open>k\<close> now holds \<open>y\<close>.\<close>

definition took :: "nat \<Rightarrow> ('k \<rightharpoonup> 'a) \<Rightarrow> ('k \<rightharpoonup> 'a) \<Rightarrow> 'k \<Rightarrow> 'a \<Rightarrow> bool" where
  "took n m m' k y \<longleftrightarrow> m' k = Some y
     \<and> (\<forall>x. x \<noteq> k \<longrightarrow> m' x = m x \<or> m' x = None)
     \<and> (m k \<noteq> None \<or> card (dom m) < n \<longrightarrow> (\<forall>x. x \<noteq> k \<longrightarrow> m' x = m x))"

lemma card_full:
  assumes "key_unique P key xs" and "\<forall>x \<in> set xs. P x"
  shows "card (dom (keyed P key xs)) = length xs"
proof -
  have "dom (keyed P key xs) = set (map key xs)"
  proof (rule set_eqI)
    fix k
    have "k \<in> dom (keyed P key xs) \<longleftrightarrow> \<not> (keyed P key xs k = None)" by (simp add: domIff)
    then show "k \<in> dom (keyed P key xs) \<longleftrightarrow> k \<in> set (map key xs)"
      using assms(2) by (auto simp: keyed_None_iff)
  qed
  moreover have "distinct (map key xs)"
    using key_uniqueD [OF assms(1)] assms(2) by (fastforce simp: distinct_conv_nth)
  ultimately show ?thesis using distinct_card by fastforce
qed

lemma slot_taken_took:
  assumes "key_unique P key xs" and "slot_taken P key xs ys k y"
  shows "took (length xs) (keyed P key xs) (keyed P key ys) k y"
  using assms(2) card_full [OF assms(1)] by (fastforce simp: slot_taken_def took_def)

lemma took_cases:
  assumes "took n m m' k y" and "m' x = Some r"
  obtains "x = k" "r = y" | "x \<noteq> k" "m x = Some r"
  using assms by (cases "x = k") (force simp: took_def)+

lemma took_kept:
  assumes "took n m m' k y" and "k \<in> dom m \<or> card (dom m) < n" and "m x = Some r" and "x \<noteq> k"
  shows "m' x = Some r"
  using assms by (auto simp: took_def)

lemma took_dom: "took n m m' k y \<Longrightarrow> dom m' \<subseteq> insert k (dom m)"
  by (force simp: took_def)

text \<open>What \<open>mt_record\<close> leaves in the record of the object's group and subgroup.\<close>

lemma record_group_id: "mg_used (record_group ob g) = mg_used g" "mg_group_id (record_group ob g) = mg_group_id g"
  by (auto simp: record_group_def Let_def split: option.splits)

definition recorded_sub :: "moq_mt_track \<Rightarrow> moq_mt_object \<Rightarrow> u32 \<Rightarrow> mt_subgroup" where
  "recorded_sub t ob c = (subgroup_base t (mo_group_id ob, mo_subgroup_id ob))
     \<lparr>msg_stamp := c, msg_priority := mo_priority ob, msg_inherited := mo_priority_inherited ob\<rparr>"

lemma group_written:
  assumes "mt_ok t" and "mt_group_take t g = (i, t1)"
    and "\<And>r. mg_used (f r) = mg_used r" and "\<And>r. mg_group_id (f r) = mg_group_id r"
  defines "t2 \<equiv> t1\<lparr>mt_groups := (mt_groups t1)[i := f (mt_groups t1 ! i)]\<rparr>"
  shows "mt_ok t2" "took MT_GROUPS (gmap t) (gmap t2) g (f ((group_base t g)\<lparr>mg_stamp := mt_clock t + 1\<rparr>))"
    "smap t2 = smap t" "mt_has_track_end t2 = mt_has_track_end t" "mt_end_group t2 = mt_end_group t"
    "mt_end_object t2 = mt_end_object t"
proof -
  let ?y = "f ((group_base t g)\<lparr>mg_stamp := mt_clock t + 1\<rparr>)"
  note take = group_take [OF assms(1,2)]
  have t2: "t2 = t\<lparr>mt_clock := mt_clock t + 1, mt_groups := (mt_groups t)[i := ?y]\<rparr>"
    using take(1) by (simp add: t2_def take(3))
  have slot: "slot_taken mg_used mg_group_id (mt_groups t) ((mt_groups t)[i := ?y]) g ?y"
    by (rule take(2)) (simp_all add: assms(3,4) group_base_id)
  show "mt_ok t2" using slot assms(1) by (simp add: t2 mt_ok_def slot_taken_def)
  show "took MT_GROUPS (gmap t) (gmap t2) g ?y"
    using slot_taken_took [OF _ slot] assms(1) by (simp add: t2 gmap_def mt_ok_def)
  show "smap t2 = smap t" "mt_has_track_end t2 = mt_has_track_end t" "mt_end_group t2 = mt_end_group t"
    "mt_end_object t2 = mt_end_object t" by (simp_all add: t2 smap_def)
qed

lemma sub_written:
  assumes "mt_ok t" and "mt_subgroup_take t g sg p inh = (j, t1)"
  defines "t2 \<equiv> t1\<lparr>mt_subgroups := (mt_subgroups t1)[j := (mt_subgroups t1 ! j)\<lparr>msg_priority := p, msg_inherited := inh\<rparr>]\<rparr>"
  shows "mt_ok t2" "took MT_SUBGROUPS (smap t) (smap t2) (g, sg)
      ((subgroup_base t (g, sg))\<lparr>msg_stamp := mt_clock t + 1, msg_priority := p, msg_inherited := inh\<rparr>)"
    "gmap t2 = gmap t" "mt_has_track_end t2 = mt_has_track_end t" "mt_end_group t2 = mt_end_group t"
    "mt_end_object t2 = mt_end_object t"
proof -
  let ?y = "(subgroup_base t (g, sg))\<lparr>msg_stamp := mt_clock t + 1, msg_priority := p, msg_inherited := inh\<rparr>"
  note take = subgroup_take [OF assms(1,2)]
  obtain r where r: "mt_subgroups t1 = (mt_subgroups t)[j := r]" "r\<lparr>msg_priority := p, msg_inherited := inh\<rparr> = ?y"
    using take(3) by blast
  have t2: "t2 = t\<lparr>mt_clock := mt_clock t + 1, mt_subgroups := (mt_subgroups t)[j := ?y]\<rparr>"
    using take(1) r by (simp add: t2_def take(4))
  have slot: "slot_taken msg_used sub_id (mt_subgroups t) ((mt_subgroups t)[j := ?y]) (g, sg) ?y"
    by (rule take(2)) (use subgroup_base_id [of t "(g, sg)"] in simp_all)
  show "mt_ok t2" using slot assms(1) by (simp add: t2 mt_ok_def slot_taken_def)
  show "took MT_SUBGROUPS (smap t) (smap t2) (g, sg) ?y"
    using slot_taken_took [OF _ slot] assms(1) by (simp add: t2 smap_def mt_ok_def)
  show "gmap t2 = gmap t" "mt_has_track_end t2 = mt_has_track_end t" "mt_end_group t2 = mt_end_group t"
    "mt_end_object t2 = mt_end_object t" by (simp_all add: t2 gmap_def)
qed

definition recorded_group :: "moq_mt_track \<Rightarrow> moq_mt_object \<Rightarrow> mt_group" where
  "recorded_group t ob = record_group ob ((group_base t (mo_group_id ob))\<lparr>mg_stamp := mt_clock t + 1\<rparr>)"

lemma record_maps:
  assumes "mt_ok t"
  shows "mt_ok (mt_record t ob)"
    "took MT_GROUPS (gmap t) (gmap (mt_record t ob)) (mo_group_id ob) (recorded_group t ob)"
    "mo_in_subgroup ob \<Longrightarrow> \<exists>c. took MT_SUBGROUPS (smap t) (smap (mt_record t ob)) (mo_group_id ob, mo_subgroup_id ob)
        (recorded_sub t ob c)"
    "\<not> mo_in_subgroup ob \<Longrightarrow> smap (mt_record t ob) = smap t"
    "mt_has_track_end (mt_record t ob) = (mo_eot ob \<or> mt_has_track_end t)"
    "mt_end_group (mt_record t ob) = (if mo_eot ob then mo_group_id ob else mt_end_group t)"
    "mt_end_object (mt_record t ob) = (if mo_eot ob then mo_object_id ob else mt_end_object t)"
proof -
  obtain i t1 where take: "mt_group_take t (mo_group_id ob) = (i, t1)" by fastforce
  define t2 where "t2 = t1\<lparr>mt_groups := (mt_groups t1)[i := record_group ob (mt_groups t1 ! i)]\<rparr>"
  define t3 where "t3 = (if mo_eot ob then t2\<lparr>mt_has_track_end := True, mt_end_group := mo_group_id ob,
                           mt_end_object := mo_object_id ob\<rparr> else t2)"
  note w = group_written [where f = "record_group ob", OF assms take record_group_id, folded t2_def recorded_group_def]
  have t3: "mt_ok t3" "gmap t3 = gmap t2" "smap t3 = smap t" "mt_has_track_end t3 = (mo_eot ob \<or> mt_has_track_end t)"
    "mt_end_group t3 = (if mo_eot ob then mo_group_id ob else mt_end_group t)"
    "mt_end_object t3 = (if mo_eot ob then mo_object_id ob else mt_end_object t)"
    using w by (simp_all add: t3_def mt_ok_def gmap_def smap_def)
  obtain j t4 where take2: "mt_subgroup_take t3 (mo_group_id ob) (mo_subgroup_id ob) (mo_priority ob) (mo_priority_inherited ob) = (j, t4)"
    by fastforce
  note v = sub_written [OF t3(1) take2]
  have base: "subgroup_base t3 x = subgroup_base t x" for x by (simp add: subgroup_base_def t3(3))
  have rec: "mt_record t ob = (if mo_in_subgroup ob then t4\<lparr>mt_subgroups := (mt_subgroups t4)[j := (mt_subgroups t4 ! j)
                 \<lparr>msg_priority := mo_priority ob, msg_inherited := mo_priority_inherited ob\<rparr>]\<rparr> else t3)"
    using take2 by (cases "mo_eot ob") (simp_all add: mt_record_def take t2_def t3_def Let_def)
  show "mt_ok (mt_record t ob)" using v(1) t3(1) by (simp add: rec)
  show "took MT_GROUPS (gmap t) (gmap (mt_record t ob)) (mo_group_id ob) (recorded_group t ob)"
    using v(3) t3(2) w(2) by (simp add: rec)
  show "\<exists>c. took MT_SUBGROUPS (smap t) (smap (mt_record t ob)) (mo_group_id ob, mo_subgroup_id ob) (recorded_sub t ob c)"
    if "mo_in_subgroup ob"
    using v(2) that by (auto simp: rec recorded_sub_def base t3(3))
  show "smap (mt_record t ob) = smap t" if "\<not> mo_in_subgroup ob" using that t3(3) by (simp add: rec)
  show "mt_has_track_end (mt_record t ob) = (mo_eot ob \<or> mt_has_track_end t)" using v(4) t3(4) by (simp add: rec)
  show "mt_end_group (mt_record t ob) = (if mo_eot ob then mo_group_id ob else mt_end_group t)"
    using v(5) t3(5) by (simp add: rec)
  show "mt_end_object (mt_record t ob) = (if mo_eot ob then mo_object_id ob else mt_end_object t)"
    using v(6) t3(6) by (simp add: rec)
qed

text \<open>\<open>mt_subgroup_fin\<close> over the maps: its verdict, and what it leaves when it finds nothing.\<close>

definition fin_verdict :: "moq_mt_track \<Rightarrow> u64 \<Rightarrow> u64 \<Rightarrow> u64 \<Rightarrow> bool \<Rightarrow> moq_malformed" where
  "fin_verdict t g sg n e =
     (if opt_ex (smap t (g, sg)) (\<lambda>r. msg_has_final r \<and> msg_final_object r \<noteq> n) then MOQ_MALFORMED_SUBGROUP_END
      else if e \<and> opt_ex (gmap t g) (\<lambda>r. mg_has_final r \<and> mg_final_object r \<noteq> n) then MOQ_MALFORMED_GROUP_END
      else if e \<and> opt_ex (gmap t g) (\<lambda>r. mg_has_seen r \<and> n < mg_max_seen r) then MOQ_MALFORMED_GROUP_END
      else if e \<and> mt_has_track_end t \<and> mt_end_group t = g \<and> mt_end_object t \<noteq> n then MOQ_MALFORMED_GROUP_END
      else MOQ_MALFORMED_NONE)"

definition sub_closed :: "moq_mt_track \<Rightarrow> u64 \<times> u64 \<Rightarrow> u64 \<Rightarrow> u64 \<times> u64 \<rightharpoonup> mt_subgroup" where
  "sub_closed t x n = (case smap t x of None \<Rightarrow> smap t
     | Some r \<Rightarrow> (smap t)(x \<mapsto> r\<lparr>msg_has_final := True, msg_final_object := n\<rparr>))"

definition closed_group :: "moq_mt_track \<Rightarrow> u64 \<Rightarrow> u64 \<Rightarrow> u32 \<Rightarrow> mt_group" where
  "closed_group t g n c = (group_base t g)\<lparr>mg_stamp := c, mg_has_final := True, mg_final_object := n\<rparr>"

lemma opt_ex_map: "opt_ex (map_option f x) P = opt_ex x (\<lambda>y. P (f y))"
  by (cases x) simp_all

lemma opt_ex_sub: "opt_ex (mt_subgroup_find t g sg) (\<lambda>j. P (mt_subgroups t ! j)) = opt_ex (smap t (g, sg)) P"
  by (simp add: opt_ex_map flip: subgroup_found)

lemma sub_close_maps:
  fixes n :: u64
  assumes "mt_ok t" and "mt_subgroup_find t g sg = Some j"
  defines "t1 \<equiv> t\<lparr>mt_subgroups := (mt_subgroups t)[j := (mt_subgroups t ! j)\<lparr>msg_has_final := True, msg_final_object := n\<rparr>]\<rparr>"
  shows "mt_ok t1" "smap t1 = sub_closed t (g, sg) n" "gmap t1 = gmap t"
proof -
  let ?xs = "mt_subgroups t" and ?y = "(mt_subgroups t ! j)\<lparr>msg_has_final := True, msg_final_object := n\<rparr>"
  have j: "j < length ?xs" "msg_used (?xs ! j)" "sub_id (?xs ! j) = (g, sg)"
    using assms(2) by (auto simp: mt_subgroup_find_def first_index_Some_iff)
  have u: "key_unique msg_used sub_id ?xs" using assms(1) by (simp add: mt_ok_def)
  have u': "key_unique msg_used sub_id (?xs[j := ?y])" by (rule key_unique_same [OF u j(1,2)]) simp
  have k: "keyed msg_used sub_id (?xs[j := ?y]) = (keyed msg_used sub_id ?xs)(sub_id ?y \<mapsto> ?y)"
    by (rule keyed_update [OF u u' j(1)]) (use j in simp_all)
  have found: "smap t (g, sg) = Some (?xs ! j)" using assms(2) by (simp flip: subgroup_found)
  show "mt_ok t1" using u' assms(1) by (simp add: t1_def mt_ok_def)
  show "smap t1 = sub_closed t (g, sg) n" using k j(3) found by (simp add: t1_def sub_closed_def smap_def)
  show "gmap t1 = gmap t" by (simp add: t1_def gmap_def)
qed

lemma fin_maps:
  assumes "mt_ok t"
  shows "fst (mt_subgroup_fin t g sg True n e) = fin_verdict t g sg n e"
    "fin_verdict t g sg n e \<noteq> MOQ_MALFORMED_NONE \<Longrightarrow> snd (mt_subgroup_fin t g sg True n e) = t"
    "fin_verdict t g sg n e = MOQ_MALFORMED_NONE \<Longrightarrow> mt_subgroup_fin t g sg True n e = (MOQ_MALFORMED_NONE, t') \<Longrightarrow>
       mt_ok t' \<and> smap t' = sub_closed t (g, sg) n
       \<and> (if e then \<exists>c. took MT_GROUPS (gmap t) (gmap t') g (closed_group t g n c) else gmap t' = gmap t)
       \<and> mt_has_track_end t' = mt_has_track_end t \<and> mt_end_group t' = mt_end_group t
       \<and> mt_end_object t' = mt_end_object t"
proof -
  define t1 where "t1 = (case mt_subgroup_find t g sg of None \<Rightarrow> t
      | Some j \<Rightarrow> t\<lparr>mt_subgroups := (mt_subgroups t)[j := (mt_subgroups t ! j)\<lparr>msg_has_final := True, msg_final_object := n\<rparr>]\<rparr>)"
  obtain i t2 where take: "mt_group_take t1 g = (i, t2)" by fastforce
  define f where "f = (\<lambda>r. r\<lparr>mg_has_final := True, mg_final_object := n\<rparr> :: mt_group)"
  have fin: "mt_subgroup_fin t g sg True n e =
     (if fin_verdict t g sg n e \<noteq> MOQ_MALFORMED_NONE then (fin_verdict t g sg n e, t)
      else (MOQ_MALFORMED_NONE, if e then t2\<lparr>mt_groups := (mt_groups t2)[i := f (mt_groups t2 ! i)]\<rparr> else t1))"
    using take
    by (simp add: mt_subgroup_fin_def fin_verdict_def Let_def group_found
        opt_ex_sub [where P = "\<lambda>r. msg_has_final r \<and> msg_final_object r \<noteq> n"] f_def flip: t1_def)
  show "fst (mt_subgroup_fin t g sg True n e) = fin_verdict t g sg n e"
    "fin_verdict t g sg n e \<noteq> MOQ_MALFORMED_NONE \<Longrightarrow> snd (mt_subgroup_fin t g sg True n e) = t" by (simp_all add: fin)
  have t1: "mt_ok t1 \<and> smap t1 = sub_closed t (g, sg) n \<and> gmap t1 = gmap t \<and> mt_has_track_end t1 = mt_has_track_end t
      \<and> mt_end_group t1 = mt_end_group t \<and> mt_end_object t1 = mt_end_object t"
  proof (cases "mt_subgroup_find t g sg")
    case None
    then have "smap t (g, sg) = None" by (simp flip: subgroup_found)
    then show ?thesis using assms None by (simp add: t1_def sub_closed_def)
  next
    case (Some j)
    then show ?thesis using sub_close_maps [OF assms Some, of n] by (simp add: t1_def)
  qed
  have base: "group_base t1 g = group_base t g" using t1 by (simp add: group_base_def)
  note w = group_written [of t1 g i t2 f, OF _ take]
  assume "fin_verdict t g sg n e = MOQ_MALFORMED_NONE" "mt_subgroup_fin t g sg True n e = (MOQ_MALFORMED_NONE, t')"
  then have t': "t' = (if e then t2\<lparr>mt_groups := (mt_groups t2)[i := f (mt_groups t2 ! i)]\<rparr> else t1)" by (simp add: fin)
  show "mt_ok t' \<and> smap t' = sub_closed t (g, sg) n
       \<and> (if e then \<exists>c. took MT_GROUPS (gmap t) (gmap t') g (closed_group t g n c) else gmap t' = gmap t)
       \<and> mt_has_track_end t' = mt_has_track_end t \<and> mt_end_group t' = mt_end_group t
       \<and> mt_end_object t' = mt_end_object t"
    using t1 w by (auto simp: t' f_def closed_group_def base)
qed

end
