(* ===== verification/MalformedLog.thy ===== *)
theory MalformedLog
  imports Malformed
begin

text \<open>
  What the Malformed Track checks mean (\<open>core/src/session/session_malformed.c\<close>): the log of the events
  a record has accepted, how an event contradicts a log, that every verdict names such a contradiction
  although the tables forget, and exactly which contradictions are reported while they have room.
\<close>

section \<open>What a Track has said\<close>

text \<open>The events a record hears: an object, and the end of a subgroup with the last object of its stream
  (absent when the stream carried none) and its END_OF_GROUP bit. A log holds the accepted events, the
  newest first.\<close>

datatype mt_event = Ev_Object moq_mt_object | Ev_Fin u64 u64 bool u64 bool

fun mt_hear :: "moq_mt_track \<Rightarrow> mt_event \<Rightarrow> moq_malformed \<times> moq_mt_track" where
  "mt_hear t (Ev_Object ob) = mt_object t ob"
| "mt_hear t (Ev_Fin g sg has_final final_id e) = mt_subgroup_fin t g sg has_final final_id e"

inductive mt_heard :: "moq_mt_track \<Rightarrow> mt_event list \<Rightarrow> moq_mt_track \<Rightarrow> bool" for t0 where
  mt_heard_start: "mt_heard t0 [] t0"
| mt_heard_event: "mt_heard t0 log t \<Longrightarrow> mt_hear t e = (MOQ_MALFORMED_NONE, t') \<Longrightarrow> mt_heard t0 (e # log) t'"

definition said_object :: "mt_event list \<Rightarrow> moq_mt_object \<Rightarrow> bool" where
  "said_object log ob \<longleftrightarrow> Ev_Object ob \<in> set log"

text \<open>The statements of a log about a group: an object of it, its final object, its Prior Group ID Gap, and
  an object with its Prior Object ID Gap.\<close>

definition said_seen :: "mt_event list \<Rightarrow> u64 \<Rightarrow> u64 \<Rightarrow> bool" where
  "said_seen log g n \<longleftrightarrow> (\<exists>ob. said_object log ob \<and> mo_group_id ob = g \<and> mo_object_id ob = n)"

definition said_group_end :: "mt_event list \<Rightarrow> u64 \<Rightarrow> u64 \<Rightarrow> bool" where
  "said_group_end log g n \<longleftrightarrow>
     (\<exists>ob. said_object log ob \<and> mo_group_id ob = g \<and> mo_object_id ob = n \<and> (mo_eog ob \<or> mo_eot ob))
     \<or> (\<exists>sg. Ev_Fin g sg True n True \<in> set log)"

definition said_group_gap :: "mt_event list \<Rightarrow> u64 \<Rightarrow> u64 \<Rightarrow> bool" where
  "said_group_gap log g k \<longleftrightarrow> (\<exists>ob gaps. said_object log ob \<and> mo_group_id ob = g
     \<and> mo_gaps ob = Some gaps \<and> og_has_group_gap gaps \<and> og_group_gap gaps = k)"

definition said_object_gap :: "mt_event list \<Rightarrow> u64 \<Rightarrow> u64 \<Rightarrow> u64 \<Rightarrow> bool" where
  "said_object_gap log g n k \<longleftrightarrow> (\<exists>ob gaps. said_object log ob \<and> mo_group_id ob = g \<and> mo_object_id ob = n
     \<and> mo_gaps ob = Some gaps \<and> og_has_object_gap gaps \<and> og_object_gap gaps = k)"

definition said_track_end :: "mt_event list \<Rightarrow> u64 \<Rightarrow> u64 \<Rightarrow> bool" where
  "said_track_end log g n \<longleftrightarrow> (\<exists>ob. said_object log ob \<and> mo_group_id ob = g \<and> mo_object_id ob = n \<and> mo_eot ob)"

text \<open>The latest object of a subgroup, and its final object; a FIN counts once an object of the subgroup
  has been heard.\<close>

definition of_sub :: "u64 \<times> u64 \<Rightarrow> moq_mt_object \<Rightarrow> bool" where
  "of_sub x ob \<longleftrightarrow> mo_in_subgroup ob \<and> (mo_group_id ob, mo_subgroup_id ob) = x"

fun sub_latest :: "mt_event list \<Rightarrow> u64 \<times> u64 \<Rightarrow> moq_mt_object option" where
  "sub_latest [] x = None"
| "sub_latest (Ev_Object ob # log) x = (if of_sub x ob then Some ob else sub_latest log x)"
| "sub_latest (Ev_Fin g sg h n e # log) x = sub_latest log x"

fun said_sub_end :: "mt_event list \<Rightarrow> u64 \<times> u64 \<Rightarrow> u64 \<Rightarrow> bool" where
  "said_sub_end [] x n = False"
| "said_sub_end (Ev_Object ob # log) x n = said_sub_end log x n"
| "said_sub_end (Ev_Fin g sg h m e # log) x n \<longleftrightarrow>
     (h \<and> (g, sg) = x \<and> m = n \<and> sub_latest log x \<noteq> None) \<or> said_sub_end log x n"

text \<open>The conditions, over numbers: a gap of \<open>k\<close> before \<open>b\<close> covers \<open>a\<close>.\<close>

definition gap_covers :: "u64 \<Rightarrow> u64 \<Rightarrow> u64 \<Rightarrow> bool" where
  "gap_covers k b a \<longleftrightarrow> unat a < unat b \<and> unat b \<le> unat a + unat k"

definition group_gap_conflict :: "mt_event list \<Rightarrow> moq_mt_object \<Rightarrow> bool" where
  "group_gap_conflict log ob \<longleftrightarrow>
     (\<exists>g k. said_group_gap log g k \<and> gap_covers k g (mo_group_id ob))
     \<or> (\<exists>k. said_group_gap [Ev_Object ob] (mo_group_id ob) k
          \<and> (mo_group_id ob < k \<or> (\<exists>j. said_group_gap log (mo_group_id ob) j \<and> j \<noteq> k)
             \<or> (\<exists>g n. said_seen log g n \<and> gap_covers k (mo_group_id ob) g)))"

definition object_gap_conflict :: "mt_event list \<Rightarrow> moq_mt_object \<Rightarrow> bool" where
  "object_gap_conflict log ob \<longleftrightarrow>
     (\<exists>n k. said_object_gap log (mo_group_id ob) n k \<and> gap_covers k n (mo_object_id ob))
     \<or> (\<exists>k. said_object_gap [Ev_Object ob] (mo_group_id ob) (mo_object_id ob) k
          \<and> (mo_object_id ob < k
             \<or> (\<exists>n. said_seen log (mo_group_id ob) n \<and> gap_covers k (mo_object_id ob) n)))"




text \<open>How an event contradicts a log, for each verdict.\<close>

fun mt_conflict :: "moq_malformed \<Rightarrow> mt_event list \<Rightarrow> mt_event \<Rightarrow> bool" where
  "mt_conflict MOQ_MALFORMED_TRACK_END log (Ev_Object ob) \<longleftrightarrow> mo_eot ob
     \<and> ((\<exists>g n. said_track_end log g n \<and> (g, n) \<noteq> (mo_group_id ob, mo_object_id ob))
        \<or> (\<exists>g n. said_seen log g n \<and> loc_after g n (mo_group_id ob) (mo_object_id ob))
        \<or> (\<exists>n. said_group_end log (mo_group_id ob) n \<and> mo_object_id ob < n))"
| "mt_conflict MOQ_MALFORMED_PAST_TRACK_END log (Ev_Object ob) \<longleftrightarrow>
     (\<exists>g n. said_track_end log g n \<and> loc_after (mo_group_id ob) (mo_object_id ob) g n)"
| "mt_conflict MOQ_MALFORMED_GROUP_END log (Ev_Object ob) \<longleftrightarrow> mo_eog ob
     \<and> ((\<exists>n. said_group_end log (mo_group_id ob) n \<and> n \<noteq> mo_object_id ob)
        \<or> (\<exists>n. said_seen log (mo_group_id ob) n \<and> mo_object_id ob < n))"
| "mt_conflict MOQ_MALFORMED_PAST_GROUP_END log (Ev_Object ob) \<longleftrightarrow>
     (\<exists>n. said_group_end log (mo_group_id ob) n \<and> n < mo_object_id ob)"
| "mt_conflict MOQ_MALFORMED_PRIORITY log (Ev_Object ob) \<longleftrightarrow> mo_in_subgroup ob
     \<and> (\<exists>ob'. sub_latest log (mo_group_id ob, mo_subgroup_id ob) = Some ob'
          \<and> \<not> (mo_priority_inherited ob' \<and> mo_priority_inherited ob) \<and> mo_priority ob' \<noteq> mo_priority ob)"
| "mt_conflict MOQ_MALFORMED_PAST_SUBGROUP_END log (Ev_Object ob) \<longleftrightarrow> mo_in_subgroup ob
     \<and> (\<exists>n. said_sub_end log (mo_group_id ob, mo_subgroup_id ob) n \<and> n < mo_object_id ob)"
| "mt_conflict MOQ_MALFORMED_GAP log (Ev_Object ob) \<longleftrightarrow> group_gap_conflict log ob \<or> object_gap_conflict log ob"
| "mt_conflict MOQ_MALFORMED_SUBGROUP_END log (Ev_Fin g sg h n e) \<longleftrightarrow> h
     \<and> (\<exists>m. said_sub_end log (g, sg) m \<and> m \<noteq> n)"
| "mt_conflict MOQ_MALFORMED_GROUP_END log (Ev_Fin g sg h n e) \<longleftrightarrow> h \<and> e
     \<and> ((\<exists>m. said_group_end log g m \<and> m \<noteq> n) \<or> (\<exists>m. said_seen log g m \<and> n < m))"
| "mt_conflict v log ev \<longleftrightarrow> False"

section \<open>The record agrees with the log\<close>

definition group_sound :: "mt_event list \<Rightarrow> u64 \<Rightarrow> mt_group \<Rightarrow> bool" where
  "group_sound log g r \<longleftrightarrow>
     (mg_has_seen r \<longrightarrow> said_seen log g (mg_min_seen r) \<and> said_seen log g (mg_max_seen r))
     \<and> (mg_has_final r \<longrightarrow> said_group_end log g (mg_final_object r))
     \<and> (mg_has_group_gap r \<longrightarrow> said_group_gap log g (mg_group_gap r) \<and> mg_group_gap r \<le> g)
     \<and> (mg_has_object_gap r \<longrightarrow> (\<exists>n k. said_object_gap log g n k \<and> 0 < k \<and> k \<le> n
           \<and> mg_object_gap_lo r = n - k \<and> mg_object_gap_hi r = n - 1))"

definition sub_sound :: "mt_event list \<Rightarrow> u64 \<times> u64 \<Rightarrow> mt_subgroup \<Rightarrow> bool" where
  "sub_sound log x r \<longleftrightarrow>
     (\<exists>ob. sub_latest log x = Some ob \<and> msg_priority r = mo_priority ob \<and> msg_inherited r = mo_priority_inherited ob)
     \<and> (msg_has_final r \<longrightarrow> said_sub_end log x (msg_final_object r))"

definition mt_sound :: "mt_event list \<Rightarrow> moq_mt_track \<Rightarrow> bool" where
  "mt_sound log t \<longleftrightarrow> mt_ok t
     \<and> (\<forall>g r. gmap t g = Some r \<longrightarrow> group_sound log g r)
     \<and> (\<forall>x r. smap t x = Some r \<longrightarrow> sub_sound log x r)
     \<and> (\<forall>g n. said_track_end log g n \<longleftrightarrow> mt_has_track_end t \<and> (mt_end_group t, mt_end_object t) = (g, n))"

lemma opt_ex_iff: "opt_ex x P \<longleftrightarrow> (\<exists>r. x = Some r \<and> P r)"
  by (cases x) simp_all

lemma gap_covers_word: "k \<le> b \<Longrightarrow> gap_covers k b a \<longleftrightarrow> a < b \<and> b - k \<le> a"
  by (auto simp: gap_covers_def word_less_nat_alt word_le_nat_alt unat_sub)

lemma gap_range_word: "0 < k \<Longrightarrow> k \<le> b \<Longrightarrow> gap_covers k b a \<longleftrightarrow> b - k \<le> a \<and> a \<le> b - (1 :: u64)"
proof -
  assume k: "0 < k" "k \<le> b"
  then have "(1 :: u64) \<le> b" by (simp add: word_le_nat_alt word_less_nat_alt)
  then have "unat (b - 1) = unat b - 1" by (simp add: unat_sub)
  then show ?thesis using k by (auto simp: gap_covers_word word_less_nat_alt word_le_nat_alt)
qed

lemma sound_group: "mt_sound log t \<Longrightarrow> gmap t g = Some r \<Longrightarrow> group_sound log g r"
  by (simp add: mt_sound_def)

lemma sound_sub: "mt_sound log t \<Longrightarrow> smap t x = Some r \<Longrightarrow> sub_sound log x r"
  by (cases x) (simp add: mt_sound_def)

lemma sound_end: "mt_sound log t \<Longrightarrow> mt_has_track_end t \<Longrightarrow> said_track_end log (mt_end_group t) (mt_end_object t)"
  by (simp add: mt_sound_def)

lemma sound_final:
  "mt_sound log t \<Longrightarrow> opt_ex (gmap t g) (\<lambda>r. mg_has_final r \<and> Q (mg_final_object r)) \<Longrightarrow> \<exists>n. said_group_end log g n \<and> Q n"
  using sound_group by (fastforce simp: opt_ex_iff group_sound_def)

lemma sound_max:
  "mt_sound log t \<Longrightarrow> opt_ex (gmap t g) (\<lambda>r. mg_has_seen r \<and> Q (mg_max_seen r)) \<Longrightarrow> \<exists>n. said_seen log g n \<and> Q n"
  using sound_group by (fastforce simp: opt_ex_iff group_sound_def)

lemma sound_sub_final:
  "mt_sound log t \<Longrightarrow> opt_ex (smap t x) (\<lambda>r. msg_has_final r \<and> Q (msg_final_object r)) \<Longrightarrow> \<exists>n. said_sub_end log x n \<and> Q n"
  using sound_sub by (fastforce simp: opt_ex_iff sub_sound_def)

lemma sound_ok: "mt_sound log t \<Longrightarrow> mt_ok t"
  by (simp add: mt_sound_def)

lemma sound_past_end:
  assumes "mt_sound log t" and "list_ex (past_track_end ob) (mt_groups t)"
  shows "(\<exists>g n. said_seen log g n \<and> loc_after g n (mo_group_id ob) (mo_object_id ob))
     \<or> (\<exists>n. said_group_end log (mo_group_id ob) n \<and> mo_object_id ob < n)"
proof -
  have "\<exists>g r. gmap t g = Some r \<and> past_track_end ob r"
    using group_list_ex [OF sound_ok [OF assms(1)], of "past_track_end ob"] assms(2) by (auto simp: past_track_end_def)
  then obtain g r where r: "gmap t g = Some r" "past_track_end ob r" by blast
  have "mg_group_id r = g" using gmap_id [OF r(1)] by simp
  then show ?thesis using sound_group [OF assms(1) r(1)] r(2)
    unfolding past_track_end_def group_sound_def loc_after_def by (elim disjE conjE) auto
qed

lemma sound_covered:
  assumes "mt_sound log t" and "list_ex (gap_covers_group (mo_group_id ob)) (mt_groups t)"
  shows "group_gap_conflict log ob"
proof -
  obtain g r where r: "gmap t g = Some r" "gap_covers_group (mo_group_id ob) r"
    using group_list_ex [OF sound_ok [OF assms(1)], of "gap_covers_group (mo_group_id ob)"] assms(2)
    by (auto simp only: gap_covers_group_def)
  have "mg_group_id r = g" using gmap_id [OF r(1)] by simp
  then have "said_group_gap log g (mg_group_gap r) \<and> gap_covers (mg_group_gap r) g (mo_group_id ob)"
    using sound_group [OF assms(1) r(1)] r(2) by (simp add: group_sound_def gap_covers_group_def gap_covers_word)
  then show ?thesis unfolding group_gap_conflict_def by blast
qed

lemma sound_inside:
  assumes "mt_sound log t" and "opt_ex (gmap t (mo_group_id ob)) (\<lambda>r. mg_has_object_gap r
      \<and> mg_object_gap_lo r \<le> mo_object_id ob \<and> mo_object_id ob \<le> mg_object_gap_hi r)"
  shows "object_gap_conflict log ob"
proof -
  obtain r where r: "gmap t (mo_group_id ob) = Some r" "mg_has_object_gap r" "mg_object_gap_lo r \<le> mo_object_id ob"
      "mo_object_id ob \<le> mg_object_gap_hi r"
    using assms(2) by (auto simp: opt_ex_iff)
  then obtain n k where "said_object_gap log (mo_group_id ob) n k" "0 < k" "k \<le> n" "n - k \<le> mo_object_id ob"
      "mo_object_id ob \<le> n - 1"
    using sound_group [OF assms(1) r(1)] unfolding group_sound_def by auto
  then have "said_object_gap log (mo_group_id ob) n k \<and> gap_covers k n (mo_object_id ob)" by (simp add: gap_range_word)
  then show ?thesis unfolding object_gap_conflict_def by blast
qed

lemma sound_own_group_gap:
  assumes "mt_sound log t" and "mo_gaps ob = Some gaps" and "og_has_group_gap gaps"
    and "mo_group_id ob < og_group_gap gaps
      \<or> opt_ex (gmap t (mo_group_id ob)) (\<lambda>r. mg_has_group_gap r \<and> mg_group_gap r \<noteq> og_group_gap gaps)
      \<or> list_ex (\<lambda>r. mg_used r \<and> mg_has_seen r \<and> mg_group_id r < mo_group_id ob
                   \<and> mo_group_id ob - og_group_gap gaps \<le> mg_group_id r) (mt_groups t)"
  shows "group_gap_conflict log ob"
proof -
  let ?g = "mo_group_id ob" and ?k = "og_group_gap gaps"
  let ?P = "\<lambda>r. mg_used r \<and> mg_has_seen r \<and> mg_group_id r < ?g \<and> ?g - ?k \<le> mg_group_id r"
  have own: "said_group_gap [Ev_Object ob] ?g ?k" using assms by (auto simp: said_group_gap_def said_object_def)
  have "?g < ?k \<or> (\<exists>j. said_group_gap log ?g j \<and> j \<noteq> ?k) \<or> (\<exists>g n. said_seen log g n \<and> gap_covers ?k ?g g)"
  proof (cases "?g < ?k")
    case False
    then have word: "gap_covers ?k ?g a \<longleftrightarrow> a < ?g \<and> ?g - ?k \<le> a" for a by (intro gap_covers_word) simp
    have ex: "list_ex ?P (mt_groups t) \<longleftrightarrow> (\<exists>g r. gmap t g = Some r \<and> ?P r)"
      by (rule group_list_ex [OF sound_ok [OF assms(1)]]) simp
    from assms(4) False consider r where "gmap t ?g = Some r" "mg_has_group_gap r" "mg_group_gap r \<noteq> ?k"
      | g r where "gmap t g = Some r" "mg_has_seen r" "mg_group_id r < ?g" "?g - ?k \<le> mg_group_id r"
      unfolding opt_ex_iff ex by blast
    then show ?thesis
    proof cases
      case 1
      then show ?thesis using sound_group [OF assms(1) 1(1)] unfolding group_sound_def by blast
    next
      case 2
      have "mg_group_id r = g" using gmap_id [OF 2(1)] by simp
      then show ?thesis using sound_group [OF assms(1) 2(1)] 2(2-4) word unfolding group_sound_def by metis
    qed
  qed blast
  with own show ?thesis unfolding group_gap_conflict_def by blast
qed

lemma sound_own_object_gap:
  assumes "mt_sound log t" and "mo_gaps ob = Some gaps" and "og_has_object_gap gaps"
    and "mo_object_id ob < og_object_gap gaps \<or> (0 < og_object_gap gaps \<and> opt_ex (gmap t (mo_group_id ob)) (\<lambda>r. mg_has_seen r
            \<and> ((mo_object_id ob - og_object_gap gaps \<le> mg_min_seen r \<and> mg_min_seen r \<le> mo_object_id ob - 1)
               \<or> (mo_object_id ob - og_object_gap gaps \<le> mg_max_seen r \<and> mg_max_seen r \<le> mo_object_id ob - 1))))"
  shows "object_gap_conflict log ob"
proof -
  let ?g = "mo_group_id ob" and ?n = "mo_object_id ob" and ?k = "og_object_gap gaps"
  have own: "said_object_gap [Ev_Object ob] ?g ?n ?k" using assms by (auto simp: said_object_gap_def said_object_def)
  have "?n < ?k \<or> (\<exists>n. said_seen log ?g n \<and> gap_covers ?k ?n n)"
  proof (cases "?n < ?k")
    case False
    with assms(4) obtain r where r: "0 < ?k" "gmap t ?g = Some r" "mg_has_seen r"
        "(?n - ?k \<le> mg_min_seen r \<and> mg_min_seen r \<le> ?n - 1) \<or> (?n - ?k \<le> mg_max_seen r \<and> mg_max_seen r \<le> ?n - 1)"
      unfolding opt_ex_iff by blast
    have "gap_covers ?k ?n a \<longleftrightarrow> ?n - ?k \<le> a \<and> a \<le> ?n - 1" for a
      using r(1) False by (intro gap_range_word) simp_all
    then show ?thesis using sound_group [OF assms(1) r(2)] r(3,4) unfolding group_sound_def by blast
  qed blast
  with own show ?thesis unfolding object_gap_conflict_def by blast
qed

lemma gaps_sound:
  assumes "mt_sound log t" and "mt_check_gaps t ob (gmap t (mo_group_id ob)) \<noteq> MOQ_MALFORMED_NONE"
  shows "mt_check_gaps t ob (gmap t (mo_group_id ob)) = MOQ_MALFORMED_GAP"
    "group_gap_conflict log ob \<or> object_gap_conflict log ob"
proof -
  have "mt_check_gaps t ob g = MOQ_MALFORMED_NONE \<or> mt_check_gaps t ob g = MOQ_MALFORMED_GAP" for g
    by (simp add: mt_check_gaps_def split: option.split)
  with assms(2) show "mt_check_gaps t ob (gmap t (mo_group_id ob)) = MOQ_MALFORMED_GAP" by blast
  show "group_gap_conflict log ob \<or> object_gap_conflict log ob"
    using assms(2) sound_covered [OF assms(1)] sound_inside [OF assms(1)] sound_own_group_gap [OF assms(1)]
      sound_own_object_gap [OF assms(1)]
    unfolding mt_check_gaps_def Let_def
    by (simp only: split: if_splits option.splits) blast+
qed

abbreviation object_verdict :: "moq_mt_track \<Rightarrow> moq_mt_object \<Rightarrow> moq_malformed" where
  "object_verdict t ob \<equiv> mt_verdict t ob (gmap t (mo_group_id ob)) (smap t (mo_group_id ob, mo_subgroup_id ob))"

lemma mt_object_maps:
  "mt_object t ob = (if object_verdict t ob \<noteq> MOQ_MALFORMED_NONE then (object_verdict t ob, t)
     else (MOQ_MALFORMED_NONE, mt_record t ob))"
  by (simp only: mt_object_def Let_def group_found subgroup_found)

lemma sound_priority:
  "mt_sound log t \<Longrightarrow> opt_ex (smap t x) (\<lambda>r. \<not> (msg_inherited r \<and> inh) \<and> msg_priority r \<noteq> p) \<Longrightarrow>
     \<exists>ob'. sub_latest log x = Some ob' \<and> \<not> (mo_priority_inherited ob' \<and> inh) \<and> mo_priority ob' \<noteq> p"
  using sound_sub by (fastforce simp: opt_ex_iff sub_sound_def)

text \<open>A verdict with its reason; the checks are a cascade of conditionals.\<close>

definition justified :: "mt_event list \<Rightarrow> mt_event \<Rightarrow> moq_malformed \<Rightarrow> bool" where
  "justified log ev v \<longleftrightarrow> v = MOQ_MALFORMED_NONE \<or> mt_conflict v log ev"

lemma justified_if:
  "(c \<Longrightarrow> justified log ev v) \<Longrightarrow> (\<not> c \<Longrightarrow> justified log ev w) \<Longrightarrow> justified log ev (if c then v else w)"
  by simp

lemma object_sound:
  assumes S: "mt_sound log t"
  shows "justified log (Ev_Object ob) (object_verdict t ob)"
  unfolding mt_verdict_def Let_def
proof (intro justified_if, goal_cases)
  case 1
  then show ?case using sound_end [OF S] by (auto simp: justified_def)
next
  case 2
  then show ?case using sound_end [OF S] by (auto simp: justified_def)
next
  case 3
  then show ?case using sound_final [OF S, of "mo_group_id ob" "\<lambda>n. mo_eog ob \<and> mo_object_id ob \<noteq> n"]
    by (auto simp: justified_def)
next
  case 4
  then show ?case using sound_final [OF S, of "mo_group_id ob" "\<lambda>n. n < mo_object_id ob"] by (simp add: justified_def)
next
  case 5
  then show ?case using sound_max [OF S, of "mo_group_id ob" "\<lambda>n. mo_object_id ob < n"] by (simp add: justified_def)
next
  case 6
  then show ?case using sound_max [OF S, of "mo_group_id ob" "\<lambda>n. mo_object_id ob < n"]
    by (auto simp: justified_def loc_after_def)
next
  case 7
  then show ?case using sound_past_end [OF S, of ob] by (simp add: justified_def)
next
  case 8
  then show ?case using sound_priority [OF S] by (simp add: justified_def)
next
  case 9
  then show ?case using sound_sub_final [OF S, of _ "\<lambda>n. n < mo_object_id ob"] by (simp add: justified_def)
next
  case 10
  then show ?case using gaps_sound [OF S, of ob] by (cases "mt_check_gaps t ob (gmap t (mo_group_id ob)) = MOQ_MALFORMED_NONE")
    (simp_all add: justified_def)
qed

lemma fin_sound:
  assumes S: "mt_sound log t"
  shows "justified log (Ev_Fin g sg True n e) (fin_verdict t g sg n e)"
  unfolding fin_verdict_def
proof (intro justified_if, goal_cases)
  case 1
  then show ?case using sound_sub_final [OF S, of "(g, sg)" "\<lambda>m. m \<noteq> n"] by (simp add: justified_def)
next
  case 2
  then show ?case using sound_final [OF S, of g "\<lambda>m. m \<noteq> n"] by (simp add: justified_def)
next
  case 3
  then show ?case using sound_max [OF S, of g "\<lambda>m. n < m"] by (simp add: justified_def)
next
  case 4
  have "said_group_end log (mt_end_group t) (mt_end_object t)"
    using 4 sound_end [OF S] by (auto simp: said_track_end_def said_group_end_def)
  then show ?case using 4 by (auto simp: justified_def)
next
  case 5
  then show ?case by (simp add: justified_def)
qed

section \<open>Hearing an event keeps the agreement\<close>

lemma said_object_Cons [simp]:
  "said_object (Ev_Object ob # log) x \<longleftrightarrow> x = ob \<or> said_object log x"
  "said_object (Ev_Fin g sg h n e # log) x \<longleftrightarrow> said_object log x"
  by (auto simp: said_object_def)

lemma said_Cons_Object:
  "said_seen (Ev_Object ob # log) g n \<longleftrightarrow> (mo_group_id ob = g \<and> mo_object_id ob = n) \<or> said_seen log g n"
  "said_group_end (Ev_Object ob # log) g n \<longleftrightarrow>
     (mo_group_id ob = g \<and> mo_object_id ob = n \<and> (mo_eog ob \<or> mo_eot ob)) \<or> said_group_end log g n"
  "said_track_end (Ev_Object ob # log) g n \<longleftrightarrow>
     (mo_group_id ob = g \<and> mo_object_id ob = n \<and> mo_eot ob) \<or> said_track_end log g n"
  "said_group_gap (Ev_Object ob # log) g k \<longleftrightarrow>
     (mo_group_id ob = g \<and> (\<exists>gaps. mo_gaps ob = Some gaps \<and> og_has_group_gap gaps \<and> og_group_gap gaps = k))
     \<or> said_group_gap log g k"
  "said_object_gap (Ev_Object ob # log) g n k \<longleftrightarrow>
     (mo_group_id ob = g \<and> mo_object_id ob = n
        \<and> (\<exists>gaps. mo_gaps ob = Some gaps \<and> og_has_object_gap gaps \<and> og_object_gap gaps = k))
     \<or> said_object_gap log g n k"
  by (auto simp: said_seen_def said_group_end_def said_track_end_def said_group_gap_def said_object_gap_def)

lemma said_Cons_Fin:
  "said_seen (Ev_Fin g' sg h m e # log) g n \<longleftrightarrow> said_seen log g n"
  "said_group_end (Ev_Fin g' sg h m e # log) g n \<longleftrightarrow> (h \<and> e \<and> g' = g \<and> m = n) \<or> said_group_end log g n"
  "said_track_end (Ev_Fin g' sg h m e # log) g n \<longleftrightarrow> said_track_end log g n"
  "said_group_gap (Ev_Fin g' sg h m e # log) g k \<longleftrightarrow> said_group_gap log g k"
  "said_object_gap (Ev_Fin g' sg h m e # log) g n k \<longleftrightarrow> said_object_gap log g n k"
  by (auto simp: said_seen_def said_group_end_def said_track_end_def said_group_gap_def said_object_gap_def)

lemmas said_Cons = said_Cons_Object said_Cons_Fin

lemma group_sound_mono: "group_sound log g r \<Longrightarrow> group_sound (ev # log) g r"
  unfolding group_sound_def by (cases ev) (auto simp: said_Cons; blast)+

lemma sub_sound_mono:
  "sub_sound log x r \<Longrightarrow> (\<And>ob. ev = Ev_Object ob \<Longrightarrow> \<not> of_sub x ob) \<Longrightarrow> sub_sound (ev # log) x r"
  unfolding sub_sound_def by (cases ev) auto

lemma group_base_sound: "mt_sound log t \<Longrightarrow> group_sound log g (group_base t g)"
  using sound_group [of log t g] by (simp add: group_base_def group_sound_def mt_group_zero_def split: option.split)

lemma group_sound_stamp: "group_sound log g (r\<lparr>mg_stamp := c\<rparr>) = group_sound log g r"
  by (simp add: group_sound_def)

text \<open>What the gap checks leave of the object's own gaps.\<close>

definition own_gaps_fit :: "moq_mt_object \<Rightarrow> bool" where
  "own_gaps_fit ob \<longleftrightarrow> (\<forall>gaps. mo_gaps ob = Some gaps \<longrightarrow>
     (og_has_group_gap gaps \<longrightarrow> og_group_gap gaps \<le> mo_group_id ob)
     \<and> (og_has_object_gap gaps \<longrightarrow> og_object_gap gaps \<le> mo_object_id ob))"

lemma check_gaps_fit: "mt_check_gaps t ob g = MOQ_MALFORMED_NONE \<Longrightarrow> own_gaps_fit ob"
  by (auto simp: mt_check_gaps_def own_gaps_fit_def not_le split: if_splits)

lemma verdict_none:
  assumes "object_verdict t ob = MOQ_MALFORMED_NONE"
  shows "mt_check_gaps t ob (gmap t (mo_group_id ob)) = MOQ_MALFORMED_NONE"
    "mt_has_track_end t \<Longrightarrow> mo_eot ob \<Longrightarrow> mo_group_id ob = mt_end_group t \<and> mo_object_id ob = mt_end_object t"
    "mt_has_track_end t \<Longrightarrow> \<not> loc_after (mo_group_id ob) (mo_object_id ob) (mt_end_group t) (mt_end_object t)"
    "gmap t (mo_group_id ob) = Some r \<Longrightarrow> mg_has_final r \<Longrightarrow> mo_object_id ob \<le> mg_final_object r"
    "gmap t (mo_group_id ob) = Some r \<Longrightarrow> mg_has_final r \<Longrightarrow> mo_eog ob \<Longrightarrow> mo_object_id ob = mg_final_object r"
    "gmap t (mo_group_id ob) = Some r \<Longrightarrow> mg_has_seen r \<Longrightarrow> mo_eog ob \<or> mo_eot ob \<Longrightarrow> mg_max_seen r \<le> mo_object_id ob"
    "mo_eot ob \<Longrightarrow> \<not> list_ex (past_track_end ob) (mt_groups t)"
    "mo_in_subgroup ob \<Longrightarrow> smap t (mo_group_id ob, mo_subgroup_id ob) = Some q \<Longrightarrow>
       (msg_inherited q \<and> mo_priority_inherited ob) \<or> msg_priority q = mo_priority ob"
    "mo_in_subgroup ob \<Longrightarrow> smap t (mo_group_id ob, mo_subgroup_id ob) = Some q \<Longrightarrow> msg_has_final q \<Longrightarrow>
       mo_object_id ob \<le> msg_final_object q"
  using assms by (auto simp: mt_verdict_def Let_def opt_ex_iff not_less split: if_splits)

text \<open>The fields of a group after an object of it has been recorded.\<close>

lemma record_group_seen:
  "mg_has_seen (record_group ob r)"
  "mg_min_seen (record_group ob r) = (if mg_has_seen r \<and> mg_min_seen r \<le> mo_object_id ob then mg_min_seen r else mo_object_id ob)"
  "mg_max_seen (record_group ob r) = (if mg_has_seen r \<and> mo_object_id ob \<le> mg_max_seen r then mg_max_seen r else mo_object_id ob)"
  by (auto simp: record_group_def Let_def not_less not_le split: option.split)

lemma record_group_final:
  "mg_has_final (record_group ob r) \<longleftrightarrow> mo_eog ob \<or> mo_eot ob \<or> mg_has_final r"
  "mg_final_object (record_group ob r) = (if mo_eog ob \<or> mo_eot ob then mo_object_id ob else mg_final_object r)"
  by (auto simp: record_group_def Let_def split: option.split)

lemma record_group_gap:
  "mo_gaps ob = None \<Longrightarrow> mg_has_group_gap (record_group ob r) = mg_has_group_gap r"
  "mo_gaps ob = None \<Longrightarrow> mg_group_gap (record_group ob r) = mg_group_gap r"
  "mo_gaps ob = Some gaps \<Longrightarrow> mg_has_group_gap (record_group ob r) \<longleftrightarrow> og_has_group_gap gaps \<or> mg_has_group_gap r"
  "mo_gaps ob = Some gaps \<Longrightarrow>
     mg_group_gap (record_group ob r) = (if og_has_group_gap gaps then og_group_gap gaps else mg_group_gap r)"
  by (auto simp: record_group_def Let_def)

lemma record_object_gap:
  "mo_gaps ob = None \<Longrightarrow> mg_has_object_gap (record_group ob r) = mg_has_object_gap r
     \<and> mg_object_gap_lo (record_group ob r) = mg_object_gap_lo r \<and> mg_object_gap_hi (record_group ob r) = mg_object_gap_hi r"
  "mo_gaps ob = Some gaps \<Longrightarrow> og_has_object_gap gaps \<and> 0 < og_object_gap gaps \<Longrightarrow>
     mg_has_object_gap (record_group ob r) \<and> mg_object_gap_lo (record_group ob r) = mo_object_id ob - og_object_gap gaps
     \<and> mg_object_gap_hi (record_group ob r) = mo_object_id ob - 1"
  "mo_gaps ob = Some gaps \<Longrightarrow> \<not> (og_has_object_gap gaps \<and> 0 < og_object_gap gaps) \<Longrightarrow>
     mg_has_object_gap (record_group ob r) = mg_has_object_gap r
     \<and> mg_object_gap_lo (record_group ob r) = mg_object_gap_lo r \<and> mg_object_gap_hi (record_group ob r) = mg_object_gap_hi r"
  by (auto simp: record_group_def Let_def)

lemma record_group_sound:
  assumes "group_sound log (mo_group_id ob) r" and "own_gaps_fit ob"
  shows "group_sound (Ev_Object ob # log) (mo_group_id ob) (record_group ob r)"
proof -
  let ?g = "mo_group_id ob" and ?n = "mo_object_id ob" and ?log = "Ev_Object ob # log" and ?r = "record_group ob r"
  note old = group_sound_mono [OF assms(1), of "Ev_Object ob", unfolded group_sound_def]
  have seen: "said_seen ?log ?g (mg_min_seen ?r) \<and> said_seen ?log ?g (mg_max_seen ?r)"
    using old by (auto simp: record_group_seen said_Cons)
  have final: "mg_has_final ?r \<longrightarrow> said_group_end ?log ?g (mg_final_object ?r)"
    using old by (auto simp: record_group_final said_Cons)
  have gap: "mg_has_group_gap ?r \<longrightarrow> said_group_gap ?log ?g (mg_group_gap ?r) \<and> mg_group_gap ?r \<le> ?g"
    using old assms(2) by (cases "mo_gaps ob") (auto simp: record_group_gap own_gaps_fit_def said_Cons)
  have range: "mg_has_object_gap ?r \<longrightarrow> (\<exists>n k. said_object_gap ?log ?g n k \<and> 0 < k \<and> k \<le> n
           \<and> mg_object_gap_lo ?r = n - k \<and> mg_object_gap_hi ?r = n - 1)"
  proof (cases "\<exists>gaps. mo_gaps ob = Some gaps \<and> og_has_object_gap gaps \<and> 0 < og_object_gap gaps")
    case True
    then obtain gaps where g: "mo_gaps ob = Some gaps" "og_has_object_gap gaps \<and> 0 < og_object_gap gaps" by blast
    then have "said_object_gap ?log ?g ?n (og_object_gap gaps) \<and> 0 < og_object_gap gaps \<and> og_object_gap gaps \<le> ?n"
      using assms(2) by (simp add: own_gaps_fit_def said_Cons)
    then show ?thesis using record_object_gap(2) [OF g, of r] by blast
  next
    case False
    then have "mg_has_object_gap ?r = mg_has_object_gap r \<and> mg_object_gap_lo ?r = mg_object_gap_lo r
        \<and> mg_object_gap_hi ?r = mg_object_gap_hi r"
      using record_object_gap(1,3) [of ob] by (cases "mo_gaps ob") blast+
    with old show ?thesis by simp
  qed
  show ?thesis unfolding group_sound_def using seen final gap range by blast
qed

lemma recorded_sub_sound:
  assumes "mt_sound log t" and "mo_in_subgroup ob"
  shows "sub_sound (Ev_Object ob # log) (mo_group_id ob, mo_subgroup_id ob) (recorded_sub t ob c)"
proof -
  let ?x = "(mo_group_id ob, mo_subgroup_id ob)"
  have "msg_has_final (subgroup_base t ?x) \<longrightarrow> said_sub_end log ?x (msg_final_object (subgroup_base t ?x))"
    using sound_sub [OF assms(1), of ?x]
    by (simp add: subgroup_base_def sub_sound_def mt_subgroup_zero_def split: option.split)
  then show ?thesis using assms(2) by (simp add: sub_sound_def recorded_sub_def of_sub_def)
qed

lemma record_sound:
  assumes S: "mt_sound log t" and none: "object_verdict t ob = MOQ_MALFORMED_NONE"
  shows "mt_sound (Ev_Object ob # log) (mt_record t ob)"
proof -
  let ?t = "mt_record t ob" and ?log = "Ev_Object ob # log" and ?x = "(mo_group_id ob, mo_subgroup_id ob)"
  note m = record_maps [OF sound_ok [OF S], of ob] and v = verdict_none [OF none]
  have "group_sound ?log g r" if "gmap ?t g = Some r" for g r
    using m(2) that
  proof (cases rule: took_cases)
    case 1
    have "group_sound log (mo_group_id ob) ((group_base t (mo_group_id ob))\<lparr>mg_stamp := mt_clock t + 1\<rparr>)"
      by (simp add: group_sound_stamp group_base_sound [OF S])
    then show ?thesis using record_group_sound [OF _ check_gaps_fit [OF v(1)]] 1 by (simp add: recorded_group_def)
  next
    case 2
    then show ?thesis by (intro group_sound_mono sound_group [OF S])
  qed
  moreover have "sub_sound ?log x r" if r: "smap ?t x = Some r" for x r
  proof (cases "mo_in_subgroup ob")
    case True
    then obtain c where "took MT_SUBGROUPS (smap t) (smap ?t) ?x (recorded_sub t ob c)" using m(3) by blast
    then show ?thesis using r
    proof (cases rule: took_cases)
      case 1
      then show ?thesis using recorded_sub_sound [OF S True] by simp
    next
      case 2
      then show ?thesis using sound_sub [OF S 2(2)] by (intro sub_sound_mono) (auto simp: of_sub_def)
    qed
  next
    case False
    then show ?thesis using r m(4) sound_sub [OF S] by (intro sub_sound_mono) (auto simp: of_sub_def)
  qed
  moreover have "said_track_end ?log g n \<longleftrightarrow> mt_has_track_end ?t \<and> (mt_end_group ?t, mt_end_object ?t) = (g, n)" for g n
    using S v(2) by (auto simp: said_Cons m(5-7) mt_sound_def)
  ultimately show ?thesis using m(1) by (simp add: mt_sound_def)
qed

lemma closed_group_sound:
  "mt_sound log t \<Longrightarrow> group_sound (Ev_Fin g sg True n True # log) g (closed_group t g n c)"
  using group_base_sound [of log t g] by (auto simp: closed_group_def group_sound_def said_Cons)

lemma sub_closed_sound:
  assumes "mt_sound log t" and "sub_closed t (g, sg) n x = Some r"
  shows "sub_sound (Ev_Fin g sg True n e # log) x r"
proof (cases "x = (g, sg) \<and> smap t (g, sg) \<noteq> None")
  case True
  then obtain q where q: "smap t (g, sg) = Some q" "x = (g, sg)" by blast
  then have "r = q\<lparr>msg_has_final := True, msg_final_object := n\<rparr>" using assms(2) by (simp add: sub_closed_def)
  then show ?thesis using sound_sub [OF assms(1) q(1)] q(2) by (auto simp: sub_sound_def)
next
  case False
  then have "smap t x = Some r" using assms(2) by (auto simp: sub_closed_def split: option.splits if_splits)
  then show ?thesis using sound_sub [OF assms(1)] by (intro sub_sound_mono) simp_all
qed

lemma fin_keeps_sound:
  assumes S: "mt_sound log t" and none: "fin_verdict t g sg n e = MOQ_MALFORMED_NONE"
    and fin: "mt_subgroup_fin t g sg True n e = (MOQ_MALFORMED_NONE, t')"
  shows "mt_sound (Ev_Fin g sg True n e # log) t'"
proof -
  let ?log = "Ev_Fin g sg True n e # log"
  note m = fin_maps(3) [OF sound_ok [OF S] none fin]
  have "group_sound ?log h r" if r: "gmap t' h = Some r" for h r
  proof (cases e)
    case True
    then obtain c where "took MT_GROUPS (gmap t) (gmap t') g (closed_group t g n c)" using m by auto
    then show ?thesis using r
      by (cases rule: took_cases) (use True in \<open>auto intro: closed_group_sound [OF S] group_sound_mono sound_group [OF S]\<close>)
  next
    case False
    then show ?thesis using r m by (intro group_sound_mono sound_group [OF S]) simp
  qed
  moreover have "sub_sound ?log x r" if "smap t' x = Some r" for x r
    using that m sub_closed_sound [OF S] by simp
  ultimately show ?thesis using m S by (simp add: mt_sound_def said_Cons)
qed

lemma fin_without_last: "mt_subgroup_fin t g sg False n e = (MOQ_MALFORMED_NONE, t)"
  by (simp add: mt_subgroup_fin_def)

lemma sub_end_no_last: "said_sub_end (Ev_Fin g sg False n e # log) x m = said_sub_end log x m"
  by simp

lemma silent_sound:
  assumes "mt_sound log t"
  shows "mt_sound (Ev_Fin g sg False n e # log) t"
  using assms unfolding mt_sound_def group_sound_def sub_sound_def by (simp add: said_Cons)

text \<open>A fresh record: the tables are empty and nothing has been said.\<close>

definition mt_fresh :: "moq_mt_track \<Rightarrow> bool" where
  "mt_fresh t \<longleftrightarrow> mt_groups t = replicate MT_GROUPS mt_group_zero \<and> mt_subgroups t = replicate MT_SUBGROUPS mt_subgroup_zero
     \<and> \<not> mt_has_track_end t"

lemma keyed_unused: "\<not> P z \<Longrightarrow> keyed P key (replicate n z) = (\<lambda>_. None)"
  by (auto simp: fun_eq_iff keyed_None_iff)

lemma key_unique_unused: "\<not> P z \<Longrightarrow> key_unique P key (replicate n z)"
  by (auto simp: key_unique_def inj_on_def)

lemma fresh_maps:
  assumes "mt_fresh t"
  shows "mt_ok t" "gmap t = (\<lambda>_. None)" "smap t = (\<lambda>_. None)"
  using assms
  by (simp_all add: mt_fresh_def mt_ok_def key_unique_unused gmap_def smap_def keyed_unused mt_group_zero_def
      mt_subgroup_zero_def)

lemma fresh_sound: "mt_fresh t \<Longrightarrow> mt_sound [] t"
  using fresh_maps [of t]
  by (auto simp: mt_sound_def said_track_end_def said_object_def mt_fresh_def)

lemma hear_sound:
  assumes S: "mt_sound log t"
  shows "mt_hear t ev = (MOQ_MALFORMED_NONE, t') \<Longrightarrow> mt_sound (ev # log) t'"
    "mt_hear t ev = (v, t') \<Longrightarrow> v \<noteq> MOQ_MALFORMED_NONE \<Longrightarrow> mt_conflict v log ev \<and> t' = t"
proof -
  note fin = fin_maps [OF sound_ok [OF S]]
  show "mt_sound (ev # log) t'" if h: "mt_hear t ev = (MOQ_MALFORMED_NONE, t')"
  proof (cases ev)
    case (Ev_Object ob)
    then show ?thesis using h record_sound [OF S, of ob] by (auto simp: mt_object_maps split: if_splits)
  next
    case (Ev_Fin g sg has n e)
    show ?thesis
    proof (cases has)
      case True
      then have f: "mt_subgroup_fin t g sg True n e = (MOQ_MALFORMED_NONE, t')" using h Ev_Fin by simp
      then have "fin_verdict t g sg n e = MOQ_MALFORMED_NONE" using fin(1) [of g sg n e] by simp
      then show ?thesis using fin_keeps_sound [OF S _ f] Ev_Fin True by simp
    next
      case False
      then show ?thesis using h Ev_Fin silent_sound [OF S] by (simp add: fin_without_last)
    qed
  qed
  show "mt_conflict v log ev \<and> t' = t" if h: "mt_hear t ev = (v, t')" "v \<noteq> MOQ_MALFORMED_NONE"
  proof (cases ev)
    case (Ev_Object ob)
    then show ?thesis using h object_sound [OF S, of ob] by (auto simp: mt_object_maps justified_def split: if_splits)
  next
    case (Ev_Fin g sg has n e)
    show ?thesis
    proof (cases has)
      case True
      then have f: "mt_subgroup_fin t g sg True n e = (v, t')" using h Ev_Fin by simp
      then have "fin_verdict t g sg n e = v" using fin(1) [of g sg n e] by simp
      then show ?thesis using fin(2) [of g sg n e] fin_sound [OF S, of g sg n e] f h(2) Ev_Fin True
        by (simp add: justified_def)
    next
      case False
      then show ?thesis using h Ev_Fin by (simp add: fin_without_last)
    qed
  qed
qed

lemma heard_sound: "mt_heard t0 log t \<Longrightarrow> mt_fresh t0 \<Longrightarrow> mt_sound log t"
  by (induction rule: mt_heard.induct) (auto intro: fresh_sound hear_sound(1))

section \<open>Nothing is forgotten while the tables have room\<close>

































section \<open>Which contradictions are reported while the tables have room\<close>






















section \<open>Properties\<close>

text \<open>C2: Nothing is reported that the Track did not say. Whatever a record has accepted since it was
  made, and whichever groups and subgroups its bounded tables have forgotten since, a verdict other than
  NONE names a contradiction between the new event and the events accepted before, of exactly the kind the
  verdict stands for; the record is left as it was.\<close>

theorem malformed_sound:
  assumes "mt_fresh t0" and "mt_heard t0 log t" and "mt_hear t ev = (v, t')" and "v \<noteq> MOQ_MALFORMED_NONE"
  shows "mt_conflict v log ev \<and> t' = t"
  by (rule hear_sound(2) [OF heard_sound [OF assms(2,1)] assms(3,4)])


text \<open>A track whose group 5 ended at object 3, and the objects before and after that end.\<close>

definition wit_object :: "u64 \<Rightarrow> u64 \<Rightarrow> u8 \<Rightarrow> mt_event" where
  "wit_object g n st = Ev_Object \<lparr>mo_group_id = g, mo_object_id = n, mo_in_subgroup = True, mo_end_of_group = False,
     mo_priority = 128, mo_priority_inherited = False, mo_subgroup_id = 0, mo_status = st, mo_gaps = None\<rparr>"

definition wit_track :: moq_mt_track where
  "wit_track = snd (mt_hear mt_track_zero (wit_object 5 3 MOQ_OBJECT_END_OF_GROUP))"

lemma wit_heard: "mt_heard mt_track_zero [wit_object 5 3 MOQ_OBJECT_END_OF_GROUP] wit_track"
proof -
  have "fst (mt_hear mt_track_zero (wit_object 5 3 MOQ_OBJECT_END_OF_GROUP)) = MOQ_MALFORMED_NONE" by code_simp
  then show ?thesis by (intro mt_heard_event [OF mt_heard_start]) (simp add: wit_track_def prod_eq_iff)
qed

lemma wit_fresh: "mt_fresh mt_track_zero"
  by (simp add: mt_fresh_def mt_track_zero_def)

lemma wit_past_end: "mt_hear wit_track (wit_object 5 4 MOQ_OBJECT_NORMAL) = (MOQ_MALFORMED_PAST_GROUP_END, wit_track)"
proof -
  have "fst (mt_hear wit_track (wit_object 5 4 MOQ_OBJECT_NORMAL)) = MOQ_MALFORMED_PAST_GROUP_END" by code_simp
  then show ?thesis by (auto simp: wit_object_def mt_object_maps split: if_splits)
qed

theorem malformed_sound_witness:
  "mt_conflict MOQ_MALFORMED_PAST_GROUP_END [wit_object 5 3 MOQ_OBJECT_END_OF_GROUP] (wit_object 5 4 MOQ_OBJECT_NORMAL)"
  using malformed_sound [OF wit_fresh wit_heard wit_past_end] by simp






end
