(* ===== verification/MalformedList.thy ===== *)
theory MalformedList
  imports Malformed
begin

text \<open>
  The list of Malformed Track records of a session (\<open>mt_new\<close>, \<open>mt_collect\<close>, \<open>mt_track_for_alias\<close>,
  \<open>mt_track_for_fetch\<close> and \<open>mt_destroy_all\<close> of \<open>core/src/session/session_malformed.c\<close>): one record per
  alias and per fetch, within the session's capacity, and every block accounted for.
\<close>

abbreviation rec_id :: "moq_mt_track \<Rightarrow> mt_kind \<times> u64" where
  "rec_id t \<equiv> (mt_kind_of t, mt_key t)"

abbreviation rec_size :: "moq_mt_track \<Rightarrow> nat" where
  "rec_size t \<equiv> MT_TRACK_SIZEOF + length (mt_track_key t)"

text \<open>\<open>rest\<close> stands for the blocks of the session that belong to its other parts.\<close>

definition ms_inv :: "nat multiset \<Rightarrow> mt_session \<Rightarrow> bool" where
  "ms_inv rest s \<longleftrightarrow> ms_count s = length (ms_tracks s) \<and> ms_count s \<le> ms_cap s
     \<and> distinct (map rec_id (ms_tracks s))
     \<and> mset (h_blocks (ms_heap s)) = rest + mset (map rec_size (ms_tracks s))"

definition new_record :: "mt_kind \<Rightarrow> u64 \<Rightarrow> u8 list \<Rightarrow> moq_mt_track" where
  "new_record kind key k = mt_track_zero\<lparr>mt_kind_of := kind, mt_key := key, mt_track_key := k\<rparr>"

section \<open>Releasing and collecting records\<close>

lemma mt_alive_keep [simp]:
  "mt_alive (s\<lparr>ms_heap := h\<rparr>) t = mt_alive s t" "mt_alive (s\<lparr>ms_count := n\<rparr>) t = mt_alive s t"
  "mt_alive (s\<lparr>ms_tracks := ts\<rparr>) t = mt_alive s t" "mt_alive (mt_free u s) = mt_alive s"
  by (simp_all add: mt_alive_def mt_free_def fun_eq_iff)

lemma mt_free_keep [simp]:
  "ms_tracks (mt_free t s) = ms_tracks s" "ms_cap (mt_free t s) = ms_cap s"
  "ms_alias_key (mt_free t s) = ms_alias_key s" "ms_fetch_live (mt_free t s) = ms_fetch_live s"
  "ms_count (mt_free t s) = ms_count s - 1"
  by (simp_all add: mt_free_def)

lemma mt_free_blocks: "mset (h_blocks (ms_heap (mt_free t s))) = mset (h_blocks (ms_heap s)) - {#rec_size t#}"
  by (simp add: mt_free_def blocks_free)

lemma collect_loop_keep:
  "ms_cap (mt_collect_loop kept ts s) = ms_cap s" "ms_alias_key (mt_collect_loop kept ts s) = ms_alias_key s"
  "ms_fetch_live (mt_collect_loop kept ts s) = ms_fetch_live s"
  "ms_tracks (mt_collect_loop kept ts s) = kept @ filter (mt_alive s) ts"
  "ms_count (mt_collect_loop kept ts s) = ms_count s - length (filter (\<lambda>t. \<not> mt_alive s t) ts)"
  "mset (h_blocks (ms_heap (mt_collect_loop kept ts s)))
     = mset (h_blocks (ms_heap s)) - mset (map rec_size (filter (\<lambda>t. \<not> mt_alive s t) ts))"
  by (induction kept ts s rule: mt_collect_loop.induct) (auto simp: mt_free_blocks)

lemma filter_split_mset:
  "mset (map f xs) = mset (map f (filter P xs)) + mset (map f (filter (\<lambda>x. \<not> P x) xs))"
  by (induction xs) simp_all

lemma distinct_map_filter: "distinct (map f xs) \<Longrightarrow> distinct (map f (filter P xs))"
  by (induction xs) auto

lemma collect_inv:
  assumes "ms_inv rest s"
  shows "ms_inv rest (mt_collect s)" "ms_tracks (mt_collect s) = filter (mt_alive s) (ms_tracks s)"
    "ms_cap (mt_collect s) = ms_cap s" "ms_alias_key (mt_collect s) = ms_alias_key s"
    "mt_alive (mt_collect s) = mt_alive s"
proof -
  let ?keep = "filter (mt_alive s) (ms_tracks s)" and ?drop = "filter (\<lambda>t. \<not> mt_alive s t) (ms_tracks s)"
  have len: "length (ms_tracks s) - length ?drop = length ?keep"
    using sum_length_filter_compl [of "mt_alive s" "ms_tracks s"] by simp
  have "length ?keep \<le> ms_cap s" by (rule order_trans [OF length_filter_le]) (use assms in \<open>simp add: ms_inv_def\<close>)
  then show "ms_inv rest (mt_collect s)"
    using assms len filter_split_mset [of rec_size "ms_tracks s" "mt_alive s"]
    by (simp add: ms_inv_def mt_collect_def collect_loop_keep distinct_map_filter)
  show "ms_tracks (mt_collect s) = ?keep" "ms_cap (mt_collect s) = ms_cap s" "ms_alias_key (mt_collect s) = ms_alias_key s"
    "mt_alive (mt_collect s) = mt_alive s"
    by (simp_all add: mt_collect_def collect_loop_keep fun_eq_iff mt_alive_def cong: if_cong)
qed

section \<open>Making and finding records\<close>

text \<open>What a call that looks up or makes a record for \<open>x\<close> promises, \<open>k\<close> being the key of the record.\<close>

definition got_record :: "nat multiset \<Rightarrow> mt_kind \<times> u64 \<Rightarrow> u8 list \<Rightarrow> mt_session \<Rightarrow> nat option \<Rightarrow> mt_session \<Rightarrow> bool" where
  "got_record rest x k s r s' \<longleftrightarrow> ms_inv rest s'
     \<and> (\<forall>t \<in> set (ms_tracks s). rec_id t \<noteq> x \<longrightarrow> mt_alive s t \<longrightarrow> t \<in> set (ms_tracks s'))
     \<and> (\<forall>i. r = Some i \<longrightarrow> i < length (ms_tracks s') \<and> rec_id (ms_tracks s' ! i) = x \<and> mt_track_key (ms_tracks s' ! i) = k
          \<and> (ms_tracks s' ! i \<in> set (ms_tracks s) \<or> ms_tracks s' ! i = new_record (fst x) (snd x) k))"

text \<open>Why no record is made: the session's capacity is used up by live records, or the allocator refuses.\<close>

definition record_refused :: "mt_session \<Rightarrow> moq_result \<Rightarrow> mt_session \<Rightarrow> bool" where
  "record_refused s rc s' \<longleftrightarrow>
     (rc = MOQ_OK \<and> length (ms_tracks s') = ms_cap s \<and> (\<forall>t \<in> set (ms_tracks s'). mt_alive s t))
     \<or> (rc = MOQ_ERR_NOMEM \<and> \<not> h_grant (ms_heap s) (h_calls (ms_heap s)))"

lemma free_heap_keep [simp]:
  "h_grant (ms_heap (mt_free t s)) = h_grant (ms_heap s)" "h_calls (ms_heap (mt_free t s)) = h_calls (ms_heap s)"
  by (simp_all add: mt_free_def heap_free_def)

lemma collect_heap_keep:
  "h_grant (ms_heap (mt_collect_loop kept ts s)) = h_grant (ms_heap s)
   \<and> h_calls (ms_heap (mt_collect_loop kept ts s)) = h_calls (ms_heap s)"
  by (induction kept ts s rule: mt_collect_loop.induct) simp_all

lemma mt_new_got:
  assumes inv: "ms_inv rest s" and fresh: "(kind, key) \<notin> rec_id ` set (ms_tracks s)"
    and new: "mt_new s kind key k = (rc, r, s')"
  shows "got_record rest (kind, key) k s r s'
    \<and> (\<forall>i. r = Some i \<longrightarrow> rc = MOQ_OK \<and> ms_tracks s' ! i = new_record kind key k)
    \<and> (r = None \<longrightarrow> record_refused s rc s' \<and> (kind, key) \<notin> rec_id ` set (ms_tracks s'))"
proof -
  define s1 where "s1 = (if ms_cap s \<le> ms_count s then mt_collect s else s)"
  have s1: "ms_inv rest s1" "set (ms_tracks s1) \<subseteq> set (ms_tracks s)" "ms_cap s1 = ms_cap s"
    "\<And>t. t \<in> set (ms_tracks s) \<Longrightarrow> mt_alive s t \<Longrightarrow> t \<in> set (ms_tracks s1)"
    "h_grant (ms_heap s1) = h_grant (ms_heap s) \<and> h_calls (ms_heap s1) = h_calls (ms_heap s)"
    using inv collect_inv [OF inv] by (simp_all add: s1_def mt_collect_def collect_heap_keep)
  have absent: "(kind, key) \<notin> rec_id ` set (ms_tracks s1)" using fresh s1(2) by blast
  show ?thesis
  proof (cases "ms_cap s1 \<le> ms_count s1")
    case True
    then have s': "rc = MOQ_OK" "r = None" "s' = s1" using new by (simp_all add: mt_new_def flip: s1_def)
    have "ms_tracks s1 = filter (mt_alive s) (ms_tracks s)"
      using True collect_inv(2) [OF inv] by (auto simp: s1_def split: if_splits)
    moreover have "length (ms_tracks s1) = ms_cap s" using True s1(1,3) by (simp add: ms_inv_def)
    ultimately have "record_refused s rc s'" by (simp add: record_refused_def s')
    then show ?thesis using s1 absent by (simp add: got_record_def s')
  next
    case False
    obtain ok h where a: "heap_alloc (MT_TRACK_SIZEOF + length k) (ms_heap s1) = (ok, h)" by fastforce
    show ?thesis
    proof (cases ok)
      case True
      then have s': "rc = MOQ_OK" "r = Some 0" "s' = s1\<lparr>ms_heap := h, ms_count := ms_count s1 + 1,
          ms_tracks := new_record kind key k # ms_tracks s1\<rparr>"
        using new False a by (simp_all add: mt_new_def new_record_def flip: s1_def)
      have "ms_inv rest s'"
        using s1(1,2) fresh False a True blocks_alloc(1) [of "MT_TRACK_SIZEOF + length k" "ms_heap s1" h]
        by (auto simp: ms_inv_def s' new_record_def)
      then show ?thesis using s1(4) by (auto simp: got_record_def s' new_record_def)
    next
      case no: False
      then have s': "rc = MOQ_ERR_NOMEM" "r = None" "s' = s1\<lparr>ms_heap := h\<rparr>"
        using new False a by (simp_all add: mt_new_def flip: s1_def)
      have "record_refused s rc s'"
        using a no s1(5) by (simp add: record_refused_def s' heap_alloc_def Let_def)
      then show ?thesis using s1 blocks_alloc(2) [of "MT_TRACK_SIZEOF + length k" "ms_heap s1" h] a no absent
        by (simp add: got_record_def ms_inv_def s')
    qed
  qed
qed

text \<open>The record that is unlinked when its alias names another Track.\<close>

lemma unlink_inv:
  assumes inv: "ms_inv rest s" and i: "i < length (ms_tracks s)"
  defines "s1 \<equiv> mt_free (ms_tracks s ! i) (s\<lparr>ms_tracks := take i (ms_tracks s) @ drop (Suc i) (ms_tracks s)\<rparr>)"
  shows "ms_inv rest s1" "rec_id (ms_tracks s ! i) \<notin> rec_id ` set (ms_tracks s1)"
    "set (ms_tracks s1) \<subseteq> set (ms_tracks s)"
    "t \<in> set (ms_tracks s) \<Longrightarrow> rec_id t \<noteq> rec_id (ms_tracks s ! i) \<Longrightarrow> t \<in> set (ms_tracks s1)"
proof -
  define u xs ys where "u = ms_tracks s ! i" and "xs = take i (ms_tracks s)" and "ys = drop (Suc i) (ms_tracks s)"
  have ts: "ms_tracks s = xs @ u # ys" unfolding u_def xs_def ys_def by (rule id_take_nth_drop [OF i])
  have s1: "s1 = mt_free u (s\<lparr>ms_tracks := xs @ ys\<rparr>)" by (simp only: s1_def u_def xs_def ys_def)
  show "ms_inv rest s1" using inv by (simp add: ms_inv_def s1 mt_free_blocks ts)
  have "rec_id u \<notin> rec_id ` set (ms_tracks s1)" using inv by (auto simp: ms_inv_def s1 ts)
  then show "rec_id (ms_tracks s ! i) \<notin> rec_id ` set (ms_tracks s1)" unfolding u_def .
  show "set (ms_tracks s1) \<subseteq> set (ms_tracks s)" by (auto simp: s1 ts)
  have "t \<in> set (ms_tracks s) \<Longrightarrow> rec_id t \<noteq> rec_id u \<Longrightarrow> t \<in> set (ms_tracks s1)" by (auto simp: s1 ts)
  then show "t \<in> set (ms_tracks s) \<Longrightarrow> rec_id t \<noteq> rec_id (ms_tracks s ! i) \<Longrightarrow> t \<in> set (ms_tracks s1)" unfolding u_def .
qed

lemma found_got:
  assumes "ms_inv rest s" and "i < length (ms_tracks s)" and "rec_id (ms_tracks s ! i) = x"
  shows "got_record rest x (mt_track_key (ms_tracks s ! i)) s (Some i) s"
  using assms by (simp add: got_record_def)

lemma found_unique:
  assumes "ms_inv rest s" and "i < length (ms_tracks s)" and "t \<in> set (ms_tracks s)" and "rec_id t = rec_id (ms_tracks s ! i)"
  shows "t = ms_tracks s ! i"
proof -
  have "inj_on rec_id (set (ms_tracks s))" using assms(1) by (simp add: ms_inv_def distinct_map)
  then show ?thesis by (rule inj_onD) (use assms(2-4) in simp_all)
qed

text \<open>A record of the alias for the Track it names now is returned as it is; otherwise a new one is made.\<close>

lemma alias_got:
  assumes inv: "ms_inv rest s" and k: "ms_alias_key s alias = Some k" and ne: "k \<noteq> []" and "ms_local s"
    and call: "mt_track_for_alias s alias = (rc, r, s')"
  defines "kept \<equiv> \<lambda>t. t \<in> set (ms_tracks s) \<and> rec_id t = (MT_KIND_ALIAS, alias) \<and> mt_track_key t = k"
  shows "got_record rest (MT_KIND_ALIAS, alias) k s r s'
     \<and> (\<forall>t. kept t \<longrightarrow> rc = MOQ_OK \<and> s' = s \<and> (\<exists>i < length (ms_tracks s). r = Some i \<and> ms_tracks s ! i = t))
     \<and> ((\<nexists>t. kept t) \<longrightarrow> (\<forall>i. r = Some i \<longrightarrow> rc = MOQ_OK \<and> ms_tracks s' ! i = new_record MT_KIND_ALIAS alias k)
          \<and> (r = None \<longrightarrow> record_refused s rc s' \<and> (MT_KIND_ALIAS, alias) \<notin> rec_id ` set (ms_tracks s')))"
proof (cases "first_index (\<lambda>t. mt_kind_of t = MT_KIND_ALIAS \<and> mt_key t = alias) (ms_tracks s)")
  case None
  then have fresh: "(MT_KIND_ALIAS, alias) \<notin> rec_id ` set (ms_tracks s)" by (auto simp: first_index_None_iff)
  moreover have "mt_new s MT_KIND_ALIAS alias k = (rc, r, s')" using call assms(2,4) None by (simp add: mt_track_for_alias_def)
  ultimately have n: "got_record rest (MT_KIND_ALIAS, alias) k s r s'
    \<and> (\<forall>i. r = Some i \<longrightarrow> rc = MOQ_OK \<and> ms_tracks s' ! i = new_record MT_KIND_ALIAS alias k)
    \<and> (r = None \<longrightarrow> record_refused s rc s' \<and> (MT_KIND_ALIAS, alias) \<notin> rec_id ` set (ms_tracks s'))"
    by (rule mt_new_got [OF inv])
  have "\<not> kept t" for t using fresh unfolding kept_def by force
  then show ?thesis using n by blast
next
  case (Some i)
  then have i: "i < length (ms_tracks s)" "rec_id (ms_tracks s ! i) = (MT_KIND_ALIAS, alias)"
    by (auto simp: first_index_Some_iff)
  have kept: "kept t \<longleftrightarrow> t = ms_tracks s ! i \<and> mt_track_key (ms_tracks s ! i) = k" for t
    using found_unique [OF inv i(1), of t] i by (auto simp: kept_def)
  show ?thesis
  proof (cases "mt_track_key (ms_tracks s ! i) = k")
    case True
    then have "rc = MOQ_OK" "r = Some i" "s' = s" using call assms(2-4) Some by (simp_all add: mt_track_for_alias_def key_eq_def)
    then show ?thesis using found_got [OF inv i] True i(1) by (auto simp: kept)
  next
    case False
    define s1 where "s1 = mt_free (ms_tracks s ! i) (s\<lparr>ms_tracks := take i (ms_tracks s) @ drop (Suc i) (ms_tracks s)\<rparr>)"
    note u = unlink_inv [OF inv i(1), folded s1_def]
    have "mt_new s1 MT_KIND_ALIAS alias k = (rc, r, s')"
      using call assms(2,4) Some False by (simp add: mt_track_for_alias_def key_eq_def s1_def)
    then have n: "got_record rest (MT_KIND_ALIAS, alias) k s1 r s'
        \<and> (\<forall>i. r = Some i \<longrightarrow> rc = MOQ_OK \<and> ms_tracks s' ! i = new_record MT_KIND_ALIAS alias k)
        \<and> (r = None \<longrightarrow> record_refused s1 rc s' \<and> (MT_KIND_ALIAS, alias) \<notin> rec_id ` set (ms_tracks s'))"
      by (rule mt_new_got [OF u(1) u(2) [unfolded i(2)]])
    have alive: "mt_alive s1 = mt_alive s" by (simp add: s1_def fun_eq_iff)
    have "record_refused s1 = record_refused s" by (simp add: s1_def fun_eq_iff record_refused_def)
    moreover have "got_record rest (MT_KIND_ALIAS, alias) k s r s'"
      using conjunct1 [OF n] u(3,4) i(2) alive unfolding got_record_def by (simp add: subset_iff) blast
    ultimately show ?thesis using n False by (simp add: kept)
  qed
qed

lemma fetch_got:
  assumes inv: "ms_inv rest s" and "ms_fetch_live s fetch" and "ms_local s"
    and call: "mt_track_for_fetch s fetch = (rc, r, s')"
  shows "\<exists>k. got_record rest (MT_KIND_FETCH, fetch) k s r s'"
proof (cases "first_index (\<lambda>t. mt_kind_of t = MT_KIND_FETCH \<and> mt_key t = fetch) (ms_tracks s)")
  case None
  then have "(MT_KIND_FETCH, fetch) \<notin> rec_id ` set (ms_tracks s)" by (auto simp: first_index_None_iff)
  moreover have "mt_new s MT_KIND_FETCH fetch [] = (rc, r, s')" using call assms(2,3) None by (simp add: mt_track_for_fetch_def)
  ultimately show ?thesis using mt_new_got [OF inv] by blast
next
  case (Some i)
  then have i: "i < length (ms_tracks s)" "rec_id (ms_tracks s ! i) = (MT_KIND_FETCH, fetch)"
    by (auto simp: first_index_Some_iff)
  have "r = Some i" "s' = s" using call assms(2,3) Some by (simp_all add: mt_track_for_fetch_def)
  then show ?thesis using found_got [OF inv i] by blast
qed

lemma destroy_loop:
  "ms_tracks (mt_destroy_loop ts s) = []"
  "ms_count (mt_destroy_loop ts s) = ms_count s - length ts"
  "mset (h_blocks (ms_heap (mt_destroy_loop ts s))) = mset (h_blocks (ms_heap s)) - mset (map rec_size ts)"
  by (induction ts arbitrary: s) (simp_all add: mt_free_blocks)

section \<open>Properties\<close>

text \<open>C35: A received Track has one record, which holds the history of that Track and of no other. When the
  session has a record of the alias for the Track the alias names now, \<open>mt_track_for_alias\<close> returns that
  record and changes nothing. Otherwise the record of a Track the alias named before is released and a new, empty
  record with the key of the Track is returned; none is returned only when the capacity is used up by live
  records, or with \<open>MOQ_ERR_NOMEM\<close> when the allocator refused. No live record of another alias or of a fetch is
  lost, the list has one record per alias and fetch and stays within the session's capacity, and the memory of
  every record is accounted for until \<open>mt_destroy_all\<close> returns all of it. Keys are not empty (\<open>sub_key\<close> and
  \<open>pub_key\<close> give no others).\<close>

theorem alias_record_current:
  assumes "ms_inv rest s" and "ms_alias_key s alias = Some k" and "k \<noteq> []" and "ms_local s"
    and "mt_track_for_alias s alias = (rc, r, s')"
  shows "ms_inv rest s'
     \<and> (\<forall>t \<in> set (ms_tracks s). rec_id t \<noteq> (MT_KIND_ALIAS, alias) \<longrightarrow> mt_alive s t \<longrightarrow> t \<in> set (ms_tracks s'))
     \<and> (\<forall>t \<in> set (ms_tracks s). rec_id t = (MT_KIND_ALIAS, alias) \<and> mt_track_key t = k \<longrightarrow>
          rc = MOQ_OK \<and> s' = s \<and> (\<exists>i < length (ms_tracks s). r = Some i \<and> ms_tracks s ! i = t))
     \<and> ((\<forall>t \<in> set (ms_tracks s). rec_id t = (MT_KIND_ALIAS, alias) \<longrightarrow> mt_track_key t \<noteq> k) \<longrightarrow>
          (case r of
             Some i \<Rightarrow> rc = MOQ_OK \<and> i < length (ms_tracks s') \<and> ms_tracks s' ! i = new_record MT_KIND_ALIAS alias k
           | None \<Rightarrow> record_refused s rc s' \<and> (MT_KIND_ALIAS, alias) \<notin> rec_id ` set (ms_tracks s')))
     \<and> ms_tracks (mt_destroy_all s') = [] \<and> mset (h_blocks (ms_heap (mt_destroy_all s'))) = rest"
proof -
  note g = alias_got [OF assms]
  have inv: "ms_inv rest s'" using g by (simp add: got_record_def)
  then have "mset (h_blocks (ms_heap (mt_destroy_all s'))) = rest"
    by (simp add: ms_inv_def mt_destroy_all_def destroy_loop)
  moreover have "ms_tracks (mt_destroy_all s') = []" by (simp add: mt_destroy_all_def destroy_loop)
  moreover have "\<forall>t \<in> set (ms_tracks s). rec_id t \<noteq> (MT_KIND_ALIAS, alias) \<longrightarrow> mt_alive s t \<longrightarrow> t \<in> set (ms_tracks s')"
    using conjunct1 [OF g] by (simp add: got_record_def)
  moreover have "\<forall>t \<in> set (ms_tracks s). rec_id t = (MT_KIND_ALIAS, alias) \<and> mt_track_key t = k \<longrightarrow>
      rc = MOQ_OK \<and> s' = s \<and> (\<exists>i < length (ms_tracks s). r = Some i \<and> ms_tracks s ! i = t)"
    using conjunct1 [OF conjunct2 [OF g]] by blast
  moreover have "case r of
        Some i \<Rightarrow> rc = MOQ_OK \<and> i < length (ms_tracks s') \<and> ms_tracks s' ! i = new_record MT_KIND_ALIAS alias k
      | None \<Rightarrow> record_refused s rc s' \<and> (MT_KIND_ALIAS, alias) \<notin> rec_id ` set (ms_tracks s')"
    if none: "\<forall>t \<in> set (ms_tracks s). rec_id t = (MT_KIND_ALIAS, alias) \<longrightarrow> mt_track_key t \<noteq> k"
  proof -
    have "(\<forall>i. r = Some i \<longrightarrow> rc = MOQ_OK \<and> ms_tracks s' ! i = new_record MT_KIND_ALIAS alias k)
        \<and> (r = None \<longrightarrow> record_refused s rc s' \<and> (MT_KIND_ALIAS, alias) \<notin> rec_id ` set (ms_tracks s'))"
      by (rule mp [OF conjunct2 [OF conjunct2 [OF g]]]) (use none in blast)
    moreover have "i < length (ms_tracks s')" if "r = Some i" for i using conjunct1 [OF g] that by (simp add: got_record_def)
    ultimately show ?thesis by (simp split: option.split)
  qed
  ultimately show ?thesis using inv by blast
qed

text \<open>A session whose alias 7 has a record of the Track with key 1, with an object heard, and names that Track or
  the one with key 2.\<close>

definition wit_record :: moq_mt_track where
  "wit_record = (new_record MT_KIND_ALIAS 7 [1])\<lparr>mt_clock := 1, mt_has_track_end := True, mt_end_group := 4\<rparr>"

definition wit_session :: "u8 list \<Rightarrow> mt_session" where
  "wit_session k = \<lparr>ms_tracks = [wit_record], ms_count = 1, ms_cap = 4,
     ms_heap = \<lparr>h_grant = \<lambda>_. True, h_calls = 1, h_blocks = [MT_TRACK_SIZEOF + 1]\<rparr>, ms_local = True,
     ms_alias_key = (\<lambda>a. if a = 7 then Some k else None), ms_fetch_live = (\<lambda>_. False)\<rparr>"

theorem alias_record_current_witness:
  "mt_track_for_alias (wit_session [1]) 7 = (MOQ_OK, Some 0, wit_session [1])
   \<and> (case mt_track_for_alias (wit_session [2]) 7 of (rc, r, s') \<Rightarrow>
        (case r of Some i \<Rightarrow> ms_tracks s' ! i = new_record MT_KIND_ALIAS 7 [2] | None \<Rightarrow> rc = MOQ_OK \<and> length (ms_tracks s') = 4)
        \<and> h_blocks (ms_heap (mt_destroy_all s')) = [])"
proof -
  have rec: "rec_id wit_record = (MT_KIND_ALIAS, 7)" "mt_track_key wit_record = [1]"
    by (simp_all add: wit_record_def new_record_def)
  have s: "ms_inv {#} (wit_session k)" "ms_alias_key (wit_session k) 7 = Some k" "ms_local (wit_session k)"
      "ms_tracks (wit_session k) = [wit_record]" for k
    using rec by (simp_all add: ms_inv_def wit_session_def)
  obtain rc1 r1 s1 where c1: "mt_track_for_alias (wit_session [1]) 7 = (rc1, r1, s1)" by (cases "mt_track_for_alias (wit_session [1]) 7")
  obtain rc2 r2 s2 where c2: "mt_track_for_alias (wit_session [2]) 7 = (rc2, r2, s2)" by (cases "mt_track_for_alias (wit_session [2]) 7")
  have "rc1 = MOQ_OK \<and> r1 = Some 0 \<and> s1 = wit_session [1]"
    using alias_record_current [OF s(1,2) _ s(3) c1] rec by (simp add: s(4))
  moreover have "case r2 of Some i \<Rightarrow> ms_tracks s2 ! i = new_record MT_KIND_ALIAS 7 [2] | None \<Rightarrow> rc2 = MOQ_OK \<and> length (ms_tracks s2) = 4"
      "h_blocks (ms_heap (mt_destroy_all s2)) = []"
    using alias_record_current [OF s(1,2) _ s(3) c2] rec
    by (auto simp: s(4) record_refused_def wit_session_def split: option.splits)
  ultimately show ?thesis by (simp add: c1 c2)
qed

end
