(* ===== verification/Rcbuf.thy ===== *)
theory Rcbuf
  imports Heap Buf
begin

text \<open>
  Reference counted buffers (\<open>core/src/base/rcbuf.c\<close>). The buffers of a shard are a store in which an
  address is an index and an address that was freed is never given out again, so a pointer kept too
  long is an access to an empty cell. A buffer holds its bytes behind its header, wraps bytes of the
  caller, or is a slice of another buffer; the caller's regions are read only while a buffer wraps
  them. Each buffer remembers the allocator it came from.

  The clients of the module are a step relation with the references they hold. The lemmas show that
  the counts equal the references, that every held buffer reads the bytes it was made with, that
  memory is accounted for in each allocator, and that release callbacks run once.
\<close>

section \<open>Buffers and pointers into them\<close>

datatype data_base = Inline nat | Extern nat

datatype data_ptr = NoData | At data_base nat

text \<open>\<open>rb_payload\<close> are the bytes behind the header; \<open>rb_release\<close> names a callback and its context.\<close>

record moq_rcbuf =
  rb_alloc :: nat
  rb_refcount :: u32
  rb_wrapped :: bool
  rb_sliced :: bool
  rb_len :: nat
  rb_external :: data_ptr
  rb_release :: "nat option"
  rb_parent :: "nat option"
  rb_payload :: "u8 list"

text \<open>\<open>rs_extern\<close> is the memory of the callers, \<open>rs_dirty\<close> what fresh memory at an address holds, and
  \<open>rs_released\<close> the calls of release callbacks so far, with the buffer's address.\<close>

record rcbuf_state =
  rs_bufs :: "moq_rcbuf option list"
  rs_heaps :: "nat \<Rightarrow> moq_heap"
  rs_extern :: "nat \<Rightarrow> u8 list"
  rs_dirty :: "nat \<Rightarrow> nat \<Rightarrow> u8"
  rs_released :: "(nat \<times> nat \<times> data_ptr \<times> nat) list"

abbreviation RCBUF_SIZEOF :: nat where "RCBUF_SIZEOF \<equiv> 80"

definition rcbuf_at :: "nat \<Rightarrow> rcbuf_state \<Rightarrow> moq_rcbuf option" where
  "rcbuf_at a s = (if a < length (rs_bufs s) then rs_bufs s ! a else None)"

definition rcbuf_put :: "nat \<Rightarrow> moq_rcbuf option \<Rightarrow> rcbuf_state \<Rightarrow> rcbuf_state" where
  "rcbuf_put a b s = s\<lparr>rs_bufs := (rs_bufs s)[a := b]\<rparr>"

text \<open>Reading \<open>n\<close> bytes through a pointer: \<open>None\<close> when it does not point to that many live bytes.\<close>

definition ptr_bytes :: "rcbuf_state \<Rightarrow> data_ptr \<Rightarrow> nat \<Rightarrow> u8 list option" where
  "ptr_bytes s p n =
     (case p of
        NoData \<Rightarrow> if n = 0 then Some [] else None
      | At base off \<Rightarrow>
          (case (case base of Inline a \<Rightarrow> map_option rb_payload (rcbuf_at a s) | Extern x \<Rightarrow> Some (rs_extern s x)) of
             None \<Rightarrow> None
           | Some bs \<Rightarrow> if off + n \<le> length bs then Some (take n (drop off bs)) else None))"

section \<open>The operations\<close>

definition moq_rcbuf_allocation_size :: "nat \<Rightarrow> moq_result + nat" where
  "moq_rcbuf_allocation_size payload_len =
     (if 2 ^ 64 \<le> RCBUF_SIZEOF + payload_len then Inl MOQ_ERR_INVAL else Inr (RCBUF_SIZEOF + payload_len))"

text \<open>A block of \<open>n\<close> bytes of allocator \<open>i\<close> that becomes the buffer \<open>b\<close>; its address, or none.\<close>

definition rcbuf_alloc :: "nat \<Rightarrow> nat \<Rightarrow> moq_rcbuf \<Rightarrow> rcbuf_state \<Rightarrow> nat option \<times> rcbuf_state" where
  "rcbuf_alloc i n b s =
     (case heap_alloc n (rs_heaps s i) of
        (granted, h) \<Rightarrow>
          let s = s\<lparr>rs_heaps := (rs_heaps s)(i := h)\<rparr> in
          if granted then (Some (length (rs_bufs s)), s\<lparr>rs_bufs := rs_bufs s @ [Some b]\<rparr>) else (None, s))"

text \<open>An allocator that is missing or lacks a function is \<open>None\<close>. The result of \<open>moq_rcbuf_alloc_uninit\<close> is
  \<open>*out\<close>, with \<open>*data_out\<close> the pointer to its inline bytes.\<close>

definition moq_rcbuf_alloc_uninit :: "nat option \<Rightarrow> nat \<Rightarrow> rcbuf_state \<Rightarrow> (moq_result + nat) \<times> rcbuf_state" where
  "moq_rcbuf_alloc_uninit alloc len s =
     (case alloc of
        None \<Rightarrow> (Inl MOQ_ERR_INVAL, s)
      | Some i \<Rightarrow>
          (case moq_rcbuf_allocation_size len of
             Inl rc \<Rightarrow> (Inl rc, s)
           | Inr n \<Rightarrow>
               (case rcbuf_alloc i n
                       \<lparr>rb_alloc = i, rb_refcount = 1, rb_wrapped = False, rb_sliced = False, rb_len = len,
                        rb_external = NoData, rb_release = None, rb_parent = None,
                        rb_payload = map (rs_dirty s (length (rs_bufs s))) [0..<len]\<rparr> s of
                  (None, s) \<Rightarrow> (Inl MOQ_ERR_NOMEM, s)
                | (Some a, s) \<Rightarrow> (Inr a, s))))"

text \<open>\<open>memcpy\<close> to the inline bytes of a buffer.\<close>

definition rcbuf_fill :: "nat \<Rightarrow> u8 list \<Rightarrow> rcbuf_state \<Rightarrow> rcbuf_state" where
  "rcbuf_fill a bs s =
     (case rcbuf_at a s of
        None \<Rightarrow> s
      | Some b \<Rightarrow> rcbuf_put a (Some (b\<lparr>rb_payload := bs @ drop (length bs) (rb_payload b)\<rparr>)) s)"

definition moq_rcbuf_create :: "nat option \<Rightarrow> moq_bytes \<Rightarrow> rcbuf_state \<Rightarrow> (moq_result + nat) \<times> rcbuf_state" where
  "moq_rcbuf_create alloc data s =
     (if 0 < plen data \<and> is_null data then (Inl MOQ_ERR_INVAL, s)
      else case moq_rcbuf_alloc_uninit alloc (plen data) s of
        (Inl rc, s) \<Rightarrow> (Inl rc, s)
      | (Inr a, s) \<Rightarrow> (Inr a, if 0 < plen data then rcbuf_fill a (elems data) s else s))"

definition moq_rcbuf_wrap :: "nat option \<Rightarrow> data_ptr \<Rightarrow> nat \<Rightarrow> nat option \<Rightarrow> rcbuf_state \<Rightarrow> (moq_result + nat) \<times> rcbuf_state" where
  "moq_rcbuf_wrap alloc data len release s =
     (case alloc of
        None \<Rightarrow> (Inl MOQ_ERR_INVAL, s)
      | Some i \<Rightarrow>
          if 0 < len \<and> data = NoData then (Inl MOQ_ERR_INVAL, s)
          else case rcbuf_alloc i RCBUF_SIZEOF
                      \<lparr>rb_alloc = i, rb_refcount = 1, rb_wrapped = True, rb_sliced = False, rb_len = len,
                       rb_external = data, rb_release = release, rb_parent = None, rb_payload = []\<rparr> s of
            (None, s) \<Rightarrow> (Inl MOQ_ERR_NOMEM, s)
          | (Some a, s) \<Rightarrow> (Inr a, s))"

text \<open>A buffer pointer is \<open>None\<close> for NULL. Reading a buffer that was freed has no defined result; the model
  gives NULL, and no client step does it.\<close>

definition moq_rcbuf_data :: "nat option \<Rightarrow> rcbuf_state \<Rightarrow> data_ptr" where
  "moq_rcbuf_data buf s =
     (case buf of
        None \<Rightarrow> NoData
      | Some a \<Rightarrow>
          (case rcbuf_at a s of
             None \<Rightarrow> NoData
           | Some b \<Rightarrow> if rb_wrapped b \<or> rb_sliced b then rb_external b else At (Inline a) 0))"

definition moq_rcbuf_len :: "nat option \<Rightarrow> rcbuf_state \<Rightarrow> nat" where
  "moq_rcbuf_len buf s = (case buf of None \<Rightarrow> 0 | Some a \<Rightarrow> (case rcbuf_at a s of None \<Rightarrow> 0 | Some b \<Rightarrow> rb_len b))"

definition moq_rcbuf_refcount :: "nat option \<Rightarrow> rcbuf_state \<Rightarrow> u32" where
  "moq_rcbuf_refcount buf s =
     (case buf of None \<Rightarrow> 0 | Some a \<Rightarrow> (case rcbuf_at a s of None \<Rightarrow> 0 | Some b \<Rightarrow> rb_refcount b))"

text \<open>\<open>None\<close>: the process is aborted.\<close>

definition moq_rcbuf_incref :: "nat option \<Rightarrow> rcbuf_state \<Rightarrow> rcbuf_state option" where
  "moq_rcbuf_incref buf s =
     (case buf of
        None \<Rightarrow> Some s
      | Some a \<Rightarrow>
          (case rcbuf_at a s of
             None \<Rightarrow> None
           | Some b \<Rightarrow>
               if rb_refcount b = 0xFFFFFFFF then None
               else Some (rcbuf_put a (Some (b\<lparr>rb_refcount := rb_refcount b + 1\<rparr>)) s)))"

text \<open>Pointer arithmetic inside one region.\<close>

definition ptr_diff :: "data_ptr \<Rightarrow> data_ptr \<Rightarrow> nat" where
  "ptr_diff p q = (case (p, q) of (At b m, At c n) \<Rightarrow> m - n | _ \<Rightarrow> 0)"

definition ptr_add :: "data_ptr \<Rightarrow> nat \<Rightarrow> data_ptr" where
  "ptr_add p n = (case p of NoData \<Rightarrow> NoData | At b m \<Rightarrow> At b (m + n))"

definition slice_root :: "nat \<Rightarrow> moq_rcbuf \<Rightarrow> nat option" where
  "slice_root a parent = (if rb_sliced parent then rb_parent parent else Some a)"

definition moq_rcbuf_slice ::
  "nat option \<Rightarrow> nat option \<Rightarrow> nat \<Rightarrow> nat \<Rightarrow> rcbuf_state \<Rightarrow> ((moq_result + nat) \<times> rcbuf_state) option" where
  "moq_rcbuf_slice alloc parent offset len s =
     (case (alloc, parent) of
        (Some i, Some pa) \<Rightarrow>
          (case rcbuf_at pa s of
             None \<Rightarrow> None
           | Some p \<Rightarrow>
               if 2 ^ 64 \<le> offset + len then Some (Inl MOQ_ERR_INVAL, s)
               else if 0 < len \<and> rb_len p < offset + len then Some (Inl MOQ_ERR_INVAL, s)
               else if len = 0 \<and> rb_len p < offset then Some (Inl MOQ_ERR_INVAL, s)
               else
                 let root = slice_root pa p; root_data = moq_rcbuf_data root s;
                     parent_data = moq_rcbuf_data (Some pa) s;
                     root_offset = (if root_data \<noteq> NoData \<and> parent_data \<noteq> NoData
                                    then ptr_diff parent_data root_data + offset else offset) in
                 (case rcbuf_alloc i RCBUF_SIZEOF
                         \<lparr>rb_alloc = i, rb_refcount = 1, rb_wrapped = False, rb_sliced = True, rb_len = len,
                          rb_external = (if root_data \<noteq> NoData then ptr_add root_data root_offset else NoData),
                          rb_release = None, rb_parent = root, rb_payload = []\<rparr> s of
                    (None, s) \<Rightarrow> Some (Inl MOQ_ERR_NOMEM, s)
                  | (Some a, s) \<Rightarrow> map_option (Pair (Inr a)) (moq_rcbuf_incref root s)))
      | _ \<Rightarrow> Some (Inl MOQ_ERR_INVAL, s))"

text \<open>\<open>moq_rcbuf_clone\<close> copies the visible bytes, as \<open>moq_rcbuf_create\<close> does from that pointer.\<close>

definition moq_rcbuf_clone :: "nat option \<Rightarrow> nat option \<Rightarrow> rcbuf_state \<Rightarrow> (moq_result + nat) \<times> rcbuf_state" where
  "moq_rcbuf_clone dst_alloc src s =
     (case (dst_alloc, src) of
        (Some i, Some a) \<Rightarrow>
          moq_rcbuf_create (Some i)
            (case ptr_bytes s (moq_rcbuf_data src s) (moq_rcbuf_len src s) of
               None \<Rightarrow> Null (moq_rcbuf_len src s) | Some bs \<Rightarrow> Arr bs) s
      | _ \<Rightarrow> (Inl MOQ_ERR_INVAL, s))"

definition live_bufs :: "rcbuf_state \<Rightarrow> nat" where
  "live_bufs s = length (filter (\<lambda>b. b \<noteq> None) (rs_bufs s))"

definition rcbuf_free :: "nat \<Rightarrow> moq_rcbuf \<Rightarrow> nat \<Rightarrow> rcbuf_state \<Rightarrow> rcbuf_state" where
  "rcbuf_free a b n s =
     (rcbuf_put a None s)\<lparr>rs_heaps := (rs_heaps s)(rb_alloc b := heap_free n (rs_heaps s (rb_alloc b)))\<rparr>"

lemma live_bufs_free:
  assumes "rcbuf_at a s = Some b"
  shows "live_bufs (rcbuf_free a c n s) < live_bufs s"
proof -
  have a: "a < length (rs_bufs s)" "rs_bufs s ! a = Some b"
    using assms by (auto simp: rcbuf_at_def split: if_splits)
  let ?P = "\<lambda>b :: moq_rcbuf option. b \<noteq> None"
  have "length (filter ?P (rs_bufs s)) = length (filter ?P (take a (rs_bufs s) @ Some b # drop (Suc a) (rs_bufs s)))"
    using id_take_nth_drop [OF a(1)] a(2) by simp
  then show ?thesis
    using a by (simp add: live_bufs_def rcbuf_free_def rcbuf_put_def upd_conv_take_nth_drop)
qed

function moq_rcbuf_decref :: "nat option \<Rightarrow> rcbuf_state \<Rightarrow> rcbuf_state" where
  "moq_rcbuf_decref buf s =
     (case buf of
        None \<Rightarrow> s
      | Some a \<Rightarrow>
          (case rcbuf_at a s of
             None \<Rightarrow> s
           | Some b \<Rightarrow>
               if rb_refcount b - 1 \<noteq> 0 then rcbuf_put a (Some (b\<lparr>rb_refcount := rb_refcount b - 1\<rparr>)) s
               else if rb_sliced b then moq_rcbuf_decref (rb_parent b) (rcbuf_free a b RCBUF_SIZEOF s)
               else if rb_wrapped b then
                 rcbuf_free a b RCBUF_SIZEOF
                   (case rb_release b of
                      None \<Rightarrow> s
                    | Some f \<Rightarrow> s\<lparr>rs_released := rs_released s @ [(a, f, rb_external b, rb_len b)]\<rparr>)
               else rcbuf_free a b (RCBUF_SIZEOF + rb_len b) s))"
  by pat_completeness auto
termination
  by (relation "measure (live_bufs \<circ> snd)") (auto intro: live_bufs_free)

declare moq_rcbuf_decref.simps [simp del]

section \<open>Tallies over the live buffers\<close>

text \<open>What the live buffers contribute to a multiset, each by its address and its contents.\<close>

definition contribution :: "(nat \<Rightarrow> moq_rcbuf \<Rightarrow> 'x multiset) \<Rightarrow> nat \<Rightarrow> rcbuf_state \<Rightarrow> 'x multiset" where
  "contribution f a s = (case rcbuf_at a s of None \<Rightarrow> {#} | Some b \<Rightarrow> f a b)"

definition tally :: "(nat \<Rightarrow> moq_rcbuf \<Rightarrow> 'x multiset) \<Rightarrow> rcbuf_state \<Rightarrow> 'x multiset" where
  "tally f s = (\<Sum>a < length (rs_bufs s). contribution f a s)"

lemma rcbuf_at_cong: "rs_bufs t = rs_bufs s \<Longrightarrow> rcbuf_at a t = rcbuf_at a s"
  by (simp add: rcbuf_at_def)

lemma rcbuf_at_less: "rcbuf_at a s = Some b \<Longrightarrow> a < length (rs_bufs s)"
  by (simp add: rcbuf_at_def split: if_splits)

lemma rcbuf_at_put: "rcbuf_at c (rcbuf_put a b s) = (if c = a \<and> a < length (rs_bufs s) then b else rcbuf_at c s)"
  by (simp add: rcbuf_at_def rcbuf_put_def nth_list_update)

lemma rcbuf_put_fields [simp]:
  "length (rs_bufs (rcbuf_put a b s)) = length (rs_bufs s)" "rs_heaps (rcbuf_put a b s) = rs_heaps s"
  "rs_extern (rcbuf_put a b s) = rs_extern s" "rs_dirty (rcbuf_put a b s) = rs_dirty s" "rs_released (rcbuf_put a b s) = rs_released s"
  by (simp_all add: rcbuf_put_def)

lemma tally_cong:
  "rs_bufs t = rs_bufs s \<Longrightarrow> tally f t = tally f s"
  by (simp add: tally_def contribution_def rcbuf_at_cong [of t s])

lemma tally_put:
  assumes "rcbuf_at a s = Some b"
  shows "tally f (rcbuf_put a b' s) + f a b = tally f s + (case b' of None \<Rightarrow> {#} | Some c \<Rightarrow> f a c)"
proof -
  let ?A = "{..<length (rs_bufs s)}"
  have a: "a \<in> ?A" using rcbuf_at_less [OF assms] by simp
  have rest: "(\<Sum>c \<in> ?A - {a}. contribution f c (rcbuf_put a b' s)) = (\<Sum>c \<in> ?A - {a}. contribution f c s)"
    by (rule sum.cong) (auto simp: contribution_def rcbuf_at_put)
  show ?thesis
    using assms a by (simp add: tally_def sum.remove [OF finite_lessThan a] rest)
      (simp add: contribution_def rcbuf_at_put)
qed

lemma tally_append:
  assumes "rs_bufs t = rs_bufs s @ [Some b]"
  shows "tally f t = tally f s + f (length (rs_bufs s)) b"
proof -
  have "contribution f c t = contribution f c s" if "c < length (rs_bufs s)" for c
    using that assms by (simp add: contribution_def rcbuf_at_def nth_append)
  then show ?thesis
    using assms by (simp add: tally_def) (simp add: contribution_def rcbuf_at_def)
qed

lemma tally_member: "rcbuf_at a s = Some b \<Longrightarrow> f a b \<subseteq># tally f s"
  using tally_put [of a s b f None] by (metis add.commute add.right_neutral mset_subset_eq_add_left option.case(1))

lemma tally_witness:
  assumes "x \<in># tally f s" obtains a b where "rcbuf_at a s = Some b" "x \<in># f a b"
proof -
  have "\<exists>a \<in> {..<length (rs_bufs s)}. x \<in># contribution f a s"
    using assms by (simp add: tally_def set_mset_sum)
  then show thesis using that by (auto simp: contribution_def split: option.splits)
qed

section \<open>The invariant\<close>

definition parent_of :: "nat \<Rightarrow> moq_rcbuf \<Rightarrow> nat multiset" where
  "parent_of a b = (if rb_sliced b then case rb_parent b of None \<Rightarrow> {#} | Some p \<Rightarrow> {#p#} else {#})"

definition block_of :: "nat \<Rightarrow> nat \<Rightarrow> moq_rcbuf \<Rightarrow> nat multiset" where
  "block_of i a b =
     (if rb_alloc b = i then {#if rb_wrapped b \<or> rb_sliced b then RCBUF_SIZEOF else RCBUF_SIZEOF + rb_len b#} else {#})"

definition release_of :: "nat \<Rightarrow> moq_rcbuf \<Rightarrow> (nat \<times> nat \<times> data_ptr \<times> nat) multiset" where
  "release_of a b =
     (if rb_wrapped b then case rb_release b of None \<Rightarrow> {#} | Some f \<Rightarrow> {#(a, f, rb_external b, rb_len b)#} else {#})"

definition rc_counts :: "nat multiset \<Rightarrow> rcbuf_state \<Rightarrow> bool" where
  "rc_counts own s \<longleftrightarrow>
     (\<forall>a. unat (moq_rcbuf_refcount (Some a) s) = count own a + count (tally parent_of s) a)
     \<and> (\<forall>a b. rcbuf_at a s = Some b \<longrightarrow> rb_refcount b \<noteq> 0)"

definition rc_shape :: "rcbuf_state \<Rightarrow> bool" where
  "rc_shape s \<longleftrightarrow> (\<forall>a b. rcbuf_at a s = Some b \<longrightarrow>
     (if rb_sliced b then \<not> rb_wrapped b \<and> (\<exists>p pb k. rb_parent b = Some p \<and> rcbuf_at p s = Some pb \<and> \<not> rb_sliced pb
        \<and> rb_external b = ptr_add (moq_rcbuf_data (Some p) s) k)
      else rb_wrapped b \<longrightarrow> (\<forall>c off. rb_external b \<noteq> At (Inline c) off)))"

definition rc_views :: "(nat \<Rightarrow> u8 list) \<Rightarrow> rcbuf_state \<Rightarrow> bool" where
  "rc_views view s \<longleftrightarrow> (\<forall>a b. rcbuf_at a s = Some b \<longrightarrow>
     ptr_bytes s (moq_rcbuf_data (Some a) s) (rb_len b) = Some (view a))"

definition rc_memory :: "(nat \<Rightarrow> nat multiset) \<Rightarrow> rcbuf_state \<Rightarrow> bool" where
  "rc_memory base s \<longleftrightarrow> (\<forall>i. mset (h_blocks (rs_heaps s i)) = base i + tally (block_of i) s)"

definition rc_due :: "(nat \<times> nat \<times> data_ptr \<times> nat) multiset \<Rightarrow> rcbuf_state \<Rightarrow> bool" where
  "rc_due due s \<longleftrightarrow> due = mset (rs_released s) + tally release_of s"

definition rc_inv where
  "rc_inv base own view due s \<longleftrightarrow>
     rc_counts own s \<and> rc_shape s \<and> rc_views view s \<and> rc_memory base s \<and> rc_due due s"

text \<open>A change of a count leaves everything else as it is.\<close>

lemma data_put_count [simp]:
  "rcbuf_at a s = Some b \<Longrightarrow> moq_rcbuf_data c (rcbuf_put a (Some (b\<lparr>rb_refcount := n\<rparr>)) s) = moq_rcbuf_data c s"
  by (auto simp: moq_rcbuf_data_def rcbuf_at_put split: option.splits)

lemma bytes_put_count [simp]:
  "rcbuf_at a s = Some b \<Longrightarrow> ptr_bytes (rcbuf_put a (Some (b\<lparr>rb_refcount := n\<rparr>)) s) p k = ptr_bytes s p k"
  by (auto simp: ptr_bytes_def rcbuf_at_put split: data_ptr.splits data_base.splits option.splits)

lemma tally_put_count:
  assumes "rcbuf_at a s = Some b" and "f a (b\<lparr>rb_refcount := n\<rparr>) = f a b"
  shows "tally f (rcbuf_put a (Some (b\<lparr>rb_refcount := n\<rparr>)) s) = tally f s"
  using tally_put [OF assms(1), of f "Some (b\<lparr>rb_refcount := n\<rparr>)"] assms(2) by simp

lemma contributions_count [simp]:
  "parent_of a (b\<lparr>rb_refcount := n\<rparr>) = parent_of a b" "block_of i a (b\<lparr>rb_refcount := n\<rparr>) = block_of i a b"
  "release_of a (b\<lparr>rb_refcount := n\<rparr>) = release_of a b"
  by (simp_all add: parent_of_def block_of_def release_of_def split: option.split)

lemma inv_recount:
  assumes inv: "rc_inv base own view due s" and b: "rcbuf_at a s = Some b" and "n \<noteq> 0"
    and n: "unat n = count own' a + count (tally parent_of s) a" and other: "\<And>c. c \<noteq> a \<Longrightarrow> count own' c = count own c"
  shows "rc_inv base own' view due (rcbuf_put a (Some (b\<lparr>rb_refcount := n\<rparr>)) s)"
proof -
  let ?s = "rcbuf_put a (Some (b\<lparr>rb_refcount := n\<rparr>)) s"
  have len: "a < length (rs_bufs s)" by (rule rcbuf_at_less [OF b])
  have t: "tally parent_of ?s = tally parent_of s" "tally (block_of i) ?s = tally (block_of i) s"
    "tally release_of ?s = tally release_of s" for i
    by (simp_all add: tally_put_count [OF b])
  have "rc_counts own' ?s"
    using inv n other \<open>n \<noteq> 0\<close> len
    by (auto simp: rc_inv_def rc_counts_def moq_rcbuf_refcount_def rcbuf_at_put t split: option.splits)
  moreover have "rc_shape ?s"
    unfolding rc_shape_def
  proof (intro allI impI)
    fix c d assume "rcbuf_at c ?s = Some d"
    then obtain d' where d': "rcbuf_at c s = Some d'" "rb_sliced d = rb_sliced d'" "rb_wrapped d = rb_wrapped d'"
        "rb_parent d = rb_parent d'" "rb_external d = rb_external d'"
      using b by (cases "c = a") (auto simp: rcbuf_at_put len)
    have live: "\<exists>q. rcbuf_at p ?s = Some q \<and> rb_sliced q = rb_sliced pb" if "rcbuf_at p s = Some pb" for p pb
      using that b by (auto simp: rcbuf_at_put len)
    show "if rb_sliced d then \<not> rb_wrapped d \<and> (\<exists>p pb k. rb_parent d = Some p \<and> rcbuf_at p ?s = Some pb \<and> \<not> rb_sliced pb
        \<and> rb_external d = ptr_add (moq_rcbuf_data (Some p) ?s) k)
      else rb_wrapped d \<longrightarrow> (\<forall>c off. rb_external d \<noteq> At (Inline c) off)"
      using inv d' live unfolding rc_inv_def rc_shape_def data_put_count [OF b] by (metis (no_types, lifting))
  qed
  moreover have "rc_views view ?s"
    using inv b by (auto simp: rc_inv_def rc_views_def rcbuf_at_put)
  moreover have "rc_memory base ?s" "rc_due due ?s"
    using inv by (simp_all add: rc_inv_def rc_memory_def rc_due_def t)
  ultimately show ?thesis by (simp add: rc_inv_def)
qed


text \<open>A new buffer holds a reference to its parent that a client held before.\<close>

lemma alloc_None: "rcbuf_alloc i n b s = (None, t) \<Longrightarrow>
    \<exists>h. t = s\<lparr>rs_heaps := (rs_heaps s)(i := h)\<rparr> \<and> mset (h_blocks h) = mset (h_blocks (rs_heaps s i))"
  by (auto simp: rcbuf_alloc_def Let_def dest: blocks_alloc(2) split: prod.splits if_splits)

lemma alloc_Some: "rcbuf_alloc i n b s = (Some a, t) \<Longrightarrow>
    a = length (rs_bufs s) \<and> (\<exists>h. t = s\<lparr>rs_heaps := (rs_heaps s)(i := h), rs_bufs := rs_bufs s @ [Some b]\<rparr>
      \<and> mset (h_blocks h) = add_mset n (mset (h_blocks (rs_heaps s i))))"
  by (auto simp: rcbuf_alloc_def Let_def dest: blocks_alloc(1) split: prod.splits if_splits)

lemma same_bufs:
  assumes "rs_bufs t = rs_bufs s" and "rs_extern t = rs_extern s"
  shows "rcbuf_at a t = rcbuf_at a s" "tally f t = tally f s" "moq_rcbuf_data c t = moq_rcbuf_data c s"
    "moq_rcbuf_refcount c t = moq_rcbuf_refcount c s" "ptr_bytes t p k = ptr_bytes s p k"
proof -
  show at: "rcbuf_at a t = rcbuf_at a s" for a by (rule rcbuf_at_cong [OF assms(1)])
  show "moq_rcbuf_data c t = moq_rcbuf_data c s" "ptr_bytes t p k = ptr_bytes s p k"
    "moq_rcbuf_refcount c t = moq_rcbuf_refcount c s"
    unfolding moq_rcbuf_data_def moq_rcbuf_refcount_def ptr_bytes_def assms(2) at by (rule refl)+
  show "tally f t = tally f s" by (rule tally_cong [OF assms(1)])
qed

lemma alloc_refused:
  assumes "rc_inv base own view due s" and "rcbuf_alloc i n b s = (None, t)"
  shows "rc_inv base own view due t"
proof -
  obtain h where t: "t = s\<lparr>rs_heaps := (rs_heaps s)(i := h)\<rparr>" "mset (h_blocks h) = mset (h_blocks (rs_heaps s i))"
    using alloc_None [OF assms(2)] by (elim exE conjE) (rule that)
  have bufs: "rs_bufs t = rs_bufs s" "rs_extern t = rs_extern s" by (simp_all add: t)
  note eq = same_bufs [OF bufs]
  have "rc_counts own t = rc_counts own s" "rc_shape t = rc_shape s" "rc_views view t = rc_views view s"
    unfolding rc_counts_def rc_shape_def rc_views_def eq by (rule refl)+
  moreover have "rc_memory base t = rc_memory base s" "rc_due due t = rc_due due s"
    unfolding rc_memory_def rc_due_def eq by (auto simp: t)
  ultimately show ?thesis using assms(1) by (simp add: rc_inv_def)
qed

lemma extended:
  assumes "rs_bufs t = rs_bufs s @ [Some b]" and "rs_extern t = rs_extern s"
  shows "rcbuf_at c t = (if c = length (rs_bufs s) then Some b else rcbuf_at c s)"
    and "rcbuf_at c s = Some d \<Longrightarrow> moq_rcbuf_data (Some c) t = moq_rcbuf_data (Some c) s"
    and "ptr_bytes s p k = Some bs \<Longrightarrow> ptr_bytes t p k = Some bs"
proof -
  show at: "rcbuf_at c t = (if c = length (rs_bufs s) then Some b else rcbuf_at c s)" for c
    using assms(1) by (auto simp: rcbuf_at_def nth_append)
  show "rcbuf_at c s = Some d \<Longrightarrow> moq_rcbuf_data (Some c) t = moq_rcbuf_data (Some c) s"
    using rcbuf_at_less [of c s d] by (simp add: moq_rcbuf_data_def at)
  show "ptr_bytes s p k = Some bs \<Longrightarrow> ptr_bytes t p k = Some bs"
    using assms(2) rcbuf_at_less
    by (fastforce simp: ptr_bytes_def at split: data_ptr.splits data_base.splits option.splits if_splits)
qed

definition fits_in :: "moq_rcbuf \<Rightarrow> rcbuf_state \<Rightarrow> bool" where
  "fits_in b s \<longleftrightarrow>
     (if rb_sliced b then \<not> rb_wrapped b \<and> (\<exists>p pb k. rb_parent b = Some p \<and> rcbuf_at p s = Some pb \<and> \<not> rb_sliced pb
        \<and> rb_external b = ptr_add (moq_rcbuf_data (Some p) s) k)
      else rb_wrapped b \<longrightarrow> (\<forall>c off. rb_external b \<noteq> At (Inline c) off))"

lemma rc_shape_fits: "rc_shape s \<longleftrightarrow> (\<forall>a b. rcbuf_at a s = Some b \<longrightarrow> fits_in b s)"
  by (simp add: rc_shape_def fits_in_def)

lemma fits_extended:
  assumes "rs_bufs t = rs_bufs s @ [Some b]" and "rs_extern t = rs_extern s" and "fits_in c s"
  shows "fits_in c t"
proof -
  note ext = extended [OF assms(1,2)]
  have "rcbuf_at p t = Some pb \<and> moq_rcbuf_data (Some p) t = moq_rcbuf_data (Some p) s" if "rcbuf_at p s = Some pb" for p pb
    using that ext(1) [of p] ext(2) [OF that] rcbuf_at_less [OF that] by simp
  then show ?thesis using assms(3) unfolding fits_in_def by (metis (no_types, lifting))
qed

lemma inv_add:
  assumes inv: "rc_inv base (own + parent_of a b) view due s" and alloc: "rcbuf_alloc i n b s = (Some a, t)"
    and fit: "fits_in b s" and b: "rb_refcount b = 1" "block_of i a b = {#n#}"
    and v: "ptr_bytes t (moq_rcbuf_data (Some a) t) (rb_len b) = Some v"
  shows "rc_inv base (own + {#a#}) (view(a := v)) (due + release_of a b) t"
proof -
  obtain h where t: "t = s\<lparr>rs_heaps := (rs_heaps s)(i := h), rs_bufs := rs_bufs s @ [Some b]\<rparr>"
      and h: "mset (h_blocks h) = add_mset n (mset (h_blocks (rs_heaps s i)))" and a: "a = length (rs_bufs s)"
    using alloc_Some [OF alloc] by (elim conjE exE) (rule that)
  have bufs: "rs_bufs t = rs_bufs s @ [Some b]" "rs_extern t = rs_extern s" by (simp_all add: t)
  note ext = extended [OF bufs, folded a] and tally = tally_append [OF bufs(1), folded a]
  have fresh: "rcbuf_at a s = None" by (simp add: rcbuf_at_def a)
  have parts: "rc_counts (own + parent_of a b) s" "rc_shape s" "rc_views view s" "rc_memory base s" "rc_due due s"
    using inv by (simp_all add: rc_inv_def)
  have none: "count (own + parent_of a b) a = 0" "count (tally parent_of s) a = 0"
    using parts(1) [unfolded rc_counts_def, THEN conjunct1, rule_format, of a] fresh
    by (simp_all add: moq_rcbuf_refcount_def)
  have "rc_counts (own + {#a#}) t"
    using parts(1) none b(1) by (auto simp: rc_counts_def moq_rcbuf_refcount_def ext(1) tally split: option.splits)
  moreover have "rc_shape t"
    using parts(2) fit fits_extended [OF bufs] by (auto simp: rc_shape_fits ext(1))
  moreover have "rc_views (view(a := v)) t"
    using parts(3) v ext(2,3) by (auto simp: rc_views_def ext(1) split: if_splits)
  moreover have "mset (h_blocks (rs_heaps t j)) = base j + tally (block_of j) t" for j
    using parts(4) [unfolded rc_memory_def, rule_format, of j] b(2) h
    unfolding tally by (cases "j = i") (auto simp: t block_of_def split: if_splits)
  moreover have "rc_due (due + release_of a b) t" using parts(5) by (simp add: rc_due_def tally) (simp add: t)
  ultimately show ?thesis by (simp add: rc_inv_def rc_memory_def)
qed


text \<open>The last reference goes: no slice reads the buffer any more, and its reference to a parent is handed over.\<close>

definition dropped :: "nat \<Rightarrow> moq_rcbuf \<Rightarrow> nat \<Rightarrow> (nat \<times> nat \<times> data_ptr \<times> nat) list \<Rightarrow> rcbuf_state \<Rightarrow> rcbuf_state" where
  "dropped a b n rel s = rcbuf_free a b n (s\<lparr>rs_released := rs_released s @ rel\<rparr>)"

lemma dropped_at:
  assumes "rcbuf_at a s = Some b"
  shows "rcbuf_at c (dropped a b n rel s) = (if c = a then None else rcbuf_at c s)"
proof -
  have "rcbuf_at c (dropped a b n rel s) = rcbuf_at c (rcbuf_put a None s)"
    by (rule rcbuf_at_cong) (simp add: dropped_def rcbuf_free_def rcbuf_put_def)
  then show ?thesis using rcbuf_at_less [OF assms] by (simp add: rcbuf_at_put)
qed

lemma dropped_tally:
  assumes "rcbuf_at a s = Some b"
  shows "tally f (dropped a b n rel s) + f a b = tally f s"
proof -
  have "tally f (dropped a b n rel s) = tally f (rcbuf_put a None s)"
    by (rule tally_cong) (simp add: dropped_def rcbuf_free_def rcbuf_put_def)
  then show ?thesis using tally_put [OF assms, of f None] by simp
qed

lemma shared_parent:
  "rcbuf_at c s = Some d \<Longrightarrow> rb_sliced d \<Longrightarrow> rb_parent d = Some p \<Longrightarrow> count (tally parent_of s) p \<noteq> 0"
  using tally_member [of c s d parent_of] by (auto simp: parent_of_def)

lemma data_inline:
  assumes "rc_shape s" and "rcbuf_at c s = Some d" and "moq_rcbuf_data (Some c) s = At (Inline q) off"
  shows "q = c \<or> rb_sliced d \<and> rb_parent d = Some q"
proof (cases "rb_sliced d")
  case True
  then obtain p pb k where p: "rb_parent d = Some p" "rcbuf_at p s = Some pb" "\<not> rb_sliced pb"
      "rb_external d = ptr_add (moq_rcbuf_data (Some p) s) k" "\<not> rb_wrapped d"
    using assms(1,2) unfolding rc_shape_def by metis
  have "rb_wrapped pb \<Longrightarrow> \<forall>c off. rb_external pb \<noteq> At (Inline c) off"
    using assms(1) p(2,3) unfolding rc_shape_def by metis
  then show ?thesis
    using assms(2,3) p True by (auto simp: moq_rcbuf_data_def ptr_add_def split: data_ptr.splits if_splits)
next
  case False
  then have "rb_wrapped d \<Longrightarrow> \<forall>c off. rb_external d \<noteq> At (Inline c) off"
    using assms(1,2) unfolding rc_shape_def by metis
  then show ?thesis using assms(2,3) False by (auto simp: moq_rcbuf_data_def split: if_splits)
qed

lemma inv_drop:
  assumes inv: "rc_inv base (own + {#a#}) view due s" and b: "rcbuf_at a s = Some b" and one: "rb_refcount b = 1"
    and n: "block_of (rb_alloc b) a b = {#n#}" and rel: "mset rel = release_of a b"
  shows "rc_inv base (own + parent_of a b) view due (dropped a b n rel s)"
proof -
  let ?t = "dropped a b n rel s"
  note at = dropped_at [OF b, of _ n rel] and tally = dropped_tally [OF b, of _ n rel]
  have parts: "rc_counts (own + {#a#}) s" "rc_shape s" "rc_views view s" "rc_memory base s" "rc_due due s"
    using inv by (simp_all add: rc_inv_def)
  note counts = parts(1) [unfolded rc_counts_def, THEN conjunct1, rule_format]
  have none: "count own a = 0" "count (tally parent_of s) a = 0"
    using counts [of a] b one by (simp_all add: moq_rcbuf_refcount_def)
  have "count (tally parent_of s) c = count (tally parent_of ?t) c + count (parent_of a b) c" for c
    by (simp flip: tally [of parent_of])
  then have "unat (moq_rcbuf_refcount (Some c) ?t) = count (own + parent_of a b) c + count (tally parent_of ?t) c" for c
    using counts [of c] none by (cases "c = a") (simp_all add: moq_rcbuf_refcount_def at)
  then have "rc_counts (own + parent_of a b) ?t" using parts(1) by (simp add: rc_counts_def at)
  moreover have other: "rb_parent d \<noteq> Some a" if "rcbuf_at c s = Some d" "rb_sliced d" for c d
    using shared_parent [OF that] none(2) by blast
  have data: "moq_rcbuf_data (Some c) ?t = moq_rcbuf_data (Some c) s" if "c \<noteq> a" for c
    using that by (simp add: moq_rcbuf_data_def at)
  have "fits_in d ?t" if "c \<noteq> a" "rcbuf_at c s = Some d" for c d
  proof (cases "rb_sliced d")
    case True
    with parts(2) that obtain p pb k where "rb_parent d = Some p" "rcbuf_at p s = Some pb" "\<not> rb_sliced pb"
        "rb_external d = ptr_add (moq_rcbuf_data (Some p) s) k" "\<not> rb_wrapped d"
      unfolding rc_shape_def by metis
    moreover from this have "p \<noteq> a" using other [OF that(2) True] by blast
    ultimately show ?thesis using True by (auto simp: fits_in_def at data)
  next
    case False
    with parts(2) that show ?thesis unfolding rc_shape_fits fits_in_def by metis
  qed
  then have "rc_shape ?t" by (auto simp: rc_shape_fits at split: if_splits)
  moreover have "rc_views view ?t"
  proof -
    have "rs_extern ?t = rs_extern s" by (simp add: dropped_def rcbuf_free_def)
    then have "ptr_bytes ?t p k = ptr_bytes s p k" if "\<And>off. p \<noteq> At (Inline a) off" for p k
      using that by (auto simp: ptr_bytes_def at split: data_ptr.split data_base.split)
    then show ?thesis
      using parts(3) data_inline [OF parts(2)] other unfolding rc_views_def at by (metis data option.distinct(1))
  qed
  moreover have "rc_memory base ?t"
    unfolding rc_memory_def
  proof
    fix i
    have "mset (h_blocks (rs_heaps s i)) = base i + (tally (block_of i) ?t + block_of i a b)"
      using parts(4) by (simp add: rc_memory_def tally)
    then show "mset (h_blocks (rs_heaps ?t i)) = base i + tally (block_of i) ?t"
      using n by (auto simp: dropped_def [of a b] rcbuf_free_def blocks_free block_of_def split: if_splits)
  qed
  moreover have "rc_due due ?t"
    using parts(5) rel tally [of release_of] by (auto simp: rc_due_def dropped_def rcbuf_free_def rcbuf_put_def ac_simps)
  ultimately show ?thesis by (simp add: rc_inv_def)
qed


section \<open>The operations keep the invariant\<close>

lemma refcount_word:
  fixes n :: u32
  shows "n \<noteq> 0xFFFFFFFF \<Longrightarrow> unat (n + 1) = unat n + 1" and "n \<noteq> 0 \<Longrightarrow> unat (n - 1) = unat n - 1"
proof -
  assume n: "n \<noteq> 0xFFFFFFFF"
  have "unat n < 2 ^ 32" using unsigned_less [of n] by simp
  moreover have "unat n \<noteq> 2 ^ 32 - 1" using n by (auto simp: word_unat_eq_iff)
  ultimately have "unat n + 1 < 2 ^ 32" by simp
  then show "unat (n + 1) = unat n + 1" by (simp add: unat_word_ariths)
next
  show "n \<noteq> 0 \<Longrightarrow> unat (n - 1) = unat n - 1" by (simp add: unat_minus_one)
qed

lemma incref_inv:
  assumes "rc_inv base own view due s" and "moq_rcbuf_incref (Some a) s = Some t"
  shows "rc_inv base (own + {#a#}) view due t"
proof -
  obtain b where b: "rcbuf_at a s = Some b" "rb_refcount b \<noteq> 0xFFFFFFFF"
      and t: "t = rcbuf_put a (Some (b\<lparr>rb_refcount := rb_refcount b + 1\<rparr>)) s"
    using assms(2) by (auto simp: moq_rcbuf_incref_def split: option.splits if_splits)
  note n = refcount_word(1) [OF b(2)]
  have "unat (rb_refcount b) = count own a + count (tally parent_of s) a"
    using assms(1) b(1) by (auto simp: rc_inv_def rc_counts_def moq_rcbuf_refcount_def dest: spec [of _ a])
  moreover have "rb_refcount b + 1 \<noteq> 0" using n by (metis add_is_0 one_neq_zero unat_0)
  ultimately show ?thesis unfolding t by (intro inv_recount [OF assms(1) b(1)]) (simp_all add: n)
qed

lemma decref_inv:
  "rc_inv base (own + {#a#}) view due s \<Longrightarrow> rc_inv base own view due (moq_rcbuf_decref (Some a) s)"
proof (induction "live_bufs s" arbitrary: a own s rule: less_induct)
  case less
  have counts: "unat (moq_rcbuf_refcount (Some a) s) = count own a + 1 + count (tally parent_of s) a"
    using less.prems by (simp add: rc_inv_def rc_counts_def)
  then obtain b where b: "rcbuf_at a s = Some b"
    by (cases "rcbuf_at a s") (auto simp: moq_rcbuf_refcount_def)
  have pos: "rb_refcount b \<noteq> 0" using less.prems b by (auto simp: rc_inv_def rc_counts_def)
  have cnt: "unat (rb_refcount b) = count own a + 1 + count (tally parent_of s) a"
    using counts b by (simp add: moq_rcbuf_refcount_def)
  note eq = moq_rcbuf_decref.simps [of "Some a" s, unfolded option.case b]
  show ?case
  proof (cases "rb_refcount b = 1")
    case False
    have "rc_inv base own view due (rcbuf_put a (Some (b\<lparr>rb_refcount := rb_refcount b - 1\<rparr>)) s)"
      using False refcount_word(2) [OF pos] cnt by (intro inv_recount [OF less.prems b]) auto
    then show ?thesis using False by (simp add: eq)
  next
    case one: True
    note drop = inv_drop [OF less.prems b one]
    have fit: "fits_in b s" using less.prems b unfolding rc_inv_def rc_shape_fits by blast
    have no: "dropped a b n [] s = rcbuf_free a b n s" for n by (simp add: dropped_def)
    show ?thesis
    proof (cases "rb_sliced b")
      case True
      then obtain p where p: "rb_parent b = Some p" "\<not> rb_wrapped b" using fit by (auto simp: fits_in_def)
      have "rc_inv base (own + {#p#}) view due (rcbuf_free a b RCBUF_SIZEOF s)"
        using drop [of RCBUF_SIZEOF "[]"] True p by (simp add: no block_of_def release_of_def parent_of_def)
      then show ?thesis using less.hyps [OF live_bufs_free [OF b]] one True p by (simp add: eq)
    next
      case whole: False
      then have par: "parent_of a b = {#}" by (simp add: parent_of_def)
      show ?thesis
      proof (cases "rb_wrapped b")
        case True
        then show ?thesis
          using drop [of RCBUF_SIZEOF "case rb_release b of None \<Rightarrow> [] | Some f \<Rightarrow> [(a, f, rb_external b, rb_len b)]"] whole one
          by (cases "rb_release b") (simp_all add: eq no block_of_def release_of_def par dropped_def)
      next
        case False
        then show ?thesis
          using drop [of "RCBUF_SIZEOF + rb_len b" "[]"] whole one
          by (simp add: eq no block_of_def release_of_def par)
      qed
    qed
  qed
qed


text \<open>The buffer of \<open>moq_rcbuf_create\<close>, with its bytes in place.\<close>

definition inline_buf :: "nat \<Rightarrow> u8 list \<Rightarrow> moq_rcbuf" where
  "inline_buf i bs = \<lparr>rb_alloc = i, rb_refcount = 1, rb_wrapped = False, rb_sliced = False, rb_len = length bs,
     rb_external = NoData, rb_release = None, rb_parent = None, rb_payload = bs\<rparr>"

definition made :: "moq_result + nat \<Rightarrow> nat multiset" where
  "made r = (case r of Inl _ \<Rightarrow> {#} | Inr a \<Rightarrow> {#a#})"

definition noting :: "moq_result + nat \<Rightarrow> u8 list \<Rightarrow> (nat \<Rightarrow> u8 list) \<Rightarrow> nat \<Rightarrow> u8 list" where
  "noting r v view = (case r of Inl _ \<Rightarrow> view | Inr a \<Rightarrow> view(a := v))"

definition allocating :: "nat option \<Rightarrow> u8 list \<Rightarrow> rcbuf_state \<Rightarrow> (moq_result + nat) \<times> rcbuf_state" where
  "allocating alloc bs s =
     (case alloc of
        None \<Rightarrow> (Inl MOQ_ERR_INVAL, s)
      | Some i \<Rightarrow>
          if 2 ^ 64 \<le> RCBUF_SIZEOF + length bs then (Inl MOQ_ERR_INVAL, s)
          else case rcbuf_alloc i (RCBUF_SIZEOF + length bs) (inline_buf i bs) s of
            (None, s) \<Rightarrow> (Inl MOQ_ERR_NOMEM, s)
          | (Some a, s) \<Rightarrow> (Inr a, s))"

lemma alloc_uninit_eq:
  "moq_rcbuf_alloc_uninit alloc len s = allocating alloc (map (rs_dirty s (length (rs_bufs s))) [0..<len]) s"
  by (simp add: moq_rcbuf_alloc_uninit_def allocating_def moq_rcbuf_allocation_size_def inline_buf_def split: option.split)

lemma fill_alloc:
  assumes "rcbuf_alloc i n (inline_buf i cs) s = (Some a, t)" and "length cs = length bs"
  shows "rcbuf_alloc i n (inline_buf i bs) s = (Some a, rcbuf_fill a bs t)"
proof -
  obtain granted h where g: "heap_alloc n (rs_heaps s i) = (granted, h)" by fastforce
  have granted: granted and a: "a = length (rs_bufs s)"
      and t: "t = s\<lparr>rs_heaps := (rs_heaps s)(i := h), rs_bufs := rs_bufs s @ [Some (inline_buf i cs)]\<rparr>"
    using assms(1) by (auto simp: rcbuf_alloc_def g Let_def split: if_splits)
  have "rcbuf_fill a bs t = s\<lparr>rs_heaps := (rs_heaps s)(i := h), rs_bufs := rs_bufs s @ [Some (inline_buf i bs)]\<rparr>"
    using assms(2) by (simp add: rcbuf_fill_def rcbuf_at_def rcbuf_put_def a t inline_buf_def)
  then show ?thesis using granted by (simp add: rcbuf_alloc_def g Let_def a)
qed

lemma refused_alloc:
  "rcbuf_alloc i n b s = (None, t) \<Longrightarrow> rcbuf_alloc i n b' s = (None, t)"
  by (auto simp: rcbuf_alloc_def Let_def split: prod.splits if_splits)

lemma create_eq:
  assumes "\<not> (0 < plen data \<and> is_null data)"
  shows "moq_rcbuf_create alloc data s = allocating alloc (elems data) s"
proof -
  let ?cs = "map (rs_dirty s (length (rs_bufs s))) [0..<plen data]"
  have len: "length ?cs = length (elems data)" "plen data = length (elems data)" using assms by (cases data; simp)+
  show ?thesis
  proof (cases alloc)
    case (Some i)
    obtain r t where r: "rcbuf_alloc i (RCBUF_SIZEOF + plen data) (inline_buf i ?cs) s = (r, t)" by fastforce
    show ?thesis
    proof (cases r)
      case None
      then show ?thesis
        using assms Some r refused_alloc [OF r [unfolded None], of "inline_buf i (elems data)"] len
        by (auto simp: moq_rcbuf_create_def alloc_uninit_eq allocating_def)
    next
      case a: (Some a)
      show ?thesis
        using assms Some r fill_alloc [OF r [unfolded a] len(1)] len
        by (cases "elems data") (auto simp: moq_rcbuf_create_def alloc_uninit_eq allocating_def a)
    qed
  qed (use assms in \<open>simp add: moq_rcbuf_create_def alloc_uninit_eq allocating_def\<close>)
qed

lemma allocating_inv:
  assumes inv: "rc_inv base own view due s" and r: "allocating alloc bs s = (r, t)"
  shows "rc_inv base (own + made r) (noting r bs view) due t"
proof (cases alloc)
  case (Some i)
  show ?thesis
  proof (cases "2 ^ 64 \<le> RCBUF_SIZEOF + length bs")
    case False
    obtain x u where x: "rcbuf_alloc i (RCBUF_SIZEOF + length bs) (inline_buf i bs) s = (x, u)" by fastforce
    show ?thesis
    proof (cases x)
      case None
      then show ?thesis using alloc_refused [OF inv] x r Some False by (auto simp: allocating_def made_def noting_def)
    next
      case a: (Some a)
      have t: "t = u" "r = Inr a" using r x a Some False by (auto simp: allocating_def)
      have at: "rcbuf_at a u = Some (inline_buf i bs)" using alloc_Some [OF x [unfolded a]] by (auto simp: rcbuf_at_def)
      have "parent_of a (inline_buf i bs) = {#}" "release_of a (inline_buf i bs) = {#}"
        by (simp_all add: parent_of_def release_of_def inline_buf_def)
      moreover have "ptr_bytes u (moq_rcbuf_data (Some a) u) (rb_len (inline_buf i bs)) = Some bs"
        using at by (simp add: ptr_bytes_def moq_rcbuf_data_def) (simp add: inline_buf_def)
      ultimately show ?thesis
        using inv_add [of base own a "inline_buf i bs" view due s i "RCBUF_SIZEOF + length bs" u bs] inv x a t
        by (simp add: made_def noting_def fits_in_def block_of_def inline_buf_def)
    qed
  qed (use inv r Some in \<open>auto simp: allocating_def made_def noting_def\<close>)
qed (use inv r in \<open>auto simp: allocating_def made_def noting_def\<close>)


definition owed :: "moq_result + nat \<Rightarrow> nat option \<Rightarrow> data_ptr \<Rightarrow> nat \<Rightarrow> (nat \<times> nat \<times> data_ptr \<times> nat) multiset" where
  "owed r release data len =
     (case (r, release) of (Inr a, Some f) \<Rightarrow> {#(a, f, data, len)#} | _ \<Rightarrow> {#})"

lemma wrap_inv:
  assumes inv: "rc_inv base own view due s" and bs: "ptr_bytes s data len = Some bs"
    and ext: "\<forall>c off. data \<noteq> At (Inline c) off" and r: "moq_rcbuf_wrap alloc data len release s = (r, t)"
  shows "rc_inv base (own + made r) (noting r bs view) (due + owed r release data len) t"
proof (cases alloc)
  case (Some i)
  let ?b = "\<lparr>rb_alloc = i, rb_refcount = 1, rb_wrapped = True, rb_sliced = False, rb_len = len,
    rb_external = data, rb_release = release, rb_parent = None, rb_payload = []\<rparr>"
  obtain x u where x: "rcbuf_alloc i RCBUF_SIZEOF ?b s = (x, u)" by fastforce
  have arg: "\<not> (0 < len \<and> data = NoData)" using bs by (auto simp: ptr_bytes_def split: if_splits)
  show ?thesis
  proof (cases x)
    case None
    then show ?thesis
      using alloc_refused [OF inv] x r arg Some by (auto simp: moq_rcbuf_wrap_def made_def noting_def owed_def)
  next
    case a: (Some a)
    have t: "t = u" "r = Inr a" using r x a arg Some by (auto simp: moq_rcbuf_wrap_def)
    obtain h where u: "u = s\<lparr>rs_heaps := (rs_heaps s)(i := h), rs_bufs := rs_bufs s @ [Some ?b]\<rparr>" and len: "a = length (rs_bufs s)"
      using alloc_Some [OF x [unfolded a]] by (elim conjE exE) (rule that)
    have at: "rcbuf_at a u = Some ?b" by (simp add: u len rcbuf_at_def)
    have "ptr_bytes u data len = Some bs" by (rule extended(3) [of u s ?b, OF _ _ bs]) (simp_all add: u)
    moreover have "moq_rcbuf_data (Some a) u = data" by (simp add: moq_rcbuf_data_def at)
    moreover have "release_of a ?b = owed r release data len" "parent_of a ?b = {#}"
      by (simp_all add: release_of_def owed_def parent_of_def t split: option.split)
    ultimately show ?thesis
      using inv_add [of base own a ?b view due s i RCBUF_SIZEOF u bs] inv x a t ext
      by (simp add: made_def noting_def fits_in_def block_of_def)
  qed
qed (use inv r in \<open>auto simp: moq_rcbuf_wrap_def made_def noting_def owed_def\<close>)

lemma ptr_bytes_length: "ptr_bytes s p n = Some bs \<Longrightarrow> length bs = n"
  by (auto simp: ptr_bytes_def split: data_ptr.splits option.splits if_splits)

lemma ptr_bytes_sub:
  assumes "ptr_bytes s p n = Some bs" and "off + m \<le> n"
  shows "ptr_bytes s (ptr_add p off) m = Some (take m (drop off bs))"
proof (cases p)
  case NoData
  then show ?thesis using assms by (auto simp: ptr_bytes_def ptr_add_def split: if_splits)
next
  case (At b k)
  then show ?thesis
    using assms by (auto simp: ptr_bytes_def ptr_add_def take_drop min_def ac_simps split: option.splits if_splits)
qed

lemma owned_live:
  assumes "rc_inv base own view due s" and "a \<in># own"
  obtains b where "rcbuf_at a s = Some b" "ptr_bytes s (moq_rcbuf_data (Some a) s) (rb_len b) = Some (view a)"
proof -
  have "unat (moq_rcbuf_refcount (Some a) s) \<noteq> 0"
    using assms by (simp add: rc_inv_def rc_counts_def)
  then obtain b where "rcbuf_at a s = Some b" by (cases "rcbuf_at a s") (auto simp: moq_rcbuf_refcount_def)
  with assms(1) that show thesis by (simp add: rc_inv_def rc_views_def)
qed

text \<open>Allocation and a count elsewhere commute.\<close>

lemma incref_alloc:
  assumes "rcbuf_alloc i n b s = (Some a, u)" and "rcbuf_at p s = Some pb" and "moq_rcbuf_incref (Some p) u = Some t"
  obtains s1 where "moq_rcbuf_incref (Some p) s = Some s1" "rcbuf_alloc i n b s1 = (Some a, t)"
proof -
  have p: "p < length (rs_bufs s)" by (rule rcbuf_at_less [OF assms(2)])
  obtain granted h where g: "heap_alloc n (rs_heaps s i) = (granted, h)" by fastforce
  have u: "u = s\<lparr>rs_heaps := (rs_heaps s)(i := h), rs_bufs := rs_bufs s @ [Some b]\<rparr>" "a = length (rs_bufs s)" granted
    using assms(1) by (auto simp: rcbuf_alloc_def g Let_def split: if_splits)
  have "rcbuf_at p u = Some pb" using assms(2) p by (simp add: u rcbuf_at_def nth_append)
  then have t: "rb_refcount pb \<noteq> 0xFFFFFFFF" "t = rcbuf_put p (Some (pb\<lparr>rb_refcount := rb_refcount pb + 1\<rparr>)) u"
    using assms(3) by (auto simp: moq_rcbuf_incref_def split: if_splits)
  show thesis
    by (rule that [of "rcbuf_put p (Some (pb\<lparr>rb_refcount := rb_refcount pb + 1\<rparr>)) s"])
      (use t assms(2) p u in \<open>auto simp: moq_rcbuf_incref_def rcbuf_alloc_def g Let_def rcbuf_put_def list_update_append1\<close>)
qed


lemma ptr_add_simps [simp]: "ptr_add p 0 = p" "ptr_add (ptr_add p m) n = ptr_add p (m + n)" "ptr_add NoData n = NoData"
  by (cases p; simp add: ptr_add_def)+

lemma slice_rootE:
  assumes "rc_shape s" and "rcbuf_at a s = Some p"
  obtains rt rb k where "slice_root a p = Some rt" "rcbuf_at rt s = Some rb" "\<not> rb_sliced rb"
    "moq_rcbuf_data (Some a) s = ptr_add (moq_rcbuf_data (Some rt) s) k"
proof (cases "rb_sliced p")
  case True
  then obtain rt rb k where "rb_parent p = Some rt" "rcbuf_at rt s = Some rb" "\<not> rb_sliced rb"
      "rb_external p = ptr_add (moq_rcbuf_data (Some rt) s) k"
    using assms unfolding rc_shape_def by metis
  with that True assms(2) show thesis by (auto simp: slice_root_def moq_rcbuf_data_def)
next
  case False
  with that [of a p 0] assms(2) show thesis by (simp add: slice_root_def)
qed

lemma slice_external:
  assumes "pd = ptr_add rd k"
  shows "(if rd \<noteq> NoData then ptr_add rd (if rd \<noteq> NoData \<and> pd \<noteq> NoData then ptr_diff pd rd + offset else offset) else NoData)
    = ptr_add pd offset"
  using assms by (cases rd) (simp_all add: ptr_add_def ptr_diff_def)

definition slice_buf :: "nat \<Rightarrow> nat \<Rightarrow> data_ptr \<Rightarrow> nat \<Rightarrow> moq_rcbuf" where
  "slice_buf i rt p len = \<lparr>rb_alloc = i, rb_refcount = 1, rb_wrapped = False, rb_sliced = True, rb_len = len,
     rb_external = p, rb_release = None, rb_parent = Some rt, rb_payload = []\<rparr>"

lemma slice_outcome:
  assumes inv: "rc_shape s" and p: "rcbuf_at pa s = Some p" and r: "moq_rcbuf_slice alloc (Some pa) offset len s = Some (r, t)"
  obtains (refused) e where "r = Inl e" "t = s \<or> (\<exists>i n b. rcbuf_alloc i n b s = (None, t))"
  | (slice) a i rt rb k u where "r = Inr a" "offset + len \<le> rb_len p" "rcbuf_at rt s = Some rb" "\<not> rb_sliced rb"
      "moq_rcbuf_data (Some pa) s = ptr_add (moq_rcbuf_data (Some rt) s) k"
      "rcbuf_alloc i RCBUF_SIZEOF (slice_buf i rt (ptr_add (moq_rcbuf_data (Some pa) s) offset) len) s = (Some a, u)"
      "moq_rcbuf_incref (Some rt) u = Some t"
proof (cases "alloc = None \<or> 2 ^ 64 \<le> offset + len \<or> 0 < len \<and> rb_len p < offset + len \<or> len = 0 \<and> rb_len p < offset")
  case True
  then show thesis using r p refused(1) [of MOQ_ERR_INVAL]
    by (cases alloc) (simp_all add: moq_rcbuf_slice_def split: if_splits)
next
  case False
  then obtain i where i: "alloc = Some i" by (cases alloc) auto
  have ok: "offset + len \<le> rb_len p" using False by (cases len) simp_all
  obtain rt rb k where rt: "slice_root pa p = Some rt" "rcbuf_at rt s = Some rb" "\<not> rb_sliced rb"
      "moq_rcbuf_data (Some pa) s = ptr_add (moq_rcbuf_data (Some rt) s) k"
    by (rule slice_rootE [OF inv p])
  let ?b = "slice_buf i rt (ptr_add (moq_rcbuf_data (Some pa) s) offset) len"
  obtain x u where x: "rcbuf_alloc i RCBUF_SIZEOF ?b s = (x, u)" by fastforce
  have eq: "moq_rcbuf_slice alloc (Some pa) offset len s = (case (x, u) of (None, s) \<Rightarrow> Some (Inl MOQ_ERR_NOMEM, s)
      | (Some a, s) \<Rightarrow> map_option (Pair (Inr a)) (moq_rcbuf_incref (Some rt) s))"
    using False unfolding moq_rcbuf_slice_def i prod.case option.case p rt(1) Let_def slice_external [OF rt(4)]
      slice_buf_def [symmetric] x by (cases "len = 0") simp_all
  show thesis
  proof (cases x)
    case None
    then show thesis using refused [of MOQ_ERR_NOMEM] x r by (auto simp: eq)
  next
    case (Some a)
    then show thesis using slice [OF _ ok rt(2-4), of a i u] x r by (auto simp: eq)
  qed
qed

lemma slice_inv:
  assumes inv: "rc_inv base own view due s" and pa: "pa \<in># own"
    and r: "moq_rcbuf_slice alloc (Some pa) offset len s = Some (r, t)"
  shows "rc_inv base (own + made r) (noting r (take len (drop offset (view pa))) view) due t"
proof -
  obtain p where p: "rcbuf_at pa s = Some p" "ptr_bytes s (moq_rcbuf_data (Some pa) s) (rb_len p) = Some (view pa)"
    by (rule owned_live [OF inv pa])
  have shape: "rc_shape s" using inv by (simp add: rc_inv_def)
  from shape p(1) r show ?thesis
  proof (cases rule: slice_outcome)
    case (refused e)
    then show ?thesis using inv alloc_refused [OF inv] by (auto simp: made_def noting_def)
  next
    case (slice a i rt rb k u)
    let ?p = "ptr_add (moq_rcbuf_data (Some pa) s) offset" and ?v = "take len (drop offset (view pa))"
    let ?b = "slice_buf i rt ?p len"
    obtain s1 where s1: "moq_rcbuf_incref (Some rt) s = Some s1" "rcbuf_alloc i RCBUF_SIZEOF ?b s1 = (Some a, t)"
      by (rule incref_alloc [OF slice(6,3,7)])
    have s1_eq: "s1 = rcbuf_put rt (Some (rb\<lparr>rb_refcount := rb_refcount rb + 1\<rparr>)) s"
      using s1(1) slice(3) by (simp add: moq_rcbuf_incref_def split: if_splits)
    obtain h where t: "t = s1\<lparr>rs_heaps := (rs_heaps s1)(i := h), rs_bufs := rs_bufs s1 @ [Some ?b]\<rparr>" and a: "a = length (rs_bufs s1)"
      using alloc_Some [OF s1(2)] by (elim conjE exE) (rule that)
    have at: "moq_rcbuf_data (Some a) t = ?p" by (simp add: t a rcbuf_at_def moq_rcbuf_data_def slice_buf_def)
    have "ptr_bytes s1 ?p len = Some ?v"
      using ptr_bytes_sub [OF p(2) slice(2)] by (simp add: s1_eq bytes_put_count [OF slice(3)])
    then have "ptr_bytes t ?p len = Some ?v" by (intro extended(3) [of t s1 ?b]) (simp_all add: t)
    moreover have "fits_in ?b s1"
      using slice(3-5) rcbuf_at_less [OF slice(3)]
      by (auto simp: fits_in_def slice_buf_def s1_eq rcbuf_at_put data_put_count [OF slice(3)])
    moreover have "parent_of a ?b = {#rt#}" "release_of a ?b = {#}" "rb_refcount ?b = 1" "block_of i a ?b = {#RCBUF_SIZEOF#}" "rb_len ?b = len"
      by (simp_all add: parent_of_def release_of_def block_of_def slice_buf_def)
    ultimately show ?thesis
      using inv_add [of base own a ?b view due s1 i RCBUF_SIZEOF t ?v] incref_inv [OF inv s1(1)] s1(2) slice(1)
      by (simp add: at made_def noting_def)
  qed
qed


section \<open>Clients\<close>

text \<open>What clients may do, with the references they hold, the bytes each buffer was made with and the release
  calls they are owed. A client passes only references it holds, and wraps memory that has the bytes.\<close>

inductive rc_reach ::
  "rcbuf_state \<Rightarrow> rcbuf_state \<Rightarrow> nat multiset \<Rightarrow> (nat \<Rightarrow> u8 list) \<Rightarrow> (nat \<times> nat \<times> data_ptr \<times> nat) multiset \<Rightarrow> bool"
  for s0 where
  start: "rs_bufs s0 = [] \<Longrightarrow> rs_released s0 = [] \<Longrightarrow> rc_reach s0 s0 {#} (\<lambda>_. []) {#}"
| uninit: "rc_reach s0 s own view due \<Longrightarrow> moq_rcbuf_alloc_uninit alloc len s = (r, t) \<Longrightarrow>
    rc_reach s0 t (own + made r) (noting r (map (rs_dirty s (length (rs_bufs s))) [0..<len]) view) due"
| create: "rc_reach s0 s own view due \<Longrightarrow> moq_rcbuf_create alloc data s = (r, t) \<Longrightarrow>
    rc_reach s0 t (own + made r) (noting r (elems data) view) due"
| wrap: "rc_reach s0 s own view due \<Longrightarrow> ptr_bytes s data len = Some bs \<Longrightarrow> \<forall>c off. data \<noteq> At (Inline c) off \<Longrightarrow>
    moq_rcbuf_wrap alloc data len release s = (r, t) \<Longrightarrow>
    rc_reach s0 t (own + made r) (noting r bs view) (due + owed r release data len)"
| slice: "rc_reach s0 s own view due \<Longrightarrow> a \<in># own \<Longrightarrow> moq_rcbuf_slice alloc (Some a) offset len s = Some (r, t) \<Longrightarrow>
    rc_reach s0 t (own + made r) (noting r (take len (drop offset (view a))) view) due"
| clone: "rc_reach s0 s own view due \<Longrightarrow> a \<in># own \<Longrightarrow> moq_rcbuf_clone alloc (Some a) s = (r, t) \<Longrightarrow>
    rc_reach s0 t (own + made r) (noting r (view a) view) due"
| incref: "rc_reach s0 s own view due \<Longrightarrow> a \<in># own \<Longrightarrow> moq_rcbuf_incref (Some a) s = Some t \<Longrightarrow>
    rc_reach s0 t (own + {#a#}) view due"
| decref: "rc_reach s0 s own view due \<Longrightarrow> a \<in># own \<Longrightarrow> rc_reach s0 (moq_rcbuf_decref (Some a) s) (own - {#a#}) view due"

lemma clone_eq:
  assumes "rc_inv base own view due s" and "a \<in># own"
  shows "moq_rcbuf_clone alloc (Some a) s = allocating alloc (view a) s"
proof -
  obtain b where "rcbuf_at a s = Some b" "ptr_bytes s (moq_rcbuf_data (Some a) s) (rb_len b) = Some (view a)"
    by (rule owned_live [OF assms])
  then show ?thesis
    by (cases alloc) (simp_all add: moq_rcbuf_clone_def moq_rcbuf_len_def create_eq, simp add: allocating_def)
qed

lemma rc_reach_inv: "rc_reach s0 s own view due \<Longrightarrow> rc_inv (\<lambda>i. mset (h_blocks (rs_heaps s0 i))) own view due s"
proof (induction rule: rc_reach.induct)
  case start
  then show ?case
    by (simp add: rc_inv_def rc_counts_def rc_shape_def rc_views_def rc_memory_def rc_due_def rcbuf_at_def tally_def moq_rcbuf_refcount_def)
next
  case (create s own view due alloc data r t)
  then show ?case
  proof (cases "0 < plen data \<and> is_null data")
    case True
    with create show ?thesis by (auto simp: moq_rcbuf_create_def made_def noting_def)
  next
    case False
    with create show ?thesis by (intro allocating_inv) (simp_all add: create_eq)
  qed
next
  case (incref s own view due a t)
  then show ?case by (intro incref_inv)
next
  case (decref s own view due a)
  then show ?case by (intro decref_inv) simp
qed (auto intro: allocating_inv wrap_inv slice_inv simp: alloc_uninit_eq clone_eq)

lemma nobody_left:
  assumes "rc_inv base {#} view due s"
  shows "rcbuf_at a s = None"
proof (rule ccontr)
  have counts: "0 < count (tally parent_of s) c" if "rcbuf_at c s = Some d" for c d
    using assms that unfolding rc_inv_def rc_counts_def
    by (auto simp: moq_rcbuf_refcount_def dest!: spec [of _ c]) (metis count_inI unat_eq_zero)
  assume "rcbuf_at a s \<noteq> None"
  then obtain b where "rcbuf_at a s = Some b" by blast
  from counts [OF this] obtain c d where c: "rcbuf_at c s = Some d" "a \<in># parent_of c d"
    using tally_witness by (metis count_greater_zero_iff)
  from counts [OF c(1)] obtain e f where e: "rcbuf_at e s = Some f" "c \<in># parent_of e f"
    using tally_witness by (metis count_greater_zero_iff)
  have "rb_sliced d" using c(2) by (auto simp: parent_of_def split: if_splits)
  moreover have "rb_sliced f" "rb_parent f = Some c" using e(2) by (auto simp: parent_of_def split: if_splits option.splits)
  ultimately show False using assms e(1) c(1) unfolding rc_inv_def rc_shape_def by (metis option.inject)
qed

lemma nothing_left: "(\<And>a. rcbuf_at a s = None) \<Longrightarrow> tally f s = {#}"
  by (simp add: tally_def contribution_def)

lemma drain_inv:
  "rc_inv base (mset as + own) view due s \<Longrightarrow> rc_inv base own view due (fold (\<lambda>a. moq_rcbuf_decref (Some a)) as s)"
proof (induction as arbitrary: s)
  case (Cons a as)
  then show ?case using decref_inv [of base "mset as + own" a view due s] by (simp add: ac_simps)
qed simp


text \<open>A release is owed for one buffer only: buffers keep what they owe, and an address is used once.\<close>

definition evolves :: "rcbuf_state \<Rightarrow> rcbuf_state \<Rightarrow> bool" where
  "evolves s t \<longleftrightarrow> length (rs_bufs s) \<le> length (rs_bufs t)
     \<and> (\<forall>a b. a < length (rs_bufs s) \<longrightarrow> rcbuf_at a t = Some b \<longrightarrow>
          (\<exists>c. rcbuf_at a s = Some c \<and> release_of a c = release_of a b))"

lemma evolves_refl [simp]: "evolves s s"
  by (simp add: evolves_def)

lemma evolves_trans [trans]: "evolves s t \<Longrightarrow> evolves t u \<Longrightarrow> evolves s u"
  unfolding evolves_def by (metis le_trans order_less_le_trans)

lemma evolves_cong: "rs_bufs t = rs_bufs s \<Longrightarrow> evolves s t"
  by (simp add: evolves_def rcbuf_at_cong [of t s])

lemma evolves_put:
  "rcbuf_at a s = Some b \<Longrightarrow> b' = None \<or> (\<exists>n. b' = Some (b\<lparr>rb_refcount := n\<rparr>)) \<Longrightarrow> evolves s (rcbuf_put a b' s)"
  by (auto simp: evolves_def rcbuf_at_put rcbuf_at_less)

lemma evolves_alloc: "rcbuf_alloc i n b s = (x, t) \<Longrightarrow> evolves s t"
  by (auto simp: rcbuf_alloc_def Let_def evolves_def rcbuf_at_def nth_append split: prod.splits if_splits)

lemma evolves_free: "rcbuf_at a s = Some b \<Longrightarrow> evolves s (rcbuf_free a c n (s\<lparr>rs_released := x\<rparr>))"
  by (rule evolves_trans [OF evolves_put [of a s b None]]) (simp_all add: evolves_cong rcbuf_free_def rcbuf_put_def)

lemma evolves_decref: "evolves s (moq_rcbuf_decref (Some a) s)"
proof (induction "live_bufs s" arbitrary: a s rule: less_induct)
  case less
  note eq = moq_rcbuf_decref.simps [of "Some a" s, unfolded option.case]
  show ?case
  proof (cases "rcbuf_at a s")
    case (Some b)
    have free: "evolves s (rcbuf_free a b n s)" for n using evolves_free [OF Some, of b n "rs_released s"] by simp
    have "evolves s (moq_rcbuf_decref (rb_parent b) (rcbuf_free a b n s))" for n
      using evolves_trans [OF free less.hyps [OF live_bufs_free [OF Some]]] free
      by (cases "rb_parent b") (simp_all add: moq_rcbuf_decref.simps [of None])
    moreover have "evolves s (rcbuf_put a (Some (b\<lparr>rb_refcount := n\<rparr>)) s)" for n by (rule evolves_put [OF Some]) blast
    ultimately show ?thesis
      using Some free evolves_free [OF Some] by (auto simp: eq split: option.split)
  qed (simp add: eq)
qed

lemma evolves_incref: "moq_rcbuf_incref x s = Some t \<Longrightarrow> evolves s t"
  by (auto simp: moq_rcbuf_incref_def intro: evolves_put split: option.splits if_splits)

lemma evolves_allocating: "allocating alloc bs s = (r, t) \<Longrightarrow> evolves s t"
  by (auto simp: allocating_def dest: evolves_alloc split: option.splits if_splits prod.splits)

lemma evolves_create: "moq_rcbuf_create alloc data s = (r, t) \<Longrightarrow> evolves s t"
proof (cases "0 < plen data \<and> is_null data")
  case False
  show "moq_rcbuf_create alloc data s = (r, t) \<Longrightarrow> evolves s t"
    unfolding create_eq [OF False] by (rule evolves_allocating)
qed (auto simp: moq_rcbuf_create_def)

lemma evolves_wrap: "moq_rcbuf_wrap alloc data len release s = (r, t) \<Longrightarrow> evolves s t"
  by (auto simp: moq_rcbuf_wrap_def dest: evolves_alloc split: option.splits if_splits prod.splits)

lemma evolves_slice: "moq_rcbuf_slice alloc p offset len s = Some (r, t) \<Longrightarrow> evolves s t"
  by (auto simp: moq_rcbuf_slice_def Let_def dest!: evolves_alloc evolves_incref intro: evolves_trans split: option.splits if_splits prod.splits)

lemma evolves_clone: "moq_rcbuf_clone alloc p s = (r, t) \<Longrightarrow> evolves s t"
  by (auto simp: moq_rcbuf_clone_def dest: evolves_create split: option.splits)

definition owed_once :: "(nat \<times> nat \<times> data_ptr \<times> nat) multiset \<Rightarrow> rcbuf_state \<Rightarrow> bool" where
  "owed_once due s \<longleftrightarrow> (\<forall>x. count due x \<le> 1)
     \<and> (\<forall>x \<in># due. fst x < length (rs_bufs s) \<and> (\<forall>b. rcbuf_at (fst x) s = Some b \<longrightarrow> x \<in># release_of (fst x) b))"

lemma owed_once_evolves:
  assumes "owed_once due s" and "evolves s t"
  shows "owed_once due t"
proof -
  have "fst x < length (rs_bufs t) \<and> (\<forall>b. rcbuf_at (fst x) t = Some b \<longrightarrow> x \<in># release_of (fst x) b)" if "x \<in># due" for x
  proof -
    have x: "fst x < length (rs_bufs s)" "\<And>b. rcbuf_at (fst x) s = Some b \<Longrightarrow> x \<in># release_of (fst x) b"
      using assms(1) that by (simp_all add: owed_once_def)
    have len: "length (rs_bufs s) \<le> length (rs_bufs t)" using assms(2) by (simp add: evolves_def)
    show ?thesis
    proof (intro conjI allI impI)
      show "fst x < length (rs_bufs t)" using x(1) len by (rule less_le_trans)
      fix b assume "rcbuf_at (fst x) t = Some b"
      then obtain c where "rcbuf_at (fst x) s = Some c" "release_of (fst x) c = release_of (fst x) b"
        using assms(2) x(1) unfolding evolves_def by blast
      with x(2) show "x \<in># release_of (fst x) b" by simp
    qed
  qed
  then show ?thesis using assms(1) by (simp add: owed_once_def)
qed

lemma owed_once_wrap:
  assumes "owed_once due s" and r: "moq_rcbuf_wrap alloc data len release s = (r, t)"
  shows "owed_once (due + owed r release data len) t"
proof (cases "\<exists>a f. r = Inr a \<and> release = Some f")
  case True
  then obtain a f i where a: "r = Inr a" "release = Some f" "alloc = Some i"
    using r by (cases alloc) (auto simp: moq_rcbuf_wrap_def)
  let ?b = "\<lparr>rb_alloc = i, rb_refcount = 1, rb_wrapped = True, rb_sliced = False, rb_len = len,
    rb_external = data, rb_release = release, rb_parent = None, rb_payload = []\<rparr>"
  have "rcbuf_alloc i RCBUF_SIZEOF ?b s = (Some a, t)"
    using r a by (auto simp: moq_rcbuf_wrap_def split: if_splits prod.splits option.splits)
  from alloc_Some [OF this] have t: "a = length (rs_bufs s)" "rs_bufs t = rs_bufs s @ [Some ?b]" by auto
  have "rcbuf_at a t = Some ?b" "a < length (rs_bufs t)" using t by (simp_all add: rcbuf_at_def)
  moreover have "count due (a, f, data, len) = 0" using assms(1) t(1) by (force simp: owed_once_def count_eq_zero_iff)
  ultimately show ?thesis
    using owed_once_evolves [OF assms(1) evolves_wrap [OF r]] a
    by (auto simp: owed_once_def owed_def release_of_def)
next
  case False
  then have "owed r release data len = {#}" by (auto simp: owed_def split: sum.split option.split)
  then show ?thesis using owed_once_evolves [OF assms(1) evolves_wrap [OF r]] by simp
qed

lemma rc_reach_owed_once: "rc_reach s0 s own view due \<Longrightarrow> owed_once due s"
proof (induction rule: rc_reach.induct)
  case (uninit s own view due alloc len r t)
  then show ?case using owed_once_evolves evolves_allocating by (simp add: alloc_uninit_eq)
qed (auto simp: owed_once_def [of "{#}"] owed_once_wrap
    intro: owed_once_evolves evolves_create evolves_slice evolves_clone evolves_incref evolves_decref)

text \<open>A sample run: a region of two bytes is wrapped, its second byte is sliced, and the wrapping buffer is dropped.\<close>

definition sample_start :: rcbuf_state where
  "sample_start = \<lparr>rs_bufs = [], rs_heaps = (\<lambda>_. \<lparr>h_grant = (\<lambda>_. True), h_calls = 0, h_blocks = []\<rparr>),
     rs_extern = (\<lambda>_. [7, 8]), rs_dirty = (\<lambda>_ _. 0), rs_released = []\<rparr>"

definition sample_wrapped :: rcbuf_state where
  "sample_wrapped = snd (moq_rcbuf_wrap (Some 0) (At (Extern 0) 0) 2 (Some 5) sample_start)"

definition sample_sliced :: rcbuf_state where
  "sample_sliced = snd (the (moq_rcbuf_slice (Some 0) (Some 0) 1 1 sample_wrapped))"

definition sample_end :: rcbuf_state where
  "sample_end = moq_rcbuf_decref (Some 0) sample_sliced"

lemma sample_steps:
  "ptr_bytes sample_start (At (Extern 0) 0) 2 = Some [7, 8]"
  "moq_rcbuf_wrap (Some 0) (At (Extern 0) 0) 2 (Some 5) sample_start = (Inr 0, sample_wrapped)"
  "moq_rcbuf_slice (Some 0) (Some 0) 1 1 sample_wrapped = Some (Inr 1, sample_sliced)"
proof -
  show "ptr_bytes sample_start (At (Extern 0) 0) 2 = Some [7, 8]"
    by (simp add: ptr_bytes_def sample_start_def)
  show wrap: "moq_rcbuf_wrap (Some 0) (At (Extern 0) 0) 2 (Some 5) sample_start = (Inr 0, sample_wrapped)"
    by (simp add: sample_wrapped_def moq_rcbuf_wrap_def rcbuf_alloc_def heap_alloc_def sample_start_def)
  show "moq_rcbuf_slice (Some 0) (Some 0) 1 1 sample_wrapped = Some (Inr 1, sample_sliced)"
    by (simp add: sample_sliced_def sample_wrapped_def moq_rcbuf_wrap_def moq_rcbuf_slice_def moq_rcbuf_incref_def
        rcbuf_alloc_def heap_alloc_def sample_start_def rcbuf_at_def slice_root_def Let_def)
qed

lemma sample_reach:
  "rc_reach sample_start sample_end {#1#} ((\<lambda>_. [])(0 := [7, 8], 1 := [8])) {#(0, 5, At (Extern 0) 0, 2)#}"
proof -
  have "rc_reach sample_start sample_start {#} (\<lambda>_. []) {#}"
    by (rule rc_reach.start) (simp_all add: sample_start_def)
  from rc_reach.wrap [OF this sample_steps(1) _ sample_steps(2)]
  have "rc_reach sample_start sample_wrapped {#0#} ((\<lambda>_. [])(0 := [7, 8])) {#(0, 5, At (Extern 0) 0, 2)#}"
    by (simp add: made_def noting_def owed_def)
  from rc_reach.slice [OF this _ sample_steps(3)]
  have "rc_reach sample_start sample_sliced {#0, 1#} ((\<lambda>_. [])(0 := [7, 8], 1 := [8])) {#(0, 5, At (Extern 0) 0, 2)#}"
    by (simp add: made_def noting_def add_mset_commute)
  from rc_reach.decref [OF this, of 0] show ?thesis by (simp add: sample_end_def)
qed

section \<open>Properties\<close>

text \<open>C3: a reference counted buffer is its bytes, for as long as anyone holds it. After any calls of the clients a
  held buffer is live and reads exactly the bytes it was made with (the copied bytes, the wrapped region, the part of
  its parent that was sliced, the bytes of the cloned buffer), whatever happened to other references in between, and
  its count is the number of references to it, held by clients or by live slices; it has not wrapped.\<close>

theorem rcbuf_reads_its_bytes:
  assumes "rc_reach s0 s own view due" and "a \<in># own"
  shows "ptr_bytes s (moq_rcbuf_data (Some a) s) (moq_rcbuf_len (Some a) s) = Some (view a)
    \<and> moq_rcbuf_len (Some a) s = length (view a)
    \<and> unat (moq_rcbuf_refcount (Some a) s) = count own a + count (tally parent_of s) a"
proof -
  note inv = rc_reach_inv [OF assms(1)]
  obtain b where b: "rcbuf_at a s = Some b" "ptr_bytes s (moq_rcbuf_data (Some a) s) (rb_len b) = Some (view a)"
    by (rule owned_live [OF inv assms(2)])
  then have "moq_rcbuf_len (Some a) s = rb_len b" by (simp add: moq_rcbuf_len_def)
  with b inv show ?thesis by (simp add: ptr_bytes_length [OF b(2)] rc_inv_def rc_counts_def)
qed

theorem rcbuf_reads_its_bytes_witness:
  "ptr_bytes sample_end (moq_rcbuf_data (Some 1) sample_end) (moq_rcbuf_len (Some 1) sample_end) = Some [8]
   \<and> moq_rcbuf_len (Some 1) sample_end = 1"
  using rcbuf_reads_its_bytes [OF sample_reach, of 1] by (metis fun_upd_same length_Cons list.size(3) One_nat_def union_single_eq_member)

text \<open>C38: dropping the held references, in any order, returns everything. Every buffer is then gone, each allocator
  has exactly the blocks it had at the start, and every owed release callback has run once with the wrapped pointer and
  length. Until then no callback has run that is not owed, and none for a buffer that is still live.\<close>

theorem rcbuf_all_returned:
  assumes "rc_reach s0 s own view due" and "mset as = own"
  shows "(\<forall>x \<in> set (rs_released s). count (mset (rs_released s)) x = 1 \<and> x \<in># due \<and> rcbuf_at (fst x) s = None)
    \<and> (let t = fold (\<lambda>a. moq_rcbuf_decref (Some a)) as s in
         (\<forall>a. rcbuf_at a t = None) \<and> mset (rs_released t) = due \<and> (\<forall>x. count due x \<le> 1)
         \<and> (\<forall>i. mset (h_blocks (rs_heaps t i)) = mset (h_blocks (rs_heaps s0 i))))"
proof -
  note inv = rc_reach_inv [OF assms(1)] and once = rc_reach_owed_once [OF assms(1), unfolded owed_once_def]
  have due: "due = mset (rs_released s) + tally release_of s" using inv by (simp add: rc_inv_def rc_due_def)
  have called: "count (mset (rs_released s)) x = 1 \<and> x \<in># due \<and> rcbuf_at (fst x) s = None" if x: "x \<in> set (rs_released s)" for x
  proof -
    have pos: "0 < count (mset (rs_released s)) x" "x \<in># due" using x by (simp_all add: due)
    have "count (mset (rs_released s)) x + count (tally release_of s) x \<le> 1"
      using once [THEN conjunct1, rule_format, of x] by (simp only: due count_union)
    then have one: "count (mset (rs_released s)) x = 1" "count (tally release_of s) x = 0" using pos(1) by linarith+
    have "rcbuf_at (fst x) s = None"
    proof (rule ccontr)
      assume "rcbuf_at (fst x) s \<noteq> None"
      then obtain b where b: "rcbuf_at (fst x) s = Some b" by blast
      with bspec [OF once [THEN conjunct2] pos(2)] have "x \<in># release_of (fst x) b" by simp
      then have "x \<in># tally release_of s" by (rule mset_subset_eqD [OF tally_member [OF b]])
      then show False using one(2) by (simp add: not_in_iff [symmetric])
    qed
    with one pos show ?thesis by simp
  qed
  let ?t = "fold (\<lambda>a. moq_rcbuf_decref (Some a)) as s"
  have t: "rc_inv (\<lambda>i. mset (h_blocks (rs_heaps s0 i))) {#} view due ?t"
    using inv assms(2) by (intro drain_inv) simp
  note gone = nobody_left [OF t] and nil = nothing_left [OF nobody_left [OF t]]
  show ?thesis
    using t gone called once by (simp add: Let_def rc_inv_def rc_due_def rc_memory_def nil)
qed

theorem rcbuf_all_returned_witness:
  "rs_released (moq_rcbuf_decref (Some 1) sample_end) = [(0, 5, At (Extern 0) 0, 2)]
   \<and> h_blocks (rs_heaps (moq_rcbuf_decref (Some 1) sample_end) 0) = []"
proof -
  let ?t = "moq_rcbuf_decref (Some 1) sample_end"
  have "mset (rs_released ?t) = {#(0, 5, At (Extern 0) 0, 2)#}" "mset (h_blocks (rs_heaps ?t 0)) = mset (h_blocks (rs_heaps sample_start 0))"
    using rcbuf_all_returned [OF sample_reach, of "[1]"] by (simp_all add: Let_def)
  then show ?thesis by (simp add: sample_start_def)
qed

end
