(* ===== verification/TrackProps.thy ===== *)
theory TrackProps
  imports Kvp ControlD22
begin

text \<open>
  Property blocks: the checks of Track Properties by draft-22 (\<open>validate_property_ranges\<close> of
  \<open>core/src/wire/messages_d22.c\<close>) and the four draft-18 walks that draft-22 shares
  (\<open>core/src/wire/control_d18.c\<close>): validation, delivery timeouts and default priority, and the scan of
  Object Properties whose gaps feed the Malformed Track checks. All of them walk the pairs of a block and of
  the blocks inside IMMUTABLE_PROPERTIES.
\<close>

unbundle bit_operations_syntax

section \<open>Reading a pair\<close>

abbreviation D18_PROP_IMMUTABLE :: u64 where "D18_PROP_IMMUTABLE \<equiv> 0x0B"
abbreviation D18_PROP_DEFAULT_PUBLISHER_GROUP_ORDER :: u64 where "D18_PROP_DEFAULT_PUBLISHER_GROUP_ORDER \<equiv> 0x22"
abbreviation D18_PROP_DYNAMIC_GROUPS :: u64 where "D18_PROP_DYNAMIC_GROUPS \<equiv> 0x30"
abbreviation D18_PROP_PRIOR_GROUP_GAP :: u64 where "D18_PROP_PRIOR_GROUP_GAP \<equiv> 0x3C"
abbreviation D18_PROP_PRIOR_OBJECT_GAP :: u64 where "D18_PROP_PRIOR_OBJECT_GAP \<equiv> 0x3E"

definition mandatory_type :: "u64 \<Rightarrow> bool" where
  "mandatory_type type \<longleftrightarrow> 0x4000 \<le> type \<and> type \<le> 0x7FFF"

text \<open>The two ways a pair can be refused: its bytes run out of the block, or it breaks a rule.\<close>

datatype d18_fault = Unreadable | Violation

definition d18_read_type :: "u64 \<Rightarrow> moq_buf_reader \<Rightarrow> (d18_fault + u64) \<times> moq_buf_reader" where
  "d18_read_type prev r =
     (case moq_buf_read_vi64 r of
        (Inl _, r1) \<Rightarrow> (Inl Unreadable, r1)
      | (Inr delta, r1) \<Rightarrow> if UINT64_MAX - prev < delta then (Inl Violation, r1) else (Inr (prev + delta), r1))"

text \<open>The value of a pair: the span of an odd type, the integer of an even one.\<close>

definition d18_read_value :: "u64 \<Rightarrow> moq_buf_reader \<Rightarrow> (d18_fault + (moq_bytes + u64)) \<times> moq_buf_reader" where
  "d18_read_value type r =
     (case moq_buf_read_vi64 r of
        (Inl _, r1) \<Rightarrow> (Inl Unreadable, r1)
      | (Inr v, r1) \<Rightarrow>
          if type AND 1 \<noteq> 0 then
            if 0xFFFF < v then (Inl Violation, r1)
            else if moq_buf_reader_remaining r1 < unat v then (Inl Unreadable, r1)
            else (Inr (Inl (ptake (unat v) (moq_buf_reader_ptr r1))), r1\<lparr>rd_pos := rd_pos r1 + unat v\<rparr>)
          else (Inr (Inr v), r1))"

lemma d18_read_type_step:
  "d18_read_type prev r = (Inr t, r1) \<Longrightarrow> reader_valid r1 \<and> moq_buf_reader_remaining r1 < moq_buf_reader_remaining r"
  using io_vi64.rd_step [of r]
  by (fastforce simp: d18_read_type_def moq_buf_reader_remaining_def split: prod.splits sum.splits if_splits)

lemma d18_read_value_step:
  assumes "d18_read_value type r = (Inr x, r1)"
  shows "moq_buf_reader_remaining r1 < moq_buf_reader_remaining r
    \<and> (\<forall>span. x = Inl span \<longrightarrow> plen span < moq_buf_reader_remaining r)"
proof -
  have len: "plen (ptake n p) \<le> n" for n and p :: moq_bytes by (cases p) auto
  from assms obtain v r2 where v: "moq_buf_read_vi64 r = (Inr v, r2)"
    by (auto simp: d18_read_value_def split: prod.splits sum.splits)
  note step = io_vi64.rd_step [OF v]
  from v show ?thesis
    using assms step len [of "unat v" "moq_buf_reader_ptr r2"]
    by (auto simp: d18_read_value_def moq_buf_reader_remaining_def split: if_splits)
qed

lemma decode_kvp_bytes:
  assumes "moq_d22_decode_kvp prev r = (Inr kvp, r1)" and "k_type kvp AND 1 \<noteq> 0"
  shows "plen (k_bytes kvp) < moq_buf_reader_remaining r"
proof -
  have len: "plen (ptake n p) \<le> n" for n and p :: moq_bytes by (cases p) auto
  from assms obtain delta r2 v r3 where "moq_buf_read_vi64 r = (Inr delta, r2)" "moq_buf_read_vi64 r2 = (Inr v, r3)"
      and raw: "moq_buf_read_raw (unat v) r3 = (Inr (k_bytes kvp), r1)"
    by (auto simp: moq_d22_decode_kvp_def rd_local_def rd_then_def rd_fail_def rd_return_def Let_def
        split: if_splits prod.splits sum.splits)
  moreover have "plen (k_bytes kvp) \<le> unat v \<and> unat v \<le> plen (rd_data r3) - rd_pos r3"
    using raw len [of "unat v" "padvance (rd_pos r3) (rd_data r3)"] len [of 0 "moq_buf_reader_ptr r3"]
    by (auto simp: moq_buf_read_raw_def split: if_splits)
  ultimately show ?thesis
    using io_vi64.rd_step [of r delta r2] io_vi64.rd_step [of r2 v r3] by (auto simp: moq_buf_reader_remaining_def)
qed

lemma decode_kvp_facts:
  assumes "moq_d22_decode_kvp prev r = (Inr kvp, r1)"
  shows "moq_buf_reader_remaining r1 < moq_buf_reader_remaining r
    \<and> (k_type kvp = 0x0b \<longrightarrow> plen (k_bytes kvp) < moq_buf_reader_remaining r)"
  using decode_kvp_step [OF assms] decode_kvp_bytes [OF assms] by (auto simp: moq_buf_reader_remaining_def)

lemma init_remaining [simp]: "moq_buf_reader_remaining (moq_buf_reader_init b) = plen b"
  by (simp add: moq_buf_reader_remaining_def moq_buf_reader_init_def)

section \<open>The walks\<close>

text \<open>\<open>validate_property_ranges\<close>; \<open>mandatory\<close> is \<open>None\<close> for a null pointer.\<close>

function property_ranges_loop :: "bool \<Rightarrow> moq_buf_reader \<Rightarrow> u64 \<Rightarrow> bool option \<Rightarrow> moq_result \<times> bool option" where
  "property_ranges_loop nested r previous mandatory =
     (if moq_buf_reader_remaining r = 0 then (MOQ_OK, mandatory)
      else case moq_d22_decode_kvp previous r of
        (Inl rc, r1) \<Rightarrow> (if rc = MOQ_ERR_BUFFER then MOQ_ERR_PROTO else rc, mandatory)
      | (Inr kvp, r1) \<Rightarrow>
          let mandatory = (if mandatory_type (k_type kvp) then map_option (\<lambda>_. True) mandatory else mandatory) in
          if k_type kvp = 0x22 \<and> (k_integer kvp < 1 \<or> 2 < k_integer kvp) then (MOQ_ERR_PROTO, mandatory)
          else if k_type kvp = 0x30 \<and> 1 < k_integer kvp then (MOQ_ERR_PROTO, mandatory)
          else if k_type kvp = 0x0b then
            if nested then (MOQ_ERR_PROTO, mandatory)
            else (case property_ranges_loop True (moq_buf_reader_init (k_bytes kvp)) 0 mandatory of
                    (rc, mandatory) \<Rightarrow>
                      if rc \<noteq> MOQ_OK then (rc, mandatory)
                      else property_ranges_loop nested r1 (k_type kvp) mandatory)
          else property_ranges_loop nested r1 (k_type kvp) mandatory)"
  by pat_completeness auto
termination
  by (relation "measure (\<lambda>(nested, r, previous, mandatory). moq_buf_reader_remaining r)")
    (auto dest!: sym [of "(_, _)" "moq_d22_decode_kvp _ _"] decode_kvp_facts simp: init_remaining)

declare property_ranges_loop.simps [simp del]

definition validate_property_ranges :: "moq_bytes \<Rightarrow> bool \<Rightarrow> bool option \<Rightarrow> moq_result \<times> bool option" where
  "validate_property_ranges bytes nested mandatory =
     property_ranges_loop nested (moq_buf_reader_init bytes) 0 mandatory"

text \<open>\<open>d18_validate_props_inner\<close>; \<open>None\<close> stands for a null output.\<close>

function validate_props_loop :: "bool \<Rightarrow> bool \<Rightarrow> moq_buf_reader \<Rightarrow> u64 \<Rightarrow> bool option \<times> bool option
    \<Rightarrow> moq_result \<times> bool option \<times> bool option" where
  "validate_props_loop inbound_track nested r prev outs =
     (if moq_buf_reader_remaining r = 0 then (MOQ_OK, outs)
      else case d18_read_type prev r of
        (Inl _, r1) \<Rightarrow> (MOQ_ERR_PROTO, outs)
      | (Inr type, r1) \<Rightarrow>
          if mandatory_type type \<and> fst outs = None then (MOQ_ERR_PROTO, outs)
          else
            let outs = (if mandatory_type type then (Some True, snd outs) else outs) in
            case d18_read_value type r1 of
              (Inl _, r2) \<Rightarrow> (MOQ_ERR_PROTO, outs)
            | (Inr (Inl span), r2) \<Rightarrow>
                if type = D18_PROP_IMMUTABLE then
                  if nested then (MOQ_ERR_PROTO, outs)
                  else (case validate_props_loop inbound_track True (moq_buf_reader_init span) 0 outs of
                          (rc, outs) \<Rightarrow>
                            if rc \<noteq> MOQ_OK then (rc, outs)
                            else validate_props_loop inbound_track nested r2 type outs)
                else validate_props_loop inbound_track nested r2 type outs
            | (Inr (Inr v), r2) \<Rightarrow>
                if type = D18_PROP_DYNAMIC_GROUPS then
                  if 1 < v then (MOQ_ERR_PROTO, outs)
                  else validate_props_loop inbound_track nested r2 type
                         (if v = 1 then (fst outs, map_option (\<lambda>_. True) (snd outs)) else outs)
                else if inbound_track \<and> type = D18_PROP_DEFAULT_PUBLISHER_GROUP_ORDER \<and> (v < 1 \<or> 2 < v)
                then (MOQ_ERR_PROTO, outs)
                else validate_props_loop inbound_track nested r2 type outs)"
  by pat_completeness auto
termination
  by (relation "measure (\<lambda>(inbound, nested, r, prev, outs). moq_buf_reader_remaining r)")
    (auto dest!: sym [of "(_, _)" "d18_read_type _ _"] sym [of "(_, _)" "d18_read_value _ _"]
      d18_read_type_step d18_read_value_step simp: init_remaining)

declare validate_props_loop.simps [simp del]

definition d18_validate_props_inner :: "moq_bytes \<Rightarrow> bool \<Rightarrow> bool option \<times> bool option \<Rightarrow> bool
    \<Rightarrow> moq_result \<times> bool option \<times> bool option" where
  "d18_validate_props_inner data nested outs inbound_track =
     validate_props_loop inbound_track nested (moq_buf_reader_init data) 0 outs"

text \<open>\<open>d18_scan_track_defaults_inner\<close>: the two timeouts, each present or not, and the priority; \<open>None\<close> for the
  outputs a caller does not ask for.\<close>

record track_defaults =
  td_object :: "(bool \<times> u64) option"
  td_subgroup :: "(bool \<times> u64) option"
  td_priority :: "u8 option"

function track_defaults_loop :: "bool \<Rightarrow> moq_buf_reader \<Rightarrow> u64 \<Rightarrow> track_defaults \<Rightarrow> moq_result \<times> track_defaults" where
  "track_defaults_loop nested r prev d =
     (if moq_buf_reader_remaining r = 0 then (MOQ_OK, d)
      else case d18_read_type prev r of
        (Inl _, r1) \<Rightarrow> (MOQ_ERR_PROTO, d)
      | (Inr type, r1) \<Rightarrow>
          case d18_read_value type r1 of
            (Inl _, r2) \<Rightarrow> (MOQ_ERR_PROTO, d)
          | (Inr (Inl span), r2) \<Rightarrow>
              if type = D18_PROP_IMMUTABLE then
                if nested then (MOQ_ERR_PROTO, d)
                else (case track_defaults_loop True (moq_buf_reader_init span) 0 d of
                        (rc, d) \<Rightarrow> if rc \<noteq> MOQ_OK then (rc, d) else track_defaults_loop nested r2 type d)
              else track_defaults_loop nested r2 type d
          | (Inr (Inr v), r2) \<Rightarrow>
              if type = 0x02 \<and> td_object d \<noteq> None then
                if fst (the (td_object d)) then (MOQ_ERR_PROTO, d)
                else track_defaults_loop nested r2 type (d\<lparr>td_object := Some (True, v)\<rparr>)
              else if type = 0x06 \<and> td_subgroup d \<noteq> None then
                if fst (the (td_subgroup d)) then (MOQ_ERR_PROTO, d)
                else track_defaults_loop nested r2 type (d\<lparr>td_subgroup := Some (True, v)\<rparr>)
              else if type = 0x0E \<and> td_priority d \<noteq> None then
                if 255 < v then (MOQ_ERR_PROTO, d)
                else track_defaults_loop nested r2 type (d\<lparr>td_priority := Some (ucast v)\<rparr>)
              else track_defaults_loop nested r2 type d)"
  by pat_completeness auto
termination
  by (relation "measure (\<lambda>(nested, r, prev, d). moq_buf_reader_remaining r)")
    (auto dest!: sym [of "(_, _)" "d18_read_type _ _"] sym [of "(_, _)" "d18_read_value _ _"]
      d18_read_type_step d18_read_value_step simp: init_remaining)

declare track_defaults_loop.simps [simp del]

definition d18_scan_track_defaults_inner :: "moq_bytes \<Rightarrow> bool \<Rightarrow> track_defaults \<Rightarrow> moq_result \<times> track_defaults" where
  "d18_scan_track_defaults_inner data nested d = track_defaults_loop nested (moq_buf_reader_init data) 0 d"

definition moq_d18_scan_delivery_timeouts :: "moq_bytes \<Rightarrow> moq_result \<times> (bool \<times> u64) \<times> (bool \<times> u64)" where
  "moq_d18_scan_delivery_timeouts props =
     (if is_null props \<or> plen props = 0 then (MOQ_OK, (False, 0), (False, 0))
      else case d18_scan_track_defaults_inner props False
                  \<lparr>td_object = Some (False, 0), td_subgroup = Some (False, 0), td_priority = None\<rparr> of
        (rc, d) \<Rightarrow> (rc, the (td_object d), the (td_subgroup d)))"

definition moq_d18_scan_default_publisher_priority :: "moq_bytes \<Rightarrow> moq_result + u8" where
  "moq_d18_scan_default_publisher_priority props =
     (if is_null props \<and> plen props \<noteq> 0 then Inl MOQ_ERR_INVAL
      else case d18_scan_track_defaults_inner props False
                  \<lparr>td_object = None, td_subgroup = None, td_priority = Some 128\<rparr> of
        (rc, d) \<Rightarrow> if rc = MOQ_OK then Inr (the (td_priority d)) else Inl rc)"

definition result_of :: "moq_result + 'a \<Rightarrow> moq_result" where
  "result_of x = (case x of Inl rc \<Rightarrow> rc | Inr _ \<Rightarrow> MOQ_OK)"

definition moq_d18_validate_track_properties :: "moq_bytes \<Rightarrow> moq_result" where
  "moq_d18_validate_track_properties data =
     (let rc = fst (d18_validate_props_inner data False (None, None) False) in
      if rc \<noteq> MOQ_OK then rc else result_of (moq_d18_scan_default_publisher_priority data))"

text \<open>The result, the mandatory flag and the dynamic groups flag; \<open>want_dynamic\<close> tells whether the caller asks
  for the last one.\<close>

definition d18_scan_track_properties :: "moq_bytes \<Rightarrow> bool \<Rightarrow> moq_result \<times> bool option \<times> bool option" where
  "d18_scan_track_properties data want_dynamic =
     (case d18_validate_props_inner data False (Some False, if want_dynamic then Some False else None) True of
        (rc, outs) \<Rightarrow>
          if rc \<noteq> MOQ_OK then (rc, outs) else (result_of (moq_d18_scan_default_publisher_priority data), outs))"

definition moq_d18_validate_properties :: "moq_bytes \<Rightarrow> moq_result" where
  "moq_d18_validate_properties data = fst (d18_validate_props_inner data False (None, None) False)"

definition moq_d18_scan_dynamic_groups :: "moq_bytes \<Rightarrow> bool \<Rightarrow> moq_result \<times> bool" where
  "moq_d18_scan_dynamic_groups data out =
     (if 0 < plen data \<and> is_null data then (MOQ_ERR_INVAL, out)
      else case d18_validate_props_inner data False (Some False, Some False) False of
        (rc, outs) \<Rightarrow> (rc, the (snd outs)))"

definition scan_track_properties :: "moq_bytes \<Rightarrow> bool option \<Rightarrow> moq_result \<times> bool option" where
  "scan_track_properties data mandatory =
     (if is_null data \<and> plen data \<noteq> 0 \<or> 65535 < plen data then (MOQ_ERR_INVAL, mandatory)
      else case validate_property_ranges data False mandatory of
        (rc, mandatory) \<Rightarrow>
          if rc \<noteq> MOQ_OK then (rc, mandatory)
          else (result_of (moq_d18_scan_default_publisher_priority data), mandatory))"

definition moq_d22_validate_track_properties :: "moq_bytes \<Rightarrow> moq_result" where
  "moq_d22_validate_track_properties data = fst (scan_track_properties data None)"

text \<open>Object Properties.\<close>

datatype obj_props = MOQ_OBJ_PROPS_OK | MOQ_OBJ_PROPS_UNPARSEABLE | MOQ_OBJ_PROPS_NESTED_IMMUTABLE
  | MOQ_OBJ_PROPS_DUPLICATE_IMMUTABLE | MOQ_OBJ_PROPS_MANDATORY | MOQ_OBJ_PROPS_DUPLICATE_GAP

record moq_obj_props_scan =
  os_malformed :: obj_props
  os_has_prior_group_gap :: bool
  os_has_prior_object_gap :: bool
  os_prior_group_gap :: u64
  os_prior_object_gap :: u64

definition obj_props_scan_zero :: moq_obj_props_scan where
  "obj_props_scan_zero = \<lparr>os_malformed = MOQ_OBJ_PROPS_OK, os_has_prior_group_gap = False,
     os_has_prior_object_gap = False, os_prior_group_gap = 0, os_prior_object_gap = 0\<rparr>"

text \<open>The outputs of \<open>d18_scan_object_props_inner\<close>: the three flags of the caller and the result.\<close>

record obj_props_state =
  ops_immutable :: bool
  ops_group_gap :: bool
  ops_object_gap :: bool
  ops_out :: moq_obj_props_scan

definition d18_obj_props_note :: "obj_props \<Rightarrow> obj_props_state \<Rightarrow> obj_props_state" where
  "d18_obj_props_note violation s =
     (if os_malformed (ops_out s) = MOQ_OBJ_PROPS_OK then s\<lparr>ops_out := (ops_out s)\<lparr>os_malformed := violation\<rparr>\<rparr> else s)"

function object_props_loop :: "bool \<Rightarrow> moq_buf_reader \<Rightarrow> u64 \<Rightarrow> obj_props_state \<Rightarrow> moq_result \<times> obj_props_state" where
  "object_props_loop nested r prev s =
     (if moq_buf_reader_remaining r = 0 then (MOQ_OK, s)
      else case d18_read_type prev r of
        (Inl Unreadable, r1) \<Rightarrow> (MOQ_OK, d18_obj_props_note MOQ_OBJ_PROPS_UNPARSEABLE s)
      | (Inl Violation, r1) \<Rightarrow> (MOQ_ERR_PROTO, s)
      | (Inr type, r1) \<Rightarrow>
          let s = (if mandatory_type type then d18_obj_props_note MOQ_OBJ_PROPS_MANDATORY s else s) in
          case d18_read_value type r1 of
            (Inl Unreadable, r2) \<Rightarrow> (MOQ_OK, d18_obj_props_note MOQ_OBJ_PROPS_UNPARSEABLE s)
          | (Inl Violation, r2) \<Rightarrow> (MOQ_ERR_PROTO, s)
          | (Inr (Inl span), r2) \<Rightarrow>
              if type = D18_PROP_IMMUTABLE then
                if nested then object_props_loop nested r2 type (d18_obj_props_note MOQ_OBJ_PROPS_NESTED_IMMUTABLE s)
                else
                  let s = (if ops_immutable s then d18_obj_props_note MOQ_OBJ_PROPS_DUPLICATE_IMMUTABLE s else s) in
                  (case object_props_loop True (moq_buf_reader_init span) 0 (s\<lparr>ops_immutable := True\<rparr>) of
                     (rc, s) \<Rightarrow> if rc \<noteq> MOQ_OK then (rc, s) else object_props_loop nested r2 type s)
              else object_props_loop nested r2 type s
          | (Inr (Inr v), r2) \<Rightarrow>
              if type = D18_PROP_DYNAMIC_GROUPS \<and> 1 < v then (MOQ_ERR_PROTO, s)
              else if type = D18_PROP_PRIOR_GROUP_GAP then
                let s = (if ops_group_gap s then d18_obj_props_note MOQ_OBJ_PROPS_DUPLICATE_GAP s else s) in
                object_props_loop nested r2 type
                  (s\<lparr>ops_group_gap := True, ops_out := (ops_out s)\<lparr>os_prior_group_gap := v\<rparr>\<rparr>)
              else if type = D18_PROP_PRIOR_OBJECT_GAP then
                let s = (if ops_object_gap s then d18_obj_props_note MOQ_OBJ_PROPS_DUPLICATE_GAP s else s) in
                object_props_loop nested r2 type
                  (s\<lparr>ops_object_gap := True, ops_out := (ops_out s)\<lparr>os_prior_object_gap := v\<rparr>\<rparr>)
              else object_props_loop nested r2 type s)"
  by pat_completeness auto
termination
  by (relation "measure (\<lambda>(nested, r, prev, s). moq_buf_reader_remaining r)")
    (auto dest!: sym [of "(_, _)" "d18_read_type _ _"] sym [of "(_, _)" "d18_read_value _ _"]
      d18_read_type_step d18_read_value_step simp: init_remaining)

declare object_props_loop.simps [simp del]

definition moq_d18_scan_object_properties :: "moq_bytes \<Rightarrow> moq_obj_props_scan \<Rightarrow> moq_result \<times> moq_obj_props_scan" where
  "moq_d18_scan_object_properties props out =
     (if is_null props \<and> plen props \<noteq> 0 then (MOQ_ERR_INVAL, out)
      else case object_props_loop False (moq_buf_reader_init props) 0
                  \<lparr>ops_immutable = False, ops_group_gap = False, ops_object_gap = False, ops_out = obj_props_scan_zero\<rparr> of
        (rc, s) \<Rightarrow>
          if rc \<noteq> MOQ_OK then (rc, obj_props_scan_zero)
          else if os_malformed (ops_out s) \<noteq> MOQ_OBJ_PROPS_OK
          then (MOQ_OK, (ops_out s)\<lparr>os_prior_group_gap := 0, os_prior_object_gap := 0\<rparr>)
          else (MOQ_OK, (ops_out s)\<lparr>os_has_prior_group_gap := ops_group_gap s,
                  os_has_prior_object_gap := ops_object_gap s\<rparr>))"

section \<open>Pairs of a block\<close>

text \<open>The value of a pair: the payload of an odd type, the integer of an even one.\<close>

definition pair_value :: "u64 \<times> u8 list \<Rightarrow> moq_bytes + u64" where
  "pair_value e = (if fst e AND 1 \<noteq> 0 then Inl (Arr (kvp_payload True (snd e))) else Inr (kvp_body_val True (snd e)))"

definition pair_kvp :: "u64 \<times> u8 list \<Rightarrow> moq_d22_kvp" where
  "pair_kvp e = (case pair_value e of
     Inl b \<Rightarrow> \<lparr>k_type = fst e, k_integer = 0, k_bytes = b\<rparr>
   | Inr v \<Rightarrow> \<lparr>k_type = fst e, k_integer = v, k_bytes = Null 0\<rparr>)"

lemma kvp_dec_vi64: "kvp_dec True = vi64_dec"
  by (simp add: kvp_dec_def fun_eq_iff)

lemma read_vi64_rest:
  "reader_valid r \<Longrightarrow> vi64_dec (rd_rest r) = Some (v, n) \<Longrightarrow> moq_buf_read_vi64 r = (Inr v, r\<lparr>rd_pos := rd_pos r + n\<rparr>)"
  "reader_valid r \<Longrightarrow> vi64_dec (rd_rest r) = None \<Longrightarrow> \<exists>e r1. moq_buf_read_vi64 r = (Inl e, r1)"
  by (simp_all add: io_vi64.rd_law)

text \<open>A cursor behind a decoded integer.\<close>

lemma behind_integer:
  assumes "reader_valid r" and "vi64_dec (rd_rest r) = Some (v, n)"
  defines "r1 \<equiv> r\<lparr>rd_pos := rd_pos r + n\<rparr>"
  shows "reader_valid r1" "rd_rest r1 = drop n (rd_rest r)" "rd_live r1"
    "moq_buf_reader_remaining r1 = length (rd_rest r) - n" "0 < n" "n \<le> length (rd_rest r)"
proof -
  note b = vi64.dec_bounds [OF assms(2)]
  show n: "0 < n" "n \<le> length (rd_rest r)" using b by auto
  then have "rd_rest r \<noteq> []" by auto
  show v: "reader_valid r1" unfolding r1_def by (rule reader_valid_advance [OF assms(1) n(2)])
  show rest: "rd_rest r1 = drop n (rd_rest r)" by (simp add: r1_def rd_rest_advance)
  have "\<not> is_null (rd_data r)" using is_null_rest [OF assms(1)] \<open>rd_rest r \<noteq> []\<close> by blast
  then show "rd_live r1" using v by (auto simp: rd_live_def reader_valid_def r1_def)
  show "moq_buf_reader_remaining r1 = length (rd_rest r) - n" using reader_remaining_eq [OF v] rest by simp
qed

lemma pair_value_odd:
  assumes "kvp_body_len True t bs = Some k" and "t AND 1 \<noteq> 0"
  obtains v j where "vi64_dec bs = Some (v, j)" "k = j + unat v" "unat v \<le> length bs - j"
    "pair_value (t, take k bs) = Inl (Arr (take (unat v) (drop j bs)))"
proof -
  from assms obtain v j where v: "vi64_dec bs = Some (v, j)" "k = j + unat v" "unat v \<le> length bs - j"
    by (auto simp: kvp_body_len_def kvp_dec_vi64 not_less split: option.splits if_splits)
  have "take k bs = take j bs @ drop j (take k bs)"
    using append_take_drop_id [of j "take k bs"] v(2) by (simp add: min.absorb1)
  then have "vi64_dec (take k bs) = Some (v, j)" using vi64.dec_local [OF v(1), of "drop j (take k bs)"] by metis
  then have "pair_value (t, take k bs) = Inl (Arr (take (unat v) (drop j bs)))"
    using assms(2) v(2) by (simp add: pair_value_def kvp_payload_def kvp_dec_vi64 drop_take)
  with v show thesis by (rule that)
qed

lemma pair_value_even:
  assumes "kvp_body_len True t bs = Some k" and "t AND 1 = 0"
  obtains v where "vi64_dec bs = Some (v, k)" "pair_value (t, take k bs) = Inr v"
proof -
  from assms obtain v where v: "vi64_dec bs = Some (v, k)"
    by (auto simp: kvp_body_len_def kvp_dec_vi64 split: option.splits if_splits)
  have "vi64_dec (take k bs) = Some (v, k)" using vi64.dec_local [OF v, of "[]"] by simp
  then have "pair_value (t, take k bs) = Inr v"
    using assms(2) by (simp add: pair_value_def kvp_body_val_def kvp_dec_vi64)
  with v show thesis by (rule that)
qed

lemma step_type:
  assumes "reader_valid r" and "kvp_step True prev (rd_rest r) = Some (t, n, k)"
  shows "vi64_dec (rd_rest r) = Some (t - prev, n)" "\<not> UINT64_MAX - prev < t - prev"
    "kvp_body_len True t (drop n (rd_rest r)) = Some k" "n + k \<le> length (rd_rest r)" "0 < n"
  using kvp_stepE [OF assms(2)] by (metis kvp_dec_vi64)+

lemma live_ptr_take: "rd_live r \<Longrightarrow> ptake m (moq_buf_reader_ptr r) = Arr (take m (rd_rest r))"
  by (cases "rd_data r") (auto simp: rd_live_def rd_rest_def moq_buf_reader_ptr_def)

lemma small_word: "unat v \<le> 65535 \<Longrightarrow> \<not> 0xFFFF < (v :: u64)"
  by (simp add: word_less_nat_alt)

lemma d18_pair_read:
  assumes "reader_valid r" and "length (rd_rest r) \<le> 65535" and "kvp_step True prev (rd_rest r) = Some (t, n, k)"
  defines "r1 \<equiv> r\<lparr>rd_pos := rd_pos r + n\<rparr>"
  shows "d18_read_type prev r = (Inr t, r1)"
    "d18_read_value t r1 = (Inr (pair_value (t, take k (drop n (rd_rest r)))), r\<lparr>rd_pos := rd_pos r + (n + k)\<rparr>)"
proof -
  note st = step_type [OF assms(1,3)]
  show "d18_read_type prev r = (Inr t, r1)"
    using st(2) by (simp add: d18_read_type_def read_vi64_rest(1) [OF assms(1) st(1)] r1_def)
  note b = behind_integer [OF assms(1) st(1), folded r1_def]
  show "d18_read_value t r1 = (Inr (pair_value (t, take k (drop n (rd_rest r)))), r\<lparr>rd_pos := rd_pos r + (n + k)\<rparr>)"
  proof (cases "t AND 1 = 0")
    case True
    then obtain v where v: "vi64_dec (rd_rest r1) = Some (v, k)" "pair_value (t, take k (drop n (rd_rest r))) = Inr v"
      using pair_value_even [OF st(3) True] b(2) by metis
    then show ?thesis using True read_vi64_rest(1) [OF b(1) v(1)] by (simp add: d18_read_value_def r1_def add.assoc)
  next
    case False
    then obtain v j where v: "vi64_dec (rd_rest r1) = Some (v, j)" "k = j + unat v" "unat v \<le> length (rd_rest r1) - j"
        "pair_value (t, take k (drop n (rd_rest r))) = Inl (Arr (take (unat v) (drop j (rd_rest r1))))"
      using pair_value_odd [OF st(3) False] b(2) by metis
    note c = behind_integer [OF b(1) v(1)]
    have "unat v \<le> 65535" using v(3) b(2) assms(2) by simp
    moreover have "ptake (unat v) (moq_buf_reader_ptr (r1\<lparr>rd_pos := rd_pos r1 + j\<rparr>)) = Arr (take (unat v) (drop j (rd_rest r1)))"
      using live_ptr_take [OF c(3)] c(2) by simp
    ultimately show ?thesis
      using False v c(4) read_vi64_rest(1) [OF b(1) v(1)] small_word [of v]
      by (simp add: d18_read_value_def r1_def add.assoc)
  qed
qed

lemma d18_pair_fault:
  assumes "reader_valid r" and "kvp_step True prev (rd_rest r) = None"
  shows "(\<exists>f r1. d18_read_type prev r = (Inl f, r1))
    \<or> (\<exists>t r1 f r2. d18_read_type prev r = (Inr t, r1) \<and> d18_read_value t r1 = (Inl f, r2))"
proof (cases "vi64_dec (rd_rest r)")
  case None
  then show ?thesis using read_vi64_rest(2) [OF assms(1)] by (auto simp: d18_read_type_def split: prod.splits sum.splits)
next
  case (Some x)
  then obtain delta n where dec: "vi64_dec (rd_rest r) = Some (delta, n)" by (cases x) simp
  note b = behind_integer [OF assms(1) dec] and rd = read_vi64_rest(1) [OF assms(1) dec]
  show ?thesis
  proof (cases "UINT64_MAX - prev < delta")
    case True
    then show ?thesis using rd by (simp add: d18_read_type_def)
  next
    case False
    let ?t = "prev + delta" and ?r1 = "r\<lparr>rd_pos := rd_pos r + n\<rparr>"
    have none: "kvp_body_len True ?t (rd_rest ?r1) = None"
      using assms(2) False dec b(2) by (auto simp: kvp_step_def kvp_dec_vi64 split: option.splits)
    have "\<exists>f r2. d18_read_value ?t ?r1 = (Inl f, r2)"
    proof (cases "vi64_dec (rd_rest ?r1)")
      case None
      then show ?thesis using read_vi64_rest(2) [OF b(1)] by (auto simp: d18_read_value_def split: prod.splits sum.splits)
    next
      case (Some y)
      then obtain v j where v: "vi64_dec (rd_rest ?r1) = Some (v, j)" by (cases y) simp
      then have "?t AND 1 \<noteq> 0" "length (rd_rest ?r1) - j < unat v"
        using none by (auto simp: kvp_body_len_def kvp_dec_vi64 split: if_splits)
      then show ?thesis
        using behind_integer(4) [OF b(1) v] read_vi64_rest(1) [OF b(1) v] by (simp add: d18_read_value_def)
    qed
    then show ?thesis using rd False by (simp add: d18_read_type_def)
  qed
qed

text \<open>\<open>moq_d22_decode_kvp\<close> reads the same pairs.\<close>

lemma decode_kvp_d18:
  assumes "reader_valid r" and "d18_read_type prev r = (Inr t, r1)" and "d18_read_value t r1 = (x, r2)"
  shows "x = Inl f \<Longrightarrow> \<exists>e. fst (moq_d22_decode_kvp prev r) = Inl e"
    "x = Inr v \<Longrightarrow> moq_d22_decode_kvp prev r
       = (Inr (case v of Inl b \<Rightarrow> \<lparr>k_type = t, k_integer = 0, k_bytes = b\<rparr> | Inr v \<Rightarrow> \<lparr>k_type = t, k_integer = v, k_bytes = Null 0\<rparr>), r2)"
proof -
  from assms(2) obtain delta where d: "moq_buf_read_vi64 r = (Inr delta, r1)" "\<not> UINT64_MAX - prev < delta" "t = prev + delta"
    by (auto simp: d18_read_type_def split: prod.splits sum.splits if_splits)
  have r1: "reader_valid r1" using io_vi64.rd_step [OF d(1)] by blast
  have raw: "moq_buf_read_raw (unat n) r3 = (Inr (ptake (unat n) (moq_buf_reader_ptr r3)), r3\<lparr>rd_pos := rd_pos r3 + unat n\<rparr>)"
    if "moq_buf_read_vi64 r1 = (Inr n, r3)" "unat n \<le> moq_buf_reader_remaining r3" for n r3
    using that io_vi64.rd_step [OF that(1)]
    by (cases "rd_data r3") (auto simp: moq_buf_read_raw_def moq_buf_reader_ptr_def moq_buf_reader_remaining_def reader_valid_def)
  show "\<exists>e. fst (moq_d22_decode_kvp prev r) = Inl e" if "x = Inl f"
    using assms(1,3) that d
    by (auto simp: moq_d22_decode_kvp_def d18_read_value_def rd_local_def rd_then_def Let_def MOQ_D22_MAX_KVP_def
        word_less_nat_alt split: prod.splits sum.splits if_splits)
  show "moq_d22_decode_kvp prev r
       = (Inr (case v of Inl b \<Rightarrow> \<lparr>k_type = t, k_integer = 0, k_bytes = b\<rparr> | Inr v \<Rightarrow> \<lparr>k_type = t, k_integer = v, k_bytes = Null 0\<rparr>), r2)"
    if "x = Inr v"
    using assms(1,3) that d raw
    by (auto simp: moq_d22_decode_kvp_def d18_read_value_def rd_local_def rd_then_def rd_return_def Let_def MOQ_D22_MAX_KVP_def
        word_less_nat_alt split: prod.splits sum.splits if_splits)
qed

lemma decode_kvp_pair:
  assumes "reader_valid r" and "length (rd_rest r) \<le> 65535" and "kvp_step True prev (rd_rest r) = Some (t, n, k)"
  shows "moq_d22_decode_kvp prev r = (Inr (pair_kvp (t, take k (drop n (rd_rest r)))), r\<lparr>rd_pos := rd_pos r + (n + k)\<rparr>)"
  using decode_kvp_d18(2) [OF assms(1) d18_pair_read [OF assms] refl] by (simp only: pair_kvp_def fst_conv)

lemma decode_kvp_fault:
  assumes "reader_valid r" and "kvp_step True prev (rd_rest r) = None"
  shows "\<exists>e r1. moq_d22_decode_kvp prev r = (Inl e, r1)"
  using d18_pair_fault [OF assms]
proof
  assume "\<exists>f r1. d18_read_type prev r = (Inl f, r1)"
  then show ?thesis
    using assms(1) by (auto simp: d18_read_type_def moq_d22_decode_kvp_def rd_local_def rd_then_def rd_fail_def
        split: prod.splits sum.splits if_splits)
next
  assume "\<exists>t r1 f r2. d18_read_type prev r = (Inr t, r1) \<and> d18_read_value t r1 = (Inl f, r2)"
  then show ?thesis using decode_kvp_d18(1) [OF assms(1)] by (metis eq_fst_iff)
qed

section \<open>Walking the pairs\<close>

text \<open>The steps of a walk over a list of pairs, up to the first refusal.\<close>

fun step_all :: "('e \<Rightarrow> 's \<Rightarrow> 's option) \<Rightarrow> 'e list \<Rightarrow> 's \<Rightarrow> 's option" where
  "step_all step [] s = Some s"
| "step_all step (e # es) s = (case step e s of None \<Rightarrow> None | Some s1 \<Rightarrow> step_all step es s1)"

text \<open>
  What the walks have in common: \<open>loop\<close> goes over the pairs of a block and acts on each by \<open>step\<close>; \<open>clean\<close>
  reads the state off a result without a complaint. \<open>fine\<close> holds for the states without a complaint.
\<close>

locale pair_walk =
  fixes loop :: "moq_buf_reader \<Rightarrow> u64 \<Rightarrow> 's \<Rightarrow> 'r" and clean :: "'r \<Rightarrow> 's option"
    and step :: "u64 \<times> u8 list \<Rightarrow> 's \<Rightarrow> 's option" and fine :: "'s \<Rightarrow> bool"
  assumes walk_end: "reader_valid r \<Longrightarrow> rd_rest r = [] \<Longrightarrow> fine s \<Longrightarrow> clean (loop r prev s) = Some s"
    and walk_fault: "reader_valid r \<Longrightarrow> rd_rest r \<noteq> [] \<Longrightarrow> length (rd_rest r) \<le> 65535 \<Longrightarrow> fine s \<Longrightarrow>
      kvp_step True prev (rd_rest r) = None \<Longrightarrow> clean (loop r prev s) = None"
    and walk_stop: "reader_valid r \<Longrightarrow> length (rd_rest r) \<le> 65535 \<Longrightarrow> fine s \<Longrightarrow>
      kvp_step True prev (rd_rest r) = Some (t, n, k) \<Longrightarrow> step (t, take k (drop n (rd_rest r))) s = None \<Longrightarrow>
      clean (loop r prev s) = None"
    and walk_next: "reader_valid r \<Longrightarrow> length (rd_rest r) \<le> 65535 \<Longrightarrow> fine s \<Longrightarrow>
      kvp_step True prev (rd_rest r) = Some (t, n, k) \<Longrightarrow> step (t, take k (drop n (rd_rest r))) s = Some s1 \<Longrightarrow>
      clean (loop r prev s) = clean (loop (r\<lparr>rd_pos := rd_pos r + (n + k)\<rparr>) t s1) \<and> fine s1"
begin

lemma walk_parse:
  assumes "reader_valid r" and "length (rd_rest r) \<le> 65535" and "fine s"
  shows "clean (loop r prev s) = (case kvp_parse True prev (rd_rest r) of None \<Rightarrow> None | Some es \<Rightarrow> step_all step es s)"
  using assms
proof (induction "length (rd_rest r)" arbitrary: r prev s rule: less_induct)
  case less
  show ?case
  proof (cases "rd_rest r = []")
    case True
    then show ?thesis using walk_end [OF less.prems(1) True less.prems(3)] by simp
  next
    case False
    show ?thesis
    proof (cases "kvp_step True prev (rd_rest r)")
      case None
      then show ?thesis using walk_fault [OF less.prems(1) False less.prems(2,3) None] False by (simp add: kvp_parse.simps)
    next
      case (Some x)
      then obtain t n k where st: "kvp_step True prev (rd_rest r) = Some (t, n, k)" by (cases x) auto
      let ?e = "(t, take k (drop n (rd_rest r)))" and ?r1 = "r\<lparr>rd_pos := rd_pos r + (n + k)\<rparr>"
      note b = step_type [OF less.prems(1) st]
      have r1: "reader_valid ?r1" "rd_rest ?r1 = drop (n + k) (rd_rest r)"
        using reader_valid_advance [OF less.prems(1) b(4)] rd_rest_advance [of r "n + k"] by simp_all
      have parse: "kvp_parse True prev (rd_rest r) = map_option ((#) ?e) (kvp_parse True t (rd_rest ?r1))"
        using False st r1(2) by (simp add: kvp_parse.simps [of True prev])
      show ?thesis
      proof (cases "step ?e s")
        case None
        then show ?thesis using walk_stop [OF less.prems st None] parse by (simp split: option.split)
      next
        case (Some s1)
        note next1 = walk_next [OF less.prems st Some]
        have "length (rd_rest ?r1) < length (rd_rest r)" using r1(2) b(4,5) by simp
        then have "clean (loop ?r1 t s1) = (case kvp_parse True t (rd_rest ?r1) of None \<Rightarrow> None | Some es \<Rightarrow> step_all step es s1)"
          using less.hyps [of ?r1 s1 t] r1(1) less.prems(2) next1 by simp
        then show ?thesis using next1 parse Some by (simp split: option.split)
      qed
    qed
  qed
qed

lemma walk_block:
  assumes "length bs \<le> 65535" and "fine s"
  shows "clean (loop (moq_buf_reader_init (Arr bs)) 0 s)
    = (case kvp_parse True 0 bs of None \<Rightarrow> None | Some es \<Rightarrow> step_all step es s)"
  using walk_parse [of "moq_buf_reader_init (Arr bs)" s 0] assms
  by (simp add: moq_buf_reader_init_def rd_rest_def reader_valid_def)

end

section \<open>What the walks check\<close>

text \<open>A step that also walks the block inside an IMMUTABLE_PROPERTIES pair, where such a pair is refused.\<close>

definition no_container :: "(u64 \<times> u8 list \<Rightarrow> 's \<Rightarrow> 's option) \<Rightarrow> u64 \<times> u8 list \<Rightarrow> 's \<Rightarrow> 's option" where
  "no_container flat e s = (if fst e = D18_PROP_IMMUTABLE then None else flat e s)"

definition with_container :: "(u64 \<times> u8 list \<Rightarrow> 's \<Rightarrow> 's option) \<Rightarrow> u64 \<times> u8 list \<Rightarrow> 's \<Rightarrow> 's option" where
  "with_container flat e s =
     (case flat e s of None \<Rightarrow> None
      | Some s1 \<Rightarrow>
          if fst e = D18_PROP_IMMUTABLE then
            (case kvp_parse True 0 (kvp_payload True (snd e)) of None \<Rightarrow> None
             | Some es \<Rightarrow> step_all (no_container flat) es s1)
          else Some s1)"

lemma payload_short:
  "reader_valid r \<Longrightarrow> length (rd_rest r) \<le> 65535 \<Longrightarrow> length (kvp_payload True (take k (drop n (rd_rest r)))) \<le> 65535"
  by (auto simp: kvp_payload_def split: option.split)

text \<open>What a round of a walk comes to, whatever the walk does with the pair.\<close>

definition round_of :: "(bool \<Rightarrow> moq_buf_reader \<Rightarrow> u64 \<Rightarrow> 's \<Rightarrow> 'r) \<Rightarrow> ('r \<Rightarrow> 's option)
    \<Rightarrow> (u64 \<times> u8 list \<Rightarrow> 's \<Rightarrow> 's option) \<Rightarrow> bool \<Rightarrow> u64 \<times> u8 list \<Rightarrow> moq_buf_reader \<Rightarrow> 's \<Rightarrow> 's option" where
  "round_of loop clean flat nested e r1 s =
     (case flat e s of None \<Rightarrow> None
      | Some s1 \<Rightarrow>
          if fst e = D18_PROP_IMMUTABLE then
            if nested then None
            else (case clean (loop True (moq_buf_reader_init (Arr (kvp_payload True (snd e)))) 0 s1) of
                    None \<Rightarrow> None | Some s2 \<Rightarrow> clean (loop nested r1 (fst e) s2))
          else clean (loop nested r1 (fst e) s1))"

text \<open>
  The walks with their recursion: \<open>loop nested\<close> acts on a pair by \<open>flat\<close> and walks the block inside an
  IMMUTABLE_PROPERTIES pair with \<open>nested\<close> set, where such a pair ends the walk with a complaint.
\<close>

locale container_walk =
  fixes loop :: "bool \<Rightarrow> moq_buf_reader \<Rightarrow> u64 \<Rightarrow> 's \<Rightarrow> 'r" and clean :: "'r \<Rightarrow> 's option"
    and flat :: "u64 \<times> u8 list \<Rightarrow> 's \<Rightarrow> 's option" and fine :: "'s \<Rightarrow> bool"
  assumes loop_end: "reader_valid r \<Longrightarrow> rd_rest r = [] \<Longrightarrow> fine s \<Longrightarrow> clean (loop nested r prev s) = Some s"
    and loop_fault: "reader_valid r \<Longrightarrow> rd_rest r \<noteq> [] \<Longrightarrow> length (rd_rest r) \<le> 65535 \<Longrightarrow> fine s \<Longrightarrow>
      kvp_step True prev (rd_rest r) = None \<Longrightarrow> clean (loop nested r prev s) = None"
    and flat_fine: "fine s \<Longrightarrow> flat e s = Some s1 \<Longrightarrow> fine s1"
    and loop_round: "reader_valid r \<Longrightarrow> length (rd_rest r) \<le> 65535 \<Longrightarrow> fine s \<Longrightarrow>
      kvp_step True prev (rd_rest r) = Some (t, n, k) \<Longrightarrow>
      clean (loop nested r prev s)
        = round_of loop clean flat nested (t, take k (drop n (rd_rest r))) (r\<lparr>rd_pos := rd_pos r + (n + k)\<rparr>) s"

sublocale container_walk \<subseteq> inner: pair_walk "loop True" clean "no_container flat" fine
proof
  fix r s prev t n k s1
  assume r: "reader_valid r" "length (rd_rest r) \<le> 65535" "fine s" "kvp_step True prev (rd_rest r) = Some (t, n, k)"
  note round = loop_round [OF r, of True, unfolded round_of_def fst_conv snd_conv]
  show "clean (loop True r prev s) = None" if "no_container flat (t, take k (drop n (rd_rest r))) s = None"
    using that round by (auto simp: no_container_def split: if_splits option.split)
  show "clean (loop True r prev s) = clean (loop True (r\<lparr>rd_pos := rd_pos r + (n + k)\<rparr>) t s1) \<and> fine s1"
    if "no_container flat (t, take k (drop n (rd_rest r))) s = Some s1"
    using that round flat_fine [OF r(3)] by (auto simp: no_container_def split: if_splits)
qed (auto intro: loop_end loop_fault)

lemma step_all_fine:
  "(\<And>e s s1. fine s \<Longrightarrow> step e s = Some s1 \<Longrightarrow> fine s1) \<Longrightarrow> fine s \<Longrightarrow> step_all step es s = Some s1 \<Longrightarrow> fine s1"
  by (induction es arbitrary: s) (auto split: option.splits)

sublocale container_walk \<subseteq> outer: pair_walk "loop False" clean "with_container flat" fine
proof
  fix r s prev t n k s1
  assume r: "reader_valid r" "length (rd_rest r) \<le> 65535" "fine s" "kvp_step True prev (rd_rest r) = Some (t, n, k)"
  let ?e = "(t, take k (drop n (rd_rest r)))" and ?b = "kvp_payload True (take k (drop n (rd_rest r)))"
  have inside: "clean (loop True (moq_buf_reader_init (Arr ?b)) 0 s2)
      = (case kvp_parse True 0 ?b of None \<Rightarrow> None | Some es \<Rightarrow> step_all (no_container flat) es s2)" if "fine s2" for s2
    by (rule inner.walk_block [OF payload_short [OF r(1,2)] that])
  have kept: "fine s1" if "with_container flat ?e s = Some s1" for s1
  proof -
    from that obtain s2 where s2: "flat ?e s = Some s2" "s1 = s2 \<or> (\<exists>es. step_all (no_container flat) es s2 = Some s1)"
      by (auto simp: with_container_def split: option.splits if_splits)
    have fine2: "fine s2" by (rule flat_fine [OF r(3) s2(1)])
    have step: "fine s4" if "fine s3" "no_container flat e s3 = Some s4" for e s3 s4
      using that flat_fine by (simp add: no_container_def split: if_splits)
    have "fine s1" if "step_all (no_container flat) es s2 = Some s1" for es
      by (rule step_all_fine [of fine "no_container flat", OF _ fine2 that]) (rule step)
    then show ?thesis using s2(2) fine2 by blast
  qed
  note round = loop_round [OF r, of False, unfolded round_of_def fst_conv snd_conv]
  show "clean (loop False r prev s) = None" if "with_container flat ?e s = None"
    using that round flat_fine [OF r(3)] by (auto simp: with_container_def inside split: if_splits option.splits)
  show "clean (loop False r prev s) = clean (loop False (r\<lparr>rd_pos := rd_pos r + (n + k)\<rparr>) t s1) \<and> fine s1"
    if "with_container flat ?e s = Some s1"
    using kept [OF that] that round flat_fine [OF r(3)]
    by (auto simp: with_container_def inside split: if_splits option.splits)
qed (auto intro: loop_end loop_fault)

definition okay :: "moq_result \<times> 's \<Rightarrow> 's option" where
  "okay x = (if fst x = MOQ_OK then Some (snd x) else None)"

abbreviation pair_int :: "u64 \<times> u8 list \<Rightarrow> u64" where
  "pair_int e \<equiv> kvp_body_val True (snd e)"

definition ranges_flat :: "u64 \<times> u8 list \<Rightarrow> bool option \<Rightarrow> bool option option" where
  "ranges_flat e m =
     (if fst e = 0x22 \<and> (pair_int e < 1 \<or> 2 < pair_int e) \<or> fst e = 0x30 \<and> 1 < pair_int e then None
      else Some (if mandatory_type (fst e) then map_option (\<lambda>_. True) m else m))"

lemma remaining_zero: "reader_valid r \<Longrightarrow> moq_buf_reader_remaining r = 0 \<longleftrightarrow> rd_rest r = []"
  by (simp add: reader_remaining_eq)

lemma step_nonempty: "kvp_step True prev [] = None"
  by (auto simp: kvp_step_def kvp_dec_vi64 split: option.split dest: vi64.dec_bounds)

lemma step_remaining:
  "reader_valid r \<Longrightarrow> kvp_step True prev (rd_rest r) = Some x \<Longrightarrow> moq_buf_reader_remaining r \<noteq> 0"
  using step_nonempty [of prev] by (auto simp: remaining_zero)

lemma pair_kvp_simps [simp]:
  "k_type (pair_kvp e) = fst e"
  "fst e AND 1 = 0 \<Longrightarrow> k_integer (pair_kvp e) = pair_int e"
  "fst e AND 1 \<noteq> 0 \<Longrightarrow> k_bytes (pair_kvp e) = Arr (kvp_payload True (snd e))"
  by (auto simp: pair_kvp_def pair_value_def)

lemma okay_fail [simp]: "rc \<noteq> MOQ_OK \<Longrightarrow> okay (rc, s) = None" and okay_ok [simp]: "okay (MOQ_OK, s) = Some s"
  by (simp_all add: okay_def)

lemma okay_case: "okay (case x of (rc, s) \<Rightarrow> if rc \<noteq> MOQ_OK then (rc, s) else f s) = (case okay x of None \<Rightarrow> None | Some s \<Rightarrow> okay (f s))"
  by (cases x) (simp add: okay_def)

lemma decode_kvp_code: "moq_d22_decode_kvp prev r = (Inl e, r1) \<Longrightarrow> (if e = MOQ_ERR_BUFFER then MOQ_ERR_PROTO else e) \<noteq> MOQ_OK"
  by (auto simp: moq_d22_decode_kvp_def rd_local_def rd_then_def rd_fail_def rd_return_def Let_def moq_buf_read_vi64_def
      moq_buf_read_raw_def split: if_splits prod.splits sum.splits option.splits)

text \<open>One round of \<open>property_ranges_loop\<close> on a pair.\<close>

lemma ranges_round:
  assumes "reader_valid r" and "length (rd_rest r) \<le> 65535" and "kvp_step True prev (rd_rest r) = Some (t, n, k)"
  defines "e \<equiv> (t, take k (drop n (rd_rest r)))" and "r1 \<equiv> r\<lparr>rd_pos := rd_pos r + (n + k)\<rparr>"
  shows "okay (property_ranges_loop nested r prev m) = round_of property_ranges_loop okay ranges_flat nested e r1 m"
proof -
  have dec: "moq_d22_decode_kvp prev r = (Inr (pair_kvp e), r1)" unfolding e_def r1_def by (rule decode_kvp_pair [OF assms(1-3)])
  have t: "fst e = t" by (simp add: e_def)
  have even: "t = 0x22 \<Longrightarrow> k_integer (pair_kvp e) = pair_int e" "t = 0x30 \<Longrightarrow> k_integer (pair_kvp e) = pair_int e"
    by (simp_all add: t)
  have odd: "t = 0x0b \<Longrightarrow> k_bytes (pair_kvp e) = Arr (kvp_payload True (snd e))" by (simp add: t)
  have types: "\<not> mandatory_type 0x22" "\<not> mandatory_type 0x30" "\<not> mandatory_type 0x0b"
    by (simp_all add: mandatory_type_def)
  have unfold: "property_ranges_loop nested r prev m =
     (let m1 = (if mandatory_type t then map_option (\<lambda>_. True) m else m) in
      if t = 0x22 \<and> (k_integer (pair_kvp e) < 1 \<or> 2 < k_integer (pair_kvp e)) then (MOQ_ERR_PROTO, m1)
      else if t = 0x30 \<and> 1 < k_integer (pair_kvp e) then (MOQ_ERR_PROTO, m1)
      else if t = 0x0b then
        if nested then (MOQ_ERR_PROTO, m1)
        else (case property_ranges_loop True (moq_buf_reader_init (k_bytes (pair_kvp e))) 0 m1 of
                (rc, m2) \<Rightarrow> if rc \<noteq> MOQ_OK then (rc, m2) else property_ranges_loop nested r1 t m2)
      else property_ranges_loop nested r1 t m1)"
    by (subst property_ranges_loop.simps, unfold if_not_P [OF step_remaining [OF assms(1,3)]] dec prod.case sum.case
        pair_kvp_simps(1) t) (rule refl)
  consider "t = 0x22" | "t = 0x30" | "t = 0x0b" | "t \<noteq> 0x22" "t \<noteq> 0x30" "t \<noteq> 0x0b" by blast
  then show ?thesis
    unfolding round_of_def t by cases (simp_all add: unfold t even odd types ranges_flat_def okay_case Let_def)
qed

interpretation range_walk: container_walk property_ranges_loop okay ranges_flat "\<lambda>_. True"
proof
  fix r s nested prev assume r: "reader_valid r"
  show "okay (property_ranges_loop nested r prev s) = Some s" if "rd_rest r = []"
    using that r by (simp add: property_ranges_loop.simps [of nested r] remaining_zero)
  show "okay (property_ranges_loop nested r prev s) = None" if rest: "rd_rest r \<noteq> []" "kvp_step True prev (rd_rest r) = None"
  proof -
    obtain e r1 where dec: "moq_d22_decode_kvp prev r = (Inl e, r1)" using decode_kvp_fault [OF r rest(2)] by blast
    show ?thesis using decode_kvp_code [OF dec] rest(1) r
      by (simp add: property_ranges_loop.simps [of nested r] dec remaining_zero)
  qed
next
  fix r and s :: "bool option" and nested prev t n k
  assume "reader_valid r" "length (rd_rest r) \<le> 65535" "kvp_step True prev (rd_rest r) = Some (t, n, k)"
  then show "okay (property_ranges_loop nested r prev s) = round_of property_ranges_loop okay ranges_flat nested
      (t, take k (drop n (rd_rest r))) (r\<lparr>rd_pos := rd_pos r + (n + k)\<rparr>) s"
    by (rule ranges_round)
qed simp

text \<open>The draft-18 walks: what each does with one pair outside a container.\<close>

definition defaults_flat :: "u64 \<times> u8 list \<Rightarrow> track_defaults \<Rightarrow> track_defaults option" where
  "defaults_flat e d =
     (if fst e = 0x02 \<and> td_object d \<noteq> None then
        if fst (the (td_object d)) then None else Some (d\<lparr>td_object := Some (True, pair_int e)\<rparr>)
      else if fst e = 0x06 \<and> td_subgroup d \<noteq> None then
        if fst (the (td_subgroup d)) then None else Some (d\<lparr>td_subgroup := Some (True, pair_int e)\<rparr>)
      else if fst e = 0x0E \<and> td_priority d \<noteq> None then
        if 255 < pair_int e then None else Some (d\<lparr>td_priority := Some (ucast (pair_int e))\<rparr>)
      else Some d)"

definition validate_flat :: "bool \<Rightarrow> u64 \<times> u8 list \<Rightarrow> bool option \<times> bool option \<Rightarrow> (bool option \<times> bool option) option" where
  "validate_flat inbound e outs =
     (if mandatory_type (fst e) then if fst outs = None then None else Some (Some True, snd outs)
      else if fst e = D18_PROP_DYNAMIC_GROUPS then
        if 1 < pair_int e then None
        else Some (if pair_int e = 1 then (fst outs, map_option (\<lambda>_. True) (snd outs)) else outs)
      else if inbound \<and> fst e = D18_PROP_DEFAULT_PUBLISHER_GROUP_ORDER \<and> (pair_int e < 1 \<or> 2 < pair_int e) then None
      else Some outs)"

lemma not_mandatory [simp]:
  "\<not> mandatory_type 0x0B" "\<not> mandatory_type 0x22" "\<not> mandatory_type 0x30" "\<not> mandatory_type 0x3C" "\<not> mandatory_type 0x3E"
  by (simp_all add: mandatory_type_def)

lemma odd_types:
  fixes t :: u64
  assumes "t AND 1 \<noteq> 0"
  shows "t \<noteq> 0x02" "t \<noteq> 0x06" "t \<noteq> 0x0E" "t \<noteq> 0x22" "t \<noteq> 0x30" "t \<noteq> 0x3C" "t \<noteq> 0x3E"
  using assms by auto

lemma even_types:
  fixes t :: u64
  assumes "t AND 1 = 0"
  shows "t \<noteq> 0x0B"
  using assms by auto

lemma pair_value_cases:
  obtains (odd) "fst e AND 1 \<noteq> 0" "pair_value e = Inl (Arr (kvp_payload True (snd e)))"
    | (even) "fst e AND 1 = 0" "pair_value e = Inr (pair_int e)"
  by (cases "fst e AND 1 = 0") (auto simp: pair_value_def)

lemma defaults_round:
  assumes "reader_valid r" and "length (rd_rest r) \<le> 65535" and "kvp_step True prev (rd_rest r) = Some (t, n, k)"
  shows "okay (track_defaults_loop nested r prev d)
    = round_of track_defaults_loop okay defaults_flat nested (t, take k (drop n (rd_rest r))) (r\<lparr>rd_pos := rd_pos r + (n + k)\<rparr>) d"
proof -
  define e where "e = (t, take k (drop n (rd_rest r)))"
  note rd = d18_pair_read [OF assms, folded e_def] and t = arg_cong [OF e_def, of fst, unfolded fst_conv]
  note unfold = track_defaults_loop.simps [of nested r prev d, unfolded if_not_P [OF step_remaining [OF assms(1,3)]] rd(1)
      prod.case sum.case rd(2)]
  show ?thesis
    unfolding e_def [symmetric]
  proof (cases e rule: pair_value_cases)
    case odd
    note ty = odd_types [OF odd(1), unfolded t]
    show "okay (track_defaults_loop nested r prev d) = round_of track_defaults_loop okay defaults_flat nested e (r\<lparr>rd_pos := rd_pos r + (n + k)\<rparr>) d"
      unfolding unfold odd(2) sum.case round_of_def t using ty by (simp add: defaults_flat_def t okay_case)
  next
    case even
    show "okay (track_defaults_loop nested r prev d) = round_of track_defaults_loop okay defaults_flat nested e (r\<lparr>rd_pos := rd_pos r + (n + k)\<rparr>) d"
      unfolding unfold even(2) sum.case round_of_def t using even_types [OF even(1)]
      by (cases "td_object d"; cases "td_subgroup d"; cases "td_priority d") (simp_all add: defaults_flat_def t)
  qed
qed

lemma validate_round:
  assumes "reader_valid r" and "length (rd_rest r) \<le> 65535" and "kvp_step True prev (rd_rest r) = Some (t, n, k)"
  shows "okay (validate_props_loop inbound nested r prev outs)
    = round_of (validate_props_loop inbound) okay (validate_flat inbound) nested (t, take k (drop n (rd_rest r)))
        (r\<lparr>rd_pos := rd_pos r + (n + k)\<rparr>) outs"
proof -
  define e where "e = (t, take k (drop n (rd_rest r)))"
  note rd = d18_pair_read [OF assms, folded e_def] and t = arg_cong [OF e_def, of fst, unfolded fst_conv]
  note unfold = validate_props_loop.simps [of inbound nested r prev outs, unfolded
      if_not_P [OF step_remaining [OF assms(1,3)]] rd(1) prod.case sum.case rd(2)]
  obtain m d where outs: "outs = (m, d)" by fastforce
  show ?thesis
    unfolding e_def [symmetric]
  proof (cases e rule: pair_value_cases)
    case odd
    note ty = odd_types [OF odd(1), unfolded t]
    show "okay (validate_props_loop inbound nested r prev outs) = round_of (validate_props_loop inbound) okay
        (validate_flat inbound) nested e (r\<lparr>rd_pos := rd_pos r + (n + k)\<rparr>) outs"
      unfolding unfold odd(2) sum.case round_of_def t using ty
      by (cases m; cases "t = D18_PROP_IMMUTABLE") (simp_all add: validate_flat_def t okay_case outs Let_def)
  next
    case even
    show "okay (validate_props_loop inbound nested r prev outs) = round_of (validate_props_loop inbound) okay
        (validate_flat inbound) nested e (r\<lparr>rd_pos := rd_pos r + (n + k)\<rparr>) outs"
      unfolding unfold even(2) sum.case round_of_def t using even_types [OF even(1)] t
      by (cases m; cases "mandatory_type t"; cases "t = D18_PROP_DYNAMIC_GROUPS"; cases "t = D18_PROP_DEFAULT_PUBLISHER_GROUP_ORDER")
        (auto simp: validate_flat_def t outs Let_def)
  qed
qed

lemma walk_ends [simp]:
  "reader_valid r \<Longrightarrow> rd_rest r = [] \<Longrightarrow> track_defaults_loop nested r prev d = (MOQ_OK, d)"
  "reader_valid r \<Longrightarrow> rd_rest r = [] \<Longrightarrow> validate_props_loop inbound nested r prev outs = (MOQ_OK, outs)"
  "reader_valid r \<Longrightarrow> rd_rest r = [] \<Longrightarrow> object_props_loop nested r prev s = (MOQ_OK, s)"
  by (simp_all add: track_defaults_loop.simps [of nested r] validate_props_loop.simps [of inbound nested r]
      object_props_loop.simps [of nested r] remaining_zero)

interpretation defaults_walk: container_walk track_defaults_loop okay defaults_flat "\<lambda>_. True"
proof
  fix r and s :: track_defaults and nested prev
  assume r: "reader_valid r" "rd_rest r \<noteq> []" and none: "kvp_step True prev (rd_rest r) = None"
  show "okay (track_defaults_loop nested r prev s) = None"
    using d18_pair_fault [OF r(1) none] r
    by (auto simp: track_defaults_loop.simps [of nested r] remaining_zero)
qed (auto intro: defaults_round)

interpretation props_walk: container_walk "validate_props_loop inbound" okay "validate_flat inbound" "\<lambda>_. True" for inbound
proof
  fix r and s :: "bool option \<times> bool option" and nested prev
  assume r: "reader_valid r" "rd_rest r \<noteq> []" and none: "kvp_step True prev (rd_rest r) = None"
  show "okay (validate_props_loop inbound nested r prev s) = None"
    using d18_pair_fault [OF r(1) none] r
    by (auto simp: validate_props_loop.simps [of inbound nested r] remaining_zero Let_def)
qed (auto intro: validate_round)

text \<open>Object Properties: a violation is noted and stays.\<close>

abbreviation noted :: "obj_props_state \<Rightarrow> bool" where
  "noted s \<equiv> os_malformed (ops_out s) \<noteq> MOQ_OBJ_PROPS_OK"

definition unnoted :: "moq_result \<times> obj_props_state \<Rightarrow> obj_props_state option" where
  "unnoted x = (if fst x = MOQ_OK \<and> \<not> noted (snd x) then Some (snd x) else None)"

definition object_flat :: "u64 \<times> u8 list \<Rightarrow> obj_props_state \<Rightarrow> obj_props_state option" where
  "object_flat e s =
     (if mandatory_type (fst e) then None
      else if fst e = D18_PROP_IMMUTABLE then if ops_immutable s then None else Some (s\<lparr>ops_immutable := True\<rparr>)
      else if fst e = D18_PROP_DYNAMIC_GROUPS \<and> 1 < pair_int e then None
      else if fst e = D18_PROP_PRIOR_GROUP_GAP then
        if ops_group_gap s then None
        else Some (s\<lparr>ops_group_gap := True, ops_out := (ops_out s)\<lparr>os_prior_group_gap := pair_int e\<rparr>\<rparr>)
      else if fst e = D18_PROP_PRIOR_OBJECT_GAP then
        if ops_object_gap s then None
        else Some (s\<lparr>ops_object_gap := True, ops_out := (ops_out s)\<lparr>os_prior_object_gap := pair_int e\<rparr>\<rparr>)
      else Some s)"

lemma note_noted: "v \<noteq> MOQ_OBJ_PROPS_OK \<Longrightarrow> noted (d18_obj_props_note v s)"
  by (simp add: d18_obj_props_note_def)

lemma note_keeps: "noted s \<Longrightarrow> d18_obj_props_note v s = s"
  by (simp add: d18_obj_props_note_def)

lemma noted_sticky: "noted s \<Longrightarrow> noted (snd (object_props_loop nested r prev s))"
proof (induction "moq_buf_reader_remaining r" arbitrary: nested r prev s rule: less_induct)
  case less
  note unfold = object_props_loop.simps [of nested r prev s]
  obtain x r1 where ty: "d18_read_type prev r = (x, r1)" by fastforce
  show ?case
  proof (cases "moq_buf_reader_remaining r = 0")
    case True
    then show ?thesis using less.prems by (simp add: unfold)
  next
    case ne: False
    show ?thesis
    proof (cases x)
      case (Inl f)
      then show ?thesis using less.prems ty ne by (cases f) (simp_all add: unfold note_keeps)
    next
      case (Inr t)
      note r1 = d18_read_type_step [OF ty [unfolded Inr]]
      obtain y r2 where val: "d18_read_value t r1 = (y, r2)" by fastforce
      note eq = unfold [unfolded if_not_P [OF ne] ty Inr prod.case sum.case val note_keeps [OF less.prems] if_cancel Let_def]
      show ?thesis
      proof (cases y)
        case (Inl f)
        then show ?thesis using less.prems by (cases f) (simp_all add: eq)
      next
        case (Inr z)
        note r2 = d18_read_value_step [OF val [unfolded Inr]]
        have ih: "noted s' \<Longrightarrow> noted (snd (object_props_loop nested' r2 t s'))" for nested' s'
          using less.hyps [of r2] r1 r2 by simp
        have ih_in: "noted s' \<Longrightarrow> z = Inl span \<Longrightarrow> noted (snd (object_props_loop True (moq_buf_reader_init span) 0 s'))" for s' span
          using less.hyps [of "moq_buf_reader_init span"] r1 r2 by simp
        show ?thesis
        proof (cases z)
          case (Inl span)
          show ?thesis
            using less.prems ih ih_in [OF _ Inl, of "s\<lparr>ops_immutable := True\<rparr>"] \<open>y = Inr z\<close> Inl
            by (cases "object_props_loop True (moq_buf_reader_init span) 0 (s\<lparr>ops_immutable := True\<rparr>)") (auto simp: eq)
        next
          case (Inr v)
          then show ?thesis using less.prems ih \<open>y = Inr z\<close> by (auto simp: eq)
        qed
      qed
    qed
  qed
qed

lemma noted_unclean: "noted s \<Longrightarrow> unnoted (object_props_loop nested r prev s) = None"
  using noted_sticky by (simp add: unnoted_def)

lemma unnoted_simps [simp]:
  "unnoted (MOQ_ERR_PROTO, s) = None" "noted s \<Longrightarrow> unnoted (rc, s) = None" "\<not> noted s \<Longrightarrow> unnoted (MOQ_OK, s) = Some s"
  by (simp_all add: unnoted_def)

lemma unnoted_case:
  assumes "\<And>s. noted s \<Longrightarrow> unnoted (f s) = None"
  shows "unnoted (case x of (rc, s) \<Rightarrow> if rc \<noteq> MOQ_OK then (rc, s) else f s)
    = (case unnoted x of None \<Rightarrow> None | Some s \<Rightarrow> unnoted (f s))"
proof -
  obtain rc s where x: "x = (rc, s)" by fastforce
  show ?thesis
  proof (cases "noted s")
    case True
    then show ?thesis using assms [OF True] by (simp add: x)
  next
    case False
    then show ?thesis by (cases "rc = MOQ_OK") (simp_all add: x unnoted_def)
  qed
qed

lemma object_round:
  assumes "reader_valid r" and "length (rd_rest r) \<le> 65535" and fine: "\<not> noted s"
    and "kvp_step True prev (rd_rest r) = Some (t, n, k)"
  shows "unnoted (object_props_loop nested r prev s)
    = round_of object_props_loop unnoted object_flat nested (t, take k (drop n (rd_rest r))) (r\<lparr>rd_pos := rd_pos r + (n + k)\<rparr>) s"
proof -
  define e where "e = (t, take k (drop n (rd_rest r)))"
  define r1 where "r1 = r\<lparr>rd_pos := rd_pos r + (n + k)\<rparr>"
  note rd = d18_pair_read [OF assms(1,2,4), folded e_def r1_def] and t = arg_cong [OF e_def, of fst, unfolded fst_conv]
  note unfold = object_props_loop.simps [of nested r prev s, unfolded
      if_not_P [OF step_remaining [OF assms(1,4)]] rd(1) prod.case sum.case rd(2)]
  have "unnoted (object_props_loop nested r prev s) = round_of object_props_loop unnoted object_flat nested e r1 s"
  proof (cases e rule: pair_value_cases)
    case odd
    note eq = unfold [unfolded odd(2) sum.case] and ty = odd_types [OF odd(1), unfolded t]
    consider "mandatory_type t" | "\<not> mandatory_type t" "t = D18_PROP_IMMUTABLE" | "\<not> mandatory_type t" "t \<noteq> D18_PROP_IMMUTABLE" by blast
    then show ?thesis
    proof cases
      case 1
      then have "t \<noteq> D18_PROP_IMMUTABLE" by auto
      then show ?thesis unfolding round_of_def t using 1 note_noted by (simp add: eq object_flat_def t noted_unclean)
    next
      case 2
      then show ?thesis
        unfolding round_of_def t by (cases "ops_immutable s")
          (simp_all add: eq object_flat_def t noted_unclean note_noted Let_def unnoted_case)
    next
      case 3
      then show ?thesis unfolding round_of_def t using ty by (simp add: eq object_flat_def t)
    qed
  next
    case even
    note eq = unfold [unfolded even(2) sum.case] and ty = even_types [OF even(1), unfolded t]
    consider "mandatory_type t" | "\<not> mandatory_type t" "t = D18_PROP_DYNAMIC_GROUPS" | "t = D18_PROP_PRIOR_GROUP_GAP"
      | "t = D18_PROP_PRIOR_OBJECT_GAP" | "\<not> mandatory_type t" "t \<noteq> D18_PROP_DYNAMIC_GROUPS" "t \<noteq> D18_PROP_PRIOR_GROUP_GAP"
        "t \<noteq> D18_PROP_PRIOR_OBJECT_GAP" by blast
    then show ?thesis
      unfolding round_of_def t using ty by cases (auto simp: eq object_flat_def t noted_unclean note_noted Let_def)
  qed
  then show ?thesis unfolding e_def r1_def .
qed

interpretation object_walk: container_walk object_props_loop unnoted object_flat "\<lambda>s. \<not> noted s"
proof
  fix r s nested prev
  assume r: "reader_valid r" "rd_rest r \<noteq> []" and none: "kvp_step True prev (rd_rest r) = None"
  show "unnoted (object_props_loop nested r prev s) = None"
    using d18_pair_fault [OF r(1) none] r
    by (auto simp: object_props_loop.simps [of nested r] remaining_zero Let_def note_noted split: d18_fault.split)
next
  fix s e s1 assume "\<not> noted s" "object_flat e s = Some s1"
  then show "\<not> noted s1" by (auto simp: object_flat_def split: if_splits)
qed (auto intro: object_round)

section \<open>The pairs a block states\<close>

text \<open>All pairs of a block in reading order, those inside IMMUTABLE_PROPERTIES after the pair that holds them;
  \<open>None\<close> when a block does not parse or a container stands inside another.\<close>

fun expand_pairs :: "(u64 \<times> u8 list) list \<Rightarrow> (u64 \<times> u8 list) list option" where
  "expand_pairs [] = Some []"
| "expand_pairs (e # es) =
     (case (if fst e = D18_PROP_IMMUTABLE then
              (case kvp_parse True 0 (kvp_payload True (snd e)) of None \<Rightarrow> None
               | Some xs \<Rightarrow> if \<exists>x \<in> set xs. fst x = D18_PROP_IMMUTABLE then None else Some xs)
            else Some []) of
        None \<Rightarrow> None
      | Some xs \<Rightarrow> map_option (\<lambda>ps. e # xs @ ps) (expand_pairs es))"

definition track_pairs :: "u8 list \<Rightarrow> (u64 \<times> u8 list) list option" where
  "track_pairs bs = (case kvp_parse True 0 bs of None \<Rightarrow> None | Some es \<Rightarrow> expand_pairs es)"

lemma step_all_append:
  "step_all step (xs @ ys) s = (case step_all step xs s of None \<Rightarrow> None | Some s1 \<Rightarrow> step_all step ys s1)"
  by (induction xs arbitrary: s) (auto split: option.split)

lemma step_all_no_container:
  "step_all (no_container flat) es s
     = (if \<exists>x \<in> set es. fst x = D18_PROP_IMMUTABLE then None else step_all flat es s)"
  by (induction es arbitrary: s) (auto simp: no_container_def split: option.split)

lemma step_all_expand:
  "step_all (with_container flat) es s = (case expand_pairs es of None \<Rightarrow> None | Some ps \<Rightarrow> step_all flat ps s)"
  by (induction es arbitrary: s)
    (auto simp: with_container_def step_all_no_container step_all_append split: option.split)

lemma block_walk:
  "(case kvp_parse True 0 bs of None \<Rightarrow> None | Some es \<Rightarrow> step_all (with_container flat) es s)
     = (case track_pairs bs of None \<Rightarrow> None | Some ps \<Rightarrow> step_all flat ps s)"
  by (simp add: track_pairs_def step_all_expand split: option.split)

lemmas range_block = range_walk.outer.walk_block [unfolded block_walk]
lemmas defaults_block = defaults_walk.outer.walk_block [unfolded block_walk]
lemmas props_block = props_walk.outer.walk_block [unfolded block_walk]
lemmas object_block = object_walk.outer.walk_block [unfolded block_walk]

text \<open>The values the walks refuse, and the outputs of a clean walk.\<close>

definition ranges_hold :: "u64 \<times> u8 list \<Rightarrow> bool" where
  "ranges_hold e \<longleftrightarrow> (fst e = 0x22 \<longrightarrow> 1 \<le> pair_int e \<and> pair_int e \<le> 2) \<and> (fst e = 0x30 \<longrightarrow> pair_int e \<le> 1)"

definition last_priority :: "(u64 \<times> u8 list) list \<Rightarrow> u64" where
  "last_priority ps = (case find (\<lambda>e. fst e = 0x0E) (rev ps) of None \<Rightarrow> 128 | Some e \<Rightarrow> pair_int e)"

lemma step_all_ranges:
  "step_all ranges_flat ps m =
     (if \<forall>e \<in> set ps. ranges_hold e
      then Some (if \<exists>e \<in> set ps. mandatory_type (fst e) then map_option (\<lambda>_. True) m else m) else None)"
proof (induction ps arbitrary: m)
  case (Cons e ps)
  have "ranges_flat e m = (if ranges_hold e then Some (if mandatory_type (fst e) then map_option (\<lambda>_. True) m else m) else None)"
    by (auto simp: ranges_flat_def ranges_hold_def not_less not_le)
  then show ?case using Cons by (auto simp: option.map_comp comp_def)
qed simp

lemma step_all_priority:
  "step_all defaults_flat ps \<lparr>td_object = None, td_subgroup = None, td_priority = Some p\<rparr> =
     (if \<forall>e \<in> set ps. fst e = 0x0E \<longrightarrow> pair_int e \<le> 255
      then Some \<lparr>td_object = None, td_subgroup = None, td_priority =
        Some (case find (\<lambda>e. fst e = 0x0E) (rev ps) of None \<Rightarrow> p | Some e \<Rightarrow> ucast (pair_int e))\<rparr> else None)"
proof (induction ps arbitrary: p)
  case (Cons e ps)
  have find: "find P (xs @ [x]) = (case find P xs of None \<Rightarrow> if P x then Some x else None | Some y \<Rightarrow> Some y)"
    for P and xs :: "(u64 \<times> u8 list) list" and x by (induction xs) auto
  show ?case using Cons by (auto simp: defaults_flat_def find not_less split: option.split)
qed simp

definition occurs :: "u64 \<Rightarrow> (u64 \<times> u8 list) list \<Rightarrow> nat" where
  "occurs t ps = length (filter (\<lambda>e. fst e = t) ps)"

definition object_pair_ok :: "u64 \<times> u8 list \<Rightarrow> bool" where
  "object_pair_ok e \<longleftrightarrow> \<not> mandatory_type (fst e) \<and> (fst e = 0x30 \<longrightarrow> pair_int e \<le> 1)"

text \<open>The value stated by the pair of type \<open>t\<close>, and by none the value \<open>v\<close>.\<close>

definition stated :: "u64 \<Rightarrow> (u64 \<times> u8 list) list \<Rightarrow> u64 \<Rightarrow> u64" where
  "stated t ps v = (case find (\<lambda>e. fst e = t) ps of None \<Rightarrow> v | Some e \<Rightarrow> pair_int e)"

definition once_more :: "bool \<Rightarrow> nat \<Rightarrow> bool" where
  "once_more seen n \<longleftrightarrow> (if seen then n = 0 else n \<le> 1)"

definition object_seen :: "(u64 \<times> u8 list) list \<Rightarrow> obj_props_state \<Rightarrow> obj_props_state" where
  "object_seen ps s = \<lparr>ops_immutable = (ops_immutable s \<or> 0 < occurs D18_PROP_IMMUTABLE ps),
     ops_group_gap = (ops_group_gap s \<or> 0 < occurs D18_PROP_PRIOR_GROUP_GAP ps),
     ops_object_gap = (ops_object_gap s \<or> 0 < occurs D18_PROP_PRIOR_OBJECT_GAP ps),
     ops_out = (ops_out s)\<lparr>os_prior_group_gap := stated D18_PROP_PRIOR_GROUP_GAP ps (os_prior_group_gap (ops_out s)),
       os_prior_object_gap := stated D18_PROP_PRIOR_OBJECT_GAP ps (os_prior_object_gap (ops_out s))\<rparr>\<rparr>"

lemma occurs_simps [simp]:
  "occurs t [] = 0" "occurs t (e # ps) = (if fst e = t then Suc (occurs t ps) else occurs t ps)"
  by (simp_all add: occurs_def)

lemma stated_simps: "stated t [] v = v" "stated t (e # ps) v = (if fst e = t then pair_int e else stated t ps v)"
  by (simp_all add: stated_def)

lemma stated_absent: "occurs t ps = 0 \<Longrightarrow> stated t ps v = v"
  by (induction ps) (auto simp: stated_simps split: if_splits)

lemma object_flat_iff:
  "object_flat e s = (if object_pair_ok e \<and> (fst e = D18_PROP_IMMUTABLE \<longrightarrow> \<not> ops_immutable s)
      \<and> (fst e = D18_PROP_PRIOR_GROUP_GAP \<longrightarrow> \<not> ops_group_gap s) \<and> (fst e = D18_PROP_PRIOR_OBJECT_GAP \<longrightarrow> \<not> ops_object_gap s)
     then Some (object_seen [e] s) else None)"
proof -
  have s: "s = \<lparr>ops_immutable = ops_immutable s, ops_group_gap = ops_group_gap s, ops_object_gap = ops_object_gap s, ops_out = ops_out s\<rparr>"
    by simp
  consider "fst e = D18_PROP_IMMUTABLE" | "fst e = D18_PROP_DYNAMIC_GROUPS" | "fst e = D18_PROP_PRIOR_GROUP_GAP"
    | "fst e = D18_PROP_PRIOR_OBJECT_GAP" | "fst e \<noteq> D18_PROP_IMMUTABLE" "fst e \<noteq> D18_PROP_DYNAMIC_GROUPS"
      "fst e \<noteq> D18_PROP_PRIOR_GROUP_GAP" "fst e \<noteq> D18_PROP_PRIOR_OBJECT_GAP" by blast
  then show ?thesis
    by cases (simp_all add: object_flat_def object_pair_ok_def object_seen_def stated_simps not_le flip: s)
qed

definition object_block_ok :: "(u64 \<times> u8 list) list \<Rightarrow> obj_props_state \<Rightarrow> bool" where
  "object_block_ok ps s \<longleftrightarrow> (\<forall>e \<in> set ps. object_pair_ok e) \<and> once_more (ops_immutable s) (occurs D18_PROP_IMMUTABLE ps)
     \<and> once_more (ops_group_gap s) (occurs D18_PROP_PRIOR_GROUP_GAP ps)
     \<and> once_more (ops_object_gap s) (occurs D18_PROP_PRIOR_OBJECT_GAP ps)"

lemma object_seen_Nil: "object_seen [] s = s"
  by (simp add: object_seen_def stated_simps)

lemma object_seen_Cons:
  "object_block_ok (e # ps) s \<Longrightarrow> object_seen ps (object_seen [e] s) = object_seen (e # ps) s"
  by (auto simp: object_seen_def object_block_ok_def once_more_def stated_simps stated_absent split: if_splits)

lemma object_block_ok_Cons:
  "object_block_ok (e # ps) s \<longleftrightarrow> object_pair_ok e \<and> (fst e = D18_PROP_IMMUTABLE \<longrightarrow> \<not> ops_immutable s)
      \<and> (fst e = D18_PROP_PRIOR_GROUP_GAP \<longrightarrow> \<not> ops_group_gap s) \<and> (fst e = D18_PROP_PRIOR_OBJECT_GAP \<longrightarrow> \<not> ops_object_gap s)
      \<and> object_block_ok ps (object_seen [e] s)"
  by (auto simp: object_block_ok_def object_seen_def once_more_def)

lemma step_all_object: "step_all object_flat ps s = (if object_block_ok ps s then Some (object_seen ps s) else None)"
proof (induction ps arbitrary: s)
  case Nil
  then show ?case by (simp add: object_block_ok_def once_more_def object_seen_Nil)
next
  case (Cons e ps)
  show ?case
    using object_seen_Cons [of e ps s] by (simp add: object_flat_iff [of e s] Cons object_block_ok_Cons)
qed

section \<open>Verdicts of the scans\<close>

lemma okay_Some: "okay x = Some s \<longleftrightarrow> x = (MOQ_OK, s)"
  by (cases x) (auto simp: okay_def)

lemma ranges_verdict:
  assumes "length bs \<le> 65535"
  shows "validate_property_ranges (Arr bs) False m = (MOQ_OK, m') \<longleftrightarrow>
    (\<exists>ps. track_pairs bs = Some ps \<and> (\<forall>e \<in> set ps. ranges_hold e)
       \<and> m' = (if \<exists>e \<in> set ps. mandatory_type (fst e) then map_option (\<lambda>_. True) m else m))"
  using range_block [OF assms TrueI, of m]
  by (auto simp: validate_property_ranges_def step_all_ranges simp flip: okay_Some split: option.splits if_splits)

lemma priority_verdict:
  assumes "length bs \<le> 65535"
  shows "moq_d18_scan_default_publisher_priority (Arr bs) = Inr p \<longleftrightarrow>
    (\<exists>ps. track_pairs bs = Some ps \<and> (\<forall>e \<in> set ps. fst e = 0x0E \<longrightarrow> pair_int e \<le> 255) \<and> p = ucast (last_priority ps))"
proof -
  let ?d = "\<lparr>td_object = None, td_subgroup = None, td_priority = Some 128\<rparr> :: track_defaults"
  obtain rc d where d: "track_defaults_loop False (moq_buf_reader_init (Arr bs)) 0 ?d = (rc, d)" by fastforce
  have "moq_d18_scan_default_publisher_priority (Arr bs) = Inr p \<longleftrightarrow> rc = MOQ_OK \<and> p = the (td_priority d)"
    by (auto simp: moq_d18_scan_default_publisher_priority_def d18_scan_track_defaults_inner_def d)
  also have "\<dots> \<longleftrightarrow> (\<exists>s. okay (rc, d) = Some s \<and> p = the (td_priority s))" by (auto simp: okay_def)
  also have "\<dots> \<longleftrightarrow> (\<exists>ps. track_pairs bs = Some ps \<and> (\<forall>e \<in> set ps. fst e = 0x0E \<longrightarrow> pair_int e \<le> 255) \<and> p = ucast (last_priority ps))"
    using defaults_block [OF assms TrueI, of ?d, unfolded d]
    by (auto simp: step_all_priority last_priority_def split: option.splits if_splits)
  finally show ?thesis .
qed


lemma scan_track_properties_iff:
  "scan_track_properties (Arr bs) mandatory = (MOQ_OK, m) \<longleftrightarrow>
     length bs \<le> 65535
     \<and> (\<exists>ps. track_pairs bs = Some ps \<and> (\<forall>e \<in> set ps. ranges_hold e \<and> (fst e = 0x0E \<longrightarrow> pair_int e \<le> 255))
        \<and> m = (if \<exists>e \<in> set ps. mandatory_type (fst e) then map_option (\<lambda>_. True) mandatory else mandatory))"
proof (cases "length bs \<le> 65535")
  case True
  obtain rc m1 where r: "validate_property_ranges (Arr bs) False mandatory = (rc, m1)" by fastforce
  have ok: "result_of x = MOQ_OK \<longleftrightarrow> (\<exists>p. x = Inr p)" if "x \<noteq> Inl MOQ_OK" for x :: "moq_result + u8"
    using that by (cases x) (auto simp: result_of_def)
  have "moq_d18_scan_default_publisher_priority (Arr bs) \<noteq> Inl MOQ_OK"
    by (auto simp: moq_d18_scan_default_publisher_priority_def split: prod.split)
  note ok = ok [OF this] and ranges = ranges_verdict [OF True, of mandatory, unfolded r]
  have "scan_track_properties (Arr bs) mandatory = (MOQ_OK, m) \<longleftrightarrow>
      (rc, m1) = (MOQ_OK, m) \<and> (\<exists>p. moq_d18_scan_default_publisher_priority (Arr bs) = Inr p)"
    using True by (auto simp: scan_track_properties_def r simp flip: ok)
  also have "\<dots> \<longleftrightarrow> (\<exists>ps. track_pairs bs = Some ps \<and> (\<forall>e \<in> set ps. ranges_hold e \<and> (fst e = 0x0E \<longrightarrow> pair_int e \<le> 255))
      \<and> m = (if \<exists>e \<in> set ps. mandatory_type (fst e) then map_option (\<lambda>_. True) mandatory else mandatory))"
    unfolding ranges priority_verdict [OF True] by (cases "track_pairs bs") (simp_all add: ball_conj_distrib conj_ac)
  finally show ?thesis using True by simp
qed (auto simp: scan_track_properties_def)

lemma unnoted_Some: "unnoted x = Some s \<longleftrightarrow> x = (MOQ_OK, s) \<and> \<not> noted s"
  by (cases x) (auto simp: unnoted_def)

text \<open>The result of a scan without a violation.\<close>

definition gaps_of :: "(u64 \<times> u8 list) list \<Rightarrow> moq_obj_props_scan" where
  "gaps_of ps = \<lparr>os_malformed = MOQ_OBJ_PROPS_OK,
     os_has_prior_group_gap = (0 < occurs D18_PROP_PRIOR_GROUP_GAP ps), os_has_prior_object_gap = (0 < occurs D18_PROP_PRIOR_OBJECT_GAP ps),
     os_prior_group_gap = stated D18_PROP_PRIOR_GROUP_GAP ps 0, os_prior_object_gap = stated D18_PROP_PRIOR_OBJECT_GAP ps 0\<rparr>"

definition object_pairs_ok :: "(u64 \<times> u8 list) list \<Rightarrow> bool" where
  "object_pairs_ok ps \<longleftrightarrow> (\<forall>e \<in> set ps. object_pair_ok e) \<and> occurs D18_PROP_IMMUTABLE ps \<le> 1
     \<and> occurs D18_PROP_PRIOR_GROUP_GAP ps \<le> 1 \<and> occurs D18_PROP_PRIOR_OBJECT_GAP ps \<le> 1"

lemma scan_object_properties_iff:
  assumes "length bs \<le> 65535" and clean: "os_malformed g = MOQ_OBJ_PROPS_OK"
  shows "moq_d18_scan_object_properties (Arr bs) out = (MOQ_OK, g) \<longleftrightarrow>
    (\<exists>ps. track_pairs bs = Some ps \<and> object_pairs_ok ps \<and> g = gaps_of ps)"
proof -
  let ?s = "\<lparr>ops_immutable = False, ops_group_gap = False, ops_object_gap = False, ops_out = obj_props_scan_zero\<rparr>"
  have fine: "\<not> noted ?s" by (simp add: obj_props_scan_zero_def)
  obtain rc s where w: "object_props_loop False (moq_buf_reader_init (Arr bs)) 0 ?s = (rc, s)" by fastforce
  define fin where "fin s = (ops_out s)\<lparr>os_has_prior_group_gap := ops_group_gap s, os_has_prior_object_gap := ops_object_gap s\<rparr>" for s :: obj_props_state
  have "moq_d18_scan_object_properties (Arr bs) out = (MOQ_OK, g) \<longleftrightarrow> rc = MOQ_OK \<and> \<not> noted s \<and> g = fin s"
    using clean by (auto simp: moq_d18_scan_object_properties_def w fin_def)
  also have "\<dots> \<longleftrightarrow> (\<exists>s'. unnoted (rc, s) = Some s' \<and> g = fin s')" by (auto simp: unnoted_Some)
  also have "\<dots> \<longleftrightarrow> (\<exists>ps. track_pairs bs = Some ps \<and> object_block_ok ps ?s \<and> g = fin (object_seen ps ?s))"
    using object_block [OF assms(1) fine, unfolded w] by (auto simp: step_all_object split: option.splits if_splits)
  also have "\<dots> \<longleftrightarrow> (\<exists>ps. track_pairs bs = Some ps \<and> object_pairs_ok ps \<and> g = gaps_of ps)"
    by (simp add: object_block_ok_def object_pairs_ok_def once_more_def fin_def object_seen_def gaps_of_def obj_props_scan_zero_def)
  finally show ?thesis .
qed


section \<open>Properties\<close>

text \<open>C36: the Track Properties of a draft-22 message are accepted exactly when the block has at most 65535 bytes,
  parses into pairs with no IMMUTABLE_PROPERTIES inside another, and every pair of it, inside such a container or
  not, is in its range: DEFAULT_PUBLISHER_PRIORITY at most 255, DEFAULT_PUBLISHER_GROUP_ORDER 1 or 2 and DYNAMIC_GROUPS
  at most 1. The mandatory flag is then set exactly when some pair has a type of the mandatory range.\<close>

theorem track_properties_accepted_iff:
  "scan_track_properties (Arr bs) mandatory = (MOQ_OK, m) \<longleftrightarrow>
     length bs \<le> 65535
     \<and> (\<exists>ps. track_pairs bs = Some ps \<and> (\<forall>e \<in> set ps. ranges_hold e \<and> (fst e = 0x0E \<longrightarrow> pair_int e \<le> 255))
        \<and> m = (if \<exists>e \<in> set ps. mandatory_type (fst e) then map_option (\<lambda>_. True) mandatory else mandatory))"
  by (rule scan_track_properties_iff)

theorem track_properties_accepted_iff_witness:
  "scan_track_properties (Arr [0x0B, 2, 0x22, 1]) (Some False) = (MOQ_OK, Some False)
   \<and> fst (scan_track_properties (Arr [0x0B, 2, 0x22, 3]) (Some False)) \<noteq> MOQ_OK"
proof -
  have "track_pairs [0x0B, 2, 0x22, 1] = Some [(0x0B, [2, 0x22, 1]), (0x22, [1])]"
    "track_pairs [0x0B, 2, 0x22, 3] = Some [(0x0B, [2, 0x22, 3]), (0x22, [3])]" by code_simp+
  moreover have "ranges_hold (0x22, [1])" "\<not> ranges_hold (0x22, [3])" "ranges_hold (0x0B, [2, 0x22, 1])" by code_simp+
  moreover have "\<not> mandatory_type 0x0B" "\<not> mandatory_type 0x22" by code_simp+
  ultimately show ?thesis
    using track_properties_accepted_iff [of "[0x0B, 2, 0x22, 1]" "Some False" "Some False"]
      track_properties_accepted_iff [of "[0x0B, 2, 0x22, 3]" "Some False" "snd (scan_track_properties (Arr [0x0B, 2, 0x22, 3]) (Some False))"]
    by (auto simp: prod_eq_iff)
qed

text \<open>C37: the scan of an Object's properties reports no violation exactly when the block parses with no nested
  IMMUTABLE_PROPERTIES, no pair has a type of the mandatory range or a DYNAMIC_GROUPS value above 1, and
  IMMUTABLE_PROPERTIES and both gaps occur at most once, inside the container or outside it. The gaps it reports are
  then the values of those pairs.\<close>

theorem object_gaps_stated:
  assumes "length bs \<le> 65535" and "os_malformed g = MOQ_OBJ_PROPS_OK"
  shows "moq_d18_scan_object_properties (Arr bs) out = (MOQ_OK, g) \<longleftrightarrow>
    (\<exists>ps. track_pairs bs = Some ps \<and> object_pairs_ok ps \<and> g = gaps_of ps)"
  using assms by (rule scan_object_properties_iff)

theorem object_gaps_stated_witness:
  "moq_d18_scan_object_properties (Arr [0x0B, 2, 0x3C, 5, 0x33, 7]) obj_props_scan_zero
   = (MOQ_OK, \<lparr>os_malformed = MOQ_OBJ_PROPS_OK, os_has_prior_group_gap = True, os_has_prior_object_gap = True,
        os_prior_group_gap = 5, os_prior_object_gap = 7\<rparr>)"
proof -
  have "track_pairs [0x0B, 2, 0x3C, 5, 0x33, 7] = Some [(0x0B, [2, 0x3C, 5]), (0x3C, [5]), (0x3E, [7])]" by code_simp
  moreover have "object_pairs_ok [(0x0B, [2, 0x3C, 5]), (0x3C, [5]), (0x3E, [7])]" by code_simp
  moreover have "gaps_of [(0x0B, [2, 0x3C, 5]), (0x3C, [5]), (0x3E, [7])] = \<lparr>os_malformed = MOQ_OBJ_PROPS_OK,
      os_has_prior_group_gap = True, os_has_prior_object_gap = True, os_prior_group_gap = 5, os_prior_object_gap = 7\<rparr>"
    by code_simp
  ultimately show ?thesis
    using object_gaps_stated [of "[0x0B, 2, 0x3C, 5, 0x33, 7]" "\<lparr>os_malformed = MOQ_OBJ_PROPS_OK,
      os_has_prior_group_gap = True, os_has_prior_object_gap = True, os_prior_group_gap = 5, os_prior_object_gap = 7\<rparr>"]
    by simp
qed

end
