(* ===== verification/ObjectGaps.thy ===== *)
theory ObjectGaps
  imports TrackProps Malformed Rcbuf Handle
begin

text \<open>
  Prior Group and Object ID Gaps from the publisher's call to the receiver's verdict. The publisher adds
  the gaps of an object to its property block (\<open>object_gap_properties\<close> in
  \<open>core/src/session/session_subgroup.c\<close>, \<open>moq_d18_op_add_object_gap\<close> in \<open>core/src/session/profile_d18.c\<close>),
  the receiver scans the block (\<open>d18_object_props\<close>, \<open>moq_d18_op_scan_object_gaps\<close>) and checks the gaps
  against what it has seen of the Track. The property shows that the two ends agree.
\<close>

section \<open>The profile operations\<close>

definition moq_obj_gaps_zero :: moq_obj_gaps where
  "moq_obj_gaps_zero = \<lparr>og_has_group_gap = False, og_has_object_gap = False, og_group_gap = 0, og_object_gap = 0\<rparr>"

definition gaps_scanned :: "moq_obj_props_scan \<Rightarrow> moq_obj_gaps" where
  "gaps_scanned g = \<lparr>og_has_group_gap = os_has_prior_group_gap g, og_has_object_gap = os_has_prior_object_gap g,
     og_group_gap = os_prior_group_gap g, og_object_gap = os_prior_object_gap g\<rparr>"

definition moq_d18_op_scan_object_gaps :: "moq_bytes \<Rightarrow> moq_result \<times> moq_obj_gaps" where
  "moq_d18_op_scan_object_gaps props =
     (case moq_d18_scan_object_properties props obj_props_scan_zero of
        (rc, g) \<Rightarrow> if rc \<noteq> MOQ_OK then (rc, moq_obj_gaps_zero) else (MOQ_OK, gaps_scanned g))"

definition moq_d18_op_add_object_gap :: "moq_bytes \<Rightarrow> bool \<Rightarrow> u64 \<Rightarrow> moq_bytes \<Rightarrow> (moq_result + nat) \<times> moq_bytes" where
  "moq_d18_op_add_object_gap inp object_gap v out =
     moq_kvp_list_merge_int inp True (if object_gap then D18_PROP_PRIOR_OBJECT_GAP else D18_PROP_PRIOR_GROUP_GAP) v
       D18_PROP_IMMUTABLE out"

text \<open>The property violations share their values with the malformed reasons.\<close>

fun malformed_props :: "obj_props \<Rightarrow> moq_malformed" where
  "malformed_props MOQ_OBJ_PROPS_OK = MOQ_MALFORMED_NONE"
| "malformed_props MOQ_OBJ_PROPS_UNPARSEABLE = MOQ_MALFORMED_PROPS_UNPARSEABLE"
| "malformed_props MOQ_OBJ_PROPS_NESTED_IMMUTABLE = MOQ_MALFORMED_NESTED_IMMUTABLE"
| "malformed_props MOQ_OBJ_PROPS_DUPLICATE_IMMUTABLE = MOQ_MALFORMED_DUPLICATE_IMMUTABLE"
| "malformed_props MOQ_OBJ_PROPS_MANDATORY = MOQ_MALFORMED_MANDATORY_PROPERTY"
| "malformed_props MOQ_OBJ_PROPS_DUPLICATE_GAP = MOQ_MALFORMED_DUPLICATE_GAP"

definition d18_object_props ::
  "moq_bytes \<Rightarrow> bool \<Rightarrow> moq_malformed \<Rightarrow> moq_obj_gaps \<Rightarrow> moq_result \<times> moq_malformed \<times> moq_obj_gaps" where
  "d18_object_props pp track_scoped malformed gaps =
     (let prc = (if track_scoped then MOQ_OK else moq_d18_validate_properties pp) in
      if prc \<noteq> MOQ_OK then (prc, malformed, gaps)
      else case moq_d18_scan_object_properties pp obj_props_scan_zero of
        (src, g) \<Rightarrow>
          if src \<noteq> MOQ_OK then (src, malformed, gaps)
          else (MOQ_OK, if track_scoped then malformed_props (os_malformed g) else malformed,
                if os_malformed g = MOQ_OBJ_PROPS_OK then gaps_scanned g else gaps))"

section \<open>The publisher's call\<close>

datatype moq_sg_state = MOQ_SG_FREE | MOQ_SG_OPEN | MOQ_SG_CLOSING | MOQ_SG_RESETTING | MOQ_SG_STREAMING
  | MOQ_SG_RESET_OWED | MOQ_SG_TERMINAL_OWED

record moq_sg_entry =
  sg_state :: moq_sg_state
  sg_generation :: u32
  sg_group_id :: u64

text \<open>What the call uses of the session: its tag, its subgroups, its allocator and whether its profile has the
  gaps. \<open>pub_scratch\<close> is what fresh memory holds.\<close>

record publisher_session =
  pub_tag :: u16
  pub_subgroups :: "moq_sg_entry list"
  pub_alloc :: nat
  pub_gaps :: bool
  pub_scratch :: "nat \<Rightarrow> u8"

record moq_object_cfg =
  oc_object_id :: u64
  oc_properties :: "nat option"
  oc_has_prior_group_gap :: bool
  oc_has_prior_object_gap :: bool
  oc_prior_group_gap :: u64
  oc_prior_object_gap :: u64

abbreviation MOQ_HANDLE_POOL_SUBGROUP :: u32 where "MOQ_HANDLE_POOL_SUBGROUP \<equiv> 5"

definition sg_resolve_handle_ex :: "publisher_session \<Rightarrow> u64 \<Rightarrow> moq_sg_state \<Rightarrow> int" where
  "sg_resolve_handle_ex s h required =
     (let slot = unat (moq_handle_slot h) in
      if moq_handle_pool_tag h \<noteq> MOQ_HANDLE_POOL_SUBGROUP then -1
      else if moq_handle_session_tag h \<noteq> pub_tag s then -1
      else if length (pub_subgroups s) \<le> slot then -1
      else if sg_generation (pub_subgroups s ! slot) \<noteq> moq_handle_generation h then -1
      else if sg_state (pub_subgroups s ! slot) = MOQ_SG_TERMINAL_OWED \<and> required \<noteq> MOQ_SG_TERMINAL_OWED then -3
      else if sg_state (pub_subgroups s ! slot) \<noteq> required then -2
      else int slot)"

definition sg_resolve_handle :: "publisher_session \<Rightarrow> u64 \<Rightarrow> int" where
  "sg_resolve_handle s h = (let r = sg_resolve_handle_ex s h MOQ_SG_OPEN in if r = -2 then -1 else r)"

text \<open>One gap: the block in \<open>a\<close> is merged into \<open>b\<close> and copied back.\<close>

definition gap_merge :: "bool \<Rightarrow> bool \<Rightarrow> u64 \<Rightarrow> (moq_result \<times> nat \<times> u8 list \<times> u8 list) \<Rightarrow> moq_result \<times> nat \<times> u8 list \<times> u8 list" where
  "gap_merge has object_gap v x =
     (case x of (rc, len, a, b) \<Rightarrow>
        if rc = MOQ_OK \<and> has then
          (case moq_d18_op_add_object_gap (Arr (take len a)) object_gap v (Arr b) of
             (Inl e, b1) \<Rightarrow> (e, len, a, elems b1)
           | (Inr n, b1) \<Rightarrow> (MOQ_OK, n, take n (elems b1) @ drop n a, elems b1))
        else x)"

definition heap_of :: "nat \<Rightarrow> (moq_heap \<Rightarrow> moq_heap) \<Rightarrow> rcbuf_state \<Rightarrow> rcbuf_state" where
  "heap_of i f s = s\<lparr>rs_heaps := (rs_heaps s)(i := f (rs_heaps s i))\<rparr>"

text \<open>The last part of the call: the buffer is made of the block in \<open>a\<close>, and both work areas are given back.\<close>

definition gap_finish :: "nat \<Rightarrow> nat \<Rightarrow> bool \<Rightarrow> bool \<Rightarrow> moq_result \<times> nat \<times> u8 list \<times> u8 list \<Rightarrow> rcbuf_state
    \<Rightarrow> (moq_result + nat) \<times> rcbuf_state" where
  "gap_finish i cap got_a got_b x s =
     (case x of (rc, len, a, b) \<Rightarrow>
        let rc = (if rc = MOQ_ERR_BUFFER then MOQ_ERR_INVAL else rc);
            (r, s) = (if rc = MOQ_OK then moq_rcbuf_create (Some i) (Arr (take len a)) s else (Inl rc, s));
            s = (if got_a then heap_of i (heap_free cap) s else s);
            s = (if got_b then heap_of i (heap_free cap) s else s)
        in (r, s))"

definition object_gap_properties ::
  "publisher_session \<Rightarrow> u64 \<Rightarrow> moq_object_cfg \<Rightarrow> rcbuf_state \<Rightarrow> (moq_result + nat) \<times> rcbuf_state" where
  "object_gap_properties ps subgroup cfg s =
     (if \<not> pub_gaps ps then (Inl MOQ_ERR_UNSUPPORTED, s)
      else
        let slot = sg_resolve_handle ps subgroup in
        if slot = -3 then (Inl MOQ_ERR_WOULD_BLOCK, s)
        else if 0 \<le> slot \<and> oc_has_prior_group_gap cfg
             \<and> sg_group_id (pub_subgroups ps ! nat slot) < oc_prior_group_gap cfg then (Inl MOQ_ERR_INVAL, s)
        else if oc_has_prior_object_gap cfg \<and> oc_object_id cfg < oc_prior_object_gap cfg then (Inl MOQ_ERR_INVAL, s)
        else
          let in_len = moq_rcbuf_len (oc_properties cfg) s;
              inp = (case ptr_bytes s (moq_rcbuf_data (oc_properties cfg) s) in_len of None \<Rightarrow> [] | Some bs \<Rightarrow> bs);
              cap = in_len + 2 * 27; i = pub_alloc ps; fresh = map (pub_scratch ps) [0..<cap];
              (got_a, h1) = heap_alloc cap (rs_heaps s i); (got_b, h2) = heap_alloc cap h1;
              work = (if got_a \<and> got_b then (MOQ_OK, in_len, inp @ drop (length inp) fresh, fresh)
                      else (MOQ_ERR_NOMEM, in_len, [], []))
          in gap_finish i cap got_a got_b
               (gap_merge (oc_has_prior_object_gap cfg) True (oc_prior_object_gap cfg)
                 (gap_merge (oc_has_prior_group_gap cfg) False (oc_prior_group_gap cfg) work))
               (heap_of i (\<lambda>_. h2) s))"

section \<open>Adding a pair to a block\<close>

lemma expand_append:
  "expand_pairs (xs @ ys) = (case expand_pairs xs of None \<Rightarrow> None | Some a \<Rightarrow> map_option ((@) a) (expand_pairs ys))"
proof (induction xs)
  case Nil
  then show ?case by (cases "expand_pairs ys") simp_all
next
  case (Cons e xs)
  then show ?case by (cases "expand_pairs xs"; cases "expand_pairs ys") (auto split: option.split)
qed

lemma expand_instances:
  "expand_pairs es = Some ps \<Longrightarrow> type \<noteq> D18_PROP_IMMUTABLE \<Longrightarrow>
   kvp_instances True type D18_PROP_IMMUTABLE es = Some (kvp_values True type ps)"
proof (induction es arbitrary: ps)
  case (Cons e es)
  obtain t body where e: "e = (t, body)" by fastforce
  show ?case
    using Cons by (auto simp: e kvp_values_def split: option.splits if_splits)
qed (simp add: kvp_values_def)

lemma expand_keeps: "expand_pairs es = Some ps \<Longrightarrow> set es \<subseteq> set ps"
  by (induction es arbitrary: ps) (fastforce split: option.splits if_splits)+

lemma expand_insert:
  assumes "expand_pairs es = Some ps" and "fst e \<noteq> D18_PROP_IMMUTABLE"
  obtains p1 p2 where "ps = p1 @ p2" "expand_pairs (takeWhile P es @ e # dropWhile P es) = Some (p1 @ e # p2)"
proof -
  have "expand_pairs (takeWhile P es @ dropWhile P es) = Some ps" using assms(1) by simp
  then obtain p1 p2 where "expand_pairs (takeWhile P es) = Some p1" "expand_pairs (dropWhile P es) = Some p2" "ps = p1 @ p2"
    unfolding expand_append by (auto split: option.splits)
  with that assms(2) show thesis by (simp add: expand_append)
qed

lemma body_val_enc: "kvp_ok True v \<Longrightarrow> kvp_body_val True (kvp_enc True v) = v"
  using kvp_io.dec_enc [of True v "[]"] by (simp add: kvp_body_val_def)

text \<open>What a merge of an even type makes of the pairs of a block.\<close>

lemma merge_pairs:
  assumes merge: "moq_kvp_list_merge_int (Arr bs) True type v D18_PROP_IMMUTABLE out = (Inr n, out1)"
    and pairs: "track_pairs bs = Some ps" and type: "type \<noteq> D18_PROP_IMMUTABLE"
  obtains (kept) "take n (elems out1) = bs" "n = length bs" "kvp_values True type ps = [v]"
  | (added) x p1 p2 where "kvp_values True type ps = []" "ps = p1 @ p2" "kvp_body_val True x = v"
      "track_pairs (take n (elems out1)) = Some (p1 @ (type, x) # p2)" "n \<le> length (elems out1)"
proof -
  have args: "kvp_args_ok (Arr bs) type out" "container_ok D18_PROP_IMMUTABLE"
    using merge by (auto simp: moq_kvp_list_merge_int_def kvp_args_ok_def container_ok_def split: if_splits)
  obtain es where es: "kvp_parse True 0 bs = Some es" "expand_pairs es = Some ps"
    using pairs by (auto simp: track_pairs_def split: option.splits)
  note inst = expand_instances [OF es(2) type]
  have counted: "if kvp_values True type ps = [] then moq_kvp_list_add_int (Arr bs) True type v out = (Inr n, out1)
     else kvp_values True type ps = [v] \<and> n = length bs \<and> n \<le> plen out \<and> out1 = store_bytes 0 bs out"
    using kvp_list_merge_int_counted [OF args, of True es "kvp_values True type ps" v n out1, THEN iffD1, OF _ _ merge] es(1) inst
    by (auto split: if_splits)
  show thesis
  proof (cases "kvp_values True type ps = []")
    case False
    then show thesis using counted kept args(1) take_store_bytes [of bs out] by (simp add: kvp_args_ok_def)
  next
    case True
    then have add: "kvp_wf True 0 (kvp_added True type v es)" "n = length (kvp_unparse True 0 (kvp_added True type v es))"
        "n \<le> plen out" "out1 = store_bytes 0 (kvp_unparse True 0 (kvp_added True type v es)) out"
      using counted es(1) by (auto simp: kvp_list_add_int_iff)
    then have len: "n \<le> length (elems out1)"
      using take_store_bytes [of "kvp_unparse True 0 (kvp_added True type v es)" out] args(1)
      by (metis kvp_args_ok_def length_take min.absorb_iff2 nle_le)
    from add have out: "kvp_parse True 0 (take n (elems out1)) = Some (kvp_added True type v es)"
      using take_store_bytes [of "kvp_unparse True 0 (kvp_added True type v es)" out] args(1) kvp_parse_unparse [OF add(1)]
      by (simp add: kvp_args_ok_def)
    have "type \<notin> fst ` set es"
      using True expand_keeps [OF es(2)] by (force simp: kvp_values_def filter_empty_conv)
    then have added_eq: "kvp_added True type v es =
        takeWhile (\<lambda>e. fst e < type) es @ (type, kvp_enc True v) # dropWhile (\<lambda>e. fst e < type) es"
      by (simp add: kvp_added_def)
    obtain p1 p2 where p: "ps = p1 @ p2" "expand_pairs (kvp_added True type v es) = Some (p1 @ (type, kvp_enc True v) # p2)"
      unfolding added_eq by (rule expand_insert [OF es(2), of "(type, kvp_enc True v)"]) (use type in auto)
    show thesis
      by (rule added [OF True p(1), of "kvp_enc True v"]) (use out p(2) len in \<open>simp_all add: track_pairs_def body_val_enc kvp_ok_def\<close>)
  qed
qed


section \<open>Gaps in a block\<close>

definition with_gap :: "bool \<Rightarrow> u64 \<Rightarrow> moq_obj_props_scan \<Rightarrow> moq_obj_props_scan" where
  "with_gap object_gap v g =
     (if object_gap then g\<lparr>os_has_prior_object_gap := True, os_prior_object_gap := v\<rparr>
      else g\<lparr>os_has_prior_group_gap := True, os_prior_group_gap := v\<rparr>)"

abbreviation gap_type :: "bool \<Rightarrow> u64" where
  "gap_type object_gap \<equiv> if object_gap then D18_PROP_PRIOR_OBJECT_GAP else D18_PROP_PRIOR_GROUP_GAP"

lemma occurs_append: "occurs t (xs @ ys) = occurs t xs + occurs t ys"
  by (simp add: occurs_def)

lemma stated_append: "stated t (xs @ ys) v = (if occurs t xs = 0 then stated t ys v else stated t xs v)"
  by (induction xs) (auto simp: stated_simps)

lemma occurs_values: "occurs t ps = length (kvp_values True t ps)"
  by (simp add: occurs_def kvp_values_def)

lemma stated_value: "kvp_values True t ps = [v] \<Longrightarrow> stated t ps w = v"
  by (induction ps) (auto simp: stated_simps kvp_values_def split: if_splits)

lemma gap_kept:
  assumes "kvp_values True (gap_type object_gap) ps = [v]"
  shows "gaps_of ps = with_gap object_gap v (gaps_of ps)"
  using assms stated_value [OF assms, of 0] occurs_values [of "gap_type object_gap" ps]
  by (cases object_gap) (simp_all add: gaps_of_def with_gap_def)

lemma gap_added:
  assumes "object_pairs_ok (p1 @ p2)" and "kvp_values True (gap_type object_gap) (p1 @ p2) = []" and "kvp_body_val True x = v"
  shows "object_pairs_ok (p1 @ (gap_type object_gap, x) # p2)"
    and "gaps_of (p1 @ (gap_type object_gap, x) # p2) = with_gap object_gap v (gaps_of (p1 @ p2))"
proof -
  have none: "occurs (gap_type object_gap) p1 = 0" "occurs (gap_type object_gap) p2 = 0"
    using occurs_values [of "gap_type object_gap" "p1 @ p2"] assms(2) by (simp_all add: occurs_append)
  have "object_pair_ok (gap_type object_gap, x)" by (simp add: object_pair_ok_def)
  then show "object_pairs_ok (p1 @ (gap_type object_gap, x) # p2)"
    using assms(1) none by (cases object_gap) (simp_all add: object_pairs_ok_def occurs_append)
  show "gaps_of (p1 @ (gap_type object_gap, x) # p2) = with_gap object_gap v (gaps_of (p1 @ p2))"
    using none assms(3) by (cases object_gap) (simp_all add: gaps_of_def with_gap_def occurs_append stated_append stated_simps)
qed

text \<open>A block whose object properties are clean, with the gaps it states.\<close>

definition block_states :: "u8 list \<Rightarrow> moq_obj_props_scan \<Rightarrow> bool" where
  "block_states bs g \<longleftrightarrow> (\<exists>ps. track_pairs bs = Some ps \<and> object_pairs_ok ps \<and> g = gaps_of ps)"

lemma add_gap_states:
  assumes "moq_d18_op_add_object_gap (Arr bs) object_gap v out = (Inr n, out1)" and "block_states bs g"
  shows "block_states (take n (elems out1)) (with_gap object_gap v g) \<and> n \<le> length (elems out1)"
proof -
  obtain ps where ps: "track_pairs bs = Some ps" "object_pairs_ok ps" "g = gaps_of ps"
    using assms(2) by (auto simp: block_states_def)
  have "gap_type object_gap \<noteq> D18_PROP_IMMUTABLE" by simp
  from assms(1) [unfolded moq_d18_op_add_object_gap_def] ps(1) this show ?thesis
  proof (cases rule: merge_pairs)
    case kept
    have "n \<le> length (elems out1)" using kept(1,2) by (metis length_take min.absorb_iff2 nle_le)
    then show ?thesis using kept ps gap_kept [OF kept(3)] by (auto simp: block_states_def)
  next
    case (added x p1 p2)
    note gap = gap_added [OF ps(2) [unfolded added(2)] added(1) [unfolded added(2)] added(3)]
    show ?thesis unfolding block_states_def using added(4,5) gap ps(3) added(2) by metis
  qed
qed

lemma merge_error: "moq_kvp_list_merge_int inp vi64 type v container out \<noteq> (Inl MOQ_OK, out1)"
proof (cases "kvp_args_ok inp type out \<and> container_ok container")
  case True
  have "moq_kvp_list_add_int inp vi64 type v out \<noteq> (Inl MOQ_OK, out1)"
    by (auto simp: moq_kvp_list_add_int_def split: prod.splits)
  with True show ?thesis
    by (auto simp: kvp_list_merge_int_eq count_result_def split: option.splits prod.splits if_splits)
qed (auto simp: moq_kvp_list_merge_int_def kvp_args_ok_def container_ok_def)

lemma gap_merge_states:
  assumes "gap_merge has object_gap v (MOQ_OK, len, a, b) = (MOQ_OK, len1, a1, b1)" and "block_states (take len a) g"
  shows "block_states (take len1 a1) (if has then with_gap object_gap v g else g)"
proof (cases has)
  case True
  obtain r out1 where r: "moq_d18_op_add_object_gap (Arr (take len a)) object_gap v (Arr b) = (r, out1)" by fastforce
  then obtain n where n: "r = Inr n" "len1 = n" "a1 = take n (elems out1) @ drop n a"
    using assms(1) True merge_error by (cases r) (auto simp: gap_merge_def moq_d18_op_add_object_gap_def)
  show ?thesis using add_gap_states [OF r [unfolded n(1)] assms(2)] True by (simp add: n)
qed (use assms in \<open>simp add: gap_merge_def\<close>)


section \<open>From the call to the verdict\<close>

lemma heap_of_fields [simp]:
  "rs_bufs (heap_of i f s) = rs_bufs s" "rs_extern (heap_of i f s) = rs_extern s"
  "rs_heaps (heap_of i f s) i = f (rs_heaps s i)" "rs_dirty (heap_of i f s) = rs_dirty s"
  by (simp_all add: heap_of_def)

lemma create_result:
  assumes "moq_rcbuf_create (Some i) (Arr bs) s = (r, t)"
  shows "mset (h_blocks (rs_heaps t i)) = mset (h_blocks (rs_heaps s i)) + (case r of Inl _ \<Rightarrow> {#} | Inr p \<Rightarrow> {#RCBUF_SIZEOF + length bs#})"
    and "r = Inr p \<Longrightarrow> rcbuf_at p t = Some (inline_buf i bs)" and "r \<noteq> Inl MOQ_OK"
proof -
  have r: "allocating (Some i) bs s = (r, t)" using assms create_eq [of "Arr bs" "Some i" s] by simp
  show "mset (h_blocks (rs_heaps t i)) = mset (h_blocks (rs_heaps s i)) + (case r of Inl _ \<Rightarrow> {#} | Inr p \<Rightarrow> {#RCBUF_SIZEOF + length bs#})"
    using r by (auto simp: allocating_def dest!: alloc_None alloc_Some split: if_splits prod.splits option.splits)
  show "r = Inr p \<Longrightarrow> rcbuf_at p t = Some (inline_buf i bs)"
    using r by (auto simp: allocating_def rcbuf_at_def dest!: alloc_Some split: if_splits prod.splits option.splits)
  show "r \<noteq> Inl MOQ_OK" using r by (auto simp: allocating_def split: if_splits prod.splits option.splits)
qed

definition cfg_gaps :: "moq_object_cfg \<Rightarrow> moq_obj_props_scan \<Rightarrow> moq_obj_props_scan" where
  "cfg_gaps cfg g =
     (let g = (if oc_has_prior_group_gap cfg then with_gap False (oc_prior_group_gap cfg) g else g) in
      if oc_has_prior_object_gap cfg then with_gap True (oc_prior_object_gap cfg) g else g)"

lemma gap_finish_memory:
  assumes fin: "gap_finish i cap got_a got_b x s = (r, t)"
    and held: "mset (h_blocks (rs_heaps s i)) = base + (if got_a then {#cap#} else {#}) + (if got_b then {#cap#} else {#})"
  shows "\<exists>n. mset (h_blocks (rs_heaps t i)) = base + (case r of Inl _ \<Rightarrow> {#} | Inr p \<Rightarrow> {#RCBUF_SIZEOF + n#})
    \<and> (\<forall>p. r = Inr p \<longrightarrow> moq_rcbuf_len (Some p) t = n)"
proof -
  obtain rc len a b where x: "x = (rc, len, a, b)" by (cases x)
  define rc1 where "rc1 = (if rc = MOQ_ERR_BUFFER then MOQ_ERR_INVAL else rc)"
  obtain r1 u where u: "(if rc1 = MOQ_OK then moq_rcbuf_create (Some i) (Arr (take len a)) s else (Inl rc1, s)) = (r1, u)" by fastforce
  have t: "r = r1" "t = (let s = (if got_a then heap_of i (heap_free cap) u else u) in if got_b then heap_of i (heap_free cap) s else s)"
    using fin unfolding gap_finish_def x prod.case Let_def rc1_def [symmetric] u by simp_all
  have "mset (h_blocks (rs_heaps u i)) = mset (h_blocks (rs_heaps s i)) + (case r1 of Inl _ \<Rightarrow> {#} | Inr p \<Rightarrow> {#RCBUF_SIZEOF + length (take len a)#})"
    using u create_result(1) by (cases "rc1 = MOQ_OK") auto
  moreover have "moq_rcbuf_len (Some p) t = length (take len a)" if "r = Inr p" for p
    using u create_result(2) [of i "take len a" s r1 u p] that t
    by (cases "rc1 = MOQ_OK") (auto simp: Let_def moq_rcbuf_len_def rcbuf_at_def inline_buf_def split: if_splits)
  ultimately show ?thesis
    by (intro exI [of _ "length (take len a)"]) (use t held in \<open>auto simp: Let_def blocks_free split: sum.split\<close>)
qed


lemma gap_properties_cases:
  assumes "object_gap_properties ps subgroup cfg s = (r, t)"
  obtains (refused) e where "r = Inl e" "t = s"
  | (done_work) in_len inp cap got_a h1 got_b h2 where
      "in_len = moq_rcbuf_len (oc_properties cfg) s"
      "inp = (case ptr_bytes s (moq_rcbuf_data (oc_properties cfg) s) in_len of None \<Rightarrow> [] | Some bs \<Rightarrow> bs)"
      "heap_alloc cap (rs_heaps s (pub_alloc ps)) = (got_a, h1)" "heap_alloc cap h1 = (got_b, h2)"
      "0 \<le> sg_resolve_handle ps subgroup \<Longrightarrow> oc_has_prior_group_gap cfg \<Longrightarrow>
         oc_prior_group_gap cfg \<le> sg_group_id (pub_subgroups ps ! nat (sg_resolve_handle ps subgroup))"
      "oc_has_prior_object_gap cfg \<Longrightarrow> oc_prior_object_gap cfg \<le> oc_object_id cfg"
      "gap_finish (pub_alloc ps) cap got_a got_b
         (gap_merge (oc_has_prior_object_gap cfg) True (oc_prior_object_gap cfg)
           (gap_merge (oc_has_prior_group_gap cfg) False (oc_prior_group_gap cfg)
             (if got_a \<and> got_b then (MOQ_OK, in_len, inp @ drop (length inp) (map (pub_scratch ps) [0..<cap]), map (pub_scratch ps) [0..<cap])
              else (MOQ_ERR_NOMEM, in_len, [], []))))
         (heap_of (pub_alloc ps) (\<lambda>_. h2) s) = (r, t)"
proof -
  let ?slot = "sg_resolve_handle ps subgroup" and ?in_len = "moq_rcbuf_len (oc_properties cfg) s"
  let ?cap = "?in_len + 2 * 27"
  obtain got_a h1 where a: "heap_alloc ?cap (rs_heaps s (pub_alloc ps)) = (got_a, h1)" by fastforce
  obtain got_b h2 where b: "heap_alloc ?cap h1 = (got_b, h2)" by fastforce
  note eq = assms [unfolded object_gap_properties_def Let_def a prod.case b]
  consider "\<not> pub_gaps ps \<or> ?slot = -3 \<or> 0 \<le> ?slot \<and> oc_has_prior_group_gap cfg
        \<and> sg_group_id (pub_subgroups ps ! nat ?slot) < oc_prior_group_gap cfg
      \<or> oc_has_prior_object_gap cfg \<and> oc_object_id cfg < oc_prior_object_gap cfg"
    | "pub_gaps ps" "?slot \<noteq> -3" "\<not> (0 \<le> ?slot \<and> oc_has_prior_group_gap cfg
        \<and> sg_group_id (pub_subgroups ps ! nat ?slot) < oc_prior_group_gap cfg)"
      "\<not> (oc_has_prior_object_gap cfg \<and> oc_object_id cfg < oc_prior_object_gap cfg)" by blast
  then show thesis
  proof cases
    case 1
    then show thesis using eq refused by (auto split: if_splits)
  next
    case 2
    note eq = eq [unfolded if_not_P [OF 2(2)] if_not_P [OF 2(3)] if_not_P [OF 2(4)] not_not if_P [OF 2(1)]]
    show thesis
      by (rule done_work [OF refl refl a b]) (use 2 eq in \<open>simp_all add: not_less\<close>)
  qed
qed


text \<open>Whatever the outcome, the call keeps no memory but the buffer it returns.\<close>

lemma gap_properties_memory:
  assumes "object_gap_properties ps subgroup cfg s = (r, t)"
  shows "mset (h_blocks (rs_heaps t (pub_alloc ps))) = mset (h_blocks (rs_heaps s (pub_alloc ps)))
    + (case r of Inl _ \<Rightarrow> {#} | Inr p \<Rightarrow> {#RCBUF_SIZEOF + moq_rcbuf_len (Some p) t#})"
  using assms
proof (cases rule: gap_properties_cases)
  case (done_work in_len inp cap got_a h1 got_b h2)
  have "mset (h_blocks h2) = mset (h_blocks (rs_heaps s (pub_alloc ps))) + (if got_a then {#cap#} else {#}) + (if got_b then {#cap#} else {#})"
    using blocks_alloc [of cap "rs_heaps s (pub_alloc ps)" h1] blocks_alloc [of cap h1 h2] done_work(3,4)
    by (cases got_a; cases got_b) simp_all
  then show ?thesis
    using gap_finish_memory [OF done_work(7), of "mset (h_blocks (rs_heaps s (pub_alloc ps)))"] by (auto split: sum.splits)
qed simp

lemma gap_merge_failed: "rc \<noteq> MOQ_OK \<Longrightarrow> gap_merge has object_gap v (rc, x) = (rc, x)"
  by (simp add: gap_merge_def split_beta)

lemma inline_bytes:
  "rcbuf_at p t = Some (inline_buf i bs) \<Longrightarrow> ptr_bytes t (moq_rcbuf_data (Some p) t) (moq_rcbuf_len (Some p) t) = Some bs"
  by (simp add: ptr_bytes_def moq_rcbuf_data_def moq_rcbuf_len_def) (simp add: inline_buf_def)

lemma gap_finish_made:
  assumes "gap_finish i cap got_a got_b (rc, len, a, b) s = (Inr p, t)"
  shows "rc = MOQ_OK" and "ptr_bytes t (moq_rcbuf_data (Some p) t) (moq_rcbuf_len (Some p) t) = Some (take len a)"
proof -
  obtain u where u: "rc = MOQ_OK" "moq_rcbuf_create (Some i) (Arr (take len a)) s = (Inr p, u)"
      "t = (let s = (if got_a then heap_of i (heap_free cap) u else u) in if got_b then heap_of i (heap_free cap) s else s)"
    using assms by (auto simp: gap_finish_def Let_def split: if_splits prod.splits)
  show "rc = MOQ_OK" by (rule u(1))
  have bufs: "rs_bufs t = rs_bufs u" "rs_extern t = rs_extern u" by (simp_all add: u(3) Let_def)
  have "rcbuf_at p t = Some (inline_buf i (take len a))"
    using create_result(2) [OF u(2) refl] by (simp add: same_bufs(1) [OF bufs])
  then show "ptr_bytes t (moq_rcbuf_data (Some p) t) (moq_rcbuf_len (Some p) t) = Some (take len a)" by (rule inline_bytes)
qed

lemma gap_properties_block:
  assumes call: "object_gap_properties ps subgroup cfg s = (Inr p, t)"
    and held: "ptr_bytes s (moq_rcbuf_data (oc_properties cfg) s) (moq_rcbuf_len (oc_properties cfg) s) = Some bs"
    and states: "block_states bs g"
  obtains block where "ptr_bytes t (moq_rcbuf_data (Some p) t) (moq_rcbuf_len (Some p) t) = Some block" "block_states block (cfg_gaps cfg g)"
    "0 \<le> sg_resolve_handle ps subgroup \<Longrightarrow> oc_has_prior_group_gap cfg \<Longrightarrow>
       oc_prior_group_gap cfg \<le> sg_group_id (pub_subgroups ps ! nat (sg_resolve_handle ps subgroup))"
    "oc_has_prior_object_gap cfg \<Longrightarrow> oc_prior_object_gap cfg \<le> oc_object_id cfg"
  using call
proof (cases rule: gap_properties_cases)
  case (done_work in_len inp cap got_a h1 got_b h2)
  let ?fresh = "map (pub_scratch ps) [0..<cap]"
  have bs: "inp = bs" "in_len = length bs" using held done_work(1,2) ptr_bytes_length [OF held] by simp_all
  obtain rc1 len1 a1 b1 where m1: "gap_merge (oc_has_prior_group_gap cfg) False (oc_prior_group_gap cfg)
      (if got_a \<and> got_b then (MOQ_OK, in_len, inp @ drop (length inp) ?fresh, ?fresh) else (MOQ_ERR_NOMEM, in_len, [], [])) = (rc1, len1, a1, b1)"
    using prod_cases4 by blast
  obtain rc2 len2 a2 b2 where m2: "gap_merge (oc_has_prior_object_gap cfg) True (oc_prior_object_gap cfg) (rc1, len1, a1, b1) = (rc2, len2, a2, b2)"
    using prod_cases4 by blast
  note fin = gap_finish_made [OF done_work(7) [unfolded m1 m2]]
  have rc1: "rc1 = MOQ_OK" using m2 fin(1) gap_merge_failed [of rc1] by (cases "rc1 = MOQ_OK") auto
  then have got: "got_a" "got_b" using m1 gap_merge_failed [of MOQ_ERR_NOMEM] by (cases "got_a \<and> got_b"; auto)+
  have "block_states (take in_len (inp @ drop (length inp) ?fresh)) g" using states bs by simp
  from gap_merge_states [OF _ this] m1 rc1 got
  have "block_states (take len1 a1) (if oc_has_prior_group_gap cfg then with_gap False (oc_prior_group_gap cfg) g else g)" by simp
  from gap_merge_states [OF m2 [unfolded rc1 fin(1)] this]
  have "block_states (take len2 a2) (cfg_gaps cfg g)" by (simp add: cfg_gaps_def Let_def)
  with that fin(2) done_work(5,6) show thesis by blast
qed simp


lemma fresh_gaps:
  assumes "og_has_group_gap gaps \<Longrightarrow> og_group_gap gaps \<le> mo_group_id ob"
    and "og_has_object_gap gaps \<Longrightarrow> og_object_gap gaps \<le> mo_object_id ob" and "mo_gaps ob = Some gaps"
  shows "fst (mt_object mt_track_zero ob) = MOQ_MALFORMED_NONE"
proof -
  have unused: "\<not> mg_used mt_group_zero" "\<not> msg_used mt_subgroup_zero" by (simp_all add: mt_group_zero_def mt_subgroup_zero_def)
  have none: "mt_group_find mt_track_zero g = None" "mt_subgroup_find mt_track_zero g sg = None" for g sg
    using unused by (auto simp: mt_group_find_def mt_subgroup_find_def mt_track_zero_def first_index_None_iff)
  have "mt_check_gaps mt_track_zero ob None = MOQ_MALFORMED_NONE"
    using assms unused by (auto simp: mt_check_gaps_def mt_track_zero_def gap_covers_group_def list_ex_iff not_less)
  moreover have "\<not> list_ex (past_track_end ob) (mt_groups mt_track_zero)"
    using unused by (simp add: mt_track_zero_def past_track_end_def list_ex_iff)
  moreover have "\<not> mt_has_track_end mt_track_zero" by (simp add: mt_track_zero_def)
  ultimately have "mt_verdict mt_track_zero ob None None = MOQ_MALFORMED_NONE" by (simp add: mt_verdict_def Let_def)
  then show ?thesis by (simp add: mt_object_def none)
qed

section \<open>Property\<close>

text \<open>C39: the gaps a publisher states for an object are the gaps its receivers get. When adding them to a property
  block the receivers would accept succeeds, the new buffer holds a block that the receiver's scan accepts, with the
  gaps of the call in place of unstated ones and everything else as the application stated it; the call keeps no other
  memory. The gaps are also in range for the object, so a receiver that has seen nothing of the Track does not call it
  malformed.\<close>

theorem sent_gaps_received:
  assumes call: "object_gap_properties ps subgroup cfg s = (Inr p, t)"
    and held: "ptr_bytes s (moq_rcbuf_data (oc_properties cfg) s) (moq_rcbuf_len (oc_properties cfg) s) = Some bs"
    and clean: "moq_d18_scan_object_properties (Arr bs) obj_props_scan_zero = (MOQ_OK, g)" "os_malformed g = MOQ_OBJ_PROPS_OK"
    and short: "length bs \<le> 65535" "moq_rcbuf_len (Some p) t \<le> 65535"
  shows "\<exists>block gaps. ptr_bytes t (moq_rcbuf_data (Some p) t) (moq_rcbuf_len (Some p) t) = Some block
    \<and> d18_object_props (Arr block) True MOQ_MALFORMED_NONE moq_obj_gaps_zero = (MOQ_OK, MOQ_MALFORMED_NONE, gaps)
    \<and> og_has_group_gap gaps = (oc_has_prior_group_gap cfg \<or> os_has_prior_group_gap g)
    \<and> og_has_object_gap gaps = (oc_has_prior_object_gap cfg \<or> os_has_prior_object_gap g)
    \<and> og_group_gap gaps = (if oc_has_prior_group_gap cfg then oc_prior_group_gap cfg else os_prior_group_gap g)
    \<and> og_object_gap gaps = (if oc_has_prior_object_gap cfg then oc_prior_object_gap cfg else os_prior_object_gap g)
    \<and> mset (h_blocks (rs_heaps t (pub_alloc ps))) = mset (h_blocks (rs_heaps s (pub_alloc ps))) + {#RCBUF_SIZEOF + length block#}
    \<and> (\<forall>ob. 0 \<le> sg_resolve_handle ps subgroup \<longrightarrow> mo_group_id ob = sg_group_id (pub_subgroups ps ! nat (sg_resolve_handle ps subgroup)) \<longrightarrow>
         mo_object_id ob = oc_object_id cfg \<longrightarrow> mo_gaps ob = Some gaps \<longrightarrow>
         (os_has_prior_group_gap g \<longrightarrow> oc_has_prior_group_gap cfg) \<longrightarrow> (os_has_prior_object_gap g \<longrightarrow> oc_has_prior_object_gap cfg) \<longrightarrow>
         fst (mt_object mt_track_zero ob) = MOQ_MALFORMED_NONE)"
proof -
  have states: "block_states bs g"
    using clean(1) scan_object_properties_iff [OF short(1) clean(2)] by (simp add: block_states_def)
  obtain block where block:
      "ptr_bytes t (moq_rcbuf_data (Some p) t) (moq_rcbuf_len (Some p) t) = Some block" "block_states block (cfg_gaps cfg g)"
      "0 \<le> sg_resolve_handle ps subgroup \<Longrightarrow> oc_has_prior_group_gap cfg \<Longrightarrow>
         oc_prior_group_gap cfg \<le> sg_group_id (pub_subgroups ps ! nat (sg_resolve_handle ps subgroup))"
      "oc_has_prior_object_gap cfg \<Longrightarrow> oc_prior_object_gap cfg \<le> oc_object_id cfg"
    by (rule gap_properties_block [OF call held states]) (rule that)
  define gaps where "gaps = gaps_scanned (cfg_gaps cfg g)"
  have len: "moq_rcbuf_len (Some p) t = length block" by (simp add: ptr_bytes_length [OF block(1)])
  have ok: "os_malformed (cfg_gaps cfg g) = MOQ_OBJ_PROPS_OK" using clean(2) by (simp add: cfg_gaps_def with_gap_def)
  have "moq_d18_scan_object_properties (Arr block) obj_props_scan_zero = (MOQ_OK, cfg_gaps cfg g)"
    using block(2) scan_object_properties_iff [OF short(2) [unfolded len] ok] by (simp add: block_states_def)
  then have "d18_object_props (Arr block) True MOQ_MALFORMED_NONE moq_obj_gaps_zero = (MOQ_OK, MOQ_MALFORMED_NONE, gaps)"
    by (simp add: d18_object_props_def ok gaps_def)
  moreover have fields: "og_has_group_gap gaps = (oc_has_prior_group_gap cfg \<or> os_has_prior_group_gap g)"
      "og_has_object_gap gaps = (oc_has_prior_object_gap cfg \<or> os_has_prior_object_gap g)"
      "og_group_gap gaps = (if oc_has_prior_group_gap cfg then oc_prior_group_gap cfg else os_prior_group_gap g)"
      "og_object_gap gaps = (if oc_has_prior_object_gap cfg then oc_prior_object_gap cfg else os_prior_object_gap g)"
    by (simp_all add: gaps_def gaps_scanned_def cfg_gaps_def with_gap_def Let_def)
  ultimately show ?thesis
    using block(1,3,4) gap_properties_memory [OF call] len
    by (intro exI [of _ block] exI [of _ gaps] conjI allI impI) (auto intro: fresh_gaps [of gaps])
qed


definition sample_publisher :: publisher_session where
  "sample_publisher = \<lparr>pub_tag = 7, pub_subgroups = [\<lparr>sg_state = MOQ_SG_OPEN, sg_generation = 1, sg_group_id = 10\<rparr>],
     pub_alloc = 0, pub_gaps = True, pub_scratch = (\<lambda>_. 0)\<rparr>"

definition sample_object :: moq_object_cfg where
  "sample_object = \<lparr>oc_object_id = 3, oc_properties = None, oc_has_prior_group_gap = True, oc_has_prior_object_gap = True,
     oc_prior_group_gap = 2, oc_prior_object_gap = 1\<rparr>"

theorem sent_gaps_received_witness:
  "\<exists>p t block gaps. object_gap_properties sample_publisher (moq_handle_pack 5 7 1 0) sample_object sample_start = (Inr p, t)
    \<and> ptr_bytes t (moq_rcbuf_data (Some p) t) (moq_rcbuf_len (Some p) t) = Some block
    \<and> d18_object_props (Arr block) True MOQ_MALFORMED_NONE moq_obj_gaps_zero = (MOQ_OK, MOQ_MALFORMED_NONE, gaps)
    \<and> og_has_group_gap gaps \<and> og_group_gap gaps = 2 \<and> og_has_object_gap gaps \<and> og_object_gap gaps = 1"
proof -
  let ?call = "object_gap_properties sample_publisher (moq_handle_pack 5 7 1 0) sample_object sample_start"
  have "case ?call of (r, t) \<Rightarrow> r = Inr 0 \<and> moq_rcbuf_len (Some 0) t = 4" by code_simp
  then obtain t where t: "?call = (Inr 0, t)" "moq_rcbuf_len (Some 0) t \<le> 65535" by (cases ?call) auto
  have "moq_rcbuf_data None s = NoData" "moq_rcbuf_len None s = 0" for s by (simp_all add: moq_rcbuf_data_def moq_rcbuf_len_def)
  then have held: "ptr_bytes sample_start (moq_rcbuf_data (oc_properties sample_object) sample_start)
      (moq_rcbuf_len (oc_properties sample_object) sample_start) = Some []"
    by (simp add: sample_object_def ptr_bytes_def)
  have scan: "moq_d18_scan_object_properties (Arr []) obj_props_scan_zero = (MOQ_OK, obj_props_scan_zero)"
    "os_malformed obj_props_scan_zero = MOQ_OBJ_PROPS_OK" by code_simp+
  have "\<exists>block gaps. ptr_bytes t (moq_rcbuf_data (Some 0) t) (moq_rcbuf_len (Some 0) t) = Some block
      \<and> d18_object_props (Arr block) True MOQ_MALFORMED_NONE moq_obj_gaps_zero = (MOQ_OK, MOQ_MALFORMED_NONE, gaps)
      \<and> og_has_group_gap gaps \<and> og_group_gap gaps = 2 \<and> og_has_object_gap gaps \<and> og_object_gap gaps = 1"
    using sent_gaps_received [OF t(1) held scan _ t(2)]
    by (elim exE meta_impE) (simp, elim exE conjE, rule exI, rule exI, simp add: sample_object_def)
  with t(1) show ?thesis by blast
qed

end
