(* ===== verification/MessagesD22.thy ===== *)
theory MessagesD22
  imports ParamsRound TrackProps
begin

text \<open>
  The draft-22 request messages of \<open>core/src/wire/messages_d22.c\<close>: the layout of each message type, the
  decoder and scanner of a complete body and the encoder of a full message. SETUP and GOAWAY are in
  \<open>ControlD22\<close>. The codec composes the namespaces and parameters of \<open>ParamsD22\<close>, the property blocks of
  \<open>TrackProps\<close> and the envelope of \<open>ControlD22\<close>. The lemmas show that every message the encoder produces
  is decoded to the fields it was given.
\<close>

unbundle bit_operations_syntax

section \<open>Data\<close>

abbreviation MOQ_D22_REQUEST_UPDATE :: u64 where "MOQ_D22_REQUEST_UPDATE \<equiv> 0x02"
abbreviation MOQ_D22_SUBSCRIBE :: u64 where "MOQ_D22_SUBSCRIBE \<equiv> 0x03"
abbreviation MOQ_D22_SUBSCRIBE_OK :: u64 where "MOQ_D22_SUBSCRIBE_OK \<equiv> 0x04"
abbreviation MOQ_D22_REQUEST_ERROR :: u64 where "MOQ_D22_REQUEST_ERROR \<equiv> 0x05"
abbreviation MOQ_D22_PUBLISH_NAMESPACE :: u64 where "MOQ_D22_PUBLISH_NAMESPACE \<equiv> 0x06"
abbreviation MOQ_D22_REQUEST_OK :: u64 where "MOQ_D22_REQUEST_OK \<equiv> 0x07"
abbreviation MOQ_D22_NAMESPACE :: u64 where "MOQ_D22_NAMESPACE \<equiv> 0x08"
abbreviation MOQ_D22_PUBLISH_DONE :: u64 where "MOQ_D22_PUBLISH_DONE \<equiv> 0x0B"
abbreviation MOQ_D22_TRACK_STATUS :: u64 where "MOQ_D22_TRACK_STATUS \<equiv> 0x0D"
abbreviation MOQ_D22_NAMESPACE_DONE :: u64 where "MOQ_D22_NAMESPACE_DONE \<equiv> 0x0E"
abbreviation MOQ_D22_PUBLISH_SKIPPED :: u64 where "MOQ_D22_PUBLISH_SKIPPED \<equiv> 0x0F"
abbreviation MOQ_D22_FETCH :: u64 where "MOQ_D22_FETCH \<equiv> 0x16"
abbreviation MOQ_D22_FETCH_OK :: u64 where "MOQ_D22_FETCH_OK \<equiv> 0x18"
abbreviation MOQ_D22_PUBLISH :: u64 where "MOQ_D22_PUBLISH \<equiv> 0x1D"
abbreviation MOQ_D22_PUBLISH_STATE_NOTIFY :: u64 where "MOQ_D22_PUBLISH_STATE_NOTIFY \<equiv> 0x22"
abbreviation MOQ_D22_SUBSCRIBE_NAMESPACE :: u64 where "MOQ_D22_SUBSCRIBE_NAMESPACE \<equiv> 0x50"
abbreviation MOQ_D22_SUBSCRIBE_TRACKS :: u64 where "MOQ_D22_SUBSCRIBE_TRACKS \<equiv> 0x51"
abbreviation MOQ_D22_ERROR_REDIRECT :: u64 where "MOQ_D22_ERROR_REDIRECT \<equiv> 0x34"
abbreviation MOQ_D22_MAX_REASON :: nat where "MOQ_D22_MAX_REASON \<equiv> 1024"

abbreviation HAS_ID :: u32 where "HAS_ID \<equiv> 1"
abbreviation HAS_NS :: u32 where "HAS_NS \<equiv> 2"
abbreviation HAS_NAME :: u32 where "HAS_NAME \<equiv> 4"
abbreviation HAS_ALIAS :: u32 where "HAS_ALIAS \<equiv> 8"
abbreviation HAS_PARAMS :: u32 where "HAS_PARAMS \<equiv> 16"
abbreviation HAS_PROPERTIES :: u32 where "HAS_PROPERTIES \<equiv> 32"

record moq_d22_message_context =
  mc_request_type :: u64
  mc_updated_request_type :: u64
  mc_update_from_subscriber :: bool
  mc_max_filter_ranges :: u64
  mc_cluster :: bool

record moq_d22_message =
  dm_type :: u64
  dm_request_id :: u64
  dm_ns :: moq_d22_namespace
  dm_track_name :: moq_bytes
  dm_track_alias :: u64
  dm_params :: moq_d22_params
  dm_properties :: moq_bytes
  dm_code :: u64
  dm_retry_interval :: u64
  dm_stream_count :: u64
  dm_reason :: moq_bytes
  dm_redirect_uri :: moq_bytes
  dm_end_of_track :: u8
  dm_end_location :: moq_d22_location
  dm_mandatory_track_property :: bool

definition namespace_zero :: moq_d22_namespace where
  "namespace_zero = \<lparr>dn_encoded = Null 0, dn_fields = Null 0, dn_count = 0, dn_value_bytes = 0\<rparr>"

text \<open>\<open>{.type = type}\<close>\<close>

definition message_zero :: "u64 \<Rightarrow> moq_d22_message" where
  "message_zero type = \<lparr>dm_type = type, dm_request_id = 0, dm_ns = namespace_zero, dm_track_name = Null 0,
     dm_track_alias = 0, dm_params = params_zero (Null 0), dm_properties = Null 0, dm_code = 0,
     dm_retry_interval = 0, dm_stream_count = 0, dm_reason = Null 0, dm_redirect_uri = Null 0,
     dm_end_of_track = 0, dm_end_location = \<lparr>loc_group = 0, loc_object = 0\<rparr>, dm_mandatory_track_property = False\<rparr>"

section \<open>Layout\<close>

definition namespace_request :: "u64 \<Rightarrow> bool" where
  "namespace_request type \<longleftrightarrow> type = MOQ_D22_PUBLISH_NAMESPACE \<or> type = MOQ_D22_SUBSCRIBE_NAMESPACE
     \<or> type = MOQ_D22_SUBSCRIBE_TRACKS"

text \<open>The fields of a message and the scope of its parameters; a scope is its place in
  \<open>moq_d22_param_scope_t\<close>.\<close>

definition layout :: "u64 \<Rightarrow> moq_d22_message_context \<Rightarrow> moq_result + u32 \<times> moq_d22_param_scope" where
  "layout type ctx =
     (if type = MOQ_D22_SUBSCRIBE then Inr (HAS_ID OR HAS_NS OR HAS_NAME OR HAS_PARAMS, 0)
      else if type = MOQ_D22_FETCH then Inr (HAS_ID OR HAS_NS OR HAS_NAME OR HAS_PARAMS, 2)
      else if type = MOQ_D22_TRACK_STATUS then Inr (HAS_ID OR HAS_NS OR HAS_NAME OR HAS_PARAMS, 3)
      else if type = MOQ_D22_PUBLISH then
        Inr (HAS_ID OR HAS_NS OR HAS_NAME OR HAS_ALIAS OR HAS_PARAMS OR HAS_PROPERTIES, 1)
      else if type = MOQ_D22_SUBSCRIBE_OK then Inr (HAS_ALIAS OR HAS_PARAMS OR HAS_PROPERTIES, 7)
      else if type = MOQ_D22_FETCH_OK then Inr (HAS_PARAMS OR HAS_PROPERTIES, 12)
      else if type = MOQ_D22_PUBLISH_NAMESPACE then Inr (HAS_ID OR HAS_NS OR HAS_PARAMS, 4)
      else if type = MOQ_D22_SUBSCRIBE_NAMESPACE then Inr (HAS_ID OR HAS_NS OR HAS_PARAMS, 5)
      else if type = MOQ_D22_SUBSCRIBE_TRACKS then Inr (HAS_ID OR HAS_NS OR HAS_PARAMS, 6)
      else if type = MOQ_D22_PUBLISH_STATE_NOTIFY then Inr (HAS_PARAMS, 13)
      else if type = MOQ_D22_NAMESPACE then
        if mc_cluster ctx then Inr (HAS_NS OR HAS_PARAMS, MOQ_D22_SCOPE_NAMESPACE) else Inr (HAS_NS, 12)
      else if type = MOQ_D22_NAMESPACE_DONE then Inr (HAS_NS, 12)
      else if type = MOQ_D22_PUBLISH_SKIPPED then Inr (HAS_NS OR HAS_NAME, 12)
      else if type = MOQ_D22_PUBLISH_DONE \<or> type = MOQ_D22_REQUEST_ERROR then Inr (0, 12)
      else if type = MOQ_D22_REQUEST_OK then
        if mc_request_type ctx = MOQ_D22_PUBLISH then Inr (HAS_PARAMS, 8)
        else if mc_request_type ctx = MOQ_D22_REQUEST_UPDATE then Inr (HAS_PARAMS, 9)
        else if mc_request_type ctx = MOQ_D22_TRACK_STATUS then Inr (HAS_PARAMS OR HAS_PROPERTIES, 10)
        else if mc_request_type ctx = MOQ_D22_PUBLISH_NAMESPACE \<or> mc_request_type ctx = MOQ_D22_SUBSCRIBE_NAMESPACE
        then Inr (HAS_PARAMS, 11)
        else if mc_request_type ctx = MOQ_D22_SUBSCRIBE_TRACKS then Inr (HAS_PARAMS OR HAS_PROPERTIES, 11)
        else Inl MOQ_ERR_INVAL
      else if type = MOQ_D22_REQUEST_UPDATE then
        if mc_request_type ctx = MOQ_D22_SUBSCRIBE \<or> mc_request_type ctx = MOQ_D22_PUBLISH
        then Inr (HAS_ID OR HAS_PARAMS, if mc_update_from_subscriber ctx then 14 else 15)
        else if mc_request_type ctx = MOQ_D22_FETCH then Inr (HAS_ID OR HAS_PARAMS, 16)
        else if mc_request_type ctx = MOQ_D22_PUBLISH_NAMESPACE then Inr (HAS_ID OR HAS_PARAMS, 17)
        else if mc_request_type ctx = MOQ_D22_SUBSCRIBE_NAMESPACE then Inr (HAS_ID OR HAS_PARAMS, 18)
        else if mc_request_type ctx = MOQ_D22_SUBSCRIBE_TRACKS then Inr (HAS_ID OR HAS_PARAMS, 19)
        else Inl MOQ_ERR_INVAL
      else Inl MOQ_ERR_PROTO)"

section \<open>Decoding\<close>

definition has :: "u32 \<Rightarrow> u32 \<Rightarrow> bool" where
  "has flds f \<longleftrightarrow> flds AND f \<noteq> 0"

text \<open>An optional field; the message keeps its initial value without it.\<close>

definition rd_when :: "bool \<Rightarrow> 'a rd \<Rightarrow> 'a \<Rightarrow> 'a rd" where
  "rd_when c m a = (if c then m else rd_return a)"

text \<open>The fields that stand before the parts of particular message types.\<close>

definition decode_common :: "u32 \<Rightarrow> moq_d22_message \<Rightarrow> moq_d22_message rd" where
  "decode_common flds v =
     rd_then (rd_when (has flds HAS_ID) moq_buf_read_vi64 (dm_request_id v)) (\<lambda>request_id.
     rd_then (rd_when (has flds HAS_NS) moq_d22_decode_namespace (dm_ns v)) (\<lambda>ns.
     rd_then (rd_when (has flds HAS_NAME) (read_span (4096 - dn_value_bytes ns)) (dm_track_name v)) (\<lambda>track_name.
     rd_then (rd_when (has flds HAS_ALIAS) moq_buf_read_vi64 (dm_track_alias v)) (\<lambda>track_alias.
     rd_return (v\<lparr>dm_request_id := request_id, dm_ns := ns, dm_track_name := track_name, dm_track_alias := track_alias\<rparr>)))))"

definition decode_fetch_ok :: "moq_d22_message \<Rightarrow> moq_d22_message rd" where
  "decode_fetch_ok v =
     rd_then (moq_buf_read_raw 1) (\<lambda>byte.
     let end_of_track = elems byte ! 0 in
     if 1 < end_of_track then rd_fail MOQ_ERR_PROTO
     else rd_then moq_buf_read_vi64 (\<lambda>grp. rd_then moq_buf_read_vi64 (\<lambda>obj.
       rd_return (v\<lparr>dm_end_of_track := end_of_track, dm_end_location := \<lparr>loc_group = grp, loc_object = obj\<rparr>\<rparr>))))"

definition decode_redirect :: "moq_d22_message_context \<Rightarrow> moq_d22_message \<Rightarrow> moq_d22_message rd" where
  "decode_redirect ctx v =
     rd_then (read_span 65535) (\<lambda>uri.
     rd_then moq_d22_decode_namespace (\<lambda>ns.
     rd_then (read_span (4096 - dn_value_bytes ns)) (\<lambda>track_name.
     let target = (if mc_request_type ctx = MOQ_D22_REQUEST_UPDATE then mc_updated_request_type ctx else mc_request_type ctx) in
     if namespace_request target \<and> plen track_name \<noteq> 0 then rd_fail MOQ_ERR_PROTO
     else rd_return (v\<lparr>dm_redirect_uri := uri, dm_ns := ns, dm_track_name := track_name\<rparr>))))"

definition decode_outcome :: "moq_d22_message_context \<Rightarrow> moq_d22_message \<Rightarrow> moq_d22_message rd" where
  "decode_outcome ctx v =
     rd_then moq_buf_read_vi64 (\<lambda>code.
     rd_then moq_buf_read_vi64 (\<lambda>n.
     rd_then (read_span MOQ_D22_MAX_REASON) (\<lambda>reason.
     let v = (if dm_type v = MOQ_D22_PUBLISH_DONE then v\<lparr>dm_code := code, dm_stream_count := n, dm_reason := reason\<rparr>
              else v\<lparr>dm_code := code, dm_retry_interval := n, dm_reason := reason\<rparr>) in
     rd_when (dm_type v = MOQ_D22_REQUEST_ERROR \<and> dm_code v = MOQ_D22_ERROR_REDIRECT) (decode_redirect ctx v) v)))"

definition decode_head :: "u32 \<Rightarrow> moq_d22_message_context \<Rightarrow> moq_d22_message \<Rightarrow> moq_d22_message rd" where
  "decode_head flds ctx v =
     rd_then (decode_common flds v) (\<lambda>v.
     rd_then (rd_when (dm_type v = MOQ_D22_FETCH_OK) (decode_fetch_ok v) v) (\<lambda>v.
     rd_when (dm_type v = MOQ_D22_PUBLISH_DONE \<or> dm_type v = MOQ_D22_REQUEST_ERROR) (decode_outcome ctx v) v))"

definition decode_properties :: "moq_d22_message \<Rightarrow> moq_d22_message rd" where
  "decode_properties v r =
     (let properties = ptake (moq_buf_reader_remaining r) (moq_buf_reader_ptr r) in
      case scan_track_properties properties (Some (dm_mandatory_track_property v)) of
        (rc, mandatory) \<Rightarrow>
          if rc \<noteq> MOQ_OK then (Inl rc, r)
          else (Inr (v\<lparr>dm_properties := properties, dm_mandatory_track_property := the mandatory\<rparr>), r\<lparr>rd_pos := plen (rd_data r)\<rparr>))"

text \<open>The message and whether a filter was refused; \<open>max_filter_ranges\<close> is that of the context.\<close>

definition decode_body :: "u32 \<Rightarrow> moq_d22_param_scope \<Rightarrow> moq_d22_message_context \<Rightarrow> moq_d22_message
    \<Rightarrow> (moq_d22_message \<times> bool) rd" where
  "decode_body flds scope ctx v =
     rd_then (decode_head flds ctx v) (\<lambda>v.
     rd_then (rd_when (has flds HAS_PARAMS)
        (rd_then moq_buf_read_vi64 (\<lambda>count. moq_d22_scan_params count scope (mc_max_filter_ranges ctx)))
        (dm_params v, False)) (\<lambda>(params, invalid_filter).
     let v = v\<lparr>dm_params := params\<rparr> in
     rd_then (rd_when (has flds HAS_PROPERTIES) (decode_properties v) v) (\<lambda>v r.
     if rd_pos r \<noteq> plen (rd_data r) then (Inl MOQ_ERR_PROTO, r) else (Inr (v, invalid_filter), r))))"

text \<open>The result and what is stored in the output, if anything.\<close>

definition moq_d22_scan_message :: "u64 \<Rightarrow> moq_bytes \<Rightarrow> moq_d22_message_context \<Rightarrow> moq_result \<times> moq_d22_message option" where
  "moq_d22_scan_message type body ctx =
     (if is_null body \<and> plen body \<noteq> 0 then (MOQ_ERR_INVAL, None)
      else if 65535 < plen body then (MOQ_ERR_PROTO, None)
      else case layout type ctx of
        Inl e \<Rightarrow> (e, None)
      | Inr (flds, scope) \<Rightarrow>
          (case decode_body flds scope ctx (message_zero type) (moq_buf_reader_init body) of
             (Inl e, _) \<Rightarrow> (if e = MOQ_ERR_BUFFER then MOQ_ERR_PROTO else e, None)
           | (Inr (v, invalid_filter), _) \<Rightarrow> (if invalid_filter then MOQ_D22_ERR_INVALID_FILTER else MOQ_OK, Some v)))"

definition moq_d22_decode_message :: "u64 \<Rightarrow> moq_bytes \<Rightarrow> moq_d22_message_context \<Rightarrow> moq_result + moq_d22_message" where
  "moq_d22_decode_message type body ctx =
     (case moq_d22_scan_message type body ctx of
        (rc, None) \<Rightarrow> Inl rc
      | (rc, Some v) \<Rightarrow> if rc = MOQ_OK then Inr v else Inl rc)"

section \<open>Encoding\<close>

definition write_span_limited :: "moq_bytes \<Rightarrow> nat \<Rightarrow> wr" where
  "write_span_limited bytes limit w =
     (if is_null bytes \<and> plen bytes \<noteq> 0 \<or> limit < plen bytes then (MOQ_ERR_INVAL, w)
      else wr_then (moq_buf_write_vi64 (of_nat (plen bytes))) (moq_buf_write_raw bytes) w)"

definition write_namespace :: "moq_d22_namespace \<Rightarrow> wr" where
  "write_namespace ns w =
     (let b = dn_encoded ns in
      if is_null b \<and> plen b \<noteq> 0 \<or> 65535 < plen b then (MOQ_ERR_INVAL, w)
      else case moq_d22_decode_namespace (moq_buf_reader_init b) of
        (Inl _, _) \<Rightarrow> (MOQ_ERR_INVAL, w)
      | (Inr checked, r) \<Rightarrow> if rd_pos r \<noteq> plen (rd_data r) then (MOQ_ERR_INVAL, w) else moq_buf_write_raw b w)"

definition encode_fetch_ok :: "moq_d22_message \<Rightarrow> wr" where
  "encode_fetch_ok m w =
     (if 1 < dm_end_of_track m then (MOQ_ERR_INVAL, w)
      else wr_then (moq_buf_write_raw (Arr [dm_end_of_track m]))
        (wr_then (moq_buf_write_vi64 (loc_group (dm_end_location m)))
          (moq_buf_write_vi64 (loc_object (dm_end_location m)))) w)"

definition encode_outcome :: "moq_d22_message \<Rightarrow> wr" where
  "encode_outcome m =
     wr_then (moq_buf_write_vi64 (dm_code m))
     (wr_then (moq_buf_write_vi64 (if dm_type m = MOQ_D22_PUBLISH_DONE then dm_stream_count m else dm_retry_interval m))
     (wr_then (write_span_limited (dm_reason m) MOQ_D22_MAX_REASON)
     (wr_when (dm_type m = MOQ_D22_REQUEST_ERROR \<and> dm_code m = MOQ_D22_ERROR_REDIRECT)
       (wr_then (write_span_limited (dm_redirect_uri m) 65535)
       (wr_then (write_namespace (dm_ns m)) (write_span_limited (dm_track_name m) 4096))))))"

definition encode_body :: "moq_d22_message \<Rightarrow> moq_d22_param cptr \<Rightarrow> u32 \<Rightarrow> moq_d22_param_scope
    \<Rightarrow> moq_d22_message_context \<Rightarrow> wr" where
  "encode_body m p flds scope ctx =
     wr_then (wr_when (has flds HAS_ID) (moq_buf_write_vi64 (dm_request_id m)))
     (wr_then (wr_when (has flds HAS_NS) (write_namespace (dm_ns m)))
     (wr_then (wr_when (has flds HAS_NAME) (write_span_limited (dm_track_name m) 4096))
     (wr_then (wr_when (has flds HAS_ALIAS) (moq_buf_write_vi64 (dm_track_alias m)))
     (wr_then (wr_when (dm_type m = MOQ_D22_FETCH_OK) (encode_fetch_ok m))
     (wr_then (wr_when (dm_type m = MOQ_D22_PUBLISH_DONE \<or> dm_type m = MOQ_D22_REQUEST_ERROR) (encode_outcome m))
     (wr_then (if has flds HAS_PARAMS
               then wr_then (moq_buf_write_vi64 (of_nat (plen p))) (moq_d22_encode_params p scope (mc_max_filter_ranges ctx))
               else (\<lambda>w. if plen p \<noteq> 0 then (MOQ_ERR_INVAL, w) else (MOQ_OK, w)))
     (if has flds HAS_PROPERTIES
      then (\<lambda>w. if moq_d22_validate_track_properties (dm_properties m) \<noteq> MOQ_OK then (MOQ_ERR_INVAL, w)
                else moq_buf_write_raw (dm_properties m) w)
      else (\<lambda>w. if plen (dm_properties m) \<noteq> 0 then (MOQ_ERR_INVAL, w) else (MOQ_OK, w)))))))))"

definition moq_d22_encode_message :: "moq_d22_message \<Rightarrow> moq_d22_param cptr \<Rightarrow> moq_d22_message_context \<Rightarrow> wr" where
  "moq_d22_encode_message m p ctx w =
     (if \<not> writer_valid w \<or> is_null p \<and> plen p \<noteq> 0 \<or> 65535 div 2 < plen p then (MOQ_ERR_INVAL, w)
      else case layout (dm_type m) ctx of
        Inl _ \<Rightarrow> (MOQ_ERR_INVAL, w)
      | Inr (flds, scope) \<Rightarrow>
          wr_local (wr_then (moq_buf_write_vi64 (dm_type m)) (\<lambda>c.
            case moq_buf_reserve_uint16 c of
              (Inl e, c) \<Rightarrow> (e, c)
            | (Inr length_at, c) \<Rightarrow>
                let body_at = w_pos c in
                wr_then (encode_body m p flds scope ctx) (\<lambda>c.
                  let len = w_pos c - body_at in
                  if 65535 < len then (MOQ_ERR_INVAL, c)
                  else case moq_d22_decode_message (dm_type m) (ptake len (padvance body_at (w_data c))) ctx of
                    Inl _ \<Rightarrow> (MOQ_ERR_INVAL, c)
                  | Inr checked \<Rightarrow> moq_buf_patch_uint16 length_at (of_nat len) c) c)) w)"

section \<open>What the encoder writes\<close>

text \<open>\<open>puts m c bs\<close>: when \<open>m\<close> succeeds on a buffer, \<open>c\<close> holds and \<open>bs\<close> were appended.\<close>

definition w_live :: "moq_buf_writer \<Rightarrow> bool" where
  "w_live w \<longleftrightarrow> writer_valid w \<and> \<not> is_null (w_data w)"

definition puts :: "wr \<Rightarrow> bool \<Rightarrow> u8 list \<Rightarrow> bool" where
  "puts m c bs \<longleftrightarrow> (\<forall>w w'. w_live w \<longrightarrow> m w = (MOQ_OK, w') \<longrightarrow> c \<and> length bs \<le> w_room w \<and> w' = w_append bs w)"

lemma puts_appends: "appends m c bs \<Longrightarrow> puts m c bs"
  unfolding puts_def appends_def w_live_def by blast

lemma w_live_append: "w_live w \<Longrightarrow> length bs \<le> w_room w \<Longrightarrow> w_live (w_append bs w)"
  unfolding w_live_def using w_append_valid [of w bs] by (cases "w_data w") (auto simp: w_append_def)

lemma puts_then: "puts m c bs \<Longrightarrow> puts k d cs \<Longrightarrow> puts (wr_then m k) (c \<and> d) (bs @ cs)"
  unfolding puts_def
proof (intro allI impI)
  fix w w' assume m: "\<forall>w w'. w_live w \<longrightarrow> m w = (MOQ_OK, w') \<longrightarrow> c \<and> length bs \<le> w_room w \<and> w' = w_append bs w"
    and k: "\<forall>w w'. w_live w \<longrightarrow> k w = (MOQ_OK, w') \<longrightarrow> d \<and> length cs \<le> w_room w \<and> w' = w_append cs w"
    and w: "w_live w" and run: "wr_then m k w = (MOQ_OK, w')"
  from run obtain w1 where 1: "m w = (MOQ_OK, w1)" "k w1 = (MOQ_OK, w')"
    by (auto simp: wr_then_def split: prod.splits if_splits)
  with m w have c: "c" "length bs \<le> w_room w" "w1 = w_append bs w" by auto
  with k 1(2) w_live_append [OF w c(2)] have d: "d" "length cs \<le> w_room w1" "w' = w_append cs w1" by auto
  have valid: "writer_valid w" using w by (simp add: w_live_def)
  then show "(c \<and> d) \<and> length (bs @ cs) \<le> w_room w \<and> w' = w_append (bs @ cs) w"
    using c d w_room_append [OF valid c(2)] w_append_append [OF valid, of bs cs] by auto
qed

lemma puts_when: "puts m c bs \<Longrightarrow> puts (wr_when x m) (x \<longrightarrow> c) (if x then bs else [])"
  by (auto simp: puts_def wr_when_def w_live_def)

lemma puts_nothing: "puts (\<lambda>w. if x then (MOQ_ERR_INVAL, w) else (MOQ_OK, w)) (\<not> x) []"
  by (auto simp: puts_def w_live_def)

lemma puts_if: "puts m c bs \<Longrightarrow> puts k d cs \<Longrightarrow> puts (if x then m else k) (if x then c else d) (if x then bs else cs)"
  by simp

lemma puts_guard: "puts m c bs \<Longrightarrow> (\<And>w w'. k w = (MOQ_OK, w') \<Longrightarrow> d \<and> m w = (MOQ_OK, w')) \<Longrightarrow> puts k (d \<and> c) bs"
  unfolding puts_def by blast

lemmas puts_vi64 = puts_appends [OF writes_appends [OF vi64_writes]]

lemma puts_span: "puts (write_span_limited b limit) (bytes_given b \<and> plen b \<le> limit) (span_bytes (elems b))"
proof (cases "bytes_given b")
  case True
  have "puts (wr_then (moq_buf_write_vi64 (of_nat (plen b))) (moq_buf_write_raw b)) (True \<and> True) (span_bytes (elems b))"
    using puts_then [OF puts_vi64 puts_appends [OF writes_appends [OF writes_raw [OF True]]], of "of_nat (plen b)"]
    by (simp add: span_bytes_def bytes_given_len [OF True])
  then show ?thesis using True by (auto simp: puts_def write_span_limited_def bytes_given_def)
qed (auto simp: puts_def write_span_limited_def bytes_given_def)

lemma write_namespace_eq: "write_namespace ns = encode_ns_value (dn_encoded ns)"
  by (rule ext) (simp add: write_namespace_def encode_ns_value_def Let_def)

lemma puts_namespace: "puts (write_namespace ns) (ns_value_ok (dn_encoded ns)) (elems (dn_encoded ns))"
  unfolding write_namespace_eq by (rule puts_appends [OF writes_appends [OF writes_ns_value]])

definition fetch_ok_bytes :: "moq_d22_message \<Rightarrow> u8 list" where
  "fetch_ok_bytes m = [dm_end_of_track m] @ vi64_enc (loc_group (dm_end_location m)) @ vi64_enc (loc_object (dm_end_location m))"

lemma puts_fetch_ok: "puts (encode_fetch_ok m) (dm_end_of_track m \<le> 1) (fetch_ok_bytes m)"
proof -
  have "puts (moq_buf_write_raw (Arr [dm_end_of_track m])) True [dm_end_of_track m]"
    using puts_appends [OF writes_appends [OF writes_raw, of "Arr [dm_end_of_track m]"]] by (simp add: bytes_given_def)
  from puts_then [OF this puts_then [OF puts_vi64 puts_vi64]]
  show ?thesis unfolding puts_def fetch_ok_bytes_def encode_fetch_ok_def by (auto simp: not_less)
qed

text \<open>A message whose type carries a redirect.\<close>

definition redirects :: "moq_d22_message \<Rightarrow> bool" where
  "redirects m \<longleftrightarrow> dm_type m = MOQ_D22_REQUEST_ERROR \<and> dm_code m = MOQ_D22_ERROR_REDIRECT"

definition outcome_bytes :: "moq_d22_message \<Rightarrow> u8 list" where
  "outcome_bytes m = vi64_enc (dm_code m)
     @ vi64_enc (if dm_type m = MOQ_D22_PUBLISH_DONE then dm_stream_count m else dm_retry_interval m)
     @ span_bytes (elems (dm_reason m))
     @ (if redirects m then span_bytes (elems (dm_redirect_uri m)) @ elems (dn_encoded (dm_ns m)) @ span_bytes (elems (dm_track_name m)) else [])"

definition span_ok :: "moq_bytes \<Rightarrow> nat \<Rightarrow> bool" where
  "span_ok b limit \<longleftrightarrow> bytes_given b \<and> plen b \<le> limit"

lemma puts_outcome: "puts (encode_outcome m)
    (span_ok (dm_reason m) MOQ_D22_MAX_REASON \<and> (redirects m \<longrightarrow> span_ok (dm_redirect_uri m) 65535
       \<and> ns_value_ok (dn_encoded (dm_ns m)) \<and> span_ok (dm_track_name m) 4096)) (outcome_bytes m)"
  unfolding encode_outcome_def outcome_bytes_def redirects_def [symmetric] span_ok_def
  using puts_then [OF puts_vi64 puts_then [OF puts_vi64 puts_then [OF puts_span [of "dm_reason m" MOQ_D22_MAX_REASON]
        puts_when [OF puts_then [OF puts_span [of "dm_redirect_uri m" 65535] puts_then [OF puts_namespace puts_span [of "dm_track_name m" 4096]]],
          of "redirects m"]]], of "dm_code m" "if dm_type m = MOQ_D22_PUBLISH_DONE then dm_stream_count m else dm_retry_interval m" "dm_ns m"]
  by simp


definition params_read :: "moq_d22_param cptr \<Rightarrow> moq_d22_param_scope \<Rightarrow> u64 \<Rightarrow> bool" where
  "params_read p scope max_ranges \<longleftrightarrow> scope_valid scope \<and> length (params_bytes 0 (elems p)) \<le> 65535
     \<and> unat (of_nat (plen p) :: u64) = plen p
     \<and> (\<exists>qs. reads (scan_all (allowed scope) (plen p) 0) (params_bytes 0 (elems p)) qs
          \<and> list_all2 param_same (elems p) qs \<and> params_acceptable max_ranges qs)"

lemma puts_params: "puts (moq_d22_encode_params p scope max_ranges) (params_read p scope max_ranges) (params_bytes 0 (elems p))"
  unfolding puts_def
proof (intro allI impI)
  fix w w' assume w: "w_live w" and run: "moq_d22_encode_params p scope max_ranges w = (MOQ_OK, w')"
  have valid: "writer_valid w" using w by (simp add: w_live_def)
  obtain buf where buf: "w_data w = Arr buf" "w_pos w \<le> length buf"
    using w by (cases "w_data w") (auto simp: w_live_def writer_valid_def)
  have "encode_params_loop (w_pos w) scope 0 (elems p) w = (MOQ_OK, w')"
    using run valid by (auto simp: moq_d22_encode_params_def wr_local_def wr_then_def split: if_splits prod.splits sum.splits)
  with appends_loop valid have "length (params_bytes 0 (elems p)) \<le> w_room w \<and> w' = w_append (params_bytes 0 (elems p)) w"
    unfolding appends_def by blast
  with encode_params_okD [OF buf run]
  show "params_read p scope max_ranges \<and> length (params_bytes 0 (elems p)) \<le> w_room w \<and> w' = w_append (params_bytes 0 (elems p)) w"
    by (simp add: params_read_def)
qed

lemma validate_given: "moq_d22_validate_track_properties b = MOQ_OK \<Longrightarrow> bytes_given b \<and> plen b \<le> 65535"
  by (auto simp: moq_d22_validate_track_properties_def scan_track_properties_def bytes_given_def split: if_splits)

lemma puts_properties:
  "puts (\<lambda>w. if moq_d22_validate_track_properties b \<noteq> MOQ_OK then (MOQ_ERR_INVAL, w) else moq_buf_write_raw b w)
     (moq_d22_validate_track_properties b = MOQ_OK) (elems b)"
proof (cases "moq_d22_validate_track_properties b = MOQ_OK")
  case True
  with puts_appends [OF writes_appends [OF writes_raw, of b]] validate_given [OF True] show ?thesis by simp
qed (simp add: puts_def)

definition head_bytes :: "u32 \<Rightarrow> moq_d22_message \<Rightarrow> u8 list" where
  "head_bytes flds m =
     (if has flds HAS_ID then vi64_enc (dm_request_id m) else [])
     @ (if has flds HAS_NS then elems (dn_encoded (dm_ns m)) else [])
     @ (if has flds HAS_NAME then span_bytes (elems (dm_track_name m)) else [])
     @ (if has flds HAS_ALIAS then vi64_enc (dm_track_alias m) else [])
     @ (if dm_type m = MOQ_D22_FETCH_OK then fetch_ok_bytes m else [])
     @ (if dm_type m = MOQ_D22_PUBLISH_DONE \<or> dm_type m = MOQ_D22_REQUEST_ERROR then outcome_bytes m else [])"

definition head_ok :: "u32 \<Rightarrow> moq_d22_message \<Rightarrow> bool" where
  "head_ok flds m \<longleftrightarrow>
     (has flds HAS_NS \<longrightarrow> ns_value_ok (dn_encoded (dm_ns m))) \<and> (has flds HAS_NAME \<longrightarrow> span_ok (dm_track_name m) 4096)
     \<and> (dm_type m = MOQ_D22_FETCH_OK \<longrightarrow> dm_end_of_track m \<le> 1)
     \<and> (dm_type m = MOQ_D22_PUBLISH_DONE \<or> dm_type m = MOQ_D22_REQUEST_ERROR \<longrightarrow>
          span_ok (dm_reason m) MOQ_D22_MAX_REASON
          \<and> (redirects m \<longrightarrow> span_ok (dm_redirect_uri m) 65535 \<and> ns_value_ok (dn_encoded (dm_ns m)) \<and> span_ok (dm_track_name m) 4096))"

definition params_part :: "u32 \<Rightarrow> moq_d22_param cptr \<Rightarrow> u8 list" where
  "params_part flds p = (if has flds HAS_PARAMS then vi64_enc (of_nat (plen p)) @ params_bytes 0 (elems p) else [])"

definition properties_part :: "u32 \<Rightarrow> moq_d22_message \<Rightarrow> u8 list" where
  "properties_part flds m = (if has flds HAS_PROPERTIES then elems (dm_properties m) else [])"

lemma puts_body:
  "puts (encode_body m p flds scope ctx)
     (head_ok flds m \<and> (if has flds HAS_PARAMS then params_read p scope (mc_max_filter_ranges ctx) else plen p = 0)
      \<and> (if has flds HAS_PROPERTIES then moq_d22_validate_track_properties (dm_properties m) = MOQ_OK else plen (dm_properties m) = 0))
     (head_bytes flds m @ params_part flds p @ properties_part flds m)"
  unfolding encode_body_def head_bytes_def params_part_def properties_part_def append_assoc head_ok_def
  using puts_then [OF puts_when [OF puts_vi64, of "has flds HAS_ID" "dm_request_id m"]
      puts_then [OF puts_when [OF puts_namespace, of "has flds HAS_NS" "dm_ns m"]
      puts_then [OF puts_when [OF puts_span [of "dm_track_name m" 4096], of "has flds HAS_NAME"]
      puts_then [OF puts_when [OF puts_vi64, of "has flds HAS_ALIAS" "dm_track_alias m"]
      puts_then [OF puts_when [OF puts_fetch_ok, of "dm_type m = MOQ_D22_FETCH_OK" m]
      puts_then [OF puts_when [OF puts_outcome, of "dm_type m = MOQ_D22_PUBLISH_DONE \<or> dm_type m = MOQ_D22_REQUEST_ERROR" m]
      puts_then [OF puts_if [OF puts_then [OF puts_vi64 puts_params [of p scope "mc_max_filter_ranges ctx"]] puts_nothing [of "plen p \<noteq> 0"],
            of "has flds HAS_PARAMS" "of_nat (plen p)"]
        puts_if [OF puts_properties [of "dm_properties m"] puts_nothing [of "plen (dm_properties m) \<noteq> 0"], of "has flds HAS_PROPERTIES"]]]]]]]]
  by (simp add: span_ok_def cong: if_cong)


section \<open>What the decoder makes of it\<close>

text \<open>\<open>yields m bs P\<close>: when \<open>m\<close> succeeds on an input that continues with \<open>bs\<close>, it consumes \<open>bs\<close> and its
  result satisfies \<open>P\<close>.\<close>

definition yields :: "'a rd \<Rightarrow> u8 list \<Rightarrow> ('a \<Rightarrow> bool) \<Rightarrow> bool" where
  "yields m bs P \<longleftrightarrow> (\<forall>r rest a r'. rd_live r \<longrightarrow> rd_rest r = bs @ rest \<longrightarrow> m r = (Inr a, r') \<longrightarrow>
     P a \<and> r' = r\<lparr>rd_pos := rd_pos r + length bs\<rparr>)"

lemma yieldsD:
  "yields m bs P \<Longrightarrow> rd_live r \<Longrightarrow> rd_rest r = bs @ rest \<Longrightarrow> m r = (Inr a, r') \<Longrightarrow>
   P a \<and> r' = r\<lparr>rd_pos := rd_pos r + length bs\<rparr>"
  unfolding yields_def by blast

lemma yields_reads: "reads m bs a \<Longrightarrow> P a \<Longrightarrow> yields m bs P"
  unfolding yields_def using readsD by fastforce

lemma yields_then:
  assumes m: "yields m bs P" and f: "\<And>a. P a \<Longrightarrow> yields (f a) cs Q"
  shows "yields (rd_then m f) (bs @ cs) Q"
  unfolding yields_def
proof (intro allI impI)
  fix r rest b r' assume live: "rd_live r" and rest: "rd_rest r = (bs @ cs) @ rest" and run: "rd_then m f r = (Inr b, r')"
  from run obtain a r1 where 1: "m r = (Inr a, r1)" "f a r1 = (Inr b, r')" by (rule rd_then_okE)
  have rest: "rd_rest r = bs @ (cs @ rest)" using rest by simp
  from yieldsD [OF m live rest 1(1)] have a: "P a" "r1 = r\<lparr>rd_pos := rd_pos r + length bs\<rparr>" by auto
  from rd_live_advance [OF live rest] yieldsD [OF f [OF a(1)] _ _ 1(2)] a(2)
  show "Q b \<and> r' = r\<lparr>rd_pos := rd_pos r + length (bs @ cs)\<rparr>" by (simp add: add.assoc)
qed

lemma yields_return: "P a \<Longrightarrow> yields (rd_return a) [] P"
  by (simp add: yields_def rd_return_def)

lemma yields_fail [simp]: "yields (rd_fail e) bs P"
  by (simp add: yields_def rd_fail_def)

lemma yields_when:
  "(c \<Longrightarrow> yields m bs P) \<Longrightarrow> (\<not> c \<Longrightarrow> P a) \<Longrightarrow> yields (rd_when c m a) (if c then bs else []) P"
  by (simp add: rd_when_def yields_return)

lemma yields_end: "yields m bs P \<Longrightarrow> (\<And>a. P a \<Longrightarrow> Q (f a)) \<Longrightarrow> yields (rd_then m (\<lambda>a. rd_return (f a))) bs Q"
  using yields_then [of m bs P "\<lambda>a. rd_return (f a)" "[]" Q] by (simp add: yields_return)

lemma yields_weaken: "yields m bs P \<Longrightarrow> (\<And>a. P a \<Longrightarrow> Q a) \<Longrightarrow> yields m bs Q"
  unfolding yields_def by blast

lemma yields_vi64: "yields moq_buf_read_vi64 (vi64_enc v) (\<lambda>x. x = v)"
  by (rule yields_reads [OF vi64_reads]) simp

lemma yields_span:
  assumes "length bs < 2 ^ 64"
  shows "yields (read_span limit) (span_bytes bs) (\<lambda>x. x = Arr bs)"
proof (cases "length bs \<le> limit")
  case True
  have "reads (read_span (length bs)) (span_bytes bs) (Arr bs)" using assms by (intro reads_read_span) simp_all
  moreover have "read_span limit r = read_span (length bs) r" if "rd_live r" "rd_rest r = span_bytes bs @ rest" for r rest
  proof -
    have "moq_buf_read_vi64 r = (Inr (of_nat (length bs)), r\<lparr>rd_pos := rd_pos r + length (vi64_enc (of_nat (length bs)))\<rparr>)"
      using that by (intro readsD [OF vi64_reads]) (simp_all add: span_bytes_def)
    then show ?thesis using True assms by (simp add: read_span_def rd_then_def unat_of_nat_u64)
  qed
  ultimately show ?thesis unfolding yields_def using readsD by fastforce
next
  case False
  have "read_span limit r = (Inl MOQ_ERR_PROTO, r\<lparr>rd_pos := rd_pos r + length (vi64_enc (of_nat (length bs)))\<rparr>)"
    if "rd_live r" "rd_rest r = span_bytes bs @ rest" for r rest
  proof -
    have "moq_buf_read_vi64 r = (Inr (of_nat (length bs)), r\<lparr>rd_pos := rd_pos r + length (vi64_enc (of_nat (length bs)))\<rparr>)"
      using that by (intro readsD [OF vi64_reads]) (simp_all add: span_bytes_def)
    then show ?thesis using False assms by (simp add: read_span_def rd_then_def unat_of_nat_u64)
  qed
  then show ?thesis unfolding yields_def by simp
qed

lemma yields_namespace:
  assumes "ns_value_ok b"
  shows "yields moq_d22_decode_namespace (elems b) (\<lambda>ns. dn_encoded ns = Arr (elems b))"
  using assms by (rule reads_ns_value) (rule yields_reads)

text \<open>The fields of the decoded message \<open>v\<close> are those of \<open>m\<close>.\<close>

definition common_same :: "u32 \<Rightarrow> moq_d22_message \<Rightarrow> moq_d22_message \<Rightarrow> bool" where
  "common_same flds m v \<longleftrightarrow> dm_type v = dm_type m
     \<and> (has flds HAS_ID \<longrightarrow> dm_request_id v = dm_request_id m)
     \<and> (has flds HAS_NS \<longrightarrow> dn_encoded (dm_ns v) = Arr (elems (dn_encoded (dm_ns m))))
     \<and> (has flds HAS_NAME \<longrightarrow> dm_track_name v = Arr (elems (dm_track_name m)))
     \<and> (has flds HAS_ALIAS \<longrightarrow> dm_track_alias v = dm_track_alias m)"

definition fetch_ok_same :: "moq_d22_message \<Rightarrow> moq_d22_message \<Rightarrow> bool" where
  "fetch_ok_same m v \<longleftrightarrow> (dm_type m = MOQ_D22_FETCH_OK \<longrightarrow>
     dm_end_of_track v = dm_end_of_track m \<and> dm_end_location v = dm_end_location m)"

definition outcome_same :: "moq_d22_message \<Rightarrow> moq_d22_message \<Rightarrow> bool" where
  "outcome_same m v \<longleftrightarrow> (dm_type m = MOQ_D22_PUBLISH_DONE \<or> dm_type m = MOQ_D22_REQUEST_ERROR \<longrightarrow>
     dm_code v = dm_code m \<and> dm_reason v = Arr (elems (dm_reason m))
     \<and> (dm_type m = MOQ_D22_PUBLISH_DONE \<longrightarrow> dm_stream_count v = dm_stream_count m)
     \<and> (dm_type m = MOQ_D22_REQUEST_ERROR \<longrightarrow> dm_retry_interval v = dm_retry_interval m)
     \<and> (redirects m \<longrightarrow> dm_redirect_uri v = Arr (elems (dm_redirect_uri m))
          \<and> dn_encoded (dm_ns v) = Arr (elems (dn_encoded (dm_ns m))) \<and> dm_track_name v = Arr (elems (dm_track_name m))))"


text \<open>While the fields before the properties are read, no mandatory property has been seen.\<close>

definition common_read :: "u32 \<Rightarrow> moq_d22_message \<Rightarrow> moq_d22_message \<Rightarrow> bool" where
  "common_read flds m v \<longleftrightarrow> common_same flds m v \<and> \<not> dm_mandatory_track_property v"

lemma span_short: "span_ok b limit \<Longrightarrow> limit \<le> 65535 \<Longrightarrow> length (elems b) < 2 ^ 64"
  by (simp add: span_ok_def bytes_given_len)

lemma yields_common:
  assumes "dm_type v = dm_type m \<and> \<not> dm_mandatory_track_property v" and "has flds HAS_NS \<Longrightarrow> ns_value_ok (dn_encoded (dm_ns m))"
    and "has flds HAS_NAME \<Longrightarrow> span_ok (dm_track_name m) 4096"
  shows "yields (decode_common flds v)
    ((if has flds HAS_ID then vi64_enc (dm_request_id m) else [])
     @ (if has flds HAS_NS then elems (dn_encoded (dm_ns m)) else [])
     @ (if has flds HAS_NAME then span_bytes (elems (dm_track_name m)) else [])
     @ (if has flds HAS_ALIAS then vi64_enc (dm_track_alias m) else [])) (common_read flds m)"
  unfolding decode_common_def
proof (rule yields_then [where P = "\<lambda>x. has flds HAS_ID \<longrightarrow> x = dm_request_id m"], goal_cases)
  case 1
  show ?case by (rule yields_when, rule yields_weaken [OF yields_vi64]) simp_all
next
  case (2 request_id)
  show ?case
  proof (rule yields_then [where P = "\<lambda>x. has flds HAS_NS \<longrightarrow> dn_encoded x = Arr (elems (dn_encoded (dm_ns m)))"], goal_cases)
    case 1
    show ?case by (rule yields_when, rule yields_weaken [OF yields_namespace [OF assms(2)]]) simp_all
  next
    case (2 ns)
    show ?case
    proof (rule yields_then [where P = "\<lambda>x. has flds HAS_NAME \<longrightarrow> x = Arr (elems (dm_track_name m))"], goal_cases)
      case 1
      show ?case by (rule yields_when, rule yields_weaken [OF yields_span [OF span_short [OF assms(3)]]]) simp_all
    next
      case (2 name)
      show ?case
        by (rule yields_end [where P = "\<lambda>x. has flds HAS_ALIAS \<longrightarrow> x = dm_track_alias m"], rule yields_when,
            rule yields_weaken [OF yields_vi64]) (use assms(1) \<open>has flds HAS_ID \<longrightarrow> request_id = dm_request_id m\<close>
            \<open>has flds HAS_NS \<longrightarrow> dn_encoded ns = Arr (elems (dn_encoded (dm_ns m)))\<close> 2 in \<open>simp_all add: common_read_def common_same_def\<close>)
    qed
  qed
qed

lemma yields_fetch_ok:
  assumes "common_read flds m v"
  shows "yields (decode_fetch_ok v) (fetch_ok_bytes m) (\<lambda>x. common_read flds m x \<and> fetch_ok_same m x)"
  unfolding decode_fetch_ok_def fetch_ok_bytes_def
proof (rule yields_then [where P = "\<lambda>x. x = Arr [dm_end_of_track m]"], goal_cases)
  case 1
  show ?case using yields_reads [OF reads_raw [of "[dm_end_of_track m]"]] by simp
next
  case (2 byte)
  show ?case
  proof (cases "1 < dm_end_of_track m")
    case False
    have "yields (rd_then moq_buf_read_vi64 (\<lambda>grp. rd_then moq_buf_read_vi64 (\<lambda>obj.
        rd_return (v\<lparr>dm_end_of_track := dm_end_of_track m, dm_end_location := \<lparr>loc_group = grp, loc_object = obj\<rparr>\<rparr>))))
        (vi64_enc (loc_group (dm_end_location m)) @ vi64_enc (loc_object (dm_end_location m)))
        (\<lambda>x. common_read flds m x \<and> fetch_ok_same m x)"
      by (rule yields_then [OF yields_vi64], rule yields_end [OF yields_vi64])
        (use assms in \<open>simp add: common_read_def common_same_def fetch_ok_same_def\<close>)
    with False 2 show ?thesis by (simp add: Let_def)
  qed (use 2 in \<open>simp add: Let_def\<close>)
qed

definition head_read :: "u32 \<Rightarrow> moq_d22_message \<Rightarrow> moq_d22_message \<Rightarrow> bool" where
  "head_read flds m v \<longleftrightarrow> common_read flds m v \<and> fetch_ok_same m v \<and> outcome_same m v"

lemma yields_redirect:
  assumes "common_read flds m v" "fetch_ok_same m v" "dm_code v = dm_code m" "dm_reason v = Arr (elems (dm_reason m))"
    "dm_type m = MOQ_D22_REQUEST_ERROR" "dm_retry_interval v = dm_retry_interval m"
    and "span_ok (dm_redirect_uri m) 65535" "ns_value_ok (dn_encoded (dm_ns m))" "span_ok (dm_track_name m) 4096"
  shows "yields (decode_redirect ctx v)
    (span_bytes (elems (dm_redirect_uri m)) @ elems (dn_encoded (dm_ns m)) @ span_bytes (elems (dm_track_name m))) (head_read flds m)"
  unfolding decode_redirect_def
proof (rule yields_then [OF yields_span [OF span_short [OF assms(7)]]], simp, rule yields_then [OF yields_namespace [OF assms(8)]], goal_cases)
  case (1 uri ns)
  have "yields (rd_then (read_span (4096 - dn_value_bytes ns)) f) (span_bytes (elems (dm_track_name m)) @ []) (head_read flds m)"
    if "\<And>x. x = Arr (elems (dm_track_name m)) \<Longrightarrow> yields (f x) [] (head_read flds m)" for f
    by (rule yields_then [OF yields_span [OF span_short [OF assms(9)]]]) (use that in simp_all)
  then show ?case
    using assms(1-6) 1 by (simp add: Let_def yields_return head_read_def common_read_def common_same_def fetch_ok_same_def outcome_same_def)
qed

lemma yields_outcome:
  assumes same: "common_read flds m v" "fetch_ok_same m v"
    and type: "dm_type m = MOQ_D22_PUBLISH_DONE \<or> dm_type m = MOQ_D22_REQUEST_ERROR"
    and ok: "span_ok (dm_reason m) MOQ_D22_MAX_REASON" "redirects m \<Longrightarrow> span_ok (dm_redirect_uri m) 65535
      \<and> ns_value_ok (dn_encoded (dm_ns m)) \<and> span_ok (dm_track_name m) 4096"
  shows "yields (decode_outcome ctx v) (outcome_bytes m) (head_read flds m)"
  unfolding decode_outcome_def outcome_bytes_def
proof (rule yields_then [OF yields_vi64], rule yields_then [OF yields_vi64], rule yields_then [OF yields_span [OF span_short [OF ok(1)]]], simp, goal_cases)
  case (1 code n reason)
  let ?v = "if dm_type v = MOQ_D22_PUBLISH_DONE then v\<lparr>dm_code := code, dm_stream_count := n, dm_reason := reason\<rparr>
    else v\<lparr>dm_code := code, dm_retry_interval := n, dm_reason := reason\<rparr>"
  have v: "common_read flds m ?v" "fetch_ok_same m ?v" "dm_code ?v = dm_code m" "dm_reason ?v = Arr (elems (dm_reason m))" "dm_type ?v = dm_type m"
    using same 1 by (auto simp: common_read_def common_same_def fetch_ok_same_def)
  have red: "dm_type ?v = MOQ_D22_REQUEST_ERROR \<and> dm_code ?v = MOQ_D22_ERROR_REDIRECT \<longleftrightarrow> redirects m"
    using v(3,5) by (simp only: redirects_def)
  show ?case
    unfolding Let_def red
  proof (rule yields_when)
    assume r: "redirects m"
    have "dm_retry_interval ?v = dm_retry_interval m" using r 1 same(1) by (simp add: redirects_def common_read_def common_same_def)
    then show "yields (decode_redirect ctx ?v)
        (span_bytes (elems (dm_redirect_uri m)) @ elems (dn_encoded (dm_ns m)) @ span_bytes (elems (dm_track_name m))) (head_read flds m)"
      using r ok(2) by (intro yields_redirect [OF v(1-4)]) (simp_all add: redirects_def)
  next
    assume "\<not> redirects m"
    then show "head_read flds m ?v" using v(1,2) 1 type same(1) by (auto simp: head_read_def outcome_same_def common_read_def common_same_def)
  qed
qed


lemma yields_head:
  assumes type: "dm_type v = dm_type m \<and> \<not> dm_mandatory_track_property v" and ok: "head_ok flds m"
  shows "yields (decode_head flds ctx v) (head_bytes flds m) (head_read flds m)"
proof -
  have common: "has flds HAS_NS \<Longrightarrow> ns_value_ok (dn_encoded (dm_ns m))" "has flds HAS_NAME \<Longrightarrow> span_ok (dm_track_name m) 4096"
    using ok by (simp_all add: head_ok_def)
  have "yields (rd_then (rd_when (dm_type v = MOQ_D22_FETCH_OK) (decode_fetch_ok v) v) (\<lambda>v.
      rd_when (dm_type v = MOQ_D22_PUBLISH_DONE \<or> dm_type v = MOQ_D22_REQUEST_ERROR) (decode_outcome ctx v) v))
      ((if dm_type m = MOQ_D22_FETCH_OK then fetch_ok_bytes m else [])
       @ (if dm_type m = MOQ_D22_PUBLISH_DONE \<or> dm_type m = MOQ_D22_REQUEST_ERROR then outcome_bytes m else [])) (head_read flds m)"
    if v: "common_read flds m v" for v
  proof (rule yields_then [where P = "\<lambda>x. common_read flds m x \<and> fetch_ok_same m x"], goal_cases)
    case 1
    have "dm_type v = dm_type m" using v by (simp add: common_read_def common_same_def)
    then show ?case
      using yields_when [of "dm_type m = MOQ_D22_FETCH_OK", OF yields_fetch_ok [OF v]] v by (simp add: fetch_ok_same_def)
  next
    case (2 x)
    have type: "dm_type x = dm_type m" using 2 by (simp add: common_read_def common_same_def)
    show ?case
      unfolding type
    proof (rule yields_when)
      assume "dm_type m = MOQ_D22_PUBLISH_DONE \<or> dm_type m = MOQ_D22_REQUEST_ERROR"
      then show "yields (decode_outcome ctx x) (outcome_bytes m) (head_read flds m)"
        using 2 ok by (intro yields_outcome) (simp_all add: head_ok_def)
    next
      assume "\<not> (dm_type m = MOQ_D22_PUBLISH_DONE \<or> dm_type m = MOQ_D22_REQUEST_ERROR)"
      then show "head_read flds m x" using 2 by (simp add: head_read_def outcome_same_def)
    qed
  qed
  from yields_then [OF yields_common [OF type common] this] show ?thesis by (simp add: decode_head_def head_bytes_def)
qed

definition params_same :: "u32 \<Rightarrow> moq_d22_param cptr \<Rightarrow> moq_d22_params \<Rightarrow> bool" where
  "params_same flds p v \<longleftrightarrow> (has flds HAS_PARAMS \<longrightarrow> (\<exists>bs ps. v = params_summary bs ps
     \<and> walk_params (plen p) 0 (moq_buf_reader_init (Arr bs)) = (Inr ps, \<lparr>rd_data = Arr bs, rd_pos = length bs\<rparr>)
     \<and> list_all2 param_same (elems p) ps))"

lemma scan_params_strict:
  "moq_d22_scan_params count scope max_ranges r = (Inr (v, False), r') \<Longrightarrow>
   moq_d22_decode_params count scope max_ranges r = (Inr v, r')"
  by (auto simp: moq_d22_decode_params_def moq_d22_scan_params_def rd_local_def rd_then_def rd_return_def split: if_splits)

lemma scan_params_same:
  assumes live: "rd_live r" and rest: "rd_rest r = params_bytes 0 (elems p) @ rest" and read: "params_read p scope max_ranges"
    and run: "moq_d22_scan_params (of_nat (plen p)) scope max_ranges r = (Inr (v, False), r')"
  shows "params_same flds p v \<and> r' = r\<lparr>rd_pos := rd_pos r + length (params_bytes 0 (elems p))\<rparr>"
proof -
  let ?bs = "params_bytes 0 (elems p)"
  from read obtain qs where count: "unat (of_nat (plen p) :: u64) = plen p"
      and qs: "reads (scan_all (allowed scope) (plen p) 0) ?bs qs" "list_all2 param_same (elems p) qs"
    by (auto simp: params_read_def)
  from scan_params_strict [OF run] decode_params_ok_iff [OF live]
  have "seq_run max_ranges scope r (plen p) [] r 0 v r'" by (simp add: count)
  then obtain ps cs where ps: "scan_all (allowed scope) (plen p) 0 r = (Inr ps, r')"
      and cs: "r' = r\<lparr>rd_pos := rd_pos r + length cs\<rparr>" "rd_rest r = cs @ drop (length cs) (rd_rest r)" "v = params_summary cs ps"
    unfolding seq_run_def by auto
  from readsD [OF qs(1) live rest] ps have eq: "ps = qs" "r' = r\<lparr>rd_pos := rd_pos r + length ?bs\<rparr>" by auto
  from arg_cong [OF trans [OF cs(1) [symmetric] eq(2)], of rd_pos] have "length cs = length ?bs" by simp
  with cs(2) rest have "cs = ?bs" by (metis append_eq_append_conv)
  moreover have "walk_params (plen p) 0 (moq_buf_reader_init (Arr ?bs)) = (Inr qs, \<lparr>rd_data = Arr ?bs, rd_pos = length ?bs\<rparr>)"
    using exact_all [OF rd_exact_scan_all, THEN iffD2, OF qs(1)] walk_params_iff [OF rd_live_valid [OF init_live(1)]] scan_all_legal_iff
    by blast
  ultimately show ?thesis using eq cs(3) qs(2) unfolding params_same_def by blast
qed

definition properties_same :: "u32 \<Rightarrow> moq_d22_message \<Rightarrow> moq_d22_message \<Rightarrow> bool" where
  "properties_same flds m v \<longleftrightarrow> (has flds HAS_PROPERTIES \<longrightarrow> dm_properties v = Arr (elems (dm_properties m))
     \<and> (\<exists>ps. track_pairs (elems (dm_properties m)) = Some ps
          \<and> (dm_mandatory_track_property v \<longleftrightarrow> (\<exists>e \<in> set ps. mandatory_type (fst e)))))"


lemma decode_properties_same:
  assumes live: "rd_live r" and rest: "rd_rest r = elems (dm_properties m)" and none: "\<not> dm_mandatory_track_property v"
    and run: "decode_properties v r = (Inr x, r')"
  shows "\<exists>mandatory. x = v\<lparr>dm_properties := Arr (elems (dm_properties m)), dm_mandatory_track_property := mandatory\<rparr>
    \<and> properties_same flds m x"
proof -
  let ?bs = "elems (dm_properties m)"
  have ptr: "ptake (moq_buf_reader_remaining r) (moq_buf_reader_ptr r) = Arr ?bs" using reader_ptr_rest [OF live] rest by simp
  obtain mandatory where scan: "scan_track_properties (Arr ?bs) (Some False) = (MOQ_OK, mandatory)"
      and x: "x = v\<lparr>dm_properties := Arr ?bs, dm_mandatory_track_property := the mandatory\<rparr>"
    using run none by (auto simp: decode_properties_def ptr Let_def split: prod.splits if_splits)
  from scan obtain ps where "track_pairs ?bs = Some ps"
      "mandatory = (if \<exists>e \<in> set ps. mandatory_type (fst e) then map_option (\<lambda>_. True) (Some False) else Some False)"
    unfolding scan_track_properties_iff by blast
  then show ?thesis using x by (auto simp: properties_same_def)
qed

text \<open>All active fields of the decoded message are those of the message and the parameters it was made of.\<close>

definition message_same :: "u32 \<Rightarrow> moq_d22_message \<Rightarrow> moq_d22_param cptr \<Rightarrow> moq_d22_message \<Rightarrow> bool" where
  "message_same flds m p v \<longleftrightarrow> common_same flds m v \<and> fetch_ok_same m v \<and> outcome_same m v
     \<and> params_same flds p (dm_params v) \<and> properties_same flds m v"

lemma decode_body_same:
  assumes head: "head_ok flds m"
    and params: "has flds HAS_PARAMS \<Longrightarrow> params_read p scope (mc_max_filter_ranges ctx)"
    and live: "rd_live r" and rest: "rd_rest r = head_bytes flds m @ params_part flds p @ properties_part flds m"
    and run: "decode_body flds scope ctx (message_zero (dm_type m)) r = (Inr (v, False), r')"
  shows "message_same flds m p v"
proof -
  let ?params = "rd_when (has flds HAS_PARAMS) (rd_then moq_buf_read_vi64 (\<lambda>count. moq_d22_scan_params count scope (mc_max_filter_ranges ctx)))"
  from run obtain v1 r1 x r2 v2 r3 where 1: "decode_head flds ctx (message_zero (dm_type m)) r = (Inr v1, r1)"
      and 2: "?params (dm_params v1, False) r1 = (Inr (x, False), r2)"
      and 3: "rd_when (has flds HAS_PROPERTIES) (decode_properties (v1\<lparr>dm_params := x\<rparr>)) (v1\<lparr>dm_params := x\<rparr>) r2 = (Inr v2, r3)"
      and v: "v = v2"
    unfolding decode_body_def by (auto simp: Let_def split: if_splits elim!: rd_then_okE)
  have "dm_type (message_zero (dm_type m)) = dm_type m \<and> \<not> dm_mandatory_track_property (message_zero (dm_type m))"
    by (simp add: message_zero_def)
  from yieldsD [OF yields_head [OF this head] live rest 1]
  have same: "head_read flds m v1" and r1: "r1 = r\<lparr>rd_pos := rd_pos r + length (head_bytes flds m)\<rparr>" by auto
  from rd_live_advance [OF live rest] r1 have live1: "rd_live r1" "rd_rest r1 = params_part flds p @ properties_part flds m" by auto
  have par: "params_same flds p x \<and> rd_live r2 \<and> rd_rest r2 = properties_part flds m"
  proof (cases "has flds HAS_PARAMS")
    case True
    let ?n = "vi64_enc (of_nat (plen p))" and ?bs = "params_bytes 0 (elems p)"
    have r1: "rd_rest r1 = ?n @ ?bs @ properties_part flds m" using live1(2) True by (simp add: params_part_def)
    let ?r = "r1\<lparr>rd_pos := rd_pos r1 + length ?n\<rparr>"
    from rd_live_advance [OF live1(1) r1] have r: "rd_live ?r" "rd_rest ?r = ?bs @ properties_part flds m" by auto
    from then_at [OF 2 [unfolded rd_when_def if_P [OF True]] vi64_reads live1(1) r1]
    have "moq_d22_scan_params (of_nat (plen p)) scope (mc_max_filter_ranges ctx) ?r = (Inr (x, False), r2)" .
    from scan_params_same [OF r params [OF True] this] rd_live_advance [OF r] show ?thesis by auto
  next
    case False
    then show ?thesis using 2 live1 by (simp add: rd_when_def rd_return_def params_part_def params_same_def)
  qed
  show ?thesis
  proof (cases "has flds HAS_PROPERTIES")
    case True
    have "\<not> dm_mandatory_track_property (v1\<lparr>dm_params := x\<rparr>)" using same by (simp add: head_read_def common_read_def)
    moreover have "rd_rest r2 = elems (dm_properties m)" using par True by (simp add: properties_part_def)
    ultimately obtain mandatory where "v2 = v1\<lparr>dm_params := x, dm_properties := Arr (elems (dm_properties m)), dm_mandatory_track_property := mandatory\<rparr>"
        "properties_same flds m v2"
      using decode_properties_same [of r2 m "v1\<lparr>dm_params := x\<rparr>" v2 r3 flds] par 3 True by (auto simp: rd_when_def)
    with same par v show ?thesis
      by (simp add: message_same_def head_read_def common_read_def common_same_def fetch_ok_same_def outcome_same_def)
  next
    case False
    then have "v2 = v1\<lparr>dm_params := x\<rparr>" using 3 by (simp add: rd_when_def rd_return_def)
    with same par v False show ?thesis
      by (simp add: message_same_def head_read_def common_read_def common_same_def fetch_ok_same_def outcome_same_def properties_same_def)
  qed
qed


lemma store_over: "length u = 2 \<Longrightarrow> store_bytes (length ys) u (Arr (ys @ [x, y] @ zs)) = Arr (ys @ u @ zs)"
  by simp

lemma patched:
  assumes "w_live w" and "length (as @ [x, y] @ bs) \<le> w_room w" and "length u = 2"
  shows "(w_append (as @ [x, y] @ bs) w)\<lparr>w_data := store_bytes (w_pos w + length as) u (w_data (w_append (as @ [x, y] @ bs) w))\<rparr>
    = w_append (as @ u @ bs) w"
proof -
  obtain xs where xs: "w_data w = Arr xs" "w_pos w \<le> length xs"
    using assms(1) by (cases "w_data w") (auto simp: w_live_def writer_valid_def)
  let ?zs = "bs @ drop (w_pos w + length (as @ [x, y] @ bs)) xs"
  have "store_bytes (w_pos w + length as) u (Arr ((take (w_pos w) xs @ as) @ [x, y] @ ?zs)) = Arr ((take (w_pos w) xs @ as) @ u @ ?zs)"
    using store_over [OF assms(3), of "take (w_pos w) xs @ as" x y ?zs] xs(2) by (simp only: length_append length_take min.absorb2)
  then show ?thesis using assms(3) by (simp add: w_append_def xs(1) del: append_Cons append_Nil)
qed

lemma reserve_uint16_fails: "moq_buf_reserve_uint16 w \<noteq> (Inl MOQ_OK, w')"
  by (simp add: moq_buf_reserve_uint16_def)

lemma encode_message_okD:
  assumes valid: "writer_valid w" and run: "moq_d22_encode_message m p ctx w = (MOQ_OK, w')"
  obtains flds scope body checked where "layout (dm_type m) ctx = Inr (flds, scope)"
    "body = head_bytes flds m @ params_part flds p @ properties_part flds m" "length body \<le> 65535"
    "length (envelope_bytes (dm_type m) body) \<le> w_room w" "w' = w_append (envelope_bytes (dm_type m) body) w"
    "head_ok flds m" "has flds HAS_PARAMS \<Longrightarrow> params_read p scope (mc_max_filter_ranges ctx)"
    "moq_d22_decode_message (dm_type m) (Arr body) ctx = Inr checked"
proof -
  let ?t = "vi64_enc (dm_type m)"
  obtain flds scope where lay: "layout (dm_type m) ctx = Inr (flds, scope)"
    using run by (cases "layout (dm_type m) ctx") (auto simp: moq_d22_encode_message_def split: if_splits)
  define body where "body = head_bytes flds m @ params_part flds p @ properties_part flds m"
  from run lay valid obtain c1 c2 at c3 checked where 1: "moq_buf_write_vi64 (dm_type m) w = (MOQ_OK, c1)"
      and 2: "moq_buf_reserve_uint16 c1 = (Inr at, c2)" and 3: "encode_body m p flds scope ctx c2 = (MOQ_OK, c3)"
      and 4: "w_pos c3 - w_pos c2 \<le> 65535"
        "moq_d22_decode_message (dm_type m) (ptake (w_pos c3 - w_pos c2) (padvance (w_pos c2) (w_data c3))) ctx = Inr checked"
        "moq_buf_patch_uint16 at (of_nat (w_pos c3 - w_pos c2)) c3 = (MOQ_OK, w')"
    by (auto simp: moq_d22_encode_message_def wr_local_def wr_then_def Let_def not_less reserve_uint16_fails
        split: if_splits prod.splits sum.splits)
  from 1 valid writes_appends [OF vi64_writes] have c1: "length ?t \<le> w_room w" "c1 = w_append ?t w" unfolding appends_def by blast+
  have live: "w_live w"
    using valid c1(1) moq_vi64_len_bounds [of "dm_type m"] by (elim writer_validE) (auto simp: w_live_def writer_valid_def w_room_def)
  from 2 have c2: "2 \<le> w_room c1" "at = w_pos c1" "c2 = w_append [0, 0] c1"
    by (auto simp: moq_buf_reserve_uint16_def w_room_def not_less split: if_splits)
  have live1: "w_live c1" unfolding c1(2) by (rule w_live_append [OF live c1(1)])
  have live2: "w_live c2" unfolding c2(3) using c2(1) by (intro w_live_append [OF live1]) simp
  from puts_body [of m p flds scope ctx] 3 live2
  have c3: "head_ok flds m" "has flds HAS_PARAMS \<Longrightarrow> params_read p scope (mc_max_filter_ranges ctx)"
      "length body \<le> w_room c2" "c3 = w_append body c2"
    unfolding puts_def body_def by fastforce+
  have valid1: "writer_valid c1" using live1 by (simp add: w_live_def)
  have room1: "w_room c2 = w_room c1 - 2" using w_room_append [OF valid1, of "[0, 0]"] c2(1,3) by simp
  have room0: "w_room c1 = w_room w - length ?t" using w_room_append [OF valid c1(1)] c1(2) by simp
  have fits: "length (?t @ [0, 0] @ body) \<le> w_room w" using c1(1) c2(1) c3(3) room0 room1 by simp
  have "c3 = w_append ([0, 0] @ body) c1"
    unfolding c3(4) c2(3) using c2(1) c3(3) room1 by (intro w_append_append [OF valid1]) simp
  also have "\<dots> = w_append (?t @ [0, 0] @ body) w"
    unfolding c1(2) using fits by (intro w_append_append [OF valid]) simp
  finally have all: "c3 = w_append (?t @ [0, 0] @ body) w" .
  have len: "w_pos c3 - w_pos c2 = length body" by (simp add: c3(4))
  have "ptake (length body) (padvance (w_pos c2) (w_data c3)) = Arr body"
    using live2 c3(3) unfolding c3(4)
    by (cases "w_data c2") (auto simp: w_append_def w_live_def writer_valid_def w_room_def)
  then have dec: "moq_d22_decode_message (dm_type m) (Arr body) ctx = Inr checked" using 4(2) len by simp
  have "w' = c3\<lparr>w_data := store_bytes at (uint16_bytes (of_nat (length body))) (w_data c3)\<rparr>"
    using 4(3) by (auto simp: moq_buf_patch_uint16_def len split: if_splits)
  also have "\<dots> = w_append (envelope_bytes (dm_type m) body) w"
    unfolding all envelope_bytes_def c2(2) c1(2) w_pos_append by (rule patched [OF live fits]) (simp add: uint16_bytes_def)
  finally have w': "w' = w_append (envelope_bytes (dm_type m) body) w" .
  have "length (envelope_bytes (dm_type m) body) \<le> w_room w" using fits by (simp add: envelope_bytes_def uint16_bytes_def)
  with that [OF lay body_def _ _ w' c3(1,2) dec] 4(1) len show thesis by simp
qed


lemma decode_message_okD:
  assumes "moq_d22_decode_message type (Arr body) ctx = Inr v" and "layout type ctx = Inr (flds, scope)"
  obtains r where "decode_body flds scope ctx (message_zero type) (moq_buf_reader_init (Arr body)) = (Inr (v, False), r)"
  using assms
  by (auto simp: moq_d22_decode_message_def moq_d22_scan_message_def split: if_splits prod.splits sum.splits)

text \<open>C5: Every draft-22 message that the encoder produces is read back. The envelope decoder at the point
  where the message was written returns its type and a payload of the stated length and stops at its end; the
  payload is accepted by the message decoder in the same context; and the decoded message has the fields the
  layout of its type carries, with the values that were given: request id, namespace, track name, alias,
  FETCH_OK and outcome fields, redirect, every parameter in order, and the property block with the fact
  whether it holds a mandatory property.\<close>

theorem message_round_trip:
  assumes "writer_valid w" and "moq_d22_encode_message m p ctx w = (MOQ_OK, w')"
  shows "\<exists>payload v flds scope. layout (dm_type m) ctx = Inr (flds, scope)
    \<and> moq_d22_decode_envelope \<lparr>rd_data = w_data w', rd_pos = w_pos w\<rparr>
      = (Inr \<lparr>ce_msg_type = dm_type m, ce_payload_len = of_nat (length payload), ce_payload = Arr payload\<rparr>,
         \<lparr>rd_data = w_data w', rd_pos = w_pos w'\<rparr>)
    \<and> moq_d22_decode_message (dm_type m) (Arr payload) ctx = Inr v
    \<and> message_same flds m p v"
proof -
  obtain flds scope body v where lay: "layout (dm_type m) ctx = Inr (flds, scope)"
      and body: "body = head_bytes flds m @ params_part flds p @ properties_part flds m" "length body \<le> 65535"
      and w': "length (envelope_bytes (dm_type m) body) \<le> w_room w" "w' = w_append (envelope_bytes (dm_type m) body) w"
      and given: "head_ok flds m" "has flds HAS_PARAMS \<Longrightarrow> params_read p scope (mc_max_filter_ranges ctx)"
      and dec: "moq_d22_decode_message (dm_type m) (Arr body) ctx = Inr v"
    by (rule encode_message_okD [OF assms]) (rule that)
  obtain r where run: "decode_body flds scope ctx (message_zero (dm_type m)) (moq_buf_reader_init (Arr body)) = (Inr (v, False), r)"
    by (rule decode_message_okD [OF dec lay])
  have "message_same flds m p v"
    by (rule decode_body_same [OF given init_live(1) _ run]) (simp_all add: init_live body(1))
  moreover have "moq_d22_decode_envelope \<lparr>rd_data = w_data w', rd_pos = w_pos w\<rparr>
      = (Inr \<lparr>ce_msg_type = dm_type m, ce_payload_len = of_nat (length body), ce_payload = Arr body\<rparr>,
         \<lparr>rd_data = w_data w', rd_pos = w_pos w'\<rparr>)"
    using reads_written [OF reads_envelope [OF body(2)] assms(1) w'(1) envelope_bytes_ne] w'(2) by simp
  ultimately show ?thesis using lay dec by blast
qed


definition done_example :: moq_d22_message where
  "done_example = (message_zero MOQ_D22_PUBLISH_DONE)\<lparr>dm_code := 2, dm_stream_count := 300, dm_reason := Arr [111, 107]\<rparr>"

definition context_example :: moq_d22_message_context where
  "context_example = \<lparr>mc_request_type = 0, mc_updated_request_type = 0, mc_update_from_subscriber = False,
     mc_max_filter_ranges = 8, mc_cluster = False\<rparr>"

abbreviation done_writer :: moq_buf_writer where
  "done_writer \<equiv> \<lparr>w_data = Arr (replicate 12 0), w_pos = 1\<rparr>"

lemma done_encoded:
  "moq_d22_encode_message done_example (Null 0) context_example done_writer
   = (MOQ_OK, \<lparr>w_data = Arr [0, 0x0B, 0, 6, 2, 0x81, 0x2C, 2, 111, 107, 0, 0], w_pos = 10\<rparr>)"
  by code_simp


theorem message_round_trip_witness:
  "\<exists>payload v flds scope. layout MOQ_D22_PUBLISH_DONE context_example = Inr (flds, scope)
    \<and> moq_d22_decode_envelope \<lparr>rd_data = Arr [0, 0x0B, 0, 6, 2, 0x81, 0x2C, 2, 111, 107, 0, 0], rd_pos = 1\<rparr>
      = (Inr \<lparr>ce_msg_type = MOQ_D22_PUBLISH_DONE, ce_payload_len = of_nat (length payload), ce_payload = Arr payload\<rparr>,
         \<lparr>rd_data = Arr [0, 0x0B, 0, 6, 2, 0x81, 0x2C, 2, 111, 107, 0, 0], rd_pos = 10\<rparr>)
    \<and> moq_d22_decode_message MOQ_D22_PUBLISH_DONE (Arr payload) context_example = Inr v
    \<and> message_same flds done_example (Null 0) v"
proof -
  have "dm_type done_example = MOQ_D22_PUBLISH_DONE" by (simp add: done_example_def message_zero_def)
  moreover have "writer_valid done_writer" by (simp add: writer_valid_def)
  ultimately show ?thesis
    using message_round_trip [OF _ done_encoded] by (simp only: moq_buf_writer.select_convs)
qed

end
