(* ===== verification/Spec2Isabelle.thy ===== *)
theory Spec2Isabelle
  imports Kvp ControlD22 RequestLifetime FillOwner TokenCache ParamsRound Handle TrackHist MalformedLog MalformedList Rcbuf ObjectGaps MessagesD22
begin

text \<open>
  A verification library for the protocol core of moq5, an implementation of Media over QUIC Transport in C.

  \<^bold>\<open>The program.\<close> The core (\<open>core/\<close>) is a session that performs no input or output. A wire layer
  (\<open>core/src/wire/\<close>) reads and writes the messages of drafts 16, 18 and 22 through bounded cursors. A session
  layer (\<open>core/src/session/\<close>) keeps the requests and a number of self-contained tables: the lifetime of a
  request stream, the fills a publisher owes, the tokens a peer registered, the largest Location of each Track, the
  records from which a Malformed Track is recognised. Payloads are reference counted buffers
  (\<open>core/src/base/\<close>), and everything is named to the application by 64-bit handles. Facades, services, a relay
  and transport adapters are built on top. The library models the wire layer of draft-22 and what the drafts
  share, and the tables of the session layer.

  \<^bold>\<open>Conventions.\<close> C integers are words of their width, so arithmetic wraps as in C; \<open>size_t\<close> is \<open>nat\<close> where
  the code has checked the range. A pointer with a length is \<open>cptr\<close>, which keeps the null pointer apart from
  an empty array. Fallible calls return \<open>moq_result + 'a\<close>; a structure that is updated through a pointer is
  passed and returned. An output pointer that every caller in the core passes as the address of a variable is
  part of the result, without its null check. The application's allocator is a parameter: \<open>h_grant\<close> decides each request, so
  statements hold whichever requests fail. Loops are recursive functions with termination proofs.

  \<^bold>\<open>Shared theories.\<close>
  \<^item> \<open>Prelude\<close>: words, byte strings, \<open>cptr\<close>, the result codes.
  \<^item> \<open>Heap\<close>: the allocator (\<open>moq_alloc_t\<close>) and the blocks that are outstanding.

  \<^bold>\<open>Wire layer.\<close>
  \<^item> \<open>Varint\<close>: \<open>vi64.c\<close> and \<open>quic_varint.c\<close>. Both encodings satisfy the locale \<open>int_codec\<close>; they round trip,
    no other encoding of a value is shorter than the one written, and decoders stay inside the buffer.
  \<^item> \<open>Buf\<close>: \<open>buf.c\<close> and \<open>buf.h\<close>. The cursors, the contracts \<open>reads\<close>, \<open>writes\<close> and \<open>wr_atomic\<close> with their
    composition lemmas, the locale \<open>int_io\<close>, and the namespace tuples of draft-16. A failing call leaves the cursor
    where it was; an accepted namespace is read back.
  \<^item> \<open>Kvp\<close>: \<open>kvp.c\<close>. The decoder returns exactly the entries whose wire forms make up the input;
    \<open>moq_kvp_list_add_int\<close> is sorted insertion that writes deltas in their shortest form, and \<open>moq_kvp_list_merge_int\<close> inserts, copies or refuses by the instances it counts.
  \<^item> \<open>ControlD22\<close>: \<open>control_d22.c\<close>. The envelope, SETUP and GOAWAY, location filter values. SETUP round trips,
    and the accepted option lists are characterised.
  \<^item> \<open>HopPath\<close>: \<open>moq_d22_validate_hop_path\<close> of \<open>params_d22.c\<close>. The hash table that splits the identifier space
    when it fills is the plain test for distinct identifiers.
  \<^item> \<open>ParamsD22\<close>, \<open>ParamsSpec\<close>, \<open>ParamsRound\<close>: the rest of \<open>params_d22.c\<close>. Which parameter sequences are
    accepted, that encoded sequences, namespaces and range filters are read back, and what the iterator of a range
    filter lists.
  \<^item> \<open>TrackProps\<close>: the property walks of \<open>messages_d22.c\<close> and \<open>control_d18.c\<close>. The locales \<open>pair_walk\<close> and
    \<open>container_walk\<close> relate a walk on cursors to a fold over the parsed pairs; four walks interpret them.
  \<^item> \<open>MessagesD22\<close>: the request messages of \<open>messages_d22.c\<close>. Every message the encoder produces is framed and
    decoded to the fields, parameters and properties that were given.

  \<^bold>\<open>Session layer.\<close>
  \<^item> \<open>RequestLifetime\<close>: \<open>request_lifetime.c\<close>, with the relation \<open>rl_reach\<close> of its runs. The recorded facts
    are consistent in every reachable state, and a refused call changes nothing but the record of a premature FIN.
  \<^item> \<open>FillOwner\<close>: \<open>fill_owner.c\<close>. Operations on a child satisfy the locale \<open>fill_entry_op\<close>. The invariant of
    the table, that a reference of a reclaimed child never resolves again, that a child is reclaimed only when
    nothing is owed, and the refinement of a map from request identifiers.
  \<^item> \<open>TokenCache\<close>: \<open>session_auth.c\<close>. The cache refines a bounded map (locale \<open>token_map\<close>); staging the
    token operations of a message and committing them equals processing them directly, and no memory is lost.
  \<^item> \<open>TrackHist\<close>: \<open>session_track_hist.c\<close> and the name checks of \<open>validate.h\<close>. Keys identify names, and the
    registry holds the maximum of the Locations seen on each Track.
  \<^item> \<open>Location\<close>: the filters and windows of \<open>session_track_hist.c\<close>, \<open>location_d22.c\<close>, \<open>profile_d22.c\<close>,
    \<open>fill_range.c\<close>, \<open>fill_input.c\<close> and the tests of \<open>publisher.c\<close> and \<open>session_subscribe.c\<close>. A window
    admits what the filter selects, at both ends and after the wire, and a fill streams the part that is past.
  \<^item> \<open>Handle\<close>: the packing of handles in \<open>types.c\<close>, and fill handles.
  \<^item> \<open>Malformed\<close>, \<open>MalformedLog\<close>, \<open>MalformedList\<close>: \<open>session_malformed.c\<close>. A verdict always names a real
    contradiction with the events accepted before, although the tables forget; while they have room, which
    contradictions are reported is described exactly (of the Prior Object ID Gaps of a group only the latest, and of
    its objects only the smallest and the largest, are compared); the record of an alias is kept as long as the
    alias names its Track.
  \<^item> \<open>ObjectGaps\<close>: the gaps of \<open>session_subgroup.c\<close> and \<open>profile_d18.c\<close>. What the publisher adds is what the
    receiver scans and accepts; this composes \<open>Kvp\<close>, \<open>TrackProps\<close>, \<open>Handle\<close> and \<open>Malformed\<close>.
  \<^item> \<open>Rcbuf\<close>: \<open>core/src/base/rcbuf.c\<close>. The clients are a step relation with the references they hold: a held
    buffer reads the bytes it was made with, and dropping all references returns all memory.

  \<^bold>\<open>Bounds.\<close> The probing loop of the hop table has 512 steps of fuel, the number of its slots; the code
  splits before the table is full, so a free slot is found and the validation is proved to return. Bodies, parameter
  blocks and property blocks are at most 65535 bytes, as in the code. The tables of Malformed Track detection have the
  code's sizes, 8 groups and 16 subgroups. The sizes charged for allocations are those of an LP64 platform: 40
  bytes for a token entry, 48 for a history record, 80 for a buffer header, 1152 for a Malformed Track record.

  \<^bold>\<open>Not modelled.\<close> The session object itself (\<open>session*.c\<close>, \<open>request_stream.c\<close>, the profiles): its handlers
  work on request pools and event and action queues inside one structure of about two hundred fields, and no handler
  can be stated faithfully without most of it; where a modelled component asks the session a question, such as which
  Track an alias names, the answer is a field of the model's state. The transport bridge and the adapters run in
  callbacks of third-party QUIC stacks. The message codecs of drafts 16 and 18, the facades beyond the window tests,
  URLs, the media libraries, the service layer, the relay, the simulator, the tools and the bindings rest on
  these or are independent of the protocol core. Atomicity of reference counts under concurrent threads is outside
  the model: a buffer belongs to one shard, as \<open>rcbuf.h\<close> requires.
\<close>

end
